(* ===== verification/Vcm_Prelude.thy ===== *)
theory Vcm_Prelude
  imports Main "HOL-Library.Word" "HOL-Library.Monad_Syntax"
begin

text \<open>
  Shared vocabulary of the development: the machine integers of the C sources, arrays with
  explicit out-of-bounds faults, C strings in fixed arrays, little-endian byte encodings, and the
  interface of an append-only bounded output buffer.

  A fault (an access outside an array, a read through a null pointer, a missing string terminator)
  is the value \<^term>\<open>None\<close> of the option monad in which the operations are written, so
  that a theorem of the form \<open>f x = Some y\<close> also says that the run touched no foreign memory.
\<close>

unbundle bit_operations_syntax

subsection \<open>Machine types\<close>

type_synonym u8 = "8 word"
type_synonym u16 = "16 word"
type_synonym u32 = "32 word"
type_synonym u64 = "64 word"

named_theorems layout_simps \<open>unfolding of byte layouts\<close>
named_theorems emit_intros \<open>composition rules for bounded output buffers\<close>

subsection \<open>Arrays with faults\<close>

definition fetch :: "'a list \<Rightarrow> nat \<Rightarrow> 'a option" where
  "fetch xs i = (if i < length xs then Some (xs ! i) else None)"

definition store :: "'a list \<Rightarrow> nat \<Rightarrow> 'a \<Rightarrow> 'a list option" where
  "store xs i v = (if i < length xs then Some (xs[i := v]) else None)"

lemma fetch_in [simp]: "i < length xs \<Longrightarrow> fetch xs i = Some (xs ! i)"
  by (simp add: fetch_def)

lemma fetch_out [simp]: "\<not> i < length xs \<Longrightarrow> fetch xs i = None"
  by (simp add: fetch_def)

lemma store_in [simp]: "i < length xs \<Longrightarrow> store xs i v = Some (xs[i := v])"
  by (simp add: store_def)

lemma store_out [simp]: "\<not> i < length xs \<Longrightarrow> store xs i v = None"
  by (simp add: store_def)

lemma fetch_SomeD: "fetch xs i = Some v \<Longrightarrow> i < length xs \<and> v = xs ! i"
  by (simp add: fetch_def split: if_splits)

lemma store_SomeD: "store xs i v = Some ys \<Longrightarrow> i < length xs \<and> ys = xs[i := v]"
  by (auto simp: store_def split: if_splits)

lemma store_length: "store xs i v = Some ys \<Longrightarrow> length ys = length xs"
  by (auto dest: store_SomeD)

lemma take_update_Suc: "n < length xs \<Longrightarrow> take (Suc n) (xs[n := v]) = take n xs @ [v]"
  by (simp add: take_Suc_conv_app_nth)

subsection \<open>C strings\<close>

text \<open>
  A C string value is the list of its bytes before the terminator; \<open>c_at\<close> reads it by index, the
  terminator included. \<open>c_string\<close> reads the string held in a character array, and faults
  when the array holds no terminator.
\<close>

definition c_at :: "u8 list \<Rightarrow> nat \<Rightarrow> u8" where
  "c_at p k = (if k < length p then p ! k else 0)"

definition c_string :: "u8 list \<Rightarrow> u8 list option" where
  "c_string a = (if 0 \<in> set a then Some (takeWhile (\<lambda>c. c \<noteq> 0) a) else None)"

definition ascii :: "string \<Rightarrow> u8 list" where
  "ascii s = map of_char s"

lemma ascii_simps [simp]: "ascii [] = []" "ascii (c # s) = of_char c # ascii s"
  by (simp_all add: ascii_def)

lemma c_at_simps [simp]:
  "c_at (c # p) 0 = c" "c_at (c # p) (Suc k) = c_at p k" "c_at [] k = 0"
  by (simp_all add: c_at_def)

lemma c_string_Some: "0 \<in> set a \<Longrightarrow> c_string a = Some (takeWhile (\<lambda>c. c \<noteq> 0) a)"
  by (simp add: c_string_def)

lemma c_string_nonzero: "c_string a = Some s \<Longrightarrow> 0 \<notin> set s"
  by (auto simp: c_string_def dest: set_takeWhileD split: if_splits)

lemma c_string_short: "c_string a = Some s \<Longrightarrow> length s < length a"
  by (induction a arbitrary: s) (auto simp: c_string_def split: if_splits)

lemma c_string_prefix:
  assumes "0 \<notin> set s" and "length s < length a" and "take (length s) a = s" and "a ! length s = 0"
  shows "c_string a = Some s"
proof -
  have a: "a = s @ 0 # drop (Suc (length s)) a"
    using assms by (metis append_take_drop_id Cons_nth_drop_Suc)
  have "takeWhile (\<lambda>c. c \<noteq> 0) (s @ 0 # drop (Suc (length s)) a) = s"
    using assms(1) by (subst takeWhile_append2) auto
  moreover have "0 \<in> set a"
    using assms(2,4) by (metis nth_mem)
  ultimately show ?thesis
    using a by (simp add: c_string_def)
qed

subsection \<open>Little-endian encodings\<close>

definition le16 :: "u16 \<Rightarrow> u8 list" where
  "le16 v = [ucast v, ucast (drop_bit 8 v)]"

definition le32 :: "u32 \<Rightarrow> u8 list" where
  "le32 v = le16 (ucast v) @ le16 (ucast (drop_bit 16 v))"

definition le64 :: "u64 \<Rightarrow> u8 list" where
  "le64 v = le32 (ucast v) @ le32 (ucast (drop_bit 32 v))"

definition of_le16 :: "u8 \<Rightarrow> u8 \<Rightarrow> u16" where
  "of_le16 a b = ucast a OR push_bit 8 (ucast b)"

definition of_le32 :: "u8 \<Rightarrow> u8 \<Rightarrow> u8 \<Rightarrow> u8 \<Rightarrow> u32" where
  "of_le32 a b c d = ucast a OR push_bit 8 (ucast b) OR push_bit 16 (ucast c) OR push_bit 24 (ucast d)"

lemma length_le [simp]: "length (le16 v) = 2" "length (le32 w) = 4" "length (le64 x) = 8"
  by (simp_all add: le16_def le32_def le64_def)

lemma of_le16_le16: "of_le16 (le16 v ! 0) (le16 v ! 1) = v"
  by (rule bit_word_eqI) (auto simp: of_le16_def le16_def bit_simps)

lemma le32_bytes:
  "le32 v = [ucast v, ucast (drop_bit 8 v), ucast (drop_bit 16 v), ucast (drop_bit 24 v)]"
  by (simp add: le32_def le16_def) (intro conjI; rule bit_word_eqI; simp add: bit_simps add.commute)

lemma of_le32_le32: "of_le32 (le32 v ! 0) (le32 v ! 1) (le32 v ! 2) (le32 v ! 3) = v"
proof (rule bit_word_eqI)
  fix n assume n: "n < LENGTH(32)"
  consider "n < 8" | "8 \<le> n" "n < 16" | "16 \<le> n" "n < 24" | "24 \<le> n" by linarith
  then show "bit (of_le32 (le32 v ! 0) (le32 v ! 1) (le32 v ! 2) (le32 v ! 3)) n = bit v n"
    using n by cases (simp_all add: of_le32_def le32_bytes bit_simps, auto)
qed

lemma length_concat_le16 [simp]: "length (concat (map le16 vs)) = 2 * length vs"
  by (induction vs) simp_all

lemma length_concat_le32 [simp]: "length (concat (map le32 vs)) = 4 * length vs"
  by (induction vs) simp_all

subsection \<open>Word arithmetic without wrap-around\<close>

lemma unat_of_nat_small: "n < 2 ^ LENGTH('w) \<Longrightarrow> unat (of_nat n :: 'w::len word) = n"
  by (simp add: unat_of_nat)

lemma ucast_of_nat_u8: "n < 2 ^ 32 \<Longrightarrow> ucast (of_nat n :: u32) = (of_nat n :: u8)"
  by (simp add: unsigned_of_nat take_bit_nat_eq_self)

lemma sint_of_nat_u32: "n < 2 ^ 31 \<Longrightarrow> sint (of_nat n :: u32) = int n"
  by (simp add: signed_of_nat signed_take_bit_int_eq_self)

lemma unat_u32_less: "unat (v :: u32) < 2 ^ 32"
  using unsigned_less [of v, where ?'a = nat] by simp

lemma unat_add_bounded:
  fixes a b :: "'w::len word"
  shows "unat a + unat b < 2 ^ LENGTH('w) \<Longrightarrow> unat (a + b) = unat a + unat b"
  by (simp add: unat_word_ariths)

lemma unat_Suc_bounded:
  fixes a :: "'w::len word"
  assumes "a < b"
  shows "unat (a + 1) = Suc (unat a)"
proof -
  have "Suc (unat a) \<le> unat b"
    using assms by (simp add: word_less_nat_alt Suc_le_eq)
  also have "unat b < 2 ^ LENGTH('w)" by (rule unsigned_less)
  finally show ?thesis
    by (simp add: unat_word_ariths)
qed

lemma unat_diff_le:
  fixes a b :: "'w::len word"
  shows "b \<le> a \<Longrightarrow> unat (a - b) = unat a - unat b"
  by (simp add: unat_sub)

lemma unat_two_power: "k < LENGTH('w) \<Longrightarrow> unat ((2 :: 'w::len word) ^ k) = 2 ^ k"
  using unat_of_nat_small [of "2 ^ k", where ?'w = 'w] by simp

lemma unat_or_less:
  fixes a b :: "'w::len word"
  assumes "unat a < 2 ^ n" and "unat b < 2 ^ n"
  shows "unat (a OR b) < 2 ^ n"
proof -
  have "take_bit n (unat a OR unat b) = unat a OR unat b"
    using assms by (simp add: take_bit_or take_bit_nat_eq_self)
  then have "unat a OR unat b < 2 ^ n" by (metis take_bit_nat_less_exp)
  then show ?thesis by (simp add: unsigned_or_eq)
qed

lemma word_value: "unat x = n \<Longrightarrow> x = of_nat n"
  by auto

lemma unat_ucast_u8 [simp]: "unat (ucast (x :: u8) :: u32) = unat x"
  by (simp add: unsigned_ucast_eq take_bit_nat_eq_self less_trans [OF unsigned_less])

lemma unat_shifted_byte:
  fixes x :: u8
  assumes "k \<le> 24"
  shows "unat (push_bit k (ucast x) :: u32) = unat x * 2 ^ k"
proof -
  have "unat x * 2 ^ k < 2 ^ 8 * 2 ^ k" using unsigned_less [of x] by simp
  also have "\<dots> \<le> 2 ^ 8 * 2 ^ 24" using assms by (intro mult_left_mono power_increasing) auto
  finally have "unat x * 2 ^ k < 2 ^ 32" by simp
  then show ?thesis
    using assms by (simp add: push_bit_eq_mult unat_word_ariths unat_two_power)
qed

lemma unat_and_le: "unat (c AND m) \<le> unat (m :: 'w::len word)"
  using word_and_le1 [of c m] by (simp add: word_le_nat_alt)

lemma and_not_mask:
  "y AND NOT (mask k) = push_bit k (drop_bit k (y :: 'w::len word))"
proof (rule bit_eqI)
  fix n show "bit (y AND NOT (mask k)) n = bit (push_bit k (drop_bit k y)) n"
  proof (cases "n < k")
    case False
    then obtain m where "n = k + m" by (auto simp: not_less le_iff_add)
    then show ?thesis by (auto simp: bit_simps dest: bit_imp_le_length)
  qed (simp add: bit_simps)
qed

lemma unat_and_not_mask:
  "unat (y AND NOT (mask k) :: 'w::len word) = unat y div 2 ^ k * 2 ^ k"
proof -
  have d: "unat (drop_bit k y) = unat y div 2 ^ k" by (subst unat_drop_bit_eq) (rule drop_bit_eq_div)
  have "unat (push_bit k (drop_bit k y)) = unat (drop_bit k y) * 2 ^ k"
  proof -
    have l: "unat (drop_bit k y) * 2 ^ k < 2 ^ LENGTH('w)"
      unfolding d by (rule le_less_trans [OF div_times_less_eq_dividend]) (rule unsigned_less)
    have "unat (push_bit k (drop_bit k y)) = take_bit LENGTH('w) (push_bit k (unat (drop_bit k y)))"
      by (simp add: unsigned_push_bit_eq)
    then show ?thesis using l by (simp add: push_bit_eq_mult take_bit_nat_def)
  qed
  then show ?thesis by (simp only: and_not_mask d)
qed

lemma masked_shift_less:
  fixes c :: u8
  assumes "k \<le> 24" and "unat m * 2 ^ k < 2 ^ n"
  shows "unat (push_bit k (ucast (c AND m)) :: u32) < 2 ^ n"
proof -
  have "unat (c AND m) * 2 ^ k \<le> unat m * 2 ^ k" by (rule mult_le_mono1 [OF unat_and_le])
  also note assms(2)
  finally show ?thesis using assms(1) by (simp add: unat_shifted_byte)
qed

lemma masked_byte_less:
  fixes c :: u8
  shows "unat m < 2 ^ n \<Longrightarrow> unat (ucast (c AND m) :: u32) < 2 ^ n"
  using masked_shift_less [of 0 m n c] by simp

subsection \<open>Bounded output buffers\<close>

text \<open>
  The interface of a buffer that a producer appends to and that remembers running out of room.
  A producer \<open>f\<close> \<open>emits xs\<close> when it appends exactly \<open>xs\<close> if that fits, and otherwise
  sets the failure mark, always inside the buffer. Producers compose by concatenation.
\<close>

locale bounded_sink =
  fixes inv :: "'s \<Rightarrow> bool"
    and payload :: "'s \<Rightarrow> 'a list"
    and room :: "'s \<Rightarrow> nat"
    and failed :: "'s \<Rightarrow> bool"
    and frame :: "'s \<Rightarrow> 'f"
    and put :: "'s \<Rightarrow> 'a \<Rightarrow> 's option"
  assumes put_failed: "inv s \<Longrightarrow> failed s \<Longrightarrow> put s x = Some s"
    and put_full: "inv s \<Longrightarrow> \<not> failed s \<Longrightarrow> room s = 0 \<Longrightarrow>
      \<exists>s'. put s x = Some s' \<and> inv s' \<and> failed s' \<and> frame s' = frame s"
    and put_fits: "inv s \<Longrightarrow> \<not> failed s \<Longrightarrow> 0 < room s \<Longrightarrow>
      \<exists>s'. put s x = Some s' \<and> inv s' \<and> \<not> failed s' \<and> frame s' = frame s \<and>
        payload s' = payload s @ [x] \<and> room s' = room s - 1"
begin

definition emits :: "('s \<Rightarrow> 's option) \<Rightarrow> 'a list \<Rightarrow> bool" where
  "emits f xs \<longleftrightarrow> (\<forall>s. inv s \<longrightarrow>
     (if failed s then f s = Some s
      else (\<exists>s'. f s = Some s' \<and> inv s' \<and> frame s' = frame s \<and>
        (if room s < length xs then failed s'
         else \<not> failed s' \<and> payload s' = payload s @ xs \<and> room s' = room s - length xs))))"

lemma emits_put: "emits (\<lambda>s. put s x) [x]"
  unfolding emits_def
proof (intro allI impI)
  fix s assume inv: "inv s"
  show "if failed s then put s x = Some s
    else (\<exists>s'. put s x = Some s' \<and> inv s' \<and> frame s' = frame s \<and>
      (if room s < length [x] then failed s'
       else \<not> failed s' \<and> payload s' = payload s @ [x] \<and> room s' = room s - length [x]))"
    using put_failed [OF inv] put_full [OF inv, of x] put_fits [OF inv, of x]
    by (cases "room s = 0") auto
qed

lemma emits_return: "emits Some []"
  by (auto simp: emits_def)

lemma emits_seq:
  assumes f: "emits f xs" and g: "emits g ys"
  shows "emits (\<lambda>s. f s \<bind> g) (xs @ ys)"
  unfolding emits_def
proof (intro allI impI)
  fix s assume inv: "inv s"
  show "if failed s then f s \<bind> g = Some s
    else (\<exists>s'. f s \<bind> g = Some s' \<and> inv s' \<and> frame s' = frame s \<and>
      (if room s < length (xs @ ys) then failed s'
       else \<not> failed s' \<and> payload s' = payload s @ xs @ ys \<and> room s' = room s - length (xs @ ys)))"
  proof (cases "failed s")
    case True
    with inv f g show ?thesis by (auto simp: emits_def)
  next
    case False
    with inv f obtain t where t: "f s = Some t" "inv t" "frame t = frame s"
      "if room s < length xs then failed t
       else \<not> failed t \<and> payload t = payload s @ xs \<and> room t = room s - length xs"
      unfolding emits_def by metis
    show ?thesis
    proof (cases "failed t")
      case True
      with t g have "g t = Some t" by (auto simp: emits_def)
      with True False t show ?thesis by (auto split: if_splits)
    next
      case nf: False
      with t(2) g obtain s' where "g t = Some s'" "inv s'" "frame s' = frame t"
        "if room t < length ys then failed s'
         else \<not> failed s' \<and> payload s' = payload t @ ys \<and> room s' = room t - length ys"
        unfolding emits_def by metis
      with t nf False show ?thesis by (auto split: if_splits)
    qed
  qed
qed

lemma emits_seq_lambda:
  assumes "emits f xs" and "emits (\<lambda>s. g s) ys"
  shows "emits (\<lambda>s. do { s \<leftarrow> f s; g s }) (xs @ ys)"
  using emits_seq [OF assms] by simp

lemma emits_failed: "emits f xs \<Longrightarrow> inv s \<Longrightarrow> failed s \<Longrightarrow> f s = Some s"
  by (auto simp: emits_def)

lemma emits_full:
  "emits f xs \<Longrightarrow> inv s \<Longrightarrow> \<not> failed s \<Longrightarrow> room s < length xs \<Longrightarrow>
    \<exists>s'. f s = Some s' \<and> inv s' \<and> failed s' \<and> frame s' = frame s"
  unfolding emits_def by metis

lemma emits_fits:
  "emits f xs \<Longrightarrow> inv s \<Longrightarrow> \<not> failed s \<Longrightarrow> length xs \<le> room s \<Longrightarrow>
    \<exists>s'. f s = Some s' \<and> inv s' \<and> \<not> failed s' \<and> frame s' = frame s \<and>
      payload s' = payload s @ xs \<and> room s' = room s - length xs"
  unfolding emits_def by (metis not_less)

end

end
