(* ===== verification/Mtp_Catalog.thy ===== *)
theory Mtp_Catalog
  imports Vcm_Prelude
begin

text \<open>
  The media catalogue of \<^verbatim>\<open>src/vita/mtp_catalog.c\<close> and \<^verbatim>\<open>mtp_catalog.h\<close>: an array of
  entries in caller-provided storage, the first three of them the immutable root folders. A handle
  is the index of its entry plus one. The lemmas show that the catalogue's invariant is kept by
  every operation, that a handle keeps naming the entry it was given for, and that enumeration
  returns exactly the matching entries.
\<close>

subsection \<open>Data\<close>

abbreviation (input) VCM_MTP_PHOTO :: "'a::zero" where "VCM_MTP_PHOTO \<equiv> 0"
abbreviation (input) VCM_MTP_MUSIC :: "'a::one" where "VCM_MTP_MUSIC \<equiv> 1"
abbreviation (input) VCM_MTP_VIDEO :: "'a::numeral" where "VCM_MTP_VIDEO \<equiv> 2"
abbreviation (input) VCM_MTP_SIDECAR :: "'a::numeral" where "VCM_MTP_SIDECAR \<equiv> 3"
abbreviation (input) VCM_MTP_FOLDER :: "'a::numeral" where "VCM_MTP_FOLDER \<equiv> 4"
abbreviation (input) VCM_MTP_STORAGE_ID :: u32 where "VCM_MTP_STORAGE_ID \<equiv> 0x00010001"
abbreviation (input) VCM_MTP_ALL_HANDLES :: u32 where "VCM_MTP_ALL_HANDLES \<equiv> 0"
abbreviation (input) VCM_MTP_ROOT_HANDLE :: u32 where "VCM_MTP_ROOT_HANDLE \<equiv> 0xffffffff"
abbreviation (input) VCM_MTP_NO_PARENT :: u32 where "VCM_MTP_NO_PARENT \<equiv> 0"

record VcmMtpEntry =
  e_native_id :: u64
  e_size :: u64
  e_handle :: u32
  e_parent :: u32
  e_format :: u16
  e_kind :: u8
  e_name :: "u8 list"
  e_display_name :: "u8 list"
  e_title :: "u8 list"
  e_artist :: "u8 list"
  e_album :: "u8 list"
  e_created :: "u8 list"
  e_modified :: "u8 list"
  e_thumb_size :: u32
  e_thumb_width :: u16
  e_thumb_height :: u16
  e_width :: u32
  e_height :: u32

record VcmMtpCatalog =
  c_entries :: "VcmMtpEntry list option"
  c_count :: u32
  c_capacity :: u32

subsection \<open>Operations\<close>

definition name_char_refused :: "u8 \<Rightarrow> bool" where
  "name_char_refused c \<longleftrightarrow> c < 32 \<or> c = 127 \<or> c = 0x2f \<or> c = 0x5c \<or> c = 0x3a"

text \<open>
  The copying loop of \<open>copy_name\<close>: the target array, the number of bytes copied and whether the
  loop left the function by its error return.
\<close>

fun copy_name_loop :: "u8 list \<Rightarrow> nat \<Rightarrow> u8 list \<Rightarrow> (u8 list \<times> nat \<times> bool) option" where
  "copy_name_loop target len [] = Some (target, len, False)"
| "copy_name_loop target len (c # source) =
     (if c = 0 then Some (target, len, False)
      else if len \<ge> 240 \<or> name_char_refused c then Some (target, len, True)
      else do { target \<leftarrow> store target len c; copy_name_loop target (Suc len) source })"

definition copy_name :: "u8 list \<Rightarrow> u8 list option \<Rightarrow> (int \<times> u8 list) option" where
  "copy_name target source =
     (case source of
        None \<Rightarrow> Some (- 1, target)
      | Some s \<Rightarrow>
          if c_at s 0 = 0 then Some (- 1, target)
          else do {
            (target, len, returned) \<leftarrow> copy_name_loop target 0 s;
            if returned then Some (- 1, target)
            else do {
              last \<leftarrow> fetch target (len - 1);
              if last = 0x20 \<or> last = 0x2e then Some (- 1, target)
              else do { target \<leftarrow> store target len 0; Some (0, target) }
            }
          })"

definition clear_entry :: VcmMtpEntry where
  "clear_entry =
     \<lparr>e_native_id = 0, e_size = 0, e_handle = 0, e_parent = 0, e_format = 0, e_kind = 0,
      e_name = replicate 256 0, e_display_name = replicate 256 0, e_title = replicate 256 0,
      e_artist = replicate 128 0, e_album = replicate 128 0, e_created = replicate 24 0,
      e_modified = replicate 24 0, e_thumb_size = 0, e_thumb_width = 0, e_thumb_height = 0,
      e_width = 0, e_height = 0\<rparr>"

definition folder :: "u32 \<Rightarrow> u8 list \<Rightarrow> VcmMtpEntry option" where
  "folder handle name = do {
     let entry = clear_entry\<lparr>e_native_id := 0, e_size := 0, e_handle := handle,
       e_parent := VCM_MTP_NO_PARENT, e_format := 0x3001, e_kind := VCM_MTP_FOLDER\<rparr>;
     (_, n) \<leftarrow> copy_name (e_name entry) (Some name);
     (_, d) \<leftarrow> copy_name (e_display_name entry) (Some name);
     Some (entry\<lparr>e_name := n, e_display_name := d\<rparr>)
   }"

text \<open>The result of \<open>vcm_mtp_catalog_init\<close> is \<^term>\<open>Inl\<close> of its error code, with nothing written.\<close>

definition vcm_mtp_catalog_init ::
    "VcmMtpEntry list option \<Rightarrow> u32 \<Rightarrow> (int + VcmMtpCatalog) option" where
  "vcm_mtp_catalog_init storage capacity =
     (case storage of
        None \<Rightarrow> Some (Inl (- 1))
      | Some es \<Rightarrow>
          if capacity < 3 then Some (Inl (- 1))
          else do {
            photo \<leftarrow> folder 1 (ascii ''Photo'');
            es \<leftarrow> store es 0 photo;
            music \<leftarrow> folder 2 (ascii ''Music'');
            es \<leftarrow> store es 1 music;
            video \<leftarrow> folder 3 (ascii ''Video'');
            es \<leftarrow> store es 2 video;
            Some (Inr \<lparr>c_entries = Some es, c_count = 3, c_capacity = capacity\<rparr>)
          })"

definition parent_of_kind :: "int \<Rightarrow> u32" where
  "parent_of_kind kind = (if kind = VCM_MTP_PHOTO then 1 else if kind = VCM_MTP_MUSIC then 2 else 3)"

definition vcm_mtp_catalog_add ::
    "VcmMtpCatalog \<Rightarrow> int \<Rightarrow> u64 \<Rightarrow> u8 list option \<Rightarrow> u64 \<Rightarrow> u16 \<Rightarrow> (u32 \<times> VcmMtpCatalog) option" where
  "vcm_mtp_catalog_add catalog kind native_id name size0 format =
     (case c_entries catalog of
        None \<Rightarrow> Some (0, catalog)
      | Some es \<Rightarrow>
          if c_count catalog \<ge> c_capacity catalog \<or> c_count catalog \<ge> 0xfffffffe \<or>
             native_id = 0 \<or> (word_of_int kind :: u32) > VCM_MTP_SIDECAR \<or>
             size0 = 0 \<or> size0 > 0xfffffff3 \<or> format = 0 \<or> format = 0x3001
          then Some (0, catalog)
          else do {
            let i = unat (c_count catalog);
            let entry = clear_entry;
            (status, n) \<leftarrow> copy_name (e_name entry) name;
            let entry = entry\<lparr>e_name := n\<rparr>;
            if status < 0 then do {
              es \<leftarrow> store es i entry;
              Some (0, catalog\<lparr>c_entries := Some es\<rparr>)
            } else do {
              (status, d) \<leftarrow> copy_name (e_display_name entry) name;
              let entry = entry\<lparr>e_display_name := d\<rparr>;
              if status < 0 then do {
                es \<leftarrow> store es i entry;
                Some (0, catalog\<lparr>c_entries := Some es\<rparr>)
              } else do {
                let entry = entry\<lparr>e_title := (e_title entry)[0 := 0],
                  e_artist := (e_artist entry)[0 := 0], e_album := (e_album entry)[0 := 0],
                  e_created := (e_created entry)[0 := 0], e_modified := (e_modified entry)[0 := 0],
                  e_thumb_size := 0, e_thumb_width := 0, e_thumb_height := 0,
                  e_width := 0, e_height := 0,
                  e_native_id := native_id, e_size := size0, e_handle := c_count catalog + 1,
                  e_parent := parent_of_kind kind, e_format := format, e_kind := word_of_int kind\<rparr>;
                es \<leftarrow> store es i entry;
                Some (e_handle entry, catalog\<lparr>c_entries := Some es, c_count := c_count catalog + 1\<rparr>)
              }
            }
          })"

text \<open>
  A lookup that finds nothing is \<open>Some None\<close>; \<^term>\<open>None\<close> is a read outside the entry array.
\<close>

definition vcm_mtp_catalog_get ::
    "VcmMtpCatalog option \<Rightarrow> u32 \<Rightarrow> VcmMtpEntry option option" where
  "vcm_mtp_catalog_get catalog handle =
     (case catalog of
        None \<Rightarrow> Some None
      | Some c \<Rightarrow>
          case c_entries c of
            None \<Rightarrow> Some None
          | Some es \<Rightarrow>
              if handle = 0 \<or> handle > c_count c then Some None
              else do {
                entry \<leftarrow> fetch es (unat (handle - 1));
                Some (if e_handle entry = handle then Some entry else None)
              })"

definition child_matches :: "u32 \<Rightarrow> u16 \<Rightarrow> VcmMtpEntry \<Rightarrow> bool" where
  "child_matches parent format entry \<longleftrightarrow>
     \<not> ((parent \<noteq> VCM_MTP_ALL_HANDLES \<and>
         e_parent entry \<noteq> (if parent = VCM_MTP_ROOT_HANDLE then VCM_MTP_NO_PARENT else parent)) \<or>
        (format \<noteq> 0 \<and> e_format entry \<noteq> format))"

text \<open>
  The enumeration loop runs over the first \<open>count\<close> entries; \<open>out\<close> is the optional output array
  and \<open>found\<close> the number of matches so far.
\<close>

fun children_loop ::
    "VcmMtpEntry list \<Rightarrow> u32 \<Rightarrow> u16 \<Rightarrow> u32 list option \<Rightarrow> u32 \<Rightarrow> u32 \<Rightarrow> (u32 \<times> u32 list option) option" where
  "children_loop [] parent format out out_capacity found = Some (found, out)"
| "children_loop (entry # es) parent format out out_capacity found =
     (if \<not> child_matches parent format entry
      then children_loop es parent format out out_capacity found
      else case out of
        None \<Rightarrow> children_loop es parent format out out_capacity (found + 1)
      | Some o1 \<Rightarrow>
          if found < out_capacity then do {
            o2 \<leftarrow> store o1 (unat found) (e_handle entry);
            children_loop es parent format (Some o2) out_capacity (found + 1)
          } else children_loop es parent format out out_capacity (found + 1))"

definition vcm_mtp_catalog_children ::
    "VcmMtpCatalog option \<Rightarrow> u32 \<Rightarrow> u16 \<Rightarrow> u32 list option \<Rightarrow> u32 \<Rightarrow> (u32 \<times> u32 list option) option" where
  "vcm_mtp_catalog_children catalog parent format out out_capacity =
     (case catalog of
        None \<Rightarrow> Some (0, out)
      | Some c \<Rightarrow>
          case c_entries c of
            None \<Rightarrow> Some (0, out)
          | Some es \<Rightarrow> do {
              known \<leftarrow> (if parent = VCM_MTP_ROOT_HANDLE \<or> parent = VCM_MTP_ALL_HANDLES then Some True
                else do {
                  entry \<leftarrow> vcm_mtp_catalog_get catalog parent;
                  Some (entry \<noteq> None \<and> \<not> parent > 3)
                });
              if \<not> known then Some (0, out)
              else if length es < unat (c_count c) then None
              else children_loop (take (unat (c_count c)) es) parent format out out_capacity 0
            })"

subsection \<open>Well-formed entries\<close>

definition entry_strings_ok :: "VcmMtpEntry \<Rightarrow> bool" where
  "entry_strings_ok e \<longleftrightarrow>
     length (e_name e) = 256 \<and> length (e_display_name e) = 256 \<and> length (e_title e) = 256 \<and>
     length (e_artist e) = 128 \<and> length (e_album e) = 128 \<and>
     length (e_created e) = 24 \<and> length (e_modified e) = 24 \<and>
     0 \<in> set (e_name e) \<and> 0 \<in> set (e_display_name e) \<and> 0 \<in> set (e_title e) \<and>
     0 \<in> set (e_artist e) \<and> 0 \<in> set (e_album e) \<and> 0 \<in> set (e_created e) \<and>
     0 \<in> set (e_modified e)"

text \<open>
  The invariant has two layers: \<open>catalog_wf\<close> is what the server and the engine rely on, and
  holds of a catalogue received over the bridge too; \<open>catalog_inv\<close> adds what \<open>vcm_mtp_catalog_add\<close>
  admits.
\<close>

definition visible :: "VcmMtpCatalog \<Rightarrow> VcmMtpEntry list" where
  "visible c = (case c_entries c of None \<Rightarrow> [] | Some es \<Rightarrow> take (unat (c_count c)) es)"

definition entry_wf :: "nat \<Rightarrow> VcmMtpEntry \<Rightarrow> bool" where
  "entry_wf i e \<longleftrightarrow>
     entry_strings_ok e \<and> unat (e_handle e) = Suc i \<and> e_kind e \<le> 4 \<and>
     (e_kind e = VCM_MTP_FOLDER \<longleftrightarrow> i < 3) \<and>
     e_parent e = (if i < 3 then VCM_MTP_NO_PARENT else parent_of_kind (uint (e_kind e)))"

definition catalog_wf :: "VcmMtpCatalog \<Rightarrow> bool" where
  "catalog_wf c \<longleftrightarrow>
     (\<exists>es. c_entries c = Some es \<and> 3 \<le> c_count c \<and> c_count c \<le> c_capacity c \<and>
        unat (c_capacity c) \<le> length es) \<and>
     (\<forall>i < length (visible c). entry_wf i (visible c ! i))"

definition valid_name :: "u8 list \<Rightarrow> bool" where
  "valid_name s \<longleftrightarrow>
     s \<noteq> [] \<and> length s \<le> 240 \<and> (\<forall>c \<in> set s. \<not> name_char_refused c) \<and> last s \<noteq> 0x20 \<and> last s \<noteq> 0x2e"

definition media_ok :: "VcmMtpEntry \<Rightarrow> bool" where
  "media_ok e \<longleftrightarrow>
     e_native_id e \<noteq> 0 \<and> e_size e \<noteq> 0 \<and> e_size e \<le> 0xfffffff3 \<and>
     e_format e \<noteq> 0 \<and> e_format e \<noteq> 0x3001 \<and>
     (\<exists>s. c_string (e_name e) = Some s \<and> valid_name s)"

definition catalog_inv :: "VcmMtpCatalog \<Rightarrow> bool" where
  "catalog_inv c \<longleftrightarrow> catalog_wf c \<and> (\<forall>e \<in> set (drop 3 (visible c)). media_ok e) \<and>
     map e_size (take 3 (visible c)) = [0, 0, 0]"

subsection \<open>Copying names\<close>

lemma copy_name_loop_ok:
  assumes "\<forall>c \<in> set s. \<not> name_char_refused c" and "len + length s \<le> 240" and "length target = 256"
  shows "copy_name_loop target len s =
    Some (take len target @ s @ drop (len + length s) target, len + length s, False)"
  using assms
proof (induction s arbitrary: target len)
  case Nil
  then show ?case by simp
next
  case (Cons c s)
  then have "c \<noteq> 0" by (auto simp: name_char_refused_def)
  with Cons show ?case
    by (simp add: take_update_Suc)
qed

lemma copy_name_loop_bad:
  assumes "length target = 256" and "0 \<notin> set s" and "len \<le> 240"
    and "\<not> ((\<forall>c \<in> set s. \<not> name_char_refused c) \<and> len + length s \<le> 240)"
  shows "\<exists>t n. copy_name_loop target len s = Some (t, n, True) \<and> length t = 256"
  using assms
proof (induction s arbitrary: target len)
  case Nil
  then show ?case by simp
next
  case (Cons c s)
  show ?case
  proof (cases "240 \<le> len \<or> name_char_refused c")
    case True
    with Cons.prems show ?thesis by auto
  next
    case False
    with Cons.prems have "\<not> ((\<forall>c \<in> set s. \<not> name_char_refused c) \<and> Suc len + length s \<le> 240)"
      by auto
    with Cons.IH [of "target[len := c]" "Suc len"] Cons.prems False show ?thesis by auto
  qed
qed

lemma copy_name_spec:
  assumes "length target = 256" and "0 \<notin> set s"
  shows "\<exists>t. copy_name target (Some s) = Some (if valid_name s then 0 else - 1, t) \<and> length t = 256 \<and>
    (valid_name s \<longrightarrow> t = s @ 0 # drop (Suc (length s)) target)"
proof (cases s)
  case Nil
  with assms show ?thesis by (simp add: copy_name_def valid_name_def)
next
  case (Cons c cs)
  then have c: "c_at s 0 \<noteq> 0" using assms(2) by auto
  show ?thesis
  proof (cases "(\<forall>c \<in> set s. \<not> name_char_refused c) \<and> length s \<le> 240")
    case True
    let ?t = "s @ drop (length s) target"
    have loop: "copy_name_loop target 0 s = Some (?t, length s, False)"
      using copy_name_loop_ok [of s 0 target] True assms(1) by simp
    have last: "fetch ?t (length s - 1) = Some (last s)"
      using Cons assms(1) True by (simp add: last_conv_nth nth_append)
    have store: "store ?t (length s) 0 = Some (s @ 0 # drop (Suc (length s)) target)"
      using True assms(1) by (simp add: list_update_append drop_update_cancel Cons_nth_drop_Suc [symmetric])
    show ?thesis
      using c loop last store True Cons assms(1)
      by (auto simp: copy_name_def valid_name_def)
  next
    case False
    then obtain t n where "copy_name_loop target 0 s = Some (t, n, True)" "length t = 256"
      using copy_name_loop_bad [OF assms, of 0] by auto
    with c False show ?thesis by (auto simp: copy_name_def valid_name_def)
  qed
qed

lemma valid_name_nonzero: "valid_name s \<Longrightarrow> 0 \<notin> set s"
proof -
  have "name_char_refused 0" by (simp add: name_char_refused_def)
  then show "valid_name s \<Longrightarrow> 0 \<notin> set s" unfolding valid_name_def by blast
qed

lemma copied_name_string:
  assumes "valid_name s" and "length target = 256"
  shows "c_string (s @ 0 # drop (Suc (length s)) target) = Some s"
    and "length (s @ 0 # drop (Suc (length s)) target) = 256"
proof -
  have "0 \<notin> set s" using assms(1) by (rule valid_name_nonzero)
  then have "takeWhile (\<lambda>c. c \<noteq> 0) (s @ 0 # xs) = s" for xs
    by (subst takeWhile_append2) auto
  then show "c_string (s @ 0 # drop (Suc (length s)) target) = Some s"
    by (simp add: c_string_def)
  show "length (s @ 0 # drop (Suc (length s)) target) = 256"
    using assms by (simp add: valid_name_def)
qed

subsection \<open>The invariant is established and kept\<close>

lemma visible_Some [simp]: "c_entries c = Some es \<Longrightarrow> visible c = take (unat (c_count c)) es"
  by (simp add: visible_def)

lemma catalog_wf_length:
  "catalog_wf c \<Longrightarrow> length (visible c) = unat (c_count c)"
  by (auto simp: catalog_wf_def word_le_nat_alt)

lemma folder_spec:
  assumes "valid_name name" and "unat handle = Suc i" and "i < 3"
  shows "\<exists>e. folder handle name = Some e \<and> entry_wf i e \<and> e_size e = 0 \<and> e_format e = 0x3001 \<and>
    c_string (e_name e) = Some name \<and> c_string (e_display_name e) = Some name"
proof -
  have z: "0 \<notin> set name" using assms(1) by (rule valid_name_nonzero)
  let ?n = "name @ 0 # drop (Suc (length name)) (replicate 256 0)"
  have "copy_name (replicate 256 0) (Some name) = Some (0, ?n)"
    using copy_name_spec [of "replicate 256 0" name] z assms(1) by auto
  then show ?thesis
    using assms copied_name_string [OF assms(1), of "replicate 256 0"]
    by (auto simp: folder_def clear_entry_def entry_wf_def entry_strings_ok_def)
qed

lemma root_names: "valid_name (ascii ''Photo'')" "valid_name (ascii ''Music'')" "valid_name (ascii ''Video'')"
  by (simp_all add: valid_name_def name_char_refused_def)

lemma catalog_init_spec:
  assumes "3 \<le> capacity" and "length storage = unat capacity"
  shows "\<exists>c. vcm_mtp_catalog_init (Some storage) capacity = Some (Inr c) \<and> catalog_inv c \<and>
    c_capacity c = capacity \<and> c_count c = 3 \<and>
    map (\<lambda>e. c_string (e_name e)) (visible c) = [Some (ascii ''Photo''), Some (ascii ''Music''), Some (ascii ''Video'')]"
proof -
  obtain e0 where e0: "folder 1 (ascii ''Photo'') = Some e0" "entry_wf 0 e0" "e_size e0 = 0"
    "c_string (e_name e0) = Some (ascii ''Photo'')"
    using folder_spec [OF root_names(1), of 1 0] by auto
  obtain e1 where e1: "folder 2 (ascii ''Music'') = Some e1" "entry_wf 1 e1" "e_size e1 = 0"
    "c_string (e_name e1) = Some (ascii ''Music'')"
    using folder_spec [OF root_names(2), of 2 1] by auto
  obtain e2 where e2: "folder 3 (ascii ''Video'') = Some e2" "entry_wf 2 e2" "e_size e2 = 0"
    "c_string (e_name e2) = Some (ascii ''Video'')"
    using folder_spec [OF root_names(3), of 3 2] by auto
  have "3 \<le> length storage" using assms by (simp add: word_le_nat_alt)
  then obtain a b d rest where st: "storage = a # b # d # rest"
    by (metis Suc_le_length_iff numeral_3_eq_3)
  let ?c = "\<lparr>c_entries = Some (e0 # e1 # e2 # rest), c_count = 3, c_capacity = capacity\<rparr>"
  have run: "vcm_mtp_catalog_init (Some storage) capacity = Some (Inr ?c)"
    using assms(1) e0(1) e1(1) e2(1) unfolding vcm_mtp_catalog_init_def st by simp
  have vis: "visible ?c = [e0, e1, e2]" by simp
  have "entry_wf i ([e0, e1, e2] ! i)" if "i < 3" for i
    using that e0(2) e1(2) e2(2) by (auto simp: less_Suc_eq numeral_3_eq_3 numeral_2_eq_2)
  then have "catalog_inv ?c"
    using assms st e0(3) e1(3) e2(3) by (simp add: catalog_inv_def catalog_wf_def vis)
  with run vis e0(4) e1(4) e2(4) show ?thesis by auto
qed

text \<open>The requests that \<open>vcm_mtp_catalog_add\<close> accepts.\<close>

definition admissible ::
    "VcmMtpCatalog \<Rightarrow> int \<Rightarrow> u64 \<Rightarrow> u8 list option \<Rightarrow> u64 \<Rightarrow> u16 \<Rightarrow> bool" where
  "admissible c kind native_id name size0 format \<longleftrightarrow>
     c_count c < c_capacity c \<and> c_count c < 0xfffffffe \<and> native_id \<noteq> 0 \<and> kind \<in> {0..3} \<and>
     size0 \<noteq> 0 \<and> size0 \<le> 0xfffffff3 \<and> format \<noteq> 0 \<and> format \<noteq> 0x3001 \<and>
     (\<exists>s. name = Some s \<and> valid_name s)"

definition new_entry :: "VcmMtpCatalog \<Rightarrow> int \<Rightarrow> u64 \<Rightarrow> u8 list \<Rightarrow> u64 \<Rightarrow> u16 \<Rightarrow> VcmMtpEntry" where
  "new_entry c kind native_id name size0 format =
     clear_entry\<lparr>e_name := name @ replicate (256 - length name) 0,
       e_display_name := name @ replicate (256 - length name) 0,
       e_native_id := native_id, e_size := size0, e_handle := c_count c + 1,
       e_parent := parent_of_kind kind, e_format := format, e_kind := word_of_int kind\<rparr>"

lemma kind_guard:
  assumes "- (2 ^ 31) \<le> kind" and "kind < 2 ^ 31"
  shows "((word_of_int kind :: u32) > 3) \<longleftrightarrow> kind \<notin> {0..3}"
proof (cases "0 \<le> kind")
  case True
  then show ?thesis using assms by (auto simp: word_less_def uint_word_of_int)
next
  case False
  have "kind mod 4294967296 = (kind + 4294967296) mod 4294967296" by simp
  also have "\<dots> = kind + 4294967296" using False assms by (intro mod_pos_pos_trivial) simp_all
  finally show ?thesis using False assms by (simp add: word_less_def uint_word_of_int)
qed

lemma new_entry_wf:
  assumes "kind \<in> {0..3}" and "valid_name name" and "unat (c_count c + 1) = Suc i" and "3 \<le> i"
    and "native_id \<noteq> 0" "size0 \<noteq> 0" "size0 \<le> 0xfffffff3" "format \<noteq> 0" "format \<noteq> 0x3001"
  shows "entry_wf i (new_entry c kind native_id name size0 format)"
    and "media_ok (new_entry c kind native_id name size0 format)"
proof -
  have len: "length name \<le> 240" using assms(2) by (simp add: valid_name_def)
  have z: "0 \<notin> set name" using assms(2) by (rule valid_name_nonzero)
  have pad: "name @ replicate (256 - length name) 0 = name @ 0 # drop (Suc (length name)) (replicate 256 0)"
    using len by (simp flip: replicate_Suc)
  have "kind = 0 \<or> kind = 1 \<or> kind = 2 \<or> kind = 3" using assms(1) by auto
  then have kind: "uint (word_of_int kind :: u8) = kind" "(word_of_int kind :: u8) \<noteq> 4" "(word_of_int kind :: u8) \<le> 4"
    by (elim disjE; simp)+
  show "entry_wf i (new_entry c kind native_id name size0 format)"
    using assms(3,4) len kind by (simp add: entry_wf_def new_entry_def entry_strings_ok_def clear_entry_def)
  show "media_ok (new_entry c kind native_id name size0 format)"
    using assms copied_name_string [OF assms(2), of "replicate 256 0"]
    by (simp add: media_ok_def new_entry_def pad)
qed

lemma catalog_add_refused:
  assumes "catalog_inv c" and "i = unat (c_count c)" and "c_entries c = Some es" and "i < length es"
  shows "catalog_inv (c\<lparr>c_entries := Some (es[i := e])\<rparr>)"
    and "visible (c\<lparr>c_entries := Some (es[i := e])\<rparr>) = visible c"
  using assms by (auto simp: catalog_inv_def catalog_wf_def)

lemma catalog_add_appends:
  assumes inv: "catalog_inv c" and es: "c_entries c = Some es" and room: "c_count c < c_capacity c"
    and e: "entry_wf (unat (c_count c)) e" "media_ok e"
  defines "c' \<equiv> c\<lparr>c_entries := Some (es[unat (c_count c) := e]), c_count := c_count c + 1\<rparr>"
  shows "visible c' = visible c @ [e]" and "catalog_inv c'"
proof -
  let ?n = "unat (c_count c)"
  have wf: "3 \<le> ?n" "unat (c_capacity c) \<le> length es" "length (visible c) = ?n"
    using inv es catalog_wf_length [of c] by (auto simp: catalog_inv_def catalog_wf_def word_le_nat_alt)
  have n: "?n < unat (c_capacity c)" using room by (simp add: word_less_nat_alt)
  have suc: "unat (c_count c + 1) = Suc ?n" using room by (rule unat_Suc_bounded)
  show vis: "visible c' = visible c @ [e]"
    using wf n suc es by (simp add: c'_def take_Suc_conv_app_nth)
  have "entry_wf i ((visible c @ [e]) ! i)" if "i < Suc ?n" for i
    using that inv e(1) wf(3) by (auto simp: catalog_inv_def catalog_wf_def nth_append less_Suc_eq)
  moreover have "map e_size (take 3 (visible c @ [e])) = [0, 0, 0]"
    using inv wf by (simp add: catalog_inv_def)
  moreover have "\<forall>x \<in> set (drop 3 (visible c @ [e])). media_ok x"
    using inv e(2) wf by (simp add: catalog_inv_def)
  ultimately show "catalog_inv c'"
    using wf n suc unfolding catalog_inv_def catalog_wf_def vis
    by (simp add: c'_def word_le_nat_alt)
qed

lemma catalog_add_spec:
  assumes inv: "catalog_inv c" and kind: "- (2 ^ 31) \<le> kind" "kind < 2 ^ 31"
    and name: "\<forall>s. name = Some s \<longrightarrow> 0 \<notin> set s"
  shows "\<exists>h c'. vcm_mtp_catalog_add c kind native_id name size0 format = Some (h, c') \<and> catalog_inv c' \<and>
    c_capacity c' = c_capacity c \<and>
    (if admissible c kind native_id name size0 format
     then h = c_count c + 1 \<and>
       visible c' = visible c @ [new_entry c kind native_id (the name) size0 format]
     else h = 0 \<and> visible c' = visible c)"
proof -
  obtain es where es: "c_entries c = Some es" "3 \<le> unat (c_count c)" "unat (c_capacity c) \<le> length es"
    using inv by (auto simp: catalog_inv_def catalog_wf_def word_le_nat_alt)
  let ?i = "unat (c_count c)"
  let ?guard = "c_count c \<ge> c_capacity c \<or> c_count c \<ge> 0xfffffffe \<or> native_id = 0 \<or>
    (word_of_int kind :: u32) > 3 \<or> size0 = 0 \<or> size0 > 0xfffffff3 \<or> format = 0 \<or> format = 0x3001"
  show ?thesis
  proof (cases ?guard)
    case True
    then have "\<not> admissible c kind native_id name size0 format"
      using kind_guard [OF kind] by (auto simp: admissible_def)
    moreover have "vcm_mtp_catalog_add c kind native_id name size0 format = Some (0, c)"
      using True es(1) by (simp add: vcm_mtp_catalog_add_def)
    ultimately show ?thesis using inv by simp
  next
    case ok: False
    then have i: "?i < length es" "c_count c < c_capacity c" using es(3) by (auto simp: word_less_nat_alt word_le_nat_alt)
    have adm: "admissible c kind native_id name size0 format \<longleftrightarrow> (\<exists>s. name = Some s \<and> valid_name s)"
      using ok kind_guard [OF kind] by (auto simp: admissible_def)
    show ?thesis
    proof (cases "\<exists>s. name = Some s \<and> valid_name s")
      case True
      then obtain s where s: "name = Some s" "valid_name s" by blast
      let ?t = "s @ 0 # drop (Suc (length s)) (replicate 256 0)"
      have copy: "copy_name (replicate 256 0) (Some s) = Some (0, ?t)"
        using copy_name_spec [of "replicate 256 0" s] s name by auto
      have "length s \<le> 240" using s(2) by (simp add: valid_name_def)
      then have pad: "?t = s @ replicate (256 - length s) 0" by (simp flip: replicate_Suc)
      let ?e = "new_entry c kind native_id s size0 format"
      have zero: "(replicate n (0::u8))[0 := 0] = replicate n 0" for n
        by (cases n) auto
      have run: "vcm_mtp_catalog_add c kind native_id name size0 format =
          Some (c_count c + 1, c\<lparr>c_entries := Some (es[?i := ?e]), c_count := c_count c + 1\<rparr>)"
        using ok es(1) i(1) copy unfolding s(1) pad
        by (simp add: vcm_mtp_catalog_add_def clear_entry_def new_entry_def zero del: replicate.simps)
      have "entry_wf ?i ?e" "media_ok ?e"
        using new_entry_wf [OF _ s(2) unat_Suc_bounded [OF i(2)] es(2)] ok kind_guard [OF kind] by auto
      from catalog_add_appends [OF inv es(1) i(2) this] show ?thesis
        using run adm s by simp
    next
      case False
      obtain st t where copy: "copy_name (replicate 256 0) name = Some (st, t)" "st < 0"
      proof (cases name)
        case None
        then show thesis using that by (simp add: copy_name_def)
      next
        case (Some s)
        then show thesis
          using that copy_name_spec [of "replicate 256 0" s] False name by auto
      qed
      let ?e = "clear_entry\<lparr>e_name := t\<rparr>"
      have "vcm_mtp_catalog_add c kind native_id name size0 format =
          Some (0, c\<lparr>c_entries := Some (es[?i := ?e])\<rparr>)"
        using ok es(1) i(1) copy by (simp add: vcm_mtp_catalog_add_def clear_entry_def)
      with catalog_add_refused [OF inv refl es(1) i(1), of ?e] adm False show ?thesis by simp
    qed
  qed
qed

subsection \<open>Lookup and enumeration\<close>

lemma catalog_get_spec:
  assumes "catalog_wf c"
  shows "vcm_mtp_catalog_get (Some c) h =
    Some (if h \<noteq> 0 \<and> unat h \<le> length (visible c) then Some (visible c ! (unat h - 1)) else None)"
proof -
  obtain es where es: "c_entries c = Some es" "c_count c \<le> c_capacity c" "unat (c_capacity c) \<le> length es"
    using assms by (auto simp: catalog_wf_def)
  show ?thesis
  proof (cases "h \<noteq> 0 \<and> unat h \<le> unat (c_count c)")
    case True
    then have "0 < unat h" by (simp add: unat_gt_0)
    moreover from this True have "unat h - 1 < unat (c_count c)" by linarith
    ultimately have h: "unat (h - 1) = unat h - 1" "unat h - 1 < unat (c_count c)" "0 < unat h"
      using True by (simp_all add: unat_minus_one)
    have "entry_wf (unat h - 1) (visible c ! (unat h - 1))"
      using assms h(2) catalog_wf_length [OF assms] by (auto simp: catalog_wf_def)
    then have "e_handle (es ! (unat h - 1)) = h"
      using es(1) h by (simp add: entry_wf_def word_unat_eq_iff)
    moreover have "unat h - 1 < length es"
      using h(2) es(2,3) by (simp add: word_le_nat_alt)
    ultimately show ?thesis
      using True es(1) h catalog_wf_length [OF assms]
      by (simp add: vcm_mtp_catalog_get_def word_less_nat_alt)
  next
    case False
    then show ?thesis
      using es(1) catalog_wf_length [OF assms] by (auto simp: vcm_mtp_catalog_get_def word_less_nat_alt)
  qed
qed

text \<open>
  What the MTP server and engine rely on: a catalogue is a list of entries numbered from one,
  and looking a number up returns that entry.
\<close>

locale handle_catalog =
  fixes inv :: "'c \<Rightarrow> bool"
    and entries :: "'c \<Rightarrow> 'e list"
    and handle :: "'e \<Rightarrow> u32"
    and get :: "'c \<Rightarrow> u32 \<Rightarrow> 'e option option"
  assumes numbered: "inv c \<Longrightarrow> i < length (entries c) \<Longrightarrow> unat (handle (entries c ! i)) = Suc i"
    and get_numbered: "inv c \<Longrightarrow> get c h =
      Some (if h \<noteq> 0 \<and> unat h \<le> length (entries c) then Some (entries c ! (unat h - 1)) else None)"
begin

lemma get_total: "inv c \<Longrightarrow> \<exists>r. get c h = Some r"
  by (simp add: get_numbered)

lemma get_entry: "inv c \<Longrightarrow> e \<in> set (entries c) \<Longrightarrow> get c (handle e) = Some (Some e)"
  by (auto simp: in_set_conv_nth get_numbered numbered unat_gt_0 [symmetric] simp del: unat_gt_0)

lemma get_handle: "inv c \<Longrightarrow> get c h = Some (Some e) \<Longrightarrow> handle e = h \<and> e \<in> set (entries c)"
proof -
  assume inv: "inv c" and "get c h = Some (Some e)"
  then have h: "h \<noteq> 0" "unat h \<le> length (entries c)" "e = entries c ! (unat h - 1)"
    by (auto simp: get_numbered split: if_splits)
  from h(1) have "0 < unat h" by (simp add: unat_gt_0)
  with h(2) have i: "unat h - 1 < length (entries c)" "0 < unat h" by simp_all
  then show "handle e = h \<and> e \<in> set (entries c)"
    using numbered [OF inv i(1)] h(3) by (simp add: word_unat_eq_iff)
qed

lemma handles_distinct: "inv c \<Longrightarrow> distinct (map handle (entries c))"
  by (auto simp: distinct_conv_nth dest: arg_cong [of _ _ unat] simp: numbered)

end

interpretation cat: handle_catalog catalog_wf visible e_handle "\<lambda>c. vcm_mtp_catalog_get (Some c)"
proof
  show "catalog_wf c \<Longrightarrow> i < length (visible c) \<Longrightarrow> unat (e_handle (visible c ! i)) = Suc i" for c i
    by (auto simp: catalog_wf_def entry_wf_def)
  show "catalog_wf c \<Longrightarrow> vcm_mtp_catalog_get (Some c) h =
      Some (if h \<noteq> 0 \<and> unat h \<le> length (visible c) then Some (visible c ! (unat h - 1)) else None)" for c h
    by (rule catalog_get_spec)
qed

definition children :: "VcmMtpCatalog \<Rightarrow> u32 \<Rightarrow> u16 \<Rightarrow> VcmMtpEntry list" where
  "children c parent format = filter (child_matches parent format) (visible c)"

definition listable :: "u32 \<Rightarrow> bool" where
  "listable parent \<longleftrightarrow> parent = VCM_MTP_ALL_HANDLES \<or> parent = VCM_MTP_ROOT_HANDLE \<or> parent \<in> {1, 2, 3}"

lemma children_loop_count:
  "children_loop es parent format None cap found =
    Some (found + of_nat (length (filter (child_matches parent format) es)), None)"
  by (induction es arbitrary: found) (auto simp: add_ac)

lemma children_loop_out:
  assumes "unat found + length (filter (child_matches parent format) es) < 2 ^ 32"
    and "length (out :: u32 list) = unat cap"
  shows "children_loop es parent format (Some out) cap found =
    Some (found + of_nat (length (filter (child_matches parent format) es)),
      Some (take (unat found) out @ take (unat cap - unat found)
          (map e_handle (filter (child_matches parent format) es)) @
        drop (unat found + length (filter (child_matches parent format) es)) out))"
  using assms
proof (induction es arbitrary: found out)
  case Nil
  then show ?case by simp
next
  case (Cons e es)
  show ?case
  proof (cases "child_matches parent format e")
    case False
    with Cons show ?thesis by simp
  next
    case True
    have suc: "unat (found + 1) = Suc (unat found)"
      using Cons.prems(1) True by (simp add: unat_word_ariths)
    show ?thesis
    proof (cases "found < cap")
      case room: True
      then have n: "unat found < length out" "Suc (unat cap - Suc (unat found)) = unat cap - unat found"
        using Cons.prems(2) by (simp_all add: word_less_nat_alt)
      have "children_loop (e # es) parent format (Some out) cap found =
          children_loop es parent format (Some (out[unat found := e_handle e])) cap (found + 1)"
        using True room n by simp
      also have "\<dots> = Some (found + 1 + of_nat (length (filter (child_matches parent format) es)),
          Some (take (Suc (unat found)) (out[unat found := e_handle e]) @
            take (unat cap - Suc (unat found)) (map e_handle (filter (child_matches parent format) es)) @
            drop (Suc (unat found) + length (filter (child_matches parent format) es))
              (out[unat found := e_handle e])))"
        using Cons.IH [of "found + 1" "out[unat found := e_handle e]"] Cons.prems True suc by simp
      finally show ?thesis
        using True n by (simp add: take_update_Suc add_ac take_Cons' flip: n(2))
    next
      case full: False
      then have "unat cap \<le> unat found" by (simp add: word_less_nat_alt)
      then show ?thesis
        using Cons.IH [of "found + 1" out] Cons.prems True suc full by (simp add: add_ac)
    qed
  qed
qed

lemma catalog_children_known:
  assumes "catalog_wf c"
  shows "(if parent = VCM_MTP_ROOT_HANDLE \<or> parent = VCM_MTP_ALL_HANDLES then Some True
    else do { entry \<leftarrow> vcm_mtp_catalog_get (Some c) parent; Some (entry \<noteq> None \<and> \<not> parent > 3) })
    = Some (listable parent)"
proof -
  have three: "3 \<le> length (visible c)"
    using assms catalog_wf_length [OF assms] by (auto simp: catalog_wf_def word_le_nat_alt)
  have p: "parent \<noteq> 0 \<and> unat parent \<le> length (visible c) \<and> \<not> parent > 3 \<longleftrightarrow> parent \<in> {1, 2, 3}"
    if "parent \<noteq> 0xffffffff" "parent \<noteq> 0"
    using that three by (auto simp: word_less_nat_alt word_unat_eq_iff)
  show ?thesis
    using p by (auto simp: catalog_get_spec [OF assms] listable_def)
qed

lemma children_length: "catalog_wf c \<Longrightarrow> length (children c parent format) < 2 ^ 32"
proof -
  assume wf: "catalog_wf c"
  have "length (children c parent format) \<le> length (visible c)" by (simp add: children_def)
  also have "\<dots> < 2 ^ 32" using catalog_wf_length [OF wf] unsigned_less [of "c_count c"] by simp
  finally show ?thesis .
qed

lemma catalog_children_count:
  assumes "catalog_wf c"
  shows "vcm_mtp_catalog_children (Some c) parent format None cap =
    Some (if listable parent then of_nat (length (children c parent format)) else 0, None)"
proof -
  obtain es where es: "c_entries c = Some es" "\<not> length es < unat (c_count c)"
    using assms by (auto simp: catalog_wf_def word_le_nat_alt)
  show ?thesis
    unfolding vcm_mtp_catalog_children_def option.case es(1) catalog_children_known [OF assms]
    using es by (simp add: children_loop_count children_def)
qed

lemma catalog_children_out:
  assumes "catalog_wf c" and "listable parent" and "length out = unat cap"
  shows "vcm_mtp_catalog_children (Some c) parent format (Some out) cap =
    Some (of_nat (length (children c parent format)),
      Some (take (unat cap) (map e_handle (children c parent format)) @
        drop (length (children c parent format)) out))"
proof -
  obtain es where es: "c_entries c = Some es" "\<not> length es < unat (c_count c)"
    using assms(1) by (auto simp: catalog_wf_def word_le_nat_alt)
  show ?thesis
    unfolding vcm_mtp_catalog_children_def option.case es(1) catalog_children_known [OF assms(1)]
    using es assms(2) children_length [OF assms(1)] children_loop_out [OF _ assms(3), of 0 parent format "visible c"]
    by (simp add: children_def)
qed

subsection \<open>Properties\<close>

text \<open>
  Initialising a catalogue over storage for at least three entries gives the invariant, with
  exactly the three root folders Photo, Music and Video.
\<close>

theorem catalog_init_correct:
  assumes "3 \<le> capacity" and "length storage = unat capacity"
  shows "\<exists>c. vcm_mtp_catalog_init (Some storage) capacity = Some (Inr c) \<and> catalog_inv c \<and>
    c_capacity c = capacity \<and> c_count c = 3 \<and>
    map (\<lambda>e. c_string (e_name e)) (visible c) =
      [Some (ascii ''Photo''), Some (ascii ''Music''), Some (ascii ''Video'')]"
  using assms by (rule catalog_init_spec)

theorem catalog_init_correct_witness:
  "\<exists>c. vcm_mtp_catalog_init (Some (replicate 4 clear_entry)) 4 = Some (Inr c) \<and> catalog_inv c \<and>
    c_capacity c = 4 \<and> c_count c = 3 \<and>
    map (\<lambda>e. c_string (e_name e)) (visible c) =
      [Some (ascii ''Photo''), Some (ascii ''Music''), Some (ascii ''Video'')]"
  by (rule catalog_init_correct) simp_all

text \<open>
  Adding an entry never leaves the storage and keeps the invariant. An admissible request is
  appended under the next handle, with its name copied and its parent chosen by its kind; any
  other request returns the handle 0 and leaves the visible entries as they were.
\<close>

theorem catalog_add_correct:
  assumes "catalog_inv c" and "- (2 ^ 31) \<le> kind" and "kind < 2 ^ 31"
    and "\<forall>s. name = Some s \<longrightarrow> 0 \<notin> set s"
  shows "\<exists>h c'. vcm_mtp_catalog_add c kind native_id name size0 format = Some (h, c') \<and> catalog_inv c' \<and>
    c_capacity c' = c_capacity c \<and>
    (if admissible c kind native_id name size0 format
     then h = c_count c + 1 \<and>
       visible c' = visible c @ [new_entry c kind native_id (the name) size0 format]
     else h = 0 \<and> visible c' = visible c)"
  using assms by (rule catalog_add_spec)

theorem catalog_add_correct_witness:
  "\<exists>c h c'. catalog_inv c \<and>
    vcm_mtp_catalog_add c 0 9 (Some (ascii ''a.jpg'')) 100 0x3801 = Some (h, c') \<and> catalog_inv c' \<and>
    h = 4 \<and> visible c' = visible c @ [new_entry c 0 9 (ascii ''a.jpg'') 100 0x3801]"
proof -
  obtain c where c: "catalog_inv c" "c_capacity c = 4" "c_count c = 3"
    using catalog_init_spec [of 4 "replicate 4 clear_entry"] by auto
  have "admissible c 0 9 (Some (ascii ''a.jpg'')) 100 0x3801"
    using c by (simp add: admissible_def valid_name_def name_char_refused_def)
  then show ?thesis
    using catalog_add_correct [of c 0 "Some (ascii ''a.jpg'')" 9 100 "0x3801"] c by auto
qed

lemma new_entry_name:
  assumes "valid_name s"
  shows "c_string (e_name (new_entry c kind native_id s size0 format)) = Some s"
proof -
  have "length s \<le> 240" using assms by (simp add: valid_name_def)
  then have "s @ replicate (256 - length s) 0 = s @ 0 # drop (Suc (length s)) (replicate 256 0)"
    by (simp flip: replicate_Suc)
  then show ?thesis
    using copied_name_string(1) [OF assms, of "replicate 256 0"] by (simp add: new_entry_def)
qed

text \<open>
  Handles are stable and fresh: after an addition every handle still names the entry it named
  before, and a newly returned handle named nothing before and now names the added object.
\<close>

theorem handles_stable:
  assumes "catalog_inv c" and "- (2 ^ 31) \<le> kind" and "kind < 2 ^ 31"
    and "\<forall>s. name = Some s \<longrightarrow> 0 \<notin> set s"
    and "vcm_mtp_catalog_add c kind native_id name size0 format = Some (h', c')"
  shows "(vcm_mtp_catalog_get (Some c) h = Some (Some e) \<longrightarrow> vcm_mtp_catalog_get (Some c') h = Some (Some e)) \<and>
    (h' \<noteq> 0 \<longrightarrow> vcm_mtp_catalog_get (Some c) h' = Some None \<and>
      (\<exists>e'. vcm_mtp_catalog_get (Some c') h' = Some (Some e') \<and>
        e_native_id e' = native_id \<and> c_string (e_name e') = name))"
proof -
  have inv: "catalog_wf c" "catalog_wf c'"
    using assms(1) catalog_add_spec [OF assms(1-4), of native_id size0 format] assms(5)
    by (auto simp: catalog_inv_def)
  obtain xs where xs: "visible c' = visible c @ xs"
    using catalog_add_spec [OF assms(1-4), of native_id size0 format] assms(5) by (auto split: if_splits)
  have old: "vcm_mtp_catalog_get (Some c') h = Some (Some e)"
    if "vcm_mtp_catalog_get (Some c) h = Some (Some e)"
    using cat.get_handle [OF inv(1) that] cat.get_entry [OF inv(2), of e] xs by auto
  have new: "vcm_mtp_catalog_get (Some c) h' = Some None \<and>
      (\<exists>e'. vcm_mtp_catalog_get (Some c') h' = Some (Some e') \<and>
        e_native_id e' = native_id \<and> c_string (e_name e') = name)" if "h' \<noteq> 0"
  proof -
    let ?e = "new_entry c kind native_id (the name) size0 format"
    have adm: "admissible c kind native_id name size0 format" and h': "h' = c_count c + 1"
      and vis: "visible c' = visible c @ [?e]"
      using catalog_add_spec [OF assms(1-4), of native_id size0 format] assms(5) that
      by (auto split: if_splits)
    obtain s where s: "name = Some s" "valid_name s" using adm by (auto simp: admissible_def)
    have "unat h' = Suc (length (visible c))"
      using adm h' catalog_wf_length [OF inv(1)] unat_Suc_bounded [of "c_count c"]
      by (auto simp: admissible_def)
    then have "vcm_mtp_catalog_get (Some c) h' = Some None"
      by (simp add: catalog_get_spec [OF inv(1)])
    moreover have "e_handle ?e = h'" "e_native_id ?e = native_id"
      by (simp_all add: new_entry_def h')
    moreover have "c_string (e_name ?e) = name"
      using s new_entry_name [OF s(2)] by simp
    ultimately show ?thesis
      using cat.get_entry [OF inv(2), of ?e] vis by auto
  qed
  from old new show ?thesis by blast
qed

theorem handles_stable_witness:
  "\<exists>c c' e. vcm_mtp_catalog_add c 1 5 (Some (ascii ''b.mp3'')) 7 0x3009 = Some (4, c') \<and>
    vcm_mtp_catalog_get (Some c) 2 = Some (Some e) \<and> vcm_mtp_catalog_get (Some c') 2 = Some (Some e) \<and>
    vcm_mtp_catalog_get (Some c) 4 = Some None \<and>
    (\<exists>e'. vcm_mtp_catalog_get (Some c') 4 = Some (Some e') \<and>
        e_native_id e' = 5 \<and> c_string (e_name e') = Some (ascii ''b.mp3''))"
proof -
  obtain c where c: "catalog_inv c" "c_capacity c = 4" "c_count c = 3"
    using catalog_init_spec [of 4 "replicate 4 clear_entry"] by auto
  have "admissible c 1 5 (Some (ascii ''b.mp3'')) 7 0x3009"
    using c by (simp add: admissible_def valid_name_def name_char_refused_def)
  then obtain c' where c': "vcm_mtp_catalog_add c 1 5 (Some (ascii ''b.mp3'')) 7 0x3009 = Some (4, c')"
    using catalog_add_spec [of c 1 "Some (ascii ''b.mp3'')" 5 7 "0x3009"] c by auto
  obtain e where "vcm_mtp_catalog_get (Some c) 2 = Some (Some e)"
    using catalog_get_spec [of c 2] c catalog_wf_length [of c] by (auto simp: catalog_inv_def)
  with handles_stable [OF c(1) _ _ _ c', of 2 e] c' show ?thesis by auto
qed

text \<open>
  Enumeration returns the number of matching entries and writes their handles, each once and
  in catalogue order, as far as the output array reaches and never beyond it.
\<close>

theorem children_exact:
  assumes "catalog_wf c" and "listable parent" and "length out = unat cap"
  shows "vcm_mtp_catalog_children (Some c) parent format (Some out) cap =
      Some (of_nat (length (children c parent format)),
        Some (take (unat cap) (map e_handle (children c parent format)) @
          drop (length (children c parent format)) out)) \<and>
    distinct (map e_handle (children c parent format)) \<and> length (children c parent format) < 2 ^ 32"
  using catalog_children_out [OF assms] children_length [OF assms(1)]
    cat.handles_distinct [OF assms(1)] by (simp add: children_def distinct_map_filter)

theorem children_exact_witness:
  "\<exists>c. catalog_wf c \<and> vcm_mtp_catalog_children (Some c) 0xffffffff 0 (Some [0, 0]) 2 =
      Some (of_nat (length (children c 0xffffffff 0)),
        Some (take 2 (map e_handle (children c 0xffffffff 0)) @
          drop (length (children c 0xffffffff 0)) [0, 0]))"
proof -
  obtain c where "catalog_wf c"
    using catalog_init_spec [of 4 "replicate 4 clear_entry"] by (auto simp: catalog_inv_def)
  with children_exact [of c, where parent = "0xffffffff" and out = "[0, 0]" and cap = 2 and format = 0] show ?thesis by (auto simp: listable_def)
qed

end
