(* ===== verification/Mtp_Wire.thy ===== *)
theory Mtp_Wire
  imports Mtp_Catalog
begin

text \<open>
  The MTP data-set writer of \<^verbatim>\<open>src/vita/mtp_wire.c\<close>: a bounded little-endian byte writer with a
  sticky error flag, the conversion of UTF-8 text to counted UTF-16 strings, which encodes in
  place and then shifts the payload to make room for the count, and the data sets built on both.
  The lemmas show that every operation stays inside its buffer, that each data set is the
  concatenation of its fields or an error, and that the decoder reads the bytes of a text as the
  numbers that UTF-8 assigns to them.
\<close>

subsection \<open>The writer\<close>

record VcmMtpWriter =
  w_data :: "u8 list option"
  w_capacity :: u32
  w_length :: u32
  w_error :: bool

definition vcm_mtp_writer_init :: "u8 list option \<Rightarrow> u32 \<Rightarrow> VcmMtpWriter" where
  "vcm_mtp_writer_init data capacity =
     \<lparr>w_data = data, w_capacity = capacity, w_length = 0, w_error = (data = None)\<rparr>"

fun bytes_loop :: "VcmMtpWriter \<Rightarrow> u8 list \<Rightarrow> VcmMtpWriter option" where
  "bytes_loop w [] = Some w"
| "bytes_loop w (b # source) = do {
     d \<leftarrow> w_data w;
     d' \<leftarrow> store d (unat (w_length w)) b;
     bytes_loop (w\<lparr>w_data := Some d', w_length := w_length w + 1\<rparr>) source
   }"

definition bytes :: "VcmMtpWriter \<Rightarrow> u8 list \<Rightarrow> VcmMtpWriter option" where
  "bytes w source =
     (if w_error w \<or> of_nat (length source) > w_capacity w - w_length w
      then Some (w\<lparr>w_error := True\<rparr>)
      else bytes_loop w source)"

definition u8 :: "VcmMtpWriter \<Rightarrow> u8 \<Rightarrow> VcmMtpWriter option" where
  "u8 w v = bytes w [v]"

definition u16 :: "VcmMtpWriter \<Rightarrow> u16 \<Rightarrow> VcmMtpWriter option" where
  "u16 w v = do { w \<leftarrow> u8 w (ucast v); u8 w (ucast (drop_bit 8 v)) }"

definition u32 :: "VcmMtpWriter \<Rightarrow> u32 \<Rightarrow> VcmMtpWriter option" where
  "u32 w v = do { w \<leftarrow> u16 w (ucast v); u16 w (ucast (drop_bit 16 v)) }"

definition u64 :: "VcmMtpWriter \<Rightarrow> u64 \<Rightarrow> VcmMtpWriter option" where
  "u64 w v = do { w \<leftarrow> u32 w (ucast v); u32 w (ucast (drop_bit 32 v)) }"

fun u16_all :: "VcmMtpWriter \<Rightarrow> u16 list \<Rightarrow> VcmMtpWriter option" where
  "u16_all w [] = Some w"
| "u16_all w (v # vs) = do { w \<leftarrow> u16 w v; u16_all w vs }"

definition array16 :: "VcmMtpWriter \<Rightarrow> u16 list \<Rightarrow> VcmMtpWriter option" where
  "array16 w values = do { w \<leftarrow> u32 w (of_nat (length values)); u16_all w values }"

subsection \<open>Counted UTF-16 strings\<close>

text \<open>
  One iteration of the decoding part of \<open>string\<close>: the next code point, with malformed or
  unwanted sequences replaced by a question mark, and the rest of the text. The operand order of
  the conjunctions keeps the reads at or before the terminator.
\<close>

definition next_cp :: "u8 list \<Rightarrow> u32 \<times> u8 list" where
  "next_cp p =
     (let c = c_at p 0;
          (cp, n) =
            (if c < 0x80 then (ucast c, 1)
             else if c AND 0xe0 = 0xc0 \<and> c_at p 1 \<noteq> 0 \<and> c_at p 1 AND 0xc0 = 0x80 then
               let cp = push_bit 6 (ucast (c AND 0x1f)) OR ucast (c_at p 1 AND 0x3f)
               in (if cp < 0x80 then 0x3f else cp, 2)
             else if c AND 0xf0 = 0xe0 \<and> c_at p 1 \<noteq> 0 \<and> c_at p 2 \<noteq> 0 \<and>
                     c_at p 1 AND 0xc0 = 0x80 \<and> c_at p 2 AND 0xc0 = 0x80 then
               let cp = push_bit 12 (ucast (c AND 0x0f)) OR push_bit 6 (ucast (c_at p 1 AND 0x3f)) OR
                        ucast (c_at p 2 AND 0x3f)
               in (if cp < 0x800 then 0x3f else cp, 3)
             else if c AND 0xf8 = 0xf0 \<and> c_at p 1 \<noteq> 0 \<and> c_at p 2 \<noteq> 0 \<and> c_at p 3 \<noteq> 0 \<and>
                     c_at p 1 AND 0xc0 = 0x80 \<and> c_at p 2 AND 0xc0 = 0x80 \<and>
                     c_at p 3 AND 0xc0 = 0x80 then
               let cp = push_bit 18 (ucast (c AND 7)) OR push_bit 12 (ucast (c_at p 1 AND 0x3f)) OR
                        push_bit 6 (ucast (c_at p 2 AND 0x3f)) OR ucast (c_at p 3 AND 0x3f)
               in (if cp < 0x10000 \<or> cp > 0x10ffff then 0x3f else cp, 4)
             else (0x3f :: u32, 1 :: nat))
      in (if cp < 0x20 \<or> 0xd800 \<le> cp \<and> cp \<le> 0xdfff then 0x3f else cp, drop n p))"

lemma next_cp_shorter: "c_at p 0 \<noteq> 0 \<Longrightarrow> next_cp p = (cp, p') \<Longrightarrow> length p' < length p"
  by (cases p) (auto simp: next_cp_def Let_def split: if_splits)

text \<open>
  The encoding loop. Its result carries the writer, the number of UTF-16 units written and
  whether the loop left the function by its error return.
\<close>

function string_loop :: "VcmMtpWriter \<Rightarrow> u8 list \<Rightarrow> u32 \<Rightarrow> (VcmMtpWriter \<times> u32 \<times> bool) option" where
  "string_loop w p units =
     (if c_at p 0 = 0 \<or> \<not> units < 254 then Some (w, units, False)
      else let (cp, p') = next_cp p in
        if cp > 0xffff \<and> units + 2 > 254 then Some (w, units, False)
        else if w_capacity w - w_length w < (if cp > 0xffff then 4 else 2)
        then Some (w\<lparr>w_error := True\<rparr>, units, True)
        else if cp > 0xffff then do {
          w \<leftarrow> u16 w (ucast (0xd800 + drop_bit 10 (cp - 0x10000)));
          w \<leftarrow> u16 w (ucast (0xdc00 + ((cp - 0x10000) AND 0x3ff)));
          string_loop w p' (units + 2)
        }
        else do {
          w \<leftarrow> u16 w (ucast cp);
          string_loop w p' (units + 1)
        })"
  by pat_completeness auto
termination
  by (relation "measure (\<lambda>(w, p, units). length p)") (auto intro: next_cp_shorter [OF _ sym])

declare string_loop.simps [simp del]

fun shift_right :: "u8 list \<Rightarrow> nat \<Rightarrow> nat \<Rightarrow> u8 list option" where
  "shift_right d i start =
     (if start < i then do {
        v \<leftarrow> fetch d (i - 1);
        d \<leftarrow> store d i v;
        shift_right d (i - 1) start
      } else Some d)"

declare shift_right.simps [simp del]

definition string :: "VcmMtpWriter \<Rightarrow> u8 list option \<Rightarrow> VcmMtpWriter option" where
  "string w utf8 =
     (case utf8 of
        None \<Rightarrow> u8 w 0
      | Some p \<Rightarrow>
          if c_at p 0 = 0 then u8 w 0
          else do {
            let start = w_length w;
            (w, units, returned) \<leftarrow> string_loop w p 0;
            if returned then Some w
            else if w_error w \<or> w_capacity w - w_length w < 3 then Some (w\<lparr>w_error := True\<rparr>)
            else do {
              d \<leftarrow> w_data w;
              d \<leftarrow> shift_right d (unat (w_length w)) (unat start);
              d \<leftarrow> store d (unat start) (ucast (units + 1));
              u16 (w\<lparr>w_data := Some d, w_length := w_length w + 1\<rparr>) 0
            }
          })"

subsection \<open>Data sets\<close>

definition writer_result :: "VcmMtpWriter \<Rightarrow> int \<times> VcmMtpWriter" where
  "writer_result w = (if w_error w then - 1 else sint (w_length w), w)"

definition operations :: "u16 list" where
  "operations =
     [0x1001, 0x1002, 0x1003, 0x1004, 0x1005, 0x1006, 0x1007, 0x1008, 0x1009, 0x100a,
      0x9801, 0x9802, 0x9803,
      0x9ff0, 0x9ff1, 0x9ff2, 0x9ff3, 0x9ff4, 0x9ff5]"

definition formats :: "u16 list" where
  "formats =
     [0x3001,
      0x3801, 0x3804, 0x3807, 0x380b, 0x380d, 0xb301,
      0x3008, 0x3009, 0xb215, 0xb903,
      0xb982, 0xba82]"

definition vcm_mtp_device_info :: "VcmMtpWriter \<Rightarrow> (int \<times> VcmMtpWriter) option" where
  "vcm_mtp_device_info w = do {
     w \<leftarrow> u16 w 100;
     w \<leftarrow> u32 w 6;
     w \<leftarrow> u16 w 100;
     w \<leftarrow> string w (Some (ascii ''microsoft.com: 1.0; ''));
     w \<leftarrow> u16 w 0;
     w \<leftarrow> array16 w operations;
     w \<leftarrow> u32 w 0;
     w \<leftarrow> u32 w 0;
     w \<leftarrow> u32 w 0;
     w \<leftarrow> array16 w formats;
     w \<leftarrow> string w (Some (ascii ''Content Manager Pro''));
     w \<leftarrow> string w (Some (ascii ''Virtual Media Library''));
     w \<leftarrow> string w (Some (ascii ''1.0''));
     w \<leftarrow> string w (Some (ascii ''VCM''));
     Some (writer_result w)
   }"

definition vcm_mtp_storage_info ::
    "VcmMtpWriter \<Rightarrow> u64 \<Rightarrow> u64 \<Rightarrow> (int \<times> VcmMtpWriter) option" where
  "vcm_mtp_storage_info w capacity free_bytes = do {
     w \<leftarrow> u16 w 3;
     w \<leftarrow> u16 w 2;
     w \<leftarrow> u16 w 1;
     w \<leftarrow> u64 w capacity;
     w \<leftarrow> u64 w free_bytes;
     w \<leftarrow> u32 w 0xffffffff;
     w \<leftarrow> string w (Some (ascii ''Media on PS Vita''));
     w \<leftarrow> string w (Some (ascii ''Photo, Music and Video''));
     Some (writer_result w)
   }"

record VcmMtpObjectInfo =
  oi_storage_id :: u32
  oi_format :: u16
  oi_size :: u32
  oi_parent :: u32
  oi_name :: "u8 list option"
  oi_created :: "u8 list option"
  oi_modified :: "u8 list option"
  oi_thumb_size :: u32
  oi_thumb_width :: u16
  oi_thumb_height :: u16
  oi_width :: u32
  oi_height :: u32

definition vcm_mtp_object_info ::
    "VcmMtpWriter \<Rightarrow> VcmMtpObjectInfo option \<Rightarrow> (int \<times> VcmMtpWriter) option" where
  "vcm_mtp_object_info w object =
     (case object of
        None \<Rightarrow> Some (- 1, w)
      | Some o1 \<Rightarrow> do {
          w \<leftarrow> u32 w (oi_storage_id o1);
          w \<leftarrow> u16 w (oi_format o1);
          w \<leftarrow> u16 w 1;
          w \<leftarrow> u32 w (oi_size o1);
          w \<leftarrow> u16 w (if oi_thumb_size o1 \<noteq> 0 then 0x3804 else 0);
          w \<leftarrow> u32 w (oi_thumb_size o1);
          w \<leftarrow> u32 w (ucast (oi_thumb_width o1));
          w \<leftarrow> u32 w (ucast (oi_thumb_height o1));
          w \<leftarrow> u32 w (oi_width o1);
          w \<leftarrow> u32 w (oi_height o1);
          w \<leftarrow> u32 w 0;
          w \<leftarrow> u32 w (oi_parent o1);
          w \<leftarrow> u16 w (if oi_format o1 = 0x3001 then 1 else 0);
          w \<leftarrow> u32 w 0;
          w \<leftarrow> u32 w 0;
          w \<leftarrow> string w (oi_name o1);
          w \<leftarrow> string w (oi_created o1);
          w \<leftarrow> string w (oi_modified o1);
          w \<leftarrow> string w (Some []);
          Some (writer_result w)
        })"

fun u32_all :: "VcmMtpWriter \<Rightarrow> u32 list \<Rightarrow> VcmMtpWriter option" where
  "u32_all w [] = Some w"
| "u32_all w (v # vs) = do { w \<leftarrow> u32 w v; u32_all w vs }"

text \<open>The array argument is a pointer to \<open>count\<close> values; a null pointer is \<^term>\<open>None\<close>.\<close>

definition vcm_mtp_u32_array ::
    "VcmMtpWriter \<Rightarrow> u32 list option \<Rightarrow> u32 \<Rightarrow> (int \<times> VcmMtpWriter) option" where
  "vcm_mtp_u32_array w values count =
     (if count \<noteq> 0 \<and> values = None then Some (- 1, w)
      else do {
        w \<leftarrow> u32 w count;
        w \<leftarrow> (if count = 0 then Some w
             else do {
               vs \<leftarrow> values;
               if length vs < unat count then None else u32_all w (take (unat count) vs)
             });
        Some (writer_result w)
      })"

definition common_props :: "u16 list" where
  "common_props =
     [0xdc01, 0xdc02, 0xdc03, 0xdc04, 0xdc07, 0xdc08, 0xdc09, 0xdc0b,
      0xdc41, 0xdc44, 0xdc4f]"

definition supported :: "u16 \<Rightarrow> u16 \<Rightarrow> bool" where
  "supported code format =
     (if code \<in> set common_props then True
      else if (code = 0xdc46 \<or> code = 0xdc9a) \<and>
              (format = 0x3008 \<or> format = 0x3009 \<or> format = 0xb903) then True
      else (code = 0xdc87 \<or> code = 0xdc88) \<and>
           (format = 0x3801 \<or> format = 0x3804 \<or> format = 0x3807 \<or>
            format = 0x380b \<or> format = 0x380d \<or> format = 0xb301 \<or>
            format = 0xb982))"

definition prop_type :: "u16 \<Rightarrow> u16" where
  "prop_type code =
     (if code = 0xdc4f then 0x0002
      else if code = 0xdc01 \<or> code = 0xdc0b \<or> code = 0xdc87 \<or> code = 0xdc88 then 0x0006
      else if code = 0xdc02 \<or> code = 0xdc03 then 0x0004
      else if code = 0xdc04 then 0x0008
      else if code = 0xdc41 then 0x000a
      else 0xffff)"

definition object_props :: "u16 \<Rightarrow> u16 list" where
  "object_props format =
     (if supported 0xdc46 format then common_props @ [0xdc46, 0xdc9a]
      else if supported 0xdc87 format then common_props @ [0xdc87, 0xdc88]
      else common_props)"

definition vcm_mtp_object_props_supported ::
    "VcmMtpWriter \<Rightarrow> u16 \<Rightarrow> (int \<times> VcmMtpWriter) option" where
  "vcm_mtp_object_props_supported w format = do {
     w \<leftarrow> array16 w (object_props format);
     Some (writer_result w)
   }"

definition vcm_mtp_object_prop_desc ::
    "VcmMtpWriter \<Rightarrow> u16 \<Rightarrow> u16 \<Rightarrow> (int \<times> VcmMtpWriter) option" where
  "vcm_mtp_object_prop_desc w code format =
     (if \<not> supported code format then Some (- 1, w)
      else let type = prop_type code in do {
        w \<leftarrow> u16 w code;
        w \<leftarrow> u16 w type;
        w \<leftarrow> u8 w 0;
        w \<leftarrow> (if type = 0x0002 then u8 w 0
             else if type = 0x0004 then u16 w 0
             else if type = 0x0006 then u32 w 0
             else if type = 0x0008 then u64 w 0
             else if type = 0x000a then do { w \<leftarrow> u64 w 0; u64 w 0 }
             else string w (Some []));
        w \<leftarrow> u32 w 0;
        w \<leftarrow> u8 w 0;
        Some (writer_result w)
      })"

definition vcm_mtp_object_prop_value ::
    "VcmMtpWriter \<Rightarrow> VcmMtpEntry option \<Rightarrow> u16 \<Rightarrow> (int \<times> VcmMtpWriter) option" where
  "vcm_mtp_object_prop_value w entry code =
     (case entry of
        None \<Rightarrow> Some (- 1, w)
      | Some e \<Rightarrow>
          if \<not> supported code (e_format e) then Some (- 1, w)
          else if code = 0xdc01 then map_option writer_result (u32 w VCM_MTP_STORAGE_ID)
          else if code = 0xdc02 then map_option writer_result (u16 w (e_format e))
          else if code = 0xdc03 then map_option writer_result (u16 w 1)
          else if code = 0xdc04 then map_option writer_result (u64 w (e_size e))
          else if code = 0xdc07 then do {
            s \<leftarrow> c_string (e_display_name e); map_option writer_result (string w (Some s)) }
          else if code = 0xdc08 then do {
            s \<leftarrow> c_string (e_created e); map_option writer_result (string w (Some s)) }
          else if code = 0xdc09 then do {
            s \<leftarrow> c_string (e_modified e); map_option writer_result (string w (Some s)) }
          else if code = 0xdc0b then map_option writer_result (u32 w (e_parent e))
          else if code = 0xdc41 then do {
            w \<leftarrow> u64 w (if e_kind e = VCM_MTP_FOLDER then ucast (e_handle e) else e_native_id e);
            w \<leftarrow> u32 w (ucast (e_kind e));
            map_option writer_result (u32 w 0x56434d32) }
          else if code = 0xdc44 then do {
            c \<leftarrow> fetch (e_title e) 0;
            s \<leftarrow> c_string (if c \<noteq> 0 then e_title e else e_display_name e);
            map_option writer_result (string w (Some s)) }
          else if code = 0xdc4f then map_option writer_result (u8 w 0)
          else if code = 0xdc46 then do {
            s \<leftarrow> c_string (e_artist e); map_option writer_result (string w (Some s)) }
          else if code = 0xdc9a then do {
            s \<leftarrow> c_string (e_album e); map_option writer_result (string w (Some s)) }
          else if code = 0xdc87 then map_option writer_result (u32 w (e_width e))
          else if code = 0xdc88 then map_option writer_result (u32 w (e_height e))
          else Some (- 1, w))"

subsection \<open>The writer as a bounded output buffer\<close>

definition w_inv :: "VcmMtpWriter \<Rightarrow> bool" where
  "w_inv w \<longleftrightarrow> w_length w \<le> w_capacity w \<and>
     (case w_data w of None \<Rightarrow> w_error w | Some d \<Rightarrow> unat (w_capacity w) \<le> length d)"

definition w_payload :: "VcmMtpWriter \<Rightarrow> u8 list" where
  "w_payload w = (case w_data w of None \<Rightarrow> [] | Some d \<Rightarrow> take (unat (w_length w)) d)"

definition w_room :: "VcmMtpWriter \<Rightarrow> nat" where
  "w_room w = unat (w_capacity w) - unat (w_length w)"

text \<open>What no operation of the writer changes: its capacity and the memory behind it.\<close>

definition w_frame :: "VcmMtpWriter \<Rightarrow> u32 \<times> (nat \<times> u8 list) option" where
  "w_frame w =
     (w_capacity w, map_option (\<lambda>d. (length d, drop (unat (w_capacity w)) d)) (w_data w))"

lemma w_inv_le: "w_inv w \<Longrightarrow> unat (w_length w) \<le> unat (w_capacity w)"
  by (simp add: w_inv_def word_le_nat_alt)

lemma w_room_word: "w_inv w \<Longrightarrow> unat (w_capacity w - w_length w) = w_room w"
  by (simp add: w_inv_def w_room_def unat_diff_le)

lemma w_inv_data: "w_inv w \<Longrightarrow> \<not> w_error w \<Longrightarrow> \<exists>d. w_data w = Some d \<and> unat (w_capacity w) \<le> length d"
  by (auto simp: w_inv_def split: option.splits)

lemma w_room_less: "w_room w < 2 ^ 32"
proof -
  have "w_room w \<le> unat (w_capacity w)" by (simp add: w_room_def)
  also have "\<dots> < 2 ^ 32" using unsigned_less [of "w_capacity w"] by simp
  finally show ?thesis .
qed

lemma w_length_add:
  assumes "w_inv w" and "n \<le> w_room w"
  shows "unat (w_length w + of_nat n) = unat (w_length w) + n"
proof -
  have "unat (w_length w) + n \<le> unat (w_capacity w)"
    using assms w_inv_le [OF assms(1)] by (simp add: w_room_def)
  moreover have "unat (w_capacity w) < 2 ^ 32" using unsigned_less [of "w_capacity w"] by simp
  moreover have "unat (of_nat n :: u32) = n"
    using assms(2) w_room_less [of w] by (simp add: unat_of_nat_small)
  ultimately show ?thesis by (simp add: unat_add_bounded)
qed

lemma bytes_loop_writes:
  assumes "w_inv w" and "w_data w = Some d" and "length source \<le> w_room w"
  shows "bytes_loop w source = Some (w\<lparr>
      w_data := Some (take (unat (w_length w)) d @ source @ drop (unat (w_length w) + length source) d),
      w_length := w_length w + of_nat (length source)\<rparr>)"
  using assms
proof (induction source arbitrary: w d)
  case Nil
  then show ?case by simp
next
  case (Cons b source)
  let ?n = "unat (w_length w)"
  let ?w = "w\<lparr>w_data := Some (d[?n := b]), w_length := w_length w + 1\<rparr>"
  have len: "?n < length d" "length d \<ge> unat (w_capacity w)" "?n < unat (w_capacity w)"
    using Cons.prems by (auto simp: w_inv_def w_room_def)
  have len1: "unat (w_length w + 1) = Suc ?n"
    using len(3) by (intro unat_Suc_bounded [of _ "w_capacity w"]) (simp add: word_less_nat_alt)
  have inv: "w_inv ?w" and room: "length source \<le> w_room ?w"
    using Cons.prems len len1 by (auto simp: w_inv_def w_room_def word_le_nat_alt)
  have "bytes_loop w (b # source) = bytes_loop ?w source"
    using Cons.prems(2) len(1) by simp
  also have "\<dots> = Some (?w\<lparr>
      w_data := Some (take (Suc ?n) (d[?n := b]) @ source @ drop (Suc ?n + length source) (d[?n := b])),
      w_length := w_length w + 1 + of_nat (length source)\<rparr>)"
    using Cons.IH [OF inv _ room] len1 by simp
  finally show ?case
    using len(1) by (simp add: take_update_Suc drop_update_cancel add_ac)
qed

lemma bytes_fits:
  assumes "w_inv w" and "\<not> w_error w" and "length source \<le> w_room w"
  shows "\<exists>w'. bytes w source = Some w' \<and> w_inv w' \<and> \<not> w_error w' \<and> w_frame w' = w_frame w \<and>
    w_payload w' = w_payload w @ source \<and> w_room w' = w_room w - length source"
proof -
  obtain d where d: "w_data w = Some d" "unat (w_capacity w) \<le> length d"
    using w_inv_data [OF assms(1,2)] by blast
  let ?n = "unat (w_length w)"
  let ?d = "take ?n d @ source @ drop (?n + length source) d"
  let ?w = "w\<lparr>w_data := Some ?d, w_length := w_length w + of_nat (length source)\<rparr>"
  have n: "?n + length source \<le> unat (w_capacity w)"
    using assms(3) w_inv_le [OF assms(1)] by (simp add: w_room_def)
  have "unat (of_nat (length source) :: u32) = length source"
    using assms(3) w_room_less [of w] by (simp add: unat_of_nat_small)
  then have "\<not> of_nat (length source) > w_capacity w - w_length w"
    using assms(3) w_room_word [OF assms(1)] by (simp add: word_less_nat_alt)
  then have "bytes w source = Some ?w"
    using assms(2) bytes_loop_writes [OF assms(1) d(1) assms(3)] by (simp add: bytes_def)
  moreover have "length ?d = length d" using n d(2) by simp
  moreover have "drop (unat (w_capacity w)) ?d = drop (unat (w_capacity w)) d"
    using n d(2) by (simp add: add.commute)
  ultimately show ?thesis
    using assms(2) n d w_length_add [OF assms(1,3)]
    by (auto simp: w_inv_def w_frame_def w_payload_def w_room_def word_le_nat_alt)
qed

lemma bytes_full:
  assumes "w_inv w" and "w_room w = 0"
  shows "bytes w [x] = Some (w\<lparr>w_error := True\<rparr>)"
  using w_room_word [OF assms(1)] assms(2) by (simp add: bytes_def word_less_nat_alt)

interpretation wr: bounded_sink w_inv w_payload w_room w_error w_frame u8
proof
  fix w x assume inv: "w_inv w"
  show "w_error w \<Longrightarrow> u8 w x = Some w" by (simp add: u8_def bytes_def)
  show "\<exists>w'. u8 w x = Some w' \<and> w_inv w' \<and> w_error w' \<and> w_frame w' = w_frame w"
    if "\<not> w_error w" "w_room w = 0"
    using bytes_full [OF inv that(2)] inv
    by (auto simp: u8_def w_inv_def w_frame_def split: option.splits)
  show "\<exists>w'. u8 w x = Some w' \<and> w_inv w' \<and> \<not> w_error w' \<and> w_frame w' = w_frame w \<and>
      w_payload w' = w_payload w @ [x] \<and> w_room w' = w_room w - 1"
    if "\<not> w_error w" "0 < w_room w"
    using bytes_fits [OF inv that(1), of "[x]"] that by (simp add: u8_def)
qed

lemma emits_u8 [emit_intros]: "wr.emits (\<lambda>w. u8 w v) [v]"
  by (rule wr.emits_put)

lemma emits_u16 [emit_intros]: "wr.emits (\<lambda>w. u16 w v) (le16 v)"
  using wr.emits_seq_lambda [OF emits_u8 emits_u8] by (simp add: u16_def le16_def)

lemma emits_u32 [emit_intros]: "wr.emits (\<lambda>w. u32 w v) (le32 v)"
  using wr.emits_seq_lambda [OF emits_u16 emits_u16] by (simp add: u32_def le32_def)

lemma emits_u64 [emit_intros]: "wr.emits (\<lambda>w. u64 w v) (le64 v)"
  using wr.emits_seq_lambda [OF emits_u32 emits_u32] by (simp add: u64_def le64_def)

lemma emits_u16_all [emit_intros]: "wr.emits (\<lambda>w. u16_all w vs) (concat (map le16 vs))"
  by (induction vs) (auto intro: wr.emits_return wr.emits_seq_lambda emits_u16)

lemma emits_u32_all [emit_intros]: "wr.emits (\<lambda>w. u32_all w vs) (concat (map le32 vs))"
  by (induction vs) (auto intro: wr.emits_return wr.emits_seq_lambda emits_u32)

lemma emits_array16 [emit_intros]:
  "wr.emits (\<lambda>w. array16 w vs) (le32 (of_nat (length vs)) @ concat (map le16 vs))"
  unfolding array16_def by (intro wr.emits_seq_lambda emit_intros)

subsection \<open>UTF-8 as numbers\<close>

text \<open>
  What UTF-8 text means, in terms of the numbers its bytes stand for. A first byte tells how many
  further bytes belong to the character, the highest part of its value and the least value that
  needs so many bytes; each further byte contributes six bits. A sequence that is not complete
  counts as one unreadable byte. Unreadable bytes, overlong forms, control characters, surrogates
  and values beyond Unicode are shown as a question mark.
\<close>

definition lead_byte :: "nat \<Rightarrow> (nat \<times> nat \<times> nat) option" where
  "lead_byte a =
     (if a < 0x80 then Some (0, a, 0)
      else if a < 0xc0 then None
      else if a < 0xe0 then Some (1, a - 0xc0, 0x80)
      else if a < 0xf0 then Some (2, a - 0xe0, 0x800)
      else if a < 0xf8 then Some (3, a - 0xf0, 0x10000)
      else None)"

definition shown_point :: "nat \<Rightarrow> nat \<Rightarrow> u32" where
  "shown_point least v =
     (if v < least \<or> v < 0x20 \<or> 0xd800 \<le> v \<and> v \<le> 0xdfff \<or> 0x10ffff < v then 0x3f else of_nat v)"

definition read_point :: "u8 list \<Rightarrow> u32 \<times> u8 list" where
  "read_point p =
     (case lead_byte (unat (hd p)) of
        None \<Rightarrow> (0x3f, tl p)
      | Some (k, v, least) \<Rightarrow>
          let tail = take k (tl p) in
          if length tail = k \<and> (\<forall>b \<in> set tail. 0x80 \<le> unat b \<and> unat b < 0xc0)
          then (shown_point least (foldl (\<lambda>v b. 64 * v + unat b mod 64) v tail), drop k (tl p))
          else (0x3f, tl p))"

text \<open>The decoder's bit operations compute these numbers.\<close>

lemma high_bits:
  fixes c :: u8
  shows "c AND 0xc0 = 0x80 \<longleftrightarrow> 0x80 \<le> unat c \<and> unat c < 0xc0"
    and "c AND 0xe0 = 0xc0 \<longleftrightarrow> 0xc0 \<le> unat c \<and> unat c < 0xe0"
    and "c AND 0xf0 = 0xe0 \<longleftrightarrow> 0xe0 \<le> unat c \<and> unat c < 0xf0"
    and "c AND 0xf8 = 0xf0 \<longleftrightarrow> 0xf0 \<le> unat c \<and> unat c < 0xf8"
proof -
  have masks: "NOT (mask 6) = (0xc0 :: u8)" "NOT (mask 5) = (0xe0 :: u8)" "NOT (mask 4) = (0xf0 :: u8)"
    "NOT (mask 3) = (0xf8 :: u8)" by code_simp+
  note m = unat_and_not_mask [of c 6] unat_and_not_mask [of c 5] unat_and_not_mask [of c 4] unat_and_not_mask [of c 3]
  have c: "unat c < 256" using unsigned_less [of c] by simp
  show "c AND 0xc0 = 0x80 \<longleftrightarrow> 0x80 \<le> unat c \<and> unat c < 0xc0"
    using c m(1) unfolding masks by (simp add: word_unat_eq_iff) linarith
  show "c AND 0xe0 = 0xc0 \<longleftrightarrow> 0xc0 \<le> unat c \<and> unat c < 0xe0"
    using c m(2) unfolding masks by (simp add: word_unat_eq_iff) linarith
  show "c AND 0xf0 = 0xe0 \<longleftrightarrow> 0xe0 \<le> unat c \<and> unat c < 0xf0"
    using c m(3) unfolding masks by (simp add: word_unat_eq_iff) linarith
  show "c AND 0xf8 = 0xf0 \<longleftrightarrow> 0xf0 \<le> unat c \<and> unat c < 0xf8"
    using c m(4) unfolding masks by (simp add: word_unat_eq_iff) linarith
qed

lemma payload_bits:
  fixes c :: u8
  shows "unat (c AND 0x3f) = unat c mod 64" "unat (c AND 0x1f) = unat c mod 32"
    "unat (c AND 0x0f) = unat c mod 16" "unat (c AND 7) = unat c mod 8"
proof -
  have m: "unat (c AND mask n) = unat c mod 2 ^ n" for n
    unfolding take_bit_eq_mask [symmetric] unsigned_take_bit_eq by (rule take_bit_eq_mod)
  show "unat (c AND 0x3f) = unat c mod 64" "unat (c AND 0x1f) = unat c mod 32"
    "unat (c AND 0x0f) = unat c mod 16" "unat (c AND 7) = unat c mod 8"
    using m [of 6] m [of 5] m [of 4] m [of 3] by (simp_all add: mask_eq_exp_minus_1)
qed

lemma or_sum:
  fixes a b :: "'w::len word"
  assumes "unat a = 2 ^ k * x" and "unat b < 2 ^ k"
  shows "unat (a OR b) = 2 ^ k * x + unat b"
proof -
  have "take_bit k (unat b) = unat b" using assms(2) by (simp add: take_bit_nat_eq_self)
  then have b: "\<not> bit (unat b) n" if "k \<le> n" for n using that by (metis bit_take_bit_iff not_le)
  have "push_bit k x AND unat b = 0"
    by (rule bit_eqI) (use b in \<open>auto simp: bit_simps simp del: bit_unsigned_iff\<close>)
  then have "push_bit k x OR unat b = push_bit k x + unat b" by (rule disjunctive_add_eq_or [symmetric])
  then show ?thesis using assms(1) by (simp add: unsigned_or_eq push_bit_eq_mult mult.commute)
qed

lemma mod_offset:
  fixes a :: nat
  assumes "m * n \<le> a" and "a < m * n + n"
  shows "a mod n = a - m * n"
  using assms by (intro mod_nat_eqI) auto

lemma continuation_bits:
  fixes b :: u8
  shows "b \<noteq> 0 \<and> b AND 0xc0 = 0x80 \<longleftrightarrow> 0x80 \<le> unat b \<and> unat b < 0xc0"
  using high_bits(1) [of b] by auto

lemma point_values:
  fixes a b c d :: u8
  shows "unat (push_bit 6 (ucast (a AND 0x1f)) OR ucast (b AND 0x3f) :: u32) = 64 * (unat a mod 32) + unat b mod 64"
    and "unat (push_bit 12 (ucast (a AND 0x0f)) OR push_bit 6 (ucast (b AND 0x3f)) OR ucast (c AND 0x3f) :: u32) =
      4096 * (unat a mod 16) + 64 * (unat b mod 64) + unat c mod 64"
    and "unat (push_bit 18 (ucast (a AND 7)) OR push_bit 12 (ucast (b AND 0x3f)) OR push_bit 6 (ucast (c AND 0x3f)) OR
      ucast (d AND 0x3f) :: u32) = 262144 * (unat a mod 8) + 4096 * (unat b mod 64) + 64 * (unat c mod 64) + unat d mod 64"
proof -
  have s: "unat (push_bit k (ucast (x AND 0x3f)) :: u32) = 2 ^ k * (unat x mod 64)"
    "unat (push_bit k (ucast (x AND 0x1f)) :: u32) = 2 ^ k * (unat x mod 32)"
    "unat (push_bit k (ucast (x AND 0x0f)) :: u32) = 2 ^ k * (unat x mod 16)"
    "unat (push_bit k (ucast (x AND 7)) :: u32) = 2 ^ k * (unat x mod 8)" if "k \<le> 24" for k and x :: u8
    using that by (simp_all add: unat_shifted_byte payload_bits)
  have two: "unat (push_bit 6 (ucast (x AND 0x3f)) OR ucast (y AND 0x3f) :: u32) = 64 * (unat x mod 64) + unat y mod 64" for x y :: u8
    using or_sum [OF s(1) [of 6 x], of "ucast (y AND 0x3f)"] payload_bits(1) [of y] by simp
  have three: "unat (push_bit 12 (ucast (x AND 0x3f)) OR push_bit 6 (ucast (y AND 0x3f)) OR ucast (z AND 0x3f) :: u32) =
      4096 * (unat x mod 64) + (64 * (unat y mod 64) + unat z mod 64)" for x y z :: u8
    using or_sum [OF s(1) [of 12 x], of "push_bit 6 (ucast (y AND 0x3f)) OR ucast (z AND 0x3f)"] unfolding two by simp
  show "unat (push_bit 6 (ucast (a AND 0x1f)) OR ucast (b AND 0x3f) :: u32) = 64 * (unat a mod 32) + unat b mod 64"
    using or_sum [OF s(2) [of 6 a], of "ucast (b AND 0x3f)"] payload_bits(1) [of b] by simp
  show "unat (push_bit 12 (ucast (a AND 0x0f)) OR push_bit 6 (ucast (b AND 0x3f)) OR ucast (c AND 0x3f) :: u32) =
      4096 * (unat a mod 16) + 64 * (unat b mod 64) + unat c mod 64"
    using or_sum [OF s(3) [of 12 a], of "push_bit 6 (ucast (b AND 0x3f)) OR ucast (c AND 0x3f)"] unfolding two by simp
  show "unat (push_bit 18 (ucast (a AND 7)) OR push_bit 12 (ucast (b AND 0x3f)) OR push_bit 6 (ucast (c AND 0x3f)) OR
      ucast (d AND 0x3f) :: u32) = 262144 * (unat a mod 8) + 4096 * (unat b mod 64) + 64 * (unat c mod 64) + unat d mod 64"
    using or_sum [OF s(4) [of 18 a], of "push_bit 12 (ucast (b AND 0x3f)) OR push_bit 6 (ucast (c AND 0x3f)) OR ucast (d AND 0x3f)"]
    unfolding three by simp
qed


lemma c_at_numeral: "c_at (a # p) (numeral k) = c_at p (pred_numeral k)"
  by (simp add: numeral_eq_Suc)

lemma not_continued:
  assumes "\<not> (length (take k q) = k \<and> (\<forall>b \<in> set (take k q). 0x80 \<le> unat b \<and> unat b < 0xc0))"
  shows "\<exists>i < k. \<not> (c_at q i \<noteq> 0 \<and> c_at q i AND 0xc0 = 0x80)"
proof (cases "length q < k")
  case True
  then show ?thesis by (intro exI [of _ "length q"]) (simp add: c_at_def)
next
  case False
  then obtain i where "i < length (take k q)" "\<not> (0x80 \<le> unat (take k q ! i) \<and> unat (take k q ! i) < 0xc0)"
    using assms by (metis in_set_conv_nth length_take min.absorb2 not_less)
  then show ?thesis
    using continuation_bits [of "q ! i"] by (intro exI [of _ i]) (simp add: c_at_def)
qed

text \<open>The end of the decoder's iteration, on a value and the least value of its length.\<close>

lemma shown_pointI:
  fixes cp least :: u32
  assumes "unat cp = v" and "unat least = l"
  shows "(let cp' = (if cp < least \<or> cp > 0x10ffff then 0x3f else cp)
      in if cp' < 0x20 \<or> 0xd800 \<le> cp' \<and> cp' \<le> 0xdfff then 0x3f else cp') = shown_point l v"
  using assms by (auto simp: shown_point_def word_less_nat_alt word_le_nat_alt)

lemma next_cp_two:
  assumes "\<not> a < 0x80" and "a AND 0xe0 = 0xc0" and "b \<noteq> 0" "b AND 0xc0 = 0x80"
  shows "next_cp (a # b # r) = (shown_point 0x80 (64 * (unat a mod 32) + unat b mod 64), r)"
proof -
  define cp :: u32 where "cp = (push_bit 6 (ucast (a AND 0x1f)) OR ucast (b AND 0x3f))"
  have v: "unat cp = 64 * (unat a mod 32) + unat b mod 64" unfolding cp_def by (rule point_values)
  have cp_less: "\<not> cp > 0x10ffff"
  proof -
    have "unat cp \<le> 0x10ffff" unfolding v
      using mod_less_divisor [of 32 "unat a"] mod_less_divisor [of 16 "unat a"] mod_less_divisor [of 64 "unat b"] mod_less_divisor [of 64 "unat c"]
      by linarith
    then show ?thesis by (simp add: word_less_nat_alt)
  qed
  have "next_cp (a # b # r) =
      (let cp' = (if cp < 0x80 \<or> cp > 0x10ffff then 0x3f else cp)
       in if cp' < 0x20 \<or> 0xd800 \<le> cp' \<and> cp' \<le> 0xdfff then 0x3f else cp', r)"
    using assms cp_less by (simp add: next_cp_def Let_def c_at_numeral flip: cp_def)
  then show ?thesis using shown_pointI [OF v, of "0x80" "0x80"] by simp
qed

lemma next_cp_three:
  assumes "\<not> a < 0x80" and "a AND 0xe0 \<noteq> 0xc0" "a AND 0xf0 = 0xe0" and "b \<noteq> 0" "b AND 0xc0 = 0x80" and "c \<noteq> 0" "c AND 0xc0 = 0x80"
  shows "next_cp (a # b # c # r) = (shown_point 0x800 (4096 * (unat a mod 16) + 64 * (unat b mod 64) + unat c mod 64), r)"
proof -
  define cp :: u32 where "cp = (push_bit 12 (ucast (a AND 0x0f)) OR push_bit 6 (ucast (b AND 0x3f)) OR ucast (c AND 0x3f))"
  have v: "unat cp = 4096 * (unat a mod 16) + 64 * (unat b mod 64) + unat c mod 64" unfolding cp_def by (rule point_values)
  have cp_less: "\<not> cp > 0x10ffff"
  proof -
    have "unat cp \<le> 0x10ffff" unfolding v
      using mod_less_divisor [of 32 "unat a"] mod_less_divisor [of 16 "unat a"] mod_less_divisor [of 64 "unat b"] mod_less_divisor [of 64 "unat c"]
      by linarith
    then show ?thesis by (simp add: word_less_nat_alt)
  qed
  have "next_cp (a # b # c # r) =
      (let cp' = (if cp < 0x800 \<or> cp > 0x10ffff then 0x3f else cp)
       in if cp' < 0x20 \<or> 0xd800 \<le> cp' \<and> cp' \<le> 0xdfff then 0x3f else cp', r)"
    using assms cp_less by (simp add: next_cp_def Let_def c_at_numeral flip: cp_def)
  then show ?thesis using shown_pointI [OF v, of "0x800" "0x800"] by simp
qed

lemma next_cp_four:
  assumes "\<not> a < 0x80" and "a AND 0xe0 \<noteq> 0xc0" "a AND 0xf0 \<noteq> 0xe0" "a AND 0xf8 = 0xf0"
    and "b \<noteq> 0" "b AND 0xc0 = 0x80" and "c \<noteq> 0" "c AND 0xc0 = 0x80" and "d \<noteq> 0" "d AND 0xc0 = 0x80"
  shows "next_cp (a # b # c # d # r) = (shown_point 0x10000 (262144 * (unat a mod 8) + 4096 * (unat b mod 64) + 64 * (unat c mod 64) + unat d mod 64), r)"
proof -
  define cp :: u32 where "cp = (push_bit 18 (ucast (a AND 7)) OR push_bit 12 (ucast (b AND 0x3f)) OR push_bit 6 (ucast (c AND 0x3f)) OR
    ucast (d AND 0x3f))"
  have v: "unat cp = 262144 * (unat a mod 8) + 4096 * (unat b mod 64) + 64 * (unat c mod 64) + unat d mod 64" unfolding cp_def by (rule point_values)
  have "next_cp (a # b # c # d # r) =
      (let cp' = (if cp < 0x10000 \<or> cp > 0x10ffff then 0x3f else cp)
       in if cp' < 0x20 \<or> 0xd800 \<le> cp' \<and> cp' \<le> 0xdfff then 0x3f else cp', r)"
    using assms by (simp add: next_cp_def Let_def c_at_numeral flip: cp_def)
  then show ?thesis using shown_pointI [OF v, of "0x10000" "0x10000"] by simp
qed

lemma read_point_broken:
  assumes "lead_byte (unat a) = Some (k, v, least)"
    and "\<not> (length (take k q) = k \<and> (\<forall>b \<in> set (take k q). 0x80 \<le> unat b \<and> unat b < 0xc0))"
  shows "read_point (a # q) = (0x3f, q)"
  using assms by (simp only: read_point_def Let_def list.sel option.case prod.case if_not_P if_False)

lemma lead_mod:
  fixes a :: nat
  shows "0xc0 \<le> a \<Longrightarrow> a < 0xe0 \<Longrightarrow> a mod 32 = a - 0xc0" "0xe0 \<le> a \<Longrightarrow> a < 0xf0 \<Longrightarrow> a mod 16 = a - 0xe0"
    "0xf0 \<le> a \<Longrightarrow> a < 0xf8 \<Longrightarrow> a mod 8 = a - 0xf0"
  using mod_offset [of 6 32 a] mod_offset [of 14 16 a] mod_offset [of 30 8 a] by simp_all

lemma next_cp_point:
  assumes "c_at p 0 \<noteq> 0"
  shows "next_cp p = read_point p"
proof -
  obtain a q where p: "p = a # q" "a \<noteq> 0" using assms by (cases p) auto
  have a: "unat a < 256" using unsigned_less [of a] by simp
  note bits = high_bits(2-4) [of a]
  consider "unat a < 0x80" | "0x80 \<le> unat a" "unat a < 0xc0" | "0xc0 \<le> unat a" "unat a < 0xe0"
    | "0xe0 \<le> unat a" "unat a < 0xf0" | "0xf0 \<le> unat a" "unat a < 0xf8" | "0xf8 \<le> unat a"
    by linarith
  then show ?thesis
  proof cases
    case 1
    then show ?thesis using p
      by (auto simp: next_cp_def read_point_def lead_byte_def shown_point_def word_less_nat_alt word_le_nat_alt word_unat_eq_iff)
  next
    case 2
    then show ?thesis using p bits by (simp add: next_cp_def read_point_def lead_byte_def word_less_nat_alt)
  next
    case 3
    have big: "\<not> a < 0x80" using 3 by (simp add: word_less_nat_alt)
    show ?thesis
    proof (cases "length (take 1 q) = 1 \<and> (\<forall>b \<in> set (take 1 q). 0x80 \<le> unat b \<and> unat b < 0xc0)")
      case False
      have "\<not> (c_at p 1 \<noteq> 0 \<and> c_at p 1 AND 0xc0 = 0x80)"
        using not_continued [OF False] p by simp
      then show ?thesis using p 3 bits big read_point_broken [OF _ False, of a] by (auto simp: next_cp_def lead_byte_def)
    next
      case True
      then obtain b r where q: "q = b # r" "0x80 \<le> unat b" "unat b < 0xc0" by (cases q) auto
      then show ?thesis
        using p 3 bits continuation_bits [of b] next_cp_two [OF big, of b r] lead_mod(1) [OF 3]
        by (simp add: read_point_def lead_byte_def)
    qed
  next
    case 4
    have big: "\<not> a < 0x80" using 4 by (simp add: word_less_nat_alt)
    show ?thesis
    proof (cases "length (take 2 q) = 2 \<and> (\<forall>b \<in> set (take 2 q). 0x80 \<le> unat b \<and> unat b < 0xc0)")
      case False
      have "\<not> (c_at p 1 \<noteq> 0 \<and> c_at p 2 \<noteq> 0 \<and> c_at p 1 AND 0xc0 = 0x80 \<and> c_at p 2 AND 0xc0 = 0x80)"
        using not_continued [OF False] p by (auto simp: less_Suc_eq numeral_2_eq_2 c_at_numeral)
      then show ?thesis using p 4 bits big read_point_broken [OF _ False, of a] by (auto simp: next_cp_def lead_byte_def)
    next
      case True
      then obtain b c r where q: "q = b # c # r" "0x80 \<le> unat b" "unat b < 0xc0" "0x80 \<le> unat c" "unat c < 0xc0"
        by (cases q; cases "tl q") auto
      then show ?thesis
        using p 4 bits continuation_bits [of b] continuation_bits [of c] next_cp_three [OF big, of b c r] lead_mod(2) [OF 4]
        by (simp add: read_point_def lead_byte_def)
    qed
  next
    case 5
    have big: "\<not> a < 0x80" using 5 by (simp add: word_less_nat_alt)
    show ?thesis
    proof (cases "length (take 3 q) = 3 \<and> (\<forall>b \<in> set (take 3 q). 0x80 \<le> unat b \<and> unat b < 0xc0)")
      case False
      have "\<not> (c_at p 1 \<noteq> 0 \<and> c_at p 2 \<noteq> 0 \<and> c_at p 3 \<noteq> 0 \<and> c_at p 1 AND 0xc0 = 0x80 \<and> c_at p 2 AND 0xc0 = 0x80 \<and>
          c_at p 3 AND 0xc0 = 0x80)"
        using not_continued [OF False] p by (auto simp: less_Suc_eq numeral_3_eq_3 c_at_numeral)
      then show ?thesis using p 5 bits big read_point_broken [OF _ False, of a] by (auto simp: next_cp_def lead_byte_def)
    next
      case True
      then obtain b c d r where q: "q = b # c # d # r" "0x80 \<le> unat b" "unat b < 0xc0" "0x80 \<le> unat c" "unat c < 0xc0"
          "0x80 \<le> unat d" "unat d < 0xc0"
        by (cases q; cases "tl q"; cases "tl (tl q)") auto
      then show ?thesis
        using p 5 bits continuation_bits [of b] continuation_bits [of c] continuation_bits [of d] next_cp_four [OF big, of b c d r]
          lead_mod(3) [OF 5]
        by (simp add: read_point_def lead_byte_def)
    qed
  next
    case 6
    then show ?thesis using p bits by (simp add: next_cp_def read_point_def lead_byte_def word_less_nat_alt)
  qed
qed

subsection \<open>The reference encoding of strings\<close>

definition utf16 :: "u32 \<Rightarrow> u16 list" where
  "utf16 cp =
     (if cp > 0xffff
      then [ucast (0xd800 + drop_bit 10 (cp - 0x10000)), ucast (0xdc00 + ((cp - 0x10000) AND 0x3ff))]
      else [ucast cp])"

function utf8_cps :: "u8 list \<Rightarrow> u32 list" where
  "utf8_cps p = (if c_at p 0 = 0 then [] else let (cp, p') = read_point p in cp # utf8_cps p')"
  by pat_completeness auto
termination
  by (relation "measure length") (auto simp flip: next_cp_point intro: next_cp_shorter [OF _ sym])

declare utf8_cps.simps [simp del]

lemma utf8_cps_unfold [code]:
  "utf8_cps p = (if c_at p 0 = 0 then [] else let (cp, p') = next_cp p in cp # utf8_cps p')"
  by (subst utf8_cps.simps) (simp add: next_cp_point)

fun fit :: "nat \<Rightarrow> u32 list \<Rightarrow> u32 list" where
  "fit n [] = []"
| "fit n (cp # cps) =
     (if length (utf16 cp) \<le> n then cp # fit (n - length (utf16 cp)) cps else [])"

definition mtp_units :: "nat \<Rightarrow> u8 list \<Rightarrow> u16 list" where
  "mtp_units n p = concat (map utf16 (fit n (utf8_cps p)))"

definition mtp_string :: "u8 list option \<Rightarrow> u8 list" where
  "mtp_string s =
     (case s of
        None \<Rightarrow> [0]
      | Some p \<Rightarrow>
          if c_at p 0 = 0 then [0]
          else of_nat (Suc (length (mtp_units 254 p))) # concat (map le16 (mtp_units 254 p)) @ le16 0)"

lemma utf16_length: "length (utf16 cp) = (if cp > 0xffff then 2 else 1)"
  by (simp add: utf16_def)

lemma mtp_units_stop: "c_at p 0 = 0 \<or> n = 0 \<Longrightarrow> mtp_units n p = []"
  by (subst mtp_units_def, subst utf8_cps_unfold)
     (auto simp: utf16_length split: prod.splits)

lemma mtp_units_step:
  "c_at p 0 \<noteq> 0 \<Longrightarrow> next_cp p = (cp, p') \<Longrightarrow>
    mtp_units n p = (if length (utf16 cp) \<le> n then utf16 cp @ mtp_units (n - length (utf16 cp)) p' else [])"
  by (simp add: mtp_units_def utf8_cps_unfold [of p])

lemma mtp_units_length: "length (mtp_units n p) \<le> n"
proof -
  have "length (concat (map utf16 (fit n cps))) \<le> n" for cps
    by (induction n cps rule: fit.induct) auto
  then show ?thesis by (simp add: mtp_units_def)
qed

lemma string_loop_stop: "c_at p 0 = 0 \<or> \<not> units < 254 \<Longrightarrow> string_loop w p units = Some (w, units, False)"
  by (subst string_loop.simps) simp

lemma string_loop_step:
  assumes "c_at p 0 \<noteq> 0" and "units < 254" and "next_cp p = (cp, p')"
  shows "string_loop w p units =
    (if cp > 0xffff \<and> units + 2 > 254 then Some (w, units, False)
     else if w_capacity w - w_length w < 2 * of_nat (length (utf16 cp))
     then Some (w\<lparr>w_error := True\<rparr>, units, True)
     else u16_all w (utf16 cp) \<bind> (\<lambda>w. string_loop w p' (units + of_nat (length (utf16 cp)))))"
  using assms by (subst string_loop.simps) (auto simp: utf16_def Let_def)

lemma string_loop_failed:
  "w_inv w \<Longrightarrow> w_error w \<Longrightarrow> \<exists>units' returned. string_loop w p units = Some (w, units', returned)"
proof (induction w p units rule: string_loop.induct)
  case (1 w p units)
  show ?case
  proof (cases "c_at p 0 = 0 \<or> \<not> units < 254")
    case True
    then show ?thesis using string_loop_stop by blast
  next
    case False
    obtain cp p' where cp: "next_cp p = (cp, p')" by fastforce
    have [simp]: "w\<lparr>w_error := True\<rparr> = w" using 1(4) by simp
    have u: "u16 w v = Some w" for v
      using wr.emits_failed [OF emits_u16 1(3,4)] .
    show ?thesis
      using False cp 1 u
      by (auto simp: string_loop_step utf16_def)
  qed
qed


lemma units_add: "unat units + k \<le> 254 \<Longrightarrow> unat (units + of_nat k :: u32) = unat units + k"
  by (subst unat_add_bounded) (simp_all add: unat_of_nat)

lemma string_loop_writes:
  assumes "w_inv w" and "\<not> w_error w" and "unat units \<le> 254"
  shows "let us = mtp_units (254 - unat units) p in
    (if w_room w < 2 * length us
     then \<exists>w' units'. string_loop w p units = Some (w', units', True) \<and> w_inv w' \<and> w_error w' \<and>
       w_frame w' = w_frame w
     else \<exists>w'. string_loop w p units = Some (w', units + of_nat (length us), False) \<and> w_inv w' \<and>
       \<not> w_error w' \<and> w_frame w' = w_frame w \<and> w_payload w' = w_payload w @ concat (map le16 us) \<and>
       w_room w' = w_room w - 2 * length us)"
  using assms
proof (induction "length p" arbitrary: w p units rule: less_induct)
  case less
  let ?us = "mtp_units (254 - unat units) p"
  show ?case
  proof (cases "c_at p 0 = 0 \<or> \<not> units < 254")
    case True
    then have "?us = []" using less.prems(3) by (auto simp: word_less_nat_alt intro!: mtp_units_stop)
    with True less.prems show ?thesis by (simp add: string_loop_stop)
  next
    case False
    obtain cp p' where cp: "next_cp p = (cp, p')" by fastforce
    let ?k = "length (utf16 cp)"
    have k: "?k = (if cp > 0xffff then 2 else 1)" by (simp add: utf16_length)
    have units: "unat units < 254" using False by (simp add: word_less_nat_alt)
    have over: "(cp > 0xffff \<and> units + 2 > 254) = (254 - unat units < ?k)"
      using units k units_add [of units 2] by (auto simp: word_less_nat_alt unat_word_ariths)
    note loop = string_loop_step [OF _ _ cp, of units w]
    show ?thesis
    proof (cases "254 - unat units < ?k")
      case True
      then have "?us = []" using mtp_units_step [OF _ cp] False by simp
      with True False less.prems over show ?thesis by (simp add: loop)
    next
      case fits: False
      let ?us' = "mtp_units (254 - unat units - ?k) p'"
      have us: "?us = utf16 cp @ ?us'" using mtp_units_step [OF _ cp] False fits by simp
      have room: "(w_capacity w - w_length w < 2 * of_nat ?k) = (w_room w < 2 * ?k)"
        using w_room_word [OF less.prems(1)] k by (simp add: word_less_nat_alt)
      show ?thesis
      proof (cases "w_room w < 2 * ?k")
        case True
        with False fits over less.prems room us show ?thesis
          by (auto simp: loop w_inv_def w_frame_def split: option.splits)
      next
        case enough: False
        obtain w1 where w1: "u16_all w (utf16 cp) = Some w1" "w_inv w1" "\<not> w_error w1"
          "w_frame w1 = w_frame w" "w_payload w1 = w_payload w @ concat (map le16 (utf16 cp))"
          "w_room w1 = w_room w - 2 * ?k"
          using wr.emits_fits [OF emits_u16_all less.prems(1,2), of "utf16 cp"] enough by auto
        have un: "unat (units + of_nat ?k) = unat units + ?k"
          using fits units by (intro units_add) simp
        have step: "string_loop w p units = string_loop w1 p' (units + of_nat ?k)"
          using False fits over enough room w1(1) by (auto simp: loop)
        have shorter: "length p' < length p" using next_cp_shorter [OF _ cp] False by simp
        have rest: "254 - unat (units + of_nat ?k) = 254 - unat units - ?k" using un by simp
        have "unat (units + of_nat ?k) \<le> 254" using un fits units by simp
        from less.hyps [OF shorter w1(2,3) this] show ?thesis
          unfolding step us rest using w1 enough
          by (auto simp: Let_def add_ac split: if_splits)
      qed
    qed
  qed
qed

lemma shift_right_moves:
  assumes "start \<le> n" and "n < length d"
  shows "shift_right d n start =
    Some (take (Suc start) d @ take (n - start) (drop start d) @ drop (Suc n) d)"
  using assms
proof (induction n arbitrary: d rule: less_induct)
  case (less n)
  show ?case
  proof (cases "start < n")
    case False
    with less.prems show ?thesis
      by (simp add: shift_right.simps Cons_nth_drop_Suc)
  next
    case True
    then obtain m where n: "n = Suc m" by (cases n) auto
    let ?d = "d[n := d ! m]"
    have "shift_right d n start = shift_right ?d m start"
      using True less.prems n by (simp add: shift_right.simps [of d "Suc m"])
    also have "\<dots> = Some (take (Suc start) ?d @ take (m - start) (drop start ?d) @ drop (Suc m) ?d)"
      using less.IH [of m ?d] True less.prems n by simp
    also have "take (Suc start) ?d = take (Suc start) d"
      using True n by simp
    also have "take (m - start) (drop start ?d) = take (m - start) (drop start d)"
      using True n by (simp add: drop_update_swap)
    also have "drop (Suc m) ?d = d ! m # drop (Suc n) d"
      using less.prems(2) n by (simp add: Cons_nth_drop_Suc [symmetric])
    finally show ?thesis
      using True less.prems n
      by (simp add: Suc_diff_le take_Suc_conv_app_nth)
  qed
qed

lemma shift_and_count:
  assumes "start \<le> n" and "n < length d"
  shows "do { d \<leftarrow> shift_right d n start; store d start v } =
    Some (take start d @ v # take (n - start) (drop start d) @ drop (Suc n) d)"
  using assms
  by (simp add: shift_right_moves list_update_append take_Suc_conv_app_nth)

lemma w_payload_data:
  "w_inv w \<Longrightarrow> w_data w = Some d \<Longrightarrow> w_payload w = take (unat (w_length w)) d \<and>
    length (w_payload w) = unat (w_length w)"
  by (auto simp: w_inv_def w_payload_def word_le_nat_alt)

text \<open>The end of the string encoder: shift the encoded units, prepend the count, terminate.\<close>

lemma string_finish:
  assumes inv: "w_inv w" "w_inv w'" "\<not> w_error w'" and frame: "w_frame w' = w_frame w"
    and start: "unat start = length (w_payload w)"
    and payload: "w_payload w' = w_payload w @ body" and room: "3 \<le> w_room w'"
  shows "\<exists>w2. do {
      d \<leftarrow> w_data w';
      d \<leftarrow> shift_right d (unat (w_length w')) (unat start);
      d \<leftarrow> store d (unat start) c;
      u16 (w'\<lparr>w_data := Some d, w_length := w_length w' + 1\<rparr>) 0
    } = Some w2 \<and> w_inv w2 \<and> \<not> w_error w2 \<and> w_frame w2 = w_frame w \<and>
    w_payload w2 = w_payload w @ c # body @ le16 0 \<and> w_room w2 = w_room w' - 3"
proof -
  obtain d where d: "w_data w' = Some d" "unat (w_capacity w') \<le> length d"
    using w_inv_data [OF inv(2,3)] by blast
  let ?n = "unat (w_length w')" and ?st = "unat start"
  have n: "?n = ?st + length body" "take ?n d = w_payload w @ body"
    using w_payload_data [OF inv(2) d(1)] payload start by auto
  have cap: "Suc ?n < unat (w_capacity w')" using room by (simp add: w_room_def)
  have len: "unat (w_length w' + 1) = Suc ?n"
    using cap by (intro unat_Suc_bounded [of _ "w_capacity w'"]) (simp add: word_less_nat_alt)
  have parts: "take ?st d = w_payload w" "take (?n - ?st) (drop ?st d) = body"
    using n start by (metis append_eq_conv_conj le_add1 min.absorb1 take_take)
      (metis n start append_eq_conv_conj take_drop add_diff_cancel_left' le_add_diff_inverse2 add.commute le_add1)
  let ?d = "w_payload w @ c # body @ drop (Suc ?n) d"
  let ?w = "w'\<lparr>w_data := Some ?d, w_length := w_length w' + 1\<rparr>"
  have run: "do { d \<leftarrow> shift_right d ?n ?st; store d ?st c } = Some ?d"
    using shift_and_count [of ?st ?n d c] n(1) parts cap d(2) by simp
  have pre: "length (w_payload w @ c # body) = Suc ?n" using n(1) start by simp
  have "?d = (w_payload w @ c # body) @ drop (Suc ?n) d" by simp
  with pre cap d(2) have "length ?d = length d" "drop (unat (w_capacity w')) ?d = drop (unat (w_capacity w')) d"
    "take (Suc ?n) ?d = w_payload w @ c # body"
    by (simp_all only: length_append drop_append take_append) auto
  moreover from this have "w_frame ?w = w_frame w'" using d by (simp add: w_frame_def)
  ultimately have w: "w_inv ?w" "w_frame ?w = w_frame w" "w_payload ?w = w_payload w @ c # body"
    "w_room ?w = w_room w' - 1"
    using d cap len frame
    by (simp_all add: w_inv_def w_payload_def w_room_def word_le_nat_alt)
  obtain d1 where d1: "shift_right d ?n ?st = Some d1" "store d1 ?st c = Some ?d"
    using run by (auto simp: bind_eq_Some_conv)
  have "\<not> w_error ?w" and "length (le16 0) \<le> w_room ?w" using inv(3) w(4) room by simp_all
  from wr.emits_fits [OF emits_u16 w(1) this]
  obtain w2 where "u16 ?w 0 = Some w2" "w_inv w2" "\<not> w_error w2" "w_frame w2 = w_frame ?w"
    "w_payload w2 = w_payload ?w @ le16 0" "w_room w2 = w_room ?w - 2" by auto
  then show ?thesis using w d(1) d1 by simp
qed

text \<open>The in-place string encoder appends exactly the counted UTF-16 string.\<close>

lemma string_fits:
  assumes inv: "w_inv w" "\<not> w_error w" and p: "c_at p 0 \<noteq> 0"
    and room: "length (mtp_string (Some p)) \<le> w_room w"
  shows "\<exists>w2. string w (Some p) = Some w2 \<and> w_inv w2 \<and> \<not> w_error w2 \<and> w_frame w2 = w_frame w \<and>
    w_payload w2 = w_payload w @ mtp_string (Some p) \<and> w_room w2 = w_room w - length (mtp_string (Some p))"
proof -
  let ?us = "mtp_units 254 p"
  have len: "length (mtp_string (Some p)) = 3 + 2 * length ?us" using p by (simp add: mtp_string_def)
  obtain w' where w': "string_loop w p 0 = Some (w', of_nat (length ?us), False)" "w_inv w'"
    "\<not> w_error w'" "w_frame w' = w_frame w" "w_payload w' = w_payload w @ concat (map le16 ?us)"
    "w_room w' = w_room w - 2 * length ?us"
    using string_loop_writes [OF inv, of 0 p] room len by (auto simp: Let_def)
  have "\<not> w_capacity w' - w_length w' < 3"
    using w_room_word [OF w'(2)] w'(6) room len by (simp add: word_less_nat_alt)
  then have run: "string w (Some p) = do {
      d \<leftarrow> w_data w';
      d \<leftarrow> shift_right d (unat (w_length w')) (unat (w_length w));
      d \<leftarrow> store d (unat (w_length w)) (ucast (of_nat (length ?us) + 1 :: u32));
      u16 (w'\<lparr>w_data := Some d, w_length := w_length w' + 1\<rparr>) 0 }"
    using w' p by (simp add: string_def Let_def)
  have start: "unat (w_length w) = length (w_payload w)"
    using w_inv_data [OF inv] w_payload_data [OF inv(1)] by auto
  have count: "ucast (of_nat (length ?us) + 1 :: u32) = (of_nat (Suc (length ?us)) :: u8)"
    using mtp_units_length [of 254 p] ucast_of_nat_u8 [of "Suc (length ?us)"]
    by (simp add: add.commute)
  have bytes: "mtp_string (Some p) = of_nat (Suc (length ?us)) # concat (map le16 ?us) @ le16 0"
    using p by (simp add: mtp_string_def)
  have rooms: "3 \<le> w_room w'" "w_room w' - 3 = w_room w - length (mtp_string (Some p))"
    using w'(6) room len by simp_all
  from string_finish [OF inv(1) w'(2,3,4) start w'(5) rooms(1), where c = "of_nat (Suc (length ?us))"]
  show ?thesis
    unfolding run count bytes [symmetric] rooms(2) .
qed

lemma string_full:
  assumes inv: "w_inv w" "\<not> w_error w" and p: "c_at p 0 \<noteq> 0"
    and room: "w_room w < length (mtp_string (Some p))"
  shows "\<exists>w2. string w (Some p) = Some w2 \<and> w_inv w2 \<and> w_error w2 \<and> w_frame w2 = w_frame w"
proof -
  let ?us = "mtp_units 254 p"
  have len: "length (mtp_string (Some p)) = 3 + 2 * length ?us" using p by (simp add: mtp_string_def)
  note loop = string_loop_writes [OF inv, of 0 p]
  show ?thesis
  proof (cases "w_room w < 2 * length ?us")
    case True
    with loop p show ?thesis by (auto simp: Let_def string_def)
  next
    case False
    with loop obtain w' where w': "string_loop w p 0 = Some (w', of_nat (length ?us), False)"
      "w_inv w'" "w_frame w' = w_frame w" "w_room w' = w_room w - 2 * length ?us"
      by (auto simp: Let_def)
    have "w_capacity w' - w_length w' < 3"
      using w_room_word [OF w'(2)] w'(4) False room len by (simp add: word_less_nat_alt)
    with w' p show ?thesis
      by (auto simp: string_def Let_def w_inv_def w_frame_def split: option.splits)
  qed
qed

lemma string_failed:
  assumes "w_inv w" and "w_error w"
  shows "string w s = Some w"
proof (cases s)
  case None
  then show ?thesis using wr.emits_failed [OF emits_u8 assms] by (simp add: string_def)
next
  case (Some p)
  obtain units' returned where "string_loop w p 0 = Some (w, units', returned)"
    using string_loop_failed [OF assms] by blast
  then show ?thesis
    using Some assms(2) wr.emits_failed [OF emits_u8 assms] by (simp add: string_def Let_def)
qed

lemma emits_string [emit_intros]: "wr.emits (\<lambda>w. string w s) (mtp_string s)"
proof (cases "\<exists>p. s = Some p \<and> c_at p 0 \<noteq> 0")
  case False
  then have "mtp_string s = [0]" and "\<And>w. string w s = u8 w 0"
    by (auto simp: mtp_string_def string_def split: option.splits)
  then show ?thesis by (simp add: emits_u8)
next
  case True
  then obtain p where s: "s = Some p" and p: "c_at p 0 \<noteq> 0" by blast
  show ?thesis
    unfolding wr.emits_def s
  proof (intro allI impI)
    fix w assume inv: "w_inv w"
    show "if w_error w then string w (Some p) = Some w
      else (\<exists>w'. string w (Some p) = Some w' \<and> w_inv w' \<and> w_frame w' = w_frame w \<and>
        (if w_room w < length (mtp_string (Some p)) then w_error w'
         else \<not> w_error w' \<and> w_payload w' = w_payload w @ mtp_string (Some p) \<and>
           w_room w' = w_room w - length (mtp_string (Some p))))"
      using string_failed [OF inv] string_full [OF inv _ p] string_fits [OF inv _ p]
      by (cases "w_room w < length (mtp_string (Some p))") auto
  qed
qed

subsection \<open>Data sets as concatenations of fields\<close>

text \<open>
  A function that writes a data set \<open>yields D\<close> when it emits \<open>D\<close> and then reports the
  writer's length or error.
\<close>

definition yields :: "(VcmMtpWriter \<Rightarrow> (int \<times> VcmMtpWriter) option) \<Rightarrow> u8 list \<Rightarrow> bool" where
  "yields g xs \<longleftrightarrow> (\<exists>f. wr.emits f xs \<and> g = (\<lambda>w. f w \<bind> (\<lambda>w. Some (writer_result w))))"

lemma yields_end: "yields (\<lambda>w. Some (writer_result w)) []"
  unfolding yields_def by (rule exI [of _ Some]) (simp add: wr.emits_return)

lemma yields_seq: "wr.emits f xs \<Longrightarrow> yields g ys \<Longrightarrow> yields (\<lambda>w. do { w \<leftarrow> f w; g w }) (xs @ ys)"
  unfolding yields_def
  by (elim exE conjE) (rule exI, rule conjI, erule (1) wr.emits_seq, simp)

lemma yields_map: "wr.emits f xs \<Longrightarrow> yields (\<lambda>w. map_option writer_result (f w)) xs"
  unfolding yields_def by (rule exI [of _ f]) (simp add: map_conv_bind_option comp_def)

lemma yields_eq: "yields g xs \<Longrightarrow> xs = ys \<Longrightarrow> yields g ys"
  by simp

lemmas yields_intros = yields_end yields_seq

text \<open>The outcome of writing a data set into a fresh buffer.\<close>

definition delivers :: "u8 list \<Rightarrow> u8 list \<Rightarrow> u32 \<Rightarrow> (int \<times> VcmMtpWriter) option \<Rightarrow> bool" where
  "delivers D buf capacity r \<longleftrightarrow>
     (\<exists>n w buf'. r = Some (n, w) \<and> w_data w = Some buf' \<and> length buf' = length buf \<and>
        drop (unat capacity) buf' = drop (unat capacity) buf \<and>
        (if length D \<le> unat capacity
         then n = int (length D) \<and> w_length w = of_nat (length D) \<and> take (length D) buf' = D
         else n = - 1))"

lemma writer_init_inv:
  "unat capacity \<le> length buf \<Longrightarrow> w_inv (vcm_mtp_writer_init (Some buf) capacity)"
  by (simp add: w_inv_def vcm_mtp_writer_init_def)

lemma yields_delivers:
  assumes "yields g D" and buf: "unat capacity \<le> length buf" and D: "length D < 2 ^ 31"
  shows "delivers D buf capacity (g (vcm_mtp_writer_init (Some buf) capacity))"
proof -
  let ?w = "vcm_mtp_writer_init (Some buf) capacity"
  obtain f where f: "wr.emits f D" and g: "g = (\<lambda>w. f w \<bind> (\<lambda>w. Some (writer_result w)))"
    using assms(1) by (auto simp: yields_def)
  have w: "w_inv ?w" "\<not> w_error ?w" "w_room ?w = unat capacity" "w_payload ?w = []"
    "w_frame ?w = (capacity, Some (length buf, drop (unat capacity) buf))"
    using writer_init_inv [OF buf]
    by (simp_all add: vcm_mtp_writer_init_def w_room_def w_payload_def w_frame_def)
  show ?thesis
  proof (cases "length D \<le> unat capacity")
    case True
    then obtain w' where w': "f ?w = Some w'" "w_inv w'" "\<not> w_error w'" "w_frame w' = w_frame ?w"
      "w_payload w' = D"
      using wr.emits_fits [OF f w(1,2)] w(3,4) by auto
    obtain buf' where buf': "w_data w' = Some buf'" using w_inv_data [OF w'(2,3)] by blast
    have len: "unat (w_length w') = length D" "take (length D) buf' = D"
      using w_payload_data [OF w'(2) buf'] w'(5) by auto
    have "w_length w' = of_nat (length D)" using len(1) D by (simp add: word_unat_eq_iff unat_of_nat_small)
    moreover have "sint (of_nat (length D) :: u32) = int (length D)"
      using D by (rule sint_of_nat_u32)
    ultimately show ?thesis
      using True w' w(5) buf' len(2) by (auto simp: delivers_def g writer_result_def w_frame_def)
  next
    case False
    then show ?thesis
      using wr.emits_full [OF f w(1,2)] w(3,5)
      by (auto simp: delivers_def g writer_result_def w_frame_def)
  qed
qed

lemma mtp_string_length: "length (mtp_string s) \<le> 511"
  using mtp_units_length [of 254] by (auto simp: mtp_string_def split: option.splits)

definition device_info_dataset :: "u8 list" where
  "device_info_dataset =
     le16 100 @ le32 6 @ le16 100 @ mtp_string (Some (ascii ''microsoft.com: 1.0; '')) @ le16 0 @
     le32 (of_nat (length operations)) @ concat (map le16 operations) @
     le32 0 @ le32 0 @ le32 0 @
     le32 (of_nat (length formats)) @ concat (map le16 formats) @
     mtp_string (Some (ascii ''Content Manager Pro'')) @
     mtp_string (Some (ascii ''Virtual Media Library'')) @
     mtp_string (Some (ascii ''1.0'')) @ mtp_string (Some (ascii ''VCM''))"

lemma device_info_yields: "yields vcm_mtp_device_info device_info_dataset"
  unfolding vcm_mtp_device_info_def device_info_dataset_def
  by (rule yields_eq) ((rule yields_intros emit_intros)+, simp)

definition storage_info_dataset :: "u64 \<Rightarrow> u64 \<Rightarrow> u8 list" where
  "storage_info_dataset capacity free_bytes =
     le16 3 @ le16 2 @ le16 1 @ le64 capacity @ le64 free_bytes @ le32 0xffffffff @
     mtp_string (Some (ascii ''Media on PS Vita'')) @ mtp_string (Some (ascii ''Photo, Music and Video''))"

definition object_info_dataset :: "VcmMtpObjectInfo \<Rightarrow> u8 list" where
  "object_info_dataset o1 =
     le32 (oi_storage_id o1) @ le16 (oi_format o1) @ le16 1 @ le32 (oi_size o1) @
     le16 (if oi_thumb_size o1 \<noteq> 0 then 0x3804 else 0) @ le32 (oi_thumb_size o1) @
     le32 (ucast (oi_thumb_width o1)) @ le32 (ucast (oi_thumb_height o1)) @
     le32 (oi_width o1) @ le32 (oi_height o1) @ le32 0 @ le32 (oi_parent o1) @
     le16 (if oi_format o1 = 0x3001 then 1 else 0) @ le32 0 @ le32 0 @
     mtp_string (oi_name o1) @ mtp_string (oi_created o1) @ mtp_string (oi_modified o1) @ [0]"

definition u32_array_dataset :: "u32 list \<Rightarrow> u8 list" where
  "u32_array_dataset vs = le32 (of_nat (length vs)) @ concat (map le32 vs)"

definition props_supported_dataset :: "u16 \<Rightarrow> u8 list" where
  "props_supported_dataset format =
     le32 (of_nat (length (object_props format))) @ concat (map le16 (object_props format))"

definition prop_desc_dataset :: "u16 \<Rightarrow> u8 list" where
  "prop_desc_dataset code =
     le16 code @ le16 (prop_type code) @ [0] @
     (let type = prop_type code in
      if type = 0x0002 then [0] else if type = 0x0004 then le16 0 else if type = 0x0006 then le32 0
      else if type = 0x0008 then le64 0 else if type = 0x000a then le64 0 @ le64 0 else [0]) @
     le32 0 @ [0]"

lemma mtp_string_empty [simp]: "mtp_string (Some []) = [0]"
  by (simp add: mtp_string_def)

lemma storage_info_yields:
  "yields (\<lambda>w. vcm_mtp_storage_info w capacity free_bytes) (storage_info_dataset capacity free_bytes)"
  unfolding vcm_mtp_storage_info_def storage_info_dataset_def
  by (rule yields_eq) ((rule yields_intros emit_intros)+, simp)

lemma object_info_yields:
  "yields (\<lambda>w. vcm_mtp_object_info w (Some o1)) (object_info_dataset o1)"
  unfolding vcm_mtp_object_info_def object_info_dataset_def option.case
  by (rule yields_eq) ((rule yields_intros emit_intros)+, simp)

lemma props_supported_yields:
  "yields (\<lambda>w. vcm_mtp_object_props_supported w format) (props_supported_dataset format)"
  unfolding vcm_mtp_object_props_supported_def props_supported_dataset_def
  by (rule yields_eq) ((rule yields_intros emit_intros)+, simp)

lemma u32_array_yields:
  assumes "unat count = length vs"
  shows "yields (\<lambda>w. vcm_mtp_u32_array w (Some vs) count) (u32_array_dataset vs)"
proof -
  have "count = of_nat (length vs)" by (simp flip: assms)
  moreover have "yields (\<lambda>w. do { w \<leftarrow> u32 w count; w \<leftarrow> u32_all w vs; Some (writer_result w) })
      (le32 count @ concat (map le32 vs) @ [])"
    by (rule yields_intros emit_intros)+
  moreover have "vcm_mtp_u32_array w (Some vs) count =
      do { w \<leftarrow> u32 w count; w \<leftarrow> u32_all w vs; Some (writer_result w) }" for w
    using assms by (cases "count = 0") (simp_all add: vcm_mtp_u32_array_def)
  ultimately show ?thesis
    by (simp add: u32_array_dataset_def)
qed

lemma prop_desc_yields:
  assumes "supported code format"
  shows "yields (\<lambda>w. vcm_mtp_object_prop_desc w code format) (prop_desc_dataset code)"
proof -
  let ?t = "prop_type code"
  let ?f = "\<lambda>w. if ?t = 0x0002 then u8 w 0 else if ?t = 0x0004 then u16 w 0 else if ?t = 0x0006 then u32 w 0
    else if ?t = 0x0008 then u64 w 0 else if ?t = 0x000a then do { w \<leftarrow> u64 w 0; u64 w 0 }
    else string w (Some [])"
  have form: "wr.emits ?f (if ?t = 0x0002 then [0] else if ?t = 0x0004 then le16 0
      else if ?t = 0x0006 then le32 0 else if ?t = 0x0008 then le64 0
      else if ?t = 0x000a then le64 0 @ le64 0 else [0])"
    using emits_string [of "Some []"]
    by (simp add: emits_u8 emits_u16 emits_u32 emits_u64 wr.emits_seq_lambda)
  have "yields (\<lambda>w. vcm_mtp_object_prop_desc w code format) (le16 code @ le16 ?t @ [0] @
      (if ?t = 0x0002 then [0] else if ?t = 0x0004 then le16 0 else if ?t = 0x0006 then le32 0
       else if ?t = 0x0008 then le64 0 else if ?t = 0x000a then le64 0 @ le64 0 else [0]) @
      le32 0 @ [0] @ [])"
    using assms unfolding vcm_mtp_object_prop_desc_def Let_def
    by (simp only: simp_thms if_False not_True_eq_False) (rule yields_intros emit_intros form)+
  then show ?thesis by (simp add: prop_desc_dataset_def Let_def)
qed

definition prop_value_dataset :: "VcmMtpEntry \<Rightarrow> u16 \<Rightarrow> u8 list" where
  "prop_value_dataset e code =
     (if code = 0xdc01 then le32 VCM_MTP_STORAGE_ID
      else if code = 0xdc02 then le16 (e_format e)
      else if code = 0xdc03 then le16 1
      else if code = 0xdc04 then le64 (e_size e)
      else if code = 0xdc07 then mtp_string (c_string (e_display_name e))
      else if code = 0xdc08 then mtp_string (c_string (e_created e))
      else if code = 0xdc09 then mtp_string (c_string (e_modified e))
      else if code = 0xdc0b then le32 (e_parent e)
      else if code = 0xdc41 then
        le64 (if e_kind e = 4 then ucast (e_handle e) else e_native_id e) @
        le32 (ucast (e_kind e)) @ le32 0x56434d32
      else if code = 0xdc44 then
        mtp_string (c_string (if e_title e ! 0 \<noteq> 0 then e_title e else e_display_name e))
      else if code = 0xdc4f then [0]
      else if code = 0xdc46 then mtp_string (c_string (e_artist e))
      else if code = 0xdc9a then mtp_string (c_string (e_album e))
      else if code = 0xdc87 then le32 (e_width e)
      else le32 (e_height e))"

lemma prop_value_yields:
  assumes "supported code (e_format e)" and ok: "entry_strings_ok e"
  shows "yields (\<lambda>w. vcm_mtp_object_prop_value w (Some e) code) (prop_value_dataset e code)"
proof -
  have id: "yields (\<lambda>w. do { w \<leftarrow> u64 w a; w \<leftarrow> u32 w b; map_option writer_result (u32 w c) })
      (le64 a @ le32 b @ le32 c)" for a b c
    by (intro yields_seq yields_map emit_intros)
  have codes: "code \<in> {0xdc01, 0xdc02, 0xdc03, 0xdc04, 0xdc07, 0xdc08, 0xdc09, 0xdc0b, 0xdc41,
      0xdc44, 0xdc4f, 0xdc46, 0xdc9a, 0xdc87, 0xdc88}"
    using assms(1) by (auto simp: supported_def common_props_def split: if_splits)
  note strings = ok [unfolded entry_strings_ok_def]
  show ?thesis
    using codes assms(1) strings
    by (elim insertE emptyE; simp add: vcm_mtp_object_prop_value_def prop_value_dataset_def
        c_string_def yields_map emit_intros id)
qed

subsection \<open>Reading a counted string back\<close>

definition scalar_value :: "u32 \<Rightarrow> bool" where
  "scalar_value cp \<longleftrightarrow> cp \<le> 0x10ffff \<and> \<not> (0xd800 \<le> cp \<and> cp \<le> 0xdfff)"

fun utf16_decode :: "u16 list \<Rightarrow> u32 list" where
  "utf16_decode [] = []"
| "utf16_decode (a # us) =
     (if 0xd800 \<le> a \<and> a \<le> 0xdbff
      then (case us of
          [] \<Rightarrow> [0xfffd]
        | b # vs \<Rightarrow> (0x10000 + push_bit 10 (ucast a - 0xd800) + (ucast b - 0xdc00)) # utf16_decode vs)
      else ucast a # utf16_decode us)"

lemma surrogate_pair:
  fixes cp :: u32
  assumes "0xffff < cp" and "cp \<le> 0x10ffff"
  defines "hi \<equiv> ucast (0xd800 + drop_bit 10 (cp - 0x10000)) :: u16"
    and "lo \<equiv> ucast (0xdc00 + ((cp - 0x10000) AND 0x3ff)) :: u16"
  shows "0xd800 \<le> hi \<and> hi \<le> 0xdbff"
    and "0x10000 + push_bit 10 (ucast hi - 0xd800) + (ucast lo - 0xdc00) = cp"
proof -
  let ?m = "unat cp - 0x10000"
  have n: "0x10000 \<le> unat cp" "unat cp \<le> 0x10ffff" using assms(1,2) by (simp_all add: word_less_nat_alt word_le_nat_alt)
  have m: "unat (cp - 0x10000) = ?m" using n by (simp add: unat_sub word_le_nat_alt)
  have d: "unat (drop_bit 10 (cp - 0x10000)) = ?m div 1024" by (simp add: drop_bit_eq_div unat_div m)
  have "(cp - 0x10000) AND 0x3ff = take_bit 10 (cp - 0x10000)" by (simp add: take_bit_eq_mask mask_eq_exp_minus_1)
  then have a: "unat ((cp - 0x10000) AND 0x3ff) = ?m mod 1024"
    by (simp add: take_bit_eq_mod unat_mod m)
  have md: "?m div 1024 < 1024" using n by simp
  have hi: "unat hi = 0xd800 + ?m div 1024"
    unfolding hi_def using d md by (simp add: unsigned_ucast_eq unat_word_ariths take_bit_eq_mod)
  have lo: "unat lo = 0xdc00 + ?m mod 1024"
    unfolding lo_def using a by (simp add: unsigned_ucast_eq unat_word_ariths take_bit_eq_mod)
  show "0xd800 \<le> hi \<and> hi \<le> 0xdbff"
    using hi md by (simp add: word_le_nat_alt)
  have "unat (ucast hi :: u32) = unat hi" "unat (ucast lo :: u32) = unat lo"
    by (simp_all add: unsigned_ucast_eq take_bit_nat_eq_self unsigned_less less_trans [OF unsigned_less])
  then have "unat (0x10000 + push_bit 10 (ucast hi - 0xd800) + (ucast lo - 0xdc00) :: u32) = unat cp"
    using hi lo md n
    by (simp add: push_bit_eq_mult unat_word_ariths unat_sub word_le_nat_alt)
  then show "0x10000 + push_bit 10 (ucast hi - 0xd800) + (ucast lo - 0xdc00) = cp"
    by (simp add: word_unat_eq_iff)
qed
lemma utf16_decode_utf16:
  assumes "scalar_value cp"
  shows "utf16_decode (utf16 cp @ us) = cp # utf16_decode us"
proof (cases "0xffff < cp")
  case True
  then show ?thesis
    using surrogate_pair [OF True] assms by (simp add: utf16_def scalar_value_def)
next
  case False
  then have n: "unat cp \<le> 0xffff" by (simp add: word_less_nat_alt)
  then have u: "unat (ucast cp :: u16) = unat cp"
    by (simp add: unsigned_ucast_eq take_bit_eq_mod unat_mod)
  then have "(ucast (ucast cp :: u16) :: u32) = cp"
    using n by (simp add: word_unat_eq_iff unsigned_ucast_eq take_bit_eq_mod unat_mod)
  moreover have "\<not> (0xd800 \<le> (ucast cp :: u16) \<and> (ucast cp :: u16) \<le> 0xdbff)"
    using assms u by (auto simp: scalar_value_def word_le_nat_alt)
  ultimately show ?thesis using False by (auto simp: utf16_def)
qed

lemma utf16_decode_all:
  "\<forall>cp \<in> set cps. scalar_value cp \<Longrightarrow> utf16_decode (concat (map utf16 cps)) = cps"
  by (induction cps) (simp_all add: utf16_decode_utf16)

lemma set_fit: "set (fit n cps) \<subseteq> set cps"
  by (induction n cps rule: fit.induct) auto

lemma read_point_scalar: "read_point p = (cp, p') \<Longrightarrow> scalar_value cp"
proof -
  have "scalar_value (shown_point least v)" for least v
  proof (cases "v < least \<or> v < 0x20 \<or> 0xd800 \<le> v \<and> v \<le> 0xdfff \<or> 0x10ffff < v")
    case False
    then have "unat (of_nat v :: u32) = v" by (intro unat_of_nat_small) simp
    with False show ?thesis unfolding shown_point_def if_not_P [OF False] by (auto simp: scalar_value_def word_le_nat_alt)
  qed (simp add: shown_point_def scalar_value_def)
  moreover have "scalar_value 0x3f" by (simp add: scalar_value_def)
  ultimately show "read_point p = (cp, p') \<Longrightarrow> scalar_value cp"
    by (auto simp: read_point_def Let_def split: option.splits if_splits)
qed

lemma utf8_cps_scalar: "cp \<in> set (utf8_cps p) \<Longrightarrow> scalar_value cp"
proof (induction p rule: utf8_cps.induct)
  case (1 p)
  then show ?case
    by (subst (asm) (2) utf8_cps.simps) (auto split: if_splits prod.splits dest: read_point_scalar [OF sym])
qed

lemma mtp_units_decode: "utf16_decode (mtp_units n p) = fit n (utf8_cps p)"
  unfolding mtp_units_def
  by (rule utf16_decode_all) (use set_fit utf8_cps_scalar in blast)

lemma fit_all: "length (concat (map utf16 cps)) \<le> n \<Longrightarrow> fit n cps = cps"
  by (induction n cps rule: fit.induct) auto

subsection \<open>Properties\<close>

text \<open>
  C26. Writing a text appends exactly its counted UTF-16 form when that fits; otherwise it sets the
  error mark. In both cases the capacity and every byte behind it are untouched, although the
  encoder writes the units first and shifts them to make room for the count.
\<close>

theorem string_written:
  assumes "w_inv w" and "\<not> w_error w"
  shows "\<exists>w'. string w s = Some w' \<and> w_inv w' \<and> w_frame w' = w_frame w \<and>
    (if w_room w < length (mtp_string s) then w_error w'
     else \<not> w_error w' \<and> w_payload w' = w_payload w @ mtp_string s \<and>
       w_room w' = w_room w - length (mtp_string s))"
  using emits_string [of s] assms by (simp add: wr.emits_def)

theorem string_written_witness:
  "\<exists>w'. string (vcm_mtp_writer_init (Some (replicate 8 0)) 8) (Some (ascii ''A'')) = Some w' \<and>
    w_payload w' = [2, 0x41, 0, 0, 0]"
proof -
  let ?w = "vcm_mtp_writer_init (Some (replicate 8 0)) 8"
  have "w_inv ?w" by (rule writer_init_inv) simp
  moreover have "\<not> w_error ?w" "w_room ?w = 8" "w_payload ?w = []"
    by (simp_all add: vcm_mtp_writer_init_def w_room_def w_payload_def)
  moreover have "mtp_string (Some (ascii ''A'')) = [2, 0x41, 0, 0, 0]" by code_simp
  ultimately show ?thesis
    using string_written [of ?w "Some (ascii ''A'')"] by auto
qed

text \<open>
  C27. A text of at most 254 UTF-16 units survives being written: the count byte is the number of
  units with the terminator, and the written units decode to the code points that the bytes of the
  text stand for, read as numbers (\<open>read_point\<close>) rather than with the decoder's bit operations.
\<close>

theorem string_roundtrip:
  assumes "w_inv w" and "\<not> w_error w" and "511 \<le> w_room w"
    and "p \<noteq> []" and "0 \<notin> set p" and "length (concat (map utf16 (utf8_cps p))) \<le> 254"
  shows "\<exists>w' units. string w (Some p) = Some w' \<and> \<not> w_error w' \<and>
    w_payload w' = w_payload w @ of_nat (length units + 1) # concat (map le16 units) @ [0, 0] \<and>
    length units \<le> 254 \<and> utf16_decode units = utf8_cps p"
proof -
  let ?units = "mtp_units 254 p"
  have "c_at p 0 \<noteq> 0" using assms(4,5) by (cases p) auto
  then have "mtp_string (Some p) = of_nat (length ?units + 1) # concat (map le16 ?units) @ [0, 0]"
    by (simp add: mtp_string_def le16_def)
  moreover have "\<not> w_room w < length (mtp_string (Some p))"
    using assms(3) mtp_string_length [of "Some p"] by simp
  ultimately obtain w' where "string w (Some p) = Some w'" "\<not> w_error w'"
    "w_payload w' = w_payload w @ of_nat (length ?units + 1) # concat (map le16 ?units) @ [0, 0]"
    using wr.emits_fits [OF emits_string assms(1,2), of "Some p"] by auto
  moreover have "utf16_decode ?units = utf8_cps p"
    by (simp add: mtp_units_decode fit_all [OF assms(6)])
  ultimately show ?thesis using mtp_units_length by blast
qed

theorem string_roundtrip_witness:
  "\<exists>w' units. string (vcm_mtp_writer_init (Some (replicate 600 0)) 600)
      (Some [0xc3, 0xa9, 0xe3, 0x81, 0x82, 0xf0, 0x9f, 0x8e, 0xb5, 0xc3]) = Some w' \<and>
    w_payload w' = of_nat (length units + 1) # concat (map le16 units) @ [0, 0] \<and>
    length units \<le> 254 \<and> utf16_decode units = [0xe9, 0x3042, 0x1f3b5, 0x3f]"
proof -
  let ?w = "vcm_mtp_writer_init (Some (replicate 600 0)) 600"
  have cps: "utf8_cps [0xc3, 0xa9, 0xe3, 0x81, 0x82, 0xf0, 0x9f, 0x8e, 0xb5, 0xc3] = [0xe9, 0x3042, 0x1f3b5, 0x3f]"
    by (simp add: utf8_cps.simps read_point_def lead_byte_def shown_point_def)
  have "w_inv ?w" by (rule writer_init_inv) simp
  moreover have "\<not> w_error ?w" "511 \<le> w_room ?w" "w_payload ?w = []"
    by (simp_all add: vcm_mtp_writer_init_def w_room_def w_payload_def)
  ultimately show ?thesis
    using string_roundtrip [of ?w "[0xc3, 0xa9, 0xe3, 0x81, 0x82, 0xf0, 0x9f, 0x8e, 0xb5, 0xc3]"] unfolding cps
    by (auto simp: utf16_def)
qed

text \<open>
  The object description is the MTP ObjectInfo data set, field by field; in a buffer too
  small for it the writer reports an error, and never writes behind the capacity.
\<close>

theorem object_info_delivered:
  assumes "unat capacity \<le> length buf"
  shows "delivers (object_info_dataset o1) buf capacity
    (vcm_mtp_object_info (vcm_mtp_writer_init (Some buf) capacity) (Some o1))"
proof -
  have "length (object_info_dataset o1) < 2 ^ 31"
    using mtp_string_length [of "oi_name o1"] mtp_string_length [of "oi_created o1"]
      mtp_string_length [of "oi_modified o1"]
    by (simp add: object_info_dataset_def)
  then show ?thesis by (rule yields_delivers [OF object_info_yields assms])
qed

definition sample_object :: VcmMtpObjectInfo where
  "sample_object =
     \<lparr>oi_storage_id = VCM_MTP_STORAGE_ID, oi_format = 0x3801, oi_size = 1000, oi_parent = 1,
      oi_name = Some (ascii ''a.jpg''), oi_created = Some (ascii ''20240101T000000''), oi_modified = None,
      oi_thumb_size = 0, oi_thumb_width = 0, oi_thumb_height = 0, oi_width = 640, oi_height = 480\<rparr>"

theorem object_info_delivered_witness:
  "delivers (object_info_dataset sample_object) (replicate 20 7) 20
      (vcm_mtp_object_info (vcm_mtp_writer_init (Some (replicate 20 7)) 20) (Some sample_object)) \<and>
   delivers (object_info_dataset sample_object) (replicate 200 7) 200
      (vcm_mtp_object_info (vcm_mtp_writer_init (Some (replicate 200 7)) 200) (Some sample_object))"
  by (intro conjI object_info_delivered) simp_all

definition type_size :: "u16 \<Rightarrow> nat option" where
  "type_size type =
     (if type = 0x0002 then Some 1 else if type = 0x0004 then Some 2 else if type = 0x0006 then Some 4
      else if type = 0x0008 then Some 8 else if type = 0x000a then Some 16 else None)"

lemma prop_value_typed:
  assumes "supported code (e_format e)"
  shows "case type_size (prop_type code) of
    Some n \<Rightarrow> length (prop_value_dataset e code) = n
  | None \<Rightarrow> \<exists>s. prop_value_dataset e code = mtp_string s"
proof -
  have "code \<in> {0xdc01, 0xdc02, 0xdc03, 0xdc04, 0xdc07, 0xdc08, 0xdc09, 0xdc0b, 0xdc41,
      0xdc44, 0xdc4f, 0xdc46, 0xdc9a, 0xdc87, 0xdc88}"
    using assms by (auto simp: supported_def common_props_def split: if_splits)
  then show ?thesis
    by (elim insertE emptyE; auto simp: type_size_def prop_type_def prop_value_dataset_def)
qed

text \<open>
  A supported property of an entry with terminated strings is delivered in the format its
  property description declares: the value has the byte length of its declared type.
\<close>

theorem prop_value_delivered:
  assumes "supported code (e_format e)" and "entry_strings_ok e" and "unat capacity \<le> length buf"
  shows "delivers (prop_value_dataset e code) buf capacity
      (vcm_mtp_object_prop_value (vcm_mtp_writer_init (Some buf) capacity) (Some e) code) \<and>
    (case type_size (prop_type code) of
       Some n \<Rightarrow> length (prop_value_dataset e code) = n
     | None \<Rightarrow> \<exists>s. prop_value_dataset e code = mtp_string s)"
proof -
  have "length (prop_value_dataset e code) < 2 ^ 31"
    using le_less_trans [OF mtp_string_length, of "2 ^ 31"] by (simp add: prop_value_dataset_def)
  then show ?thesis
    using yields_delivers [OF prop_value_yields [OF assms(1,2)] assms(3)] prop_value_typed [OF assms(1)] by blast
qed

lemma clear_strings_ok: "entry_strings_ok clear_entry"
  by (simp add: entry_strings_ok_def clear_entry_def)

theorem prop_value_delivered_witness:
  "delivers (le64 0) (replicate 8 1) 8
    (vcm_mtp_object_prop_value (vcm_mtp_writer_init (Some (replicate 8 1)) 8) (Some clear_entry) 0xdc04)"
  using prop_value_delivered [of "0xdc04" clear_entry 8 "replicate 8 1"] clear_strings_ok
  by (simp add: supported_def common_props_def prop_value_dataset_def clear_entry_def)

end
