(* ===== verification/Mtp_Server.thy ===== *)
theory Mtp_Server
  imports Mtp_Wire
begin

text \<open>
  The MTP command interpreter of \<^verbatim>\<open>src/vita/mtp_server.c\<close>: the session it keeps, the response
  record it fills and the data phase it announces. One definition models the branch of each
  operation code; \<open>vcm_mtp_server_execute\<close> dispatches in the order of the source. The lemmas show
  that the interpreter implements \<open>respond\<close>, an abstract responder without buffers or records.
\<close>

subsection \<open>Data\<close>

abbreviation (input) MTP_OK :: u16 where "MTP_OK \<equiv> 0x2001"
abbreviation (input) MTP_GENERAL_ERROR :: u16 where "MTP_GENERAL_ERROR \<equiv> 0x2002"
abbreviation (input) MTP_SESSION_NOT_OPEN :: u16 where "MTP_SESSION_NOT_OPEN \<equiv> 0x2003"
abbreviation (input) MTP_OPERATION_NOT_SUPPORTED :: u16 where "MTP_OPERATION_NOT_SUPPORTED \<equiv> 0x2005"
abbreviation (input) MTP_INVALID_STORAGE_ID :: u16 where "MTP_INVALID_STORAGE_ID \<equiv> 0x2008"
abbreviation (input) MTP_INVALID_OBJECT_HANDLE :: u16 where "MTP_INVALID_OBJECT_HANDLE \<equiv> 0x2009"
abbreviation (input) MTP_INVALID_PARAMETER :: u16 where "MTP_INVALID_PARAMETER \<equiv> 0x201d"
abbreviation (input) MTP_SESSION_ALREADY_OPEN :: u16 where "MTP_SESSION_ALREADY_OPEN \<equiv> 0x201e"

record VcmMtpCommand =
  m_code :: u16
  m_reserved :: u16
  m_session :: u32
  m_transaction :: u32
  m_params :: "u32 list"
  m_param_count :: u32

datatype data_kind =
    VCM_MTP_DATA_NONE
  | VCM_MTP_DATA_MEMORY
  | VCM_MTP_DATA_HANDLES
  | VCM_MTP_DATA_OBJECT
  | VCM_MTP_DATA_THUMB

record VcmMtpResult =
  r_response :: VcmMtpCommand
  r_data_kind :: data_kind
  r_data_length :: u32
  r_object_handle :: u32
  r_parent :: u32
  r_format :: u16

record VcmMtpServer =
  s_session :: u32
  s_catalog :: "VcmMtpCatalog option"
  s_storage_capacity :: u64
  s_storage_free :: u64

subsection \<open>Operations\<close>

definition storage_valid :: "u32 \<Rightarrow> bool" where
  "storage_valid i \<longleftrightarrow> i = VCM_MTP_STORAGE_ID \<or> i = 0xffffffff"

definition set_response :: "VcmMtpCommand \<Rightarrow> u16 \<Rightarrow> VcmMtpResult" where
  "set_response command code =
     \<lparr>r_response = \<lparr>m_code = code, m_reserved = 0, m_session = m_session command,
        m_transaction = m_transaction command, m_params = replicate 5 0, m_param_count = 0\<rparr>,
      r_data_kind = VCM_MTP_DATA_NONE, r_data_length = 0, r_object_handle = 0, r_parent = 0,
      r_format = 0\<rparr>"

definition vcm_mtp_server_init :: "VcmMtpCatalog option \<Rightarrow> VcmMtpServer" where
  "vcm_mtp_server_init catalog =
     \<lparr>s_session = 0, s_catalog = catalog, s_storage_capacity = 0, s_storage_free = 0\<rparr>"

definition vcm_mtp_server_set_storage :: "VcmMtpServer \<Rightarrow> u64 \<Rightarrow> u64 \<Rightarrow> VcmMtpServer" where
  "vcm_mtp_server_set_storage server capacity free_bytes =
     server\<lparr>s_storage_capacity := capacity,
       s_storage_free := (if free_bytes \<le> capacity then free_bytes else 0)\<rparr>"

text \<open>
  A branch returns the status, the server, the result record and the payload buffer, in the fault
  monad.
\<close>

type_synonym execution = "(int \<times> VcmMtpServer \<times> VcmMtpResult \<times> u8 list option) option"

definition with_code :: "VcmMtpResult \<Rightarrow> u16 \<Rightarrow> VcmMtpResult" where
  "with_code result code = result\<lparr>r_response := (r_response result)\<lparr>m_code := code\<rparr>\<rparr>"

definition memory_data :: "VcmMtpResult \<Rightarrow> VcmMtpWriter \<Rightarrow> VcmMtpResult" where
  "memory_data result w = result\<lparr>r_data_kind := VCM_MTP_DATA_MEMORY, r_data_length := w_length w\<rparr>"

definition exec_device_info :: "VcmMtpServer \<Rightarrow> VcmMtpResult \<Rightarrow> VcmMtpWriter \<Rightarrow> execution" where
  "exec_device_info server result writer = do {
     (n, w) \<leftarrow> vcm_mtp_device_info writer;
     if n < 0 then Some (- 1, server, result, w_data w)
     else Some (0, server, memory_data result w, w_data w)
   }"

definition exec_open_session ::
    "VcmMtpServer \<Rightarrow> VcmMtpCommand \<Rightarrow> VcmMtpResult \<Rightarrow> VcmMtpWriter \<Rightarrow> execution" where
  "exec_open_session server command result writer = do {
     p0 \<leftarrow> fetch (m_params command) 0;
     if m_param_count command \<noteq> 1 \<or> p0 = 0
     then Some (0, server, with_code result MTP_INVALID_PARAMETER, w_data writer)
     else if s_session server \<noteq> 0
     then Some (0, server, with_code result MTP_SESSION_ALREADY_OPEN, w_data writer)
     else Some (0, server\<lparr>s_session := p0\<rparr>, result, w_data writer)
   }"

definition exec_close_session :: "VcmMtpServer \<Rightarrow> VcmMtpResult \<Rightarrow> VcmMtpWriter \<Rightarrow> execution" where
  "exec_close_session server result writer =
     Some (0, server\<lparr>s_session := 0\<rparr>, result, w_data writer)"

definition exec_storage_ids :: "VcmMtpServer \<Rightarrow> VcmMtpResult \<Rightarrow> VcmMtpWriter \<Rightarrow> execution" where
  "exec_storage_ids server result writer = do {
     (n, w) \<leftarrow> vcm_mtp_u32_array writer (Some [VCM_MTP_STORAGE_ID]) 1;
     if n < 0 then Some (- 1, server, result, w_data w)
     else Some (0, server, memory_data result w, w_data w)
   }"

definition exec_storage_info ::
    "VcmMtpServer \<Rightarrow> VcmMtpCommand \<Rightarrow> VcmMtpResult \<Rightarrow> VcmMtpWriter \<Rightarrow> execution" where
  "exec_storage_info server command result writer = do {
     p0 \<leftarrow> fetch (m_params command) 0;
     if m_param_count command < 1 \<or> p0 \<noteq> VCM_MTP_STORAGE_ID
     then Some (0, server, with_code result MTP_INVALID_STORAGE_ID, w_data writer)
     else do {
       (n, w) \<leftarrow> vcm_mtp_storage_info writer (s_storage_capacity server) (s_storage_free server);
       if n < 0 then Some (- 1, server, result, w_data w)
       else Some (0, server, memory_data result w, w_data w)
     }
   }"

definition exec_props_supported ::
    "VcmMtpServer \<Rightarrow> VcmMtpCommand \<Rightarrow> VcmMtpResult \<Rightarrow> VcmMtpWriter \<Rightarrow> execution" where
  "exec_props_supported server command result writer =
     (if m_param_count command < 1 then Some (- 1, server, result, w_data writer)
      else do {
        p0 \<leftarrow> fetch (m_params command) 0;
        (n, w) \<leftarrow> vcm_mtp_object_props_supported writer (ucast p0);
        if n < 0 then Some (- 1, server, result, w_data w)
        else Some (0, server, memory_data result w, w_data w)
      })"

definition exec_prop_desc ::
    "VcmMtpServer \<Rightarrow> VcmMtpCommand \<Rightarrow> VcmMtpResult \<Rightarrow> VcmMtpWriter \<Rightarrow> execution" where
  "exec_prop_desc server command result writer =
     (if m_param_count command < 2
      then Some (0, server, with_code result MTP_OPERATION_NOT_SUPPORTED, w_data writer)
      else do {
        p0 \<leftarrow> fetch (m_params command) 0;
        p1 \<leftarrow> fetch (m_params command) 1;
        (n, w) \<leftarrow> vcm_mtp_object_prop_desc writer (ucast p0) (ucast p1);
        if n < 0
        then Some (0, server, with_code result MTP_OPERATION_NOT_SUPPORTED, w_data w)
        else Some (0, server, memory_data result w, w_data w)
      })"

definition exec_prop_value ::
    "VcmMtpServer \<Rightarrow> VcmMtpCommand \<Rightarrow> VcmMtpResult \<Rightarrow> VcmMtpWriter \<Rightarrow> execution" where
  "exec_prop_value server command result writer =
     (if m_param_count command < 2
      then Some (0, server, with_code result MTP_INVALID_PARAMETER, w_data writer)
      else do {
        p0 \<leftarrow> fetch (m_params command) 0;
        p1 \<leftarrow> fetch (m_params command) 1;
        entry \<leftarrow> vcm_mtp_catalog_get (s_catalog server) p0;
        if entry = None
        then Some (0, server, with_code result MTP_INVALID_OBJECT_HANDLE, w_data writer)
        else do {
          (n, w) \<leftarrow> vcm_mtp_object_prop_value writer entry (ucast p1);
          if n < 0
          then Some (0, server, with_code result MTP_OPERATION_NOT_SUPPORTED, w_data w)
          else Some (0, server, memory_data result w, w_data w)
        }
      })"

definition exec_handles ::
    "VcmMtpServer \<Rightarrow> VcmMtpCommand \<Rightarrow> VcmMtpResult \<Rightarrow> VcmMtpWriter \<Rightarrow> execution" where
  "exec_handles server command result writer = do {
     p0 \<leftarrow> fetch (m_params command) 0;
     p1 \<leftarrow> fetch (m_params command) 1;
     parent \<leftarrow> fetch (m_params command) 2;
     if m_param_count command < 3 \<or> \<not> storage_valid p0
     then Some (0, server, with_code result MTP_INVALID_STORAGE_ID, w_data writer)
     else do {
       let format = ucast p1;
       refused \<leftarrow> (if parent \<noteq> VCM_MTP_ALL_HANDLES \<and> parent \<noteq> VCM_MTP_ROOT_HANDLE
         then do {
           entry \<leftarrow> vcm_mtp_catalog_get (s_catalog server) parent;
           Some (entry = None \<or> parent > 3)
         } else Some False);
       if refused then Some (0, server, with_code result MTP_INVALID_OBJECT_HANDLE, w_data writer)
       else do {
         (count, _) \<leftarrow> vcm_mtp_catalog_children (s_catalog server) parent format None 0;
         if m_code command = 0x1006
         then Some (0, server, result\<lparr>r_response := (r_response result)
           \<lparr>m_params := (m_params (r_response result))[0 := count], m_param_count := 1\<rparr>\<rparr>, w_data writer)
         else if count \<le> (0xffffffff - 4) div 4
         then Some (0, server, result\<lparr>r_data_kind := VCM_MTP_DATA_HANDLES,
           r_data_length := 4 + 4 * count, r_parent := parent, r_format := format\<rparr>, w_data writer)
         else Some (0, server, with_code result MTP_GENERAL_ERROR, w_data writer)
       }
     }
   }"

definition exec_object ::
    "VcmMtpServer \<Rightarrow> VcmMtpCommand \<Rightarrow> VcmMtpResult \<Rightarrow> VcmMtpWriter \<Rightarrow> execution" where
  "exec_object server command result writer =
     (if m_param_count command < 1
      then Some (0, server, with_code result MTP_INVALID_PARAMETER, w_data writer)
      else do {
        p0 \<leftarrow> fetch (m_params command) 0;
        found \<leftarrow> vcm_mtp_catalog_get (s_catalog server) p0;
        case found of
          None \<Rightarrow> Some (0, server, with_code result MTP_INVALID_OBJECT_HANDLE, w_data writer)
        | Some entry \<Rightarrow>
            if e_size entry > 0xffffffff - 12
            then Some (0, server, with_code result MTP_GENERAL_ERROR, w_data writer)
            else if m_code command = 0x1008 then do {
              name \<leftarrow> c_string (e_display_name entry);
              created \<leftarrow> c_string (e_created entry);
              modified \<leftarrow> c_string (e_modified entry);
              let info = \<lparr>oi_storage_id = VCM_MTP_STORAGE_ID, oi_format = e_format entry,
                oi_size = ucast (e_size entry), oi_parent = e_parent entry,
                oi_name = Some name, oi_created = Some created,
                oi_modified = Some modified, oi_thumb_size = e_thumb_size entry,
                oi_thumb_width = e_thumb_width entry, oi_thumb_height = e_thumb_height entry,
                oi_width = e_width entry, oi_height = e_height entry\<rparr>;
              (n, w) \<leftarrow> vcm_mtp_object_info writer (Some info);
              if n < 0 then Some (- 1, server, result, w_data w)
              else Some (0, server, memory_data result w, w_data w)
            }
            else if e_kind entry = VCM_MTP_FOLDER
            then Some (0, server, with_code result MTP_INVALID_OBJECT_HANDLE, w_data writer)
            else if m_code command = 0x100a \<and> e_thumb_size entry = 0
            then Some (0, server, with_code result MTP_OPERATION_NOT_SUPPORTED, w_data writer)
            else Some (0, server, result\<lparr>
              r_data_kind := (if m_code command = 0x100a then VCM_MTP_DATA_THUMB else VCM_MTP_DATA_OBJECT),
              r_data_length := (if m_code command = 0x100a then 0 else ucast (e_size entry)),
              r_object_handle := e_handle entry\<rparr>, w_data writer)
      })"

definition exec_in_session ::
    "VcmMtpServer \<Rightarrow> VcmMtpCommand \<Rightarrow> VcmMtpResult \<Rightarrow> VcmMtpWriter \<Rightarrow> execution" where
  "exec_in_session server command result writer =
     (let code = m_code command in
      if code = 0x1003 then exec_close_session server result writer
      else if code = 0x1004 then exec_storage_ids server result writer
      else if code = 0x1005 then exec_storage_info server command result writer
      else if code = 0x9801 then exec_props_supported server command result writer
      else if code = 0x9802 then exec_prop_desc server command result writer
      else if code = 0x9803 then exec_prop_value server command result writer
      else if code = 0x1006 \<or> code = 0x1007 then exec_handles server command result writer
      else if code = 0x1008 \<or> code = 0x1009 \<or> code = 0x100a
      then exec_object server command result writer
      else Some (0, server, with_code result MTP_OPERATION_NOT_SUPPORTED, w_data writer))"

definition vcm_mtp_server_execute ::
    "VcmMtpServer \<Rightarrow> VcmMtpCommand \<Rightarrow> VcmMtpResult \<Rightarrow> u8 list option \<Rightarrow> u32 \<Rightarrow> execution" where
  "vcm_mtp_server_execute server command result payload capacity =
     (if s_catalog server = None then Some (- 1, server, result, payload)
      else let result = set_response command MTP_OK in
        if m_param_count command > 5
        then Some (0, server, with_code result MTP_INVALID_PARAMETER, payload)
        else let writer = vcm_mtp_writer_init payload capacity; code = m_code command in
          if code = 0x1001 then exec_device_info server result writer
          else if code = 0x1002 then exec_open_session server command result writer
          else if s_session server = 0
          then Some (0, server, with_code result MTP_SESSION_NOT_OPEN, w_data writer)
          else exec_in_session server command result writer)"

subsection \<open>The abstract responder\<close>

text \<open>
  What a media responder answers, without buffers and records: the session after the command, the
  response code, the response parameters and the data phase. Object and thumbnail data are named by
  their catalogue entry.
\<close>

datatype mtp_data =
    No_Data
  | Dataset "u8 list"
  | Handles u32 u16 "u32 list"
  | Object VcmMtpEntry
  | Thumb VcmMtpEntry

type_synonym reply = "u32 \<times> u16 \<times> u32 list \<times> mtp_data"

definition lookup :: "VcmMtpCatalog \<Rightarrow> u32 \<Rightarrow> VcmMtpEntry option" where
  "lookup c h = find (\<lambda>e. e_handle e = h) (visible c)"

definition sendable :: "VcmMtpEntry \<Rightarrow> bool" where
  "sendable e \<longleftrightarrow> unat (e_size e) \<le> 0xfffffff3"

definition entry_info :: "VcmMtpEntry \<Rightarrow> VcmMtpObjectInfo" where
  "entry_info e =
     \<lparr>oi_storage_id = VCM_MTP_STORAGE_ID, oi_format = e_format e, oi_size = ucast (e_size e),
      oi_parent = e_parent e, oi_name = c_string (e_display_name e),
      oi_created = c_string (e_created e), oi_modified = c_string (e_modified e),
      oi_thumb_size = e_thumb_size e, oi_thumb_width = e_thumb_width e,
      oi_thumb_height = e_thumb_height e, oi_width = e_width e, oi_height = e_height e\<rparr>"

text \<open>The answer to a command about one object.\<close>

definition respond_object :: "u32 \<Rightarrow> u16 \<Rightarrow> VcmMtpEntry option \<Rightarrow> reply" where
  "respond_object session code found =
     (case found of
        None \<Rightarrow> (session, MTP_INVALID_OBJECT_HANDLE, [], No_Data)
      | Some e \<Rightarrow>
          if \<not> sendable e then (session, MTP_GENERAL_ERROR, [], No_Data)
          else if code = 0x1008 then (session, MTP_OK, [], Dataset (object_info_dataset (entry_info e)))
          else if e_kind e = VCM_MTP_FOLDER then (session, MTP_INVALID_OBJECT_HANDLE, [], No_Data)
          else if code = 0x1009 then (session, MTP_OK, [], Object e)
          else if e_thumb_size e = 0 then (session, MTP_OPERATION_NOT_SUPPORTED, [], No_Data)
          else (session, MTP_OK, [], Thumb e))"

definition respond_handles :: "VcmMtpCatalog \<Rightarrow> u32 \<Rightarrow> u16 \<Rightarrow> u32 list \<Rightarrow> reply" where
  "respond_handles c session code ps =
     (if length ps < 3 \<or> \<not> storage_valid (ps ! 0) then (session, MTP_INVALID_STORAGE_ID, [], No_Data)
      else if \<not> listable (ps ! 2) then (session, MTP_INVALID_OBJECT_HANDLE, [], No_Data)
      else let hs = map e_handle (children c (ps ! 2) (ucast (ps ! 1))) in
        if code = 0x1006 then (session, MTP_OK, [of_nat (length hs)], No_Data)
        else if 4 + 4 * length hs < 2 ^ 32 then (session, MTP_OK, [], Handles (ps ! 2) (ucast (ps ! 1)) hs)
        else (session, MTP_GENERAL_ERROR, [], No_Data))"

definition respond_in_session ::
    "VcmMtpCatalog \<Rightarrow> u64 \<Rightarrow> u64 \<Rightarrow> u32 \<Rightarrow> u16 \<Rightarrow> u32 list \<Rightarrow> reply option" where
  "respond_in_session c cap free session code ps =
     (if code = 0x1003 then Some (0, MTP_OK, [], No_Data)
      else if code = 0x1004 then Some (session, MTP_OK, [], Dataset (u32_array_dataset [VCM_MTP_STORAGE_ID]))
      else if code = 0x1005 then
        (if ps = [] \<or> hd ps \<noteq> VCM_MTP_STORAGE_ID then Some (session, MTP_INVALID_STORAGE_ID, [], No_Data)
         else Some (session, MTP_OK, [], Dataset (storage_info_dataset cap free)))
      else if code = 0x9801 then
        (if ps = [] then None
         else Some (session, MTP_OK, [], Dataset (props_supported_dataset (ucast (hd ps)))))
      else if code = 0x9802 then
        (if length ps < 2 \<or> \<not> supported (ucast (ps ! 0)) (ucast (ps ! 1))
         then Some (session, MTP_OPERATION_NOT_SUPPORTED, [], No_Data)
         else Some (session, MTP_OK, [], Dataset (prop_desc_dataset (ucast (ps ! 0)))))
      else if code = 0x9803 then
        (if length ps < 2 then Some (session, MTP_INVALID_PARAMETER, [], No_Data)
         else case lookup c (ps ! 0) of
            None \<Rightarrow> Some (session, MTP_INVALID_OBJECT_HANDLE, [], No_Data)
          | Some e \<Rightarrow>
              if supported (ucast (ps ! 1)) (e_format e)
              then Some (session, MTP_OK, [], Dataset (prop_value_dataset e (ucast (ps ! 1))))
              else Some (session, MTP_OPERATION_NOT_SUPPORTED, [], No_Data))
      else if code = 0x1006 \<or> code = 0x1007 then Some (respond_handles c session code ps)
      else if code = 0x1008 \<or> code = 0x1009 \<or> code = 0x100a then
        (if ps = [] then Some (session, MTP_INVALID_PARAMETER, [], No_Data)
         else Some (respond_object session code (lookup c (hd ps))))
      else Some (session, MTP_OPERATION_NOT_SUPPORTED, [], No_Data))"

text \<open>\<^term>\<open>None\<close> is the one request the interpreter gives up on, a property list without a format.\<close>

definition respond ::
    "VcmMtpCatalog \<Rightarrow> u64 \<Rightarrow> u64 \<Rightarrow> u32 \<Rightarrow> u16 \<Rightarrow> u32 list \<Rightarrow> reply option" where
  "respond c cap free session code ps =
     (if length ps > 5 then Some (session, MTP_INVALID_PARAMETER, [], No_Data)
      else if code = 0x1001 then Some (session, MTP_OK, [], Dataset device_info_dataset)
      else if code = 0x1002 then
        (if length ps \<noteq> 1 \<or> hd ps = 0 then Some (session, MTP_INVALID_PARAMETER, [], No_Data)
         else if session \<noteq> 0 then Some (session, MTP_SESSION_ALREADY_OPEN, [], No_Data)
         else Some (hd ps, MTP_OK, [], No_Data))
      else if session = 0 then Some (session, MTP_SESSION_NOT_OPEN, [], No_Data)
      else respond_in_session c cap free session code ps)"

text \<open>How a result record and the payload buffer describe a data phase.\<close>

fun describes :: "mtp_data \<Rightarrow> VcmMtpResult \<Rightarrow> u8 list \<Rightarrow> bool" where
  "describes No_Data r buf \<longleftrightarrow> r_data_kind r = VCM_MTP_DATA_NONE \<and> r_data_length r = 0"
| "describes (Dataset D) r buf \<longleftrightarrow> r_data_kind r = VCM_MTP_DATA_MEMORY \<and>
     unat (r_data_length r) = length D \<and> take (length D) buf = D"
| "describes (Handles parent format hs) r buf \<longleftrightarrow> r_data_kind r = VCM_MTP_DATA_HANDLES \<and>
     unat (r_data_length r) = 4 + 4 * length hs \<and> r_parent r = parent \<and> r_format r = format"
| "describes (Object e) r buf \<longleftrightarrow> r_data_kind r = VCM_MTP_DATA_OBJECT \<and>
     unat (r_data_length r) = unat (e_size e) \<and> r_object_handle r = e_handle e"
| "describes (Thumb e) r buf \<longleftrightarrow> r_data_kind r = VCM_MTP_DATA_THUMB \<and> r_object_handle r = e_handle e"

definition response_record :: "VcmMtpCommand \<Rightarrow> u16 \<Rightarrow> u32 list \<Rightarrow> VcmMtpCommand" where
  "response_record command code rps =
     \<lparr>m_code = code, m_reserved = 0, m_session = m_session command,
      m_transaction = m_transaction command, m_params = rps @ replicate (5 - length rps) 0,
      m_param_count = of_nat (length rps)\<rparr>"

definition answers ::
    "VcmMtpServer \<Rightarrow> VcmMtpCommand \<Rightarrow> u8 list \<Rightarrow> reply \<Rightarrow> execution \<Rightarrow> bool" where
  "answers server command buf reply out \<longleftrightarrow>
     (case reply of (session, code, rps, data) \<Rightarrow>
        \<exists>r buf'. out = Some (0, server\<lparr>s_session := session\<rparr>, r, Some buf') \<and>
          length buf' = length buf \<and> r_response r = response_record command code rps \<and>
          describes data r buf')"

definition command_ok :: "VcmMtpCommand \<Rightarrow> bool" where
  "command_ok command \<longleftrightarrow> length (m_params command) = 5"

text \<open>The parameters a command carries; a count beyond the array is kept as a too long list.\<close>

definition params_of :: "VcmMtpCommand \<Rightarrow> u32 list" where
  "params_of command =
     (if m_param_count command > 5 then replicate 6 0
      else take (unat (m_param_count command)) (m_params command))"

subsection \<open>Branch by branch\<close>

lemma answers_code:
  "answers server command buf (s_session server, code, [], No_Data)
     (Some (0, server, with_code (set_response command MTP_OK) code, Some buf))"
  by (simp add: answers_def with_code_def set_response_def response_record_def)

lemma answers_ok:
  "answers server command buf (session, MTP_OK, [], No_Data)
     (Some (0, server\<lparr>s_session := session\<rparr>, set_response command MTP_OK, Some buf))"
  by (simp add: answers_def set_response_def response_record_def)

lemma answers_memory:
  assumes d: "delivers D buf capacity r" and D: "length D \<le> unat capacity"
  shows "answers server command buf (s_session server, MTP_OK, [], Dataset D)
    (do { (n, w) \<leftarrow> r;
       if n < 0 then Some (x, server, y, w_data w)
       else Some (0, server, memory_data (set_response command MTP_OK) w, w_data w) })"
proof -
  obtain w buf' where w: "r = Some (int (length D), w)" "w_data w = Some buf'"
    "length buf' = length buf" "w_length w = of_nat (length D)" "take (length D) buf' = D"
    using d D by (auto simp: delivers_def)
  have "length D < 2 ^ 32" using D unat_u32_less [of capacity] by simp
  then show ?thesis
    using w by (simp add: answers_def memory_data_def set_response_def response_record_def unat_of_nat_small)
qed

lemma writer_fresh [simp]: "w_data (vcm_mtp_writer_init payload capacity) = payload"
  by (simp add: vcm_mtp_writer_init_def)

lemma dataset_sizes:
  "length device_info_dataset \<le> 4096"
  "length (storage_info_dataset cap free) \<le> 4096"
  "length (object_info_dataset o1) \<le> 4096"
  "length (props_supported_dataset format) \<le> 4096"
  "length (prop_desc_dataset code) \<le> 4096"
  "length (prop_value_dataset e code) \<le> 4096"
  "length (u32_array_dataset [v]) \<le> 4096"
proof -
  show "length device_info_dataset \<le> 4096"
    using mtp_string_length [of "Some (ascii ''microsoft.com: 1.0; '')"]
      mtp_string_length [of "Some (ascii ''Content Manager Pro'')"]
      mtp_string_length [of "Some (ascii ''Virtual Media Library'')"]
      mtp_string_length [of "Some (ascii ''1.0'')"] mtp_string_length [of "Some (ascii ''VCM'')"]
    by (simp add: device_info_dataset_def operations_def formats_def del: ascii_simps)
  show "length (storage_info_dataset cap free) \<le> 4096"
    using mtp_string_length [of "Some (ascii ''Media on PS Vita'')"]
      mtp_string_length [of "Some (ascii ''Photo, Music and Video'')"]
    by (simp add: storage_info_dataset_def del: ascii_simps)
  show "length (object_info_dataset o1) \<le> 4096"
    using mtp_string_length [of "oi_name o1"] mtp_string_length [of "oi_created o1"]
      mtp_string_length [of "oi_modified o1"]
    by (simp add: object_info_dataset_def)
  show "length (props_supported_dataset format) \<le> 4096"
    by (simp add: props_supported_dataset_def object_props_def common_props_def)
  show "length (prop_desc_dataset code) \<le> 4096"
    by (simp add: prop_desc_dataset_def Let_def)
  show "length (prop_value_dataset e code) \<le> 4096"
    using order_trans [OF mtp_string_length, of 4096] by (simp add: prop_value_dataset_def)
  show "length (u32_array_dataset [v]) \<le> 4096"
    by (simp add: u32_array_dataset_def)
qed


lemma catalog_get_lookup:
  assumes "catalog_wf c"
  shows "vcm_mtp_catalog_get (Some c) h = Some (lookup c h)"
proof (cases "lookup c h")
  case None
  then have "h \<notin> e_handle ` set (visible c)" by (auto simp: lookup_def find_None_iff)
  moreover obtain r where "vcm_mtp_catalog_get (Some c) h = Some r"
    using cat.get_total [OF assms] by blast
  ultimately show ?thesis
    using cat.get_handle [OF assms, of h] None by (cases r) auto
next
  case (Some e)
  then have "e \<in> set (visible c)" "e_handle e = h" by (auto simp: lookup_def find_Some_iff)
  with cat.get_entry [OF assms, of e] Some show ?thesis by simp
qed

lemma lookup_SomeD:
  assumes "lookup c h = Some e"
  shows "e \<in> set (visible c)" and "e_handle e = h"
  using assms by (auto simp: lookup_def find_Some_iff)

lemma visible_strings_ok: "catalog_wf c \<Longrightarrow> e \<in> set (visible c) \<Longrightarrow> entry_strings_ok e"
  by (auto simp: catalog_wf_def entry_wf_def in_set_conv_nth)

lemma params_of_few [simp]:
  assumes "command_ok command" and "m_param_count command \<le> 5"
  shows "length (params_of command) = unat (m_param_count command)"
    and "k < unat (m_param_count command) \<Longrightarrow> params_of command ! k = m_params command ! k"
  using assms by (auto simp: params_of_def command_ok_def word_le_nat_alt word_less_nat_alt)

lemma params_of_empty:
  assumes "command_ok command" and "m_param_count command \<le> 5"
  shows "params_of command = [] \<longleftrightarrow> m_param_count command = 0"
    and "m_param_count command \<noteq> 0 \<Longrightarrow> hd (params_of command) = m_params command ! 0"
proof -
  show "params_of command = [] \<longleftrightarrow> m_param_count command = 0"
    using params_of_few(1) [OF assms] by (metis length_0_conv unat_eq_0)
  then show "m_param_count command \<noteq> 0 \<Longrightarrow> hd (params_of command) = m_params command ! 0"
    using params_of_few(2) [OF assms, of 0] by (simp add: hd_conv_nth unat_gt_0)
qed

lemma u32_less_conv: 
  "(v :: u32) < 1 \<longleftrightarrow> unat v = 0" "(v :: u32) < 2 \<longleftrightarrow> unat v < 2" "(v :: u32) < 3 \<longleftrightarrow> unat v < 3"
  by (auto simp: word_less_nat_alt)


lemma memory_answers:
  assumes "unat capacity \<le> length buf" and "4096 \<le> capacity" and "yields g D" and "length D \<le> 4096"
  shows "answers server command buf (s_session server, MTP_OK, [], Dataset D)
    (do { (n, w) \<leftarrow> g (vcm_mtp_writer_init (Some buf) capacity);
       if n < 0 then Some (x, server, y, w_data w)
       else Some (0, server, memory_data (set_response command MTP_OK) w, w_data w) })"
proof -
  have D: "length D \<le> unat capacity" "length D < 2 ^ 31"
    using assms(2,4) by (simp_all add: word_le_nat_alt)
  show ?thesis
    by (rule answers_memory [OF yields_delivers [OF assms(3,1) D(2)] D(1)])
qed


text \<open>The situation in which every branch is entered.\<close>

definition ready :: "VcmMtpServer \<Rightarrow> VcmMtpCatalog \<Rightarrow> VcmMtpCommand \<Rightarrow> u8 list \<Rightarrow> u32 \<Rightarrow> bool" where
  "ready server c command buf capacity \<longleftrightarrow>
     s_catalog server = Some c \<and> catalog_wf c \<and> command_ok command \<and> m_param_count command \<le> 5 \<and>
     unat capacity \<le> length buf \<and> 4096 \<le> capacity"

abbreviation (input) fresh :: "VcmMtpCommand \<Rightarrow> VcmMtpResult" where
  "fresh command \<equiv> set_response command MTP_OK"

abbreviation (input) writer_on :: "u8 list \<Rightarrow> u32 \<Rightarrow> VcmMtpWriter" where
  "writer_on buf capacity \<equiv> vcm_mtp_writer_init (Some buf) capacity"

lemma ready_memory:
  assumes "ready server c command buf capacity" and "yields g D" and "length D \<le> 4096"
  shows "answers server command buf (s_session server, MTP_OK, [], Dataset D)
    (do { (n, w) \<leftarrow> g (writer_on buf capacity);
       if n < 0 then Some (x, server, y, w_data w)
       else Some (0, server, memory_data (fresh command) w, w_data w) })"
  using assms by (intro memory_answers) (auto simp: ready_def)

lemma ready_param:
  assumes "ready server c command buf capacity" and "k < 5"
  shows "fetch (m_params command) k = Some (m_params command ! k)"
  using assms by (simp add: ready_def command_ok_def)

lemma ready_params:
  assumes "ready server c command buf capacity"
  shows "length (params_of command) = unat (m_param_count command)"
    and "k < unat (m_param_count command) \<Longrightarrow> params_of command ! k = m_params command ! k"
    and "params_of command = [] \<longleftrightarrow> m_param_count command = 0"
    and "m_param_count command \<noteq> 0 \<Longrightarrow> hd (params_of command) = m_params command ! 0"
    and "vcm_mtp_catalog_get (s_catalog server) h = Some (lookup c h)"
  using assms params_of_few [of command] params_of_empty [of command]
  by (auto simp: ready_def catalog_get_lookup)

lemma device_info_answers:
  assumes "ready server c command buf capacity"
  shows "answers server command buf (s_session server, MTP_OK, [], Dataset device_info_dataset)
    (exec_device_info server (fresh command) (writer_on buf capacity))"
  unfolding exec_device_info_def
  by (rule ready_memory [OF assms device_info_yields dataset_sizes(1)])

lemma open_session_answers:
  assumes "ready server c command buf capacity"
  shows "answers server command buf
    (if length (params_of command) \<noteq> 1 \<or> hd (params_of command) = 0
     then (s_session server, MTP_INVALID_PARAMETER, [], No_Data)
     else if s_session server \<noteq> 0 then (s_session server, MTP_SESSION_ALREADY_OPEN, [], No_Data)
     else (hd (params_of command), MTP_OK, [], No_Data))
    (exec_open_session server command (fresh command) (writer_on buf capacity))"
proof -
  have "m_param_count command = 1 \<longleftrightarrow> length (params_of command) = 1"
    using ready_params(1) [OF assms] by (simp add: word_unat_eq_iff)
  moreover have "hd (params_of command) = m_params command ! 0" if "m_param_count command = 1"
    using ready_params(4) [OF assms] that by simp
  ultimately show ?thesis
    using ready_param [OF assms, of 0]
    by (auto simp: exec_open_session_def answers_code answers_ok)
qed

lemma storage_ids_answers:
  assumes "ready server c command buf capacity"
  shows "answers server command buf
    (s_session server, MTP_OK, [], Dataset (u32_array_dataset [VCM_MTP_STORAGE_ID]))
    (exec_storage_ids server (fresh command) (writer_on buf capacity))"
  unfolding exec_storage_ids_def
  by (rule ready_memory [OF assms u32_array_yields dataset_sizes(7)]) simp

lemma storage_info_answers:
  assumes "ready server c command buf capacity"
  shows "answers server command buf
    (if params_of command = [] \<or> hd (params_of command) \<noteq> VCM_MTP_STORAGE_ID
     then (s_session server, MTP_INVALID_STORAGE_ID, [], No_Data)
     else (s_session server, MTP_OK, [],
       Dataset (storage_info_dataset (s_storage_capacity server) (s_storage_free server))))
    (exec_storage_info server command (fresh command) (writer_on buf capacity))"
proof (cases "m_param_count command = 0 \<or> m_params command ! 0 \<noteq> VCM_MTP_STORAGE_ID")
  case True
  then show ?thesis
    using ready_param [OF assms, of 0] ready_params(3,4) [OF assms]
    by (auto simp: exec_storage_info_def answers_code u32_less_conv)
next
  case False
  then show ?thesis
    using ready_param [OF assms, of 0] ready_params(3,4) [OF assms]
      ready_memory [OF assms storage_info_yields dataset_sizes(2)]
    by (simp add: exec_storage_info_def u32_less_conv)
qed

lemma props_supported_answers:
  assumes "ready server c command buf capacity" and "params_of command \<noteq> []"
  shows "answers server command buf
    (s_session server, MTP_OK, [], Dataset (props_supported_dataset (ucast (hd (params_of command)))))
    (exec_props_supported server command (fresh command) (writer_on buf capacity))"
  using ready_param [OF assms(1), of 0] ready_params(3,4) [OF assms(1)] assms(2)
    ready_memory [OF assms(1) props_supported_yields dataset_sizes(4)]
  by (simp add: exec_props_supported_def u32_less_conv)


lemma prop_desc_answers:
  assumes "ready server c command buf capacity"
  shows "answers server command buf
    (if length (params_of command) < 2 \<or>
        \<not> supported (ucast (params_of command ! 0)) (ucast (params_of command ! 1))
     then (s_session server, MTP_OPERATION_NOT_SUPPORTED, [], No_Data)
     else (s_session server, MTP_OK, [], Dataset (prop_desc_dataset (ucast (params_of command ! 0)))))
    (exec_prop_desc server command (fresh command) (writer_on buf capacity))"
proof (cases "m_param_count command < 2")
  case True
  then show ?thesis
    using ready_params(1) [OF assms] by (simp add: exec_prop_desc_def answers_code u32_less_conv)
next
  case False
  then have n: "2 \<le> unat (m_param_count command)" by (simp add: u32_less_conv)
  then have ps: "params_of command ! 0 = m_params command ! 0" "params_of command ! 1 = m_params command ! 1"
    using ready_params(2) [OF assms] by simp_all
  show ?thesis
  proof (cases "supported (ucast (m_params command ! 0)) (ucast (m_params command ! 1))")
    case True
    then show ?thesis
      using False n ps ready_params(1) [OF assms] ready_param [OF assms, of 0] ready_param [OF assms, of 1]
        ready_memory [OF assms prop_desc_yields [OF True] dataset_sizes(5)]
      by (simp add: exec_prop_desc_def)
  next
    case unsupported: False
    then show ?thesis
      using False n ps ready_params(1) [OF assms] ready_param [OF assms, of 0] ready_param [OF assms, of 1]
      by (simp add: exec_prop_desc_def vcm_mtp_object_prop_desc_def answers_code)
  qed
qed

lemma ready_lookup:
  assumes "ready server c command buf capacity" and "lookup c h = Some e"
  shows "entry_strings_ok e" and "e_handle e = h" and "e \<in> set (visible c)"
  using assms lookup_SomeD [OF assms(2)] visible_strings_ok by (auto simp: ready_def)

lemma prop_value_answers:
  assumes "ready server c command buf capacity"
  shows "answers server command buf
    (if length (params_of command) < 2 then (s_session server, MTP_INVALID_PARAMETER, [], No_Data)
     else case lookup c (params_of command ! 0) of
        None \<Rightarrow> (s_session server, MTP_INVALID_OBJECT_HANDLE, [], No_Data)
      | Some e \<Rightarrow>
          if supported (ucast (params_of command ! 1)) (e_format e)
          then (s_session server, MTP_OK, [], Dataset (prop_value_dataset e (ucast (params_of command ! 1))))
          else (s_session server, MTP_OPERATION_NOT_SUPPORTED, [], No_Data))
    (exec_prop_value server command (fresh command) (writer_on buf capacity))"
proof (cases "m_param_count command < 2")
  case True
  then show ?thesis
    using ready_params(1) [OF assms] by (simp add: exec_prop_value_def answers_code u32_less_conv)
next
  case False
  then have n: "2 \<le> unat (m_param_count command)" by (simp add: u32_less_conv)
  then have ps: "params_of command ! 0 = m_params command ! 0" "params_of command ! 1 = m_params command ! 1"
    using ready_params(2) [OF assms] by simp_all
  note run = False n ps ready_params(1,5) [OF assms] ready_param [OF assms, of 0] ready_param [OF assms, of 1]
  show ?thesis
  proof (cases "lookup c (m_params command ! 0)")
    case None
    then show ?thesis using run by (simp add: exec_prop_value_def answers_code)
  next
    case (Some e)
    note ok = ready_lookup(1) [OF assms Some]
    show ?thesis
    proof (cases "supported (ucast (m_params command ! 1)) (e_format e)")
      case True
      then show ?thesis
        using run Some ready_memory [OF assms prop_value_yields [OF True ok] dataset_sizes(6)]
        by (simp add: exec_prop_value_def)
    next
      case unsupported: False
      then show ?thesis
        using run Some by (simp add: exec_prop_value_def vcm_mtp_object_prop_value_def answers_code)
    qed
  qed
qed

lemma ready_refused:
  assumes "ready server c command buf capacity"
  shows "(if parent \<noteq> VCM_MTP_ALL_HANDLES \<and> parent \<noteq> VCM_MTP_ROOT_HANDLE
      then do { entry \<leftarrow> vcm_mtp_catalog_get (s_catalog server) parent; Some (entry = None \<or> parent > 3) }
      else Some False) = Some (\<not> listable parent)"
  using assms catalog_children_known [of c parent] by (auto simp: ready_def split: if_splits bind_splits)

lemma handles_length:
  fixes parent :: u32 and format :: u16
  assumes "catalog_wf c"
  defines "n \<equiv> length (children c parent format)"
  shows "(of_nat n :: u32) \<le> (0xffffffff - 4) div 4 \<longleftrightarrow> 4 + 4 * n < 2 ^ 32"
    and "4 + 4 * n < 2 ^ 32 \<Longrightarrow> unat (4 + 4 * of_nat n :: u32) = 4 + 4 * n"
proof -
  have n: "unat (of_nat n :: u32) = n"
    using children_length [OF assms(1)] by (intro unat_of_nat_small) (simp add: n_def)
  have "unat ((0xffffffff - 4) div 4 :: u32) = 1073741822" by (simp add: unat_div)
  then show "(of_nat n :: u32) \<le> (0xffffffff - 4) div 4 \<longleftrightarrow> 4 + 4 * n < 2 ^ 32"
    unfolding word_le_nat_alt n by auto
  show "4 + 4 * n < 2 ^ 32 \<Longrightarrow> unat (4 + 4 * of_nat n :: u32) = 4 + 4 * n"
    by (simp add: unat_word_ariths n)
qed

lemma update_params: "(replicate 5 x)[0 := y] = y # replicate 4 x"
  by (simp add: eval_nat_numeral)

lemma handles_answers:
  assumes "ready server c command buf capacity" and "m_code command \<in> {0x1006, 0x1007}"
  shows "answers server command buf
    (respond_handles c (s_session server) (m_code command) (params_of command))
    (exec_handles server command (fresh command) (writer_on buf capacity))"
proof (cases "m_param_count command < 3 \<or> \<not> storage_valid (m_params command ! 0)")
  case True
  then have "length (params_of command) < 3 \<or> \<not> storage_valid (params_of command ! 0)"
    using ready_params(1,2) [OF assms(1)] by (auto simp: u32_less_conv)
  then show ?thesis
    using True ready_param [OF assms(1)] by (auto simp: respond_handles_def exec_handles_def answers_code)
next
  case False
  then have n: "3 \<le> unat (m_param_count command)" by (simp add: u32_less_conv)
  then have ps: "params_of command ! k = m_params command ! k" if "k < 3" for k
    using ready_params(2) [OF assms(1), of k] that by simp
  let ?p = "m_params command ! 2" and ?f = "ucast (m_params command ! 1) :: u16"
  have wf: "catalog_wf c" and cat: "s_catalog server = Some c" using assms(1) by (auto simp: ready_def)
  show ?thesis
  proof (cases "listable ?p")
    case unlisted: False
    then show ?thesis
      using False n ps ready_params(1) [OF assms(1)] ready_param [OF assms(1)] ready_refused [OF assms(1), of ?p]
      by (simp add: respond_handles_def exec_handles_def answers_code)
  next
    case listed: True
    let ?n = "length (children c ?p ?f)"
    have run: "exec_handles server command (fresh command) (writer_on buf capacity) =
       (if m_code command = 0x1006
         then Some (0, server, (fresh command)\<lparr>r_response := (r_response (fresh command))
           \<lparr>m_params := (m_params (r_response (fresh command)))[0 := of_nat ?n], m_param_count := 1\<rparr>\<rparr>, Some buf)
         else if 4 + 4 * ?n < 2 ^ 32
         then Some (0, server, (fresh command)\<lparr>r_data_kind := VCM_MTP_DATA_HANDLES,
           r_data_length := 4 + 4 * of_nat ?n, r_parent := ?p, r_format := ?f\<rparr>, Some buf)
         else Some (0, server, with_code (fresh command) MTP_GENERAL_ERROR, Some buf))"
      unfolding exec_handles_def
      using ready_param [OF assms(1), of 0] ready_param [OF assms(1), of 1] ready_param [OF assms(1), of 2] False listed ready_refused [OF assms(1), of ?p] catalog_children_count [OF wf, of ?p ?f 0]
        handles_length(1) [OF wf, of ?p ?f]
      by (simp add: cat Let_def)
    have spec: "respond_handles c (s_session server) (m_code command) (params_of command) =
       (if m_code command = 0x1006 then (s_session server, MTP_OK, [of_nat ?n], No_Data)
        else if 4 + 4 * ?n < 2 ^ 32
        then (s_session server, MTP_OK, [], Handles ?p ?f (map e_handle (children c ?p ?f)))
        else (s_session server, MTP_GENERAL_ERROR, [], No_Data))"
      using False n ps listed ready_params(1) [OF assms(1)] by (simp add: respond_handles_def Let_def)
    show ?thesis
      unfolding run spec using handles_length(2) [OF wf, of ?p ?f]
      by (simp add: answers_code) (simp add: answers_def set_response_def response_record_def update_params)
  qed
qed


lemma sendable_guard: "\<not> e_size e > 0xffffffff - 12 \<longleftrightarrow> sendable e"
  by (auto simp: sendable_def word_less_nat_alt)

lemma sendable_size: "sendable e \<Longrightarrow> unat (ucast (e_size e) :: u32) = unat (e_size e)"
  by (simp add: sendable_def unsigned_ucast_eq take_bit_nat_eq_self)

lemma object_answers:
  assumes "ready server c command buf capacity" and "m_code command \<in> {0x1008, 0x1009, 0x100a}"
  shows "answers server command buf
    (if params_of command = [] then (s_session server, MTP_INVALID_PARAMETER, [], No_Data)
     else respond_object (s_session server) (m_code command) (lookup c (hd (params_of command))))
    (exec_object server command (fresh command) (writer_on buf capacity))"
proof (cases "m_param_count command = 0")
  case True
  then show ?thesis
    using ready_params(3) [OF assms(1)] by (simp add: exec_object_def answers_code)
next
  case False
  note run = False ready_params(3,4,5) [OF assms(1)] ready_param [OF assms(1), of 0]
  let ?found = "lookup c (m_params command ! 0)"
  show ?thesis
  proof (cases "\<exists>e. ?found = Some e \<and> sendable e")
    case none: False
    then show ?thesis
      using run sendable_guard
      by (cases ?found) (auto simp: exec_object_def respond_object_def answers_code u32_less_conv)
  next
    case True
    then obtain e where e: "?found = Some e" "sendable e" by blast
    show ?thesis
    proof (cases "m_code command = 0x1008")
      case True
      obtain name created modified where strings: "c_string (e_display_name e) = Some name"
          "c_string (e_created e) = Some created" "c_string (e_modified e) = Some modified"
        using ready_lookup(1) [OF assms(1) e(1)] by (auto simp: entry_strings_ok_def c_string_def)
      show ?thesis
        using run e sendable_guard [of e] True strings
          ready_memory [OF assms(1) object_info_yields [of "entry_info e"] dataset_sizes(3)]
        by (simp add: exec_object_def respond_object_def entry_info_def u32_less_conv Let_def)
    next
      case False
      then show ?thesis
        using run e sendable_guard [of e] assms(2) sendable_size [OF e(2)]
        by (auto simp: exec_object_def respond_object_def u32_less_conv answers_code)
          (auto simp: answers_def set_response_def response_record_def)
    qed
  qed
qed


lemma in_session_answers:
  assumes ready: "ready server c command buf capacity"
    and reply: "respond_in_session c (s_storage_capacity server) (s_storage_free server) (s_session server)
      (m_code command) (params_of command) = Some reply"
  shows "answers server command buf reply
    (exec_in_session server command (fresh command) (writer_on buf capacity))"
proof -
  consider "m_code command = 0x1003" | "m_code command = 0x1004" | "m_code command = 0x1005"
    | "m_code command = 0x9801" | "m_code command = 0x9802" | "m_code command = 0x9803"
    | "m_code command \<in> {0x1006, 0x1007}" | "m_code command \<in> {0x1008, 0x1009, 0x100a}"
    | "m_code command \<notin> {0x1003, 0x1004, 0x1005, 0x9801, 0x9802, 0x9803, 0x1006, 0x1007, 0x1008, 0x1009, 0x100a}"
    by blast
  then show ?thesis
  proof cases
    case 1
    then show ?thesis using reply
      by (auto simp: respond_in_session_def exec_in_session_def exec_close_session_def answers_ok)
  next
    case 2
    then show ?thesis using reply storage_ids_answers [OF ready]
      by (auto simp: respond_in_session_def exec_in_session_def)
  next
    case 3
    then show ?thesis using reply storage_info_answers [OF ready]
      by (auto simp: respond_in_session_def exec_in_session_def split: if_splits)
  next
    case 4
    then show ?thesis using reply props_supported_answers [OF ready]
      by (auto simp: respond_in_session_def exec_in_session_def split: if_splits)
  next
    case 5
    then show ?thesis using reply prop_desc_answers [OF ready]
      by (auto simp: respond_in_session_def exec_in_session_def split: if_splits)
  next
    case 6
    then show ?thesis using reply prop_value_answers [OF ready]
      by (auto simp: respond_in_session_def exec_in_session_def split: if_splits option.splits)
  next
    case 7
    then show ?thesis using reply handles_answers [OF ready 7]
      by (auto simp: respond_in_session_def exec_in_session_def)
  next
    case 8
    then show ?thesis using reply object_answers [OF ready 8]
      by (auto simp: respond_in_session_def exec_in_session_def split: if_splits)
  next
    case 9
    then show ?thesis using reply
      by (auto simp: respond_in_session_def exec_in_session_def Let_def answers_code)
  qed
qed

lemma execute_cases:
  "s_catalog server \<noteq> None \<Longrightarrow> m_param_count command \<le> 5 \<Longrightarrow>
   vcm_mtp_server_execute server command result payload capacity =
     (let writer = vcm_mtp_writer_init payload capacity in
      if m_code command = 0x1001 then exec_device_info server (fresh command) writer
      else if m_code command = 0x1002 then exec_open_session server command (fresh command) writer
      else if s_session server = 0
      then Some (0, server, with_code (fresh command) MTP_SESSION_NOT_OPEN, w_data writer)
      else exec_in_session server command (fresh command) writer)"
  by (auto simp: vcm_mtp_server_execute_def Let_def)

lemma execute_answers:
  assumes "s_catalog server = Some c" and "catalog_wf c" and "command_ok command"
    and "unat capacity \<le> length buf" and "4096 \<le> capacity"
    and "respond c (s_storage_capacity server) (s_storage_free server) (s_session server)
      (m_code command) (params_of command) = Some reply"
  shows "answers server command buf reply (vcm_mtp_server_execute server command result (Some buf) capacity)"
proof (cases "m_param_count command > 5")
  case True
  then show ?thesis
    using assms(1,6) by (auto simp: vcm_mtp_server_execute_def respond_def params_of_def answers_code Let_def)
next
  case False
  then have ready: "ready server c command buf capacity"
    using assms by (simp add: ready_def not_less)
  have few: "\<not> 5 < length (params_of command)"
    using ready_params(1) [OF ready] False by (simp add: word_less_nat_alt)
  have run: "vcm_mtp_server_execute server command result (Some buf) capacity =
     (if m_code command = 0x1001 then exec_device_info server (fresh command) (writer_on buf capacity)
      else if m_code command = 0x1002 then exec_open_session server command (fresh command) (writer_on buf capacity)
      else if s_session server = 0
      then Some (0, server, with_code (fresh command) MTP_SESSION_NOT_OPEN, Some buf)
      else exec_in_session server command (fresh command) (writer_on buf capacity))"
    using execute_cases [of server command] False assms(1) by (simp add: Let_def not_less)
  show ?thesis
    unfolding run
    using assms(6) few device_info_answers [OF ready] open_session_answers [OF ready]
      in_session_answers [OF ready] answers_code [of server command buf MTP_SESSION_NOT_OPEN]
    by (auto simp: respond_def split: if_splits)
qed

lemma execute_gives_up:
  assumes "s_catalog server = Some c" and "command_ok command"
    and "respond c (s_storage_capacity server) (s_storage_free server) (s_session server)
      (m_code command) (params_of command) = None"
  shows "vcm_mtp_server_execute server command result payload capacity =
    Some (- 1, server, fresh command, payload)"
proof -
  have few: "m_param_count command \<le> 5" and none: "params_of command = []" and code: "m_code command = 0x9801"
    and session: "s_session server \<noteq> 0"
    using assms(3) by (auto simp: respond_def respond_in_session_def params_of_def not_less
        split: if_splits option.splits)
  then have "m_param_count command = 0" using params_of_empty(1) [OF assms(2)] by simp
  then show ?thesis
    using assms(1) few code session
    by (simp add: execute_cases Let_def exec_in_session_def exec_props_supported_def)
qed

subsection \<open>Session protocol\<close>

text \<open>What any branch does to the server and the response, whatever the catalogue and the buffer hold.\<close>

definition well_formed_response :: "VcmMtpCommand \<Rightarrow> VcmMtpResult \<Rightarrow> bool" where
  "well_formed_response command r \<longleftrightarrow>
     m_session (r_response r) = m_session command \<and> m_transaction (r_response r) = m_transaction command \<and>
     m_reserved (r_response r) = 0 \<and> m_param_count (r_response r) \<le> 1 \<and>
     length (m_params (r_response r)) = 5 \<and>
     (r_data_kind r \<noteq> VCM_MTP_DATA_NONE \<longrightarrow> m_code (r_response r) = MTP_OK)"

definition plain :: "VcmMtpServer \<Rightarrow> VcmMtpCommand \<Rightarrow> execution \<Rightarrow> bool" where
  "plain server command out \<longleftrightarrow>
     (case out of
        None \<Rightarrow> True
      | Some (st, server', r, p) \<Rightarrow>
          server' = server \<and> (st = - 1 \<or> st = 0 \<and> well_formed_response command r))"

lemma plain_fault [simp]: "plain server command None"
  by (simp add: plain_def)

lemma plain_failure [simp]: "plain server command (Some (- 1, server, r, p))"
  by (simp add: plain_def)

lemma plain_bind: "(\<And>x. m = Some x \<Longrightarrow> plain server command (f x)) \<Longrightarrow> plain server command (m \<bind> f)"
  by (cases m) auto

lemma plain_code [simp]: "plain server command (Some (0, server, with_code (fresh command) code, p))"
  by (simp add: plain_def well_formed_response_def with_code_def set_response_def)

lemma plain_memory [simp]: "plain server command (Some (0, server, memory_data (fresh command) w, p))"
  by (simp add: plain_def well_formed_response_def memory_data_def set_response_def)

lemma plain_data [simp]:
  "plain server command (Some (0, server, (fresh command)\<lparr>r_data_kind := k, r_data_length := n, r_object_handle := h\<rparr>, p))"
  "plain server command (Some (0, server, (fresh command)\<lparr>r_data_kind := k, r_data_length := n, r_parent := a, r_format := b\<rparr>, p))"
  "plain server command (Some (0, server, (fresh command)\<lparr>r_response := (r_response (fresh command))
     \<lparr>m_params := (m_params (r_response (fresh command)))[0 := v], m_param_count := 1\<rparr>\<rparr>, p))"
  by (simp_all add: plain_def well_formed_response_def set_response_def)

lemma exec_plain:
  "plain server command (exec_device_info server (fresh command) writer)"
  "plain server command (exec_storage_ids server (fresh command) writer)"
  "plain server command (exec_storage_info server command (fresh command) writer)"
  "plain server command (exec_props_supported server command (fresh command) writer)"
  "plain server command (exec_prop_desc server command (fresh command) writer)"
  "plain server command (exec_prop_value server command (fresh command) writer)"
  "plain server command (exec_handles server command (fresh command) writer)"
  "plain server command (exec_object server command (fresh command) writer)"
  unfolding exec_device_info_def exec_storage_ids_def exec_storage_info_def exec_props_supported_def
    exec_prop_desc_def exec_prop_value_def exec_handles_def exec_object_def Let_def
  by (auto intro!: plain_bind split: option.split)


lemma in_session_plain:
  assumes "m_code command \<noteq> 0x1003"
  shows "plain server command (exec_in_session server command (fresh command) writer)"
  using assms by (simp add: exec_in_session_def Let_def exec_plain)

text \<open>
  The session protocol, seen from the outside: a command is answered in its own session and
  transaction, data is announced only inside a session or for the device description, and the
  session changes exactly by an accepted open or close.
\<close>

definition conforms :: "VcmMtpServer \<Rightarrow> VcmMtpCommand \<Rightarrow> VcmMtpServer \<Rightarrow> VcmMtpResult \<Rightarrow> bool" where
  "conforms server command server' r \<longleftrightarrow>
     well_formed_response command r \<and>
     server' = server\<lparr>s_session :=
        (if m_code (r_response r) = MTP_OK \<and> m_code command = 0x1002 then m_params command ! 0
         else if m_code (r_response r) = MTP_OK \<and> m_code command = 0x1003 then 0
         else s_session server)\<rparr> \<and>
     (r_data_kind r \<noteq> VCM_MTP_DATA_NONE \<longrightarrow> m_code command = 0x1001 \<or> s_session server \<noteq> 0) \<and>
     (m_code (r_response r) = MTP_OK \<and> m_code command = 0x1002 \<longrightarrow>
        s_session server = 0 \<and> m_params command ! 0 \<noteq> 0)"

lemma open_session_conforms:
  assumes "exec_open_session server command (fresh command) writer = Some (st, server', r, p)"
    and "m_code command = 0x1002"
  shows "conforms server command server' r \<and> st = 0"
proof -
  obtain p0 where p0: "fetch (m_params command) 0 = Some p0"
    using assms(1) by (auto simp: exec_open_session_def bind_eq_Some_conv)
  then have "p0 = m_params command ! 0" by (auto dest: fetch_SomeD)
  then show ?thesis
    using assms p0
    by (auto simp: exec_open_session_def conforms_def well_formed_response_def
        with_code_def set_response_def split: if_splits)
qed

lemma plain_conforms:
  assumes "plain server command (Some (0, server', r, p))" and "m_code command \<notin> {0x1002, 0x1003}"
    and "m_code command = 0x1001 \<or> s_session server \<noteq> 0"
  shows "conforms server command server' r"
  using assms by (auto simp: plain_def conforms_def)

lemma with_code_conforms:
  "code \<noteq> MTP_OK \<Longrightarrow> conforms server command server (with_code (fresh command) code)"
  by (simp add: conforms_def well_formed_response_def with_code_def set_response_def)

lemma close_session_conforms:
  assumes "m_code command = 0x1003"
  shows "conforms server command (server\<lparr>s_session := 0\<rparr>) (fresh command)"
  using assms by (simp add: conforms_def well_formed_response_def set_response_def)

lemma execute_conforms:
  assumes "vcm_mtp_server_execute server command result payload capacity = Some (st, server', r, p)"
  shows "if st = 0 then conforms server command server' r else st = - 1 \<and> server' = server"
proof (cases "s_catalog server \<noteq> None \<and> m_param_count command \<le> 5")
  case False
  then show ?thesis
    using assms by (auto simp: vcm_mtp_server_execute_def with_code_conforms Let_def split: if_splits)
next
  case True
  let ?w = "vcm_mtp_writer_init payload capacity"
  note run = assms [unfolded execute_cases [OF True [THEN conjunct1] True [THEN conjunct2]] Let_def]
  consider "m_code command = 0x1001" | "m_code command = 0x1002" | "m_code command = 0x1003"
    | "m_code command \<notin> {0x1001, 0x1002, 0x1003}" by blast
  then show ?thesis
  proof cases
    case 1
    with run have x: "exec_device_info server (fresh command) ?w = Some (st, server', r, p)" by simp
    show ?thesis
      using exec_plain(1) [of server command ?w] plain_conforms [of server command server' r p] 1
      unfolding x by (auto simp: plain_def)
  next
    case 2
    then show ?thesis using run open_session_conforms by auto
  next
    case 3
    then show ?thesis
      using run close_session_conforms
      by (auto simp: exec_in_session_def exec_close_session_def with_code_conforms split: if_splits)
  next
    case 4
    show ?thesis
    proof (cases "s_session server = 0")
      case True
      then show ?thesis using run 4 by (auto simp: with_code_conforms)
    next
      case False
      with run 4 have x: "exec_in_session server command (fresh command) ?w = Some (st, server', r, p)" by simp
      show ?thesis
        using in_session_plain [of command server ?w] plain_conforms [of server command server' r p] 4 False
        unfolding x by (auto simp: plain_def)
    qed
  qed
qed

text \<open>
  A history of answered commands, oldest first. A command the interpreter gives up on leaves no trace in it.
\<close>

type_synonym history = "(VcmMtpCommand \<times> VcmMtpResult) list"

inductive serves :: "VcmMtpServer \<Rightarrow> history \<Rightarrow> VcmMtpServer \<Rightarrow> bool" where
  start: "serves server [] server"
| answered: "serves server h s \<Longrightarrow>
    vcm_mtp_server_execute s command result payload capacity = Some (0, s', r, p) \<Longrightarrow>
    serves server (h @ [(command, r)]) s'"
| given_up: "serves server h s \<Longrightarrow>
    vcm_mtp_server_execute s command result payload capacity = Some (st, s', r, p) \<Longrightarrow> st \<noteq> 0 \<Longrightarrow>
    serves server h s'"

definition accepted :: "u16 \<Rightarrow> VcmMtpCommand \<times> VcmMtpResult \<Rightarrow> bool" where
  "accepted code x \<longleftrightarrow> m_code (fst x) = code \<and> m_code (r_response (snd x)) = MTP_OK"

text \<open>An accepted open that no accepted close follows.\<close>

fun session_open :: "history \<Rightarrow> bool" where
  "session_open [] = False"
| "session_open (x # h) =
     (if session_open h then True
      else accepted 0x1002 x \<and> (\<forall>y \<in> set h. \<not> accepted 0x1003 y))"

lemma session_open_snoc:
  "session_open (h @ [x]) \<longleftrightarrow>
     accepted 0x1002 x \<or> session_open h \<and> \<not> accepted 0x1003 x"
proof (induction h)
  case Nil
  then show ?case by auto
next
  case (Cons a h)
  then show ?case by (auto simp: accepted_def)
qed

lemma serves_session:
  "serves server h s \<Longrightarrow> s_session server = 0 \<Longrightarrow> s_session s \<noteq> 0 \<longleftrightarrow> session_open h"
proof (induction rule: serves.induct)
  case (start server)
  then show ?case by simp
next
  case (answered server h s command result payload capacity s' r p)
  then have "conforms s command s' r" using execute_conforms by fastforce
  then show ?case
    using answered by (auto simp: session_open_snoc accepted_def conforms_def)
next
  case (given_up server h s command result payload capacity st s' r p)
  then show ?case using execute_conforms [OF given_up(2)] by simp
qed


lemma serves_storage:
  assumes "serves server h s"
  shows "s_storage_capacity s = s_storage_capacity server \<and> s_storage_free s = s_storage_free server \<and>
    s_catalog s = s_catalog server"
  using assms
proof (induction rule: serves.induct)
  case (start server)
  then show ?case by simp
next
  case (answered server h s command result payload capacity s' r p)
  then have "conforms s command s' r" using execute_conforms by fastforce
  with answered show ?case by (auto simp: conforms_def)
next
  case (given_up server h s command result payload capacity st s' r p)
  then show ?case using execute_conforms [OF given_up(2)] by simp
qed

subsection \<open>Sample commands\<close>

definition sample_command :: "u16 \<Rightarrow> u32 list \<Rightarrow> VcmMtpCommand" where
  "sample_command code ps =
     \<lparr>m_code = code, m_reserved = 0, m_session = 1, m_transaction = 7,
      m_params = ps @ replicate (5 - length ps) 0, m_param_count = of_nat (length ps)\<rparr>"

definition empty_catalog :: VcmMtpCatalog where
  "empty_catalog = \<lparr>c_entries = Some [], c_count = 0, c_capacity = 0\<rparr>"

definition sample_server :: VcmMtpServer where
  "sample_server = vcm_mtp_server_init (Some empty_catalog)"

lemmas sample_simps =
  sample_command_def empty_catalog_def sample_server_def vcm_mtp_server_init_def vcm_mtp_server_execute_def
  exec_open_session_def exec_in_session_def exec_storage_ids_def set_response_def with_code_def memory_data_def

lemma sample_open:
  "vcm_mtp_server_execute sample_server (sample_command 0x1002 [1]) result (Some buf) 8 =
    Some (0, sample_server\<lparr>s_session := 1\<rparr>, set_response (sample_command 0x1002 [1]) MTP_OK, Some buf)"
  by (simp add: sample_simps)

lemma sample_storage_ids:
  "\<exists>r p. vcm_mtp_server_execute (sample_server\<lparr>s_session := 1\<rparr>) (sample_command 0x1004 []) result
      (Some (replicate 8 0)) 8 = Some (0, sample_server\<lparr>s_session := 1\<rparr>, r, p) \<and>
    r_data_kind r = VCM_MTP_DATA_MEMORY"
proof -
  have "delivers (u32_array_dataset [VCM_MTP_STORAGE_ID]) (replicate 8 0) 8
      (vcm_mtp_u32_array (vcm_mtp_writer_init (Some (replicate 8 0)) 8) (Some [VCM_MTP_STORAGE_ID]) 1)"
    by (intro yields_delivers u32_array_yields) (simp_all add: u32_array_dataset_def)
  then show ?thesis
    by (auto simp: delivers_def u32_array_dataset_def sample_simps)
qed

subsection \<open>Properties\<close>

text \<open>
  C24. Along any history of answered commands that starts without a session, an answer announces
  data only if the command asked for the device description or an accepted OpenSession precedes
  it without an accepted CloseSession in between.
\<close>

theorem data_needs_session:
  assumes "serves server h s" and "s_session server = 0"
    and "vcm_mtp_server_execute s command result payload capacity = Some (0, s', r, p)"
    and "r_data_kind r \<noteq> VCM_MTP_DATA_NONE"
  shows "m_code command = 0x1001 \<or> session_open h"
  using execute_conforms [OF assms(3)] serves_session [OF assms(1,2)] assms(4)
  by (auto simp: conforms_def)

theorem data_needs_session_witness:
  "\<exists>h s command result payload capacity s' r p.
    serves sample_server h s \<and>
    vcm_mtp_server_execute s command result payload capacity = Some (0, s', r, p) \<and>
    r_data_kind r \<noteq> VCM_MTP_DATA_NONE \<and> m_code command = 0x1004 \<and> session_open h"
proof -
  let ?h = "[(sample_command 0x1002 [1], set_response (sample_command 0x1002 [1]) MTP_OK)]"
  have h: "serves sample_server ?h (sample_server\<lparr>s_session := 1\<rparr>)"
    using serves.answered [OF serves.start sample_open] by simp
  obtain r p where run: "vcm_mtp_server_execute (sample_server\<lparr>s_session := 1\<rparr>) (sample_command 0x1004 [])
      undefined (Some (replicate 8 0)) 8 = Some (0, sample_server\<lparr>s_session := 1\<rparr>, r, p)"
    and kind: "r_data_kind r = VCM_MTP_DATA_MEMORY"
    using sample_storage_ids by blast
  have "session_open ?h"
    using data_needs_session [OF h _ run] kind by (simp add: sample_simps)
  with h run kind show ?thesis by (force simp: sample_command_def)
qed

text \<open>
  An answer carries the session and transaction of its command, announces data only with the
  response code OK, and the session changes exactly by an accepted OpenSession, which needs no
  session to be open, or an accepted CloseSession; nothing else of the server changes.
\<close>

theorem execute_protocol:
  assumes "vcm_mtp_server_execute server command result payload capacity = Some (0, server', r, p)"
  shows "conforms server command server' r"
  using execute_conforms [OF assms] by simp

theorem execute_protocol_witness:
  "conforms sample_server (sample_command 0x1002 [1]) (sample_server\<lparr>s_session := 1\<rparr>)
     (set_response (sample_command 0x1002 [1]) MTP_OK)"
  by (rule execute_protocol [OF sample_open])

text \<open>
  C9. With a well-formed catalogue and a reply buffer of at least 4096 bytes the interpreter gives
  exactly the answer of the abstract responder: session, response code, response parameters and
  data phase, inside the buffer.
\<close>

theorem execute_refines_respond:
  assumes "s_catalog server = Some c" and "catalog_wf c" and "command_ok command"
    and "unat capacity \<le> length buf" and "4096 \<le> capacity"
  shows "case respond c (s_storage_capacity server) (s_storage_free server) (s_session server)
      (m_code command) (params_of command) of
    Some reply \<Rightarrow> answers server command buf reply
      (vcm_mtp_server_execute server command result (Some buf) capacity)
  | None \<Rightarrow> vcm_mtp_server_execute server command result (Some buf) capacity =
      Some (- 1, server, set_response command MTP_OK, Some buf)"
  using execute_answers [OF assms] execute_gives_up [OF assms(1,3)] by (auto split: option.split)

theorem execute_refines_respond_witness:
  "\<exists>c server. catalog_wf c \<and> s_catalog server = Some c \<and>
    answers server (sample_command 0x1001 []) (replicate 4096 0) (0, MTP_OK, [], Dataset device_info_dataset)
      (vcm_mtp_server_execute server (sample_command 0x1001 []) undefined (Some (replicate 4096 0)) 4096)"
proof -
  obtain c where c: "catalog_wf c"
    using catalog_init_spec [of 4 "replicate 4 clear_entry"] by (auto simp: catalog_inv_def)
  let ?server = "vcm_mtp_server_init (Some c)" and ?command = "sample_command 0x1001 []"
  have "s_catalog ?server = Some c" "command_ok ?command"
    by (simp_all add: vcm_mtp_server_init_def command_ok_def sample_command_def)
  moreover have "respond c (s_storage_capacity ?server) (s_storage_free ?server) (s_session ?server)
      (m_code ?command) (params_of ?command) = Some (0, MTP_OK, [], Dataset device_info_dataset)"
    by (simp add: respond_def sample_command_def params_of_def vcm_mtp_server_init_def)
  ultimately show ?thesis
    using execute_refines_respond [of ?server c ?command 4096 "replicate 4096 0"] c by auto
qed

text \<open>
  The free space a server reports never exceeds its capacity, whatever values the shell last
  stored and whatever commands it has served since.
\<close>

theorem storage_bound:
  assumes "serves (vcm_mtp_server_set_storage server capacity free_bytes) h s"
  shows "s_storage_free s \<le> s_storage_capacity s \<and> s_storage_capacity s = capacity"
  using serves_storage [OF assms] by (simp add: vcm_mtp_server_set_storage_def)

theorem storage_bound_witness:
  "s_storage_free (vcm_mtp_server_set_storage sample_server 100 200) \<le>
     s_storage_capacity (vcm_mtp_server_set_storage sample_server 100 200)"
  using storage_bound [OF serves.start, of sample_server 100 200] by blast

end
