(* ===== verification/Mtp_Engine.thy ===== *)
theory Mtp_Engine
  imports Mtp_Server
begin

text \<open>
  The transport-independent command runner of \<^verbatim>\<open>src/vita/mtp_engine.c\<close>: it executes one command
  and moves its data phase through callbacks, ending with one response. The transport is a record
  of optional callbacks over an arbitrary context. The lemmas observe the callbacks through a log
  and show what any transport sees: contiguous data, balanced open and close, a single response,
  and an error only after an event that caused it.
\<close>

subsection \<open>Data\<close>

text \<open>
  A C \<open>int\<close> crossing a callback is a 32-bit word read with \<^const>\<open>sint\<close>. A callback that is handed
  bytes gets exactly the counted bytes; one that fills a buffer returns the bytes it wrote to
  the front of it.
\<close>

type_synonym c_int = "32 word"

record 'c VcmMtpTransport =
  t_send_data :: "('c \<Rightarrow> VcmMtpCommand \<Rightarrow> u8 list \<Rightarrow> u32 \<Rightarrow> u32 \<Rightarrow> c_int \<times> 'c) option"
  t_send_response :: "('c \<Rightarrow> VcmMtpCommand \<Rightarrow> c_int \<times> 'c) option"
  t_open_object :: "('c \<Rightarrow> VcmMtpEntry \<Rightarrow> c_int \<times> 'c) option"
  t_read_object :: "('c \<Rightarrow> u32 \<Rightarrow> c_int \<times> u8 list \<times> 'c) option"
  t_close_object :: "('c \<Rightarrow> 'c) option"
  t_read_thumb :: "('c \<Rightarrow> VcmMtpEntry \<Rightarrow> u32 \<Rightarrow> c_int \<times> u8 list \<times> 'c) option"

type_synonym 'c send_fun = "'c \<Rightarrow> VcmMtpCommand \<Rightarrow> u8 list \<Rightarrow> u32 \<Rightarrow> u32 \<Rightarrow> c_int \<times> 'c"

subsection \<open>Operations\<close>

definition put_le32 :: "u8 list \<Rightarrow> nat \<Rightarrow> u32 \<Rightarrow> u8 list option" where
  "put_le32 out at value = do {
     out \<leftarrow> store out at (ucast value);
     out \<leftarrow> store out (at + 1) (ucast (drop_bit 8 value));
     out \<leftarrow> store out (at + 2) (ucast (drop_bit 16 value));
     store out (at + 3) (ucast (drop_bit 24 value))
   }"

text \<open>Passing the first \<open>count\<close> bytes of a buffer, and letting a callee fill the front of one.\<close>

definition pass :: "u8 list \<Rightarrow> u32 \<Rightarrow> u8 list option" where
  "pass buf count = (if unat count \<le> length buf then Some (take (unat count) buf) else None)"

definition fill :: "u8 list \<Rightarrow> u8 list \<Rightarrow> u8 list option" where
  "fill buf bs = (if length bs \<le> length buf then Some (bs @ drop (length bs) buf) else None)"

text \<open>
  The loop of \<open>send_handles\<close> over the entries: context, scratch buffer, offset, used, found, and
  whether a failed send left the function.
\<close>

fun send_handles_loop ::
    "'c send_fun \<Rightarrow> VcmMtpCommand \<Rightarrow> VcmMtpResult \<Rightarrow> u32 \<Rightarrow> VcmMtpEntry list \<Rightarrow>
     'c \<Rightarrow> u8 list \<Rightarrow> u32 \<Rightarrow> u32 \<Rightarrow> u32 \<Rightarrow> ('c \<times> u8 list \<times> u32 \<times> u32 \<times> u32 \<times> bool) option" where
  "send_handles_loop send command result capacity [] context scratch offset used found =
     Some (context, scratch, offset, used, found, False)"
| "send_handles_loop send command result capacity (entry # es) context scratch offset used found =
     (if \<not> child_matches (r_parent result) (r_format result) entry
      then send_handles_loop send command result capacity es context scratch offset used found
      else if capacity - used < 4 then do {
        bs \<leftarrow> pass scratch used;
        let (st, context) = send context command bs offset (r_data_length result);
        if sint st < 0 then Some (context, scratch, offset, used, found, True)
        else do {
          scratch \<leftarrow> put_le32 scratch 0 (e_handle entry);
          send_handles_loop send command result capacity es context scratch (offset + used) 4 (found + 1)
        }
      }
      else do {
        scratch \<leftarrow> put_le32 scratch (unat used) (e_handle entry);
        send_handles_loop send command result capacity es context scratch offset (used + 4) (found + 1)
      })"

definition send_handles ::
    "'c send_fun \<Rightarrow> VcmMtpServer \<Rightarrow> VcmMtpCommand \<Rightarrow> VcmMtpResult \<Rightarrow> 'c \<Rightarrow> u8 list \<Rightarrow> u32 \<Rightarrow>
     (c_int \<times> 'c \<times> u8 list) option" where
  "send_handles send server command result context scratch capacity = do {
     let expected = (r_data_length result - 4) div 4;
     scratch \<leftarrow> put_le32 scratch 0 expected;
     catalog \<leftarrow> s_catalog server;
     es \<leftarrow> (if c_count catalog = 0 then Some [] else c_entries catalog);
     if length es < unat (c_count catalog) then None
     else do {
       (context, scratch, offset, used, found, failed) \<leftarrow>
         send_handles_loop send command result capacity (take (unat (c_count catalog)) es)
           context scratch 0 4 0;
       if failed then Some (- 1, context, scratch)
       else if found \<noteq> expected then Some (- 1, context, scratch)
       else do {
         bs \<leftarrow> pass scratch used;
         let (st, context) = send context command bs offset (r_data_length result);
         Some (st, context, scratch)
       }
     }
   }"

function send_object_loop ::
    "'c send_fun \<Rightarrow> ('c \<Rightarrow> u32 \<Rightarrow> c_int \<times> u8 list \<times> 'c) \<Rightarrow> VcmMtpCommand \<Rightarrow> u32 \<Rightarrow> u32 \<Rightarrow>
     'c \<Rightarrow> u8 list \<Rightarrow> u32 \<Rightarrow> (c_int \<times> 'c \<times> u8 list) option" where
  "send_object_loop send read command data_length capacity context scratch offset =
     (if offset < data_length then
        let wanted = (if data_length - offset > capacity then capacity else data_length - offset);
            (got, bs, context) = read context wanted
        in do {
          scratch \<leftarrow> fill scratch bs;
          if sint got \<le> 0 \<or> got > wanted then Some (- 1, context, scratch)
          else do {
            sent \<leftarrow> pass scratch got;
            let (st, context) = send context command sent offset data_length;
            if sint st < 0 then Some (- 1, context, scratch)
            else send_object_loop send read command data_length capacity context scratch (offset + got)
          }
        }
      else Some (0, context, scratch))"
  by pat_completeness auto

lemma object_progress:
  fixes offset got data_length :: u32
  assumes "offset < data_length" and "\<not> sint got \<le> 0" and "got \<le> data_length - offset"
  shows "unat (offset + got) = unat offset + unat got" and "unat offset + unat got \<le> unat data_length"
    and "0 < unat got"
proof -
  have "unat (data_length - offset) = unat data_length - unat offset"
    using assms(1) by (intro unat_diff_le) simp
  then show le: "unat offset + unat got \<le> unat data_length"
    using assms(1,3) by (simp add: word_le_nat_alt word_less_nat_alt)
  then show "unat (offset + got) = unat offset + unat got"
    using unat_u32_less [of data_length] by (intro unat_add_bounded) simp
  have "got \<noteq> 0" using assms(2) by auto
  then show "0 < unat got" by (simp add: unat_gt_0)
qed

lemma object_measure:
  fixes offset got data_length capacity :: u32
  assumes "offset < data_length" and "\<not> sint got \<le> 0"
    and "\<not> (if capacity < data_length - offset then capacity else data_length - offset) < got"
  shows "unat data_length - unat (offset + got) < unat data_length - unat offset"
proof -
  have "got \<le> data_length - offset" using assms(3) by (auto split: if_splits)
  then show ?thesis using object_progress [OF assms(1,2)] by simp
qed

termination send_object_loop
  by (relation "measure (\<lambda>(send, read, command, data_length, capacity, context, scratch, offset).
    unat data_length - unat offset)") (simp, clarsimp, rule object_measure)

declare send_object_loop.simps [simp del]

definition send_object ::
    "'c VcmMtpTransport \<Rightarrow> 'c send_fun \<Rightarrow> VcmMtpServer \<Rightarrow> VcmMtpCommand \<Rightarrow> VcmMtpResult \<Rightarrow>
     'c \<Rightarrow> u8 list \<Rightarrow> u32 \<Rightarrow> (c_int \<times> 'c \<times> u8 list) option" where
  "send_object t send server command result context scratch capacity = do {
     found \<leftarrow> vcm_mtp_catalog_get (s_catalog server) (r_object_handle result);
     case (found, t_open_object t, t_read_object t, t_close_object t) of
       (Some entry, Some open_object, Some read, Some close) \<Rightarrow> do {
         let (st, context) = open_object context entry;
         if sint st < 0 then Some (- 1, context, scratch)
         else do {
           (failure, context, scratch) \<leftarrow>
             send_object_loop send read command (r_data_length result) capacity context scratch 0;
           Some (failure, close context, scratch)
         }
       }
     | _ \<Rightarrow> Some (- 1, context, scratch)
   }"

definition send_thumb ::
    "'c VcmMtpTransport \<Rightarrow> 'c send_fun \<Rightarrow> VcmMtpServer \<Rightarrow> VcmMtpCommand \<Rightarrow> VcmMtpResult \<Rightarrow>
     'c \<Rightarrow> u8 list option \<Rightarrow> u32 \<Rightarrow> (c_int \<times> 'c \<times> u8 list option) option" where
  "send_thumb t send server command result context thumbnail thumbnail_capacity = do {
     found \<leftarrow> vcm_mtp_catalog_get (s_catalog server) (r_object_handle result);
     case (found, t_read_thumb t, thumbnail) of
       (Some entry, Some read_thumb, Some buf) \<Rightarrow>
         if thumbnail_capacity = 0 then Some (- 1, context, thumbnail)
         else do {
           let (size0, bs, context) = read_thumb context entry thumbnail_capacity;
           buf \<leftarrow> fill buf bs;
           if sint size0 > 0 then do {
             sent \<leftarrow> pass buf size0;
             let (st, context) = send context command sent 0 size0;
             Some (st, context, Some buf)
           }
           else Some (- 1, context, Some buf)
         }
     | _ \<Rightarrow> Some (- 1, context, thumbnail)
   }"

text \<open>The data phase of an accepted command: its status, the context and the two buffers.\<close>

definition send_phase ::
    "'c VcmMtpTransport \<Rightarrow> 'c send_fun \<Rightarrow> VcmMtpServer \<Rightarrow> VcmMtpCommand \<Rightarrow> VcmMtpResult \<Rightarrow>
     'c \<Rightarrow> u8 list \<Rightarrow> u32 \<Rightarrow> u8 list option \<Rightarrow> u32 \<Rightarrow>
     (c_int \<times> 'c \<times> u8 list \<times> u8 list option) option" where
  "send_phase t send server command result context scratch capacity thumbnail thumbnail_capacity =
     (case r_data_kind result of
        VCM_MTP_DATA_NONE \<Rightarrow> Some (0, context, scratch, thumbnail)
      | VCM_MTP_DATA_MEMORY \<Rightarrow> do {
          bs \<leftarrow> pass scratch (r_data_length result);
          let (st, context) = send context command bs 0 (r_data_length result);
          Some (st, context, scratch, thumbnail)
        }
      | VCM_MTP_DATA_HANDLES \<Rightarrow> do {
          (st, context, scratch) \<leftarrow> send_handles send server command result context scratch capacity;
          Some (st, context, scratch, thumbnail)
        }
      | VCM_MTP_DATA_OBJECT \<Rightarrow> do {
          (st, context, scratch) \<leftarrow> send_object t send server command result context scratch capacity;
          Some (st, context, scratch, thumbnail)
        }
      | VCM_MTP_DATA_THUMB \<Rightarrow> do {
          (st, context, thumbnail) \<leftarrow>
            send_thumb t send server command result context thumbnail thumbnail_capacity;
          Some (st, context, scratch, thumbnail)
        })"

text \<open>
  The last argument is what the result record on the stack holds before it is initialised.
\<close>

definition vcm_mtp_engine_run ::
    "VcmMtpServer \<Rightarrow> VcmMtpCommand \<Rightarrow> 'c VcmMtpTransport \<Rightarrow> 'c \<Rightarrow> u8 list option \<Rightarrow> u32 \<Rightarrow>
     u8 list option \<Rightarrow> u32 \<Rightarrow> VcmMtpResult \<Rightarrow>
     (c_int \<times> VcmMtpServer \<times> 'c \<times> u8 list option \<times> u8 list option) option" where
  "vcm_mtp_engine_run server command t context scratch scratch_capacity thumbnail
       thumbnail_capacity uninit =
     (case (t_send_data t, t_send_response t, scratch) of
        (Some send_data, Some send_response, Some _) \<Rightarrow>
          if scratch_capacity < 4096 then Some (- 1, server, context, scratch, thumbnail)
          else do {
            (status, server, result, payload) \<leftarrow>
              vcm_mtp_server_execute server command uninit scratch scratch_capacity;
            buf \<leftarrow> payload;
            let result = (if status < 0
              then result\<lparr>r_response := command\<lparr>m_code := MTP_GENERAL_ERROR, m_param_count := 0\<rparr>,
                r_data_kind := VCM_MTP_DATA_NONE\<rparr>
              else result);
            (result, context, buf, thumbnail) \<leftarrow>
              (if m_code (r_response result) = MTP_OK then do {
                 (sent, context, buf, thumbnail) \<leftarrow>
                   send_phase t send_data server command result context buf scratch_capacity
                     thumbnail thumbnail_capacity;
                 Some (if sint sent < 0 then with_code result MTP_GENERAL_ERROR else result,
                   context, buf, thumbnail)
               } else Some (result, context, buf, thumbnail));
            let (ret, context) = send_response context (r_response result);
            Some (ret, server, context, Some buf, thumbnail)
          }
      | _ \<Rightarrow> Some (- 1, server, context, scratch, thumbnail))"

subsection \<open>Observing a transport\<close>

text \<open>
  What a transport sees of a run. The flag of a data or open event says whether the callback
  accepted it; a read event holds the number of bytes asked for, the returned count and the bytes
  written, a thumbnail event the returned size and the bytes written.
\<close>

datatype event =
    Sent "u8 list" u32 u32 bool
  | Opened VcmMtpEntry bool
  | Filled u32 c_int "u8 list"
  | Closed
  | Thumbed VcmMtpEntry c_int "u8 list"
  | Responded VcmMtpCommand

type_synonym chunk = "u8 list \<times> u32 \<times> u32 \<times> bool"

fun sends :: "event list \<Rightarrow> chunk list" where
  "sends [] = []"
| "sends (Sent b off tot ok # es) = (b, off, tot, ok) # sends es"
| "sends (_ # es) = sends es"

fun fills :: "event list \<Rightarrow> (c_int \<times> u8 list) list" where
  "fills [] = []"
| "fills (Filled wanted got b # es) = (got, b) # fills es"
| "fills (_ # es) = fills es"

definition transfer :: "event \<Rightarrow> bool" where
  "transfer ev \<longleftrightarrow> (case ev of Sent _ _ _ _ \<Rightarrow> True | Filled _ _ _ \<Rightarrow> True | _ \<Rightarrow> False)"

text \<open>
  Chunks of a transfer of \<open>tot\<close> bytes from \<open>off\<close> on: each starts where the previous one ended,
  none is empty or reaches beyond the total, and nothing follows a refused one.
\<close>

fun chunks :: "nat \<Rightarrow> nat \<Rightarrow> chunk list \<Rightarrow> bool" where
  "chunks tot off [] \<longleftrightarrow> True"
| "chunks tot off ((b, o1, t, ok) # xs) \<longleftrightarrow>
     unat o1 = off \<and> unat t = tot \<and> b \<noteq> [] \<and> off + length b \<le> tot \<and> (ok \<or> xs = []) \<and>
     chunks tot (off + length b) xs"

definition accepted_all :: "chunk list \<Rightarrow> bool" where
  "accepted_all xs \<longleftrightarrow> (\<forall>(b, o1, t, ok) \<in> set xs. ok)"

definition refused :: "chunk list \<Rightarrow> bool" where
  "refused xs \<longleftrightarrow> xs \<noteq> [] \<and> (case last xs of (b, o1, t, ok) \<Rightarrow> \<not> ok)"

definition stream :: "chunk list \<Rightarrow> u8 list" where
  "stream xs = concat (map fst xs)"

lemma accepted_all_simps [simp]:
  "accepted_all []" "accepted_all ((b, o1, t, ok) # xs) \<longleftrightarrow> ok \<and> accepted_all xs"
  "accepted_all (xs @ ys) \<longleftrightarrow> accepted_all xs \<and> accepted_all ys"
  unfolding accepted_all_def set_append ball_Un by simp_all

lemma refused_simps [simp]:
  "\<not> refused []" "refused (xs @ [(b, o1, t, ok)]) \<longleftrightarrow> \<not> ok"
  "refused ((b, o1, t, ok) # xs) \<longleftrightarrow> (if xs = [] then \<not> ok else refused xs)"
  by (simp_all add: refused_def)

lemma stream_simps [simp]:
  "stream [] = []" "stream ((b, o1, t, ok) # xs) = b @ stream xs" "stream (xs @ ys) = stream xs @ stream ys"
  by (simp_all add: stream_def)

lemma sends_append [simp]: "sends (xs @ ys) = sends xs @ sends ys"
  by (induction xs rule: sends.induct) simp_all

lemma fills_append [simp]: "fills (xs @ ys) = fills xs @ fills ys"
  by (induction xs rule: fills.induct) simp_all

lemma transfer_simps [simp]:
  "transfer (Sent b off tot ok)" "transfer (Filled wanted got b)" "\<not> transfer (Opened e ok)"
  "\<not> transfer Closed" "\<not> transfer (Thumbed e got b)" "\<not> transfer (Responded r)"
  by (simp_all add: transfer_def)

lemma chunks_append:
  "accepted_all xs \<Longrightarrow> chunks tot off (xs @ ys) \<longleftrightarrow>
    chunks tot off xs \<and> chunks tot (off + length (stream xs)) ys"
  by (induction tot off xs rule: chunks.induct) (auto simp: add.assoc)

text \<open>A transport whose context records every callback in a log.\<close>

locale observed_transport =
  fixes t :: "'c VcmMtpTransport" and log :: "'c \<Rightarrow> event list"
  assumes log_sent: "t_send_data t = Some send \<Longrightarrow> send c command bs off tot = (st, c') \<Longrightarrow>
      log c' = log c @ [Sent bs off tot (\<not> sint st < 0)]"
    and log_responded: "t_send_response t = Some respond1 \<Longrightarrow> respond1 c response = (st, c') \<Longrightarrow>
      log c' = log c @ [Responded response]"
    and log_opened: "t_open_object t = Some open1 \<Longrightarrow> open1 c e = (st, c') \<Longrightarrow>
      log c' = log c @ [Opened e (\<not> sint st < 0)]"
    and log_filled: "t_read_object t = Some read \<Longrightarrow> read c wanted = (got, bs, c') \<Longrightarrow>
      log c' = log c @ [Filled wanted got bs]"
    and log_closed: "t_close_object t = Some close \<Longrightarrow> log (close c) = log c @ [Closed]"
    and log_thumbed: "t_read_thumb t = Some read_thumb \<Longrightarrow> read_thumb c e cap = (got, bs, c') \<Longrightarrow>
      log c' = log c @ [Thumbed e got bs]"


definition traced :: "'c VcmMtpTransport \<Rightarrow> ('c \<times> event list) VcmMtpTransport" where
  "traced t = \<lparr>
     t_send_data = map_option (\<lambda>f (c, l) command bs off tot.
       let (st, c') = f c command bs off tot
       in (st, c', l @ [Sent bs off tot (\<not> sint st < 0)])) (t_send_data t),
     t_send_response = map_option (\<lambda>f (c, l) response.
       let (st, c') = f c response in (st, c', l @ [Responded response])) (t_send_response t),
     t_open_object = map_option (\<lambda>f (c, l) e.
       let (st, c') = f c e in (st, c', l @ [Opened e (\<not> sint st < 0)])) (t_open_object t),
     t_read_object = map_option (\<lambda>f (c, l) wanted.
       let (got, bs, c') = f c wanted in (got, bs, c', l @ [Filled wanted got bs])) (t_read_object t),
     t_close_object = map_option (\<lambda>f (c, l). (f c, l @ [Closed])) (t_close_object t),
     t_read_thumb = map_option (\<lambda>f (c, l) e cap.
       let (got, bs, c') = f c e cap in (got, bs, c', l @ [Thumbed e got bs])) (t_read_thumb t)\<rparr>"

interpretation tr: observed_transport "traced t" snd for t
  by unfold_locales (auto simp: traced_def split: prod.splits)

text \<open>
  What the callbacks promise: a read writes no more than it was asked for, and a thumbnail read
  returns no larger size than the buffer has room for.
\<close>

definition polite :: "'c VcmMtpTransport \<Rightarrow> bool" where
  "polite t \<longleftrightarrow>
     (case t_read_object t of None \<Rightarrow> True | Some read \<Rightarrow>
        \<forall>c wanted. case read c wanted of (got, bs, c') \<Rightarrow> length bs \<le> unat wanted) \<and>
     (case t_read_thumb t of None \<Rightarrow> True | Some read \<Rightarrow>
        \<forall>c e cap. case read c e cap of (got, bs, c') \<Rightarrow>
          length bs \<le> unat cap \<and> (0 < sint got \<longrightarrow> unat got \<le> unat cap))"

lemma polite_read:
  "polite t \<Longrightarrow> t_read_object t = Some read \<Longrightarrow> read c wanted = (got, bs, c') \<Longrightarrow> length bs \<le> unat wanted"
  by (auto simp: polite_def dest!: spec [of _ c] spec [of _ wanted])

lemma polite_thumb:
  "polite t \<Longrightarrow> t_read_thumb t = Some read \<Longrightarrow> read c e cap = (got, bs, c') \<Longrightarrow>
    length bs \<le> unat cap \<and> (0 < sint got \<longrightarrow> unat got \<le> unat cap)"
  by (auto simp: polite_def dest!: spec [of _ c] spec [of _ e] spec [of _ cap])

lemma polite_traced:
  assumes "polite t"
  shows "polite (traced t)"
  unfolding polite_def traced_def
  by (auto split: option.split prod.split dest: polite_read [OF assms] polite_thumb [OF assms])

subsection \<open>Object data\<close>

text \<open>A reader that writes as many bytes as it says.\<close>

definition honest :: "event list \<Rightarrow> bool" where
  "honest evs \<longleftrightarrow> (\<forall>(got, bs) \<in> set (fills evs). length bs = unat got)"

lemma honest_simps [simp]:
  "honest []" "honest (Filled wanted got bs # evs) \<longleftrightarrow> length bs = unat got \<and> honest evs"
  "honest (Sent b off t ok # evs) \<longleftrightarrow> honest evs"
  by (simp_all add: honest_def)

text \<open>The bytes of a buffer that are sent after a callback has written its front and returned a count.\<close>

definition taken_from :: "u8 list \<Rightarrow> c_int \<Rightarrow> u8 list \<Rightarrow> bool" where
  "taken_from bs got b \<longleftrightarrow> 0 < sint got \<and> length b = unat got \<and> take (length bs) b = take (unat got) bs"

lemma taken_from_fill:
  "0 < sint got \<Longrightarrow> unat got \<le> length (bs @ rest) \<Longrightarrow> taken_from bs got (take (unat got) (bs @ rest))"
  by (auto simp: taken_from_def min_def)

lemma taken_from_facts:
  assumes "taken_from bs got b"
  shows "length b = unat got" "b \<noteq> []" "length bs = unat got \<Longrightarrow> b = bs"
proof -
  have "got \<noteq> 0" using assms by (auto simp: taken_from_def)
  then have "0 < unat got" by (simp add: unat_gt_0)
  then show "length b = unat got" "b \<noteq> []" "length bs = unat got \<Longrightarrow> b = bs"
    using assms by (auto simp: taken_from_def)
qed

text \<open>
  The events of the transfer of an object of \<open>tot\<close> bytes from \<open>off\<close> on, through a buffer of
  \<open>room\<close> bytes. Each read asks for what is missing, as far as the buffer goes; what it has read
  is sent before the next read. The transfer succeeds at the end of the object, and it fails only
  when a read returns no data or too much, or when the data is refused.
\<close>

fun object_transfer :: "nat \<Rightarrow> nat \<Rightarrow> nat \<Rightarrow> c_int \<Rightarrow> event list \<Rightarrow> bool" where
  "object_transfer room tot off failure [] \<longleftrightarrow> failure = 0 \<and> off = tot"
| "object_transfer room tot off failure [Filled wanted got bs] \<longleftrightarrow>
     failure = - 1 \<and> off < tot \<and> unat wanted = min room (tot - off) \<and> (sint got \<le> 0 \<or> wanted < got)"
| "object_transfer room tot off failure (Filled wanted got bs # Sent b o1 t ok # evs) \<longleftrightarrow>
     off < tot \<and> unat wanted = min room (tot - off) \<and> got \<le> wanted \<and> taken_from bs got b \<and>
     unat o1 = off \<and> unat t = tot \<and>
     (if ok then object_transfer room tot (off + length b) failure evs else failure = - 1 \<and> evs = [])"
| "object_transfer room tot off failure _ \<longleftrightarrow> False"

lemma object_transfer_facts:
  assumes "object_transfer room tot off failure evs"
  shows "(\<forall>ev \<in> set evs. transfer ev) \<and> chunks tot off (sends evs) \<and> failure \<in> {0, - 1} \<and>
    (failure = 0 \<longrightarrow> accepted_all (sends evs) \<and> off + length (stream (sends evs)) = tot \<and>
      (honest evs \<longrightarrow> stream (sends evs) = concat (map snd (fills evs))))"
  using assms
proof (induction room tot off failure evs rule: object_transfer.induct)
  case (3 room tot off failure wanted got bs b o1 t ok evs)
  then have b: "b \<noteq> []" "off + length b \<le> tot" "length bs = unat got \<Longrightarrow> b = bs"
    using taken_from_facts [of bs got b] by (auto simp: word_le_nat_alt)
  show ?case
    using "3.IH" "3.prems" b by (cases ok) auto
qed simp_all

context observed_transport
begin

lemma object_loop_observed:
  assumes "t_send_data t = Some send" and "t_read_object t = Some read" and "polite t"
    and "unat capacity \<le> length scratch" and "offset \<le> data_length"
  shows "\<exists>failure c' scratch' evs.
    send_object_loop send read command data_length capacity c scratch offset = Some (failure, c', scratch') \<and>
    length scratch' = length scratch \<and> log c' = log c @ evs \<and>
    object_transfer (unat capacity) (unat data_length) (unat offset) failure evs"
  using assms(4,5)
proof (induction "unat data_length - unat offset" arbitrary: c scratch offset rule: less_induct)
  case less
  show ?case
  proof (cases "offset < data_length")
    case False
    with less.prems have "offset = data_length" by simp
    then show ?thesis
      by (subst send_object_loop.simps) (auto intro!: exI [of _ "[]"])
  next
    case True
    let ?wanted = "if data_length - offset > capacity then capacity else data_length - offset"
    obtain got bs c1 where read: "read c ?wanted = (got, bs, c1)" by (cases "read c ?wanted") auto
    have log1: "log c1 = log c @ [Filled ?wanted got bs]" using log_filled [OF assms(2) read] .
    have left: "unat (data_length - offset) = unat data_length - unat offset"
      using True by (intro unat_diff_le) simp
    have wanted: "unat ?wanted = min (unat capacity) (unat data_length - unat offset)"
      using left by (auto simp: word_less_nat_alt)
    have more: "unat offset < unat data_length" using True by (simp add: word_less_nat_alt)
    have bs: "length bs \<le> unat ?wanted" using polite_read [OF assms(3,2) read] .
    then have fill: "fill scratch bs = Some (bs @ drop (length bs) scratch)"
      using wanted less.prems(1) by (simp add: fill_def)
    let ?s = "bs @ drop (length bs) scratch"
    have len: "length ?s = length scratch" using bs wanted less.prems(1) by simp
    show ?thesis
    proof (cases "sint got \<le> 0 \<or> got > ?wanted")
      case bad: True
      then have "send_object_loop send read command data_length capacity c scratch offset = Some (- 1, c1, ?s)"
        using True read fill by (subst send_object_loop.simps) (simp add: Let_def)
      moreover have "object_transfer (unat capacity) (unat data_length) (unat offset) (- 1) [Filled ?wanted got bs]"
        using wanted more bad by simp
      ultimately show ?thesis using log1 len by blast
    next
      case ok: False
      then have g: "\<not> sint got \<le> 0" "got \<le> ?wanted" by auto
      have gd: "got \<le> data_length - offset" using g(2) by (auto split: if_splits)
      note prog = object_progress [OF True g(1) gd]
      have gs: "unat got \<le> length ?s"
        using g(2) wanted len less.prems(1) by (simp add: word_le_nat_alt)
      let ?b = "take (unat got) ?s"
      obtain st c2 where send: "send c1 command ?b offset data_length = (st, c2)" by fastforce
      have log2: "log c2 = log c @ [Filled ?wanted got bs, Sent ?b offset data_length (\<not> sint st < 0)]"
        using log_sent [OF assms(1) send] log1 by simp
      have b: "length ?b = unat got" "taken_from bs got ?b"
        using gs g(1) by (simp, intro taken_from_fill) auto
      have step: "send_object_loop send read command data_length capacity c scratch offset =
          (if sint st < 0 then Some (- 1, c2, ?s)
           else send_object_loop send read command data_length capacity c2 ?s (offset + got))"
        using True read fill ok send gs
        by (subst send_object_loop.simps) (simp add: Let_def pass_def)
      show ?thesis
      proof (cases "sint st < 0")
        case refused: True
        then have "send_object_loop send read command data_length capacity c scratch offset = Some (- 1, c2, ?s)"
          using step by simp
        moreover have "object_transfer (unat capacity) (unat data_length) (unat offset) (- 1)
            [Filled ?wanted got bs, Sent ?b offset data_length (\<not> sint st < 0)]"
          using refused wanted more g(2) b(2) by (simp del: take_append)
        ultimately show ?thesis using log2 len by blast
      next
        case sent: False
        have "unat data_length - unat (offset + got) < unat data_length - unat offset"
          using prog True by (simp add: word_less_nat_alt)
        moreover have "offset + got \<le> data_length" using prog by (simp add: word_le_nat_alt)
        ultimately obtain failure c' scratch' evs where ih:
          "send_object_loop send read command data_length capacity c2 ?s (offset + got) = Some (failure, c', scratch')"
          "length scratch' = length ?s" "log c' = log c2 @ evs"
          "object_transfer (unat capacity) (unat data_length) (unat (offset + got)) failure evs"
          using less.hyps [of "offset + got" ?s c2] less.prems(1) len by auto
        have rest: "object_transfer (unat capacity) (unat data_length) (unat offset + length ?b) failure evs"
          using ih(4) by (simp only: prog(1) b(1))
        have "object_transfer (unat capacity) (unat data_length) (unat offset) failure
            (Filled ?wanted got bs # Sent ?b offset data_length True # evs)"
          using rest wanted more g(2) b(2) by (simp del: take_append length_take)
        with step sent ih(1-3) log2 len show ?thesis by auto
      qed
    qed
  qed
qed

end

subsection \<open>Handle lists\<close>

lemma put_le32_writes:
  assumes "at + 4 \<le> length out"
  shows "put_le32 out at v = Some (take at out @ le32 v @ drop (at + 4) out)"
proof -
  have four: "Suc (Suc (Suc (Suc 0))) \<le> length ys \<Longrightarrow> \<exists>a b c d rest. ys = a # b # c # d # rest" for ys :: "u8 list"
    by (auto simp: Suc_le_length_iff)
  have "Suc (Suc (Suc (Suc 0))) \<le> length (drop at out)" using assms by simp
  from four [OF this] obtain a b c d rest where "drop at out = a # b # c # d # rest" by blast
  then have out: "out = take at out @ a # b # c # d # rest"
    by (metis append_take_drop_id)
  define xs where "xs = take at out"
  have at: "length xs = at" using assms by (simp add: xs_def)
  have "out = xs @ a # b # c # d # rest" using out by (simp add: xs_def)
  then show ?thesis
    using at by (auto simp: put_le32_def le32_bytes list_update_append)
qed

definition handles_transfer ::
    "nat \<Rightarrow> u32 \<Rightarrow> u8 list \<Rightarrow> nat \<Rightarrow> u8 list \<Rightarrow> u32 \<Rightarrow> u32 \<Rightarrow> bool \<Rightarrow> event list \<Rightarrow> bool" where
  "handles_transfer tot capacity pending off scratch' off' used' failed evs \<longleftrightarrow>
     (\<forall>ev \<in> set evs. transfer ev) \<and> fills evs = [] \<and> chunks tot off (sends evs) \<and>
     (failed \<longrightarrow> refused (sends evs) \<and> (\<exists>rest. stream (sends evs) @ rest = pending)) \<and>
     (\<not> failed \<longrightarrow> accepted_all (sends evs) \<and> unat off' = off + length (stream (sends evs)) \<and>
        4 \<le> unat used' \<and> unat used' \<le> unat capacity \<and>
        stream (sends evs) @ take (unat used') scratch' = pending)"

context observed_transport
begin

lemma handles_loop_observed:
  assumes "t_send_data t = Some send" and "unat capacity \<le> length scratch" and "4 \<le> unat used"
    and "unat used \<le> unat capacity"
    and "unat offset + unat used + 4 * length hs = unat (r_data_length result)"
    and "hs = map e_handle (filter (child_matches (r_parent result) (r_format result)) es)"
  shows "\<exists>c' scratch' off' used' found' failed evs.
    send_handles_loop send command result capacity es c scratch offset used found =
      Some (c', scratch', off', used', found', failed) \<and>
    length scratch' = length scratch \<and> log c' = log c @ evs \<and>
    (\<not> failed \<longrightarrow> found' = found + of_nat (length hs)) \<and>
    handles_transfer (unat (r_data_length result)) capacity
      (take (unat used) scratch @ concat (map le32 hs)) (unat offset) scratch' off' used' failed evs"
  using assms(2-)
proof (induction es arbitrary: c scratch offset used found hs)
  case Nil
  then show ?case by (auto simp: handles_transfer_def intro!: exI [of _ "[]"])
next
  case (Cons e es)
  show ?case
  proof (cases "child_matches (r_parent result) (r_format result) e")
    case False
    with Cons show ?thesis by simp
  next
    case True
    let ?tl = "map e_handle (filter (child_matches (r_parent result) (r_format result)) es)"
    have hs: "hs = e_handle e # ?tl" using True Cons.prems(5) by simp
    have diff: "unat (capacity - used) = unat capacity - unat used"
      using Cons.prems(3) by (intro unat_diff_le) (simp add: word_le_nat_alt)
    show ?thesis
    proof (cases "capacity - used < 4")
      case room: False
      then have u4: "unat used + 4 \<le> unat capacity"
        using diff Cons.prems(3) by (simp add: word_less_nat_alt)
      then have used4: "unat (used + 4) = unat used + 4"
        using unat_u32_less [of capacity] by (subst unat_add_bounded) simp_all
      let ?s = "take (unat used) scratch @ le32 (e_handle e) @ drop (unat used + 4) scratch"
      have put: "put_le32 scratch (unat used) (e_handle e) = Some ?s"
        using u4 Cons.prems(1) by (intro put_le32_writes) simp
      have len: "length ?s = length scratch" using u4 Cons.prems(1) by simp
      have taken: "take (unat used + 4) ?s = take (unat used) scratch @ le32 (e_handle e)"
        using u4 Cons.prems(1) by simp
      have run: "send_handles_loop send command result capacity (e # es) c scratch offset used found =
          send_handles_loop send command result capacity es c ?s offset (used + 4) (found + 1)"
        using True room put by simp
      have pre: "unat capacity \<le> length ?s" "4 \<le> unat (used + 4)" "unat (used + 4) \<le> unat capacity"
          "unat offset + unat (used + 4) + 4 * length ?tl = unat (r_data_length result)"
        using Cons.prems(1,4) u4 used4 hs len by auto
      obtain c' scratch' off' used' found' failed evs where ih:
        "send_handles_loop send command result capacity es c ?s offset (used + 4) (found + 1) =
          Some (c', scratch', off', used', found', failed)"
        "length scratch' = length scratch" "log c' = log c @ evs"
        "\<not> failed \<longrightarrow> found' = found + 1 + of_nat (length ?tl)"
        "handles_transfer (unat (r_data_length result)) capacity
          (take (unat (used + 4)) ?s @ concat (map le32 ?tl)) (unat offset) scratch' off' used' failed evs"
        using Cons.IH [OF pre refl, of c "found + 1"] unfolding len by blast
      have "take (unat (used + 4)) ?s @ concat (map le32 ?tl) = take (unat used) scratch @ concat (map le32 hs)"
        unfolding used4 taken hs by simp
      then have "handles_transfer (unat (r_data_length result)) capacity
          (take (unat used) scratch @ concat (map le32 hs)) (unat offset) scratch' off' used' failed evs"
        using ih(5) by (simp only:)
      moreover have "\<not> failed \<longrightarrow> found' = found + of_nat (length hs)"
        using ih(4) hs by simp
      ultimately show ?thesis
        unfolding run ih(1) using ih(2,3) by blast
    next
      case flush: True
      let ?b = "take (unat used) scratch"
      have lb: "length ?b = unat used" "?b \<noteq> []" using Cons.prems(1-3) by auto
      have pass: "pass scratch used = Some ?b" using Cons.prems(1,3) by (simp add: pass_def)
      obtain st c1 where send: "send c command ?b offset (r_data_length result) = (st, c1)" by fastforce
      have log1: "log c1 = log c @ [Sent ?b offset (r_data_length result) (\<not> sint st < 0)]"
        using log_sent [OF assms(1) send] .
      show ?thesis
      proof (cases "sint st < 0")
        case refused: True
        then have run: "send_handles_loop send command result capacity (e # es) c scratch offset used found =
            Some (c1, scratch, offset, used, found, True)"
          using True flush pass send by simp
        have "handles_transfer (unat (r_data_length result)) capacity
            (?b @ concat (map le32 hs)) (unat offset) scratch offset used True
            [Sent ?b offset (r_data_length result) (\<not> sint st < 0)]"
          using Cons.prems(4) lb refused by (simp add: handles_transfer_def)
        with run log1 show ?thesis by blast
      next
        case sent: False
        have off: "unat (offset + used) = unat offset + unat used"
          using Cons.prems(4) unat_u32_less [of "r_data_length result"] by (intro unat_add_bounded) simp
        let ?s = "le32 (e_handle e) @ drop 4 scratch"
        have put: "put_le32 scratch 0 (e_handle e) = Some ?s"
          using put_le32_writes [of 0 scratch "e_handle e"] Cons.prems(1-3) by simp
        have len: "length ?s = length scratch" using Cons.prems(1-3) by simp
        have run: "send_handles_loop send command result capacity (e # es) c scratch offset used found =
            send_handles_loop send command result capacity es c1 ?s (offset + used) 4 (found + 1)"
          using True flush pass send sent put by simp
        have pre: "unat capacity \<le> length ?s" "4 \<le> unat (4 :: u32)" "unat (4 :: u32) \<le> unat capacity"
            "unat (offset + used) + unat (4 :: u32) + 4 * length ?tl = unat (r_data_length result)"
          using Cons.prems(1-4) off len hs by auto
        obtain c' scratch' off' used' found' failed evs where ih:
          "send_handles_loop send command result capacity es c1 ?s (offset + used) 4 (found + 1) =
            Some (c', scratch', off', used', found', failed)"
          "length scratch' = length scratch" "log c' = log c1 @ evs"
          "\<not> failed \<longrightarrow> found' = found + 1 + of_nat (length ?tl)"
          "handles_transfer (unat (r_data_length result)) capacity
            (take (unat (4 :: u32)) ?s @ concat (map le32 ?tl)) (unat (offset + used)) scratch' off' used' failed evs"
          using Cons.IH [OF pre refl, of c1 "found + 1"] unfolding len by blast
        have "handles_transfer (unat (r_data_length result)) capacity
            (?b @ concat (map le32 hs)) (unat offset) scratch' off' used' failed
            (Sent ?b offset (r_data_length result) True # evs)"
          using ih(5) Cons.prems(4) lb off hs by (auto simp: handles_transfer_def)
        moreover have "\<not> failed \<longrightarrow> found' = found + of_nat (length hs)"
          using ih(4) hs by simp
        moreover have "log c' = log c @ Sent ?b offset (r_data_length result) True # evs"
          using ih(3) log1 sent by simp
        ultimately show ?thesis
          unfolding run ih(1) using ih(2) by blast
      qed
    qed
  qed
qed

end

subsection \<open>The data phase of each kind of reply\<close>

text \<open>
  What the caller of the engine provides: the callbacks for objects, a buffer of some size for them,
  and the callback and buffer for thumbnails.
\<close>

record service =
  can_objects :: bool
  object_room :: nat
  can_thumbs :: bool

definition offers :: "'c VcmMtpTransport \<Rightarrow> u32 \<Rightarrow> u8 list option \<Rightarrow> u32 \<Rightarrow> service" where
  "offers t capacity thumb thumb_capacity =
     \<lparr>can_objects = (t_open_object t \<noteq> None \<and> t_read_object t \<noteq> None \<and> t_close_object t \<noteq> None),
      object_room = unat capacity,
      can_thumbs = (t_read_thumb t \<noteq> None \<and> thumb \<noteq> None \<and> thumb_capacity \<noteq> 0)\<rparr>"

lemma offers_traced [simp]: "offers (traced t) capacity thumb thumb_capacity = offers t capacity thumb thumb_capacity"
  by (simp add: offers_def traced_def)

text \<open>
  The events of a complete data phase, and of one that ended in an error. An error has a cause that
  the events show: the last data was refused, an object could not be opened or read, no thumbnail was
  produced, or the caller does not provide what is needed. The data sent until then is the beginning
  of the data of the reply.
\<close>

definition handle_list :: "u32 list \<Rightarrow> u8 list" where
  "handle_list hs = le32 (of_nat (length hs)) @ concat (map le32 hs)"

fun delivered :: "service \<Rightarrow> mtp_data \<Rightarrow> event list \<Rightarrow> bool" where
  "delivered s No_Data evs \<longleftrightarrow> evs = []"
| "delivered s (Dataset D) evs \<longleftrightarrow> evs = [Sent D 0 (of_nat (length D)) True]"
| "delivered s (Handles p f hs) evs \<longleftrightarrow>
     (\<forall>ev \<in> set evs. transfer ev) \<and> fills evs = [] \<and> accepted_all (sends evs) \<and>
     chunks (4 + 4 * length hs) 0 (sends evs) \<and> stream (sends evs) = handle_list hs"
| "delivered s (Object e) evs \<longleftrightarrow> can_objects s \<and>
     (\<exists>mid. evs = Opened e True # mid @ [Closed] \<and> object_transfer (object_room s) (unat (e_size e)) 0 0 mid)"
| "delivered s (Thumb e) evs \<longleftrightarrow> can_thumbs s \<and>
     (\<exists>got bs b. evs = [Thumbed e got bs, Sent b 0 got True] \<and> taken_from bs got b)"

fun interrupted :: "service \<Rightarrow> mtp_data \<Rightarrow> event list \<Rightarrow> bool" where
  "interrupted s No_Data evs \<longleftrightarrow> False"
| "interrupted s (Dataset D) evs \<longleftrightarrow> evs = [Sent D 0 (of_nat (length D)) False]"
| "interrupted s (Handles p f hs) evs \<longleftrightarrow>
     (\<forall>ev \<in> set evs. transfer ev) \<and> fills evs = [] \<and> refused (sends evs) \<and>
     chunks (4 + 4 * length hs) 0 (sends evs) \<and> (\<exists>rest. stream (sends evs) @ rest = handle_list hs)"
| "interrupted s (Object e) evs \<longleftrightarrow>
     (if can_objects s
      then evs = [Opened e False] \<or>
        (\<exists>mid. evs = Opened e True # mid @ [Closed] \<and> object_transfer (object_room s) (unat (e_size e)) 0 (- 1) mid)
      else evs = [])"
| "interrupted s (Thumb e) evs \<longleftrightarrow>
     (if can_thumbs s
      then (\<exists>got bs. evs = [Thumbed e got bs] \<and> sint got \<le> 0) \<or>
        (\<exists>got bs b. evs = [Thumbed e got bs, Sent b 0 got False] \<and> taken_from bs got b)
      else evs = [])"

definition phase_done :: "service \<Rightarrow> mtp_data \<Rightarrow> c_int \<Rightarrow> event list \<Rightarrow> bool" where
  "phase_done s data st evs \<longleftrightarrow> (if sint st < 0 then interrupted s data evs else delivered s data evs)"

lemma sint_minus_one [simp]: "sint (- 1 :: 32 word) = - 1"
  by simp

context observed_transport
begin

lemma memory_phase_observed:
  assumes "t_send_data t = Some send" and "unat (r_data_length r) = length D" and "take (length D) buf = D"
    and "length D \<le> length buf"
  shows "\<exists>st c' evs. (do { bs \<leftarrow> pass buf (r_data_length r);
      let (st, c) = send c command bs 0 (r_data_length r); Some (st, c, buf, thumb) }) =
      Some (st, c', buf, thumb) \<and> log c' = log c @ evs \<and> phase_done s (Dataset D) st evs"
proof -
  have len: "r_data_length r = of_nat (length D)" by (simp flip: assms(2))
  obtain st c1 where send: "send c command D 0 (of_nat (length D)) = (st, c1)" by fastforce
  have "pass buf (r_data_length r) = Some D" using assms(2-4) by (simp add: pass_def)
  then show ?thesis
    using log_sent [OF assms(1) send] send len by (simp add: phase_done_def)
qed

lemma handles_phase_observed:
  assumes "t_send_data t = Some send" and "s_catalog server = Some c0" and "catalog_wf c0"
    and "unat capacity \<le> length scratch" and "4096 \<le> capacity"
    and hs: "hs = map e_handle (children c0 (r_parent r) (r_format r))"
    and dl: "unat (r_data_length r) = 4 + 4 * length hs"
  shows "\<exists>st c' scratch' evs. send_handles send server command r c scratch capacity = Some (st, c', scratch') \<and>
    length scratch' = length scratch \<and> log c' = log c @ evs \<and>
    phase_done s (Handles (r_parent r) (r_format r) hs) st evs"
proof -
  let ?expected = "(r_data_length r - 4) div 4"
  have expected: "?expected = of_nat (length hs)"
  proof -
    have "unat (r_data_length r - 4) = 4 * length hs"
      using dl by (subst unat_diff_le) (simp_all add: word_le_nat_alt)
    then have e: "unat ?expected = length hs" by (simp add: unat_div)
    show ?thesis unfolding e [symmetric] by (rule word_unat_eq_iff [THEN iffD2]) simp
  qed
  obtain es where es: "c_entries c0 = Some es" "unat (c_count c0) \<le> length es" "3 \<le> c_count c0"
    using assms(3) by (auto simp: catalog_wf_def word_le_nat_alt)
  have count: "c_count c0 \<noteq> 0" using es(3) by auto
  have cap: "4096 \<le> unat capacity" using assms(5) by (simp add: word_le_nat_alt)
  let ?s = "le32 (of_nat (length hs)) @ drop 4 scratch"
  have put: "put_le32 scratch 0 (of_nat (length hs)) = Some ?s"
    using put_le32_writes [of 0 scratch] cap assms(4) by simp
  have pre: "unat capacity \<le> length ?s" "4 \<le> unat (4 :: u32)" "unat (4 :: u32) \<le> unat capacity"
      "unat (0 :: u32) + unat (4 :: u32) + 4 * length hs = unat (r_data_length r)"
      "hs = map e_handle (filter (child_matches (r_parent r) (r_format r)) (take (unat (c_count c0)) es))"
    using cap assms(4) dl hs es(1) by (simp_all add: children_def)
  obtain c1 scratch' off' used' found' failed evs where loop:
    "send_handles_loop send command r capacity (take (unat (c_count c0)) es) c ?s 0 4 0 =
      Some (c1, scratch', off', used', found', failed)"
    "length scratch' = length ?s" "log c1 = log c @ evs"
    "\<not> failed \<longrightarrow> found' = 0 + of_nat (length hs)"
    "handles_transfer (unat (r_data_length r)) capacity (take (unat (4 :: u32)) ?s @ concat (map le32 hs))
      (unat (0 :: u32)) scratch' off' used' failed evs"
    using handles_loop_observed [OF assms(1) pre, of command c 0] by blast
  have len: "length scratch' = length scratch" using loop(2) cap assms(4) by simp
  show ?thesis
  proof (cases failed)
    case True
    then have "send_handles send server command r c scratch capacity = Some (- 1, c1, scratch')"
      using assms(2) es count put loop(1) expected by (simp add: send_handles_def Let_def)
    moreover have "phase_done s (Handles (r_parent r) (r_format r) hs) (- 1) evs"
      using loop(5) dl True by (auto simp: phase_done_def handles_transfer_def handle_list_def)
    ultimately show ?thesis using loop(3) len by blast
  next
    case False
    let ?b = "take (unat used') scratch'"
    have tr: "\<forall>ev \<in> set evs. transfer ev" "fills evs = []" "chunks (4 + 4 * length hs) 0 (sends evs)"
      "accepted_all (sends evs)" "unat off' = length (stream (sends evs))"
      "4 \<le> unat used'" "unat used' \<le> unat capacity"
      "stream (sends evs) @ ?b = le32 (of_nat (length hs)) @ concat (map le32 hs)"
      using loop(5) False dl by (auto simp: handles_transfer_def)
    have b: "length ?b = unat used'" "?b \<noteq> []" using tr(6,7) len assms(4) by auto
    have sum: "length (stream (sends evs)) + length ?b = 4 + 4 * length hs"
      using arg_cong [OF tr(8), of length] by simp
    obtain st c2 where send: "send c1 command ?b off' (r_data_length r) = (st, c2)" by fastforce
    have pass: "pass scratch' used' = Some ?b" using tr(7) len assms(4) by (simp add: pass_def)
    have run: "send_handles send server command r c scratch capacity = Some (st, c2, scratch')"
      using assms(2) es count put loop(1,4) expected False pass send by (simp add: send_handles_def Let_def)
    let ?evs = "evs @ [Sent ?b off' (r_data_length r) (\<not> sint st < 0)]"
    have "log c2 = log c @ ?evs" using log_sent [OF assms(1) send] loop(3) by simp
    moreover have "chunks (4 + 4 * length hs) 0 (sends ?evs)"
      using tr(3,4,5) b(2) sum dl by (simp add: chunks_append)
    ultimately have "phase_done s (Handles (r_parent r) (r_format r) hs) st ?evs"
      using tr(1,2,4,8) by (auto simp: phase_done_def handle_list_def)
    with run len \<open>log c2 = log c @ ?evs\<close> show ?thesis by blast
  qed
qed

lemma object_phase_observed:
  assumes "t_send_data t = Some send" and "polite t" and "s_catalog server = Some c0" and "catalog_wf c0"
    and "unat capacity \<le> length scratch"
    and "lookup c0 (r_object_handle r) = Some e" and "unat (r_data_length r) = unat (e_size e)"
  shows "\<exists>st c' scratch' evs. send_object t send server command r c scratch capacity = Some (st, c', scratch') \<and>
    length scratch' = length scratch \<and> log c' = log c @ evs \<and> phase_done (offers t capacity thumb thumb_capacity) (Object e) st evs"
proof (cases "t_open_object t = None \<or> t_read_object t = None \<or> t_close_object t = None")
  case True
  then have "send_object t send server command r c scratch capacity = Some (- 1, c, scratch)"
    using assms(3,6) by (auto simp: send_object_def catalog_get_lookup [OF assms(4)] split: option.splits)
  then show ?thesis using True by (auto simp: phase_done_def offers_def intro!: exI [of _ "[]"])
next
  case False
  then obtain open1 read close where cb: "t_open_object t = Some open1" "t_read_object t = Some read"
    "t_close_object t = Some close" by auto
  obtain st c1 where op: "open1 c e = (st, c1)" by fastforce
  note log1 = log_opened [OF cb(1) op]
  show ?thesis
  proof (cases "sint st < 0")
    case True
    then have "send_object t send server command r c scratch capacity = Some (- 1, c1, scratch)"
      using assms(3,6) cb op by (simp add: send_object_def catalog_get_lookup [OF assms(4)])
    moreover have "phase_done (offers t capacity thumb thumb_capacity) (Object e) (- 1) [Opened e (\<not> sint st < 0)]"
      using True cb by (simp add: phase_done_def offers_def)
    ultimately show ?thesis using log1 by blast
  next
    case False
    obtain failure c2 scratch' mid where loop:
      "send_object_loop send read command (r_data_length r) capacity c1 scratch 0 = Some (failure, c2, scratch')"
      "length scratch' = length scratch" "log c2 = log c1 @ mid"
      "object_transfer (unat capacity) (unat (r_data_length r)) (unat (0 :: u32)) failure mid"
      using object_loop_observed [OF assms(1) cb(2) assms(2,5), of 0 "r_data_length r" command c1] by auto
    have run: "send_object t send server command r c scratch capacity = Some (failure, close c2, scratch')"
      using assms(3,6) cb op False loop(1) by (simp add: send_object_def catalog_get_lookup [OF assms(4)])
    have "log (close c2) = log c @ Opened e True # mid @ [Closed]"
      using log_closed [OF cb(3), of c2] loop(3) log1 False by simp
    moreover have "phase_done (offers t capacity thumb thumb_capacity) (Object e) failure (Opened e True # mid @ [Closed])"
    proof -
      have "failure = 0 \<or> failure = - 1" using object_transfer_facts [OF loop(4)] by simp
      then show ?thesis
        using loop(4) assms(7) cb by (elim disjE) (simp_all add: phase_done_def offers_def)
    qed
    ultimately show ?thesis using run loop(2) by blast
  qed
qed

lemma thumb_phase_observed:
  assumes "t_send_data t = Some send" and "polite t" and "s_catalog server = Some c0" and "catalog_wf c0"
    and "lookup c0 (r_object_handle r) = Some e"
    and "\<forall>buf. thumb = Some buf \<longrightarrow> unat thumb_capacity \<le> length buf"
  shows "\<exists>st c' thumb' evs.
    send_thumb t send server command r c thumb thumb_capacity = Some (st, c', thumb') \<and>
    log c' = log c @ evs \<and> phase_done (offers t capacity thumb thumb_capacity) (Thumb e) st evs"
proof (cases "t_read_thumb t = None \<or> thumb = None \<or> thumb_capacity = 0")
  case True
  then have "send_thumb t send server command r c thumb thumb_capacity = Some (- 1, c, thumb)"
    using assms(3,5) by (auto simp: send_thumb_def catalog_get_lookup [OF assms(4)] split: option.splits)
  then show ?thesis using True by (auto simp: phase_done_def offers_def intro!: exI [of _ "[]"])
next
  case False
  then obtain read buf where cb: "t_read_thumb t = Some read" "thumb = Some buf" "thumb_capacity \<noteq> 0" by auto
  obtain got bs c1 where rd: "read c e thumb_capacity = (got, bs, c1)" by (cases "read c e thumb_capacity") auto
  note log1 = log_thumbed [OF cb(1) rd] and contract = polite_thumb [OF assms(2) cb(1) rd]
  have cap: "unat thumb_capacity \<le> length buf" using assms(6) cb(2) by simp
  let ?buf = "bs @ drop (length bs) buf"
  have fill: "fill buf bs = Some ?buf" "length ?buf = length buf" using contract cap by (simp_all add: fill_def)
  show ?thesis
  proof (cases "sint got > 0")
    case no: False
    then have "send_thumb t send server command r c thumb thumb_capacity = Some (- 1, c1, Some ?buf)"
      using assms(3,5) cb rd fill(1) by (simp add: send_thumb_def catalog_get_lookup [OF assms(4)])
    moreover have "phase_done (offers t capacity thumb thumb_capacity) (Thumb e) (- 1) [Thumbed e got bs]"
      using no cb by (simp add: phase_done_def offers_def)
    ultimately show ?thesis using log1 by blast
  next
    case True
    let ?b = "take (unat got) ?buf"
    have g: "unat got \<le> length ?buf" using contract True cap fill(2) by simp
    have b: "taken_from bs got ?b" using g True by (intro taken_from_fill)
    have pass: "pass ?buf got = Some ?b" using g by (simp add: pass_def)
    obtain st c2 where send: "send c1 command ?b 0 got = (st, c2)" by fastforce
    have run: "send_thumb t send server command r c thumb thumb_capacity = Some (st, c2, Some ?buf)"
      using assms(3,5) cb rd fill(1) True pass send
      by (simp add: send_thumb_def catalog_get_lookup [OF assms(4)])
    have "phase_done (offers t capacity thumb thumb_capacity) (Thumb e) st [Thumbed e got bs, Sent ?b 0 got (\<not> sint st < 0)]"
      using b cb by (auto simp: phase_done_def offers_def simp del: take_append)
    moreover have "log c2 = log c @ [Thumbed e got bs, Sent ?b 0 got (\<not> sint st < 0)]"
      using log_sent [OF assms(1) send] log1 by simp
    ultimately show ?thesis using run by blast
  qed
qed

end

subsection \<open>A whole run\<close>

text \<open>The data a responder names are those of its catalogue.\<close>

fun data_ok :: "VcmMtpCatalog \<Rightarrow> mtp_data \<Rightarrow> bool" where
  "data_ok c (Handles p f hs) \<longleftrightarrow> hs = map e_handle (children c p f)"
| "data_ok c (Object e) \<longleftrightarrow> lookup c (e_handle e) = Some e"
| "data_ok c (Thumb e) \<longleftrightarrow> lookup c (e_handle e) = Some e"
| "data_ok c _ \<longleftrightarrow> True"

lemma respond_object_data:
  assumes "respond_object session code (lookup c h) = (session', rc, rps, data)"
  shows "data_ok c data \<and> (rc \<noteq> MTP_OK \<longrightarrow> data = No_Data)"
proof (cases "lookup c h")
  case None
  with assms show ?thesis by (auto simp: respond_object_def)
next
  case (Some e)
  with lookup_SomeD(2) [OF Some] assms show ?thesis by (auto simp: respond_object_def split: if_splits)
qed

lemma respond_handles_data:
  assumes "respond_handles c session code ps = (session', rc, rps, data)"
  shows "data_ok c data \<and> (rc \<noteq> MTP_OK \<longrightarrow> data = No_Data)"
  using assms by (auto simp: respond_handles_def Let_def split: if_splits)

lemma respond_data:
  assumes "respond c cap free session code ps = Some (session', rc, rps, data)"
  shows "data_ok c data \<and> (rc \<noteq> MTP_OK \<longrightarrow> data = No_Data)"
  using assms
  by (auto simp: respond_def respond_in_session_def respond_object_data respond_handles_data
      dest: respond_object_data respond_handles_data split: if_splits option.splits)

definition outcome ::
    "service \<Rightarrow> VcmMtpCatalog \<Rightarrow> VcmMtpServer \<Rightarrow> VcmMtpCommand \<Rightarrow> VcmMtpServer \<Rightarrow> event list \<Rightarrow> VcmMtpCommand \<Rightarrow> bool" where
  "outcome s c server command server' evs response \<longleftrightarrow>
     (case respond c (s_storage_capacity server) (s_storage_free server) (s_session server)
         (m_code command) (params_of command) of
        None \<Rightarrow> server' = server \<and> evs = [] \<and>
          response = command\<lparr>m_code := MTP_GENERAL_ERROR, m_param_count := 0\<rparr>
      | Some (session, code, rps, data) \<Rightarrow>
          server' = server\<lparr>s_session := session\<rparr> \<and>
          (response = response_record command code rps \<and>
             (if code = MTP_OK then delivered s data evs else evs = []) \<or>
           code = MTP_OK \<and> response = response_record command MTP_GENERAL_ERROR rps \<and> interrupted s data evs))"

context observed_transport
begin

lemma phase_observed:
  assumes "t_send_data t = Some send" and "polite t" and "s_catalog server = Some c0" and "catalog_wf c0"
    and "unat capacity \<le> length scratch" and "4096 \<le> capacity"
    and "\<forall>buf. thumb = Some buf \<longrightarrow> unat thumb_capacity \<le> length buf"
    and "describes data r scratch" and "data_ok c0 data"
  shows "\<exists>st c' scratch' thumb' evs.
    send_phase t send server command r c scratch capacity thumb thumb_capacity = Some (st, c', scratch', thumb') \<and>
    length scratch' = length scratch \<and> log c' = log c @ evs \<and> phase_done (offers t capacity thumb thumb_capacity) data st evs"
proof (cases data)
  case No_Data
  then show ?thesis using assms(8) by (auto simp: send_phase_def phase_done_def intro!: exI [of _ "[]"])
next
  case (Dataset D)
  then have d: "r_data_kind r = VCM_MTP_DATA_MEMORY" "unat (r_data_length r) = length D" "take (length D) scratch = D"
    using assms(8) by auto
  then have "length D \<le> length scratch" by (metis length_take min.cobounded1)
  from memory_phase_observed [OF assms(1) d(2,3) this, where c = c and command = command and thumb = thumb
      and s = "offers t capacity thumb thumb_capacity"] Dataset d(1)
  show ?thesis by (auto simp: send_phase_def)
next
  case (Handles p f hs)
  then have d: "r_data_kind r = VCM_MTP_DATA_HANDLES" "unat (r_data_length r) = 4 + 4 * length hs"
    "r_parent r = p" "r_format r = f" "hs = map e_handle (children c0 (r_parent r) (r_format r))"
    using assms(8,9) by auto
  from handles_phase_observed [OF assms(1,3-6) d(5,2), of command c] obtain st c' scratch' evs where
    "send_handles send server command r c scratch capacity = Some (st, c', scratch')"
    "length scratch' = length scratch" "log c' = log c @ evs" "phase_done (offers t capacity thumb thumb_capacity) data st evs"
    using Handles d(3,4) by blast
  then show ?thesis using d(1) by (auto simp: send_phase_def)
next
  case (Object e)
  then have d: "r_data_kind r = VCM_MTP_DATA_OBJECT" "unat (r_data_length r) = unat (e_size e)"
    "lookup c0 (r_object_handle r) = Some e"
    using assms(8,9) by auto
  from object_phase_observed [OF assms(1-5) d(3,2), of command c] obtain st c' scratch' evs where
    "send_object t send server command r c scratch capacity = Some (st, c', scratch')"
    "length scratch' = length scratch" "log c' = log c @ evs" "phase_done (offers t capacity thumb thumb_capacity) data st evs"
    using Object by blast
  then show ?thesis using d(1) by (auto simp: send_phase_def)
next
  case (Thumb e)
  then have d: "r_data_kind r = VCM_MTP_DATA_THUMB" "lookup c0 (r_object_handle r) = Some e"
    using assms(8,9) by auto
  from thumb_phase_observed [OF assms(1-4) d(2) assms(7), of command c] obtain st c' thumb' evs where
    "send_thumb t send server command r c thumb thumb_capacity = Some (st, c', thumb')"
    "log c' = log c @ evs" "phase_done (offers t capacity thumb thumb_capacity) data st evs"
    using Thumb by blast
  then show ?thesis using d(1) by (auto simp: send_phase_def)
qed

lemma engine_observed:
  assumes "t_send_data t = Some send" and "t_send_response t = Some answer" and "polite t"
    and "s_catalog server = Some c0" and "catalog_wf c0" and "command_ok command"
    and "unat capacity \<le> length scratch" and "4096 \<le> capacity"
    and "\<forall>buf. thumb = Some buf \<longrightarrow> unat thumb_capacity \<le> length buf"
  shows "\<exists>ret server' c' scratch' thumb' evs response.
    vcm_mtp_engine_run server command t c (Some scratch) capacity thumb thumb_capacity uninit =
      Some (ret, server', c', Some scratch', thumb') \<and>
    length scratch' = length scratch \<and> log c' = log c @ evs @ [Responded response] \<and>
    outcome (offers t capacity thumb thumb_capacity) c0 server command server' evs response"
proof (cases "respond c0 (s_storage_capacity server) (s_storage_free server) (s_session server)
    (m_code command) (params_of command)")
  case None
  let ?response = "command\<lparr>m_code := MTP_GENERAL_ERROR, m_param_count := 0\<rparr>"
  obtain ret c1 where ans: "answer c ?response = (ret, c1)" by fastforce
  have "vcm_mtp_engine_run server command t c (Some scratch) capacity thumb thumb_capacity uninit =
      Some (ret, server, c1, Some scratch, thumb)"
    using assms(1,2) assms(8) [folded not_less] ans
      execute_gives_up [OF assms(4,6) None, of uninit "Some scratch" capacity]
    by (simp add: vcm_mtp_engine_run_def)
  moreover have "outcome (offers t capacity thumb thumb_capacity) c0 server command server [] ?response" using None by (simp add: outcome_def)
  ultimately show ?thesis using log_responded [OF assms(2) ans] by fastforce
next
  case (Some reply)
  obtain session code rps data where reply: "reply = (session, code, rps, data)" by (cases reply)
  obtain r scratch1 where ex: "vcm_mtp_server_execute server command uninit (Some scratch) capacity =
      Some (0, server\<lparr>s_session := session\<rparr>, r, Some scratch1)" "length scratch1 = length scratch"
      "r_response r = response_record command code rps" "describes data r scratch1"
    using execute_answers [OF assms(4-8) Some, of uninit] reply by (auto simp: answers_def)
  note data = respond_data [OF Some [unfolded reply]]
  let ?server = "server\<lparr>s_session := session\<rparr>"
  show ?thesis
  proof (cases "code = MTP_OK")
    case False
    obtain ret c1 where ans: "answer c (r_response r) = (ret, c1)" by fastforce
    have "vcm_mtp_engine_run server command t c (Some scratch) capacity thumb thumb_capacity uninit =
        Some (ret, ?server, c1, Some scratch1, thumb)"
      using assms(1,2) assms(8) [folded not_less] ans ex False by (simp add: vcm_mtp_engine_run_def response_record_def)
    moreover have "outcome (offers t capacity thumb thumb_capacity) c0 server command ?server [] (r_response r)"
      using Some reply False ex(3) by (simp add: outcome_def)
    ultimately show ?thesis using log_responded [OF assms(2) ans] ex(2) by fastforce
  next
    case True
    have pre: "s_catalog ?server = Some c0" "unat capacity \<le> length scratch1"
      using assms(4,7) ex(2) by simp_all
    obtain st c1 scratch2 thumb2 evs where phase:
      "send_phase t send ?server command r c scratch1 capacity thumb thumb_capacity = Some (st, c1, scratch2, thumb2)"
      "length scratch2 = length scratch1" "log c1 = log c @ evs" "phase_done (offers t capacity thumb thumb_capacity) data st evs"
      using phase_observed [OF assms(1,3) pre(1) assms(5) pre(2) assms(8,9) ex(4) data [THEN conjunct1], of command c]
      by blast
    let ?r = "if sint st < 0 then with_code r MTP_GENERAL_ERROR else r"
    obtain ret c2 where ans: "answer c1 (r_response ?r) = (ret, c2)" by fastforce
    have "vcm_mtp_engine_run server command t c (Some scratch) capacity thumb thumb_capacity uninit =
        Some (ret, ?server, c2, Some scratch2, thumb2)"
      using assms(1,2) assms(8) [folded not_less] ans ex True phase(1) by (simp add: vcm_mtp_engine_run_def response_record_def)
    moreover have "outcome (offers t capacity thumb thumb_capacity) c0 server command ?server evs (r_response ?r)"
      using Some reply True ex(3) phase(4)
      by (auto simp: outcome_def phase_done_def with_code_def response_record_def)
    moreover have "log c2 = log c @ evs @ [Responded (r_response ?r)]"
      using log_responded [OF assms(2) ans] phase(3) by simp
    ultimately show ?thesis using phase(2) ex(2) by metis
  qed
qed

end

subsection \<open>Tracing does not interfere\<close>

definition tsend :: "'c send_fun \<Rightarrow> ('c \<times> event list) send_fun" where
  "tsend f = (\<lambda>(c, l) command bs off tot.
     let (st, c') = f c command bs off tot in (st, c', l @ [Sent bs off tot (\<not> sint st < 0)]))"

definition tread :: "('c \<Rightarrow> u32 \<Rightarrow> c_int \<times> u8 list \<times> 'c) \<Rightarrow>
    ('c \<times> event list) \<Rightarrow> u32 \<Rightarrow> c_int \<times> u8 list \<times> ('c \<times> event list)" where
  "tread f = (\<lambda>(c, l) wanted. let (got, bs, c') = f c wanted in (got, bs, c', l @ [Filled wanted got bs]))"

lemma traced_fields:
  "t_send_data (traced t) = map_option tsend (t_send_data t)"
  "t_read_object (traced t) = map_option tread (t_read_object t)"
  by (simp_all add: traced_def tsend_def [abs_def] tread_def [abs_def])

lemma tsend_eq: "tsend f (c, l) command bs off tot =
    (fst (f c command bs off tot), snd (f c command bs off tot),
     l @ [Sent bs off tot (\<not> sint (fst (f c command bs off tot)) < 0)])"
  by (simp add: tsend_def split: prod.split)

lemma tread_eq: "tread f (c, l) wanted =
    (fst (f c wanted), fst (snd (f c wanted)), snd (snd (f c wanted)),
     l @ [Filled wanted (fst (f c wanted)) (fst (snd (f c wanted)))])"
  by (simp add: tread_def split: prod.split)

lemma handles_loop_erased:
  "map_option (\<lambda>(x, rest). (fst x, rest))
      (send_handles_loop (tsend f) command result capacity es (c, l) scratch offset used found) =
    send_handles_loop f command result capacity es c scratch offset used found"
proof (induction es arbitrary: c l scratch offset used found)
  case Nil
  then show ?case by simp
next
  case (Cons e es)
  then show ?case
    by (cases "put_le32 scratch 0 (e_handle e)"; cases "put_le32 scratch (unat used) (e_handle e)";
        cases "pass scratch used") (simp_all add: tsend_eq Let_def split_beta)
qed

lemma object_loop_step:
  assumes "offset < data_length" and "w = (if data_length - offset > capacity then capacity else data_length - offset)"
    and "read c w = (got, bs, c1)"
  shows "send_object_loop send read command data_length capacity c scratch offset = do {
      scratch \<leftarrow> fill scratch bs;
      if sint got \<le> 0 \<or> got > w then Some (- 1, c1, scratch)
      else do {
        sent \<leftarrow> pass scratch got;
        let (st, c2) = send c1 command sent offset data_length;
        if sint st < 0 then Some (- 1, c2, scratch)
        else send_object_loop send read command data_length capacity c2 scratch (offset + got)
      }
    }"
  using assms(1,3) unfolding assms(2) by (subst send_object_loop.simps) (simp only: if_True Let_def prod.case)

lemma object_loop_erased:
  "map_option (\<lambda>(st, x, rest). (st, fst x, rest))
      (send_object_loop (tsend f) (tread g) command data_length capacity (c, l) scratch offset) =
    send_object_loop f g command data_length capacity c scratch offset"
proof (induction "unat data_length - unat offset" arbitrary: c l scratch offset rule: less_induct)
  case less
  show ?case
  proof (cases "offset < data_length")
    case False
    then show ?thesis by (subst (1 2) send_object_loop.simps) simp
  next
    case True
    define w where w: "w = (if data_length - offset > capacity then capacity else data_length - offset)"
    obtain got bs c1 where g: "g c w = (got, bs, c1)" by (cases "g c w") auto
    then have tg: "tread g (c, l) w = (got, bs, c1, l @ [Filled w got bs])" by (simp add: tread_def)
    note steps = object_loop_step [where read = g and c = c, OF True w g]
      object_loop_step [where read = "tread g" and c = "(c, l)", OF True w tg]
    show ?thesis
    proof (cases "sint got \<le> 0 \<or> got > w")
      case True
      then show ?thesis unfolding steps by (cases "fill scratch bs") simp_all
    next
      case ok: False
      then have m: "unat data_length - unat (offset + got) < unat data_length - unat offset"
        using object_measure [OF True, of got capacity] ok unfolding w by blast
      show ?thesis
      proof (cases "fill scratch bs \<bind> (\<lambda>s. pass s got)")
        case None
        then show ?thesis unfolding steps using ok
          by (cases "fill scratch bs") simp_all
      next
        case (Some sent)
        then obtain s1 where s1: "fill scratch bs = Some s1" "pass s1 got = Some sent"
          by (auto simp: bind_eq_Some_conv)
        obtain st c2 where send: "f c1 command sent offset data_length = (st, c2)" by fastforce
        show ?thesis
          unfolding steps using ok s1 send less.hyps [OF m] by (simp add: tsend_def)
      qed
    qed
  qed
qed

abbreviation (input) erase :: "('s \<times> ('c \<times> event list) \<times> 'b) option \<Rightarrow> ('s \<times> 'c \<times> 'b) option" where
  "erase m \<equiv> map_option (\<lambda>(st, x, rest). (st, fst x, rest)) m"

lemma send_handles_erased:
  "erase (send_handles (tsend f) server command result (c, l) scratch capacity) =
    send_handles f server command result c scratch capacity"
proof (cases "do {
    s0 \<leftarrow> put_le32 scratch 0 ((r_data_length result - 4) div 4);
    catalog \<leftarrow> s_catalog server;
    es \<leftarrow> (if c_count catalog = 0 then Some [] else c_entries catalog);
    Some (s0, catalog, es) }")
  case None
  then show ?thesis
    by (cases "put_le32 scratch 0 ((r_data_length result - 4) div 4)"; cases "s_catalog server";
        cases "c_entries (the (s_catalog server))")
      (auto simp: send_handles_def Let_def split: if_splits)
next
  case (Some pre)
  then obtain s0 catalog es where pre: "put_le32 scratch 0 ((r_data_length result - 4) div 4) = Some s0"
    "s_catalog server = Some catalog" "(if c_count catalog = 0 then Some [] else c_entries catalog) = Some es"
    by (auto simp: bind_eq_Some_conv)
  let ?es = "take (unat (c_count catalog)) es"
  note loop = handles_loop_erased [of f command result capacity ?es c l s0 0 4 0, symmetric]
  show ?thesis
  proof (cases "send_handles_loop (tsend f) command result capacity ?es (c, l) s0 0 4 0")
    case None
    then show ?thesis using pre loop by (simp add: send_handles_def Let_def)
  next
    case (Some r)
    then show ?thesis
      using pre loop
      by (cases r) (auto simp: send_handles_def Let_def tsend_eq split_beta split: bind_split)
  qed
qed

lemma send_object_erased:
  "erase (send_object (traced t) (tsend f) server command result (c, l) scratch capacity) =
    send_object t f server command result c scratch capacity"
proof (cases "vcm_mtp_catalog_get (s_catalog server) (r_object_handle result)")
  case None
  then show ?thesis by (simp add: send_object_def)
next
  case (Some found)
  show ?thesis
  proof (cases "found = None \<or> t_open_object t = None \<or> t_read_object t = None \<or> t_close_object t = None")
    case True
    then show ?thesis using Some
      by (auto simp: send_object_def traced_def split: option.splits)
  next
    case False
    then obtain e open1 read close where cb: "found = Some e" "t_open_object t = Some open1"
      "t_read_object t = Some read" "t_close_object t = Some close" by auto
    obtain st c1 where op: "open1 c e = (st, c1)" by fastforce
    let ?l = "l @ [Opened e (\<not> sint st < 0)]"
    have tcb: "t_open_object (traced t) = Some (\<lambda>(c, l) e. let (st, c') = open1 c e in (st, c', l @ [Opened e (\<not> sint st < 0)]))"
      "t_read_object (traced t) = Some (tread read)"
      "t_close_object (traced t) = Some (\<lambda>(c, l). (close c, l @ [Closed]))"
      using cb by (simp_all add: traced_def tread_def [abs_def])
    note loop = object_loop_erased [of f read command "r_data_length result" capacity c1 ?l scratch 0, symmetric]
    show ?thesis
      using Some cb op loop
      by (cases "send_object_loop (tsend f) (tread read) command (r_data_length result) capacity (c1, ?l) scratch 0")
        (auto simp: send_object_def tcb)
  qed
qed

lemma send_thumb_erased:
  "erase (send_thumb (traced t) (tsend f) server command result (c, l) thumb cap) =
    send_thumb t f server command result c thumb cap"
proof (cases "vcm_mtp_catalog_get (s_catalog server) (r_object_handle result)")
  case None
  then show ?thesis by (simp add: send_thumb_def)
next
  case (Some found)
  show ?thesis
  proof (cases "found = None \<or> t_read_thumb t = None \<or> thumb = None")
    case True
    then show ?thesis using Some by (auto simp: send_thumb_def traced_def split: option.splits)
  next
    case False
    then obtain e read buf where cb: "found = Some e" "t_read_thumb t = Some read" "thumb = Some buf" by auto
    obtain got bs c1 where rd: "read c e cap = (got, bs, c1)" by (cases "read c e cap") auto
    have tcb: "t_read_thumb (traced t) = Some (\<lambda>(c, l) e cap. let (got, bs, c') = read c e cap in (got, bs, c', l @ [Thumbed e got bs]))"
      using cb by (simp add: traced_def)
    show ?thesis
      using Some cb rd by (cases "fill buf bs")
        (auto simp: send_thumb_def tcb tsend_eq split_beta Let_def split: bind_split)
  qed
qed

lemma send_phase_erased:
  "erase (send_phase (traced t) (tsend f) server command result (c, l) scratch capacity thumb cap) =
    send_phase t f server command result c scratch capacity thumb cap"
  unfolding send_phase_def
  using send_handles_erased [of f server command result c l scratch capacity]
    send_object_erased [of t f server command result c l scratch capacity]
    send_thumb_erased [of t f server command result c l thumb cap]
  by (auto simp: tsend_eq split_beta map_option_case split: data_kind.split bind_split option.splits)


lemma engine_run_eq:
  assumes "t_send_data t = Some send" and "t_send_response t = Some answer" and "scratch = Some buf"
    and "\<not> capacity < 4096"
    and "vcm_mtp_server_execute server command uninit scratch capacity = Some (status, server1, r, Some buf1)"
  defines "r1 \<equiv> (if status < 0
      then r\<lparr>r_response := command\<lparr>m_code := MTP_GENERAL_ERROR, m_param_count := 0\<rparr>,
        r_data_kind := VCM_MTP_DATA_NONE\<rparr> else r)"
  shows "vcm_mtp_engine_run server command t c scratch capacity thumb cap uninit =
    (if m_code (r_response r1) = MTP_OK
     then (case send_phase t send server1 command r1 c buf1 capacity thumb cap of
         None \<Rightarrow> None
       | Some (sent, c1, b, th) \<Rightarrow>
           let (ret, c2) = answer c1 (r_response (if sint sent < 0 then with_code r1 MTP_GENERAL_ERROR else r1))
           in Some (ret, server1, c2, Some b, th))
     else let (ret, c2) = answer c (r_response r1) in Some (ret, server1, c2, Some buf1, thumb))"
proof -
  have "vcm_mtp_engine_run server command t c scratch capacity thumb cap uninit = do {
      (result, context, buf, thumbnail) \<leftarrow>
        (if m_code (r_response r1) = MTP_OK then do {
           (sent, context, buf, thumbnail) \<leftarrow>
             send_phase t send server1 command r1 c buf1 capacity thumb cap;
           Some (if sint sent < 0 then with_code r1 MTP_GENERAL_ERROR else r1, context, buf, thumbnail)
         } else Some (r1, c, buf1, thumb));
      let (ret, context) = answer context (r_response result);
      Some (ret, server1, context, Some buf, thumbnail) }"
    unfolding vcm_mtp_engine_run_def r1_def Let_def using assms(1-5) by simp
  then show ?thesis
    by (cases "send_phase t send server1 command r1 c buf1 capacity thumb cap") (auto simp: split_beta)
qed

lemma engine_run_erased:
  "map_option (\<lambda>(ret, server', x, rest). (ret, server', fst x, rest))
      (vcm_mtp_engine_run server command (traced t) (c, l) scratch capacity thumb cap uninit) =
    vcm_mtp_engine_run server command t c scratch capacity thumb cap uninit"
proof (cases "t_send_data t = None \<or> t_send_response t = None \<or> scratch = None \<or> capacity < 4096")
  case True
  then show ?thesis by (auto simp: vcm_mtp_engine_run_def traced_def split: option.splits)
next
  case False
  then obtain send answer buf where cb: "t_send_data t = Some send" "t_send_response t = Some answer"
    "scratch = Some buf" "\<not> capacity < 4096" by auto
  have tcb: "t_send_data (traced t) = Some (tsend send)"
    "t_send_response (traced t) = Some (\<lambda>(c, l) response.
       let (st, c') = answer c response in (st, c', l @ [Responded response]))"
    using cb by (simp_all add: traced_def tsend_def [abs_def])
  show ?thesis
  proof (cases "\<exists>status server1 r buf1.
      vcm_mtp_server_execute server command uninit scratch capacity = Some (status, server1, r, Some buf1)")
    case False
    then show ?thesis using cb tcb
      by (auto simp: vcm_mtp_engine_run_def bind_eq_None_conv split: bind_split)
  next
    case True
    then obtain status server1 r buf1 where
      ex: "vcm_mtp_server_execute server command uninit scratch capacity = Some (status, server1, r, Some buf1)"
      by blast
    let ?r1 = "if status < 0
      then r\<lparr>r_response := command\<lparr>m_code := MTP_GENERAL_ERROR, m_param_count := 0\<rparr>,
        r_data_kind := VCM_MTP_DATA_NONE\<rparr> else r"
    note phase = send_phase_erased [of t send server1 command ?r1 c l buf1 capacity thumb cap, symmetric]
    show ?thesis
      unfolding engine_run_eq [OF cb ex] engine_run_eq [OF tcb cb(3,4) ex] phase
      by (simp add: split_beta Let_def split: option.split)
  qed
qed

subsection \<open>A sample transport\<close>

text \<open>The context is the rest of an open file; everything is accepted.\<close>

definition sample_transport :: "u8 list VcmMtpTransport" where
  "sample_transport = \<lparr>
     t_send_data = Some (\<lambda>c command bs off tot. (0, c)),
     t_send_response = Some (\<lambda>c response. (0, c)),
     t_open_object = Some (\<lambda>c e. (0, replicate (unat (e_size e)) 0x41)),
     t_read_object = Some (\<lambda>c wanted. (of_nat (length (take (unat wanted) c)), take (unat wanted) c, drop (unat wanted) c)),
     t_close_object = Some (\<lambda>c. []),
     t_read_thumb = Some (\<lambda>c e cap. if cap = 0 then (- 1, [], c) else (1, [0x42], c))\<rparr>"

lemma sample_polite: "polite sample_transport"
proof -
  have "Suc 0 \<le> unat cap" if "cap \<noteq> 0" for cap :: u32
    using that by (simp add: Suc_le_eq unat_gt_0)
  then show ?thesis by (simp add: polite_def sample_transport_def)
qed

definition sample_entry :: "u32 \<Rightarrow> u32 \<Rightarrow> u8 \<Rightarrow> u16 \<Rightarrow> u64 \<Rightarrow> VcmMtpEntry" where
  "sample_entry handle parent kind format size0 = clear_entry\<lparr>e_native_id := 9, e_handle := handle,
     e_parent := parent, e_kind := kind, e_format := format, e_size := size0\<rparr>"

definition sample_catalog :: VcmMtpCatalog where
  "sample_catalog = \<lparr>c_entries = Some [sample_entry 1 0 4 0x3001 0, sample_entry 2 0 4 0x3001 0,
     sample_entry 3 0 4 0x3001 0, sample_entry 4 1 0 0x3801 3], c_count = 4, c_capacity = 4\<rparr>"

definition open_server :: VcmMtpServer where
  "open_server = \<lparr>s_session = 1, s_catalog = Some sample_catalog, s_storage_capacity = 9, s_storage_free = 5\<rparr>"

lemma sample_catalog_wf: "catalog_wf sample_catalog"
proof -
  have "entry_wf i (visible sample_catalog ! i)" if "i < 4" for i
  proof -
    have "i = 0 \<or> i = 1 \<or> i = 2 \<or> i = 3" using that by auto
    then show ?thesis
      by (elim disjE) (simp_all add: sample_catalog_def entry_wf_def sample_entry_def clear_entry_def
          entry_strings_ok_def parent_of_kind_def)
  qed
  then show ?thesis by (simp add: catalog_wf_def sample_catalog_def)
qed

definition engine_ready ::
    "VcmMtpServer \<Rightarrow> VcmMtpCatalog \<Rightarrow> VcmMtpCommand \<Rightarrow> 'c VcmMtpTransport \<Rightarrow> u8 list \<Rightarrow> u32 \<Rightarrow>
     u8 list option \<Rightarrow> u32 \<Rightarrow> bool" where
  "engine_ready server c0 command t scratch capacity thumb thumb_capacity \<longleftrightarrow>
     s_catalog server = Some c0 \<and> catalog_wf c0 \<and> command_ok command \<and>
     t_send_data t \<noteq> None \<and> t_send_response t \<noteq> None \<and> polite t \<and>
     unat capacity \<le> length scratch \<and> 4096 \<le> capacity \<and>
     (case thumb of None \<Rightarrow> True | Some buf \<Rightarrow> unat thumb_capacity \<le> length buf)"

lemma engine_traced:
  assumes "engine_ready server c0 command t scratch capacity thumb thumb_capacity"
  shows "\<exists>ret server' c' scratch' thumb' evs response.
    vcm_mtp_engine_run server command t c (Some scratch) capacity thumb thumb_capacity uninit =
      Some (ret, server', c', Some scratch', thumb') \<and>
    vcm_mtp_engine_run server command (traced t) (c, []) (Some scratch) capacity thumb thumb_capacity uninit =
      Some (ret, server', (c', evs @ [Responded response]), Some scratch', thumb') \<and>
    length scratch' = length scratch \<and> outcome (offers t capacity thumb thumb_capacity) c0 server command server' evs response"
proof -
  obtain send answer where cb: "t_send_data (traced t) = Some send" "t_send_response (traced t) = Some answer"
    using assms by (auto simp: engine_ready_def traced_def)
  have pre: "polite (traced t)" "s_catalog server = Some c0" "catalog_wf c0" "command_ok command"
    "unat capacity \<le> length scratch" "4096 \<le> capacity"
    "\<forall>buf. thumb = Some buf \<longrightarrow> unat thumb_capacity \<le> length buf"
    using assms polite_traced [of t] by (auto simp: engine_ready_def)
  obtain ret server' x scratch' thumb' evs response where run:
    "vcm_mtp_engine_run server command (traced t) (c, []) (Some scratch) capacity thumb thumb_capacity uninit =
      Some (ret, server', x, Some scratch', thumb')" "length scratch' = length scratch"
    "snd x = snd (c, [] :: event list) @ evs @ [Responded response]" "outcome (offers t capacity thumb thumb_capacity) c0 server command server' evs response"
    using tr.engine_observed [OF cb pre, of "(c, [])" uninit] unfolding offers_traced by blast
  have "vcm_mtp_engine_run server command t c (Some scratch) capacity thumb thumb_capacity uninit =
      Some (ret, server', fst x, Some scratch', thumb')"
    using engine_run_erased [of server command t c "[]" "Some scratch" capacity thumb thumb_capacity uninit] run(1)
    by simp
  moreover have "x = (fst x, evs @ [Responded response])" using run(3) by (cases x) simp
  ultimately show ?thesis using run by metis
qed

subsection \<open>Properties\<close>

text \<open>
  C1. For any transport whose callbacks stay inside the buffers they are given, a command ends
  normally with exactly the outcome of the abstract responder: the data phase of its reply is
  delivered completely and the response is sent last; or the response is GeneralError, the data
  sent is the beginning of that data phase, and the events show the cause: the last chunk was
  refused, the object could not be opened or read, there was no thumbnail, or the caller does not
  provide the callbacks or the buffer. Without such a cause the reply is delivered. The trace is
  observed without changing the run.
\<close>

theorem engine_outcome:
  assumes "engine_ready server c0 command t scratch capacity thumb thumb_capacity"
  shows "\<exists>ret server' c' scratch' thumb' evs response.
    vcm_mtp_engine_run server command t c (Some scratch) capacity thumb thumb_capacity uninit =
      Some (ret, server', c', Some scratch', thumb') \<and>
    vcm_mtp_engine_run server command (traced t) (c, []) (Some scratch) capacity thumb thumb_capacity uninit =
      Some (ret, server', (c', evs @ [Responded response]), Some scratch', thumb') \<and>
    length scratch' = length scratch \<and> outcome (offers t capacity thumb thumb_capacity) c0 server command server' evs response"
  using assms by (rule engine_traced)

lemma sample_ready:
  "\<exists>c0 h. catalog_wf c0 \<and> lookup c0 4 = Some h \<and> e_kind h = 0 \<and> e_size h = 100 \<and>
    engine_ready (vcm_mtp_server_init (Some c0)) c0 (sample_command code ps)
      sample_transport (replicate 4096 0) 4096 None 0"
  if "length ps \<le> 5"
proof -
  obtain c where c: "catalog_inv c" "c_capacity c = 4" "c_count c = 3"
    using catalog_init_spec [of 4 "replicate 4 clear_entry"] by auto
  have adm: "admissible c 0 9 (Some (ascii ''a.jpg'')) 100 0x3801"
    using c by (simp add: admissible_def valid_name_def name_char_refused_def)
  obtain c' where c': "catalog_inv c'"
    "visible c' = visible c @ [new_entry c 0 9 (ascii ''a.jpg'') 100 0x3801]"
    using catalog_add_spec [of c 0 "Some (ascii ''a.jpg'')" 9 100 "0x3801"] adm c by auto
  let ?e = "new_entry c 0 9 (ascii ''a.jpg'') 100 0x3801"
  have wf: "catalog_wf c'" using c'(1) by (simp add: catalog_inv_def)
  have e: "?e \<in> set (visible c')" "e_handle ?e = 4" "e_kind ?e = 0" "e_size ?e = 100"
    using c'(2) c(3) by (simp_all add: new_entry_def)
  have "lookup c' 4 = Some ?e"
    using cat.get_entry [OF wf e(1)] catalog_get_lookup [OF wf, of 4] e(2) by simp
  moreover have "engine_ready (vcm_mtp_server_init (Some c')) c' (sample_command code ps)
      sample_transport (replicate 4096 0) 4096 None 0"
    using wf that sample_polite
    by (simp add: engine_ready_def vcm_mtp_server_init_def command_ok_def sample_command_def)
      (simp add: sample_transport_def)
  ultimately show ?thesis using wf e by blast
qed

definition opens :: "event list \<Rightarrow> nat" where
  "opens evs = length (filter (\<lambda>ev. \<exists>e. ev = Opened e True) evs)"

definition closes :: "event list \<Rightarrow> nat" where
  "closes evs = length (filter (\<lambda>ev. ev = Closed) evs)"

definition is_response :: "event \<Rightarrow> bool" where
  "is_response ev \<longleftrightarrow> (case ev of Responded _ \<Rightarrow> True | _ \<Rightarrow> False)"

lemma transfers_quiet:
  "\<forall>ev \<in> set evs. transfer ev \<Longrightarrow> opens evs = 0 \<and> closes evs = 0 \<and> (\<forall>ev \<in> set evs. \<not> is_response ev)"
  by (induction evs) (auto simp: opens_def closes_def is_response_def transfer_def split: event.splits)

lemma delivered_balanced:
  "delivered s data evs \<or> interrupted s data evs \<Longrightarrow>
    opens evs = closes evs \<and> opens evs \<le> 1 \<and> (\<forall>ev \<in> set evs. \<not> is_response ev)"
proof (cases data)
  case (Object e)
  have "opens (Opened e True # mid @ [Closed]) = 1 \<and> closes (Opened e True # mid @ [Closed]) = 1 \<and>
      (\<forall>ev \<in> set (Opened e True # mid @ [Closed]). \<not> is_response ev)"
    if "object_transfer room tot off f mid" for room tot off f mid
    using transfers_quiet [of mid] object_transfer_facts [OF that]
    by (auto simp: opens_def closes_def is_response_def)
  then show "delivered s data evs \<or> interrupted s data evs \<Longrightarrow> ?thesis"
    unfolding Object by (auto simp: opens_def closes_def is_response_def split: if_splits)
qed (auto simp: opens_def closes_def is_response_def dest: transfers_quiet split: if_splits)

lemma outcome_balanced:
  assumes "outcome s c0 server command server' evs response"
  shows "opens evs = closes evs \<and> opens evs \<le> 1 \<and> (\<forall>ev \<in> set evs. \<not> is_response ev)"
proof -
  have "evs = [] \<or> (\<exists>data. delivered s data evs \<or> interrupted s data evs)"
    using assms by (auto simp: outcome_def split: option.splits if_splits)
  then show ?thesis
    using delivered_balanced by (auto simp: opens_def closes_def)
qed

text \<open>
  C25. Whatever the transport does, it sees exactly one response and sees it last, and every object
  it opened successfully has been closed exactly once before that.
\<close>

theorem one_response_balanced:
  assumes "engine_ready server c0 command t scratch capacity thumb thumb_capacity"
  shows "\<exists>ret server' c' scratch' thumb' evs response.
    vcm_mtp_engine_run server command (traced t) (c, []) (Some scratch) capacity thumb thumb_capacity uninit =
      Some (ret, server', (c', evs @ [Responded response]), Some scratch', thumb') \<and>
    opens evs = closes evs \<and> opens evs \<le> 1 \<and> (\<forall>ev \<in> set evs. \<not> is_response ev)"
  using engine_traced [OF assms, of c uninit] outcome_balanced by fast

theorem one_response_balanced_witness:
  "\<exists>c0 ret server' c' scratch' thumb' evs response.
    vcm_mtp_engine_run (vcm_mtp_server_init (Some c0)) (sample_command 0x1001 []) (traced sample_transport)
      ([], []) (Some (replicate 4096 0)) 4096 None 0 undefined =
      Some (ret, server', (c', evs @ [Responded response]), Some scratch', thumb') \<and>
    opens evs = closes evs \<and> opens evs \<le> 1 \<and> (\<forall>ev \<in> set evs. \<not> is_response ev)"
proof -
  obtain c0 where "engine_ready (vcm_mtp_server_init (Some c0)) c0 (sample_command 0x1001 [])
      sample_transport (replicate 4096 0) 4096 None 0"
    using sample_ready [of "[]" "0x1001"] by auto
  from one_response_balanced [OF this, of "[]" undefined] show ?thesis by blast
qed

lemma traced_outcome:
  assumes "engine_ready server c0 command t scratch capacity thumb thumb_capacity"
    and "vcm_mtp_engine_run server command (traced t) (c, []) (Some scratch) capacity thumb thumb_capacity uninit =
      Some (ret, server', (c', l), scratch', thumb')"
  obtains evs response where "l = evs @ [Responded response]" and "outcome (offers t capacity thumb thumb_capacity) c0 server command server' evs response"
  using engine_traced [OF assms(1), of c uninit] assms(2) by auto

text \<open>
  C23. When GetObject ends with OK, the host has received the whole object: the transport was asked
  to open exactly the entry of the handle, the chunks it accepted start at zero, are contiguous
  and add up to the size of the entry, and they are the bytes the reader produced.
\<close>

theorem object_delivered:
  assumes "engine_ready server c0 command t scratch capacity thumb thumb_capacity"
    and "m_code command = 0x1009" and "s_session server \<noteq> 0" and "params_of command = [h]"
    and "lookup c0 h = Some e"
    and "vcm_mtp_engine_run server command (traced t) (c, []) (Some scratch) capacity thumb thumb_capacity uninit =
      Some (ret, server', (c', evs @ [Responded response]), scratch', thumb')"
    and "m_code response = MTP_OK"
  shows "\<exists>mid. evs = Opened e True # mid @ [Closed] \<and> e_handle e = h \<and> e_kind e \<noteq> VCM_MTP_FOLDER \<and>
    chunks (unat (e_size e)) 0 (sends mid) \<and> accepted_all (sends mid) \<and>
    length (stream (sends mid)) = unat (e_size e) \<and>
    (honest mid \<longrightarrow> stream (sends mid) = concat (map snd (fills mid)))"
proof -
  have out: "outcome (offers t capacity thumb thumb_capacity) c0 server command server' evs response"
    using traced_outcome [OF assms(1,6)] by auto
  have "respond c0 (s_storage_capacity server) (s_storage_free server) (s_session server)
      (m_code command) (params_of command) = Some (respond_object (s_session server) 0x1009 (Some e))"
    using assms(2-5) by (simp add: respond_def respond_in_session_def)
  with out assms(5,7) lookup_SomeD(2) [OF assms(5)] show ?thesis
    using object_transfer_facts [of _ "unat (e_size e)" 0 0]
    by (auto simp: outcome_def respond_object_def response_record_def split: if_splits)
qed

text \<open>
  When GetObjectHandles ends with OK, the host has received the count of the matching entries
  followed by their handles in catalogue order, in contiguous chunks, however the scratch buffer
  divides the list.
\<close>

theorem handles_delivered:
  assumes "engine_ready server c0 command t scratch capacity thumb thumb_capacity"
    and "m_code command = 0x1007" and "s_session server \<noteq> 0" and "params_of command = [storage, format, parent]"
    and "vcm_mtp_engine_run server command (traced t) (c, []) (Some scratch) capacity thumb thumb_capacity uninit =
      Some (ret, server', (c', evs @ [Responded response]), scratch', thumb')"
    and "m_code response = MTP_OK"
  shows "\<exists>hs. hs = map e_handle (children c0 parent (ucast format)) \<and>
    chunks (4 + 4 * length hs) 0 (sends evs) \<and> accepted_all (sends evs) \<and>
    stream (sends evs) = le32 (of_nat (length hs)) @ concat (map le32 hs) \<and> length hs < 2 ^ 30"
proof -
  have out: "outcome (offers t capacity thumb thumb_capacity) c0 server command server' evs response"
    using traced_outcome [OF assms(1,5)] by auto
  have "respond c0 (s_storage_capacity server) (s_storage_free server) (s_session server)
      (m_code command) (params_of command) =
      Some (respond_handles c0 (s_session server) 0x1007 [storage, format, parent])"
    using assms(2-4) by (simp add: respond_def respond_in_session_def)
  with out assms(6) show ?thesis
    by (auto simp: outcome_def respond_handles_def response_record_def handle_list_def Let_def split: if_splits)
qed

lemma open_ready:
  "length ps \<le> 5 \<Longrightarrow> engine_ready open_server sample_catalog (sample_command code ps) sample_transport
    (replicate 4096 0) 4096 None 0"
  using sample_catalog_wf sample_polite
  by (simp add: engine_ready_def open_server_def command_ok_def sample_command_def)
    (simp add: sample_transport_def)

lemmas run_simps =
  vcm_mtp_engine_run_def traced_def sample_transport_def vcm_mtp_server_execute_def sample_command_def
  open_server_def exec_in_session_def exec_object_def exec_handles_def set_response_def with_code_def
  send_phase_def send_object_def send_handles_def vcm_mtp_catalog_get_def sample_catalog_def
  sample_entry_def storage_valid_def vcm_mtp_catalog_children_def child_matches_def send_object_loop.simps
  fill_def pass_def vcm_mtp_writer_init_def put_le32_def clear_entry_def

lemma sample_object_run:
  "\<exists>ret server' c' evs response scratch' thumb'.
    vcm_mtp_engine_run open_server (sample_command 0x1009 [4]) (traced sample_transport) ([], [])
      (Some (replicate 4096 0)) 4096 None 0 undefined =
      Some (ret, server', (c', evs @ [Responded response]), scratch', thumb') \<and> m_code response = MTP_OK"
  by (simp add: run_simps)

lemma sample_scratch:
  "take 8 ((replicate 4096 0)[0 := 1, Suc 0 := 0, Suc (Suc 0) := 0, 3 := 0, 4 := 4, 5 := 0, 6 := 0, 7 := 0]) =
    [1, 0, 0, 0, 4, 0, 0, 0 :: u8]"
proof -
  have "take 8 ((replicate 4096 0)[0 := 1, Suc 0 := 0, Suc (Suc 0) := 0, 3 := 0, 4 := 4, 5 := 0, 6 := 0, 7 := 0]) =
    (replicate 8 0)[0 := 1, Suc 0 := 0, Suc (Suc 0) := 0, 3 := 0, 4 := 4, 5 := 0, 6 := 0, 7 := 0 :: u8]"
    by (simp only: take_update_swap take_replicate) simp
  also have "\<dots> = [1, 0, 0, 0, 4, 0, 0, 0]" by code_simp
  finally show ?thesis .
qed

lemma sample_handles_sent:
  "\<exists>ret server' c' response scratch' thumb'.
    vcm_mtp_engine_run open_server (sample_command 0x1007 [0xffffffff, 0, 1]) (traced sample_transport) ([], [])
      (Some (replicate 4096 0)) 4096 None 0 undefined =
      Some (ret, server', (c', [Sent [1, 0, 0, 0, 4, 0, 0, 0] 0 8 True] @ [Responded response]), scratch', thumb') \<and>
    m_code response = MTP_OK"
  by (simp add: run_simps sample_scratch)

lemma sample_handles_run:
  "\<exists>ret server' c' evs response scratch' thumb'.
    vcm_mtp_engine_run open_server (sample_command 0x1007 [0xffffffff, 0, 1]) (traced sample_transport) ([], [])
      (Some (replicate 4096 0)) 4096 None 0 undefined =
      Some (ret, server', (c', evs @ [Responded response]), scratch', thumb') \<and> m_code response = MTP_OK"
  using sample_handles_sent by blast

text \<open>The same transport with a host that refuses all data.\<close>

definition refusing_transport :: "u8 list VcmMtpTransport" where
  "refusing_transport = sample_transport\<lparr>t_send_data := Some (\<lambda>c command bs off tot. (- 1, c))\<rparr>"

lemma refused_handles_run:
  "\<exists>ret server' c' response scratch' thumb'.
    vcm_mtp_engine_run open_server (sample_command 0x1007 [0xffffffff, 0, 1]) (traced refusing_transport) ([], [])
      (Some (replicate 4096 0)) 4096 None 0 undefined =
      Some (ret, server', (c', [Sent [1, 0, 0, 0, 4, 0, 0, 0] 0 8 False] @ [Responded response]), scratch', thumb') \<and>
    m_code response = MTP_GENERAL_ERROR"
  by (simp add: refusing_transport_def run_simps sample_scratch)

lemma refused_ready:
  "length ps \<le> 5 \<Longrightarrow> engine_ready open_server sample_catalog (sample_command code ps) refusing_transport
    (replicate 4096 0) 4096 None 0"
  using open_ready [of ps code] by (simp add: engine_ready_def refusing_transport_def polite_def)

theorem engine_outcome_witness:
  "(\<exists>ret server' c' evs response scratch' thumb'.
    vcm_mtp_engine_run open_server (sample_command 0x1007 [0xffffffff, 0, 1]) (traced sample_transport) ([], [])
      (Some (replicate 4096 0)) 4096 None 0 undefined =
      Some (ret, server', (c', evs @ [Responded response]), Some scratch', thumb') \<and>
    outcome (offers sample_transport 4096 None 0) sample_catalog open_server
      (sample_command 0x1007 [0xffffffff, 0, 1]) server' evs response \<and>
    m_code response = MTP_OK \<and> stream (sends evs) = [1, 0, 0, 0, 4, 0, 0, 0]) \<and>
   (\<exists>ret server' c' response scratch' thumb'.
    vcm_mtp_engine_run open_server (sample_command 0x1007 [0xffffffff, 0, 1]) (traced refusing_transport) ([], [])
      (Some (replicate 4096 0)) 4096 None 0 undefined =
      Some (ret, server', (c', [Sent [1, 0, 0, 0, 4, 0, 0, 0] 0 8 False] @ [Responded response]), Some scratch', thumb') \<and>
    outcome (offers refusing_transport 4096 None 0) sample_catalog open_server
      (sample_command 0x1007 [0xffffffff, 0, 1]) server' [Sent [1, 0, 0, 0, 4, 0, 0, 0] 0 8 False] response \<and>
    m_code response = MTP_GENERAL_ERROR)"
proof (intro conjI)
  let ?command = "sample_command 0x1007 [0xffffffff, 0, 1]"
  obtain ret server' c' response scratch' thumb' where run:
    "vcm_mtp_engine_run open_server ?command (traced sample_transport) ([], [])
      (Some (replicate 4096 0)) 4096 None 0 undefined =
      Some (ret, server', (c', [Sent [1, 0, 0, 0, 4, 0, 0, 0] 0 8 True] @ [Responded response]), scratch', thumb')"
    "m_code response = MTP_OK"
    using sample_handles_sent by blast
  have ready: "engine_ready open_server sample_catalog ?command sample_transport (replicate 4096 0) 4096 None 0"
    by (rule open_ready) simp
  from engine_outcome [OF ready, of "[]" undefined] run show
    "\<exists>ret server' c' evs response scratch' thumb'.
      vcm_mtp_engine_run open_server ?command (traced sample_transport) ([], []) (Some (replicate 4096 0)) 4096 None 0 undefined =
        Some (ret, server', (c', evs @ [Responded response]), Some scratch', thumb') \<and>
      outcome (offers sample_transport 4096 None 0) sample_catalog open_server ?command server' evs response \<and>
      m_code response = MTP_OK \<and> stream (sends evs) = [1, 0, 0, 0, 4, 0, 0, 0]"
    by auto
  obtain ret server' c' response scratch' thumb' where run:
    "vcm_mtp_engine_run open_server ?command (traced refusing_transport) ([], [])
      (Some (replicate 4096 0)) 4096 None 0 undefined =
      Some (ret, server', (c', [Sent [1, 0, 0, 0, 4, 0, 0, 0] 0 8 False] @ [Responded response]), scratch', thumb')"
    "m_code response = MTP_GENERAL_ERROR"
    using refused_handles_run by blast
  have ready: "engine_ready open_server sample_catalog ?command refusing_transport (replicate 4096 0) 4096 None 0"
    by (rule refused_ready) simp
  from engine_outcome [OF ready, of "[]" undefined] run show
    "\<exists>ret server' c' response scratch' thumb'.
      vcm_mtp_engine_run open_server ?command (traced refusing_transport) ([], []) (Some (replicate 4096 0)) 4096 None 0 undefined =
        Some (ret, server', (c', [Sent [1, 0, 0, 0, 4, 0, 0, 0] 0 8 False] @ [Responded response]), Some scratch', thumb') \<and>
      outcome (offers refusing_transport 4096 None 0) sample_catalog open_server ?command server'
        [Sent [1, 0, 0, 0, 4, 0, 0, 0] 0 8 False] response \<and>
      m_code response = MTP_GENERAL_ERROR"
    by auto
qed

theorem object_delivered_witness:
  "\<exists>ret server' c' mid response scratch' thumb'.
    vcm_mtp_engine_run open_server (sample_command 0x1009 [4]) (traced sample_transport) ([], [])
      (Some (replicate 4096 0)) 4096 None 0 undefined =
      Some (ret, server', (c', (Opened (sample_entry 4 1 0 0x3801 3) True # mid @ [Closed]) @ [Responded response]),
        scratch', thumb') \<and>
    length (stream (sends mid)) = 3"
proof -
  obtain ret server' c' evs response scratch' thumb' where run:
    "vcm_mtp_engine_run open_server (sample_command 0x1009 [4]) (traced sample_transport) ([], [])
      (Some (replicate 4096 0)) 4096 None 0 undefined =
      Some (ret, server', (c', evs @ [Responded response]), scratch', thumb')" "m_code response = MTP_OK"
    using sample_object_run by blast
  have ready: "engine_ready open_server sample_catalog (sample_command 0x1009 [4]) sample_transport
      (replicate 4096 0) 4096 None 0"
    by (rule open_ready) simp
  have look: "lookup sample_catalog 4 = Some (sample_entry 4 1 0 0x3801 3)"
    by (simp add: lookup_def sample_catalog_def sample_entry_def)
  have "e_size (sample_entry 4 1 0 0x3801 3) = 3" by (simp add: sample_entry_def)
  with object_delivered [OF ready _ _ _ look run] run(1) show ?thesis
    by (auto simp: open_server_def sample_command_def params_of_def)
qed

theorem handles_delivered_witness:
  "\<exists>ret server' c' evs response scratch' thumb'.
    vcm_mtp_engine_run open_server (sample_command 0x1007 [0xffffffff, 0, 1]) (traced sample_transport) ([], [])
      (Some (replicate 4096 0)) 4096 None 0 undefined =
      Some (ret, server', (c', evs @ [Responded response]), scratch', thumb') \<and>
    stream (sends evs) = [1, 0, 0, 0, 4, 0, 0, 0]"
proof -
  obtain ret server' c' evs response scratch' thumb' where run:
    "vcm_mtp_engine_run open_server (sample_command 0x1007 [0xffffffff, 0, 1]) (traced sample_transport) ([], [])
      (Some (replicate 4096 0)) 4096 None 0 undefined =
      Some (ret, server', (c', evs @ [Responded response]), scratch', thumb')" "m_code response = MTP_OK"
    using sample_handles_run by blast
  have ready: "engine_ready open_server sample_catalog (sample_command 0x1007 [0xffffffff, 0, 1]) sample_transport
      (replicate 4096 0) 4096 None 0"
    by (rule open_ready) simp
  have "map e_handle (children sample_catalog 1 (ucast (0 :: u32))) = [4]"
    by (simp add: children_def sample_catalog_def child_matches_def sample_entry_def)
  then have "stream (sends evs) = [1, 0, 0, 0, 4, 0, 0, 0]"
    using handles_delivered [OF ready _ _ _ run, of "0xffffffff" 0 1]
    by (auto simp: open_server_def sample_command_def params_of_def le32_bytes)
  with run(1) show ?thesis by blast
qed

text \<open>
  Without the two mandatory callbacks, without a scratch buffer or with one of fewer than 4096
  bytes, the engine refuses the command: it returns -1, calls nothing and changes nothing.
\<close>

theorem engine_refuses:
  assumes "t_send_data t = None \<or> t_send_response t = None \<or> scratch = None \<or> capacity < 4096"
  shows "vcm_mtp_engine_run server command t c scratch capacity thumb thumb_capacity uninit =
    Some (- 1, server, c, scratch, thumb)"
  using assms by (auto simp: vcm_mtp_engine_run_def split: option.splits)

theorem engine_refuses_witness:
  "vcm_mtp_engine_run open_server (sample_command 0x1001 []) sample_transport [] (Some (replicate 100 0)) 100
     None 0 undefined = Some (- 1, open_server, [], Some (replicate 100 0), None)"
  by (rule engine_refuses) simp

end
