(* ===== verification/Id3_Tags.thy ===== *)
theory Id3_Tags
  imports Vcm_Prelude
begin

text \<open>
  The ID3v2.3 reader of \<^verbatim>\<open>src/vita/id3_tags.c\<close>: text frames in Latin-1 or UTF-16, the track
  number, and the position and dimensions of a JPEG front cover. The input is an untrusted byte
  array; a frame's payload is passed as the list of exactly its bytes, so a read outside a frame is
  a fault. Sizes and positions are naturals: none exceeds the length of the input. The lemmas show
  that no input makes the reader fault, and what an accepted tag holds.
\<close>

subsection \<open>Data\<close>

record VcmId3Tags =
  t_title :: "u8 list"
  t_artist :: "u8 list"
  t_album :: "u8 list"
  t_album_artist :: "u8 list"
  t_genre :: "u8 list"
  t_track :: int
  t_cover_offset :: int
  t_cover_size :: int
  t_cover_width :: int
  t_cover_height :: int
  t_cover_codec_type :: int

definition clear_tags :: VcmId3Tags where
  "clear_tags = \<lparr>t_title = replicate 256 0, t_artist = replicate 256 0, t_album = replicate 256 0,
     t_album_artist = replicate 256 0, t_genre = replicate 128 0, t_track = 0, t_cover_offset = 0,
     t_cover_size = 0, t_cover_width = 0, t_cover_height = 0, t_cover_codec_type = 0\<rparr>"

subsection \<open>Reading numbers\<close>

definition equals4 :: "u8 list \<Rightarrow> u8 list \<Rightarrow> bool option" where
  "equals4 a b = do {
     a0 \<leftarrow> fetch a 0; a1 \<leftarrow> fetch a 1; a2 \<leftarrow> fetch a 2; a3 \<leftarrow> fetch a 3;
     b0 \<leftarrow> fetch b 0; b1 \<leftarrow> fetch b 1; b2 \<leftarrow> fetch b 2; b3 \<leftarrow> fetch b 3;
     Some (a0 = b0 \<and> a1 = b1 \<and> a2 = b2 \<and> a3 = b3)
   }"

definition be32 :: "u8 list \<Rightarrow> u32 option" where
  "be32 p = do {
     a \<leftarrow> fetch p 0; b \<leftarrow> fetch p 1; c \<leftarrow> fetch p 2; d \<leftarrow> fetch p 3;
     Some (push_bit 24 (ucast a) OR push_bit 16 (ucast b) OR push_bit 8 (ucast c) OR ucast d)
   }"

definition be16 :: "u8 list \<Rightarrow> u32 option" where
  "be16 p = do {
     a \<leftarrow> fetch p 0; b \<leftarrow> fetch p 1;
     Some (push_bit 8 (ucast a) OR ucast b)
   }"

subsection \<open>The JPEG cover\<close>

text \<open>The inner loops that advance a position while a byte satisfies a condition.\<close>

function scan :: "(u8 \<Rightarrow> bool) \<Rightarrow> u8 list \<Rightarrow> nat \<Rightarrow> nat" where
  "scan P data p = (if p < length data \<and> P (data ! p) then scan P data (p + 1) else p)"
  by pat_completeness auto
termination
  by (relation "measure (\<lambda>(P, data, p). length data - p)") auto

declare scan.simps [simp del]

lemma scan_bounds: "p \<le> scan P data p" "p \<le> length data \<Longrightarrow> scan P data p \<le> length data"
proof (induction P data p rule: scan.induct)
  case (1 P data p)
  { case 1
    with "1.IH"(1) show ?case by (subst scan.simps) (auto dest: Suc_leD)
  next
    case 2
    with "1.IH"(2) show ?case by (subst scan.simps) auto
  }
qed

text \<open>
  The marker loop. The result \<open>Some None\<close> is the error return; the width and height it may have
  stored then are not used by the caller.
\<close>

function jpeg_loop :: "u8 list \<Rightarrow> nat \<Rightarrow> (int \<times> int) option option" where
  "jpeg_loop data pos =
     (if pos + 4 \<le> length data then do {
        b \<leftarrow> fetch data pos;
        if b \<noteq> 0xff then Some None
        else let pos = scan (\<lambda>c. c = 0xff) data (pos + 1) in
          if pos \<ge> length data then Some None
          else do {
            marker \<leftarrow> fetch data pos;
            let pos = pos + 1;
            if marker = 0xd9 \<or> marker = 0xda then Some None
            else if marker = 0x01 \<or> 0xd0 \<le> marker \<and> marker \<le> 0xd7 then jpeg_loop data pos
            else if pos + 2 > length data then Some None
            else do {
              segment \<leftarrow> be16 (drop pos data);
              if segment < 2 \<or> unat segment > length data - pos then Some None
              else if (marker = 0xc0 \<or> marker = 0xc2) \<and> segment \<ge> 7 then do {
                height \<leftarrow> be16 (drop (pos + 3) data);
                width \<leftarrow> be16 (drop (pos + 5) data);
                Some (if sint width > 0 \<and> sint height > 0 then Some (sint width, sint height) else None)
              }
              else jpeg_loop data (pos + unat segment)
            }
          }
      } else Some None)"
  by pat_completeness auto
termination
proof (relation "measure (\<lambda>(data, pos). length data - pos)", simp)
  fix data :: "u8 list" and pos pos1 pos2 :: nat and b marker :: u8
  assume "pos + 4 \<le> length data" and "pos1 = scan (\<lambda>c. c = 0xff) data (pos + 1)" and "pos2 = pos1 + 1"
  moreover from this have "pos + 1 \<le> pos1" using scan_bounds(1) by simp
  ultimately show "((data, pos2), (data, pos)) \<in> measure (\<lambda>(data, pos). length data - pos)" by auto
  fix segment :: u32
  show "((data, pos2 + unat segment), (data, pos)) \<in> measure (\<lambda>(data, pos). length data - pos)"
    using \<open>pos + 4 \<le> length data\<close> \<open>pos + 1 \<le> pos1\<close> \<open>pos2 = pos1 + 1\<close> by auto
qed

declare jpeg_loop.simps [simp del]

definition jpeg_dimensions :: "u8 list \<Rightarrow> (int \<times> int) option option" where
  "jpeg_dimensions data =
     (if length data < 4 then Some None
      else do {
        a \<leftarrow> fetch data 0;
        b \<leftarrow> fetch data 1;
        if a \<noteq> 0xff \<or> b \<noteq> 0xd8 then Some None else jpeg_loop data 2
      })"

function scan16 :: "u8 list \<Rightarrow> nat \<Rightarrow> nat" where
  "scan16 data p =
     (if p + 1 < length data \<and> (data ! p \<noteq> 0 \<or> data ! (p + 1) \<noteq> 0) then scan16 data (p + 2) else p)"
  by pat_completeness auto
termination
  by (relation "measure (\<lambda>(data, p). length data - p)") auto

declare scan16.simps [simp del]

definition mime :: "u8 list" where
  "mime = ascii ''image/jpeg''"

text \<open>The end of the description, or \<^term>\<open>None\<close> for the error return.\<close>

definition after_description :: "u8 list \<Rightarrow> u8 \<Rightarrow> nat \<Rightarrow> nat option" where
  "after_description payload encoding p =
     (if encoding = 0 \<or> encoding = 3
      then let p = scan (\<lambda>c. c \<noteq> 0) payload p in
        if p = length payload then None else Some (p + 1)
      else let p = scan16 payload p in
        if p + 1 \<ge> length payload then None else Some (p + 2))"

fun mime_differs :: "u8 list \<Rightarrow> nat \<Rightarrow> u8 list \<Rightarrow> bool option" where
  "mime_differs payload at [] = Some False"
| "mime_differs payload at (c # cs) = do {
     b \<leftarrow> fetch payload at;
     if b \<noteq> c then Some True else mime_differs payload (at + 1) cs
   }"

definition parse_jpeg_apic :: "u8 list \<Rightarrow> nat \<Rightarrow> VcmId3Tags \<Rightarrow> VcmId3Tags option" where
  "parse_jpeg_apic payload payload_file_offset tags =
     (if length payload < 18 \<or> t_cover_size tags \<noteq> 0 then Some tags
      else do {
        encoding \<leftarrow> fetch payload 0;
        if encoding > 3 then Some tags
        else let p = scan (\<lambda>c. c \<noteq> 0) payload 1 in
          if p = length payload \<or> p - 1 \<noteq> 10 then Some tags
          else do {
            differs \<leftarrow> mime_differs payload 1 mime;
            if differs then Some tags
            else let p = p + 1 in
              if p \<ge> length payload then Some tags
              else do {
                kind \<leftarrow> fetch payload p;
                let p = p + 1;
                if kind \<noteq> 3 then Some tags
                else case after_description payload encoding p of
                    None \<Rightarrow> Some tags
                  | Some p \<Rightarrow> do {
                      dims \<leftarrow> jpeg_dimensions (drop p payload);
                      Some (case dims of
                          None \<Rightarrow> tags
                        | Some (width, height) \<Rightarrow>
                            tags\<lparr>t_cover_offset := int (payload_file_offset + p),
                              t_cover_size := int (length payload - p),
                              t_cover_width := width, t_cover_height := height,
                              t_cover_codec_type := 0x11\<rparr>)
                    }
              }
          }
      })"

subsection \<open>Text\<close>

text \<open>The UTF-8 bytes of a code point, as the branches of \<open>append_utf8\<close> compute them.\<close>

definition utf8_bytes :: "u32 \<Rightarrow> u8 list" where
  "utf8_bytes code =
     (if code < 0x80 then [ucast code]
      else if code < 0x800 then
        [ucast (0xc0 OR drop_bit 6 code), ucast (0x80 OR (code AND 0x3f))]
      else if code < 0x10000 then
        [ucast (0xe0 OR drop_bit 12 code), ucast (0x80 OR (drop_bit 6 code AND 0x3f)),
         ucast (0x80 OR (code AND 0x3f))]
      else
        [ucast (0xf0 OR drop_bit 18 code), ucast (0x80 OR (drop_bit 12 code AND 0x3f)),
         ucast (0x80 OR (drop_bit 6 code AND 0x3f)), ucast (0x80 OR (code AND 0x3f))])"

fun store_all :: "u8 list \<Rightarrow> nat \<Rightarrow> u8 list \<Rightarrow> u8 list option" where
  "store_all out at [] = Some out"
| "store_all out at (b # bs) = do { out \<leftarrow> store out at b; store_all out (at + 1) bs }"

text \<open>The result is the status, the output array and the number of bytes used in it.\<close>

definition append_utf8 :: "u8 list \<Rightarrow> nat \<Rightarrow> u32 \<Rightarrow> (int \<times> u8 list \<times> nat) option" where
  "append_utf8 out used code =
     (if code = 0 \<or> code > 0x10ffff \<or> 0xd800 \<le> code \<and> code \<le> 0xdfff then Some (- 1, out, used)
      else let n = length (utf8_bytes code) in
        if used + n \<ge> length out then Some (- 1, out, used)
        else do {
          out \<leftarrow> store_all out used (utf8_bytes code);
          out \<leftarrow> store out (used + n) 0;
          Some (0, out, used + n)
        })"

definition utf16_unit :: "u8 list \<Rightarrow> nat \<Rightarrow> bool \<Rightarrow> u32 option" where
  "utf16_unit data i little_endian = do {
     a \<leftarrow> fetch data i;
     b \<leftarrow> fetch data (i + 1);
     Some (if little_endian then ucast a OR push_bit 8 (ucast b) else push_bit 8 (ucast a) OR ucast b)
   }"

fun latin1_loop :: "u8 list \<Rightarrow> u8 list \<Rightarrow> nat \<Rightarrow> (int \<times> u8 list) option" where
  "latin1_loop [] out used = Some (if used \<noteq> 0 then 0 else - 1, out)"
| "latin1_loop (c # cs) out used =
     (if c = 0 then Some (if used \<noteq> 0 then 0 else - 1, out)
      else do {
        (status, out, used) \<leftarrow> append_utf8 out used (ucast c);
        if status \<noteq> 0 then Some (- 1, out) else latin1_loop cs out used
      })"

function utf16_loop :: "u8 list \<Rightarrow> bool \<Rightarrow> nat \<Rightarrow> u8 list \<Rightarrow> nat \<Rightarrow> (int \<times> u8 list) option" where
  "utf16_loop data little_endian i out used =
     (if i + 1 < length data then do {
        code \<leftarrow> utf16_unit data i little_endian;
        if code = 0 then Some (if used \<noteq> 0 then 0 else - 1, out)
        else if 0xd800 \<le> code \<and> code \<le> 0xdbff then
          if i + 3 \<ge> length data then Some (- 1, out)
          else do {
            low \<leftarrow> utf16_unit data (i + 2) little_endian;
            if low < 0xdc00 \<or> low > 0xdfff then Some (- 1, out)
            else do {
              (status, out, used) \<leftarrow>
                append_utf8 out used (0x10000 + push_bit 10 (code - 0xd800) + (low - 0xdc00));
              if status \<noteq> 0 then Some (- 1, out) else utf16_loop data little_endian (i + 2 + 2) out used
            }
          }
        else do {
          (status, out, used) \<leftarrow> append_utf8 out used code;
          if status \<noteq> 0 then Some (- 1, out) else utf16_loop data little_endian (i + 2) out used
        }
      } else Some (if used \<noteq> 0 then 0 else - 1, out))"
  by pat_completeness auto
termination
  by (relation "measure (\<lambda>(data, le, i, out, used). length data - i)") auto

declare utf16_loop.simps [simp del]

definition decode_text :: "u8 list \<Rightarrow> u8 list \<Rightarrow> (int \<times> u8 list) option" where
  "decode_text data out =
     (if length data < 2 \<or> length out < 2 then Some (- 1, out)
      else do {
        out \<leftarrow> store out 0 0;
        encoding \<leftarrow> fetch data 0;
        if encoding = 0 then latin1_loop (drop 1 data) out 0
        else if encoding \<noteq> 1 \<or> length data < 5 then Some (- 1, out)
        else do {
          b1 \<leftarrow> fetch data 1;
          b2 \<leftarrow> fetch data 2;
          if b1 = 0xff \<and> b2 = 0xfe then utf16_loop data True 3 out 0
          else if b1 = 0xfe \<and> b2 = 0xff then utf16_loop data False 3 out 0
          else Some (- 1, out)
        }
      })"

fun track_loop :: "u8 list \<Rightarrow> int \<Rightarrow> int \<Rightarrow> (int \<times> int) option option" where
  "track_loop [] result digits = None"
| "track_loop (c # value) result digits =
     (if 0x30 \<le> c \<and> c \<le> 0x39 then
        if result > 9999 then Some None
        else track_loop value (result * 10 + (uint c - 0x30)) (digits + 1)
      else Some (Some (result, digits)))"

text \<open>The value is read up to its first character that is no digit, which the terminator is.\<close>

definition parse_track :: "u8 list \<Rightarrow> int option option" where
  "parse_track value = do {
     r \<leftarrow> track_loop value 0 0;
     Some (case r of
         None \<Rightarrow> None
       | Some (result, digits) \<Rightarrow>
           if digits = 0 \<or> result \<le> 0 \<or> result > 9999 then None else Some result)
   }"

subsection \<open>The tag\<close>

text \<open>
  One frame: the frame's identifier decides what its payload is. The array of the track text is
  on the stack; \<open>garbage\<close> is what it holds before.
\<close>

definition apply_frame ::
    "u8 list \<Rightarrow> u8 list \<Rightarrow> u8 list \<Rightarrow> nat \<Rightarrow> VcmId3Tags \<Rightarrow> (int \<times> VcmId3Tags) option" where
  "apply_frame garbage frame payload offset tags = do {
     tit2 \<leftarrow> equals4 frame (ascii ''TIT2'');
     tpe1 \<leftarrow> equals4 frame (ascii ''TPE1'');
     talb \<leftarrow> equals4 frame (ascii ''TALB'');
     tpe2 \<leftarrow> equals4 frame (ascii ''TPE2'');
     tcon \<leftarrow> equals4 frame (ascii ''TCON'');
     apic \<leftarrow> equals4 frame (ascii ''APIC'');
     trck \<leftarrow> equals4 frame (ascii ''TRCK'');
     if tit2 then do {
       (status, out) \<leftarrow> decode_text payload (t_title tags); Some (status, tags\<lparr>t_title := out\<rparr>) }
     else if tpe1 then do {
       (status, out) \<leftarrow> decode_text payload (t_artist tags); Some (status, tags\<lparr>t_artist := out\<rparr>) }
     else if talb then do {
       (status, out) \<leftarrow> decode_text payload (t_album tags); Some (status, tags\<lparr>t_album := out\<rparr>) }
     else if tpe2 then do {
       (status, out) \<leftarrow> decode_text payload (t_album_artist tags);
       Some (status, tags\<lparr>t_album_artist := out\<rparr>) }
     else if tcon then do {
       (status, out) \<leftarrow> decode_text payload (t_genre tags); Some (status, tags\<lparr>t_genre := out\<rparr>) }
     else if apic then do { tags \<leftarrow> parse_jpeg_apic payload offset tags; Some (0, tags) }
     else if trck then do {
       (status, track_text) \<leftarrow> decode_text payload garbage;
       if status = 0 then do {
         track \<leftarrow> parse_track track_text;
         Some (case track of None \<Rightarrow> (- 1, tags) | Some n \<Rightarrow> (0, tags\<lparr>t_track := n\<rparr>))
       } else Some (status, tags)
     }
     else Some (0, tags)
   }"

function parse_loop :: "u8 list \<Rightarrow> u8 list \<Rightarrow> nat \<Rightarrow> nat \<Rightarrow> VcmId3Tags \<Rightarrow> (int \<times> VcmId3Tags) option" where
  "parse_loop garbage data end1 pos tags =
     (if pos + 10 \<le> end1 then do {
        let frame = drop pos data;
        f0 \<leftarrow> fetch frame 0; f1 \<leftarrow> fetch frame 1; f2 \<leftarrow> fetch frame 2; f3 \<leftarrow> fetch frame 3;
        if f0 = 0 \<and> f1 = 0 \<and> f2 = 0 \<and> f3 = 0 then Some (0, tags)
        else do {
          frame_size \<leftarrow> be32 (drop 4 frame);
          if frame_size = 0 \<or> unat frame_size > end1 - pos - 10 then Some (- 1, tags)
          else do {
            f8 \<leftarrow> fetch frame 8; f9 \<leftarrow> fetch frame 9;
            if f8 \<noteq> 0 \<or> f9 \<noteq> 0 then Some (- 1, tags)
            else do {
              (status, tags) \<leftarrow>
                apply_frame garbage frame (take (unat frame_size) (drop 10 frame)) (pos + 10) tags;
              if status \<noteq> 0 then Some (- 1, tags)
              else parse_loop garbage data end1 (pos + (10 + unat frame_size)) tags
            }
          }
        }
      } else Some (0, tags))"
  by pat_completeness auto
termination
  by (relation "measure (\<lambda>(garbage, data, end1, pos, tags). end1 - pos)") auto

declare parse_loop.simps [simp del]

text \<open>The loop that completes a missing album artist: the array and the final index.\<close>

function artist_loop :: "u8 list \<Rightarrow> u8 list \<Rightarrow> nat \<Rightarrow> (u8 list \<times> nat) option" where
  "artist_loop artist album_artist i = do {
     c \<leftarrow> fetch artist i;
     if c \<noteq> 0 \<and> i + 1 < length album_artist
     then do { album_artist \<leftarrow> store album_artist i c; artist_loop artist album_artist (i + 1) }
     else Some (album_artist, i)
   }"
  by pat_completeness auto
termination
  by (relation "measure (\<lambda>(artist, album_artist, i). length artist - i)") (auto dest: fetch_SomeD)

declare artist_loop.simps [simp del]

text \<open>The part after the frames: what an accepted tag must hold and the completed album artist.\<close>

definition finish_tags :: "VcmId3Tags \<Rightarrow> (int \<times> VcmId3Tags) option" where
  "finish_tags tags = do {
     title \<leftarrow> fetch (t_title tags) 0;
     artist \<leftarrow> fetch (t_artist tags) 0;
     if title = 0 \<or> artist = 0 then Some (- 1, tags)
     else do {
       album_artist \<leftarrow> fetch (t_album_artist tags) 0;
       if album_artist = 0 then do {
         (out, i) \<leftarrow> artist_loop (t_artist tags) (t_album_artist tags) 0;
         out \<leftarrow> store out i 0;
         c \<leftarrow> fetch (t_artist tags) i;
         let tags = tags\<lparr>t_album_artist := out\<rparr>;
         Some (if c \<noteq> 0 then - 1 else 0, tags)
       } else Some (0, tags)
     }
   }"

definition vcm_parse_id3v23 ::
    "u8 list \<Rightarrow> u8 list option \<Rightarrow> VcmId3Tags \<Rightarrow> (int \<times> VcmId3Tags) option" where
  "vcm_parse_id3v23 garbage input tags =
     (case input of
        None \<Rightarrow> Some (- 1, tags)
      | Some data \<Rightarrow>
          if length data < 10 then Some (- 1, tags)
          else do {
            d0 \<leftarrow> fetch data 0; d1 \<leftarrow> fetch data 1; d2 \<leftarrow> fetch data 2; d3 \<leftarrow> fetch data 3;
            d4 \<leftarrow> fetch data 4; d5 \<leftarrow> fetch data 5; d6 \<leftarrow> fetch data 6; d7 \<leftarrow> fetch data 7;
            d8 \<leftarrow> fetch data 8; d9 \<leftarrow> fetch data 9;
            if d0 \<noteq> 0x49 \<or> d1 \<noteq> 0x44 \<or> d2 \<noteq> 0x33 \<or> d3 \<noteq> 3 \<or> d4 \<noteq> 0 \<or> d5 \<noteq> 0
            then Some (- 1, tags)
            else if d6 AND 0x80 \<noteq> 0 \<or> d7 AND 0x80 \<noteq> 0 \<or> d8 AND 0x80 \<noteq> 0 \<or> d9 AND 0x80 \<noteq> 0
            then Some (- 1, tags)
            else do {
              let tag_size = unat (push_bit 21 (ucast d6) OR push_bit 14 (ucast d7) OR
                push_bit 7 (ucast d8) OR ucast d9 :: u32);
              if tag_size > length data - 10 then Some (- 1, tags)
              else do {
                (status, tags) \<leftarrow> parse_loop garbage data (10 + tag_size) 10 clear_tags;
                if status \<noteq> 0 then Some (- 1, tags)
                else finish_tags tags
              }
            }
          })"

subsection \<open>UTF-8 bytes\<close>

lemma set_high_bit: "bit m 7 \<Longrightarrow> (ucast (m OR x :: u32) :: u8) \<noteq> 0"
proof
  assume "bit m 7"
  then have b: "bit (ucast (m OR x) :: u8) 7" by (simp add: bit_simps)
  assume "(ucast (m OR x) :: u8) = 0"
  with b show False by (simp only:) simp
qed

lemma high_byte_nonzero:
  "(ucast (0x80 OR x :: u32) :: u8) \<noteq> 0" "(ucast (0xc0 OR x :: u32) :: u8) \<noteq> 0"
  "(ucast (0xe0 OR x :: u32) :: u8) \<noteq> 0" "(ucast (0xf0 OR x :: u32) :: u8) \<noteq> 0"
  by (rule set_high_bit, simp)+

lemma small_bits: "unat (code :: 'w::len word) < 2 ^ k \<Longrightarrow> k \<le> n \<Longrightarrow> \<not> bit code n"
proof -
  assume "unat code < 2 ^ k" and "k \<le> n"
  then have "take_bit k (unat code) = unat code" by (simp add: take_bit_nat_eq_self)
  then have "bit (unat code) n \<Longrightarrow> n < k" by (metis bit_take_bit_iff)
  then show "\<not> bit code n" using \<open>k \<le> n\<close> by (auto simp: bit_unsigned_iff)
qed

lemma utf8_nonzero: "cp \<noteq> 0 \<Longrightarrow> 0 \<notin> set (utf8_bytes cp)"
proof -
  assume nz: "cp \<noteq> 0"
  have "(ucast cp :: u8) \<noteq> 0" if "cp < 0x80"
  proof -
    have "unat cp < 0x80" using that by (simp add: word_less_nat_alt)
    then have "unat (ucast cp :: u8) = unat cp" by (simp add: unsigned_ucast_eq take_bit_nat_eq_self)
    then show ?thesis using nz by (metis unat_eq_0)
  qed
  then show ?thesis
    using high_byte_nonzero [symmetric] by (auto simp: utf8_bytes_def)
qed

subsection \<open>The cover lies inside its frame\<close>

lemma be16_Some: "2 \<le> length p \<Longrightarrow> \<exists>v. be16 p = Some v \<and> unat v < 2 ^ 16"
proof -
  assume "2 \<le> length p"
  moreover have "unat (push_bit 8 (ucast a) OR ucast b :: u32) < 2 ^ 16" for a b :: u8
  proof (rule unat_or_less)
    have "unat a * 2 ^ 8 < 2 ^ 8 * 2 ^ 8" using unsigned_less [of a, where ?'a = nat] by simp
    then show "unat (push_bit 8 (ucast a) :: u32) < 2 ^ 16" by (simp add: unat_shifted_byte)
    show "unat (ucast b :: u32) < 2 ^ 16" using unsigned_less [of b, where ?'a = nat] by simp
  qed
  moreover from \<open>2 \<le> length p\<close> have "p \<noteq> []" by auto
  ultimately show ?thesis by (simp add: be16_def)
qed

lemma be32_Some: "4 \<le> length p \<Longrightarrow> \<exists>v. be32 p = Some v"
proof -
  assume "4 \<le> length p"
  moreover from this have "p \<noteq> []" by auto
  ultimately show ?thesis by (simp add: be32_def)
qed

lemma sint_small:
  assumes "unat (v :: u32) < 2 ^ 16"
  shows "sint v < 65536"
proof -
  have "sint (of_nat (unat v) :: u32) = int (unat v)" using assms by (intro sint_of_nat_u32) simp
  then have "sint v = int (unat v)" by simp
  also have "int (unat v) < 65536"
  proof -
    have "unat v < 65536" using assms by simp
    then have "int (unat v) < int 65536" by (simp only: of_nat_less_iff)
    then show ?thesis by simp
  qed
  finally show ?thesis .
qed

definition jpeg_result :: "(int \<times> int) option option \<Rightarrow> bool" where
  "jpeg_result r \<longleftrightarrow> (case r of None \<Rightarrow> False | Some None \<Rightarrow> True
     | Some (Some (w, h)) \<Rightarrow> 0 < w \<and> w < 65536 \<and> 0 < h \<and> h < 65536)"

lemma jpeg_result_simps [simp]: "jpeg_result (Some None)" "\<not> jpeg_result None"
  by (simp_all add: jpeg_result_def)

lemma jpeg_size_result:
  assumes "4 + 3 \<le> length p"
  shows "jpeg_result (do { height \<leftarrow> be16 (drop 3 p); width \<leftarrow> be16 (drop 5 p);
    Some (if sint width > 0 \<and> sint height > 0 then Some (sint width, sint height) else None) })"
proof -
  have "2 \<le> length (drop 3 p)" "2 \<le> length (drop 5 p)" using assms by simp_all
  then obtain h w where "be16 (drop 3 p) = Some h" "unat h < 2 ^ 16" "be16 (drop 5 p) = Some w" "unat w < 2 ^ 16"
    using be16_Some by blast
  then show ?thesis by (simp add: jpeg_result_def sint_small)
qed

lemma jpeg_loop_result: "jpeg_result (jpeg_loop data pos)"
proof (induction data pos rule: jpeg_loop.induct)
  case (1 data pos)
  show ?case
  proof (cases "pos + 4 \<le> length data")
    case False
    then show ?thesis by (subst jpeg_loop.simps) simp
  next
    case True
    let ?p1 = "scan (\<lambda>c. c = 0xff) data (pos + 1)"
    let ?m = "data ! ?p1"
    obtain v where v: "?p1 + 1 + 2 \<le> length data \<Longrightarrow> be16 (drop (?p1 + 1) data) = Some v"
      using be16_Some [of "drop (?p1 + 1) data"] by fastforce
    have size: "jpeg_result (do { height \<leftarrow> be16 (drop (?p1 + 1 + 3) data); width \<leftarrow> be16 (drop (?p1 + 1 + 5) data);
        Some (if sint width > 0 \<and> sint height > 0 then Some (sint width, sint height) else None) })"
      if "7 \<le> v" "\<not> unat v > length data - (?p1 + 1)" "?p1 + 1 + 2 \<le> length data"
    proof -
      have "7 \<le> unat v" using that(1) by (simp add: word_le_nat_alt)
      then show ?thesis
        using jpeg_size_result [of "drop (?p1 + 1) data"] that(2,3) by (simp add: add_ac)
    qed
    show ?thesis
    proof (cases "data ! pos = 0xff \<and> ?p1 < length data \<and> \<not> (?m = 0xd9 \<or> ?m = 0xda)")
      case False
      then show ?thesis using True by (subst jpeg_loop.simps) (auto simp: Let_def)
    next
      case ok: True
      then have f: "fetch data pos = Some (data ! pos)" "fetch data ?p1 = Some ?m" using True by simp_all
      show ?thesis
      proof (cases "?m = 0x01 \<or> 0xd0 \<le> ?m \<and> ?m \<le> 0xd7")
        case True
        with ok f \<open>pos + 4 \<le> length data\<close> show ?thesis
          using "1.IH"(1) [OF \<open>pos + 4 \<le> length data\<close> f(1) _ refl _ f(2) refl]
          by (subst jpeg_loop.simps) (simp add: Let_def)
      next
        case no: False
        show ?thesis
          using "1.IH"(2) [OF \<open>pos + 4 \<le> length data\<close> f(1) _ refl _ f(2) refl _ no _ v] True ok f no v size
          by (subst jpeg_loop.simps) (auto simp: Let_def)
      qed
    qed
  qed
qed

lemma jpeg_dimensions_result: "jpeg_result (jpeg_dimensions data)"
proof (cases "length data < 4")
  case False
  then have "data \<noteq> []" by auto
  with False show ?thesis by (auto simp: jpeg_dimensions_def jpeg_loop_result)
qed (simp add: jpeg_dimensions_def)


definition cover_ok :: "nat \<Rightarrow> VcmId3Tags \<Rightarrow> bool" where
  "cover_ok n tags \<longleftrightarrow> t_cover_size tags = 0 \<or>
     10 \<le> t_cover_offset tags \<and> 0 < t_cover_size tags \<and> t_cover_offset tags + t_cover_size tags \<le> int n \<and>
     0 < t_cover_width tags \<and> t_cover_width tags < 65536 \<and>
     0 < t_cover_height tags \<and> t_cover_height tags < 65536 \<and> t_cover_codec_type tags = 0x11"

lemma mime_differs_Some: "at + length cs \<le> length payload \<Longrightarrow> \<exists>b. mime_differs payload at cs = Some b"
  by (induction payload at cs rule: mime_differs.induct) auto

definition text_fields :: "VcmId3Tags \<Rightarrow> u8 list \<times> u8 list \<times> u8 list \<times> u8 list \<times> u8 list \<times> int" where
  "text_fields tags = (t_title tags, t_artist tags, t_album tags, t_album_artist tags, t_genre tags, t_track tags)"

lemma apic_result:
  assumes "10 \<le> offset" and "offset + length payload \<le> n" and "cover_ok n tags"
  shows "\<exists>tags'. parse_jpeg_apic payload offset tags = Some tags' \<and> cover_ok n tags' \<and>
    text_fields tags' = text_fields tags"
proof -
  have same: "?thesis" if "parse_jpeg_apic payload offset tags = Some tags"
    using that assms(3) by simp
  show ?thesis
  proof (cases "length payload < 18 \<or> t_cover_size tags \<noteq> 0")
    case True
    then show ?thesis by (intro same) (simp add: parse_jpeg_apic_def)
  next
    case False
    then have len: "18 \<le> length payload" "payload \<noteq> []" by auto
    obtain differs where d: "mime_differs payload 1 mime = Some differs"
      using mime_differs_Some [of 1 mime payload] len by (auto simp: mime_def)
    let ?p = "scan (\<lambda>c. c \<noteq> 0) payload 1"
    show ?thesis
    proof (cases "payload ! 0 > 3 \<or> ?p = length payload \<or> ?p - 1 \<noteq> 10 \<or> differs \<or> payload ! (?p + 1) \<noteq> 3")
      case True
      have f: "fetch payload 12 = Some (payload ! 12)" using len by simp
      show ?thesis
        using True False len d f by (intro same) (auto simp: parse_jpeg_apic_def Let_def)
    next
      case ok: False
      then have p: "?p = 11" by auto
      let ?q = "after_description payload (payload ! 0) 13"
      have run: "parse_jpeg_apic payload offset tags = (case ?q of None \<Rightarrow> Some tags
        | Some p \<Rightarrow> do {
            dims \<leftarrow> jpeg_dimensions (drop p payload);
            Some (case dims of None \<Rightarrow> tags
              | Some (width, height) \<Rightarrow> tags\<lparr>t_cover_offset := int (offset + p),
                  t_cover_size := int (length payload - p), t_cover_width := width, t_cover_height := height,
                  t_cover_codec_type := 0x11\<rparr>) })"
        using False len d ok p by (simp add: parse_jpeg_apic_def Let_def)
      show ?thesis
      proof (cases ?q)
        case None
        then show ?thesis using run by (intro same) simp
      next
        case (Some q)
        obtain dims where dims: "jpeg_dimensions (drop q payload) = Some dims"
          using jpeg_dimensions_result [of "drop q payload"] by (cases "jpeg_dimensions (drop q payload)") auto
        show ?thesis
        proof (cases dims)
          case None
          then show ?thesis using run Some dims by (intro same) simp
        next
          case wh: (Some x)
          obtain w h where x: "x = (w, h)" by (cases x)
          have "4 \<le> length (drop q payload)"
            using dims wh by (auto simp: jpeg_dimensions_def split: if_splits)
          then have q: "q < length payload" by simp
          have "0 < w \<and> w < 65536 \<and> 0 < h \<and> h < 65536"
            using jpeg_dimensions_result [of "drop q payload"] dims wh x by (simp add: jpeg_result_def)
          then show ?thesis
            using run Some dims wh x q assms(1,2) by (auto simp: cover_ok_def text_fields_def)
        qed
      qed
    qed
  qed
qed


subsection \<open>Decoded text\<close>

definition text_cp :: "u32 \<Rightarrow> bool" where
  "text_cp cp \<longleftrightarrow> cp \<noteq> 0 \<and> cp \<le> 0x10ffff \<and> \<not> (0xd800 \<le> cp \<and> cp \<le> 0xdfff)"

abbreviation (input) utf8 :: "u32 list \<Rightarrow> u8 list" where
  "utf8 cps \<equiv> concat (map utf8_bytes cps)"

text \<open>An array that holds the UTF-8 form of some code points, terminated.\<close>

definition holds_text :: "u8 list \<Rightarrow> u32 list \<Rightarrow> bool" where
  "holds_text out cps \<longleftrightarrow> (\<forall>cp \<in> set cps. text_cp cp) \<and> length (utf8 cps) < length out \<and>
     take (length (utf8 cps)) out = utf8 cps \<and> out ! length (utf8 cps) = 0"

lemma store_all_writes:
  "at + length bs \<le> length out \<Longrightarrow>
    store_all out at bs = Some (take at out @ bs @ drop (at + length bs) out)"
proof (induction out at bs rule: store_all.induct)
  case (1 out at)
  then show ?case by simp
next
  case (2 out at b bs)
  then show ?case by (simp add: take_update_Suc drop_update_cancel)
qed

lemma store_middle: "n = length xs \<Longrightarrow> store (xs @ y # zs) n v = Some (xs @ v # zs)"
  by simp

lemma append_utf8_result:
  assumes "holds_text out cps"
  shows "append_utf8 out (length (utf8 cps)) code =
    Some (if text_cp code \<and> length (utf8 (cps @ [code])) < length out
      then (0, (utf8 (cps @ [code]) @ [0]) @ drop (Suc (length (utf8 (cps @ [code])))) out, length (utf8 (cps @ [code])))
      else (- 1, out, length (utf8 cps)))"
proof -
  let ?u = "length (utf8 cps)" and ?b = "utf8_bytes code"
  have guard: "(code = 0 \<or> code > 0x10ffff \<or> 0xd800 \<le> code \<and> code \<le> 0xdfff) \<longleftrightarrow> \<not> text_cp code"
    by (auto simp: text_cp_def)
  show ?thesis
  proof (cases "text_cp code \<and> ?u + length ?b < length out")
    case True
    have out: "take ?u out = utf8 cps" using assms by (simp add: holds_text_def)
    have "store_all out ?u ?b = Some (utf8 cps @ ?b @ drop (?u + length ?b) out)"
      using True out by (simp add: store_all_writes)
    moreover have "store (utf8 cps @ ?b @ drop (?u + length ?b) out) (?u + length ?b) 0 =
        Some (utf8 cps @ ?b @ 0 # drop (Suc (?u + length ?b)) out)"
    proof -
      have "drop (?u + length ?b) out = out ! (?u + length ?b) # drop (Suc (?u + length ?b)) out"
        using True by (simp add: Cons_nth_drop_Suc)
      then show ?thesis
        using store_middle [of "?u + length ?b" "utf8 cps @ ?b"] by simp
    qed
    ultimately show ?thesis
      using True guard by (simp add: append_utf8_def Let_def)
  next
    case False
    then show ?thesis using guard by (auto simp: append_utf8_def Let_def)
  qed
qed

lemma holds_text_append:
  assumes "holds_text out cps" and "text_cp code" and "length (utf8 (cps @ [code])) < length out"
  shows "holds_text ((utf8 (cps @ [code]) @ [0]) @ drop (Suc (length (utf8 (cps @ [code])))) out) (cps @ [code])"
  using assms by (simp add: holds_text_def nth_append)

lemma holds_text_empty: "out \<noteq> [] \<Longrightarrow> holds_text (out[0 := 0]) []"
  by (cases out) (simp_all add: holds_text_def)

text \<open>A decoder's result: nothing faulted, and success means a nonempty terminated text.\<close>

definition decoded :: "nat \<Rightarrow> (int \<times> u8 list) option \<Rightarrow> bool" where
  "decoded n r \<longleftrightarrow> (\<exists>st out. r = Some (st, out) \<and> length out = n \<and> st \<in> {0, - 1} \<and>
     (st = 0 \<longrightarrow> (\<exists>cps. cps \<noteq> [] \<and> holds_text out cps)))"

lemma utf8_bytes_nonempty: "utf8_bytes cp \<noteq> []"
  by (simp add: utf8_bytes_def)

lemma utf8_empty [simp]: "utf8 cps = [] \<longleftrightarrow> cps = []"
  by (cases cps) (auto simp: utf8_bytes_nonempty)

lemma decoded_end:
  assumes "holds_text out cps" and "length out = n"
  shows "decoded n (Some (if length (utf8 cps) \<noteq> 0 then 0 else - 1, out))"
proof (cases "cps = []")
  case False
  then have "length (utf8 cps) \<noteq> 0" by (simp only: length_0_conv utf8_empty) simp
  moreover have "decoded n (Some (0, out))" using assms False by (auto simp: decoded_def)
  ultimately show ?thesis by (simp only: if_P not_False_eq_True if_True)
qed (use assms in \<open>simp add: decoded_def\<close>)

lemma append_then_decoded:
  assumes "holds_text out cps" and "length out = n"
    and "\<And>out'. text_cp code \<Longrightarrow> holds_text out' (cps @ [code]) \<Longrightarrow> length out' = n \<Longrightarrow>
      decoded n (k out' (length (utf8 (cps @ [code]))))"
  shows "decoded n (do { (status, out, used) \<leftarrow> append_utf8 out (length (utf8 cps)) code;
     if status \<noteq> 0 then Some (- 1, out) else k out used })"
proof (cases "text_cp code \<and> length (utf8 (cps @ [code])) < length out")
  case True
  then show ?thesis
    unfolding append_utf8_result [OF assms(1)]
    using assms(3) [OF _ holds_text_append [OF assms(1)]] assms(2) by auto
next
  case False
  then show ?thesis
    unfolding append_utf8_result [OF assms(1)] using assms(2) by (auto simp: decoded_def)
qed

lemma latin1_decoded:
  "holds_text out cps \<Longrightarrow> length out = n \<Longrightarrow> decoded n (latin1_loop cs out (length (utf8 cps)))"
proof (induction cs arbitrary: out cps)
  case Nil
  then show ?case using decoded_end by simp
next
  case (Cons c cs)
  show ?case
  proof (cases "c = 0")
    case True
    then show ?thesis using decoded_end [OF Cons.prems] by simp
  next
    case False
    have "decoded n (do { (status, out, used) \<leftarrow> append_utf8 out (length (utf8 cps)) (ucast c);
        if status \<noteq> 0 then Some (- 1, out) else latin1_loop cs out used })"
      by (rule append_then_decoded [OF Cons.prems]) (rule Cons.IH)
    then show ?thesis using False by simp
  qed
qed

lemma utf16_unit_Some: "i + 1 < length data \<Longrightarrow> \<exists>v. utf16_unit data i le = Some v"
  by (simp add: utf16_unit_def)

lemma utf16_decoded:
  "holds_text out cps \<Longrightarrow> length out = n \<Longrightarrow> decoded n (utf16_loop data le i out (length (utf8 cps)))"
proof (induction "length data - i" arbitrary: i out cps rule: less_induct)
  case less
  show ?case
  proof (cases "i + 1 < length data")
    case False
    then show ?thesis using decoded_end [OF less.prems] by (subst utf16_loop.simps) simp
  next
    case True
    obtain code where code: "utf16_unit data i le = Some code" using utf16_unit_Some [OF True] by blast
    have m: "length data - (i + 2) < length data - i" "length data - (i + 2 + 2) < length data - i"
      using True by simp_all
    show ?thesis
    proof (cases "0xd800 \<le> code \<and> code \<le> 0xdbff")
      case True
      then have nz: "code \<noteq> 0" by auto
      show ?thesis
      proof (cases "i + 3 < length data")
        case False
        then show ?thesis
          using less.prems \<open>i + 1 < length data\<close> code True nz
          by (subst utf16_loop.simps) (simp add: decoded_def)
      next
        case more: True
        then have "i + 2 + 1 < length data" by simp
        from utf16_unit_Some [OF this] obtain low where low: "utf16_unit data (i + 2) le = Some low" by blast
        have step: "decoded n (do { (status, out, used) \<leftarrow>
              append_utf8 out (length (utf8 cps)) (0x10000 + push_bit 10 (code - 0xd800) + (low - 0xdc00));
            if status \<noteq> 0 then Some (- 1, out) else utf16_loop data le (i + 2 + 2) out used })"
          by (rule append_then_decoded [OF less.prems]) (rule less.hyps [OF m(2)])
        show ?thesis
          using less.prems \<open>i + 1 < length data\<close> code True nz more low step
          by (subst utf16_loop.simps) (simp add: decoded_def)
      qed
    next
      case bmp: False
      have step: "decoded n (do { (status, out, used) \<leftarrow> append_utf8 out (length (utf8 cps)) code;
          if status \<noteq> 0 then Some (- 1, out) else utf16_loop data le (i + 2) out used })"
        by (rule append_then_decoded [OF less.prems]) (rule less.hyps [OF m(1)])
      show ?thesis
      proof (cases "code = 0")
        case z: True
        then show ?thesis
          using True code decoded_end [OF less.prems] by (subst utf16_loop.simps) simp
      next
        case False
        then show ?thesis
          using True code step by (subst utf16_loop.simps) (simp add: bmp)
      qed
    qed
  qed
qed

lemma decode_text_result: "decoded (length out) (decode_text data out)"
proof (cases "length data < 2 \<or> length out < 2")
  case True
  then show ?thesis by (auto simp: decode_text_def decoded_def)
next
  case False
  then have nn: "data \<noteq> []" "out \<noteq> []" by auto
  note h = holds_text_empty [OF nn(2)]
  show ?thesis
    using False nn latin1_decoded [OF h, of "length out"] utf16_decoded [OF h, of "length out"]
    by (auto simp: decode_text_def) (auto simp: decoded_def)
qed


subsection \<open>The whole tag\<close>

definition text_ok :: "nat \<Rightarrow> u8 list \<Rightarrow> bool" where
  "text_ok n a \<longleftrightarrow> length a = n \<and> (\<exists>cps. holds_text a cps)"

definition tags_ok :: "nat \<Rightarrow> VcmId3Tags \<Rightarrow> bool" where
  "tags_ok n tags \<longleftrightarrow>
     text_ok 256 (t_title tags) \<and> text_ok 256 (t_artist tags) \<and> text_ok 256 (t_album tags) \<and>
     text_ok 256 (t_album_artist tags) \<and> text_ok 128 (t_genre tags) \<and>
     0 \<le> t_track tags \<and> t_track tags \<le> 9999 \<and> cover_ok n tags"

lemma cover_ok_text [simp]:
  "cover_ok n (tags\<lparr>t_title := x\<rparr>) = cover_ok n tags" "cover_ok n (tags\<lparr>t_artist := x\<rparr>) = cover_ok n tags"
  "cover_ok n (tags\<lparr>t_album := x\<rparr>) = cover_ok n tags" "cover_ok n (tags\<lparr>t_album_artist := x\<rparr>) = cover_ok n tags"
  "cover_ok n (tags\<lparr>t_genre := x\<rparr>) = cover_ok n tags" "cover_ok n (tags\<lparr>t_track := k\<rparr>) = cover_ok n tags"
  by (simp_all add: cover_ok_def)

lemma track_loop_result:
  "0 \<in> set vs \<Longrightarrow> \<exists>r. track_loop vs result digits = Some r"
  by (induction vs result digits rule: track_loop.induct) auto

lemma parse_track_result:
  assumes "0 \<in> set vs"
  shows "\<exists>r. parse_track vs = Some r \<and> (\<forall>n. r = Some n \<longrightarrow> 0 < n \<and> n \<le> 9999)"
  using track_loop_result [OF assms, of 0 0] by (auto simp: parse_track_def split: option.split)

lemma equals4_Some: "4 \<le> length a \<Longrightarrow> length b = 4 \<Longrightarrow> \<exists>r. equals4 a b = Some r"
proof -
  assume "4 \<le> length a" and "length b = 4"
  moreover from this have "a \<noteq> []" "b \<noteq> []" by auto
  ultimately show ?thesis by (simp add: equals4_def)
qed

definition frame_done :: "nat \<Rightarrow> (int \<times> VcmId3Tags) option \<Rightarrow> bool" where
  "frame_done n r \<longleftrightarrow> (\<exists>st tags. r = Some (st, tags) \<and> (st = 0 \<longrightarrow> tags_ok n tags))"

lemma text_frame_done:
  assumes "length (get tags) = m" and "\<And>out. text_ok m out \<Longrightarrow> tags_ok n (set1 out)"
  shows "frame_done n (do { (status, out) \<leftarrow> decode_text payload (get tags); Some (status, set1 out) })"
proof -
  obtain st out where "decode_text payload (get tags) = Some (st, out)" "length out = m"
    "st = 0 \<longrightarrow> (\<exists>cps. holds_text out cps)"
    using decode_text_result [of "get tags" payload] assms(1) by (auto simp: decoded_def)
  then show ?thesis using assms(2) by (auto simp: frame_done_def text_ok_def)
qed

lemma holds_text_terminated: "holds_text out cps \<Longrightarrow> 0 \<in> set out"
  unfolding holds_text_def by (metis nth_mem)

lemma track_frame_done:
  assumes "tags_ok n tags"
  shows "frame_done n (do { (status, track_text) \<leftarrow> decode_text payload garbage;
       if status = 0 then do {
         track \<leftarrow> parse_track track_text;
         Some (case track of None \<Rightarrow> (- 1, tags) | Some n \<Rightarrow> (0, tags\<lparr>t_track := n\<rparr>))
       } else Some (status, tags) })"
proof -
  obtain st out where d: "decode_text payload garbage = Some (st, out)"
    "st = 0 \<longrightarrow> (\<exists>cps. holds_text out cps)"
    using decode_text_result [of garbage payload] by (auto simp: decoded_def)
  show ?thesis
  proof (cases "st = 0")
    case True
    then obtain r where "parse_track out = Some r" "\<forall>n. r = Some n \<longrightarrow> 0 < n \<and> n \<le> 9999"
      using d(2) holds_text_terminated parse_track_result by blast
    then show ?thesis
      using d True assms by (cases r) (auto simp: frame_done_def tags_ok_def)
  next
    case False
    then show ?thesis using d assms by (auto simp: frame_done_def)
  qed
qed

lemma apic_frame_done:
  assumes "10 \<le> offset" and "offset + length payload \<le> n" and "tags_ok n tags"
  shows "frame_done n (do { tags \<leftarrow> parse_jpeg_apic payload offset tags; Some (0, tags) })"
  using apic_result [OF assms(1,2), of tags] assms(3)
  by (auto simp: frame_done_def tags_ok_def text_fields_def)

lemma apply_frame_result:
  assumes "4 \<le> length frame" and "10 \<le> offset" and "offset + length payload \<le> n" and "tags_ok n tags"
  shows "frame_done n (apply_frame garbage frame payload offset tags)"
proof -
  have fields: "frame_done n (do { (status, out) \<leftarrow> decode_text payload (t_title tags); Some (status, tags\<lparr>t_title := out\<rparr>) })"
    "frame_done n (do { (status, out) \<leftarrow> decode_text payload (t_artist tags); Some (status, tags\<lparr>t_artist := out\<rparr>) })"
    "frame_done n (do { (status, out) \<leftarrow> decode_text payload (t_album tags); Some (status, tags\<lparr>t_album := out\<rparr>) })"
    "frame_done n (do { (status, out) \<leftarrow> decode_text payload (t_album_artist tags); Some (status, tags\<lparr>t_album_artist := out\<rparr>) })"
    "frame_done n (do { (status, out) \<leftarrow> decode_text payload (t_genre tags); Some (status, tags\<lparr>t_genre := out\<rparr>) })"
    using assms(4) by (auto intro!: text_frame_done simp: tags_ok_def text_ok_def)
  have none: "frame_done n (Some (0, tags))" using assms(4) by (simp add: frame_done_def)
  have id: "\<exists>r. equals4 frame (ascii s) = Some r" if "length s = 4" for s
    using equals4_Some [OF assms(1)] that by (simp add: ascii_def)
  obtain e1 e2 e3 e4 e5 e6 e7 where eqs:
    "equals4 frame (ascii ''TIT2'') = Some e1" "equals4 frame (ascii ''TPE1'') = Some e2"
    "equals4 frame (ascii ''TALB'') = Some e3" "equals4 frame (ascii ''TPE2'') = Some e4"
    "equals4 frame (ascii ''TCON'') = Some e5" "equals4 frame (ascii ''APIC'') = Some e6"
    "equals4 frame (ascii ''TRCK'') = Some e7"
    using id [of "''TIT2''"] id [of "''TPE1''"] id [of "''TALB''"] id [of "''TPE2''"] id [of "''TCON''"]
      id [of "''APIC''"] id [of "''TRCK''"] by (simp del: ascii_simps) blast
  show ?thesis
    unfolding apply_frame_def eqs
    using fields none track_frame_done [OF assms(4)] apic_frame_done [OF assms(2-4)] by simp
qed


lemma parse_loop_result:
  assumes "end1 \<le> length data" and "10 \<le> pos" and "tags_ok (length data) tags"
  shows "frame_done (length data) (parse_loop garbage data end1 pos tags)"
  using assms(2,3)
proof (induction "end1 - pos" arbitrary: pos tags rule: less_induct)
  case less
  show ?case
  proof (cases "pos + 10 \<le> end1")
    case False
    then show ?thesis using less.prems by (subst parse_loop.simps) (simp add: frame_done_def)
  next
    case True
    let ?f = "drop pos data"
    have len: "10 \<le> length ?f" using True assms(1) by simp
    then have "4 \<le> length (drop 4 ?f)" by simp
    then obtain size1 where size1: "be32 (drop 4 ?f) = Some size1" using be32_Some by blast
    have f: "fetch ?f k = Some (?f ! k)" if "k < 10" for k using len that by simp
    show ?thesis
    proof (cases "size1 = 0 \<or> unat size1 > end1 - pos - 10 \<or> ?f ! 8 \<noteq> 0 \<or> ?f ! 9 \<noteq> 0 \<or>
        ?f ! 0 = 0 \<and> ?f ! 1 = 0 \<and> ?f ! 2 = 0 \<and> ?f ! 3 = 0")
      case stop: True
      then show ?thesis
        using True size1 f [of 0] f [of 1] f [of 2] f [of 3] f [of 8] f [of 9] less.prems(2)
        by (subst parse_loop.simps) (auto simp: Let_def frame_done_def)
    next
      case go: False
      let ?payload = "take (unat size1) (drop 10 ?f)"
      have "pos + 10 + length ?payload \<le> length data" using go True assms(1) by auto
      then have "frame_done (length data) (apply_frame garbage ?f ?payload (pos + 10) tags)"
        using less.prems len by (intro apply_frame_result) simp_all
      then obtain st tags' where fr: "apply_frame garbage ?f ?payload (pos + 10) tags = Some (st, tags')"
        "st = 0 \<longrightarrow> tags_ok (length data) tags'" by (auto simp: frame_done_def)
      have run: "parse_loop garbage data end1 pos tags =
          (if st \<noteq> 0 then Some (- 1, tags') else parse_loop garbage data end1 (pos + (10 + unat size1)) tags')"
        using True size1 f [of 0] f [of 1] f [of 2] f [of 3] f [of 8] f [of 9] go fr(1)
        by (subst parse_loop.simps) (auto simp: Let_def)
      show ?thesis
        using run fr(2) less.hyps [of "pos + (10 + unat size1)" tags'] less.prems(1) True
        by (simp add: frame_done_def)
    qed
  qed
qed

lemma clear_tags_ok: "tags_ok n clear_tags"
proof -
  have "holds_text (replicate 256 0) []" "holds_text (replicate 128 0) []" by (simp_all add: holds_text_def)
  then show ?thesis by (auto simp: tags_ok_def clear_tags_def text_ok_def cover_ok_def)
qed

lemma artist_loop_result:
  assumes "length album = 256" and "length artist = 256" and "0 \<in> set artist" and "i < 256"
    and "\<forall>k < i. artist ! k \<noteq> 0" and "take i album = take i artist"
  shows "\<exists>out n. artist_loop artist album i = Some (out, n) \<and> length out = 256 \<and> n < 256 \<and>
    take n out = take n artist \<and> artist ! n = 0 \<and> (\<forall>k < n. artist ! k \<noteq> 0)"
  using assms
proof (induction "256 - i" arbitrary: i album rule: less_induct)
  case less
  show ?case
  proof (cases "artist ! i = 0")
    case True
    then show ?thesis using less.prems by (subst artist_loop.simps) simp
  next
    case False
    obtain k where "k < 256" "artist ! k = 0" using less.prems(2,3) by (metis in_set_conv_nth)
    moreover have "\<not> k < Suc i" using calculation False less.prems(5) by (metis less_antisym)
    ultimately have i: "i + 1 < 256" by simp
    have step: "artist_loop artist album i = artist_loop artist (album[i := artist ! i]) (i + 1)"
      using False i less.prems(1,2) by (subst artist_loop.simps) simp
    have "take (Suc i) (album[i := artist ! i]) = take (Suc i) artist"
      using less.prems(1,2,6) i by (simp add: take_update_Suc take_Suc_conv_app_nth)
    then show ?thesis
      unfolding step using less.hyps [of "i + 1" "album[i := artist ! i]"] less.prems(1-3,5) False i
      by (simp add: less_Suc_eq)
  qed
qed

text \<open>What an accepted tag holds, for an input of \<open>n\<close> bytes.\<close>

definition accepted_tags :: "nat \<Rightarrow> VcmId3Tags \<Rightarrow> bool" where
  "accepted_tags n tags \<longleftrightarrow> tags_ok n tags \<and>
     t_title tags ! 0 \<noteq> 0 \<and> t_artist tags ! 0 \<noteq> 0 \<and> t_album_artist tags ! 0 \<noteq> 0"

lemma text_ok_copy:
  assumes "text_ok 256 a" and "length out = 256" and "n < 256" and "take n out = take n a" and "a ! n = 0"
    and "\<forall>k < n. a ! k \<noteq> 0"
  shows "text_ok 256 (out[n := 0])"
proof -
  obtain cps where cps: "holds_text a cps" using assms(1) by (auto simp: text_ok_def)
  let ?m = "length (utf8 cps)"
  have "\<not> ?m < n" using cps assms(6) by (auto simp: holds_text_def)
  moreover have "\<not> n < ?m"
  proof
    assume n: "n < ?m"
    have "a ! n = utf8 cps ! n" using cps n by (metis holds_text_def nth_take)
    moreover have "utf8 cps ! n \<in> set (utf8 cps)" using n by (rule nth_mem)
    ultimately show False
      using cps assms(5) utf8_nonzero by (auto simp: holds_text_def text_cp_def)
  qed
  ultimately have "n = ?m" by simp
  then have "holds_text (out[n := 0]) cps"
    using cps assms(2-4) by (simp add: holds_text_def)
  then show ?thesis using assms(2) by (auto simp: text_ok_def)
qed

definition id3_done :: "nat \<Rightarrow> (int \<times> VcmId3Tags) option \<Rightarrow> bool" where
  "id3_done n r \<longleftrightarrow>
     (\<exists>st tags. r = Some (st, tags) \<and> st \<in> {0, - 1} \<and> (st = 0 \<longrightarrow> accepted_tags n tags))"

lemma finish_tags_result:
  assumes "tags_ok n tags"
  shows "id3_done n (finish_tags tags)"
proof -
  have len: "length (t_title tags) = 256" "length (t_artist tags) = 256" "length (t_album_artist tags) = 256"
    and artist: "text_ok 256 (t_artist tags)"
    using assms by (auto simp: tags_ok_def text_ok_def)
  then have f: "fetch (t_title tags) 0 = Some (t_title tags ! 0)" "fetch (t_artist tags) 0 = Some (t_artist tags ! 0)"
    "fetch (t_album_artist tags) 0 = Some (t_album_artist tags ! 0)"
    by (auto simp: fetch_def)
  show ?thesis
  proof (cases "t_title tags ! 0 \<noteq> 0 \<and> t_artist tags ! 0 \<noteq> 0 \<and> t_album_artist tags ! 0 = 0")
    case False
    then show ?thesis
      using f assms by (auto simp: finish_tags_def id3_done_def accepted_tags_def)
  next
    case True
    have "0 \<in> set (t_artist tags)" using artist holds_text_terminated by (auto simp: text_ok_def)
    then obtain out n1 where loop: "artist_loop (t_artist tags) (t_album_artist tags) 0 = Some (out, n1)"
      "length out = 256" "n1 < 256" "take n1 out = take n1 (t_artist tags)" "t_artist tags ! n1 = 0"
      "\<forall>k < n1. t_artist tags ! k \<noteq> 0"
      using artist_loop_result [OF len(3,2), of 0] by auto
    have copy: "text_ok 256 (out[n1 := 0])" by (rule text_ok_copy [OF artist loop(2-6)])
    have pos: "0 < n1" using loop(5) True by (cases n1) auto
    then have "out[n1 := 0] ! 0 = t_artist tags ! 0" using loop(2-4) by (metis nth_list_update_neq nth_take less_not_refl)
    then have "accepted_tags n (tags\<lparr>t_album_artist := out[n1 := 0]\<rparr>)"
      using assms copy True by (simp add: accepted_tags_def tags_ok_def)
    then show ?thesis
      using f True loop len by (simp add: finish_tags_def id3_done_def)
  qed
qed

lemma parse_id3_result: "id3_done (length data) (vcm_parse_id3v23 garbage (Some data) tags)"
proof (cases "length data < 10")
  case True
  then show ?thesis by (simp add: vcm_parse_id3v23_def id3_done_def)
next
  case False
  then have f: "fetch data k = Some (data ! k)" if "k < 10" for k using that by simp
  let ?size = "unat (push_bit 21 (ucast (data ! 6)) OR push_bit 14 (ucast (data ! 7)) OR
    push_bit 7 (ucast (data ! 8)) OR ucast (data ! 9) :: u32)"
  have loop: "frame_done (length data) (parse_loop garbage data (10 + ?size) 10 clear_tags)"
    if "\<not> ?size > length data - 10"
    using that False clear_tags_ok by (intro parse_loop_result) auto
  have tail: "id3_done (length data) (do { (status, tags) \<leftarrow> parse_loop garbage data (10 + ?size) 10 clear_tags;
      if status \<noteq> 0 then Some (- 1, tags) else finish_tags tags })" if fits: "\<not> ?size > length data - 10"
  proof -
    obtain st tags' where "parse_loop garbage data (10 + ?size) 10 clear_tags = Some (st, tags')"
      "st = 0 \<longrightarrow> tags_ok (length data) tags'"
      using loop [OF fits] by (auto simp: frame_done_def)
    then show ?thesis using finish_tags_result by (auto simp: id3_done_def)
  qed
  show ?thesis
    using False f [of 0] f [of 1] f [of 2] f [of 3] f [of 4] f [of 5] f [of 6] f [of 7] f [of 8] f [of 9] tail
    by (simp add: vcm_parse_id3v23_def Let_def) (simp add: id3_done_def)
qed

subsection \<open>Track numbers\<close>

definition decimal :: "nat list \<Rightarrow> int" where
  "decimal ds = foldl (\<lambda>a d. a * 10 + int d) 0 ds"

lemma digit_byte: "d < 10 \<Longrightarrow> 0x30 \<le> (0x30 + of_nat d :: u8) \<and> (0x30 + of_nat d :: u8) \<le> 0x39 \<and>
    uint (0x30 + of_nat d :: u8) - 0x30 = int d"
proof -
  assume "d < 10"
  then have "d = 0 \<or> d = 1 \<or> d = 2 \<or> d = 3 \<or> d = 4 \<or> d = 5 \<or> d = 6 \<or> d = 7 \<or> d = 8 \<or> d = 9" by auto
  then show ?thesis by (elim disjE) simp_all
qed

lemma decimal_grows: "0 \<le> a \<Longrightarrow> a \<le> foldl (\<lambda>a d. a * 10 + int d) a ds"
proof (induction ds arbitrary: a)
  case (Cons d ds)
  have "a \<le> a * 10 + int d" using Cons.prems by simp
  also have "\<dots> \<le> foldl (\<lambda>a d. a * 10 + int d) (a * 10 + int d) ds" using Cons by simp
  finally show ?case by simp
qed simp

lemma track_loop_digits:
  assumes "\<forall>d \<in> set ds. d < 10" and "\<not> (0x30 \<le> c \<and> c \<le> 0x39)" and "0 \<le> result"
  shows "track_loop (map (\<lambda>d. 0x30 + of_nat d) ds @ c # rest) result digits =
    Some (if \<exists>k < length ds. foldl (\<lambda>a d. a * 10 + int d) result (take k ds) > 9999 then None
      else Some (foldl (\<lambda>a d. a * 10 + int d) result ds, digits + int (length ds)))"
  using assms
proof (induction ds arbitrary: result digits)
  case Nil
  then show ?case by auto
next
  case (Cons d ds)
  note d = digit_byte [of d]
  have ex: "(\<exists>k < Suc n. P k) \<longleftrightarrow> P 0 \<or> (\<exists>k < n. P (Suc k))" for n and P :: "nat \<Rightarrow> bool"
    by (simp add: Ex_less_Suc2)
  show ?case
    using Cons.IH [of "result * 10 + int d" "digits + 1"] Cons.prems d by (auto simp: ex)
qed

lemma parse_track_digits:
  assumes "\<forall>d \<in> set ds. d < 10" and "\<not> (0x30 \<le> c \<and> c \<le> 0x39)"
  shows "parse_track (map (\<lambda>d. 0x30 + of_nat d) ds @ c # rest) =
    Some (if 0 < decimal ds \<and> decimal ds \<le> 9999 then Some (decimal ds) else None)"
proof (cases "\<exists>k < length ds. foldl (\<lambda>a d. a * 10 + int d) 0 (take k ds) > 9999")
  case True
  then obtain k where k: "9999 < foldl (\<lambda>a d. a * 10 + int d) 0 (take k ds)" by blast
  have "foldl (\<lambda>a d. a * 10 + int d) 0 (take k ds) \<le>
      foldl (\<lambda>a d. a * 10 + int d) (foldl (\<lambda>a d. a * 10 + int d) 0 (take k ds)) (drop k ds)"
    using decimal_grows [of 0 "take k ds"] by (intro decimal_grows) simp
  also have "\<dots> = decimal ds" by (simp add: decimal_def flip: foldl_append)
  finally show ?thesis
    using True k track_loop_digits [OF assms, of 0 rest 0] by (simp add: parse_track_def)
next
  case False
  then show ?thesis
    using track_loop_digits [OF assms, of 0 rest 0]
    by (cases ds) (auto simp: parse_track_def decimal_def)
qed

subsection \<open>Properties\<close>

definition sample_tag :: "u8 list" where
  "sample_tag = [0x49, 0x44, 0x33, 3, 0, 0, 0, 0, 0, 24] @
     ascii ''TIT2'' @ [0, 0, 0, 2, 0, 0, 0, 0x41] @ ascii ''TPE1'' @ [0, 0, 0, 2, 0, 0, 0, 0x42]"

text \<open>
  C20. No input makes the tag reader read or write outside its arrays or run forever; it returns 0
  or -1. An accepted tag has terminated, well-formed UTF-8 texts with a title, an artist and an
  album artist, a track number of at most 9999, and a cover that lies inside the input and has
  positive dimensions.
\<close>

theorem id3_safe:
  shows "\<exists>st tags'. vcm_parse_id3v23 garbage (Some data) tags = Some (st, tags') \<and> st \<in> {0, - 1} \<and>
    (st = 0 \<longrightarrow> accepted_tags (length data) tags')"
  using parse_id3_result [of data garbage tags] by (simp add: id3_done_def)

theorem id3_safe_witness:
  "\<exists>tags'. vcm_parse_id3v23 (replicate 32 0) (Some sample_tag) clear_tags = Some (0, tags') \<and>
    accepted_tags 34 tags' \<and> c_string (t_title tags') = Some (ascii ''A'')"
proof -
  obtain tags' where run: "vcm_parse_id3v23 (replicate 32 0) (Some sample_tag) clear_tags = Some (0, tags')"
    "c_string (t_title tags') = Some (ascii ''A'')"
  proof -
    have "(case vcm_parse_id3v23 (replicate 32 0) (Some sample_tag) clear_tags of
        None \<Rightarrow> False | Some (st, tags') \<Rightarrow> st = 0 \<and> c_string (t_title tags') = Some (ascii ''A''))"
      by code_simp
    then show thesis using that by (auto split: option.splits)
  qed
  have "length sample_tag = 34" by (simp add: sample_tag_def)
  with id3_safe [of "replicate 32 0" sample_tag clear_tags] run show ?thesis by auto
qed

text \<open>
  A track text is read as the decimal number of its leading digits when that is between 1 and
  9999, and refused otherwise, without overflow however many digits there are.
\<close>

theorem track_number_read:
  assumes "\<forall>d \<in> set ds. d < 10" and "\<not> (0x30 \<le> c \<and> c \<le> 0x39)"
  shows "parse_track (map (\<lambda>d. 0x30 + of_nat d) ds @ c # rest) =
    Some (if 0 < decimal ds \<and> decimal ds \<le> 9999 then Some (decimal ds) else None)"
  using assms by (rule parse_track_digits)

theorem track_number_read_witness:
  "parse_track (ascii ''12/30'' @ [0]) = Some (Some 12)"
  using track_number_read [of "[1, 2]" "0x2f" "ascii ''30'' @ [0]"] by (simp add: decimal_def)

end
