(* ===== verification/Text_Path.thy ===== *)
theory Text_Path
  imports Id3_Tags Mtp_Wire
begin

text \<open>
  The path of a text from an ID3 frame to an MTP host: the UTF-8 encoder of
  \<^verbatim>\<open>src/vita/id3_tags.c\<close> against the UTF-8 decoder of \<^verbatim>\<open>src/vita/mtp_wire.c\<close>. Each reverses
  the other on printable code points, so the UTF-16 units of a frame arrive unchanged.
\<close>

subsection \<open>UTF-8 bytes read back\<close>


text \<open>Bit positions of a byte and of a 32-bit word, listed for case analysis.\<close>

lemma below_byte_length: "n < LENGTH(8) \<Longrightarrow> n \<in> {0, 1, 2, 3, 4, 5, 6, 7}"
  by auto

lemma below_word_length:
  "n < LENGTH(32) \<Longrightarrow> n \<in> {0, 1, 2, 3, 4, 5, 6, 7, 8, 9, 10, 11, 12, 13, 14, 15,
     16, 17, 18, 19, 20, 21, 22, 23, 24, 25, 26, 27, 28, 29, 30, 31}"
  by (simp; presburger)

lemma two_bytes:
  fixes code :: u32
  assumes "unat code < 2 ^ 11"
  shows "push_bit 6 (ucast ((ucast (0xc0 OR drop_bit 6 code) :: u8) AND 0x1f)) OR
    ucast ((ucast (0x80 OR (code AND 0x3f)) :: u8) AND 0x3f) = code"
proof (rule bit_word_eqI)
  fix n assume "n < LENGTH(32)"
  show "bit (push_bit 6 (ucast ((ucast (0xc0 OR drop_bit 6 code) :: u8) AND 0x1f)) OR
    ucast ((ucast (0x80 OR (code AND 0x3f)) :: u8) AND 0x3f) :: u32) n = bit code n"
  proof (cases "n < 11")
    case True
    with below_word_length [OF \<open>n < LENGTH(32)\<close>] show ?thesis
      by (elim insertE emptyE) (simp_all add: bit_simps)
  next
    case False
    with below_word_length [OF \<open>n < LENGTH(32)\<close>] show ?thesis
      using small_bits [OF assms, of n] by (elim insertE emptyE) (simp_all add: bit_simps)
  qed
qed

lemma three_bytes:
  fixes code :: u32
  assumes "unat code < 2 ^ 16"
  shows "push_bit 12 (ucast ((ucast (0xe0 OR drop_bit 12 code) :: u8) AND 0x0f)) OR
    push_bit 6 (ucast ((ucast (0x80 OR (drop_bit 6 code AND 0x3f)) :: u8) AND 0x3f)) OR
    ucast ((ucast (0x80 OR (code AND 0x3f)) :: u8) AND 0x3f) = code"
proof (rule bit_word_eqI)
  fix n assume "n < LENGTH(32)"
  show "bit (push_bit 12 (ucast ((ucast (0xe0 OR drop_bit 12 code) :: u8) AND 0x0f)) OR
    push_bit 6 (ucast ((ucast (0x80 OR (drop_bit 6 code AND 0x3f)) :: u8) AND 0x3f)) OR
    ucast ((ucast (0x80 OR (code AND 0x3f)) :: u8) AND 0x3f) :: u32) n = bit code n"
  proof (cases "n < 16")
    case True
    with below_word_length [OF \<open>n < LENGTH(32)\<close>] show ?thesis
      by (elim insertE emptyE) (simp_all add: bit_simps)
  next
    case False
    with below_word_length [OF \<open>n < LENGTH(32)\<close>] show ?thesis
      using small_bits [OF assms, of n] by (elim insertE emptyE) (simp_all add: bit_simps)
  qed
qed

lemma four_bytes:
  fixes code :: u32
  assumes "unat code < 2 ^ 21"
  shows "push_bit 18 (ucast ((ucast (0xf0 OR drop_bit 18 code) :: u8) AND 7)) OR
    push_bit 12 (ucast ((ucast (0x80 OR (drop_bit 12 code AND 0x3f)) :: u8) AND 0x3f)) OR
    push_bit 6 (ucast ((ucast (0x80 OR (drop_bit 6 code AND 0x3f)) :: u8) AND 0x3f)) OR
    ucast ((ucast (0x80 OR (code AND 0x3f)) :: u8) AND 0x3f) = code"
proof (rule bit_word_eqI)
  fix n assume "n < LENGTH(32)"
  show "bit (push_bit 18 (ucast ((ucast (0xf0 OR drop_bit 18 code) :: u8) AND 7)) OR
    push_bit 12 (ucast ((ucast (0x80 OR (drop_bit 12 code AND 0x3f)) :: u8) AND 0x3f)) OR
    push_bit 6 (ucast ((ucast (0x80 OR (drop_bit 6 code AND 0x3f)) :: u8) AND 0x3f)) OR
    ucast ((ucast (0x80 OR (code AND 0x3f)) :: u8) AND 0x3f) :: u32) n = bit code n"
  proof (cases "n < 21")
    case True
    with below_word_length [OF \<open>n < LENGTH(32)\<close>] show ?thesis
      by (elim insertE emptyE) (simp_all add: bit_simps)
  next
    case False
    with below_word_length [OF \<open>n < LENGTH(32)\<close>] show ?thesis
      using small_bits [OF assms, of n] by (elim insertE emptyE) (simp_all add: bit_simps)
  qed
qed

lemma continuation:
  "(ucast (0x80 OR (x AND 0x3f) :: u32) :: u8) AND 0xc0 = 0x80"
proof (rule bit_word_eqI)
  fix n assume "n < LENGTH(8)"
  from below_byte_length [OF this] show "bit ((ucast (0x80 OR (x AND 0x3f) :: u32) :: u8) AND 0xc0) n = bit (0x80 :: u8) n"
    by (elim insertE emptyE) (simp_all add: bit_simps)
qed

lemma leading:
  "unat code < 2 ^ 11 \<Longrightarrow> (ucast (0xc0 OR drop_bit 6 code :: u32) :: u8) AND 0xe0 = 0xc0"
  "unat code < 2 ^ 16 \<Longrightarrow> (ucast (0xe0 OR drop_bit 12 code :: u32) :: u8) AND 0xf0 = 0xe0"
  "unat code < 2 ^ 21 \<Longrightarrow> (ucast (0xf0 OR drop_bit 18 code :: u32) :: u8) AND 0xf8 = 0xf0"
proof -
  note n = below_byte_length
  show "(ucast (0xc0 OR drop_bit 6 code :: u32) :: u8) AND 0xe0 = 0xc0" if "unat code < 2 ^ 11"
  proof (rule bit_word_eqI)
    fix n assume "n < LENGTH(8)"
    from n [OF this] show "bit ((ucast (0xc0 OR drop_bit 6 code :: u32) :: u8) AND 0xe0) n = bit (0xc0 :: u8) n"
      using small_bits [OF that, of 11] by (elim insertE emptyE) (simp_all add: bit_simps)
  qed
  show "(ucast (0xe0 OR drop_bit 12 code :: u32) :: u8) AND 0xf0 = 0xe0" if "unat code < 2 ^ 16"
  proof (rule bit_word_eqI)
    fix n assume "n < LENGTH(8)"
    from n [OF this] show "bit ((ucast (0xe0 OR drop_bit 12 code :: u32) :: u8) AND 0xf0) n = bit (0xe0 :: u8) n"
      using small_bits [OF that, of 16] by (elim insertE emptyE) (simp_all add: bit_simps)
  qed
  show "(ucast (0xf0 OR drop_bit 18 code :: u32) :: u8) AND 0xf8 = 0xf0" if "unat code < 2 ^ 21"
  proof (rule bit_word_eqI)
    fix n assume "n < LENGTH(8)"
    from n [OF this] show "bit ((ucast (0xf0 OR drop_bit 18 code :: u32) :: u8) AND 0xf8) n = bit (0xf0 :: u8) n"
      using small_bits [OF that, of 21] by (elim insertE emptyE) (simp_all add: bit_simps)
  qed
qed

lemma high_not_ascii:
  "\<not> (ucast (0xc0 OR x :: u32) :: u8) < 0x80" "\<not> (ucast (0xe0 OR x :: u32) :: u8) < 0x80"
  "\<not> (ucast (0xf0 OR x :: u32) :: u8) < 0x80"
proof -
  have "\<not> (ucast (m OR x :: u32) :: u8) < 0x80" if "bit m 7" for m
  proof
    assume "(ucast (m OR x :: u32) :: u8) < 0x80"
    then have "unat (ucast (m OR x :: u32) :: u8) < 2 ^ 7" by (simp add: word_less_nat_alt)
    from small_bits [OF this, of 7] that show False by (simp add: bit_simps)
  qed
  from this [of "0xc0"] this [of "0xe0"] this [of "0xf0"]
  show "\<not> (ucast (0xc0 OR x :: u32) :: u8) < 0x80" "\<not> (ucast (0xe0 OR x :: u32) :: u8) < 0x80"
    "\<not> (ucast (0xf0 OR x :: u32) :: u8) < 0x80" by simp_all
qed

lemma lead_distinct:
  fixes c :: u8
  shows "c AND 0xf0 = 0xe0 \<Longrightarrow> c AND 0xe0 \<noteq> 0xc0" and "c AND 0xf8 = 0xf0 \<Longrightarrow> c AND 0xe0 \<noteq> 0xc0"
    and "c AND 0xf8 = 0xf0 \<Longrightarrow> c AND 0xf0 \<noteq> 0xe0"
proof -
  have b: "bit (c AND m) k = (bit c k \<and> bit m k)" for m k by (simp add: bit_simps)
  show "c AND 0xe0 \<noteq> 0xc0" if "c AND 0xf0 = 0xe0"
    using b [of "0xf0" 5] b [of "0xe0" 5] unfolding that by auto
  show "c AND 0xe0 \<noteq> 0xc0" if "c AND 0xf8 = 0xf0"
    using b [of "0xf8" 5] b [of "0xe0" 5] unfolding that by auto
  show "c AND 0xf0 \<noteq> 0xe0" if "c AND 0xf8 = 0xf0"
    using b [of "0xf8" 4] b [of "0xf0" 4] unfolding that by auto
qed

lemma c_at_numerals: "c_at (a # b # c # r) 2 = c" "c_at (a # b # c # d # r) 3 = d"
  by (simp_all add: c_at_def)

text \<open>Reading back the UTF-8 form of a printable code point gives the code point.\<close>

lemma next_cp_utf8:
  assumes "0x20 \<le> cp" and "cp \<le> 0x10ffff" and "\<not> (0xd800 \<le> cp \<and> cp \<le> 0xdfff)"
  shows "next_cp (utf8_bytes cp @ rest) = (cp, rest)"
proof -
  have u: "unat cp \<le> 0x10ffff" using assms(2) by (simp add: word_le_nat_alt)
  have final: "\<not> (cp < 0x20 \<or> 0xd800 \<le> cp \<and> cp \<le> 0xdfff)" using assms(1,3) by auto
  note nz = high_byte_nonzero(1)
  consider "cp < 0x80" | "\<not> cp < 0x80" "cp < 0x800" | "\<not> cp < 0x800" "cp < 0x10000" | "\<not> cp < 0x10000"
    by blast
  then show ?thesis
  proof cases
    case 1
    then have n: "unat cp < 0x80" by (simp add: word_less_nat_alt)
    then have v: "unat (ucast cp :: u8) = unat cp" by (simp add: unsigned_ucast_eq take_bit_nat_eq_self)
    then have "(ucast cp :: u8) < 0x80" using n by (simp add: word_less_nat_alt)
    moreover have "(ucast (ucast cp :: u8) :: u32) = cp" using v by (simp add: word_unat_eq_iff)
    ultimately show ?thesis using 1 final by (auto simp: next_cp_def utf8_bytes_def c_at_def)
  next
    case 2
    then have n: "unat cp < 2 ^ 11" by (simp add: word_less_nat_alt)
    show ?thesis
      using 2 final leading(1) [OF n] continuation [of cp] two_bytes [OF n] nz high_not_ascii(1)
      by (auto simp: next_cp_def utf8_bytes_def Let_def c_at_numerals)
  next
    case 3
    then have n: "unat cp < 2 ^ 16" and m: "\<not> cp < 0x80" by (simp_all add: word_less_nat_alt)
    show ?thesis
      using 3 m final leading(2) [OF n] lead_distinct(1) [OF leading(2) [OF n]] continuation three_bytes [OF n] nz high_not_ascii(2)
      by (auto simp: next_cp_def utf8_bytes_def Let_def c_at_numerals)
  next
    case 4
    have n: "unat cp < 2 ^ 21" and m: "\<not> cp < 0x80" "\<not> cp < 0x800"
      using u 4 by (simp_all add: word_less_nat_alt)
    show ?thesis
      using 4 m final assms(2) leading(3) [OF n] lead_distinct(2,3) [OF leading(3) [OF n]] continuation four_bytes [OF n] nz high_not_ascii(3)
      by (auto simp: next_cp_def utf8_bytes_def Let_def c_at_numerals)
  qed
qed


subsection \<open>From an ID3 frame to an MTP string\<close>

definition printable :: "u32 \<Rightarrow> bool" where
  "printable cp \<longleftrightarrow> 0x20 \<le> cp \<and> cp \<le> 0x10ffff \<and> \<not> (0xd800 \<le> cp \<and> cp \<le> 0xdfff)"

lemma printable_text: "printable cp \<Longrightarrow> text_cp cp"
  by (auto simp: printable_def text_cp_def)

lemma utf8_bytes_start: "cp \<noteq> 0 \<Longrightarrow> c_at (utf8_bytes cp @ rest) 0 \<noteq> 0"
  using utf8_nonzero [of cp] utf8_bytes_nonempty [of cp] by (cases "utf8_bytes cp") auto

lemma utf8_cps_utf8: "\<forall>cp \<in> set cps. printable cp \<Longrightarrow> utf8_cps (utf8 cps) = cps"
proof (induction cps)
  case Nil
  then show ?case by (subst utf8_cps_unfold) simp
next
  case (Cons cp cps)
  then have "cp \<noteq> 0" by (auto simp: printable_def)
  then have "c_at (utf8_bytes cp @ utf8 cps) 0 \<noteq> 0" by (rule utf8_bytes_start)
  moreover have "next_cp (utf8_bytes cp @ utf8 cps) = (cp, utf8 cps)"
    using Cons.prems by (intro next_cp_utf8) (auto simp: printable_def)
  ultimately show ?case using Cons by (subst utf8_cps_unfold) simp
qed

lemma unit_read:
  fixes u :: u16
  shows "ucast (ucast u :: u8) OR push_bit 8 (ucast (ucast (drop_bit 8 u) :: u8)) = (ucast u :: u32)"
proof (rule bit_word_eqI)
  fix n
  show "bit (ucast (ucast u :: u8) OR push_bit 8 (ucast (ucast (drop_bit 8 u) :: u8)) :: u32) n = bit (ucast u :: u32) n"
    by (cases "n < 8") (auto simp: bit_simps dest: bit_imp_le_length)
qed

lemma utf16_unit_le16:
  assumes "drop i data = le16 u @ rest"
  shows "utf16_unit data i True = Some (ucast u)"
proof -
  have len: "i + 1 < length data"
    using arg_cong [OF assms, of length] by simp
  have "data ! i = ucast u" "data ! (i + 1) = ucast (drop_bit 8 u)"
    using assms len nth_drop [of i data 0] nth_drop [of i data 1] by (auto simp: le16_def)
  then show ?thesis using len unit_read [of u] by (simp add: utf16_unit_def)
qed


lemma ucast_le_iff:
  fixes u :: u16
  shows "unat (ucast u :: u32) = unat u"
  by (simp add: unsigned_ucast_eq take_bit_nat_eq_self less_trans [OF unsigned_less])

lemma low_surrogate:
  fixes cp :: u32
  defines "lo \<equiv> ucast (0xdc00 + ((cp - 0x10000) AND 0x3ff)) :: u16"
  shows "0xdc00 \<le> (ucast lo :: u32) \<and> (ucast lo :: u32) \<le> 0xdfff"
proof -
  have a: "unat ((cp - 0x10000) AND 0x3ff) \<le> 0x3ff" using unat_and_le [of "cp - 0x10000" "0x3ff"] by simp
  then have "unat lo = 0xdc00 + unat ((cp - 0x10000) AND 0x3ff)"
    unfolding lo_def by (simp add: unsigned_ucast_eq unat_word_ariths take_bit_eq_mod)
  then show ?thesis using a by (simp add: word_le_nat_alt ucast_le_iff)
qed

lemma append_text:
  assumes "holds_text out cps" and "text_cp code" and "length (utf8 (cps @ [code])) < length out"
  shows "\<exists>out'. append_utf8 out (length (utf8 cps)) code = Some (0, out', length (utf8 (cps @ [code]))) \<and>
    holds_text out' (cps @ [code]) \<and> length out' = length out"
  using append_utf8_result [OF assms(1), of code] holds_text_append [OF assms] assms(2,3) by auto

lemma utf16_loop_text:
  assumes "drop i data = concat (map le16 (concat (map utf16 cps)))" and "i \<le> length data"
    and "\<forall>cp \<in> set cps. text_cp cp" and "holds_text out before"
    and "length (utf8 (before @ cps)) < length out"
  shows "\<exists>out'. utf16_loop data True i out (length (utf8 before)) =
      Some (if before @ cps \<noteq> [] then 0 else - 1, out') \<and>
    holds_text out' (before @ cps) \<and> length out' = length out"
  using assms
proof (induction cps arbitrary: i out before)
  case Nil
  then have "\<not> i + 1 < length data" by simp
  then show ?case using Nil by (subst utf16_loop.simps) (auto simp: utf8_bytes_nonempty)
next
  case (Cons cp cps)
  let ?tail = "concat (map le16 (concat (map utf16 cps)))"
  have cp: "text_cp cp" using Cons.prems(3) by simp
  have fits: "length (utf8 (before @ [cp])) < length out" using Cons.prems(5) by simp
  obtain out1 where app: "append_utf8 out (length (utf8 before)) cp = Some (0, out1, length (utf8 (before @ [cp])))"
    "holds_text out1 (before @ [cp])" "length out1 = length out"
    using append_text [OF Cons.prems(4) cp fits] by blast
  have rest: "\<exists>out'. utf16_loop data True j out1 (length (utf8 (before @ [cp]))) = Some (0, out') \<and>
      holds_text out' (before @ cp # cps) \<and> length out' = length out"
    if "drop j data = ?tail" "j \<le> length data" for j
    using Cons.IH [OF that _ app(2)] Cons.prems(3,5) app(3) by auto
  show ?case
  proof (cases "cp > 0xffff")
    case True
    let ?hi = "ucast (0xd800 + drop_bit 10 (cp - 0x10000)) :: u16"
    let ?lo = "ucast (0xdc00 + ((cp - 0x10000) AND 0x3ff)) :: u16"
    have le: "cp \<le> 0x10ffff" using cp by (simp add: text_cp_def)
    have d: "drop i data = le16 ?hi @ le16 ?lo @ ?tail" using Cons.prems(1) True by (simp add: utf16_def [of cp])
    then have d2: "drop (i + 2) data = le16 ?lo @ ?tail" "drop (i + 2 + 2) data = ?tail"
      by (simp_all add: le16_def drop_Suc flip: drop_drop tl_drop)
    have len: "length data = i + 4 + length ?tail"
      using arg_cong [OF d, of length] Cons.prems(2) by simp
    note pair = surrogate_pair [OF True le]
    have hi: "0xd800 \<le> (ucast ?hi :: u32) \<and> (ucast ?hi :: u32) \<le> 0xdbff"
      using pair(1) by (simp add: word_le_nat_alt ucast_le_iff)
    have run: "utf16_loop data True i out (length (utf8 before)) =
        utf16_loop data True (i + 2 + 2) out1 (length (utf8 (before @ [cp])))"
      using len utf16_unit_le16 [OF d] utf16_unit_le16 [OF d2(1)] hi low_surrogate [of cp] pair(2) app(1)
      by (subst utf16_loop.simps) (auto simp: not_less)
    show ?thesis unfolding run using rest [OF d2(2)] len by simp
  next
    case False
    let ?u = "ucast cp :: u16"
    have d: "drop i data = le16 ?u @ ?tail" using Cons.prems(1) False by (simp add: utf16_def [of cp])
    then have d2: "drop (i + 2) data = ?tail" by (simp add: le16_def drop_Suc flip: drop_drop tl_drop)
    have len: "length data = i + 2 + length ?tail"
      using arg_cong [OF d, of length] Cons.prems(2) by simp
    have "unat cp \<le> 0xffff" using False by (simp add: word_less_nat_alt)
    then have u: "(ucast ?u :: u32) = cp"
      by (simp add: word_unat_eq_iff ucast_le_iff) (simp add: unsigned_ucast_eq take_bit_nat_eq_self)
    have bmp: "\<not> (0xd800 \<le> cp \<and> cp \<le> 0xdbff)" "cp \<noteq> 0" using cp by (auto simp: text_cp_def word_le_nat_alt)
    have run: "utf16_loop data True i out (length (utf8 before)) =
        utf16_loop data True (i + 2) out1 (length (utf8 (before @ [cp])))"
      using len utf16_unit_le16 [OF d, unfolded u] app(1) bmp(2)
      by (subst utf16_loop.simps) (simp add: bmp(1))
    show ?thesis unfolding run using rest [OF d2] len by simp
  qed
qed


lemma holds_text_string:
  assumes "holds_text out cps"
  shows "c_string out = Some (utf8 cps)"
proof (rule c_string_prefix)
  show "0 \<notin> set (utf8 cps)"
    using assms utf8_nonzero by (auto simp: holds_text_def text_cp_def)
qed (use assms in \<open>auto simp: holds_text_def\<close>)

lemma utf16_nonempty [simp]: "utf16 cp \<noteq> []"
  by (simp add: utf16_def)

lemma decode_utf16_text:
  assumes "cps \<noteq> []" and "\<forall>cp \<in> set cps. text_cp cp" and "length (utf8 cps) < length out"
  shows "\<exists>out'. decode_text (1 # 0xff # 0xfe # concat (map le16 (concat (map utf16 cps)))) out = Some (0, out') \<and>
    holds_text out' cps \<and> length out' = length out"
proof -
  let ?data = "1 # 0xff # 0xfe # concat (map le16 (concat (map utf16 cps)))"
  obtain cp rest where "cps = cp # rest" using assms(1) by (cases cps) auto
  then have len: "5 \<le> length ?data" by (simp add: utf16_length)
  have out: "out \<noteq> []" "2 \<le> length out"
  proof -
    have "0 < length (utf8 cps)" using assms(1) by (cases cps) (auto simp: utf8_bytes_nonempty)
    with assms(3) show "2 \<le> length out" by linarith
    then show "out \<noteq> []" by auto
  qed
  have "\<exists>out'. utf16_loop ?data True 3 (out[0 := 0]) (length (utf8 ([] :: u32 list))) =
      Some (if [] @ cps \<noteq> [] then 0 else - 1, out') \<and> holds_text out' ([] @ cps) \<and> length out' = length (out[0 := 0])"
    using assms(2,3) holds_text_empty [OF out(1)] by (intro utf16_loop_text) simp_all
  then show ?thesis
    using assms(1) len out utf16_nonempty by (cases cps) (auto simp: decode_text_def)
qed

lemma mtp_units_utf8:
  assumes "\<forall>cp \<in> set cps. printable cp" and "length (concat (map utf16 cps)) \<le> n"
  shows "mtp_units n (utf8 cps) = concat (map utf16 cps)"
  using utf8_cps_utf8 [OF assms(1)] fit_all [OF assms(2)] by (simp add: mtp_units_def)

subsection \<open>Properties\<close>

text \<open>
  C21. A UTF-16 text frame of a music file reaches the MTP host unchanged: the tag reader stores it
  as UTF-8, and the data-set writer turns that text into a counted string of exactly the UTF-16
  units of the frame, for any printable code points that fit the tag's array and 254 units.
\<close>

theorem id3_text_over_mtp:
  assumes "cps \<noteq> []" and "\<forall>cp \<in> set cps. printable cp" and "length (utf8 cps) < length out"
    and "length (concat (map utf16 cps)) \<le> 254"
    and "w_inv w" and "\<not> w_error w" and "511 \<le> w_room w"
  shows "\<exists>out' s w'.
    decode_text (1 # 0xff # 0xfe # concat (map le16 (concat (map utf16 cps)))) out = Some (0, out') \<and>
    c_string out' = Some s \<and> string w (Some s) = Some w' \<and> \<not> w_error w' \<and>
    w_payload w' = w_payload w @
      of_nat (length (concat (map utf16 cps)) + 1) # concat (map le16 (concat (map utf16 cps))) @ [0, 0]"
proof -
  let ?units = "concat (map utf16 cps)"
  have scalar: "\<forall>cp \<in> set cps. text_cp cp" using assms(2) printable_text by blast
  obtain out' where out': "decode_text (1 # 0xff # 0xfe # concat (map le16 ?units)) out = Some (0, out')"
    "holds_text out' cps"
    using decode_utf16_text [OF assms(1) scalar assms(3)] by blast
  obtain cp rest where "cps = cp # rest" using assms(1) by (cases cps) auto
  then have "c_at (utf8 cps) 0 \<noteq> 0" using scalar utf8_bytes_start [of cp] by (auto simp: text_cp_def)
  then have str: "mtp_string (Some (utf8 cps)) = of_nat (length ?units + 1) # concat (map le16 ?units) @ [0, 0]"
    using mtp_units_utf8 [OF assms(2,4)] by (simp add: mtp_string_def le16_def)
  have "\<exists>w'. string w (Some (utf8 cps)) = Some w' \<and> \<not> w_error w' \<and>
      w_payload w' = w_payload w @ mtp_string (Some (utf8 cps))"
    using wr.emits_fits [OF emits_string assms(5,6), of "Some (utf8 cps)"] assms(7)
      mtp_string_length [of "Some (utf8 cps)"] by auto
  then show ?thesis
    using out' holds_text_string [OF out'(2)] unfolding str by blast
qed

theorem id3_text_over_mtp_witness:
  "\<exists>out' s w'. decode_text [1, 0xff, 0xfe, 0x42, 0x30, 0x3c, 0xd8, 0xb5, 0xdf] (replicate 256 0) = Some (0, out') \<and>
    c_string out' = Some s \<and> string (vcm_mtp_writer_init (Some (replicate 600 0)) 600) (Some s) = Some w' \<and>
    w_payload w' = [4, 0x42, 0x30, 0x3c, 0xd8, 0xb5, 0xdf, 0, 0]"
proof -
  let ?w = "vcm_mtp_writer_init (Some (replicate 600 0)) 600" and ?cps = "[0x3042, 0x1f3b5] :: u32 list"
  have w: "w_inv ?w" "\<not> w_error ?w" "511 \<le> w_room ?w" "w_payload ?w = []"
    using writer_init_inv [of 600 "replicate 600 0"]
    by (simp_all add: vcm_mtp_writer_init_def w_room_def w_payload_def)
  have units: "concat (map le16 (concat (map utf16 ?cps))) = [0x42, 0x30, 0x3c, 0xd8, 0xb5, 0xdf]"
    and count: "length (concat (map utf16 ?cps)) = 3" and len: "length (utf8 ?cps) = 7"
    by code_simp+
  have "\<forall>cp \<in> set ?cps. printable cp" by (simp add: printable_def)
  then show ?thesis
    using id3_text_over_mtp [of ?cps "replicate 256 0" ?w] w len count unfolding units by (auto simp: utf16_length)
qed

end
