(* ===== verification/C_Strings.thy ===== *)
theory C_Strings
  imports Vcm_Prelude
begin

text \<open>
  The string functions of the C library that the sources call, on C string values: prefix tests, searches,
  formatted output into a bounded buffer, and decimal numbers in both directions.
\<close>

subsection \<open>Searching\<close>

text \<open>\<open>strncmp(s, pat, strlen(pat)) == 0\<close>.\<close>

definition starts :: "u8 list \<Rightarrow> u8 list \<Rightarrow> bool" where
  "starts pat s \<longleftrightarrow> take (length pat) s = pat"

text \<open>The text from the first occurrence on.\<close>

fun strstr :: "u8 list \<Rightarrow> u8 list \<Rightarrow> u8 list option" where
  "strstr [] pat = (if pat = [] then Some [] else None)"
| "strstr (c # s) pat = (if starts pat (c # s) then Some (c # s) else strstr s pat)"

text \<open>The position of the last occurrence.\<close>

fun strrchr :: "u8 list \<Rightarrow> u8 \<Rightarrow> nat option" where
  "strrchr [] c = None"
| "strrchr (x # s) c =
     (case strrchr s c of
        Some i \<Rightarrow> Some (Suc i)
      | None \<Rightarrow> if x = c then Some 0 else None)"

lemma starts_iff: "starts pat s \<longleftrightarrow> (\<exists>rest. s = pat @ rest)"
  unfolding starts_def by (metis append_eq_conv_conj)

lemma starts_append [simp]: "starts pat (pat @ rest)"
  by (simp add: starts_def)

lemma strstr_Some:
  "strstr s pat = Some r \<Longrightarrow> \<exists>a b. s = a @ r \<and> r = pat @ b"
proof (induction s)
  case Nil
  then show ?case by (simp split: if_splits)
next
  case (Cons c s)
  show ?case
  proof (cases "starts pat (c # s)")
    case True
    with Cons.prems have "r = c # s" by simp
    with True show ?thesis unfolding starts_iff by (metis append_Nil)
  next
    case False
    with Cons obtain a b where "s = a @ r \<and> r = pat @ b" by auto
    then show ?thesis by (intro exI [of _ "c # a"] exI [of _ b]) simp
  qed
qed

lemma strstr_None: "strstr s pat = None \<longleftrightarrow> \<not> (\<exists>a b. s = a @ pat @ b)"
proof (induction s)
  case (Cons c s)
  show ?case
  proof
    assume n: "strstr (c # s) pat = None"
    then have st: "\<not> starts pat (c # s)" and "strstr s pat = None" by (auto split: if_splits)
    with Cons have "\<not> (\<exists>a b. s = a @ pat @ b)" by simp
    with st show "\<not> (\<exists>a b. c # s = a @ pat @ b)"
      unfolding starts_iff by (auto simp: Cons_eq_append_conv)
  next
    assume no: "\<not> (\<exists>a b. c # s = a @ pat @ b)"
    then have "\<not> starts pat (c # s)" unfolding starts_iff by (metis append_Nil)
    moreover have "\<not> (\<exists>a b. s = a @ pat @ b)" using no by (metis append_Cons)
    ultimately show "strstr (c # s) pat = None" using Cons by simp
  qed
qed simp

lemma strrchr_Some:
  "strrchr s c = Some i \<Longrightarrow> i < length s \<and> s ! i = c \<and> c \<notin> set (drop (Suc i) s)"
proof (induction s arbitrary: i)
  case (Cons x s)
  have n: "strrchr s c = None \<Longrightarrow> c \<notin> set s"
    by (induction s) (auto split: option.splits if_splits)
  from Cons n show ?case by (auto split: option.splits if_splits)
qed simp

lemma strrchr_None: "strrchr s c = None \<longleftrightarrow> c \<notin> set s"
  by (induction s) (auto split: option.splits)

subsection \<open>Formatted output\<close>

text \<open>\<open>sceClibSnprintf\<close> of a finished text: what is stored in the array, and the untruncated length.\<close>

definition snprintf :: "u8 list \<Rightarrow> nat \<Rightarrow> u8 list \<Rightarrow> (int \<times> u8 list) option" where
  "snprintf out capacity s =
     (let shown = take (capacity - 1) s @ [0]
      in if length shown \<le> length out then Some (int (length s), shown @ drop (length shown) out)
         else None)"

lemma snprintf_fits:
  assumes "length t < capacity" and "capacity \<le> length out" and "0 \<notin> set t"
  shows "\<exists>out'. snprintf out capacity t = Some (int (length t), out') \<and> c_string out' = Some t \<and>
    length out' = length out"
proof -
  let ?o = "t @ [0] @ drop (Suc (length t)) out"
  have "snprintf out capacity t = Some (int (length t), ?o)"
    using assms(1,2) by (simp add: snprintf_def)
  moreover have "c_string ?o = Some t" by (rule c_string_prefix) (use assms(3) in auto)
  ultimately show ?thesis using assms(1,2) by auto
qed

lemma snprintf_total:
  assumes "0 < capacity" and "capacity \<le> length out"
  shows "\<exists>out'. snprintf out capacity t = Some (int (length t), out') \<and> length out' = length out"
  using assms by (auto simp: snprintf_def Let_def)

text \<open>Unsigned and signed decimal output.\<close>

fun dec_text :: "nat \<Rightarrow> u8 list" where
  "dec_text n = (if n < 10 then [0x30 + of_nat n] else dec_text (n div 10) @ [0x30 + of_nat (n mod 10)])"

declare dec_text.simps [simp del]

definition int_text :: "int \<Rightarrow> u8 list" where
  "int_text i = (if i < 0 then 0x2d # dec_text (nat (- i)) else dec_text (nat i))"

text \<open>Hexadecimal output: \<open>%X\<close>, and \<open>%08X\<close> of a 32-bit value.\<close>

fun hex_text :: "nat \<Rightarrow> u8 list" where
  "hex_text n =
     (let d = of_nat (n mod 16); c = (if d < 10 then 0x30 + d else 0x37 + d)
      in if n < 16 then [c] else hex_text (n div 16) @ [c])"

declare hex_text.simps [simp del]

definition hex8 :: "u32 \<Rightarrow> u8 list" where
  "hex8 v = (let d = hex_text (unat v) in replicate (8 - length d) 0x30 @ d)"

text \<open>\<open>sceClibStrncpy\<close>: the text cut to \<open>n\<close> characters and padded with zeros, over the front of an array.\<close>

definition strncpy :: "u8 list \<Rightarrow> u8 list \<Rightarrow> nat \<Rightarrow> u8 list" where
  "strncpy out s n = take n s @ replicate (n - length s) 0 @ drop n out"

subsection \<open>Decimal input\<close>

definition is_digit :: "u8 \<Rightarrow> bool" where
  "is_digit c \<longleftrightarrow> 0x30 \<le> c \<and> c \<le> 0x39"

fun digits_value :: "nat \<Rightarrow> u8 list \<Rightarrow> nat" where
  "digits_value v [] = v"
| "digits_value v (c # s) = digits_value (v * 10 + (unat c - 0x30)) s"

lemma digits_value_ge: "v \<le> digits_value v s"
proof (induction s arbitrary: v)
  case (Cons c s)
  from Cons [of "v * 10 + (unat c - 0x30)"] show ?case by simp
qed simp

lemma digits_value_append: "digits_value v (s @ t) = digits_value (digits_value v s) t"
  by (induction s arbitrary: v) simp_all

lemma digit_of_nat:
  assumes "d < 10"
  shows "is_digit (0x30 + of_nat d)" and "unat (0x30 + of_nat d :: u8) = 0x30 + d"
proof -
  have u: "unat (of_nat d :: u8) = d" using assms by (intro unat_of_nat_small) simp
  then show v: "unat (0x30 + of_nat d :: u8) = 0x30 + d" using assms by (simp add: unat_word_ariths)
  show "is_digit (0x30 + of_nat d)"
    unfolding is_digit_def word_le_nat_alt v using assms by simp
qed

lemma dec_text_digits: "list_all is_digit (dec_text n)"
proof (induction n rule: dec_text.induct)
  case (1 n)
  then show ?case
    by (subst dec_text.simps) (auto simp: digit_of_nat(1))
qed

lemma dec_text_value: "digits_value 0 (dec_text n) = n"
proof (induction n rule: dec_text.induct)
  case (1 n)
  then show ?case
    by (subst dec_text.simps) (auto simp: digits_value_append digit_of_nat(2))
qed

lemma dec_text_nonempty: "dec_text n \<noteq> []"
  by (subst dec_text.simps) simp

lemma dec_text_length: "n < 10 ^ k \<Longrightarrow> 0 < k \<Longrightarrow> length (dec_text n) \<le> k"
proof (induction n arbitrary: k rule: dec_text.induct)
  case (1 n)
  show ?case
  proof (cases "n < 10")
    case True
    then show ?thesis using "1.prems" by (subst dec_text.simps) simp
  next
    case False
    then have "k \<noteq> 1" using "1.prems" by auto
    then obtain j where j: "k = Suc j" "0 < j" using "1.prems"(2) by (cases k) auto
    have "n div 10 < 10 ^ j" using "1.prems"(1) by (simp add: j less_mult_imp_div_less mult.commute)
    from "1.IH" [OF False this j(2)] show ?thesis using False by (subst dec_text.simps) (simp add: j)
  qed
qed

lemma digit_nonzero: "is_digit c \<Longrightarrow> c \<noteq> 0"
  by (auto simp: is_digit_def)

lemma dec_text_nonzero: "0 \<notin> set (dec_text n)"
  using dec_text_digits [of n] by (auto simp: list_all_iff dest: digit_nonzero)

end
