(* ===== verification/Sync_Queue.thy ===== *)
theory Sync_Queue
  imports C_Strings
begin

text \<open>
  The transfer queue of \<^verbatim>\<open>src/vita/sync_queue.c\<close> and \<^verbatim>\<open>sync_queue.h\<close>: the parser of a
  published queue, the bookkeeping of uploads, and the importer.
\<close>

subsection \<open>Data\<close>

abbreviation (input) VCM_QUEUE_MAX :: nat where "VCM_QUEUE_MAX \<equiv> 128"

datatype item_state =
    VCM_WAITING | VCM_RECEIVING | VCM_RECEIVED | VCM_IMPORTING | VCM_IMPORTED | VCM_FAILED

record VcmQueueItem =
  q_id :: "u8 list"
  q_extension :: "u8 list"
  q_name :: "u8 list"
  q_folder :: "u8 list"
  q_title :: "u8 list"
  q_artist :: "u8 list"
  q_album :: "u8 list"
  q_album_artist :: "u8 list"
  q_genre :: "u8 list"
  q_size :: u64
  q_subtitle_size :: u64
  q_received :: u64
  q_kind :: int
  q_duration_ms :: int
  q_sample_rate :: int
  q_channels :: int
  q_track :: int
  q_state :: item_state
  q_error :: int
  q_media_ready :: bool
  q_subtitle_ready :: bool

record VcmQueueInfo =
  i_revision :: u32
  i_count :: int
  i_imported :: int
  i_failed :: int
  i_importing :: int
  i_syncing :: bool
  i_cancelled :: bool
  i_transferred :: u64
  i_total :: u64
  i_id :: "u8 list"

text \<open>The file's static variables.\<close>

record sync_queue =
  queue :: VcmQueueInfo
  items :: "VcmQueueItem list"
  mutex :: int

definition clear_item :: VcmQueueItem where
  "clear_item =
     \<lparr>q_id = replicate 33 0, q_extension = replicate 8 0, q_name = replicate 256 0,
      q_folder = replicate 256 0, q_title = replicate 256 0, q_artist = replicate 256 0,
      q_album = replicate 256 0, q_album_artist = replicate 256 0, q_genre = replicate 128 0,
      q_size = 0, q_subtitle_size = 0, q_received = 0, q_kind = 0, q_duration_ms = 0,
      q_sample_rate = 0, q_channels = 0, q_track = 0, q_state = VCM_WAITING, q_error = 0,
      q_media_ready = False, q_subtitle_ready = False\<rparr>"

definition clear_queue :: VcmQueueInfo where
  "clear_queue =
     \<lparr>i_revision = 0, i_count = 0, i_imported = 0, i_failed = 0, i_importing = 0,
      i_syncing = False, i_cancelled = False, i_transferred = 0, i_total = 0,
      i_id = replicate 33 0\<rparr>"

text \<open>The static storage at program start, all zero except for the mutex handle.\<close>

definition boot :: sync_queue where
  "boot = \<lparr>queue = clear_queue, items = replicate VCM_QUEUE_MAX clear_item, mutex = - 1\<rparr>"

text \<open>\<open>created\<close> is what the kernel returns for the new mutex.\<close>

definition vcm_queue_init :: "int \<Rightarrow> sync_queue \<Rightarrow> int \<times> sync_queue" where
  "vcm_queue_init created s =
     (if created < 0 then created else 0,
      s\<lparr>mutex := created, queue := (queue s)\<lparr>i_importing := - 1\<rparr>\<rparr>)"

subsection \<open>Reading the published text\<close>

definition hex :: "u8 \<Rightarrow> int" where
  "hex c =
     (if c \<ge> 0x30 \<and> c \<le> 0x39 then uint c - 0x30
      else if c \<ge> 0x61 \<and> c \<le> 0x66 then uint c - 0x61 + 10
      else if c \<ge> 0x41 \<and> c \<le> 0x46 then uint c - 0x41 + 10
      else - 1)"

definition id_char :: "u8 \<Rightarrow> bool" where
  "id_char c \<longleftrightarrow> (c \<ge> 0x30 \<and> c \<le> 0x39) \<or> (c \<ge> 0x61 \<and> c \<le> 0x66)"

definition id_valid :: "u8 list \<Rightarrow> bool" where
  "id_valid s \<longleftrightarrow> length (take 34 s) = 32 \<and> list_all (\<lambda>i. id_char (s ! i)) [0..<32]"

text \<open>
  One character of \<open>decode\<close>'s input, with what is left of the input: the character itself or the
  value of an escape, \<^term>\<open>None\<close> for the error return on a malformed escape.
\<close>

definition decode_char :: "u8 \<Rightarrow> u8 list \<Rightarrow> (u8 \<times> u8 list) option" where
  "decode_char c inp =
     (if c = 0x25 then
        (case inp of
           a # b # rest \<Rightarrow>
             if hex a < 0 \<or> hex b < 0 then None else Some (word_of_int (hex a * 16 + hex b), rest)
         | _ \<Rightarrow> None)
      else Some (c, inp))"

lemma decode_char_length: "decode_char c inp = Some (v, rest) \<Longrightarrow> length rest \<le> length inp"
  by (auto simp: decode_char_def split: if_splits list.splits)

text \<open>The loop of \<open>decode\<close>: the array, the bytes written, and whether the loop returned an error.\<close>

function decode_loop ::
    "u8 list \<Rightarrow> nat \<Rightarrow> nat \<Rightarrow> u8 list \<Rightarrow> (u8 list \<times> nat \<times> bool) option" where
  "decode_loop out capacity n [] = Some (out, n, False)"
| "decode_loop out capacity n (c # inp) =
     (case decode_char c inp of
        None \<Rightarrow> Some (out, n, True)
      | Some (v, rest) \<Rightarrow>
          if v < 32 \<or> v = 127 \<or> n + 1 \<ge> capacity then Some (out, n, True)
          else do { out \<leftarrow> store out n v; decode_loop out capacity (Suc n) rest })"
  by pat_completeness auto
termination
  by (relation "measure (\<lambda>(_, _, _, s). length s)") (auto dest: decode_char_length)

definition decode :: "u8 list \<Rightarrow> nat \<Rightarrow> u8 list \<Rightarrow> (int \<times> u8 list) option" where
  "decode out capacity inp = do {
     (out, n, returned) \<leftarrow> decode_loop out capacity 0 inp;
     if returned then Some (- 1, out)
     else do { out \<leftarrow> store out n 0; Some (0, out) }
   }"

text \<open>\<^term>\<open>None\<close> is the error return of \<open>decimal\<close>.\<close>

fun decimal_loop :: "u64 \<Rightarrow> u8 list \<Rightarrow> u64 option" where
  "decimal_loop v [] = Some v"
| "decimal_loop v (c # s) =
     (if c < 0x30 \<or> c > 0x39 \<or> v > (- 1 - 9) div 10 then None
      else decimal_loop (v * 10 + ucast c - 0x30) s)"

definition decimal :: "u8 list \<Rightarrow> u64 option" where
  "decimal s = (if s = [] then None else decimal_loop 0 s)"

text \<open>
  \<open>field\<close> cuts the text at the first delimiter. A cursor is the text from its position on,
  \<^term>\<open>None\<close> the null pointer.
\<close>

definition field :: "u8 list option \<Rightarrow> u8 \<Rightarrow> u8 list option \<times> u8 list option" where
  "field cursor delimiter =
     (case cursor of
        None \<Rightarrow> (None, None)
      | Some start \<Rightarrow>
          (Some (takeWhile (\<lambda>c. c \<noteq> delimiter) start),
           (case dropWhile (\<lambda>c. c \<noteq> delimiter) start of
              [] \<Rightarrow> None
            | _ # rest \<Rightarrow> Some rest)))"

fun line_fields :: "nat \<Rightarrow> u8 list option \<Rightarrow> (u8 list list \<times> u8 list option) option" where
  "line_fields 0 part = Some ([], part)"
| "line_fields (Suc n) part =
     (case field part 0x09 of
        (None, _) \<Rightarrow> None
      | (Some f, part) \<Rightarrow> do { (fs, part) \<leftarrow> line_fields n part; Some (f # fs, part) })"


subsection \<open>Publishing a queue\<close>

text \<open>
  The steps of one pass of the parsing loop. They run in the option monad of faults, and their
  result is \<^term>\<open>None\<close> again when the code returns its error \<open>- 1\<close>.
\<close>

definition or_reject :: "'a option option \<Rightarrow> ('a \<Rightarrow> 'b option option) \<Rightarrow> 'b option option" where
  "or_reject step k = do { r \<leftarrow> step; (case r of None \<Rightarrow> Some None | Some a \<Rightarrow> k a) }"

definition decoded :: "u8 list \<Rightarrow> u8 list \<Rightarrow> u8 list option option" where
  "decoded out inp = do {
     (status, out) \<leftarrow> decode out (length out) inp;
     Some (if status < 0 then None else Some out)
   }"

text \<open>\<open>sceClibStrcmp\<close> on two character arrays, as a test for equality.\<close>

definition same_text :: "u8 list \<Rightarrow> u8 list \<Rightarrow> bool option" where
  "same_text a b = do { x \<leftarrow> c_string a; y \<leftarrow> c_string b; Some (x = y) }"

fun id_taken :: "VcmQueueItem list \<Rightarrow> u8 list \<Rightarrow> bool option" where
  "id_taken [] i = Some False"
| "id_taken (p # ps) i = do { same \<leftarrow> same_text (q_id p) i; if same then Some True else id_taken ps i }"

definition photo_extension :: "u8 list \<Rightarrow> bool" where
  "photo_extension ext \<longleftrightarrow>
     ext = ascii ''jpg'' \<or> ext = ascii ''jpeg'' \<or> ext = ascii ''png'' \<or> ext = ascii ''gif'' \<or>
     ext = ascii ''bmp'' \<or> ext = ascii ''tif'' \<or> ext = ascii ''tiff'' \<or> ext = ascii ''mpo''"

definition music_extension :: "u8 list \<Rightarrow> bool" where
  "music_extension ext \<longleftrightarrow> ext = ascii ''mp3'' \<or> ext = ascii ''m4a'' \<or> ext = ascii ''wav''"

definition parse_folder :: "VcmQueueItem \<Rightarrow> u8 list option \<Rightarrow> VcmQueueItem option option" where
  "parse_folder item dir =
     (case dir of
        None \<Rightarrow> Some (Some item)
      | Some s \<Rightarrow> or_reject (decoded (q_folder item) s) (\<lambda>a. Some (Some (item\<lparr>q_folder := a\<rparr>))))"

definition parse_identity ::
    "VcmQueueItem list \<Rightarrow> VcmQueueItem \<Rightarrow> u8 list list \<Rightarrow> VcmQueueItem option option" where
  "parse_identity pending item f =
     (if \<not> id_valid (f ! 0) then Some None
      else or_reject (decoded (q_extension item) (f ! 1)) (\<lambda>ext. do {
        let item = item\<lparr>q_extension := ext, q_id := take 33 (f ! 0 @ [0])\<rparr>;
        taken \<leftarrow> id_taken pending (q_id item);
        Some (if taken then None else Some item)
      }))"

definition numeric_positions :: "nat list" where
  "numeric_positions = [2, 3, 4, 11, 12, 13, 14]"

fun decimals :: "u8 list list \<Rightarrow> nat list \<Rightarrow> u64 list option" where
  "decimals f [] = Some []"
| "decimals f (j # js) = do { v \<leftarrow> decimal (f ! j); vs \<leftarrow> decimals f js; Some (v # vs) }"

definition parse_numbers :: "VcmQueueItem \<Rightarrow> u8 list list \<Rightarrow> VcmQueueItem option option" where
  "parse_numbers item f =
     (case decimals f numeric_positions of
        None \<Rightarrow> Some None
      | Some numbers \<Rightarrow>
          let item = item\<lparr>q_size := numbers ! 0, q_subtitle_size := numbers ! 1\<rparr> in
          if q_size item = 0 \<or> q_size item > 8 * 1024 * 1024 * 1024 \<or>
             q_subtitle_size item > 64 * 1024 * 1024 \<or> numbers ! 2 > 2 then Some None
          else if numbers ! 3 > 360000000 \<or> numbers ! 4 > 96000 \<or> numbers ! 5 > 2 \<or>
             numbers ! 6 > 99999 then Some None
          else Some (Some (item\<lparr>q_kind := uint (numbers ! 2), q_duration_ms := uint (numbers ! 3),
            q_sample_rate := uint (numbers ! 4), q_channels := uint (numbers ! 5),
            q_track := uint (numbers ! 6)\<rparr>)))"

definition kind_refused :: "VcmQueueItem \<Rightarrow> bool option" where
  "kind_refused item = do {
     ext \<leftarrow> c_string (q_extension item);
     Some ((q_kind item = 0 \<and> \<not> photo_extension ext) \<or>
       (q_kind item = 1 \<and> (\<not> music_extension ext \<or> q_duration_ms item = 0 \<or>
          q_sample_rate item = 0 \<or> q_channels item = 0)) \<or>
       (q_kind item = 2 \<and> ext \<noteq> ascii ''mp4'') \<or>
       (q_subtitle_size item \<noteq> 0 \<and> q_kind item \<noteq> 2))
   }"

definition parse_texts :: "VcmQueueItem \<Rightarrow> u8 list list \<Rightarrow> VcmQueueItem option option" where
  "parse_texts item f =
     or_reject (decoded (q_name item) (f ! 5)) (\<lambda>name. do {
       first \<leftarrow> fetch name 0;
       if first = 0 then Some None
       else
         or_reject (decoded (q_title item) (f ! 6)) (\<lambda>title.
         or_reject (decoded (q_artist item) (f ! 7)) (\<lambda>artist.
         or_reject (decoded (q_album item) (f ! 8)) (\<lambda>album.
         or_reject (decoded (q_album_artist item) (f ! 9)) (\<lambda>album_artist.
         or_reject (decoded (q_genre item) (f ! 10)) (\<lambda>genre.
           Some (Some (item\<lparr>q_name := name, q_title := title, q_artist := artist, q_album := album,
             q_album_artist := album_artist, q_genre := genre\<rparr>)))))))
     })"

definition parse_line :: "VcmQueueItem list \<Rightarrow> u8 list option \<Rightarrow> VcmQueueItem option option" where
  "parse_line pending line =
     (case line_fields 15 line of
        None \<Rightarrow> Some None
      | Some (f, part) \<Rightarrow>
          let (dir, part) = field part 0x09 in
          if part \<noteq> None then Some None
          else
            or_reject (parse_folder clear_item dir) (\<lambda>item.
            or_reject (parse_identity pending item f) (\<lambda>item.
            or_reject (parse_numbers item f) (\<lambda>item. do {
              refused \<leftarrow> kind_refused item;
              if refused then Some None else parse_texts item f
            }))))"

text \<open>
  The loop over the lines: the items parsed so far stand for the first entries of the static array
  \<open>pending\<close>, together with the sum of their sizes.
\<close>

lemma field_shorter: "field (Some s) d = (line, Some rest) \<Longrightarrow> length rest < length s"
proof -
  assume "field (Some s) d = (line, Some rest)"
  then obtain c where "dropWhile (\<lambda>c. c \<noteq> d) s = c # rest"
    by (auto simp: field_def split: list.splits)
  then have "Suc (length rest) = length (dropWhile (\<lambda>c. c \<noteq> d) s)" by simp
  then show ?thesis using length_dropWhile_le [of "\<lambda>c. c \<noteq> d" s] by simp
qed

function publish_loop ::
    "VcmQueueItem list \<Rightarrow> u64 \<Rightarrow> u8 list option \<Rightarrow> (VcmQueueItem list \<times> u64) option option" where
  "publish_loop pending tot cursor =
     (if cursor = None \<or> cursor = Some [] then Some (Some (pending, tot))
      else if length pending = VCM_QUEUE_MAX then Some None
      else
        (case field cursor 0x0a of
           (line, cursor) \<Rightarrow>
             or_reject (parse_line pending line) (\<lambda>item.
               publish_loop (pending @ [item]) (tot + (q_size item + q_subtitle_size item)) cursor)))"
  by pat_completeness auto
termination
  by (relation "measure (\<lambda>(_, _, c). case c of None \<Rightarrow> 0 | Some s \<Rightarrow> Suc (length s))")
    (auto dest: field_shorter [OF sym] split: option.splits)

declare publish_loop.simps [simp del]

text \<open>The body is the character array of the request, which holds a terminator.\<close>

definition vcm_queue_publish :: "u8 list \<Rightarrow> sync_queue \<Rightarrow> (int \<times> sync_queue) option" where
  "vcm_queue_publish body s = do {
     cursor \<leftarrow> c_string body;
     let (qid, cursor) = field (Some cursor) 0x0a;
     (case qid of
        None \<Rightarrow> Some (- 1, s)
      | Some i \<Rightarrow>
          if \<not> id_valid i then Some (- 1, s)
          else do {
            parsed \<leftarrow> publish_loop [] 0 cursor;
            (case parsed of
               None \<Rightarrow> Some (- 1, s)
             | Some (pending, tot) \<Rightarrow>
                 if pending = [] then Some (- 1, s)
                 else if i_syncing (queue s) \<or>
                   (i_count (queue s) \<noteq> 0 \<and> \<not> i_cancelled (queue s) \<and>
                    i_imported (queue s) + i_failed (queue s) < i_count (queue s)) then Some (- 2, s)
                 else if length pending \<le> length (items s) then
                   Some (0, s\<lparr>queue := clear_queue\<lparr>i_revision := i_revision (queue s) + 1,
                       i_count := int (length pending), i_total := tot, i_importing := - 1,
                       i_id := take 33 (i @ [0])\<rparr>,
                     items := pending @ drop (length pending) (items s)\<rparr>)
                 else None)
          })
   }"

subsection \<open>Queries\<close>

definition item_at :: "sync_queue \<Rightarrow> int \<Rightarrow> VcmQueueItem option" where
  "item_at s i = (if i < 0 then None else fetch (items s) (nat i))"

definition set_item :: "sync_queue \<Rightarrow> int \<Rightarrow> VcmQueueItem \<Rightarrow> sync_queue option" where
  "set_item s i item =
     (if i < 0 then None else do { xs \<leftarrow> store (items s) (nat i) item; Some (s\<lparr>items := xs\<rparr>) })"

definition bump :: "VcmQueueInfo \<Rightarrow> VcmQueueInfo" where
  "bump q = q\<lparr>i_revision := i_revision q + 1\<rparr>"

definition vcm_queue_info :: "sync_queue \<Rightarrow> VcmQueueInfo" where
  "vcm_queue_info s = queue s"

text \<open>The status and, when it is zero, the item that is copied out.\<close>

definition vcm_queue_item :: "int \<Rightarrow> sync_queue \<Rightarrow> (int \<times> VcmQueueItem option) option" where
  "vcm_queue_item i s =
     (if i \<ge> 0 \<and> i < i_count (queue s) then do { item \<leftarrow> item_at s i; Some (0, Some item) }
      else Some (- 1, None))"

definition vcm_queue_matches :: "u8 list \<Rightarrow> sync_queue \<Rightarrow> bool option" where
  "vcm_queue_matches name s = do { current \<leftarrow> c_string (i_id (queue s)); Some (name = current) }"

definition vcm_queue_cancelled :: "sync_queue \<Rightarrow> bool" where
  "vcm_queue_cancelled s = i_cancelled (queue s)"

text \<open>
  The caller's name array and size variable are null when \<^term>\<open>None\<close>; the result holds the
  status and both of them as they are left.
\<close>

definition vcm_queue_usb_target ::
    "int \<Rightarrow> int \<Rightarrow> u8 list option \<Rightarrow> u32 \<Rightarrow> u64 option \<Rightarrow> sync_queue \<Rightarrow>
      (int \<times> u8 list option \<times> u64 option) option" where
  "vcm_queue_usb_target index sidecar name capacity size0 s =
     (case (name, size0) of
        (Some out, Some old) \<Rightarrow>
          if capacity < 38 \<or> (sidecar \<noteq> 0 \<and> sidecar \<noteq> 1) then Some (- 1, name, size0)
          else if \<not> i_cancelled (queue s) \<and> \<not> i_syncing (queue s) \<and> index \<ge> 0 \<and>
            index < i_count (queue s) then do {
            item \<leftarrow> item_at s index;
            ident \<leftarrow> c_string (q_id item);
            extension \<leftarrow> (if sidecar \<noteq> 0 then Some (ascii ''m4t'') else c_string (q_extension item));
            let expected = (if sidecar \<noteq> 0 then q_subtitle_size item else q_size item);
            (written, out) \<leftarrow> snprintf out (unat capacity) (ident @ [0x2e] @ extension);
            if expected \<noteq> 0 \<and> written > 0 \<and> written < uint capacity
            then Some (0, Some out, Some expected)
            else Some (- 1, Some out, size0)
          }
          else Some (- 1, name, size0)
      | _ \<Rightarrow> Some (- 1, name, size0))"

subsection \<open>Uploads\<close>

text \<open>The first item whose identifier starts the name and is followed by a dot.\<close>

fun find_loop :: "VcmQueueItem list \<Rightarrow> u8 list \<Rightarrow> nat list \<Rightarrow> nat option option" where
  "find_loop xs name [] = Some None"
| "find_loop xs name (i # is) = do {
     item \<leftarrow> fetch xs i;
     ident \<leftarrow> c_string (q_id item);
     if take 32 ident \<noteq> take 32 name \<or> c_at name 32 \<noteq> 0x2e then find_loop xs name is
     else Some (Some i)
   }"

text \<open>The index found or \<open>- 1\<close>, the sidecar flag where it was assigned, and the state.\<close>

definition vcm_queue_find ::
    "u8 list \<Rightarrow> u64 \<Rightarrow> sync_queue \<Rightarrow> (int \<times> bool option \<times> sync_queue) option" where
  "vcm_queue_find name size0 s =
     (if i_cancelled (queue s) \<or> i_syncing (queue s) then Some (- 1, None, s)
      else do {
        hit \<leftarrow> find_loop (items s) name [0..<nat (i_count (queue s))];
        (case hit of
           None \<Rightarrow> Some (- 1, None, s)
         | Some i \<Rightarrow> do {
             item \<leftarrow> fetch (items s) i;
             extension \<leftarrow> c_string (q_extension item);
             let sidecar = (drop 33 name = ascii ''m4t'');
             if (sidecar \<and> q_subtitle_size item = size0 \<and> \<not> q_subtitle_ready item) \<or>
                (\<not> sidecar \<and> drop 33 name = extension \<and> q_size item = size0 \<and> \<not> q_media_ready item)
             then do {
               s \<leftarrow> set_item s (int i) (item\<lparr>q_state := VCM_RECEIVING\<rparr>);
               Some (int i, Some sidecar, s\<lparr>queue := bump (queue s)\<rparr>)
             }
             else Some (- 1, Some sidecar, s)
           })
      })"

definition vcm_queue_progress :: "int \<Rightarrow> u64 \<Rightarrow> bool \<Rightarrow> sync_queue \<Rightarrow> sync_queue option" where
  "vcm_queue_progress i received sidecar s = do {
     item \<leftarrow> item_at s i;
     let v = received + (if sidecar \<and> q_media_ready item then q_size item else 0);
     s \<leftarrow> set_item s i (item\<lparr>q_received := v\<rparr>);
     Some (s\<lparr>queue := bump ((queue s)\<lparr>i_transferred :=
       i_transferred (queue s) - q_received item + v\<rparr>)\<rparr>)
   }"

definition vcm_queue_received :: "int \<Rightarrow> bool \<Rightarrow> int \<Rightarrow> sync_queue \<Rightarrow> sync_queue option" where
  "vcm_queue_received i sidecar error s = do {
     item \<leftarrow> item_at s i;
     let item = item\<lparr>q_error := error\<rparr>;
     if error \<noteq> 0 then do {
       let q = (if q_state item \<noteq> VCM_FAILED then (queue s)\<lparr>i_failed := i_failed (queue s) + 1\<rparr>
                else queue s);
       s \<leftarrow> set_item s i (item\<lparr>q_state := VCM_FAILED\<rparr>);
       Some (s\<lparr>queue := bump q\<rparr>)
     }
     else do {
       let item = (if sidecar then item\<lparr>q_subtitle_ready := True\<rparr> else item\<lparr>q_media_ready := True\<rparr>);
       let ready = q_media_ready item \<and> (q_subtitle_size item = 0 \<or> q_subtitle_ready item);
       s \<leftarrow> set_item s i (item\<lparr>q_state := (if ready then VCM_RECEIVED else VCM_RECEIVING)\<rparr>);
       Some (s\<lparr>queue := bump (queue s)\<rparr>)
     }
   }"

fun all_settled :: "VcmQueueItem list \<Rightarrow> nat list \<Rightarrow> bool option" where
  "all_settled xs [] = Some True"
| "all_settled xs (i # is) = do {
     item \<leftarrow> fetch xs i;
     if q_state item \<noteq> VCM_RECEIVED \<and> q_state item \<noteq> VCM_FAILED then Some False
     else all_settled xs is
   }"

definition vcm_queue_sync :: "sync_queue \<Rightarrow> (int \<times> sync_queue) option" where
  "vcm_queue_sync s =
     (if i_count (queue s) = 0 \<or> i_cancelled (queue s) \<or> i_syncing (queue s) then Some (- 1, s)
      else do {
        settled \<leftarrow> all_settled (items s) [0..<nat (i_count (queue s))];
        if \<not> settled then Some (- 1, s)
        else Some (0, s\<lparr>queue := bump ((queue s)\<lparr>i_syncing := True\<rparr>)\<rparr>)
      })"

definition vcm_queue_cancel :: "sync_queue \<Rightarrow> sync_queue" where
  "vcm_queue_cancel s = s\<lparr>queue := bump ((queue s)\<lparr>i_cancelled := True\<rparr>)\<rparr>"

subsection \<open>The importer\<close>

text \<open>
  The importer holds the lock in two places of each pass: \<open>import_scan\<close> ends the run, skips an item
  or takes one for import, \<open>import_done\<close> records the status of \<open>vcm_sync_import\<close>, which runs
  between them without the lock.
\<close>

datatype scan_result = Run_Ended sync_queue | Item_Skipped | Item_Taken VcmQueueItem sync_queue

definition import_scan :: "nat \<Rightarrow> sync_queue \<Rightarrow> scan_result option" where
  "import_scan i s =
     (if int i \<ge> i_count (queue s) \<or> i_cancelled (queue s) then
        Some (Run_Ended (s\<lparr>queue := bump ((queue s)\<lparr>i_syncing := False, i_importing := - 1\<rparr>)\<rparr>))
      else do {
        item \<leftarrow> fetch (items s) i;
        if q_state item \<noteq> VCM_RECEIVED then Some Item_Skipped
        else do {
          let item = item\<lparr>q_state := VCM_IMPORTING\<rparr>;
          s \<leftarrow> set_item s (int i) item;
          Some (Item_Taken item (s\<lparr>queue := bump ((queue s)\<lparr>i_importing := int i\<rparr>)\<rparr>))
        }
      })"

definition import_done :: "nat \<Rightarrow> int \<Rightarrow> sync_queue \<Rightarrow> sync_queue option" where
  "import_done i status s = do {
     item \<leftarrow> fetch (items s) i;
     s \<leftarrow> set_item s (int i)
       (item\<lparr>q_error := status, q_state := (if status = 0 then VCM_IMPORTED else VCM_FAILED)\<rparr>);
     let q = queue s;
     Some (s\<lparr>queue := bump (if status = 0 then q\<lparr>i_imported := i_imported q + 1\<rparr>
       else q\<lparr>i_failed := i_failed q + 1\<rparr>)\<rparr>)
   }"

text \<open>
  A whole run that nothing interrupts, for a given status of each import. The limit is the length
  of the array, which an index that is still inside the queue does not reach.
\<close>

fun run_imports_loop :: "(VcmQueueItem \<Rightarrow> int) \<Rightarrow> nat \<Rightarrow> nat \<Rightarrow> sync_queue \<Rightarrow> sync_queue option" where
  "run_imports_loop imp 0 i s = None"
| "run_imports_loop imp (Suc fuel) i s = do {
     r \<leftarrow> import_scan i s;
     (case r of
        Run_Ended s \<Rightarrow> Some s
      | Item_Skipped \<Rightarrow> run_imports_loop imp fuel (Suc i) s
      | Item_Taken item s \<Rightarrow> do {
          s \<leftarrow> import_done i (imp item) s;
          run_imports_loop imp fuel (Suc i) s
        })
   }"

definition vcm_queue_run_imports :: "(VcmQueueItem \<Rightarrow> int) \<Rightarrow> sync_queue \<Rightarrow> (int \<times> sync_queue) option" where
  "vcm_queue_run_imports imp s = do {
     s \<leftarrow> run_imports_loop imp (Suc (length (items s))) 0 s;
     Some (0, s)
   }"

subsection \<open>The text decoder\<close>

text \<open>The reference reading of an escaped text, without a buffer.\<close>

function unescape :: "u8 list \<Rightarrow> u8 list option" where
  "unescape [] = Some []"
| "unescape (c # inp) =
     (case decode_char c inp of
        None \<Rightarrow> None
      | Some (v, rest) \<Rightarrow> map_option ((#) v) (unescape rest))"
  by pat_completeness auto
termination
  by (relation "measure length") (auto dest: decode_char_length)

definition printable :: "u8 \<Rightarrow> bool" where
  "printable v \<longleftrightarrow> 32 \<le> v \<and> v \<noteq> 127"

text \<open>The texts that fit an array of the given capacity, and the array that holds one.\<close>

definition text_for :: "nat \<Rightarrow> u8 list \<Rightarrow> u8 list option" where
  "text_for capacity inp =
     (case unescape inp of
        None \<Rightarrow> None
      | Some t \<Rightarrow> if list_all printable t \<and> length t < capacity then Some t else None)"

definition padded :: "nat \<Rightarrow> u8 list \<Rightarrow> u8 list" where
  "padded capacity t = t @ replicate (capacity - length t) 0"

lemma printable_nonzero: "list_all printable t \<Longrightarrow> 0 \<notin> set t"
  by (auto simp: list_all_iff printable_def)

lemma decode_loop_spec:
  assumes "n < capacity" and "length out = capacity"
  shows "case unescape inp of
      Some t \<Rightarrow>
        if list_all printable t \<and> n + length t < capacity
        then decode_loop out capacity n inp =
          Some (take n out @ t @ drop (n + length t) out, n + length t, False)
        else (\<exists>out' m. decode_loop out capacity n inp = Some (out', m, True) \<and> length out' = capacity)
    | None \<Rightarrow> (\<exists>out' m. decode_loop out capacity n inp = Some (out', m, True) \<and> length out' = capacity)"
  using assms
proof (induction out capacity n inp rule: decode_loop.induct)
  case (1 out capacity n)
  then show ?case by simp
next
  case (2 out capacity n c inp)
  show ?case
  proof (cases "decode_char c inp")
    case None
    with 2(3) show ?thesis by simp
  next
    case (Some p)
    obtain v rest where p: "p = (v, rest)" by (cases p)
    show ?thesis
    proof (cases "v < 32 \<or> v = 127 \<or> n + 1 \<ge> capacity")
      case True
      then have "\<not> (list_all printable (v # t) \<and> n + length (v # t) < capacity)" for t
        by (auto simp: printable_def)
      then have "\<not> (list_all printable t' \<and> n + length t' < capacity)" if "t' = v # t" for t t'
        using that by blast
      with True Some p 2(3) show ?thesis
        by (auto split: option.splits)
    next
      case False
      have st: "store out n v = Some (out[n := v])" using 2(2,3) by simp
      have IH: "case unescape rest of
          Some t \<Rightarrow>
            if list_all printable t \<and> Suc n + length t < capacity
            then decode_loop (out[n := v]) capacity (Suc n) rest =
              Some (take (Suc n) (out[n := v]) @ t @ drop (Suc n + length t) (out[n := v]), Suc n + length t, False)
            else (\<exists>out' m. decode_loop (out[n := v]) capacity (Suc n) rest = Some (out', m, True) \<and> length out' = capacity)
        | None \<Rightarrow> (\<exists>out' m. decode_loop (out[n := v]) capacity (Suc n) rest = Some (out', m, True) \<and> length out' = capacity)"
        using "2.IH"[OF Some p [symmetric] False st] False 2(3) by simp
      have tk: "take (Suc n) (out[n := v]) = take n out @ [v]"
        using 2(2,3) by (simp add: take_update_Suc)
      have pr: "printable v" using False by (auto simp: printable_def)
      show ?thesis
        using IH Some p False st tk pr 2(2,3) by (auto split: option.splits if_splits)
    qed
  qed
qed

lemma decode_spec:
  assumes "0 < capacity" and "length out = capacity"
  shows "case text_for capacity inp of
      Some t \<Rightarrow> decode out capacity inp = Some (0, t @ [0] @ drop (Suc (length t)) out)
    | None \<Rightarrow> (\<exists>out'. decode out capacity inp = Some (- 1, out') \<and> length out' = capacity)"
  using decode_loop_spec [of 0 capacity out inp] assms
  by (auto simp: text_for_def decode_def list_update_append upd_conv_take_nth_drop split: option.splits if_splits)

lemma decoded_clear:
  "0 < capacity \<Longrightarrow> decoded (replicate capacity 0) inp = Some (map_option (padded capacity) (text_for capacity inp))"
  using decode_spec [of capacity "replicate capacity 0" inp]
  by (auto simp: decoded_def padded_def text_for_def Suc_diff_Suc replicate_append_same
      simp flip: replicate_Suc split: option.splits if_splits)

lemma text_for_SomeD:
  "text_for capacity inp = Some t \<Longrightarrow> list_all printable t \<and> length t < capacity \<and> unescape inp = Some t"
  by (auto simp: text_for_def split: option.splits if_splits)

lemma c_string_padded:
  assumes "0 \<notin> set t" and "length t < capacity"
  shows "c_string (padded capacity t) = Some t"
  by (rule c_string_prefix) (use assms in \<open>auto simp: padded_def nth_append\<close>)

lemma length_padded [simp]: "length t \<le> capacity \<Longrightarrow> length (padded capacity t) = capacity"
  by (simp add: padded_def)

subsection \<open>Decimal numbers\<close>

abbreviation max_decimal :: nat where "max_decimal \<equiv> 18446744073709551609"

lemma digit_step:
  assumes "is_digit c" and "unat (v :: u64) * 10 + (unat c - 0x30) \<le> max_decimal"
  shows "unat (v * 10 + ucast c - 0x30) = unat v * 10 + (unat c - 0x30)"
proof -
  have c: "0x30 \<le> unat c" "unat c \<le> 0x39"
    using assms(1) by (simp_all add: is_digit_def word_le_nat_alt)
  have "of_nat (unat v) * 10 + (of_nat (unat c) :: u64) - 0x30 = of_nat (unat v * 10 + (unat c - 0x30))"
    using c(1) by (simp add: of_nat_diff)
  then have "v * 10 + ucast c - 0x30 = of_nat (unat v * 10 + (unat c - 0x30))"
    by simp
  also have "unat \<dots> = unat v * 10 + (unat c - 0x30)"
    by (rule unat_of_nat_small) (use assms(2) in simp)
  finally show ?thesis .
qed

lemma decimal_loop_exact:
  "decimal_loop v s =
     (if list_all is_digit s \<and> (s = [] \<or> digits_value (unat v) s \<le> max_decimal)
      then Some (of_nat (digits_value (unat v) s)) else None)"
proof (induction s arbitrary: v)
  case Nil
  then show ?case by simp
next
  case (Cons c s)
  have q: "(- 1 - 9 :: u64) div 10 = 1844674407370955160" by simp
  show ?case
  proof (cases "is_digit c \<and> unat v \<le> 1844674407370955160")
    case True
    then have d: "unat c - 0x30 \<le> 9" by (auto simp: is_digit_def word_le_nat_alt)
    have st: "unat (v * 10 + ucast c - 0x30) = unat v * 10 + (unat c - 0x30)"
      using digit_step [of c v] True d by simp
    have "decimal_loop v (c # s) = decimal_loop (v * 10 + ucast c - 0x30) s"
      using True q by (simp add: is_digit_def word_less_nat_alt word_le_nat_alt)
    then show ?thesis
      using Cons st True d by auto
  next
    case False
    have "decimal_loop v (c # s) = None"
      using False q by (auto simp: is_digit_def word_less_nat_alt word_le_nat_alt)
    moreover have "\<not> (is_digit c \<and> digits_value (unat v) (c # s) \<le> max_decimal)"
      using False digits_value_ge [of "unat v * 10 + (unat c - 0x30)" s] by auto
    ultimately show ?thesis by auto
  qed
qed

subsection \<open>Accepted queues\<close>

definition holds_text :: "nat \<Rightarrow> u8 list \<Rightarrow> bool" where
  "holds_text capacity a \<longleftrightarrow> (\<exists>t. list_all printable t \<and> length t < capacity \<and> a = padded capacity t)"

definition holds_id :: "u8 list \<Rightarrow> bool" where
  "holds_id a \<longleftrightarrow> (\<exists>i. id_valid i \<and> a = i @ [0])"

definition media_valid :: "VcmQueueItem \<Rightarrow> bool" where
  "media_valid item \<longleftrightarrow>
     0 < q_size item \<and> q_size item \<le> 8 * 1024 ^ 3 \<and> q_subtitle_size item \<le> 64 * 1024 ^ 2 \<and>
     q_kind item \<in> {0, 1, 2} \<and> q_duration_ms item \<in> {0..360000000} \<and>
     q_sample_rate item \<in> {0..96000} \<and> q_channels item \<in> {0..2} \<and> q_track item \<in> {0..99999} \<and>
     kind_refused item = Some False"

definition texts_valid :: "VcmQueueItem \<Rightarrow> bool" where
  "texts_valid item \<longleftrightarrow>
     holds_text 8 (q_extension item) \<and> holds_text 256 (q_name item) \<and> q_name item ! 0 \<noteq> 0 \<and>
     holds_text 256 (q_folder item) \<and> holds_text 256 (q_title item) \<and> holds_text 256 (q_artist item) \<and>
     holds_text 256 (q_album item) \<and> holds_text 256 (q_album_artist item) \<and> holds_text 128 (q_genre item)"

definition item_valid :: "VcmQueueItem \<Rightarrow> bool" where
  "item_valid item \<longleftrightarrow> holds_id (q_id item) \<and> texts_valid item \<and> media_valid item"

definition item_fresh :: "VcmQueueItem \<Rightarrow> bool" where
  "item_fresh item \<longleftrightarrow> q_received item = 0 \<and> q_state item = VCM_WAITING \<and> q_error item = 0 \<and>
     \<not> q_media_ready item \<and> \<not> q_subtitle_ready item"

lemma id_valid_iff: "id_valid i \<longleftrightarrow> length i = 32 \<and> list_all id_char i"
  by (auto simp: id_valid_def list_all_length min_def split: if_splits)

lemma id_valid_nonzero: "id_valid i \<Longrightarrow> 0 \<notin> set i"
  by (auto simp: id_valid_iff list_all_iff id_char_def)

lemma c_string_id: "id_valid i \<Longrightarrow> c_string (i @ [0]) = Some i"
  by (rule c_string_prefix) (auto simp: nth_append dest: id_valid_nonzero)

lemma holds_textE:
  assumes "holds_text capacity a"
  obtains t where "c_string a = Some t" and "list_all printable t" and "length t < capacity"
    and "a = padded capacity t"
  using assms unfolding holds_text_def by (metis c_string_padded printable_nonzero)

lemma holds_text_clear: "0 < capacity \<Longrightarrow> holds_text capacity (replicate capacity 0)"
  unfolding holds_text_def by (intro exI [of _ "[]"]) (simp add: padded_def)

lemma id_taken_exact:
  assumes "list_all (\<lambda>p. holds_id (q_id p)) pending" and "id_valid i"
  shows "id_taken pending (i @ [0]) = Some (i @ [0] \<in> q_id ` set pending)"
  using assms(1)
proof (induction pending)
  case (Cons p ps)
  from Cons.prems obtain j where "id_valid j" "q_id p = j @ [0]" by (auto simp: holds_id_def)
  with Cons assms(2) show ?case by (auto simp: same_text_def c_string_id)
qed simp

lemma or_reject_safe:
  assumes "\<exists>r. m = Some r \<and> (\<forall>a. r = Some a \<longrightarrow> P a)"
    and "\<And>a. P a \<Longrightarrow> \<exists>r. k a = Some r \<and> (\<forall>b. r = Some b \<longrightarrow> Q b)"
  shows "\<exists>r. or_reject m k = Some r \<and> (\<forall>b. r = Some b \<longrightarrow> Q b)"
  using assms by (fastforce simp: or_reject_def split: option.splits)

lemma decoded_safe:
  "0 < capacity \<Longrightarrow> a = replicate capacity 0 \<Longrightarrow>
    \<exists>r. decoded a inp = Some r \<and> (\<forall>b. r = Some b \<longrightarrow> holds_text capacity b)"
  by (auto simp: decoded_clear holds_text_def dest: text_for_SomeD)

lemma field_Some: "\<exists>f rest. field (Some s) d = (Some f, rest)"
  by (simp add: field_def)

lemma line_fields_length: "line_fields n part = Some (fs, rest) \<Longrightarrow> length fs = n"
  by (induction n part arbitrary: fs rest rule: line_fields.induct)
    (auto split: prod.splits option.splits simp: bind_eq_Some_conv)

lemma parse_folder_safe:
  "\<exists>r. parse_folder clear_item dir = Some r \<and>
     (\<forall>item. r = Some item \<longrightarrow> (\<exists>a. holds_text 256 a \<and> item = clear_item\<lparr>q_folder := a\<rparr>))"
proof (cases dir)
  case None
  then show ?thesis
    by (auto simp: parse_folder_def clear_item_def intro!: exI [of _ "replicate 256 0"] holds_text_clear)
next
  case (Some s)
  have "\<exists>r. decoded (q_folder clear_item) s = Some r \<and> (\<forall>b. r = Some b \<longrightarrow> holds_text 256 b)"
    by (rule decoded_safe) (simp_all add: clear_item_def)
  then show ?thesis unfolding parse_folder_def Some option.case
    by (rule or_reject_safe) auto
qed

lemma parse_identity_safe:
  assumes "list_all (\<lambda>p. holds_id (q_id p)) pending" and "q_extension item = replicate 8 0"
  shows "\<exists>r. parse_identity pending item f = Some r \<and>
     (\<forall>item'. r = Some item' \<longrightarrow> (\<exists>i e. holds_id i \<and> i \<notin> q_id ` set pending \<and> holds_text 8 e \<and>
       item' = item\<lparr>q_extension := e, q_id := i\<rparr>))"
proof (cases "id_valid (f ! 0)")
  case False
  then show ?thesis by (simp add: parse_identity_def)
next
  case True
  then have t: "take 33 (f ! 0 @ [0]) = f ! 0 @ [0]" by (simp add: id_valid_iff)
  have i: "holds_id (f ! 0 @ [0])" using True by (auto simp: holds_id_def)
  have "\<exists>r. decoded (q_extension item) (f ! 1) = Some r \<and> (\<forall>b. r = Some b \<longrightarrow> holds_text 8 b)"
    by (rule decoded_safe) (simp_all add: assms)
  then show ?thesis
    unfolding parse_identity_def Let_def t using True
    by (simp del: take_append, elim or_reject_safe)
      (use i True in \<open>auto simp del: take_append simp: t id_taken_exact [OF assms(1)]\<close>)
qed

lemma uint_le_of_le: "(v :: u64) \<le> w \<Longrightarrow> uint v \<le> uint w"
  by (simp add: word_le_def)

lemma parse_numbers_safe:
  "\<exists>r. parse_numbers item f = Some r \<and>
     (\<forall>item'. r = Some item' \<longrightarrow> (\<exists>sz sub k d sr ch tr.
       item' = item\<lparr>q_size := sz, q_subtitle_size := sub, q_kind := k, q_duration_ms := d,
         q_sample_rate := sr, q_channels := ch, q_track := tr\<rparr> \<and>
       0 < sz \<and> sz \<le> 8 * 1024 ^ 3 \<and> sub \<le> 64 * 1024 ^ 2 \<and> k \<in> {0, 1, 2} \<and> d \<in> {0..360000000} \<and>
       sr \<in> {0..96000} \<and> ch \<in> {0..2} \<and> tr \<in> {0..99999}))"
proof (cases "decimals f numeric_positions")
  case None
  then show ?thesis by (simp add: parse_numbers_def)
next
  case (Some ns)
  have k: "uint (ns ! 2) \<in> {0, 1, 2}" if "ns ! 2 \<le> 2"
    using uint_le_of_le [OF that] uint_nonnegative [of "ns ! 2"] by (simp; presburger)
  have z: "0 < ns ! 0" if "ns ! 0 \<noteq> 0" using that by (simp add: word_neq_0_conv)
  have eq: "parse_numbers item f = (if ns ! 0 = 0 \<or> ns ! 0 > 8 * 1024 ^ 3 \<or> ns ! 1 > 64 * 1024 ^ 2 \<or>
      ns ! 2 > 2 \<or> ns ! 3 > 360000000 \<or> ns ! 4 > 96000 \<or> ns ! 5 > 2 \<or> ns ! 6 > 99999 then Some None
    else Some (Some (item\<lparr>q_size := ns ! 0, q_subtitle_size := ns ! 1, q_kind := uint (ns ! 2),
      q_duration_ms := uint (ns ! 3), q_sample_rate := uint (ns ! 4), q_channels := uint (ns ! 5),
      q_track := uint (ns ! 6)\<rparr>)))"
    by (simp add: parse_numbers_def Some Let_def)
  show ?thesis
  proof (cases "ns ! 0 = 0 \<or> ns ! 0 > 8 * 1024 ^ 3 \<or> ns ! 1 > 64 * 1024 ^ 2 \<or>
      ns ! 2 > 2 \<or> ns ! 3 > 360000000 \<or> ns ! 4 > 96000 \<or> ns ! 5 > 2 \<or> ns ! 6 > 99999")
    case True
    then show ?thesis unfolding eq by simp
  next
    case False
    then have g: "ns ! 0 \<noteq> 0" "ns ! 0 \<le> 8 * 1024 ^ 3" "ns ! 1 \<le> 64 * 1024 ^ 2" "ns ! 2 \<le> 2"
      "ns ! 3 \<le> 360000000" "ns ! 4 \<le> 96000" "ns ! 5 \<le> 2" "ns ! 6 \<le> 99999"
      by (simp_all only: de_Morgan_disj not_less not_False_eq_True)
    show ?thesis
      unfolding eq if_not_P [OF False] option.inject ex_simps simp_thms
      by (intro exI conjI, rule refl)
        (use g z [OF g(1)] k [OF g(4)] g(5-8) [THEN uint_le_of_le] in simp_all)
  qed
qed


lemma kind_refused_defined:
  "holds_text 8 (q_extension item) \<Longrightarrow> \<exists>b. kind_refused item = Some b"
  by (auto simp: kind_refused_def elim: holds_textE)

lemma kind_refused_cong:
  "q_extension a = q_extension b \<Longrightarrow> q_kind a = q_kind b \<Longrightarrow> q_duration_ms a = q_duration_ms b \<Longrightarrow>
    q_sample_rate a = q_sample_rate b \<Longrightarrow> q_channels a = q_channels b \<Longrightarrow>
    q_subtitle_size a = q_subtitle_size b \<Longrightarrow> kind_refused a = kind_refused b"
  by (simp add: kind_refused_def)

lemma parse_texts_safe:
  assumes "q_name item = replicate 256 0" "q_title item = replicate 256 0" "q_artist item = replicate 256 0"
    "q_album item = replicate 256 0" "q_album_artist item = replicate 256 0" "q_genre item = replicate 128 0"
  shows "\<exists>r. parse_texts item f = Some r \<and>
     (\<forall>item'. r = Some item' \<longrightarrow> (\<exists>n t a al aa g.
       item' = item\<lparr>q_name := n, q_title := t, q_artist := a, q_album := al, q_album_artist := aa, q_genre := g\<rparr> \<and>
       holds_text 256 n \<and> n ! 0 \<noteq> 0 \<and> holds_text 256 t \<and> holds_text 256 a \<and> holds_text 256 al \<and>
       holds_text 256 aa \<and> holds_text 128 g))"
  unfolding parse_texts_def
proof (rule or_reject_safe)
  show "\<exists>r. decoded (q_name item) (f ! 5) = Some r \<and> (\<forall>a. r = Some a \<longrightarrow> holds_text 256 a)"
    by (rule decoded_safe) (simp_all add: assms)
next
  fix n :: "u8 list" assume n: "holds_text 256 n"
  then have l: "0 < length n" by (auto simp: holds_text_def padded_def)
  have "n ! 0 = 0 \<or> n ! 0 \<noteq> 0" by blast
  then show "\<exists>r. (fetch n 0 \<bind> (\<lambda>first. if first = 0 then Some None
     else or_reject (decoded (q_title item) (f ! 6)) (\<lambda>title.
          or_reject (decoded (q_artist item) (f ! 7)) (\<lambda>artist.
          or_reject (decoded (q_album item) (f ! 8)) (\<lambda>album.
          or_reject (decoded (q_album_artist item) (f ! 9)) (\<lambda>album_artist.
          or_reject (decoded (q_genre item) (f ! 10)) (\<lambda>genre.
            Some (Some (item\<lparr>q_name := n, q_title := title, q_artist := artist, q_album := album,
              q_album_artist := album_artist, q_genre := genre\<rparr>)))))))))
       = Some r \<and> (\<forall>item'. r = Some item' \<longrightarrow> (\<exists>n t a al aa g.
       item' = item\<lparr>q_name := n, q_title := t, q_artist := a, q_album := al, q_album_artist := aa, q_genre := g\<rparr> \<and>
       holds_text 256 n \<and> n ! 0 \<noteq> 0 \<and> holds_text 256 t \<and> holds_text 256 a \<and> holds_text 256 al \<and>
       holds_text 256 aa \<and> holds_text 128 g))"
  proof
    assume "n ! 0 = 0"
    then show ?thesis using l by simp
  next
    assume n0: "n ! 0 \<noteq> 0"
    show ?thesis
      unfolding fetch_in [OF l] bind.bind_lunit if_not_P [OF n0]
      by (rule or_reject_safe [OF decoded_safe [of 256]], simp, simp add: assms,
          rule or_reject_safe [OF decoded_safe [of 256]], simp, simp add: assms,
          rule or_reject_safe [OF decoded_safe [of 256]], simp, simp add: assms,
          rule or_reject_safe [OF decoded_safe [of 256]], simp, simp add: assms,
          rule or_reject_safe [OF decoded_safe [of 128]], simp, simp add: assms)
        (use n n0 in blast)
  qed
qed

text \<open>What the line has established of an item before its texts are read.\<close>

definition item_numbered :: "VcmQueueItem list \<Rightarrow> VcmQueueItem \<Rightarrow> bool" where
  "item_numbered pending item \<longleftrightarrow>
     holds_id (q_id item) \<and> q_id item \<notin> q_id ` set pending \<and> holds_text 8 (q_extension item) \<and>
     (kind_refused item = Some False \<longrightarrow> media_valid item) \<and> holds_text 256 (q_folder item) \<and>
     item_fresh item \<and> q_name item = replicate 256 0 \<and> q_title item = replicate 256 0 \<and>
     q_artist item = replicate 256 0 \<and> q_album item = replicate 256 0 \<and>
     q_album_artist item = replicate 256 0 \<and> q_genre item = replicate 128 0"

definition item_accepted :: "VcmQueueItem list \<Rightarrow> VcmQueueItem \<Rightarrow> bool" where
  "item_accepted pending item \<longleftrightarrow>
     item_valid item \<and> item_fresh item \<and> q_id item \<notin> q_id ` set pending"

lemma item_accepted_texts:
  assumes "item_numbered pending item" and "kind_refused item = Some False"
    and "holds_text 256 n" "n ! 0 \<noteq> 0" "holds_text 256 t" "holds_text 256 ar" "holds_text 256 al"
      "holds_text 256 aa" "holds_text 128 g"
  shows "item_accepted pending (item\<lparr>q_name := n, q_title := t, q_artist := ar, q_album := al,
    q_album_artist := aa, q_genre := g\<rparr>)"
proof -
  let ?i = "item\<lparr>q_name := n, q_title := t, q_artist := ar, q_album := al, q_album_artist := aa,
    q_genre := g\<rparr>"
  have "kind_refused ?i = kind_refused item" by (rule kind_refused_cong) simp_all
  then have "media_valid ?i" using assms(1,2) by (simp add: item_numbered_def media_valid_def)
  moreover have "texts_valid ?i" using assms by (simp add: item_numbered_def texts_valid_def)
  ultimately show ?thesis
    using assms(1) by (simp add: item_accepted_def item_valid_def item_numbered_def item_fresh_def)
qed

lemma parse_checked_safe:
  assumes "item_numbered pending item"
  shows "\<exists>r. (kind_refused item \<bind> (\<lambda>refused. if refused then Some None else parse_texts item f)) = Some r \<and>
    (\<forall>item'. r = Some item' \<longrightarrow> item_accepted pending item')"
proof -
  have "\<exists>b. kind_refused item = Some b"
    by (rule kind_refused_defined) (use assms in \<open>simp add: item_numbered_def\<close>)
  then obtain b where b: "kind_refused item = Some b" by blast
  obtain r where r: "parse_texts item f = Some r"
    "\<forall>item'. r = Some item' \<longrightarrow> (\<exists>n t a al aa g.
       item' = item\<lparr>q_name := n, q_title := t, q_artist := a, q_album := al, q_album_artist := aa, q_genre := g\<rparr> \<and>
       holds_text 256 n \<and> n ! 0 \<noteq> 0 \<and> holds_text 256 t \<and> holds_text 256 a \<and> holds_text 256 al \<and>
       holds_text 256 aa \<and> holds_text 128 g)"
    using parse_texts_safe [of item f] assms unfolding item_numbered_def by blast
  show ?thesis
  proof (cases b)
    case False
    then have "kind_refused item = Some False" using b by simp
    then have "\<forall>item'. r = Some item' \<longrightarrow> item_accepted pending item'"
      using r(2) item_accepted_texts [OF assms] by blast
    with False b r(1) show ?thesis by simp
  qed (simp add: b)
qed

lemma parse_line_safe:
  assumes "list_all item_valid pending"
  shows "\<exists>r. parse_line pending line = Some r \<and> (\<forall>item. r = Some item \<longrightarrow> item_accepted pending item)"
proof (cases "line_fields 15 line")
  case None
  then show ?thesis by (simp add: parse_line_def)
next
  case (Some fp)
  obtain f part where fp: "fp = (f, part)" by (cases fp)
  obtain dir rest where fd: "field part 0x09 = (dir, rest)" by (cases "field part 0x09")
  have ids: "list_all (\<lambda>p. holds_id (q_id p)) pending"
    using assms by (auto simp: list_all_iff item_valid_def)
  have ok: "\<exists>r. or_reject (parse_folder clear_item dir) (\<lambda>item.
      or_reject (parse_identity pending item f) (\<lambda>item.
      or_reject (parse_numbers item f) (\<lambda>item.
        kind_refused item \<bind> (\<lambda>refused. if refused then Some None else parse_texts item f)))) = Some r \<and>
    (\<forall>item. r = Some item \<longrightarrow> item_accepted pending item)"
  proof (rule or_reject_safe [OF parse_folder_safe], elim exE conjE,
      rule or_reject_safe [OF parse_identity_safe [OF ids]], simp add: clear_item_def, elim exE conjE,
      rule or_reject_safe [OF parse_numbers_safe], elim exE conjE, rule parse_checked_safe)
    fix it1 a it2 i e it3 sz sub k d sr ch tr
    assume a: "holds_text 256 a" "it1 = clear_item\<lparr>q_folder := a\<rparr>"
      and i: "holds_id i" "i \<notin> q_id ` set pending" "holds_text 8 e"
        "it2 = it1\<lparr>q_extension := e, q_id := i\<rparr>"
      and it3: "it3 = it2\<lparr>q_size := sz, q_subtitle_size := sub, q_kind := k, q_duration_ms := d,
        q_sample_rate := sr, q_channels := ch, q_track := tr\<rparr>"
      and rng: "0 < sz" "sz \<le> 8 * 1024 ^ 3" "sub \<le> 64 * 1024 ^ 2" "k \<in> {0, 1, 2}" "d \<in> {0..360000000}"
        "sr \<in> {0..96000}" "ch \<in> {0..2}" "tr \<in> {0..99999}"
    show "item_numbered pending it3"
      using a i rng unfolding item_numbered_def media_valid_def item_fresh_def
      by (simp add: it3 clear_item_def)
  qed
  show ?thesis using ok by (simp add: parse_line_def Some fp fd)
qed

lemma publish_loop_safe:
  assumes "list_all item_valid pending" and "list_all item_fresh pending"
    and "distinct (map q_id pending)" and "length pending \<le> VCM_QUEUE_MAX"
    and "tot = sum_list (map (\<lambda>p. q_size p + q_subtitle_size p) pending)"
  shows "\<exists>r. publish_loop pending tot cursor = Some r \<and>
    (\<forall>pending' tot'. r = Some (pending', tot') \<longrightarrow>
      list_all item_valid pending' \<and> list_all item_fresh pending' \<and> distinct (map q_id pending') \<and>
      length pending' \<le> VCM_QUEUE_MAX \<and>
      tot' = sum_list (map (\<lambda>p. q_size p + q_subtitle_size p) pending'))"
  using assms
proof (induction pending tot cursor rule: publish_loop.induct)
  case (1 pending tot cursor)
  show ?case
  proof (cases "cursor = None \<or> cursor = Some [] \<or> length pending = VCM_QUEUE_MAX")
    case True
    then have "publish_loop pending tot cursor = Some None \<or>
      publish_loop pending tot cursor = Some (Some (pending, tot))"
      unfolding publish_loop.simps [of pending tot cursor] by auto
    with "1.prems" show ?thesis by auto
  next
    case False
    obtain line rest where fd: "field cursor 0x0a = (line, rest)" by (cases "field cursor 0x0a")
    have "\<exists>r. or_reject (parse_line pending line) (\<lambda>item.
        publish_loop (pending @ [item]) (tot + (q_size item + q_subtitle_size item)) rest) = Some r \<and>
      (\<forall>pt. r = Some pt \<longrightarrow>
        list_all item_valid (fst pt) \<and> list_all item_fresh (fst pt) \<and> distinct (map q_id (fst pt)) \<and>
        length (fst pt) \<le> VCM_QUEUE_MAX \<and>
        snd pt = sum_list (map (\<lambda>p. q_size p + q_subtitle_size p) (fst pt)))"
      by (rule or_reject_safe [OF parse_line_safe [OF "1.prems"(1)]])
        (use "1.IH" [OF _ _ fd [symmetric]] False "1.prems" in
          \<open>auto simp: item_accepted_def Let_def\<close>)
    moreover have "publish_loop pending tot cursor = or_reject (parse_line pending line) (\<lambda>item.
        publish_loop (pending @ [item]) (tot + (q_size item + q_subtitle_size item)) rest)"
      unfolding publish_loop.simps [of pending tot cursor] using False fd by auto
    ultimately show ?thesis by simp
  qed
qed


lemma total_exact:
  assumes "list_all item_valid xs" and "length xs \<le> VCM_QUEUE_MAX"
  shows "unat (sum_list (map (\<lambda>p. q_size p + q_subtitle_size p) xs)) =
    sum_list (map (\<lambda>p. unat (q_size p) + unat (q_subtitle_size p)) xs) \<and>
    sum_list (map (\<lambda>p. unat (q_size p) + unat (q_subtitle_size p)) xs) \<le> length xs * 8657043456"
  using assms
proof (induction xs)
  case (Cons x xs)
  let ?n = "sum_list (map (\<lambda>p. unat (q_size p) + unat (q_subtitle_size p)) xs)"
  have "q_size x \<le> 8589934592" "q_subtitle_size x \<le> 67108864"
    using Cons.prems by (simp_all add: item_valid_def media_valid_def)
  then have b: "unat (q_size x) \<le> 8589934592" "unat (q_subtitle_size x) \<le> 67108864"
    by (simp_all add: word_le_nat_alt)
  have IH: "unat (sum_list (map (\<lambda>p. q_size p + q_subtitle_size p) xs)) = ?n"
    "?n \<le> length xs * 8657043456"
    using Cons by simp_all
  have "length xs * 8657043456 \<le> 128 * 8657043456" using Cons.prems by (intro mult_le_mono1) simp
  with IH(2) have "?n \<le> 1108101562368" by linarith
  then show ?case using b IH by (simp add: unat_word_ariths)
qed simp

text \<open>A queue that has just been accepted.\<close>

definition queue_accepted :: "sync_queue \<Rightarrow> sync_queue \<Rightarrow> bool" where
  "queue_accepted s s' \<longleftrightarrow>
     (\<exists>n i. 0 < n \<and> n \<le> VCM_QUEUE_MAX \<and> id_valid i \<and> length (items s') = length (items s) \<and>
       mutex s' = mutex s \<and>
       list_all item_valid (take n (items s')) \<and> list_all item_fresh (take n (items s')) \<and>
       distinct (map q_id (take n (items s'))) \<and>
       queue s' = \<lparr>i_revision = i_revision (queue s) + 1, i_count = int n, i_imported = 0, i_failed = 0,
         i_importing = - 1, i_syncing = False, i_cancelled = False, i_transferred = 0,
         i_total = i_total (queue s'), i_id = i @ [0]\<rparr> \<and>
       unat (i_total (queue s')) =
         sum_list (map (\<lambda>p. unat (q_size p) + unat (q_subtitle_size p)) (take n (items s'))))"

definition queue_busy :: "sync_queue \<Rightarrow> bool" where
  "queue_busy s \<longleftrightarrow> i_syncing (queue s) \<or> (i_count (queue s) \<noteq> 0 \<and> \<not> i_cancelled (queue s) \<and>
     i_imported (queue s) + i_failed (queue s) < i_count (queue s))"

lemma publish_spec:
  assumes "0 \<in> set body" and "length (items s) = VCM_QUEUE_MAX"
  shows "\<exists>status s'. vcm_queue_publish body s = Some (status, s') \<and> status \<in> {0, - 1, - 2} \<and>
    (status \<noteq> 0 \<longrightarrow> s' = s) \<and> (status = - 2 \<longrightarrow> queue_busy s) \<and>
    (status = 0 \<longrightarrow> \<not> queue_busy s \<and> queue_accepted s s')"
proof -
  define t where "t = takeWhile (\<lambda>c. c \<noteq> 0) body"
  have t: "c_string body = Some t" using assms(1) by (simp add: t_def c_string_Some)
  obtain i cursor where f: "field (Some t) 0x0a = (Some i, cursor)" using field_Some by blast
  have "\<exists>r. publish_loop [] 0 cursor = Some r \<and>
    (\<forall>pending' tot'. r = Some (pending', tot') \<longrightarrow>
      list_all item_valid pending' \<and> list_all item_fresh pending' \<and> distinct (map q_id pending') \<and>
      length pending' \<le> VCM_QUEUE_MAX \<and>
      tot' = sum_list (map (\<lambda>p. q_size p + q_subtitle_size p) pending'))"
    by (rule publish_loop_safe) simp_all
  then obtain r where r: "publish_loop [] 0 cursor = Some r" "\<And>pending tot. r = Some (pending, tot) \<Longrightarrow>
      list_all item_valid pending \<and> list_all item_fresh pending \<and> distinct (map q_id pending) \<and>
      length pending \<le> VCM_QUEUE_MAX \<and>
      tot = sum_list (map (\<lambda>p. q_size p + q_subtitle_size p) pending)" by blast
  show ?thesis
  proof (cases "id_valid i \<and> (\<exists>pending tot. r = Some (pending, tot) \<and> pending \<noteq> [])")
    case False
    then have "vcm_queue_publish body s = Some (- 1, s)"
      by (auto simp: vcm_queue_publish_def t f r(1) split: option.splits)
    then show ?thesis by simp
  next
    case True
    then obtain pending tot where p: "id_valid i" "r = Some (pending, tot)" "pending \<noteq> []" by blast
    note acc = r(2) [OF p(2)]
    have len: "take 33 (i @ [0]) = i @ [0]" using p(1) by (simp add: id_valid_iff)
    define s' where "s' = s\<lparr>queue := clear_queue\<lparr>i_revision := i_revision (queue s) + 1,
      i_count := int (length pending), i_total := tot, i_importing := - 1, i_id := i @ [0]\<rparr>,
      items := pending @ drop (length pending) (items s)\<rparr>"
    have pub: "vcm_queue_publish body s = Some (if queue_busy s then (- 2, s) else (0, s'))"
      using acc assms(2) p by (simp add: vcm_queue_publish_def t f r(1) queue_busy_def s'_def len del: take_append)
    have "queue_accepted s s'"
      unfolding queue_accepted_def
      by (rule exI [of _ "length pending"], rule exI [of _ i])
        (use acc assms(2) p total_exact [of pending] in \<open>simp add: s'_def clear_queue_def\<close>)
    with pub show ?thesis by simp
  qed
qed

subsection \<open>The desktop's text encoding\<close>

text \<open>
  The desktop application writes the fields of a queue with Python's \<open>quote(text, safe="")\<close>
  (\<^verbatim>\<open>src/desktop/wifi.py\<close>, \<open>queue_payload\<close>): letters, digits and the characters \<open>_.-~\<close> stand for
  themselves, every other byte is written as a percent sign and two upper-case digits.
\<close>

definition unreserved :: "u8 \<Rightarrow> bool" where
  "unreserved c \<longleftrightarrow> (0x41 \<le> c \<and> c \<le> 0x5a) \<or> (0x61 \<le> c \<and> c \<le> 0x7a) \<or> (0x30 \<le> c \<and> c \<le> 0x39) \<or>
     c \<in> {0x5f, 0x2e, 0x2d, 0x7e}"

definition hex_digit :: "nat \<Rightarrow> u8" where
  "hex_digit n = (if n < 10 then 0x30 + of_nat n else 0x37 + of_nat n)"

definition quote_char :: "u8 \<Rightarrow> u8 list" where
  "quote_char c = (if unreserved c then [c] else [0x25, hex_digit (unat c div 16), hex_digit (unat c mod 16)])"

definition quote :: "u8 list \<Rightarrow> u8 list" where
  "quote s = concat (map quote_char s)"

lemma hex_hex_digit:
  assumes "n < 16"
  shows "hex (hex_digit n) = int n"
proof -
  have "list_all (\<lambda>n. hex (hex_digit n) = int n) [0..<16]" by code_simp
  then show ?thesis using assms by (simp add: list_all_iff)
qed

lemma decode_quoted_char: "decode_char (hd (quote_char c)) (tl (quote_char c) @ rest) = Some (c, rest)"
proof (cases "unreserved c")
  case True
  then have "c \<noteq> 0x25" by (auto simp: unreserved_def)
  with True show ?thesis by (simp add: quote_char_def decode_char_def)
next
  case False
  have b: "unat c div 16 < 16" "unat c mod 16 < 16"
    using unsigned_less [of c, where ?'a = nat] by auto
  have "(of_nat (unat c div 16) * of_nat 16 + of_nat (unat c mod 16) :: u8) = of_nat (unat c)"
    by (simp only: of_nat_add [symmetric] of_nat_mult [symmetric] div_mult_mod_eq)
  then have w: "word_of_nat (unat c div 16) * 16 + word_of_nat (unat c mod 16) = c" by simp
  show ?thesis
    using False b w by (simp add: quote_char_def decode_char_def hex_hex_digit)
qed

lemma unescape_quote: "unescape (quote s) = Some s"
proof (induction s)
  case (Cons c s)
  obtain d ds where "quote_char c = d # ds" by (cases "quote_char c") (auto simp: quote_char_def split: if_splits)
  with decode_quoted_char [of c "quote s"] Cons show ?case by (simp add: quote_def)
qed (simp add: quote_def)

text \<open>
  C32. Text fields survive the journey from the desktop to the console: for every text without control
  characters that is shorter than the array, \<open>decode\<close> of the percent-encoding succeeds and leaves the
  text, terminated, in the array; a longer text or one with control characters is refused with \<open>- 1\<close>, and
  in no case is a byte outside the array touched.
\<close>

theorem text_field_roundtrip:
  assumes "0 < capacity" and "length out = capacity"
  shows "\<exists>status out'. decode out capacity (quote s) = Some (status, out') \<and> length out' = capacity \<and>
    (status = 0 \<longleftrightarrow> list_all printable s \<and> length s < capacity) \<and>
    (status = 0 \<longrightarrow> c_string out' = Some s) \<and> (status \<noteq> 0 \<longrightarrow> status = - 1)"
proof (cases "list_all printable s \<and> length s < capacity")
  case True
  then have "text_for capacity (quote s) = Some s" by (simp add: text_for_def unescape_quote)
  then have d: "decode out capacity (quote s) = Some (0, s @ [0] @ drop (Suc (length s)) out)"
    using decode_spec [OF assms, of "quote s"] by simp
  have "c_string (s @ [0] @ drop (Suc (length s)) out) = Some s"
    by (rule c_string_prefix) (use True in \<open>auto dest: printable_nonzero\<close>)
  with d True assms show ?thesis by simp
next
  case False
  then have "text_for capacity (quote s) = None" by (auto simp: text_for_def unescape_quote)
  with decode_spec [OF assms, of "quote s"] False show ?thesis by auto
qed

theorem text_field_roundtrip_witness:
  "\<exists>status out'. decode (replicate 8 7) 8 (quote (ascii ''a b%'')) = Some (status, out') \<and> length out' = 8 \<and>
    (status = 0 \<longleftrightarrow> list_all printable (ascii ''a b%'') \<and> length (ascii ''a b%'') < 8) \<and>
    (status = 0 \<longrightarrow> c_string out' = Some (ascii ''a b%'')) \<and> (status \<noteq> 0 \<longrightarrow> status = - 1)"
  by (rule text_field_roundtrip) simp_all

text \<open>
  C33. Numbers are read exactly or not at all: \<open>decimal\<close> accepts a text just when it is a non-empty run of digits whose
  value does not exceed 18446744073709551609, and then returns that value; the 64-bit accumulator never delivers a
  wrapped number.
\<close>

theorem decimal_exact:
  "decimal s =
     (if s \<noteq> [] \<and> list_all is_digit s \<and> digits_value 0 s \<le> max_decimal
      then Some (of_nat (digits_value 0 s)) else None)"
  by (simp add: decimal_def decimal_loop_exact)

end
