(* ===== verification/Queue_System.thy ===== *)
theory Queue_System
  imports Sync_Queue
begin

text \<open>
  The transfer queue at work: the network service, the user interface and the import worker as
  interleaved steps on the shared queue, the invariant of all reachable states, and the functional
  behaviour of a complete import run.
\<close>

subsection \<open>The running application\<close>

text \<open>
  Three threads share the queue. The network service publishes queues, starts the import and
  receives one file at a time: \<open>receive_file\<close> of \<^verbatim>\<open>wifi_service.c\<close> refuses an empty file, looks the
  item up, reports progress and ends with exactly one report of the outcome. The user interface
  cancels at any time and starts an import worker when the queue is syncing and no worker
  exists. The worker runs \<open>vcm_queue_run_imports\<close>. Every section under the lock is one step.
\<close>

datatype worker = Idle | Scanning nat | Importing nat

record system =
  shared :: sync_queue
  worker :: worker
  upload :: "(nat \<times> bool) option"

inductive step :: "system \<Rightarrow> system \<Rightarrow> bool" where
  publish: "upload s = None \<Longrightarrow> 0 \<in> set body \<Longrightarrow>
    vcm_queue_publish body (shared s) = Some (status, q) \<Longrightarrow> step s (s\<lparr>shared := q\<rparr>)"
| find: "upload s = None \<Longrightarrow> size0 \<noteq> 0 \<Longrightarrow> vcm_queue_find name size0 (shared s) = Some (i, sidecar, q) \<Longrightarrow>
    step s (s\<lparr>shared := q, upload := (if i < 0 then None else Some (nat i, sidecar = Some True))\<rparr>)"
| progress: "upload s = Some (i, sidecar) \<Longrightarrow>
    vcm_queue_progress (int i) received sidecar (shared s) = Some q \<Longrightarrow> step s (s\<lparr>shared := q\<rparr>)"
| received: "upload s = Some (i, sidecar) \<Longrightarrow>
    vcm_queue_received (int i) sidecar error (shared s) = Some q \<Longrightarrow>
    step s (s\<lparr>shared := q, upload := None\<rparr>)"
| sync: "upload s = None \<Longrightarrow> vcm_queue_sync (shared s) = Some (status, q) \<Longrightarrow> step s (s\<lparr>shared := q\<rparr>)"
| cancel: "step s (s\<lparr>shared := vcm_queue_cancel (shared s)\<rparr>)"
| start: "worker s = Idle \<Longrightarrow> i_syncing (queue (shared s)) \<Longrightarrow> step s (s\<lparr>worker := Scanning 0\<rparr>)"
| ended: "worker s = Scanning i \<Longrightarrow> import_scan i (shared s) = Some (Run_Ended q) \<Longrightarrow>
    step s (s\<lparr>shared := q, worker := Idle\<rparr>)"
| skipped: "worker s = Scanning i \<Longrightarrow> import_scan i (shared s) = Some Item_Skipped \<Longrightarrow>
    step s (s\<lparr>worker := Scanning (Suc i)\<rparr>)"
| taken: "worker s = Scanning i \<Longrightarrow> import_scan i (shared s) = Some (Item_Taken item q) \<Longrightarrow>
    step s (s\<lparr>shared := q, worker := Importing i\<rparr>)"
| recorded: "worker s = Importing i \<Longrightarrow> import_done i status (shared s) = Some q \<Longrightarrow>
    step s (s\<lparr>shared := q, worker := Scanning (Suc i)\<rparr>)"

inductive reachable :: "system \<Rightarrow> bool" where
  initial: "reachable \<lparr>shared = snd (vcm_queue_init created boot), worker = Idle, upload = None\<rparr>"
| later: "reachable s \<Longrightarrow> step s s' \<Longrightarrow> reachable s'"

subsection \<open>The invariant\<close>

definition live :: "sync_queue \<Rightarrow> VcmQueueItem list" where
  "live q = take (nat (i_count (queue q))) (items q)"

definition tally :: "item_state \<Rightarrow> VcmQueueItem list \<Rightarrow> int" where
  "tally st xs = int (length (filter (\<lambda>x. q_state x = st) xs))"

definition item_ready :: "VcmQueueItem \<Rightarrow> bool" where
  "item_ready x \<longleftrightarrow> q_media_ready x \<and> (q_subtitle_size x = 0 \<or> q_subtitle_ready x)"

definition item_ok :: "VcmQueueItem \<Rightarrow> bool" where
  "item_ok x \<longleftrightarrow> item_valid x \<and>
     (q_state x \<in> {VCM_RECEIVED, VCM_IMPORTING, VCM_IMPORTED} \<longrightarrow> item_ready x)"

definition worker_ok :: "worker \<Rightarrow> VcmQueueInfo \<Rightarrow> VcmQueueItem list \<Rightarrow> bool" where
  "worker_ok w q xs \<longleftrightarrow>
     (\<forall>j < length xs. q_state (xs ! j) = VCM_IMPORTING \<longleftrightarrow> w = Importing j) \<and>
     (case w of
        Idle \<Rightarrow> i_importing q = - 1
      | Scanning k \<Rightarrow> i_syncing q \<and> (\<forall>j < length xs. j < k \<longrightarrow> q_state (xs ! j) \<noteq> VCM_RECEIVED)
      | Importing k \<Rightarrow> i_syncing q \<and> i_importing q = int k \<and> k < length xs \<and>
          (\<forall>j < k. q_state (xs ! j) \<noteq> VCM_RECEIVED))"

definition syncing_ok :: "system \<Rightarrow> bool" where
  "syncing_ok s \<longleftrightarrow> (i_syncing (queue (shared s)) \<longrightarrow> upload s = None \<and>
     (\<forall>x \<in> set (live (shared s)). q_state x \<in> {VCM_RECEIVED, VCM_IMPORTING, VCM_IMPORTED, VCM_FAILED}))"

definition upload_ok :: "(nat \<times> bool) option \<Rightarrow> VcmQueueItem list \<Rightarrow> bool" where
  "upload_ok u xs \<longleftrightarrow> (case u of None \<Rightarrow> True | Some (i, sidecar) \<Rightarrow>
     i < length xs \<and> q_state (xs ! i) = VCM_RECEIVING \<and>
     (if sidecar then q_subtitle_size (xs ! i) \<noteq> 0 \<and> \<not> q_subtitle_ready (xs ! i)
      else \<not> q_media_ready (xs ! i)))"

definition counters_ok :: "VcmQueueInfo \<Rightarrow> VcmQueueItem list \<Rightarrow> bool" where
  "counters_ok q xs \<longleftrightarrow> i_imported q = tally VCM_IMPORTED xs \<and> tally VCM_FAILED xs \<le> i_failed q \<and>
     i_transferred q = sum_list (map q_received xs)"

definition shape_ok :: "sync_queue \<Rightarrow> bool" where
  "shape_ok q \<longleftrightarrow> length (items q) = VCM_QUEUE_MAX \<and> 0 \<le> i_count (queue q) \<and>
     i_count (queue q) \<le> int VCM_QUEUE_MAX \<and> 0 \<in> set (i_id (queue q))"

definition system_inv :: "system \<Rightarrow> bool" where
  "system_inv s \<longleftrightarrow> shape_ok (shared s) \<and>
     list_all item_ok (live (shared s)) \<and> distinct (map q_id (live (shared s))) \<and>
     counters_ok (queue (shared s)) (live (shared s)) \<and>
     worker_ok (worker s) (queue (shared s)) (live (shared s)) \<and>
     upload_ok (upload s) (live (shared s)) \<and> syncing_ok s"

lemma length_live: "shape_ok q \<Longrightarrow> int (length (live q)) = i_count (queue q)"
  by (auto simp: live_def shape_ok_def)

lemma live_nth: "shape_ok q \<Longrightarrow> i < length (live q) \<Longrightarrow> items q ! i = live q ! i \<and> i < length (items q)"
  by (auto simp: live_def)

lemma tally_simps [simp]:
  "tally st [] = 0" "tally st (x # xs) = of_bool (q_state x = st) + tally st xs"
  by (simp_all add: tally_def)

lemma tally_update:
  "i < length xs \<Longrightarrow> tally st (xs[i := x]) =
     tally st xs - of_bool (q_state (xs ! i) = st) + of_bool (q_state x = st)"
  by (induction xs arbitrary: i) (auto split: nat.split)

lemma received_update:
  "i < length xs \<Longrightarrow> sum_list (map q_received (xs[i := x])) =
     sum_list (map q_received xs) - q_received (xs ! i) + q_received x"
  by (induction xs arbitrary: i) (auto split: nat.split)

lemma sum_list_0_iff_u64: "(\<And>x. x \<in> set xs \<Longrightarrow> q_received x = 0) \<Longrightarrow> sum_list (map q_received xs) = 0"
  by (induction xs) simp_all

lemma map_update_same: "i < length xs \<Longrightarrow> f x = f (xs ! i) \<Longrightarrow> map f (xs[i := x]) = map f xs"
  by (metis list_update_id map_update)

lemma item_valid_dynamic [simp]:
  "item_valid (x\<lparr>q_received := v\<rparr>) = item_valid x" "item_valid (x\<lparr>q_state := st\<rparr>) = item_valid x"
  "item_valid (x\<lparr>q_error := e\<rparr>) = item_valid x" "item_valid (x\<lparr>q_media_ready := b\<rparr>) = item_valid x"
  "item_valid (x\<lparr>q_subtitle_ready := b\<rparr>) = item_valid x"
  by (simp_all add: item_valid_def texts_valid_def media_valid_def kind_refused_def)

lemma live_update:
  "i_count c = i_count (queue q) \<Longrightarrow>
    live (q\<lparr>items := (items q)[i := x], queue := c\<rparr>) = (live q)[i := x]"
  "i_count c = i_count (queue q) \<Longrightarrow> live (q\<lparr>queue := c\<rparr>) = live q"
  "live (q\<lparr>items := (items q)[i := x]\<rparr>) = (live q)[i := x]"
  by (simp_all add: live_def take_update_swap)

lemma item_ok_update:
  "list_all item_ok xs \<Longrightarrow> item_ok x \<Longrightarrow> list_all item_ok (xs[i := x])"
  using set_update_subset_insert [of xs i x] by (auto simp: list_all_iff)

lemma bump_simps [simp]:
  "i_count (bump q) = i_count q" "i_imported (bump q) = i_imported q" "i_failed (bump q) = i_failed q"
  "i_importing (bump q) = i_importing q" "i_syncing (bump q) = i_syncing q"
  "i_cancelled (bump q) = i_cancelled q" "i_transferred (bump q) = i_transferred q"
  "i_total (bump q) = i_total q" "i_id (bump q) = i_id q"
  by (simp_all add: bump_def)

lemma shape_update:
  "shape_ok q \<Longrightarrow> i_count c = i_count (queue q) \<Longrightarrow> i_id c = i_id (queue q) \<Longrightarrow>
    shape_ok (q\<lparr>items := (items q)[i := x], queue := c\<rparr>)"
  "shape_ok q \<Longrightarrow> i_count c = i_count (queue q) \<Longrightarrow> i_id c = i_id (queue q) \<Longrightarrow>
    shape_ok (q\<lparr>queue := c\<rparr>)"
  by (simp_all add: shape_ok_def)

text \<open>An operation on one live item reads it and writes it back without a fault.\<close>

lemma item_access:
  assumes "shape_ok q" and "i < length (live q)"
  shows "item_at q (int i) = Some (live q ! i)" and "fetch (items q) i = Some (live q ! i)"
    and "set_item q (int i) x = Some (q\<lparr>items := (items q)[i := x]\<rparr>)"
  using live_nth [OF assms] by (simp_all add: item_at_def set_item_def)

lemmas item_update_simps = live_update shape_update item_ok_update tally_update received_update
  map_update_same

text \<open>The effect of the step on the invariant when one live item \<open>x\<close> becomes \<open>x'\<close>.\<close>

lemma inv_update:
  assumes inv: "system_inv s" and i: "i < length (live (shared s))"
    and c: "i_count c = i_count (queue (shared s))" "i_id c = i_id (queue (shared s))"
    and x: "item_ok x" "q_id x = q_id (live (shared s) ! i)"
    and cnt: "counters_ok c ((live (shared s))[i := x])"
    and w: "worker_ok w c ((live (shared s))[i := x])"
    and u: "upload_ok up ((live (shared s))[i := x])"
    and sy: "i_syncing c \<Longrightarrow> up = None \<and> i_syncing (queue (shared s)) \<and>
      q_state x \<in> {VCM_RECEIVED, VCM_IMPORTING, VCM_IMPORTED, VCM_FAILED}"
  shows "system_inv (s\<lparr>shared := (shared s)\<lparr>items := (items (shared s))[i := x], queue := c\<rparr>,
    worker := w, upload := up\<rparr>)"
proof -
  have "syncing_ok (s\<lparr>shared := (shared s)\<lparr>items := (items (shared s))[i := x], queue := c\<rparr>,
    worker := w, upload := up\<rparr>)"
    using inv sy set_update_subset_insert [of "live (shared s)" i x]
    by (auto simp: syncing_ok_def system_inv_def live_update(1) [OF c(1)])
  then show ?thesis
    using inv i c x cnt w u by (simp add: system_inv_def item_update_simps)
qed


lemmas inv_parts = system_inv_def counters_ok_def worker_ok_def upload_ok_def

text \<open>A step that changes the queue record only.\<close>

lemma inv_queue:
  assumes inv: "system_inv s"
    and c: "i_count c = i_count (queue (shared s))" "i_id c = i_id (queue (shared s))"
      "i_imported c = i_imported (queue (shared s))" "i_failed c = i_failed (queue (shared s))"
      "i_transferred c = i_transferred (queue (shared s))"
    and w: "worker_ok w c (live (shared s))"
    and sy: "i_syncing c \<Longrightarrow> upload s = None \<and>
      (\<forall>x \<in> set (live (shared s)). q_state x \<in> {VCM_RECEIVED, VCM_IMPORTING, VCM_IMPORTED, VCM_FAILED})"
  shows "system_inv (s\<lparr>shared := (shared s)\<lparr>queue := c\<rparr>, worker := w\<rparr>)"
  using assms by (auto simp: system_inv_def counters_ok_def syncing_ok_def live_update(2) shape_update(2))

lemma upload_not_syncing: "system_inv s \<Longrightarrow> upload s = Some u \<Longrightarrow> \<not> i_syncing (queue (shared s))"
  by (auto simp: system_inv_def syncing_ok_def)

lemma not_syncing_idle: "worker_ok w q xs \<Longrightarrow> \<not> i_syncing q \<Longrightarrow> w = Idle"
  by (auto simp: worker_ok_def split: worker.splits)

lemma worker_ok_idle_update:
  "worker_ok Idle q xs \<Longrightarrow> q_state x \<noteq> VCM_IMPORTING \<Longrightarrow> i_importing c = i_importing q \<Longrightarrow>
    worker_ok Idle c (xs[i := x])"
  by (cases "i < length xs") (auto simp: worker_ok_def nth_list_update split: if_splits)

lemma progress_total:
  assumes "system_inv s" and "upload s = Some (i, sidecar)"
  shows "\<exists>q. vcm_queue_progress (int i) received sidecar (shared s) = Some q"
  using assms by (auto simp: vcm_queue_progress_def system_inv_def upload_ok_def item_access Let_def)

lemma inv_progress:
  assumes inv: "system_inv s" and u: "upload s = Some (i, sidecar)"
    and q: "vcm_queue_progress (int i) received sidecar (shared s) = Some q"
  shows "system_inv (s\<lparr>shared := q\<rparr>)"
proof -
  let ?x = "live (shared s) ! i"
  have i: "i < length (live (shared s))" and sh: "shape_ok (shared s)"
    and w: "worker_ok (worker s) (queue (shared s)) (live (shared s))"
    using inv u by (simp_all add: system_inv_def upload_ok_def)
  have idle: "worker s = Idle" using not_syncing_idle [OF w upload_not_syncing [OF inv u]] .
  have up: "upload_ok (upload s) (live (shared s))" and x: "item_ok ?x"
    using inv i by (simp_all add: system_inv_def list_all_length)
  define v where "v = received + (if sidecar \<and> q_media_ready ?x then q_size ?x else 0)"
  define c where "c = bump ((queue (shared s))\<lparr>i_transferred := i_transferred (queue (shared s)) - q_received ?x + v\<rparr>)"
  have q': "q = (shared s)\<lparr>items := (items (shared s))[i := ?x\<lparr>q_received := v\<rparr>], queue := c\<rparr>"
    using q by (simp add: vcm_queue_progress_def item_access [OF sh i] Let_def v_def c_def)
  have "system_inv (s\<lparr>shared := q, worker := worker s, upload := upload s\<rparr>)"
    unfolding q'
  proof (rule inv_update [OF inv i])
    show "counters_ok c ((live (shared s))[i := ?x\<lparr>q_received := v\<rparr>])"
      using inv i by (simp add: system_inv_def counters_ok_def c_def tally_update received_update)
    show "worker_ok (worker s) c ((live (shared s))[i := ?x\<lparr>q_received := v\<rparr>])"
      unfolding idle by (rule worker_ok_idle_update) (use w idle up u in \<open>simp_all add: c_def upload_ok_def\<close>)
    show "upload_ok (upload s) ((live (shared s))[i := ?x\<lparr>q_received := v\<rparr>])"
      using up u by (auto simp: upload_ok_def)
  qed (use x upload_not_syncing [OF inv u] in \<open>simp_all add: c_def item_ok_def item_ready_def\<close>)
  then show ?thesis by simp
qed

lemma inv_received:
  assumes inv: "system_inv s" and u: "upload s = Some (i, sidecar)"
    and q: "vcm_queue_received (int i) sidecar error (shared s) = Some q"
  shows "system_inv (s\<lparr>shared := q, upload := None\<rparr>)"
proof -
  let ?x = "live (shared s) ! i"
  have i: "i < length (live (shared s))" and sh: "shape_ok (shared s)"
    and w: "worker_ok (worker s) (queue (shared s)) (live (shared s))"
    using inv u by (simp_all add: system_inv_def upload_ok_def)
  have idle: "worker s = Idle" using not_syncing_idle [OF w upload_not_syncing [OF inv u]] .
  have st: "q_state ?x = VCM_RECEIVING" and x: "item_ok ?x"
    using inv i u by (simp_all add: system_inv_def list_all_length upload_ok_def)
  define y where "y = (if sidecar then ?x\<lparr>q_error := error, q_subtitle_ready := True\<rparr>
    else ?x\<lparr>q_error := error, q_media_ready := True\<rparr>)"
  define x' where "x' = (if error \<noteq> 0 then ?x\<lparr>q_error := error, q_state := VCM_FAILED\<rparr>
    else y\<lparr>q_state := (if item_ready y then VCM_RECEIVED else VCM_RECEIVING)\<rparr>)"
  define c where "c = bump (if error \<noteq> 0 then (queue (shared s))\<lparr>i_failed := i_failed (queue (shared s)) + 1\<rparr>
    else queue (shared s))"
  have q': "q = (shared s)\<lparr>items := (items (shared s))[i := x'], queue := c\<rparr>"
    using q st by (auto simp: vcm_queue_received_def item_access [OF sh i] Let_def x'_def y_def c_def
        item_ready_def split: if_splits)
  have ok: "item_ok x'" using x by (auto simp: item_ok_def x'_def y_def item_ready_def)
  have nst: "q_state x' \<noteq> VCM_IMPORTING" "q_state x' \<noteq> VCM_IMPORTED" "q_id x' = q_id ?x"
    "q_received x' = q_received ?x" "q_state x' = VCM_FAILED \<longleftrightarrow> error \<noteq> 0"
    by (auto simp: x'_def y_def)
  have cs: "i_count c = i_count (queue (shared s))" "i_id c = i_id (queue (shared s))"
    "i_importing c = i_importing (queue (shared s))" "i_syncing c = i_syncing (queue (shared s))"
    by (auto simp: c_def)
  have "system_inv (s\<lparr>shared := q, worker := worker s, upload := None\<rparr>)"
    unfolding q'
  proof (rule inv_update [OF inv i cs(1,2) ok nst(3)])
    show "counters_ok c ((live (shared s))[i := x'])"
      using inv i nst st by (simp add: system_inv_def counters_ok_def tally_update received_update)
        (simp add: c_def)
    show "worker_ok (worker s) c ((live (shared s))[i := x'])"
      unfolding idle by (rule worker_ok_idle_update) (use w idle nst cs in simp_all)
  qed (use upload_not_syncing [OF inv u] cs in \<open>simp_all add: upload_ok_def\<close>)
  then show ?thesis by simp
qed


lemma find_loop_safe:
  assumes "\<And>i. i \<in> set is \<Longrightarrow> i < length xs \<and> holds_id (q_id (xs ! i))"
  shows "\<exists>r. find_loop xs name is = Some r \<and>
    (\<forall>i. r = Some i \<longrightarrow> i \<in> set is \<and> q_id (xs ! i) = take 32 name @ [0] \<and> c_at name 32 = 0x2e)"
  using assms
proof (induction "is")
  case (Cons i "is")
  then obtain d where d: "id_valid d" "q_id (xs ! i) = d @ [0]" "i < length xs"
    by (auto simp: holds_id_def)
  then have "c_string (q_id (xs ! i)) = Some d" "take 32 d = d"
    by (simp_all add: c_string_id id_valid_iff)
  then show ?case using Cons d by (auto simp: id_valid_iff)
qed simp

text \<open>What a successful lookup found, and that a lookup never faults.\<close>

lemma find_spec:
  assumes sh: "shape_ok q" and ok: "list_all item_ok (live q)"
  shows "\<exists>i sidecar q'. vcm_queue_find name size0 q = Some (i, sidecar, q') \<and>
    (if i < 0 then q' = q
     else \<not> i_syncing (queue q) \<and> \<not> i_cancelled (queue q) \<and> nat i < length (live q) \<and>
       q_id (live q ! nat i) = take 32 name @ [0] \<and> sidecar \<noteq> None \<and>
       (if sidecar = Some True then q_subtitle_size (live q ! nat i) = size0 \<and> \<not> q_subtitle_ready (live q ! nat i)
        else q_size (live q ! nat i) = size0 \<and> \<not> q_media_ready (live q ! nat i)) \<and>
       q' = q\<lparr>items := (items q)[nat i := (live q ! nat i)\<lparr>q_state := VCM_RECEIVING\<rparr>],
         queue := bump (queue q)\<rparr>)"
proof (cases "i_cancelled (queue q) \<or> i_syncing (queue q)")
  case True
  then show ?thesis by (simp add: vcm_queue_find_def)
next
  case free: False
  have len: "length (live q) = nat (i_count (queue q))" using length_live [OF sh] by simp
  have pre: "i < length (items q) \<and> holds_id (q_id (items q ! i))"
    if "i \<in> set [0..<nat (i_count (queue q))]" for i
  proof -
    have i: "i < length (live q)" using that len by simp
    then have "item_ok (live q ! i)" using ok by (simp add: list_all_length)
    then show ?thesis using live_nth [OF sh i] by (simp add: item_ok_def item_valid_def)
  qed
  obtain r where r: "find_loop (items q) name [0..<nat (i_count (queue q))] = Some r"
    "\<forall>i. r = Some i \<longrightarrow> i \<in> set [0..<nat (i_count (queue q))] \<and> q_id (items q ! i) = take 32 name @ [0] \<and>
      c_at name 32 = 0x2e"
    using find_loop_safe [of "[0..<nat (i_count (queue q))]" "items q" name, OF pre] by blast
  show ?thesis
  proof (cases r)
    case None
    with free r(1) show ?thesis by (simp add: vcm_queue_find_def)
  next
    case (Some i)
    then have i: "i < length (live q)" "q_id (items q ! i) = take 32 name @ [0]" using r(2) len by simp_all
    let ?x = "live q ! i"
    note acc = item_access [OF sh i(1)] live_nth [OF sh i(1)]
    have "item_ok ?x" using ok i by (simp add: list_all_length)
    then obtain e where e: "c_string (q_extension ?x) = Some e"
      by (auto simp: item_ok_def item_valid_def texts_valid_def elim: holds_textE)
    show ?thesis
      using free r(1) i(2) e acc
      by (auto simp: vcm_queue_find_def Some Let_def i(1))
  qed
qed

lemma inv_find:
  assumes inv: "system_inv s" and u: "upload s = None" and z: "size0 \<noteq> 0"
    and f: "vcm_queue_find name size0 (shared s) = Some (i, sidecar, q)"
  shows "system_inv (s\<lparr>shared := q, upload := (if i < 0 then None else Some (nat i, sidecar = Some True))\<rparr>)"
proof (cases "i < 0")
  case True
  have "q = shared s"
    using find_spec [of "shared s" name size0] inv f True by (auto simp: system_inv_def)
  moreover have "s\<lparr>upload := None\<rparr> = s" using u by (cases s) simp
  ultimately show ?thesis using True inv by simp
next
  case False
  let ?x = "live (shared s) ! nat i" and ?xs = "live (shared s)"
  have g: "\<not> i_syncing (queue (shared s))" "nat i < length ?xs"
    "if sidecar = Some True then q_subtitle_size ?x = size0 \<and> \<not> q_subtitle_ready ?x else \<not> q_media_ready ?x"
    "q = (shared s)\<lparr>items := (items (shared s))[nat i := ?x\<lparr>q_state := VCM_RECEIVING\<rparr>],
      queue := bump (queue (shared s))\<rparr>"
    using find_spec [of "shared s" name size0] inv f False by (auto simp: system_inv_def split: if_splits)
  have w: "worker_ok (worker s) (queue (shared s)) ?xs" and x: "item_ok ?x"
    using inv g(2) by (simp_all add: system_inv_def list_all_length)
  have idle: "worker s = Idle" using not_syncing_idle [OF w g(1)] .
  have nr: "\<not> item_ready ?x" using g(3) z by (auto simp: item_ready_def split: if_splits)
  then have nst: "q_state ?x \<noteq> VCM_IMPORTED" using x by (auto simp: item_ok_def)
  have "system_inv (s\<lparr>shared := q, worker := worker s, upload := Some (nat i, sidecar = Some True)\<rparr>)"
    unfolding g(4)
  proof (rule inv_update [OF inv g(2)])
    show "counters_ok (bump (queue (shared s))) (?xs[nat i := ?x\<lparr>q_state := VCM_RECEIVING\<rparr>])"
      using inv g(2) nst by (auto simp: system_inv_def counters_ok_def tally_update received_update)
    show "worker_ok (worker s) (bump (queue (shared s))) (?xs[nat i := ?x\<lparr>q_state := VCM_RECEIVING\<rparr>])"
      unfolding idle by (rule worker_ok_idle_update) (use w idle in simp_all)
    show "upload_ok (Some (nat i, sidecar = Some True)) (?xs[nat i := ?x\<lparr>q_state := VCM_RECEIVING\<rparr>])"
      using g(2,3) z by (auto simp: upload_ok_def split: if_splits)
  qed (use x g(1) in \<open>simp_all add: item_ok_def\<close>)
  then show ?thesis using False by simp
qed

lemma inv_publish:
  assumes inv: "system_inv s" and u: "upload s = None" and b: "0 \<in> set body"
    and p: "vcm_queue_publish body (shared s) = Some (status, q)"
  shows "system_inv (s\<lparr>shared := q\<rparr>)"
proof -
  have sh: "shape_ok (shared s)" using inv by (simp add: system_inv_def)
  then have len: "length (items (shared s)) = VCM_QUEUE_MAX" by (simp add: shape_ok_def)
  from publish_spec [OF b len] p have cases: "status \<noteq> 0 \<and> q = shared s \<or>
    \<not> queue_busy (shared s) \<and> queue_accepted (shared s) q" by auto
  show ?thesis
  proof (cases "q = shared s")
    case True
    with inv show ?thesis by simp
  next
    case False
    with cases have nb: "\<not> i_syncing (queue (shared s))" and acc: "queue_accepted (shared s) q"
      by (auto simp: queue_busy_def)
    then have idle: "worker s = Idle"
      using inv not_syncing_idle by (auto simp: system_inv_def)
    obtain n i where n: "0 < n" "n \<le> VCM_QUEUE_MAX" "id_valid i" "length (items q) = VCM_QUEUE_MAX"
      "list_all item_valid (take n (items q))" "list_all item_fresh (take n (items q))"
      "distinct (map q_id (take n (items q)))"
      "queue q = \<lparr>i_revision = i_revision (queue (shared s)) + 1, i_count = int n, i_imported = 0, i_failed = 0,
         i_importing = - 1, i_syncing = False, i_cancelled = False, i_transferred = 0,
         i_total = i_total (queue q), i_id = i @ [0]\<rparr>"
      using acc len unfolding queue_accepted_def by auto
    have sel: "i_count (queue q) = int n" "i_imported (queue q) = 0" "i_failed (queue q) = 0"
      "i_importing (queue q) = - 1" "\<not> i_syncing (queue q)" "i_transferred (queue q) = 0"
      "i_id (queue q) = i @ [0]"
      by (subst n(8), simp)+
    have live: "live q = take n (items q)" by (simp add: live_def sel)
    have fresh: "q_state x = VCM_WAITING \<and> q_received x = 0" if "x \<in> set (live q)" for x
      using that n(6) by (auto simp: live list_all_iff item_fresh_def)
    have tl: "tally st (live q) = 0" if "st \<noteq> VCM_WAITING" for st
      using fresh that by (auto simp: tally_def filter_empty_conv)
    have tr: "sum_list (map q_received (live q)) = 0"
      using fresh by (simp add: sum_list_0_iff_u64)
    have "item_ok x" if "x \<in> set (live q)" for x
      using that fresh [OF that] n(5) by (auto simp: live list_all_iff item_ok_def)
    moreover have "worker_ok Idle (queue q) (live q)"
      using fresh sel by (auto simp: worker_ok_def)
    ultimately show ?thesis
      using n(2,4) n(7) [folded live] tl tr idle u
      by (simp add: system_inv_def shape_ok_def sel counters_ok_def upload_ok_def syncing_ok_def
          list_all_iff)
  qed
qed


lemma all_settled_exact:
  "(\<And>i. i \<in> set is \<Longrightarrow> i < length xs) \<Longrightarrow>
    all_settled xs is = Some (\<forall>i \<in> set is. q_state (xs ! i) \<in> {VCM_RECEIVED, VCM_FAILED})"
  by (induction "is") auto

lemma sync_spec:
  assumes sh: "shape_ok q"
  shows "vcm_queue_sync q = Some
    (if live q \<noteq> [] \<and> \<not> i_cancelled (queue q) \<and> \<not> i_syncing (queue q) \<and>
       (\<forall>x \<in> set (live q). q_state x \<in> {VCM_RECEIVED, VCM_FAILED})
     then (0, q\<lparr>queue := bump ((queue q)\<lparr>i_syncing := True\<rparr>)\<rparr>) else (- 1, q))"
proof -
  have len: "length (live q) = nat (i_count (queue q))" using length_live [OF sh] by simp
  have cnt: "i_count (queue q) = 0 \<longleftrightarrow> live q = []"
    using len sh by (auto simp: shape_ok_def)
  have "all_settled (items q) [0..<nat (i_count (queue q))] =
    Some (\<forall>i \<in> set [0..<nat (i_count (queue q))]. q_state (items q ! i) \<in> {VCM_RECEIVED, VCM_FAILED})"
    by (rule all_settled_exact) (use sh in \<open>auto simp: shape_ok_def\<close>)
  also have "(\<forall>i \<in> set [0..<nat (i_count (queue q))]. q_state (items q ! i) \<in> {VCM_RECEIVED, VCM_FAILED}) \<longleftrightarrow>
    (\<forall>x \<in> set (live q). q_state x \<in> {VCM_RECEIVED, VCM_FAILED})"
    using live_nth [OF sh] by (auto simp: all_set_conv_all_nth len)
  finally show ?thesis using cnt by (auto simp: vcm_queue_sync_def)
qed

lemma inv_sync:
  assumes inv: "system_inv s" and u: "upload s = None"
    and q: "vcm_queue_sync (shared s) = Some (status, q)"
  shows "system_inv (s\<lparr>shared := q\<rparr>)"
proof (cases "q = shared s")
  case True
  with inv show ?thesis by simp
next
  case False
  have sh: "shape_ok (shared s)" using inv by (simp add: system_inv_def)
  let ?c = "bump ((queue (shared s))\<lparr>i_syncing := True\<rparr>)"
  have g: "\<not> i_syncing (queue (shared s))" "q = (shared s)\<lparr>queue := ?c\<rparr>"
    "\<forall>x \<in> set (live (shared s)). q_state x \<in> {VCM_RECEIVED, VCM_FAILED}"
    using q False by (auto simp: sync_spec [OF sh] split: if_splits)
  have w: "worker_ok (worker s) (queue (shared s)) (live (shared s))"
    using inv by (simp add: system_inv_def)
  have "system_inv (s\<lparr>shared := (shared s)\<lparr>queue := ?c\<rparr>, worker := worker s\<rparr>)"
    by (rule inv_queue [OF inv])
      (use u g(3) w not_syncing_idle [OF w g(1)] in \<open>auto simp: worker_ok_def\<close>)
  then show ?thesis using g(2) by simp
qed

lemma inv_cancel:
  assumes inv: "system_inv s"
  shows "system_inv (s\<lparr>shared := vcm_queue_cancel (shared s)\<rparr>)"
proof -
  have "system_inv (s\<lparr>shared := (shared s)\<lparr>queue := bump ((queue (shared s))\<lparr>i_cancelled := True\<rparr>)\<rparr>,
    worker := worker s\<rparr>)"
    by (rule inv_queue [OF inv])
      (use inv in \<open>auto simp: system_inv_def worker_ok_def syncing_ok_def split: worker.splits\<close>)
  then show ?thesis by (simp add: vcm_queue_cancel_def)
qed

lemma inv_start:
  assumes inv: "system_inv s" and "worker s = Idle" and "i_syncing (queue (shared s))"
  shows "system_inv (s\<lparr>worker := Scanning 0\<rparr>)"
proof -
  have "system_inv (s\<lparr>shared := (shared s)\<lparr>queue := queue (shared s)\<rparr>, worker := Scanning 0\<rparr>)"
    by (rule inv_queue [OF inv])
      (use assms in \<open>auto simp: system_inv_def worker_ok_def syncing_ok_def\<close>)
  then show ?thesis by simp
qed

lemma scan_spec:
  assumes sh: "shape_ok q"
  shows "import_scan i q = Some
    (if i \<ge> length (live q) \<or> i_cancelled (queue q) then
       Run_Ended (q\<lparr>queue := bump ((queue q)\<lparr>i_syncing := False, i_importing := - 1\<rparr>)\<rparr>)
     else if q_state (live q ! i) \<noteq> VCM_RECEIVED then Item_Skipped
     else Item_Taken ((live q ! i)\<lparr>q_state := VCM_IMPORTING\<rparr>)
       (q\<lparr>items := (items q)[i := (live q ! i)\<lparr>q_state := VCM_IMPORTING\<rparr>],
         queue := bump ((queue q)\<lparr>i_importing := int i\<rparr>)\<rparr>))"
proof -
  have "int i \<ge> i_count (queue q) \<longleftrightarrow> i \<ge> length (live q)" using length_live [OF sh] by linarith
  then show ?thesis
    using item_access [OF sh] by (auto simp: import_scan_def Let_def not_le)
qed

lemma inv_ended:
  assumes inv: "system_inv s" and w: "worker s = Scanning i"
    and r: "import_scan i (shared s) = Some (Run_Ended q)"
  shows "system_inv (s\<lparr>shared := q, worker := Idle\<rparr>)"
proof -
  have sh: "shape_ok (shared s)" using inv by (simp add: system_inv_def)
  have q: "q = (shared s)\<lparr>queue := bump ((queue (shared s))\<lparr>i_syncing := False, i_importing := - 1\<rparr>)\<rparr>"
    using r by (auto simp: scan_spec [OF sh] split: if_splits)
  show ?thesis unfolding q
    by (rule inv_queue [OF inv]) (use inv w in \<open>auto simp: system_inv_def worker_ok_def\<close>)
qed

lemma inv_skipped:
  assumes inv: "system_inv s" and w: "worker s = Scanning i"
    and r: "import_scan i (shared s) = Some Item_Skipped"
  shows "system_inv (s\<lparr>worker := Scanning (Suc i)\<rparr>)"
proof -
  have sh: "shape_ok (shared s)" using inv by (simp add: system_inv_def)
  have st: "i < length (live (shared s))" "q_state (live (shared s) ! i) \<noteq> VCM_RECEIVED"
    using r by (auto simp: scan_spec [OF sh] split: if_splits)
  have "system_inv (s\<lparr>shared := (shared s)\<lparr>queue := queue (shared s)\<rparr>, worker := Scanning (Suc i)\<rparr>)"
    by (rule inv_queue [OF inv])
      (use inv w st in \<open>auto simp: system_inv_def worker_ok_def syncing_ok_def less_Suc_eq\<close>)
  then show ?thesis by simp
qed

lemma inv_taken:
  assumes inv: "system_inv s" and w: "worker s = Scanning i"
    and r: "import_scan i (shared s) = Some (Item_Taken item q)"
  shows "system_inv (s\<lparr>shared := q, worker := Importing i\<rparr>)"
proof -
  have sh: "shape_ok (shared s)" using inv by (simp add: system_inv_def)
  let ?x = "live (shared s) ! i" and ?xs = "live (shared s)"
  let ?c = "bump ((queue (shared s))\<lparr>i_importing := int i\<rparr>)"
  have st: "i < length ?xs" "q_state ?x = VCM_RECEIVED"
    "q = (shared s)\<lparr>items := (items (shared s))[i := ?x\<lparr>q_state := VCM_IMPORTING\<rparr>], queue := ?c\<rparr>"
    using r by (auto simp: scan_spec [OF sh] split: if_splits)
  have x: "item_ok ?x" and wk: "worker_ok (Scanning i) (queue (shared s)) ?xs" and sy: "syncing_ok s"
    using inv st(1) w by (simp_all add: system_inv_def list_all_length)
  have syn: "i_syncing (queue (shared s))" using wk by (simp add: worker_ok_def)
  then have up: "upload s = None" using sy by (simp add: syncing_ok_def)
  have "system_inv (s\<lparr>shared := q, worker := Importing i, upload := upload s\<rparr>)"
    unfolding st(3)
  proof (rule inv_update [OF inv st(1)])
    show "counters_ok ?c (?xs[i := ?x\<lparr>q_state := VCM_IMPORTING\<rparr>])"
      using inv st(1,2) by (simp add: system_inv_def counters_ok_def tally_update received_update)
    show "worker_ok (Importing i) ?c (?xs[i := ?x\<lparr>q_state := VCM_IMPORTING\<rparr>])"
      using wk st(1) by (auto simp: worker_ok_def nth_list_update)
  qed (use x st up syn in \<open>simp_all add: item_ok_def item_ready_def upload_ok_def\<close>)
  then show ?thesis by simp
qed

lemma inv_recorded:
  assumes inv: "system_inv s" and w: "worker s = Importing i"
    and r: "import_done i status (shared s) = Some q"
  shows "system_inv (s\<lparr>shared := q, worker := Scanning (Suc i)\<rparr>)"
proof -
  have sh: "shape_ok (shared s)" using inv by (simp add: system_inv_def)
  let ?x = "live (shared s) ! i" and ?xs = "live (shared s)"
  define x' where "x' = ?x\<lparr>q_error := status, q_state := (if status = 0 then VCM_IMPORTED else VCM_FAILED)\<rparr>"
  define c where "c = bump (if status = 0
    then (queue (shared s))\<lparr>i_imported := i_imported (queue (shared s)) + 1\<rparr>
    else (queue (shared s))\<lparr>i_failed := i_failed (queue (shared s)) + 1\<rparr>)"
  have wk: "worker_ok (Importing i) (queue (shared s)) ?xs" and sy: "syncing_ok s"
    using inv w by (simp_all add: system_inv_def)
  then have i: "i < length ?xs" and syn: "i_syncing (queue (shared s))" and st: "q_state ?x = VCM_IMPORTING"
    by (auto simp: worker_ok_def)
  have up: "upload s = None" using syn sy by (simp add: syncing_ok_def)
  have x: "item_ok ?x" using inv i by (simp add: system_inv_def list_all_length)
  have q: "q = (shared s)\<lparr>items := (items (shared s))[i := x'], queue := c\<rparr>"
    using r by (cases "status = 0") (simp_all add: import_done_def item_access [OF sh i] Let_def x'_def c_def)
  have cs: "i_count c = i_count (queue (shared s))" "i_id c = i_id (queue (shared s))"
    "i_syncing c = i_syncing (queue (shared s))"
    by (simp_all add: c_def)
  have ok: "item_ok x'" using x st by (simp add: item_ok_def x'_def item_ready_def)
  have "system_inv (s\<lparr>shared := q, worker := Scanning (Suc i), upload := upload s\<rparr>)"
    unfolding q
  proof (rule inv_update [OF inv i cs(1,2) ok])
    show "counters_ok c (?xs[i := x'])"
      using inv i st by (simp add: system_inv_def counters_ok_def tally_update received_update x'_def c_def)
    show "worker_ok (Scanning (Suc i)) c (?xs[i := x'])"
      using wk i cs(3) by (auto simp: worker_ok_def nth_list_update x'_def less_Suc_eq)
  qed (use up syn in \<open>simp_all add: x'_def upload_ok_def\<close>)
  then show ?thesis by simp
qed

lemma inv_initial: "system_inv \<lparr>shared = snd (vcm_queue_init created boot), worker = Idle, upload = None\<rparr>"
  by (simp add: system_inv_def shape_ok_def live_def vcm_queue_init_def boot_def clear_queue_def
      counters_ok_def worker_ok_def upload_ok_def syncing_ok_def)

lemmas inv_steps = inv_publish inv_find inv_progress inv_received inv_sync inv_cancel inv_start
  inv_ended inv_skipped inv_taken inv_recorded

lemma step_preserves: "step s s' \<Longrightarrow> system_inv s \<Longrightarrow> system_inv s'"
  by (induction rule: step.induct) (blast intro: inv_steps)+

lemma reachable_inv: "reachable s \<Longrightarrow> system_inv s"
  by (induction rule: reachable.induct) (auto intro: inv_initial step_preserves)

subsection \<open>A complete import\<close>

text \<open>What an uninterrupted run makes of one item.\<close>

definition imported_item :: "(VcmQueueItem \<Rightarrow> int) \<Rightarrow> VcmQueueItem \<Rightarrow> VcmQueueItem" where
  "imported_item imp x =
     (if q_state x = VCM_RECEIVED then
        (let status = imp (x\<lparr>q_state := VCM_IMPORTING\<rparr>)
         in x\<lparr>q_error := status, q_state := (if status = 0 then VCM_IMPORTED else VCM_FAILED)\<rparr>)
      else x)"

definition attempts :: "(VcmQueueItem \<Rightarrow> int) \<Rightarrow> bool \<Rightarrow> VcmQueueItem list \<Rightarrow> int" where
  "attempts imp good xs = int (length (filter (\<lambda>x. q_state x = VCM_RECEIVED \<and>
     (imp (x\<lparr>q_state := VCM_IMPORTING\<rparr>) = 0) = good) xs))"

lemma attempts_simps [simp]:
  "attempts imp good [] = 0"
  "attempts imp good (x # xs) = of_bool (q_state x = VCM_RECEIVED \<and>
     (imp (x\<lparr>q_state := VCM_IMPORTING\<rparr>) = 0) = good) + attempts imp good xs"
  by (simp_all add: attempts_def)

lemma run_loop_ends:
  assumes sh: "shape_ok q" and "\<not> i_cancelled (queue q)" and "i \<le> length (live q)"
    and "length (live q) - i < fuel"
  shows "\<exists>q'. run_imports_loop imp fuel i q = Some q' \<and> shape_ok q' \<and>
    live q' = take i (live q) @ map (imported_item imp) (drop i (live q)) \<and>
    \<not> i_syncing (queue q') \<and> i_importing (queue q') = - 1 \<and> \<not> i_cancelled (queue q') \<and>
    i_imported (queue q') = i_imported (queue q) + attempts imp True (drop i (live q)) \<and>
    i_failed (queue q') = i_failed (queue q) + attempts imp False (drop i (live q)) \<and>
    i_transferred (queue q') = i_transferred (queue q) \<and> i_total (queue q') = i_total (queue q) \<and>
    i_id (queue q') = i_id (queue q)"
  using assms
proof (induction fuel arbitrary: i q)
  case (Suc fuel)
  let ?x = "live q ! i"
  show ?case
  proof (cases "i = length (live q)")
    case True
    then show ?thesis
      using Suc.prems by (simp add: scan_spec live_update shape_update)
  next
    case False
    then have i: "i < length (live q)" using Suc.prems by simp
    have dr: "drop i (live q) = ?x # drop (Suc i) (live q)" using i by (simp add: Cons_nth_drop_Suc)
    have tk: "take (Suc i) (live q) = take i (live q) @ [?x]" using i by (simp add: take_Suc_conv_app_nth)
    show ?thesis
    proof (cases "q_state ?x = VCM_RECEIVED")
      case nr: False
      have "run_imports_loop imp (Suc fuel) i q = run_imports_loop imp fuel (Suc i) q"
        using Suc.prems i nr by (simp add: scan_spec)
      moreover have "imported_item imp ?x = ?x" using nr by (simp add: imported_item_def)
      ultimately show ?thesis
        using Suc.IH [of q "Suc i"] Suc.prems i nr dr tk by simp
    next
      case r: True
      let ?y = "?x\<lparr>q_state := VCM_IMPORTING\<rparr>" and ?z = "imported_item imp ?x"
      define q1 where "q1 = q\<lparr>items := (items q)[i := ?y], queue := bump ((queue q)\<lparr>i_importing := int i\<rparr>)\<rparr>"
      have sh1: "shape_ok q1" using Suc.prems(1) by (simp add: q1_def shape_update)
      have l1: "live q1 = (live q)[i := ?y]" by (simp add: q1_def live_update)
      have i1: "i < length (live q1)" using i by (simp add: l1)
      define c where "c = bump (if imp ?y = 0 then (queue q1)\<lparr>i_imported := i_imported (queue q1) + 1\<rparr>
        else (queue q1)\<lparr>i_failed := i_failed (queue q1) + 1\<rparr>)"
      define q2 where "q2 = q1\<lparr>items := (items q1)[i := ?z], queue := c\<rparr>"
      have z: "?z = ?y\<lparr>q_error := imp ?y, q_state := (if imp ?y = 0 then VCM_IMPORTED else VCM_FAILED)\<rparr>"
        using r by (simp add: imported_item_def Let_def)
      have d: "import_done i (imp ?y) q1 = Some q2"
        using i by (cases "imp ?y = 0")
          (simp_all add: import_done_def item_access [OF sh1 i1] l1 z q2_def c_def Let_def)
      have c: "i_count c = i_count (queue q1)" "i_id c = i_id (queue q1)" by (simp_all add: c_def)
      have sh2: "shape_ok q2" using sh1 c by (simp add: q2_def shape_update)
      have l2: "live q2 = (live q)[i := ?z]" using c by (simp add: q2_def live_update l1)
      have run: "run_imports_loop imp (Suc fuel) i q = run_imports_loop imp fuel (Suc i) q2"
        using Suc.prems i r d by (simp add: scan_spec q1_def [symmetric])
      have nc: "\<not> i_cancelled (queue q2)" using Suc.prems(2) by (simp add: q2_def c_def q1_def)
      have l2d: "drop (Suc i) (live q2) = drop (Suc i) (live q)" by (simp add: l2)
      have l2t: "take (Suc i) (live q2) = take i (live q) @ [?z]"
        using i by (simp add: l2 take_update_Suc)
      have b: "Suc i \<le> length (live q2)" "length (live q2) - Suc i < fuel"
        using Suc.prems(4) i by (simp_all add: l2)
      obtain q' where q': "run_imports_loop imp fuel (Suc i) q2 = Some q'" "shape_ok q'"
        "live q' = take (Suc i) (live q2) @ map (imported_item imp) (drop (Suc i) (live q2))"
        "\<not> i_syncing (queue q')" "i_importing (queue q') = - 1" "\<not> i_cancelled (queue q')"
        "i_imported (queue q') = i_imported (queue q2) + attempts imp True (drop (Suc i) (live q2))"
        "i_failed (queue q') = i_failed (queue q2) + attempts imp False (drop (Suc i) (live q2))"
        "i_transferred (queue q') = i_transferred (queue q2)" "i_total (queue q') = i_total (queue q2)"
        "i_id (queue q') = i_id (queue q2)"
        using Suc.IH [OF sh2 nc b] by blast
      have cnt: "i_imported (queue q2) = i_imported (queue q) + of_bool (imp ?y = 0)"
        "i_failed (queue q2) = i_failed (queue q) + of_bool (imp ?y \<noteq> 0)"
        "i_transferred (queue q2) = i_transferred (queue q)" "i_total (queue q2) = i_total (queue q)"
        "i_id (queue q2) = i_id (queue q)"
        by (simp_all add: q2_def c_def q1_def)
      have "live q' = take i (live q) @ map (imported_item imp) (drop i (live q))"
        unfolding q'(3) l2d l2t dr by simp
      then show ?thesis
        unfolding run dr using q'(1,2,4-) cnt r unfolding l2d by simp
    qed
  qed
qed simp

lemma run_imports_spec:
  assumes "shape_ok q" and "\<not> i_cancelled (queue q)"
  shows "\<exists>q'. vcm_queue_run_imports imp q = Some (0, q') \<and>
    live q' = map (imported_item imp) (live q) \<and>
    \<not> i_syncing (queue q') \<and> i_importing (queue q') = - 1 \<and>
    i_imported (queue q') = i_imported (queue q) + attempts imp True (live q) \<and>
    i_failed (queue q') = i_failed (queue q) + attempts imp False (live q)"
proof -
  have "length (live q) - 0 < Suc (length (items q))" by (simp add: live_def)
  from run_loop_ends [OF assms le0 this, of imp] show ?thesis
    by (auto simp: vcm_queue_run_imports_def simp del: run_imports_loop.simps)
qed

subsection \<open>A sample run\<close>

text \<open>A queue of one photo of five bytes, as the desktop publishes it.\<close>

definition sample_id :: "u8 list" where
  "sample_id = replicate 32 0x30"

definition sample_line :: "u8 list" where
  "sample_line = sample_id @ [0x09, 0x6a, 0x70, 0x67, 0x09, 0x35, 0x09, 0x30, 0x09, 0x30, 0x09, 0x61,
     0x09, 0x09, 0x09, 0x09, 0x09, 0x09, 0x30, 0x09, 0x30, 0x09, 0x30, 0x09, 0x30]"

definition sample_body :: "u8 list" where
  "sample_body = sample_id @ [0x0a] @ sample_line @ [0x0a, 0]"

definition sample_item :: VcmQueueItem where
  "sample_item = clear_item\<lparr>q_id := sample_id @ [0], q_extension := [0x6a, 0x70, 0x67, 0, 0, 0, 0, 0],
     q_name := 0x61 # replicate 255 0, q_size := 5\<rparr>"

definition sample_start :: system where
  "sample_start = \<lparr>shared = snd (vcm_queue_init 1 boot), worker = Idle, upload = None\<rparr>"

definition sample_queue :: sync_queue where
  "sample_queue =
     \<lparr>queue = \<lparr>i_revision = 1, i_count = 1, i_imported = 0, i_failed = 0, i_importing = - 1,
        i_syncing = False, i_cancelled = False, i_transferred = 0, i_total = 5, i_id = sample_id @ [0]\<rparr>,
      items = sample_item # replicate 127 clear_item, mutex = 1\<rparr>"

lemma sample_parse: "parse_line [] (Some sample_line) = Some (Some sample_item)"
  by code_simp

lemma sample_split:
  "c_string sample_body = Some (sample_id @ [0x0a] @ sample_line @ [0x0a])"
  "field (Some (sample_id @ [0x0a] @ sample_line @ [0x0a])) 0x0a = (Some sample_id, Some (sample_line @ [0x0a]))"
  "field (Some (sample_line @ [0x0a])) 0x0a = (Some sample_line, Some [])"
  "id_valid sample_id" "0 \<in> set sample_body"
  by code_simp+

lemma sample_loop: "publish_loop [] 0 (Some (sample_line @ [0x0a])) = Some (Some ([sample_item], 5))"
  by (simp add: publish_loop.simps [of "[]"] sample_split sample_parse or_reject_def
      publish_loop.simps [of "[sample_item]"])
    (simp add: sample_item_def clear_item_def)

lemma sample_publish: "vcm_queue_publish sample_body (shared sample_start) = Some (0, sample_queue)"
proof -
  have "drop 1 (replicate 128 clear_item) = replicate 127 clear_item" by (simp add: drop_replicate)
  moreover have "take 33 (sample_id @ [0]) = sample_id @ [0]" by (simp add: sample_id_def)
  ultimately show ?thesis
    using sample_split sample_loop
    by (simp add: vcm_queue_publish_def sample_start_def vcm_queue_init_def boot_def clear_queue_def
        sample_queue_def Let_def del: take_append)
qed

definition sample_published :: system where
  "sample_published = \<lparr>shared = sample_queue, worker = Idle, upload = None\<rparr>"

lemma sample_reachable: "reachable sample_published"
proof -
  have "step sample_start (sample_start\<lparr>shared := sample_queue\<rparr>)"
    by (rule step.publish [OF _ sample_split(5) sample_publish]) (simp add: sample_start_def)
  moreover have "reachable sample_start" unfolding sample_start_def by (rule reachable.initial)
  moreover have "sample_start\<lparr>shared := sample_queue\<rparr> = sample_published"
    by (simp add: sample_start_def sample_published_def)
  ultimately show ?thesis by (metis reachable.later)
qed

lemma sample_live: "live sample_queue = [sample_item]"
  by (simp add: live_def sample_queue_def)

subsection \<open>Properties\<close>

text \<open>
  C8. Invariant of every interleaving of network service, user interface and import worker: the
  queue holds at most 128 items with valid metadata and distinct identifiers; an item is marked received,
  importing or imported only when its media file and its subtitles, if it has any, have arrived; the
  imported counter is the number of imported items, the transferred counter the sum of the bytes received for
  the items; and the failed counter is at least the number of failed items.
\<close>

theorem queue_invariant:
  assumes "reachable s"
  shows "length (live (shared s)) \<le> VCM_QUEUE_MAX \<and>
    i_count (queue (shared s)) = int (length (live (shared s))) \<and>
    list_all item_valid (live (shared s)) \<and> distinct (map q_id (live (shared s))) \<and>
    (\<forall>x \<in> set (live (shared s)). q_state x \<in> {VCM_RECEIVED, VCM_IMPORTING, VCM_IMPORTED} \<longrightarrow>
      q_media_ready x \<and> (q_subtitle_size x = 0 \<or> q_subtitle_ready x)) \<and>
    i_imported (queue (shared s)) = tally VCM_IMPORTED (live (shared s)) \<and>
    tally VCM_FAILED (live (shared s)) \<le> i_failed (queue (shared s)) \<and>
    i_transferred (queue (shared s)) = sum_list (map q_received (live (shared s)))"
  using reachable_inv [OF assms] length_live [of "shared s"]
  by (auto simp: system_inv_def counters_ok_def list_all_iff item_ok_def item_ready_def shape_ok_def)

theorem queue_invariant_witness:
  "reachable sample_published \<and> list_all item_valid [sample_item] \<and>
   i_imported (queue sample_queue) = tally VCM_IMPORTED [sample_item] \<and>
   i_transferred (queue sample_queue) = q_received sample_item"
  using queue_invariant [OF sample_reachable] sample_reachable
  by (simp add: sample_published_def sample_live)

text \<open>
  C12. No race between transfer and import: whenever the import worker runs, no upload is in progress, the queue is
  marked as syncing and every item is received, importing, imported or failed; at most one item
  is being imported, it is the one the queue announces, and its files are complete.
\<close>

theorem import_exclusive:
  assumes "reachable s" and "worker s \<noteq> Idle"
  shows "upload s = None \<and> i_syncing (queue (shared s)) \<and>
    (\<forall>x \<in> set (live (shared s)). q_state x \<in> {VCM_RECEIVED, VCM_IMPORTING, VCM_IMPORTED, VCM_FAILED}) \<and>
    (\<forall>j < length (live (shared s)). q_state (live (shared s) ! j) = VCM_IMPORTING \<longrightarrow>
      worker s = Importing j \<and> i_importing (queue (shared s)) = int j \<and> item_ready (live (shared s) ! j))"
proof -
  have inv: "system_inv s" using reachable_inv [OF assms(1)] .
  then have w: "worker_ok (worker s) (queue (shared s)) (live (shared s))" and sy: "syncing_ok s"
    and ok: "list_all item_ok (live (shared s))"
    by (simp_all add: system_inv_def)
  have syn: "i_syncing (queue (shared s))" using not_syncing_idle [OF w] assms(2) by blast
  with sy have "upload s = None"
    "\<forall>x \<in> set (live (shared s)). q_state x \<in> {VCM_RECEIVED, VCM_IMPORTING, VCM_IMPORTED, VCM_FAILED}"
    by (simp_all add: syncing_ok_def)
  moreover have "worker s = Importing j \<and> i_importing (queue (shared s)) = int j \<and> item_ready (live (shared s) ! j)"
    if "j < length (live (shared s))" and "q_state (live (shared s) ! j) = VCM_IMPORTING" for j
    using that w ok by (auto simp: worker_ok_def list_all_length item_ok_def)
  ultimately show ?thesis using syn by blast
qed

text \<open>The sample photo received, the queue syncing and the worker started.\<close>

definition sample_received_item :: VcmQueueItem where
  "sample_received_item = sample_item\<lparr>q_state := VCM_RECEIVED, q_media_ready := True\<rparr>"

definition sample_importing :: system where
  "sample_importing = \<lparr>shared = sample_queue\<lparr>queue := (queue sample_queue)\<lparr>i_revision := 4, i_syncing := True\<rparr>,
     items := sample_received_item # replicate 127 clear_item\<rparr>, worker = Scanning 0, upload = None\<rparr>"

definition sample_name :: "u8 list" where
  "sample_name = sample_id @ [0x2e, 0x6a, 0x70, 0x67]"

lemma sample_found:
  "vcm_queue_find sample_name 5 sample_queue =
     Some (0, Some False, sample_queue\<lparr>queue := (queue sample_queue)\<lparr>i_revision := 2\<rparr>,
       items := sample_item\<lparr>q_state := VCM_RECEIVING\<rparr> # replicate 127 clear_item\<rparr>)"
proof -
  have s: "c_string (q_id sample_item) = Some sample_id"
    "c_string (q_extension sample_item) = Some [0x6a, 0x70, 0x67]"
    "take 32 sample_id = take 32 sample_name" "c_at sample_name 32 = 0x2e"
    "drop 33 sample_name = [0x6a, 0x70, 0x67]" "[0x6a, 0x70, 0x67] \<noteq> ascii ''m4t''"
    by code_simp+
  have z: "q_size sample_item = 5" "\<not> q_media_ready sample_item"
    by (simp_all add: sample_item_def clear_item_def)
  show ?thesis
    using s z by (simp add: vcm_queue_find_def sample_queue_def set_item_def Let_def bump_def)
qed

lemma sample_importing_reachable: "reachable sample_importing"
proof -
  let ?q1 = "sample_queue\<lparr>queue := (queue sample_queue)\<lparr>i_revision := 2\<rparr>,
    items := sample_item\<lparr>q_state := VCM_RECEIVING\<rparr> # replicate 127 clear_item\<rparr>"
  let ?q2 = "sample_queue\<lparr>queue := (queue sample_queue)\<lparr>i_revision := 3\<rparr>,
    items := sample_received_item # replicate 127 clear_item\<rparr>"
  let ?q3 = "sample_queue\<lparr>queue := (queue sample_queue)\<lparr>i_revision := 4, i_syncing := True\<rparr>,
    items := sample_received_item # replicate 127 clear_item\<rparr>"
  have e: "q_error sample_item = 0" "q_subtitle_size sample_item = 0" "q_media_ready sample_item = False"
    by (simp_all add: sample_item_def clear_item_def)
  have eq: "sample_item\<lparr>q_error := 0\<rparr> = sample_item" using e(1) by (cases sample_item) simp
  have "step sample_published (sample_published\<lparr>shared := ?q1, upload := (if (0::int) < 0 then None else Some (nat 0, Some False = Some True))\<rparr>)"
    by (rule step.find [of sample_published 5 sample_name])
      (simp_all add: sample_published_def sample_found)
  then have 1: "reachable \<lparr>shared = ?q1, worker = Idle, upload = Some (0, False)\<rparr>"
    using sample_reachable reachable.later by (fastforce simp: sample_published_def)
  have r: "vcm_queue_received 0 False 0 ?q1 = Some ?q2"
    using e eq by (simp add: vcm_queue_received_def item_at_def set_item_def Let_def sample_queue_def bump_def
        sample_received_item_def)
  have "step \<lparr>shared = ?q1, worker = Idle, upload = Some (0, False)\<rparr> (\<lparr>shared = ?q1, worker = Idle, upload = Some (0, False)\<rparr>\<lparr>shared := ?q2, upload := None\<rparr>)"
    by (rule step.received [where i = 0 and sidecar = False and error = 0]) (simp_all add: r)
  then have 2: "reachable \<lparr>shared = ?q2, worker = Idle, upload = None\<rparr>"
    using 1 reachable.later by fastforce
  have y: "vcm_queue_sync ?q2 = Some (0, ?q3)"
    by (simp add: vcm_queue_sync_def sample_queue_def bump_def sample_received_item_def)
  have "step \<lparr>shared = ?q2, worker = Idle, upload = None\<rparr> (\<lparr>shared = ?q2, worker = Idle, upload = None\<rparr>\<lparr>shared := ?q3\<rparr>)"
    by (rule step.sync [where status = 0]) (simp_all add: y)
  then have 3: "reachable \<lparr>shared = ?q3, worker = Idle, upload = None\<rparr>"
    using 2 reachable.later by fastforce
  have "step \<lparr>shared = ?q3, worker = Idle, upload = None\<rparr> (\<lparr>shared = ?q3, worker = Idle, upload = None\<rparr>\<lparr>worker := Scanning 0\<rparr>)"
    by (rule step.start) (simp_all add: sample_queue_def)
  then show ?thesis
    using 3 reachable.later by (fastforce simp: sample_importing_def)
qed

theorem import_exclusive_witness:
  "worker sample_importing \<noteq> Idle \<and> upload sample_importing = None \<and> i_syncing (queue (shared sample_importing))"
  using import_exclusive [OF sample_importing_reachable] by (simp add: sample_importing_def)


text \<open>
  C28. An imported file is final: once an item has been imported, no step of any thread changes it any more, unless the
  service accepts a new queue in place of the old one, which it does only when no import is running.
\<close>

theorem imported_is_final:
  assumes "reachable s" and "step s s'" and "i < length (live (shared s))"
    and "q_state (live (shared s) ! i) = VCM_IMPORTED"
  shows "(i < length (live (shared s')) \<and> live (shared s') ! i = live (shared s) ! i) \<or>
    (\<exists>body. vcm_queue_publish body (shared s) = Some (0, shared s') \<and> worker s = Idle \<and>
      \<not> i_syncing (queue (shared s)))"
proof -
  have inv: "system_inv s" using reachable_inv [OF assms(1)] .
  have sh: "shape_ok (shared s)" and ok: "list_all item_ok (live (shared s))"
    and w: "worker_ok (worker s) (queue (shared s)) (live (shared s))"
    and up: "upload_ok (upload s) (live (shared s))"
    using inv by (simp_all add: system_inv_def)
  have rdy: "item_ready (live (shared s) ! i)"
    using ok assms(3,4) by (simp add: list_all_length item_ok_def)
  have upi: "j \<noteq> i" if "upload s = Some (j, sc)" for j sc
    using up that assms(4) by (auto simp: upload_ok_def)
  have upl: "j < length (live (shared s))" if "upload s = Some (j, sc)" for j sc
    using up that by (auto simp: upload_ok_def)
  show ?thesis
    using assms(2)
  proof cases
    case (publish body status q)
    have len: "length (items (shared s)) = VCM_QUEUE_MAX" using sh by (simp add: shape_ok_def)
    from publish_spec [OF publish(3) len] publish(4)
    have "q = shared s \<or> status = 0 \<and> \<not> queue_busy (shared s)" by auto
    then show ?thesis
      using publish assms(3) not_syncing_idle [OF w] by (auto simp: queue_busy_def)
  next
    case (find size0 name k sidecar q)
    have "q = shared s \<or> (\<exists>y. live q = (live (shared s))[nat k := y] \<and> nat k \<noteq> i)"
      using find_spec [OF sh ok, of name size0] find(3,4) rdy
      by (auto simp: item_ready_def live_update split: if_splits)
    then show ?thesis using find(1) assms(3) by auto
  next
    case (progress j sidecar received q)
    then have "live q = (live (shared s))[j := (live (shared s) ! j)\<lparr>q_received := received +
      (if sidecar \<and> q_media_ready (live (shared s) ! j) then q_size (live (shared s) ! j) else 0)\<rparr>]"
      by (auto simp: vcm_queue_progress_def item_access [OF sh upl] Let_def live_update)
    then show ?thesis using progress(1) upi [OF progress(2)] assms(3) by simp
  next
    case (received j sidecar error q)
    then have "\<exists>y. live q = (live (shared s))[j := y]"
      by (auto simp: vcm_queue_received_def item_access [OF sh upl] Let_def live_update split: if_splits)
    then show ?thesis using received(1) upi [OF received(2)] assms(3) by auto
  next
    case (sync status q)
    then have "live q = live (shared s)" by (auto simp: sync_spec [OF sh] live_update split: if_splits)
    then show ?thesis using sync(1) assms(3) by simp
  next
    case cancel
    then show ?thesis using assms(3) by (simp add: vcm_queue_cancel_def live_update)
  next
    case start
    then show ?thesis using assms(3) by simp
  next
    case (ended j q)
    then have "live q = live (shared s)" by (auto simp: scan_spec [OF sh] live_update split: if_splits)
    then show ?thesis using ended(1) assms(3) by simp
  next
    case (skipped j)
    then show ?thesis using assms(3) by simp
  next
    case (taken j item q)
    then have "\<exists>y. live q = (live (shared s))[j := y] \<and> j \<noteq> i"
      using assms(4) by (auto simp: scan_spec [OF sh] live_update split: if_splits)
    then show ?thesis using taken(1) assms(3) by auto
  next
    case (recorded j status q)
    have j: "j < length (live (shared s))" "j \<noteq> i"
      using w recorded(2) assms(3,4) by (auto simp: worker_ok_def)
    then have "\<exists>y. live q = (live (shared s))[j := y]"
      using recorded(3) by (auto simp: import_done_def item_access [OF sh j(1)] Let_def live_update)
    then show ?thesis using recorded(1) j(2) assms(3) by auto
  qed
qed


definition sample_imported :: system where
  "sample_imported = \<lparr>shared = sample_queue\<lparr>queue := (queue sample_queue)\<lparr>i_revision := 6, i_syncing := True,
       i_importing := 0, i_imported := 1\<rparr>,
     items := sample_received_item\<lparr>q_state := VCM_IMPORTED\<rparr> # replicate 127 clear_item\<rparr>,
     worker = Scanning 1, upload = None\<rparr>"

lemma sample_imported_reachable: "reachable sample_imported"
proof -
  let ?q = "sample_queue\<lparr>queue := (queue sample_queue)\<lparr>i_revision := 5, i_syncing := True, i_importing := 0\<rparr>,
    items := sample_received_item\<lparr>q_state := VCM_IMPORTING\<rparr> # replicate 127 clear_item\<rparr>"
  have r: "q_state sample_received_item = VCM_RECEIVED" by (simp add: sample_received_item_def)
  have sc: "import_scan 0 (shared sample_importing) =
    Some (Item_Taken (sample_received_item\<lparr>q_state := VCM_IMPORTING\<rparr>) ?q)"
    using r by (simp add: import_scan_def sample_importing_def sample_queue_def set_item_def Let_def bump_def)
  have "step sample_importing (sample_importing\<lparr>shared := ?q, worker := Importing 0\<rparr>)"
    by (rule step.taken [OF _ sc]) (simp add: sample_importing_def)
  then have 1: "reachable \<lparr>shared = ?q, worker = Importing 0, upload = None\<rparr>"
    using sample_importing_reachable reachable.later by (fastforce simp: sample_importing_def)
  have e: "sample_received_item\<lparr>q_error := 0\<rparr> = sample_received_item"
    by (simp add: sample_received_item_def sample_item_def clear_item_def)
  have d: "import_done 0 0 ?q = Some (shared sample_imported)"
    using e by (simp add: import_done_def sample_imported_def sample_queue_def set_item_def Let_def bump_def)
  have "step \<lparr>shared = ?q, worker = Importing 0, upload = None\<rparr>
    (\<lparr>shared = ?q, worker = Importing 0, upload = None\<rparr>\<lparr>shared := shared sample_imported, worker := Scanning (Suc 0)\<rparr>)"
    by (rule step.recorded [OF _ _, where status = 0]) (simp_all add: d)
  then show ?thesis using 1 reachable.later by (fastforce simp: sample_imported_def)
qed

theorem imported_is_final_witness:
  "\<exists>s'. step sample_imported s' \<and> live (shared s') ! 0 = live (shared sample_imported) ! 0 \<and>
     q_state (live (shared s') ! 0) = VCM_IMPORTED"
proof -
  let ?s = "sample_imported\<lparr>shared := vcm_queue_cancel (shared sample_imported)\<rparr>"
  have l: "live (shared sample_imported) = [sample_received_item\<lparr>q_state := VCM_IMPORTED\<rparr>]"
    by (simp add: live_def sample_imported_def sample_queue_def)
  have st: "step sample_imported ?s" by (rule step.cancel)
  have "(0 < length (live (shared ?s)) \<and> live (shared ?s) ! 0 = live (shared sample_imported) ! 0) \<or>
    (\<exists>body. vcm_queue_publish body (shared sample_imported) = Some (0, shared ?s) \<and> worker sample_imported = Idle \<and>
      \<not> i_syncing (queue (shared sample_imported)))"
    by (rule imported_is_final [OF sample_imported_reachable st]) (simp_all add: l)
  then show ?thesis using st l by (auto simp: sample_imported_def)
qed

text \<open>
  C29. No operation ever leaves the queue's arrays: in every reachable state each operation that a thread can
  perform next, with any argument a client can send, completes without an access outside the item table, an
  unterminated string or any other fault.
\<close>

theorem queue_never_faults:
  assumes "reachable s"
  shows "(0 \<in> set body \<longrightarrow> vcm_queue_publish body (shared s) \<noteq> None) \<and>
    vcm_queue_item k (shared s) \<noteq> None \<and> vcm_queue_matches name (shared s) \<noteq> None \<and>
    vcm_queue_find name size0 (shared s) \<noteq> None \<and> vcm_queue_sync (shared s) \<noteq> None \<and>
    (\<forall>i sidecar. upload s = Some (i, sidecar) \<longrightarrow>
      vcm_queue_progress (int i) bytes sidecar (shared s) \<noteq> None \<and>
      vcm_queue_received (int i) sidecar error (shared s) \<noteq> None) \<and>
    (\<forall>i. worker s = Scanning i \<longrightarrow> import_scan i (shared s) \<noteq> None) \<and>
    (\<forall>i. worker s = Importing i \<longrightarrow> import_done i status (shared s) \<noteq> None)"
proof -
  have inv: "system_inv s" using reachable_inv [OF assms] .
  then have sh: "shape_ok (shared s)" and ok: "list_all item_ok (live (shared s))"
    and w: "worker_ok (worker s) (queue (shared s)) (live (shared s))"
    and up: "upload_ok (upload s) (live (shared s))" by (simp_all add: system_inv_def)
  have len: "length (items (shared s)) = VCM_QUEUE_MAX" using sh by (simp add: shape_ok_def)
  have u: "i < length (live (shared s))" if "upload s = Some (i, sidecar)" for i sidecar
    using up that by (simp add: upload_ok_def)
  have "vcm_queue_publish body (shared s) \<noteq> None" if "0 \<in> set body"
    using publish_spec [OF that len] by auto
  moreover have "vcm_queue_item k (shared s) \<noteq> None"
    using sh by (auto simp: vcm_queue_item_def item_at_def shape_ok_def)
  moreover have "vcm_queue_matches name (shared s) \<noteq> None"
    using sh by (auto simp: vcm_queue_matches_def shape_ok_def c_string_def)
  moreover have "vcm_queue_find name size0 (shared s) \<noteq> None"
    using find_spec [OF sh ok, of name size0] by auto
  moreover have "vcm_queue_progress (int i) bytes sidecar (shared s) \<noteq> None \<and>
    vcm_queue_received (int i) sidecar error (shared s) \<noteq> None" if "upload s = Some (i, sidecar)" for i sidecar
    using item_access [OF sh u [OF that]] by (simp add: vcm_queue_progress_def vcm_queue_received_def Let_def)
  moreover have "import_done i status (shared s) \<noteq> None" if "worker s = Importing i" for i
    using w that item_access [OF sh, of i] by (auto simp: worker_ok_def import_done_def Let_def)
  ultimately show ?thesis by (simp add: sync_spec [OF sh] scan_spec [OF sh])
qed

theorem queue_never_faults_witness:
  "vcm_queue_publish sample_body (shared sample_imported) \<noteq> None \<and>
   vcm_queue_find sample_name 5 (shared sample_imported) \<noteq> None \<and>
   import_scan 1 (shared sample_imported) \<noteq> None"
  using queue_never_faults [OF sample_imported_reachable, of sample_body 0 sample_name 5 0 0 0] sample_split(5)
  by (simp add: sample_imported_def)

text \<open>
  C30. A complete import run: when the queue is syncing and is not cancelled, \<open>vcm_queue_run_imports\<close>
  terminates; it tries every received item exactly once and in order, marks it imported or failed according to
  the status of its import, leaves the other items alone, advances the counters by the number of
  successes and failures, and ends with no item received or importing and the queue ready for the next one.
\<close>

theorem run_imports_complete:
  assumes "reachable s" and "worker s = Scanning 0" and "\<not> i_cancelled (queue (shared s))"
  shows "\<exists>q. vcm_queue_run_imports imp (shared s) = Some (0, q) \<and>
    live q = map (imported_item imp) (live (shared s)) \<and>
    (\<forall>x \<in> set (live q). q_state x = VCM_IMPORTED \<or> q_state x = VCM_FAILED) \<and>
    \<not> i_syncing (queue q) \<and> i_importing (queue q) = - 1 \<and>
    i_imported (queue q) = i_imported (queue (shared s)) + attempts imp True (live (shared s)) \<and>
    i_failed (queue q) = i_failed (queue (shared s)) + attempts imp False (live (shared s))"
proof -
  have inv: "system_inv s" using reachable_inv [OF assms(1)] .
  then have sh: "shape_ok (shared s)" by (simp add: system_inv_def)
  have "q_state x \<in> {VCM_RECEIVED, VCM_IMPORTED, VCM_FAILED}" if "x \<in> set (live (shared s))" for x
  proof -
    obtain i where i: "i < length (live (shared s))" "x = live (shared s) ! i"
      using \<open>x \<in> set (live (shared s))\<close> by (auto simp: in_set_conv_nth)
    have "q_state x \<noteq> VCM_IMPORTING" using inv assms(2) i by (simp add: system_inv_def worker_ok_def)
    moreover have "q_state x \<in> {VCM_RECEIVED, VCM_IMPORTING, VCM_IMPORTED, VCM_FAILED}"
      using inv \<open>x \<in> set (live (shared s))\<close> by (simp add: system_inv_def worker_ok_def syncing_ok_def assms(2))
    ultimately show ?thesis by auto
  qed
  then have "q_state (imported_item imp x) \<in> {VCM_IMPORTED, VCM_FAILED}" if "x \<in> set (live (shared s))" for x
    using that by (force simp: imported_item_def Let_def)
  with run_imports_spec [OF sh assms(3), of imp] show ?thesis by auto
qed

theorem run_imports_complete_witness:
  "\<exists>q. vcm_queue_run_imports (\<lambda>x. 7) (shared sample_importing) = Some (0, q) \<and>
     live q = [sample_received_item\<lparr>q_error := 7, q_state := VCM_FAILED\<rparr>] \<and> i_failed (queue q) = 1"
proof -
  have l: "live (shared sample_importing) = [sample_received_item]"
    by (simp add: live_def sample_importing_def sample_queue_def)
  have r: "q_state sample_received_item = VCM_RECEIVED" by (simp add: sample_received_item_def)
  show ?thesis
    using run_imports_complete [OF sample_importing_reachable, of "\<lambda>x. 7"] l r
    by (auto simp: sample_importing_def sample_queue_def imported_item_def)
qed

text \<open>
  The failed counter counts attempts, not items: a single photo whose upload fails, is retried and
  fails again leaves a queue of one item with a failed counter of two, so that \<open>imported + failed\<close> exceeds the number of
  items.
\<close>

theorem failed_counts_retries:
  "\<exists>s. reachable s \<and> i_count (queue (shared s)) = 1 \<and> i_failed (queue (shared s)) = 2 \<and>
     tally VCM_FAILED (live (shared s)) = 1"
proof -
  let ?q = "\<lambda>r f x. sample_queue\<lparr>queue := (queue sample_queue)\<lparr>i_revision := r, i_failed := f\<rparr>,
    items := x # replicate 127 clear_item\<rparr>"
  let ?x = "sample_item\<lparr>q_state := VCM_RECEIVING\<rparr>"
  let ?y = "sample_item\<lparr>q_error := - 1, q_state := VCM_FAILED\<rparr>"
  let ?z = "sample_item\<lparr>q_error := - 1, q_state := VCM_RECEIVING\<rparr>"
  have c: "c_string (q_id sample_item) = Some sample_id"
    "c_string (q_extension sample_item) = Some [0x6a, 0x70, 0x67]"
    "take 32 sample_id = take 32 sample_name" "c_at sample_name 32 = 0x2e"
    "drop 33 sample_name = [0x6a, 0x70, 0x67]" "[0x6a, 0x70, 0x67] \<noteq> ascii ''m4t''"
    by code_simp+
  have z: "q_size sample_item = 5" "\<not> q_media_ready sample_item"
    by (simp_all add: sample_item_def clear_item_def)
  have again: "reachable \<lparr>shared = ?q (r + 2) (f + 1) ?y, worker = Idle, upload = None\<rparr>"
    if "reachable \<lparr>shared = ?q r f x, worker = Idle, upload = None\<rparr>" and "x = sample_item \<or> x = ?y" for r f x
  proof -
    let ?s = "\<lparr>shared = ?q r f x, worker = Idle, upload = None\<rparr>"
    let ?w = "if x = sample_item then ?x else ?z"
    have "vcm_queue_find sample_name 5 (?q r f x) = Some (0, Some False, ?q (r + 1) f ?w)"
      using c z that(2) by (auto simp: vcm_queue_find_def sample_queue_def set_item_def Let_def bump_def)
    then have "step ?s (?s\<lparr>shared := ?q (r + 1) f ?w, upload := (if (0 :: int) < 0 then None else Some (nat 0, Some False = Some True))\<rparr>)"
      by (intro step.find [of _ 5 sample_name]) simp_all
    from reachable.later [OF that(1) this] have 1: "reachable \<lparr>shared = ?q (r + 1) f ?w, worker = Idle, upload = Some (0, False)\<rparr>"
      by simp
    have v: "vcm_queue_received 0 False (- 1) (?q (r + 1) f ?w) = Some (?q (r + 2) (f + 1) ?y)"
      by (simp add: vcm_queue_received_def item_at_def set_item_def Let_def sample_queue_def bump_def)
    have "step \<lparr>shared = ?q (r + 1) f ?w, worker = Idle, upload = Some (0, False)\<rparr>
      (\<lparr>shared = ?q (r + 1) f ?w, worker = Idle, upload = Some (0, False)\<rparr>\<lparr>shared := ?q (r + 2) (f + 1) ?y, upload := None\<rparr>)"
      by (rule step.received [where i = 0 and sidecar = False and error = "- 1"]) (simp_all add: v)
    from reachable.later [OF 1 this] show ?thesis by simp
  qed
  have "reachable \<lparr>shared = ?q 1 0 sample_item, worker = Idle, upload = None\<rparr>"
    using sample_reachable by (simp add: sample_published_def sample_queue_def)
  then have "reachable \<lparr>shared = ?q (1 + 2) (0 + 1) ?y, worker = Idle, upload = None\<rparr>"
    by (rule again) simp
  then have "reachable \<lparr>shared = ?q (1 + 2 + 2) (0 + 1 + 1) ?y, worker = Idle, upload = None\<rparr>"
    by (rule again) simp
  then show ?thesis by (intro exI conjI, assumption) (simp_all add: live_def sample_queue_def)
qed


text \<open>
  C18. Publishing validates everything before it changes anything: whatever text a client sends, the call ends without a fault and
  either refuses it, with the queue and its items untouched, or installs a fresh queue of 1 to 128 waiting items
  with distinct identifiers, metadata within the documented bounds and a byte total that is the exact sum of the sizes;
  it does the latter only when the previous queue is finished, cancelled or empty.
\<close>

theorem publish_validated:
  assumes "0 \<in> set body" and "length (items s) = VCM_QUEUE_MAX"
  shows "\<exists>status s'. vcm_queue_publish body s = Some (status, s') \<and> status \<in> {0, - 1, - 2} \<and>
    (status \<noteq> 0 \<longrightarrow> s' = s) \<and> (status = - 2 \<longrightarrow> queue_busy s) \<and>
    (status = 0 \<longrightarrow> \<not> queue_busy s \<and> queue_accepted s s')"
  by (rule publish_spec [OF assms])

theorem publish_validated_witness:
  "vcm_queue_publish sample_body (shared sample_start) = Some (0, sample_queue) \<and> queue_accepted (shared sample_start) sample_queue \<and>
   (\<exists>status. vcm_queue_publish sample_body sample_queue = Some (status, sample_queue) \<and> status \<in> {- 1, - 2})"
proof -
  have "length (items (shared sample_start)) = VCM_QUEUE_MAX" "length (items sample_queue) = VCM_QUEUE_MAX" "queue_busy sample_queue"
    by (simp_all add: sample_start_def vcm_queue_init_def boot_def sample_queue_def queue_busy_def)
  with publish_validated [OF sample_split(5), of "shared sample_start"] publish_validated [OF sample_split(5), of sample_queue]
    sample_publish
  show ?thesis by auto
qed

lemma find_loop_unique:
  assumes "\<And>j. j \<in> set is \<Longrightarrow> j < length xs \<and> holds_id (q_id (xs ! j))"
    and "i \<in> set is" and "q_id (xs ! i) = take 32 name @ [0]" and "c_at name 32 = 0x2e"
    and "\<And>j. j \<in> set is \<Longrightarrow> q_id (xs ! j) = q_id (xs ! i) \<Longrightarrow> j = i"
  shows "find_loop xs name is = Some (Some i)"
  using assms(1,2,5)
proof (induction "is")
  case (Cons j "is")
  obtain d where d: "id_valid d" "q_id (xs ! j) = d @ [0]" "j < length xs"
    using Cons.prems(1) [of j] by (auto simp: holds_id_def)
  have cs: "c_string (q_id (xs ! j)) = Some d" "take 32 d = d"
    using d by (simp_all add: c_string_id id_valid_iff)
  show ?case
  proof (cases "j = i")
    case True
    then have "d = take 32 name" using d(2) assms(3) by simp
    then show ?thesis using cs d(3) assms(4) True by simp
  next
    case False
    then have "d \<noteq> take 32 name" using Cons.prems(3) [of j] d(2) assms(3) by auto
    then have "find_loop xs name (j # is) = find_loop xs name is" using cs d(3) by simp
    also have "\<dots> = Some (Some i)"
      by (rule Cons.IH) (use Cons.prems False in auto)
    finally show ?thesis .
  qed
qed simp

lemma extension_not_sidecar:
  assumes "media_valid x" and "c_string (q_extension x) = Some e"
  shows "e \<noteq> ascii ''m4t''"
proof
  assume e: "e = ascii ''m4t''"
  have "\<not> photo_extension (ascii ''m4t'')" "\<not> music_extension (ascii ''m4t'')"
    "ascii ''m4t'' \<noteq> ascii ''mp4''"
    by code_simp+
  with assms e show False by (auto simp: media_valid_def kind_refused_def simp del: ascii_simps)
qed

text \<open>
  C31. Uploads over USB reach the item they name: the file name that \<open>vcm_queue_usb_target\<close> builds from an item's
  index fits the caller's 64-byte buffer, and looking that name up with the announced size finds exactly this item, with
  the same sidecar flag, as long as that file is still missing.
\<close>

theorem usb_target_found:
  assumes r: "reachable s" and i: "i < length (live (shared s))" and idle: "\<not> i_syncing (queue (shared s))"
    and nc: "\<not> i_cancelled (queue (shared s))" and buf: "length buf = 64"
    and miss: "if sidecar then q_subtitle_size (live (shared s) ! i) \<noteq> 0 \<and> \<not> q_subtitle_ready (live (shared s) ! i)
      else \<not> q_media_ready (live (shared s) ! i)"
  shows "\<exists>buf' name size' q.
    vcm_queue_usb_target (int i) (of_bool sidecar) (Some buf) 64 (Some z) (shared s) = Some (0, Some buf', Some size') \<and>
    c_string buf' = Some name \<and> vcm_queue_find name size' (shared s) = Some (int i, Some sidecar, q)"
proof -
  let ?x = "live (shared s) ! i" and ?n = "nat (i_count (queue (shared s)))"
  have inv: "system_inv s" using reachable_inv [OF r] .
  have sh: "shape_ok (shared s)" and ok: "list_all item_ok (live (shared s))"
    and dist: "distinct (map q_id (live (shared s)))"
    using inv by (simp_all add: system_inv_def)
  have valid: "item_valid (live (shared s) ! j)" if "j < length (live (shared s))" for j
    using ok that by (simp add: list_all_length item_ok_def)
  have len: "length (live (shared s)) = ?n" using length_live [OF sh] by simp
  obtain d where d: "id_valid d" "q_id ?x = d @ [0]" using valid [OF i] by (auto simp: item_valid_def holds_id_def)
  obtain e where e: "c_string (q_extension ?x) = Some e" "length e < 8"
    using valid [OF i] by (auto simp: item_valid_def texts_valid_def elim: holds_textE)
  have ne: "e \<noteq> ascii ''m4t''" using extension_not_sidecar [OF _ e(1)] valid [OF i] by (simp add: item_valid_def)
  define f where "f = (if sidecar then ascii ''m4t'' else e)"
  define sz where "sz = (if sidecar then q_subtitle_size ?x else q_size ?x)"
  have sz: "sz \<noteq> 0" using miss valid [OF i] by (auto simp: sz_def item_valid_def media_valid_def split: if_splits)
  have d32: "length d = 32" using d(1) by (simp add: id_valid_iff)
  have nz: "0 \<notin> set (d @ [0x2e] @ f)"
    using id_valid_nonzero [OF d(1)] c_string_nonzero [OF e(1)] by (simp add: f_def)
  have lf: "length (d @ [0x2e] @ f) < 64" using d32 e(2) by (simp add: f_def)
  obtain out where out: "snprintf buf 64 (d @ [0x2e] @ f) = Some (int (length (d @ [0x2e] @ f)), out)"
    "c_string out = Some (d @ [0x2e] @ f)"
    using snprintf_fits [OF lf _ nz, of buf] buf by auto
  have t: "vcm_queue_usb_target (int i) (of_bool sidecar) (Some buf) 64 (Some z) (shared s) = Some (0, Some out, Some sz)"
    using idle nc i length_live [OF sh] item_access [OF sh i] d e out(1) sz lf
    by (auto simp: vcm_queue_usb_target_def c_string_id f_def sz_def Let_def)
  have l: "find_loop (items (shared s)) (d @ [0x2e] @ f) [0..<?n] = Some (Some i)"
  proof (rule find_loop_unique)
    fix j assume "j \<in> set [0..<?n]"
    then have j: "j < length (live (shared s))" using len by simp
    show "j < length (items (shared s)) \<and> holds_id (q_id (items (shared s) ! j))"
      using live_nth [OF sh j] valid [OF j] by (simp add: item_valid_def)
    show "j = i" if "q_id (items (shared s) ! j) = q_id (items (shared s) ! i)"
      using that live_nth [OF sh j] live_nth [OF sh i] dist i j by (auto simp: distinct_conv_nth)
  qed (use i len live_nth [OF sh i] d d32 in \<open>simp_all add: c_at_def nth_append\<close>)
  have "\<exists>q. vcm_queue_find (d @ [0x2e] @ f) sz (shared s) = Some (int i, Some sidecar, q)"
    using idle nc l item_access [OF sh i] e ne miss d32
    by (auto simp: vcm_queue_find_def Let_def f_def sz_def split: if_splits)
  with t out(2) show ?thesis by blast
qed

theorem usb_target_found_witness:
  "\<exists>buf' name size' q.
    vcm_queue_usb_target (int 0) (of_bool False) (Some (replicate 64 0)) 64 (Some 0) sample_queue =
      Some (0, Some buf', Some size') \<and>
    c_string buf' = Some name \<and> vcm_queue_find name size' sample_queue = Some (int 0, Some False, q)"
proof -
  have "\<exists>buf' name size' q.
    vcm_queue_usb_target (int 0) (of_bool False) (Some (replicate 64 0)) 64 (Some 0) (shared sample_published) =
      Some (0, Some buf', Some size') \<and>
    c_string buf' = Some name \<and> vcm_queue_find name size' (shared sample_published) = Some (int 0, Some False, q)"
    by (rule usb_target_found [OF sample_reachable])
      (simp_all add: sample_published_def sample_live, simp_all add: sample_queue_def sample_item_def clear_item_def)
  then show ?thesis by (simp add: sample_published_def)
qed

end
