(* ===== verification/Mtp_Thumb.thy ===== *)
theory Mtp_Thumb
  imports Vcm_Prelude
begin

text \<open>
  The thumbnail decoder of \<^verbatim>\<open>src/vita/mtp_thumb.c\<close>: a DXT1-compressed DDS icon of the photo library becomes
  an uncompressed 24-bit BMP image. The theorem says what every byte of the result is.
\<close>

subsection \<open>Operations\<close>

text \<open>A counting loop whose body may fault.\<close>

fun for_each :: "('i \<Rightarrow> 's \<Rightarrow> 's option) \<Rightarrow> 'i list \<Rightarrow> 's \<Rightarrow> 's option" where
  "for_each body [] s = Some s"
| "for_each body (i # is) s = do { s \<leftarrow> body i s; for_each body is s }"

definition read16 :: "u8 list \<Rightarrow> nat \<Rightarrow> u16 option" where
  "read16 p i = do { a \<leftarrow> fetch p i; b \<leftarrow> fetch p (i + 1); Some (of_le16 a b) }"

definition read32 :: "u8 list \<Rightarrow> nat \<Rightarrow> u32 option" where
  "read32 p i = do {
     a \<leftarrow> fetch p i; b \<leftarrow> fetch p (i + 1); c \<leftarrow> fetch p (i + 2); d \<leftarrow> fetch p (i + 3);
     Some (of_le32 a b c d)
   }"

definition put16 :: "nat \<Rightarrow> u16 \<Rightarrow> u8 list \<Rightarrow> u8 list option" where
  "put16 i v p = do { p \<leftarrow> store p i (ucast v); store p (i + 1) (ucast (drop_bit 8 v)) }"

definition put32 :: "nat \<Rightarrow> u32 \<Rightarrow> u8 list \<Rightarrow> u8 list option" where
  "put32 i v p = do { p \<leftarrow> put16 i (ucast v) p; put16 (i + 2) (ucast (drop_bit 16 v)) p }"

definition unpack565 :: "u16 \<Rightarrow> u8 list" where
  "unpack565 color =
     (let r = (ucast (drop_bit 11 color) :: u32) AND 31;
          g = (ucast (drop_bit 5 color) :: u32) AND 63;
          b = (ucast color :: u32) AND 31
      in [ucast (push_bit 3 r OR drop_bit 2 r), ucast (push_bit 2 g OR drop_bit 4 g),
          ucast (push_bit 3 b OR drop_bit 2 b)])"

text \<open>The four colours of a block; the channels are computed in the wider \<open>int\<close> type of C.\<close>

definition block_colors :: "u16 \<Rightarrow> u16 \<Rightarrow> u8 list list" where
  "block_colors c0 c1 =
     (let a = unpack565 c0; b = unpack565 c1
      in [a, b,
          map2 (\<lambda>p q. if c0 > c1 then of_nat ((2 * unat p + unat q) div 3) else of_nat ((unat p + unat q) div 2)) a b,
          map2 (\<lambda>p q. if c0 > c1 then of_nat ((unat p + 2 * unat q) div 3) else 0) a b])"

definition write_pixel ::
    "u8 list list \<Rightarrow> u32 \<Rightarrow> nat \<Rightarrow> nat \<Rightarrow> nat \<Rightarrow> nat \<Rightarrow> nat \<Rightarrow> nat \<Rightarrow> u8 list \<Rightarrow> u8 list option" where
  "write_pixel colors selectors height stride by bx y x bmp = do {
     let selector = unat (drop_bit (2 * (y * 4 + x)) selectors AND 3);
     let py = by * 4 + y;
     let px = bx * 4 + x;
     let out = 54 + (height - 1 - py) * stride + px * 3;
     color \<leftarrow> fetch colors selector;
     c2 \<leftarrow> fetch color 2;
     bmp \<leftarrow> store bmp out c2;
     c1 \<leftarrow> fetch color 1;
     bmp \<leftarrow> store bmp (out + 1) c1;
     c0 \<leftarrow> fetch color 0;
     store bmp (out + 2) c0
   }"

definition write_block :: "u8 list \<Rightarrow> nat \<Rightarrow> nat \<Rightarrow> nat \<Rightarrow> nat \<Rightarrow> nat \<Rightarrow> u8 list \<Rightarrow> u8 list option" where
  "write_block dds width height stride by bx bmp = do {
     let block = 128 + (by * (width div 4) + bx) * 8;
     c0 \<leftarrow> read16 dds block;
     c1 \<leftarrow> read16 dds (block + 2);
     selectors \<leftarrow> read32 dds (block + 4);
     let colors = block_colors c0 c1;
     for_each (\<lambda>y. for_each (write_pixel colors selectors height stride by bx y) [0..<4]) [0..<4] bmp
   }"

definition bmp_header :: "u32 \<Rightarrow> u32 \<Rightarrow> u32 \<Rightarrow> u32 \<Rightarrow> u8 list \<Rightarrow> u8 list option" where
  "bmp_header size0 width height stride bmp = do {
     bmp \<leftarrow> for_each (\<lambda>i b. store b i 0) [0..<unat size0] bmp;
     bmp \<leftarrow> store bmp 0 0x42;
     bmp \<leftarrow> store bmp 1 0x4d;
     bmp \<leftarrow> put32 2 size0 bmp;
     bmp \<leftarrow> put32 10 54 bmp;
     bmp \<leftarrow> put32 14 40 bmp;
     bmp \<leftarrow> put32 18 width bmp;
     bmp \<leftarrow> put32 22 height bmp;
     bmp \<leftarrow> put16 26 1 bmp;
     bmp \<leftarrow> put16 28 24 bmp;
     put32 34 (stride * height) bmp
   }"

definition dds_header :: "u8 list \<Rightarrow> u32 \<Rightarrow> (u32 \<times> u32) option option" where
  "dds_header dds dds_size =
     (if dds_size < 128 then Some None
      else do {
        magic \<leftarrow> read32 dds 0;
        if magic \<noteq> 0x20534444 then Some None
        else do {
          n \<leftarrow> read32 dds 4;
          if n \<noteq> 124 then Some None
          else do {
            f \<leftarrow> read32 dds 76;
            if f \<noteq> 32 then Some None
            else do {
              codec \<leftarrow> read32 dds 84;
              if codec \<noteq> 0x31545844 then Some None
              else do {
                width \<leftarrow> read32 dds 16;
                height \<leftarrow> read32 dds 12;
                if width = 0 \<or> height = 0 \<or> width > 256 \<or> height > 256 \<or> width AND 3 \<noteq> 0 \<or>
                   height AND 3 \<noteq> 0 \<or> dds_size \<noteq> 128 + width * height div 2 then Some None
                else Some (Some (width, height))
              }
            }
          }
        }
      })"

text \<open>
  The arrays are null when \<^term>\<open>None\<close>; the result is the return value and the output array. The image is at
  most 256 pixels wide and high when the loops run, so that their index arithmetic, written over
  \<^typ>\<open>nat\<close> here, stays far below the 32-bit range of the C variables.
\<close>

definition vcm_mtp_dxt1_dds_to_bmp ::
    "u8 list option \<Rightarrow> u32 \<Rightarrow> u8 list option \<Rightarrow> u32 \<Rightarrow> (int \<times> u8 list option) option" where
  "vcm_mtp_dxt1_dds_to_bmp dds dds_size bmp bmp_capacity =
     (case (dds, bmp) of
        (Some d, Some b) \<Rightarrow> do {
          header \<leftarrow> dds_header d dds_size;
          (case header of
             None \<Rightarrow> Some (- 1, bmp)
           | Some (width, height) \<Rightarrow> do {
               let stride = (width * 3 + 3) AND NOT 3;
               let size0 = 54 + stride * height;
               if bmp_capacity < size0 then Some (- 1, bmp)
               else do {
                 b \<leftarrow> bmp_header size0 width height stride b;
                 b \<leftarrow> for_each (\<lambda>by. for_each (write_block d (unat width) (unat height) (unat stride) by)
                   [0..<unat width div 4]) [0..<unat height div 4] b;
                 Some (sint size0, Some b)
               }
             })
        }
      | _ \<Rightarrow> Some (- 1, bmp))"

subsection \<open>Reference\<close>

text \<open>
  The colour of a pixel by the arithmetic of the format, independent of the code: a block has two base colours of 5, 6 and 5 bits, each widened to
  eight bits by repeating its high bits, and two more colours between them; two bits per pixel select one.
\<close>

definition rgb565 :: "nat \<Rightarrow> nat list" where
  "rgb565 n = (let r = n div 2048; g = n div 32 mod 64; b = n mod 32 in [8 * r + r div 4, 4 * g + g div 16, 8 * b + b div 4])"

definition palette :: "nat \<Rightarrow> nat \<Rightarrow> nat \<Rightarrow> nat list" where
  "palette n0 n1 k =
     map2 (\<lambda>p q. [p, q, if n0 > n1 then (2 * p + q) div 3 else (p + q) div 2, if n0 > n1 then (p + 2 * q) div 3 else 0] ! k)
       (rgb565 n0) (rgb565 n1)"

definition dxt1_pixel :: "u8 list \<Rightarrow> nat \<Rightarrow> nat \<Rightarrow> nat \<Rightarrow> u8 list" where
  "dxt1_pixel dds width x y =
     (let block = 128 + (y div 4 * (width div 4) + x div 4) * 8;
          data = (\<lambda>i. unat (dds ! (block + i)));
          selectors = data 4 + 256 * data 5 + 65536 * data 6 + 16777216 * data 7
      in map of_nat (palette (data 0 + 256 * data 1) (data 2 + 256 * data 3) (selectors div 4 ^ (y mod 4 * 4 + x mod 4) mod 4)))"

definition bmp_pixel :: "u8 list \<Rightarrow> nat \<Rightarrow> nat \<Rightarrow> nat \<Rightarrow> nat \<Rightarrow> u8 list" where
  "bmp_pixel bmp height stride x y =
     (let out = 54 + (height - 1 - y) * stride + x * 3 in [bmp ! (out + 2), bmp ! (out + 1), bmp ! out])"

definition bmp_head :: "u32 \<Rightarrow> u32 \<Rightarrow> u32 \<Rightarrow> u8 list" where
  "bmp_head size0 width height =
     [0x42, 0x4d] @ le32 size0 @ replicate 4 0 @ le32 54 @ le32 40 @ le32 width @ le32 height @ le16 1 @ le16 24 @
     replicate 4 0 @ le32 (size0 - 54) @ replicate 16 0"


subsection \<open>The colours of a block\<close>

lemma widen5: "n < 32 \<Longrightarrow> unat (ucast (push_bit 3 (of_nat n :: u32) OR drop_bit 2 (of_nat n)) :: u8) = 8 * n + n div 4"
proof -
  have "\<forall>n \<in> {..<32}. unat (ucast (push_bit 3 (of_nat n :: u32) OR drop_bit 2 (of_nat n)) :: u8) = 8 * n + n div 4"
    by code_simp
  then show "n < 32 \<Longrightarrow> ?thesis" by blast
qed
lemma widen6: "n < 64 \<Longrightarrow> unat (ucast (push_bit 2 (of_nat n :: u32) OR drop_bit 4 (of_nat n)) :: u8) = 4 * n + n div 16"
proof -
  have "\<forall>n \<in> {..<64}. unat (ucast (push_bit 2 (of_nat n :: u32) OR drop_bit 4 (of_nat n)) :: u8) = 4 * n + n div 16"
    by code_simp
  then show "n < 64 \<Longrightarrow> ?thesis" by blast
qed

lemma unat_bound: "unat (x :: 'a :: len word) < 2 ^ LENGTH('a)"
  by (rule unsigned_less)

lemma unat_exact: "n < 2 ^ LENGTH('a) \<Longrightarrow> unat (of_nat n :: 'a :: len word) = n"
  by (simp add: unsigned_of_nat take_bit_nat_eq_self)

lemma low_bits:
  "unat (x AND 3 :: u32) = unat x mod 4" "unat (x AND 31 :: u32) = unat x mod 32" "unat (x AND 63 :: u32) = unat x mod 64"
proof -
  have e: "x AND 3 = take_bit 2 x" "x AND 31 = take_bit 5 x" "x AND 63 = take_bit 6 x"
    by (simp_all add: take_bit_eq_mask mask_eq_exp_minus_1)
  show "unat (x AND 3) = unat x mod 4" "unat (x AND 31) = unat x mod 32" "unat (x AND 63) = unat x mod 64"
    unfolding e unsigned_take_bit_eq by (simp_all add: take_bit_eq_mod)
qed

lemma unat_of_le16: "unat (of_le16 a b) = unat a + 256 * unat b"
proof -
  have "ucast a AND push_bit 8 (ucast b :: u16) = 0"
    by (rule bit_word_eqI) (auto simp: bit_simps dest: bit_imp_le_length)
  then have "of_le16 a b = of_nat (unat a + 256 * unat b)"
    by (simp add: of_le16_def disjunctive_add_eq_or [symmetric] push_bit_eq_mult)
  moreover have "unat a + 256 * unat b < 2 ^ LENGTH(16)" using unat_bound [of a] unat_bound [of b] by simp
  ultimately show ?thesis using unat_exact by metis
qed

lemma unat_of_le32: "unat (of_le32 a b c d) = unat a + 256 * unat b + 65536 * unat c + 16777216 * unat d"
proof -
  let ?a = "ucast a :: u32" and ?b = "push_bit 8 (ucast b) :: u32" and ?c = "push_bit 16 (ucast c) :: u32" and ?d = "push_bit 24 (ucast d) :: u32"
  have z: "?c AND ?d = 0" "?b AND (?c OR ?d) = 0" "?a AND (?b OR (?c OR ?d)) = 0"
    by (rule bit_word_eqI, auto simp: bit_simps dest: bit_imp_le_length)+
  have "of_le32 a b c d = ?a + (?b + (?c + ?d))"
    unfolding of_le32_def or.assoc disjunctive_add_eq_or [OF z(1)] disjunctive_add_eq_or [OF z(2)] disjunctive_add_eq_or [OF z(3)] ..
  then have "of_le32 a b c d = of_nat (unat a + 256 * unat b + 65536 * unat c + 16777216 * unat d)"
    by (simp add: push_bit_eq_mult)
  moreover have "unat a + 256 * unat b + 65536 * unat c + 16777216 * unat d < 2 ^ LENGTH(32)"
    using unat_bound [of a] unat_bound [of b] unat_bound [of c] unat_bound [of d] by simp
  ultimately show ?thesis using unat_exact by metis
qed

lemma unpack565_rgb: "map unat (unpack565 c) = rgb565 (unat c)"
proof -
  have c: "unat c < 65536" using unat_bound [of c] by simp
  have small: "unat (ucast (x :: u16) :: u32) = unat x" for x
    using unat_bound [of x] by (simp add: unsigned_ucast_eq take_bit_nat_eq_self)
  have v: "unat ((ucast (drop_bit 11 c) :: u32) AND 31) = unat c div 2048"
    "unat ((ucast (drop_bit 5 c) :: u32) AND 63) = unat c div 32 mod 64" "unat ((ucast c :: u32) AND 31) = unat c mod 32"
    unfolding low_bits small unsigned_drop_bit_eq unfolding drop_bit_eq_div using c by (simp_all add: take_bit_nat_eq_self)
  note w = v [THEN word_value]
  have "unat c div 2048 < 32" "unat c div 32 mod 64 < 64" "unat c mod 32 < 32" using c by auto
  then show ?thesis unfolding unpack565_def rgb565_def Let_def w by (simp add: widen5 widen6)
qed

lemma block_colors_palette: "k < 4 \<Longrightarrow> block_colors c0 c1 ! k = map of_nat (palette (unat c0) (unat c1) k)"
proof -
  assume k: "k < 4"
  obtain r g b r' g' b' where u: "unpack565 c0 = [r, g, b]" "unpack565 c1 = [r', g', b']"
    by (simp add: unpack565_def Let_def)
  have "k = 0 \<or> k = 1 \<or> k = 2 \<or> k = 3" using k by arith
  then show ?thesis
    unfolding block_colors_def palette_def Let_def unpack565_rgb [symmetric] u word_less_nat_alt
    by (elim disjE) simp_all
qed

lemma selector_value: "unat (drop_bit (2 * n) s AND 3 :: u32) = unat s div 4 ^ n mod 4"
  unfolding low_bits unsigned_drop_bit_eq unfolding drop_bit_eq_div using unat_bound [of s] by (simp add: power_mult take_bit_nat_eq_self)

lemma dxt1_pixel_code:
  "dxt1_pixel dds width x y =
     (let block = 128 + (y div 4 * (width div 4) + x div 4) * 8;
          colors = block_colors (of_le16 (dds ! block) (dds ! (block + 1))) (of_le16 (dds ! (block + 2)) (dds ! (block + 3)));
          selectors = of_le32 (dds ! (block + 4)) (dds ! (block + 5)) (dds ! (block + 6)) (dds ! (block + 7))
      in colors ! unat (drop_bit (2 * (y mod 4 * 4 + x mod 4)) selectors AND 3))"
  unfolding dxt1_pixel_def Let_def selector_value unat_of_le16 unat_of_le32 by (simp add: block_colors_palette unat_of_le16)

subsection \<open>Loops and single pixels\<close>

lemma for_each_union:
  assumes "\<And>i S s. i \<in> set is \<Longrightarrow> good S s \<Longrightarrow> \<exists>s'. body i s = Some s' \<and> good (S \<union> A i) s'"
    and "good S s"
  shows "\<exists>s'. for_each body is s = Some s' \<and> good (S \<union> (\<Union>i \<in> set is. A i)) s'"
  using assms
proof (induction "is" arbitrary: S s)
  case (Cons i "is")
  obtain t where t: "body i s = Some t" "good (S \<union> A i) t" using Cons.prems by force
  have "\<exists>s'. for_each body is t = Some s' \<and> good (S \<union> A i \<union> (\<Union>i \<in> set is. A i)) s'"
    by (rule Cons.IH) (use Cons.prems(1) t(2) in auto)
  with t(1) show ?case by (simp add: Un_assoc)
qed auto

lemma unpack565_length [simp]: "length (unpack565 c) = 3"
  by (simp add: unpack565_def Let_def)

lemma block_colors_shape:
  "length (block_colors c0 c1) = 4" "c \<in> set (block_colors c0 c1) \<Longrightarrow> length c = 3"
  by (auto simp: block_colors_def Let_def)

lemma selector_bound: "unat (v AND 3 :: u32) < 4"
  using unat_and_le [of v 3] by simp

lemma three_list: "length c = 3 \<Longrightarrow> [c ! 0, c ! 1, c ! 2] = c"
  by (rule nth_equalityI) (auto simp: numeral_eq_Suc less_Suc_eq)

text \<open>Rows do not overlap, and the pixels of a row do not either.\<close>

lemma pixel_inside:
  fixes x y w h stride :: nat
  assumes "x < w" and "y < h" and "w * 3 \<le> stride"
  shows "54 + (h - 1 - y) * stride + x * 3 + 2 < 54 + stride * h"
proof -
  have "Suc (h - 1 - y) * stride \<le> h * stride" using assms(2) by (intro mult_le_mono1) simp
  moreover have "x * 3 + 2 < stride" using assms(1,3) by simp
  ultimately show ?thesis by (simp add: mult.commute)
qed

lemma pixel_apart:
  fixes x y w h stride :: nat
  assumes "x < w" "y < h" "x' < w" "y' < h" "w * 3 \<le> stride" "(x, y) \<noteq> (x', y')" "k < 3" "k' < 3"
  shows "(h - 1 - y) * stride + x * 3 + k \<noteq> (h - 1 - y') * stride + x' * 3 + k'"
proof
  assume eq: "(h - 1 - y) * stride + x * 3 + k = (h - 1 - y') * stride + x' * 3 + k'"
  have b: "x * 3 + k < stride" "x' * 3 + k' < stride" using assms by simp_all
  have "((h - 1 - y) * stride + (x * 3 + k)) div stride = h - 1 - y"
    "((h - 1 - y') * stride + (x' * 3 + k')) div stride = h - 1 - y'"
    using b by simp_all
  then have "h - 1 - y = h - 1 - y'" using eq by (simp add: add.assoc)
  then have "y = y'" using assms(2,4) by linarith
  then have "x * 3 + k = x' * 3 + k'" using eq by simp
  then have "x = x'" using assms(7,8) by presburger
  with \<open>y = y'\<close> assms(6) show False by simp
qed

text \<open>
  The state of the output while the loops run: the header and the bytes behind the image are as
  before, and the pixels in \<open>S\<close> have their final colour.
\<close>

definition painted ::
    "u8 list \<Rightarrow> u8 list \<Rightarrow> nat \<Rightarrow> nat \<Rightarrow> nat \<Rightarrow> (nat \<times> nat) set \<Rightarrow> u8 list \<Rightarrow> bool" where
  "painted dds bmp0 w h stride S bmp \<longleftrightarrow> S \<subseteq> {..<w} \<times> {..<h} \<and>
     length bmp = length bmp0 \<and> take 54 bmp = take 54 bmp0 \<and>
     drop (54 + stride * h) bmp = drop (54 + stride * h) bmp0 \<and>
     (\<forall>(x, y) \<in> S. bmp_pixel bmp h stride x y = dxt1_pixel dds w x y)"

lemma write_pixel_painted:
  assumes x: "bx * 4 + x < w" and y: "by * 4 + y < h" and xy: "x < 4" "y < 4" and st: "w * 3 \<le> stride"
    and len: "54 + stride * h \<le> length bmp0"
    and p: "painted dds bmp0 w h stride S bmp"
    and cols: "colors = block_colors c0 c1"
    and px: "dxt1_pixel dds w (bx * 4 + x) (by * 4 + y) = colors ! unat (drop_bit (2 * (y * 4 + x)) selectors AND 3)"
  shows "\<exists>bmp'. write_pixel colors selectors h stride by bx y x bmp = Some bmp' \<and>
    painted dds bmp0 w h stride (S \<union> {(bx * 4 + x, by * 4 + y)}) bmp'"
proof -
  let ?px = "bx * 4 + x" and ?py = "by * 4 + y"
  define out where "out = 54 + (h - 1 - ?py) * stride + ?px * 3"
  define sel where "sel = unat (drop_bit (2 * (y * 4 + x)) selectors AND 3)"
  define c where "c = colors ! sel"
  have sel: "sel < length colors" using selector_bound by (simp add: cols block_colors_shape sel_def)
  then have c3: "length c = 3" unfolding c_def cols by (metis block_colors_shape(2) nth_mem)
  have lb: "length bmp = length bmp0" using p by (simp add: painted_def)
  have o: "out + 2 < 54 + stride * h" using pixel_inside [OF x y st] by (simp add: out_def)
  have o54: "54 \<le> out" by (simp add: out_def)
  define bmp' where "bmp' = bmp[out := c ! 2, Suc out := c ! 1, Suc (Suc out) := c ! 0]"
  have w: "write_pixel colors selectors h stride by bx y x bmp = Some bmp'"
    using sel o len lb c3
    unfolding write_pixel_def Let_def sel_def [symmetric] out_def [symmetric] bmp'_def
    by (simp add: c_def)
  have keep: "bmp' ! n = bmp ! n" if "n \<noteq> out" "n \<noteq> Suc out" "n \<noteq> Suc (Suc out)" for n
    using that by (simp add: bmp'_def)
  have new: "bmp_pixel bmp' h stride ?px ?py = dxt1_pixel dds w ?px ?py"
    using o len lb three_list [OF c3]
    unfolding bmp_pixel_def Let_def out_def [symmetric] px sel_def [symmetric] c_def [symmetric] bmp'_def
    by simp
  have old: "bmp_pixel bmp' h stride a b = bmp_pixel bmp h stride a b" if "(a, b) \<in> S" "(a, b) \<noteq> (?px, ?py)" for a b
  proof -
    have ab: "a < w" "b < h" using p that(1) by (auto simp: painted_def)
    have d: "54 + (h - 1 - b) * stride + a * 3 + k \<noteq> out + k'" if "k < 3" "k' < 3" for k k'
      using pixel_apart [OF ab x y st \<open>(a, b) \<noteq> (?px, ?py)\<close> that] by (simp add: out_def)
    show ?thesis
      unfolding bmp_pixel_def Let_def
      using d [of 0 0] d [of 0 1] d [of 0 2] d [of 1 0] d [of 1 1] d [of 1 2] d [of 2 0] d [of 2 1] d [of 2 2]
      by (simp add: keep)
  qed
  have "painted dds bmp0 w h stride (S \<union> {(?px, ?py)}) bmp'"
    unfolding painted_def
  proof (intro conjI ballI)
    show "length bmp' = length bmp0" using lb by (simp add: bmp'_def)
    show "take 54 bmp' = take 54 bmp0" using p o54 by (simp add: bmp'_def painted_def)
    show "drop (54 + stride * h) bmp' = drop (54 + stride * h) bmp0"
      using p o by (simp add: bmp'_def painted_def drop_update_cancel)
    show "S \<union> {(?px, ?py)} \<subseteq> {..<w} \<times> {..<h}" using p x y by (auto simp: painted_def)
    fix q assume q: "q \<in> S \<union> {(?px, ?py)}"
    obtain a b where ab: "q = (a, b)" by (cases q)
    have "bmp_pixel bmp' h stride a b = dxt1_pixel dds w a b"
    proof (cases "(a, b) = (?px, ?py)")
      case False
      with q ab have "(a, b) \<in> S" by auto
      with old [OF this False] p show ?thesis by (auto simp: painted_def)
    qed (use new in simp)
    then show "case q of (a, b) \<Rightarrow> bmp_pixel bmp' h stride a b = dxt1_pixel dds w a b" using ab by simp
  qed
  with w show ?thesis by blast
qed


lemma read16_in: "i + 1 < length p \<Longrightarrow> read16 p i = Some (of_le16 (p ! i) (p ! (i + 1)))"
  by (simp add: read16_def)

lemma read32_in: "i + 3 < length p \<Longrightarrow>
    read32 p i = Some (of_le32 (p ! i) (p ! (i + 1)) (p ! (i + 2)) (p ! (i + 3)))"
  by (simp add: read32_def)

lemma block_inside:
  fixes w h :: nat
  assumes "row < h div 4" and "col < w div 4"
  shows "(row * (w div 4) + col) * 8 + 8 \<le> h div 4 * (w div 4) * 8"
proof -
  have "row * (w div 4) + col + 1 \<le> row * (w div 4) + w div 4" using assms(2) by simp
  also have "\<dots> = Suc row * (w div 4)" by simp
  also have "\<dots> \<le> h div 4 * (w div 4)" using assms(1) by (intro mult_le_mono1) simp
  finally show ?thesis by simp
qed

lemma write_block_painted:
  assumes row: "row < h div 4" and col: "col < w div 4" and st: "w * 3 \<le> stride"
    and len: "54 + stride * h \<le> length bmp0" and dl: "128 + h div 4 * (w div 4) * 8 \<le> length dds"
    and p: "painted dds bmp0 w h stride S bmp"
  shows "\<exists>bmp'. write_block dds w h stride row col bmp = Some bmp' \<and>
    painted dds bmp0 w h stride (S \<union> (\<Union>y \<in> set [0..<4]. \<Union>x \<in> set [0..<4]. {(col * 4 + x, row * 4 + y)})) bmp'"
proof -
  define blk where "blk = 128 + (row * (w div 4) + col) * 8"
  define c0 where "c0 = of_le16 (dds ! blk) (dds ! (blk + 1))"
  define c1 where "c1 = of_le16 (dds ! (blk + 2)) (dds ! (blk + 3))"
  define sel where "sel = of_le32 (dds ! (blk + 4)) (dds ! (blk + 5)) (dds ! (blk + 6)) (dds ! (blk + 7))"
  have b: "blk + 7 < length dds" using block_inside [OF row col] dl by (simp add: blk_def)
  have r: "read16 dds blk = Some c0" "read16 dds (blk + 2) = Some c1" "read32 dds (blk + 4) = Some sel"
    using b by (simp_all add: read16_def read32_def c0_def c1_def sel_def numeral_eq_Suc)
  have unf: "write_block dds w h stride row col bmp = for_each (\<lambda>y. for_each
    (write_pixel (block_colors c0 c1) sel h stride row col y) [0..<4]) [0..<4] bmp"
    unfolding write_block_def Let_def blk_def [symmetric] r by simp
  have px: "dxt1_pixel dds w (col * 4 + x) (row * 4 + y) =
    block_colors c0 c1 ! unat (drop_bit (2 * (y * 4 + x)) sel AND 3)" if "x < 4" "y < 4" for x y
    using that unfolding dxt1_pixel_code Let_def by (simp add: blk_def c0_def c1_def sel_def)
  show ?thesis
    unfolding unf
  proof (rule for_each_union [where good = "painted dds bmp0 w h stride", OF _ p],
      rule for_each_union [where good = "painted dds bmp0 w h stride"])
    fix x y S bmp
    assume "y \<in> set [0..<4]" "x \<in> set [0..<4]" and q: "painted dds bmp0 w h stride S bmp"
    then have xy: "x < 4" "y < 4" by simp_all
    show "\<exists>s'. write_pixel (block_colors c0 c1) sel h stride row col y x bmp = Some s' \<and>
      painted dds bmp0 w h stride (S \<union> {(col * 4 + x, row * 4 + y)}) s'"
      by (rule write_pixel_painted [OF _ _ xy st len q refl px [OF xy]]) (use xy row col in linarith)+
  qed assumption
qed

lemma all_painted:
  assumes st: "w * 3 \<le> stride" and len: "54 + stride * h \<le> length bmp"
    and dl: "128 + h div 4 * (w div 4) * 8 \<le> length dds" and m: "w mod 4 = 0" "h mod 4 = 0"
  shows "\<exists>bmp'. for_each (\<lambda>row. for_each (write_block dds w h stride row) [0..<w div 4]) [0..<h div 4] bmp = Some bmp' \<and>
    length bmp' = length bmp \<and> take 54 bmp' = take 54 bmp \<and>
    drop (54 + stride * h) bmp' = drop (54 + stride * h) bmp \<and>
    (\<forall>x < w. \<forall>y < h. bmp_pixel bmp' h stride x y = dxt1_pixel dds w x y)"
proof -
  let ?A = "\<lambda>row col. \<Union>y \<in> set [0..<4]. \<Union>x \<in> set [0..<4]. {(col * 4 + x, row * 4 + y)}"
  have "\<exists>bmp'. for_each (\<lambda>row. for_each (write_block dds w h stride row) [0..<w div 4]) [0..<h div 4] bmp = Some bmp' \<and>
    painted dds bmp w h stride ({} \<union> (\<Union>row \<in> set [0..<h div 4]. \<Union>col \<in> set [0..<w div 4]. ?A row col)) bmp'"
  proof (rule for_each_union [where good = "painted dds bmp w h stride"],
      rule for_each_union [where good = "painted dds bmp w h stride"])
    fix row col S b
    assume "row \<in> set [0..<h div 4]" "col \<in> set [0..<w div 4]" "painted dds bmp w h stride S b"
    then show "\<exists>s'. write_block dds w h stride row col b = Some s' \<and>
      painted dds bmp w h stride (S \<union> ?A row col) s'"
      by (intro write_block_painted st len dl) simp_all
  qed (assumption, simp add: painted_def)
  then obtain bmp' where b: "for_each (\<lambda>row. for_each (write_block dds w h stride row) [0..<w div 4]) [0..<h div 4] bmp = Some bmp'"
    "painted dds bmp w h stride (\<Union>row \<in> set [0..<h div 4]. \<Union>col \<in> set [0..<w div 4]. ?A row col) bmp'"
    by auto
  have "bmp_pixel bmp' h stride x y = dxt1_pixel dds w x y" if "x < w" "y < h" for x y
  proof -
    have "h div 4 * 4 = h" "w div 4 * 4 = w"
      using div_mult_mod_eq [of h 4] div_mult_mod_eq [of w 4] m by simp_all
    then have d: "y div 4 < h div 4" "x div 4 < w div 4"
      using that by (simp_all add: less_mult_imp_div_less)
    have xy: "(x, y) \<in> ?A (y div 4) (x div 4)"
      by (rule UN_I [of "y mod 4"], simp, rule UN_I [of "x mod 4"], simp_all)
    have "(x, y) \<in> (\<Union>row \<in> set [0..<h div 4]. \<Union>col \<in> set [0..<w div 4]. ?A row col)"
      by (rule UN_I [of "y div 4"], use d in simp, rule UN_I [of "x div 4"], use d in simp, rule xy)
    with b(2) show ?thesis by (auto simp: painted_def)
  qed
  with b show ?thesis by (auto simp: painted_def)
qed


subsection \<open>The file header\<close>

lemma clear_loop:
  "n \<le> length bmp \<Longrightarrow> for_each (\<lambda>i b. store b i 0) [0..<n] bmp = Some (replicate n 0 @ drop n bmp)"
proof -
  have "k \<le> n \<Longrightarrow> n \<le> length bmp \<Longrightarrow>
    for_each (\<lambda>i b. store b i 0) [k..<n] (replicate k 0 @ drop k bmp) = Some (replicate n 0 @ drop n bmp)" for k
  proof (induction "n - k" arbitrary: k)
    case (Suc d)
    then have k: "k < n" by simp
    then have "[k..<n] = k # [Suc k..<n]" by (simp add: upt_conv_Cons)
    moreover have "store (replicate k 0 @ drop k bmp) k 0 = Some (replicate (Suc k) 0 @ drop (Suc k) bmp)"
      using k Suc.prems by (simp add: list_update_append replicate_append_same
          upd_conv_take_nth_drop flip: Cons_nth_drop_Suc)
    ultimately show ?case using Suc.hyps(1) [of "Suc k"] Suc.hyps(2) Suc.prems k by simp
  qed simp
  from this [of 0] show "n \<le> length bmp \<Longrightarrow> ?thesis" by simp
qed

text \<open>Writing a value into zeros that follow a finished part.\<close>

lemma put16_zeros:
  assumes "i = length a + z" and "z + 2 \<le> n"
  shows "put16 i v (a @ replicate n 0 @ r) = Some ((a @ replicate z 0 @ le16 v) @ replicate (n - z - 2) 0 @ r)"
proof -
  have "replicate (z + (2 + (n - z - 2))) (0 :: u8) = replicate z 0 @ [0, 0] @ replicate (n - z - 2) 0"
    by (simp only: replicate_add numeral_2_eq_2 replicate_Suc replicate_0)
  moreover have "z + (2 + (n - z - 2)) = n" using assms(2) by simp
  ultimately have "replicate n (0 :: u8) = replicate z 0 @ [0, 0] @ replicate (n - z - 2) 0"
    by (simp only:)
  then show ?thesis
    using assms(1) by (simp add: put16_def le16_def list_update_append)
qed

lemma put32_zeros:
  assumes "i = length a + z" and "z + 4 \<le> n"
  shows "put32 i v (a @ replicate n 0 @ r) = Some ((a @ replicate z 0 @ le32 v) @ replicate (n - z - 4) 0 @ r)"
proof -
  have "put16 i (ucast v) (a @ replicate n 0 @ r) =
    Some ((a @ replicate z 0 @ le16 (ucast v)) @ replicate (n - z - 2) 0 @ r)"
    by (rule put16_zeros) (use assms in simp_all)
  moreover have "put16 (i + 2) (ucast (drop_bit 16 v)) ((a @ replicate z 0 @ le16 (ucast v)) @ replicate (n - z - 2) 0 @ r) =
    Some (((a @ replicate z 0 @ le16 (ucast v)) @ replicate 0 0 @ le16 (ucast (drop_bit 16 v))) @ replicate (n - z - 2 - 0 - 2) 0 @ r)"
    by (rule put16_zeros) (use assms in simp_all)
  ultimately show ?thesis using assms(2) by (simp add: put32_def le32_def)
qed

lemma bmp_header_exact:
  assumes "54 \<le> unat size0" and "unat size0 \<le> length bmp" and "size0 = 54 + stride * height"
  shows "bmp_header size0 width height stride bmp =
    Some (bmp_head size0 width height @ replicate (unat size0 - 54) 0 @ drop (unat size0) bmp)"
proof -
  define r where "r = replicate (unat size0 - 54) 0 @ drop (unat size0) bmp"
  have z: "replicate (unat size0) (0 :: u8) = replicate 54 0 @ replicate (unat size0 - 54) 0"
    using assms(1) by (simp flip: replicate_add)
  define a0 where "a0 = ([0x42, 0x4d] :: u8 list)"
  define a1 where "a1 = a0 @ replicate 0 0 @ le32 size0"
  define a2 where "a2 = a1 @ replicate 4 0 @ le32 54"
  define a3 where "a3 = a2 @ replicate 0 0 @ le32 40"
  define a4 where "a4 = a3 @ replicate 0 0 @ le32 width"
  define a5 where "a5 = a4 @ replicate 0 0 @ le32 height"
  define a6 where "a6 = a5 @ replicate 0 0 @ le16 1"
  define a7 where "a7 = a6 @ replicate 0 0 @ le16 24"
  define a8 where "a8 = a7 @ replicate 4 0 @ le32 (stride * height)"
  note defs = a0_def a1_def a2_def a3_def a4_def a5_def a6_def a7_def
  have c: "for_each (\<lambda>i b. store b i 0) [0..<unat size0] bmp = Some (replicate 54 0 @ r)"
    using clear_loop [OF assms(2)] by (simp add: z r_def)
  have s0: "store (replicate 54 0 @ r) 0 0x42 = Some (0x42 # replicate 53 0 @ r)"
    by (simp add: numeral_eq_Suc)
  have s1: "store (0x42 # replicate 53 0 @ r) 1 0x4d = Some (a0 @ replicate 52 0 @ r)"
    by (simp add: numeral_eq_Suc a0_def)
  have 1: "put32 2 size0 (a0 @ replicate 52 0 @ r) = Some (a1 @ replicate 48 0 @ r)"
    using put32_zeros [of 2 a0 0 52] by (simp add: defs)
  have 2: "put32 10 54 (a1 @ replicate 48 0 @ r) = Some (a2 @ replicate 40 0 @ r)"
    using put32_zeros [of 10 a1 4 48] by (simp add: defs)
  have 3: "put32 14 40 (a2 @ replicate 40 0 @ r) = Some (a3 @ replicate 36 0 @ r)"
    using put32_zeros [of 14 a2 0 40] by (simp add: defs)
  have 4: "put32 18 width (a3 @ replicate 36 0 @ r) = Some (a4 @ replicate 32 0 @ r)"
    using put32_zeros [of 18 a3 0 36] by (simp add: defs)
  have 5: "put32 22 height (a4 @ replicate 32 0 @ r) = Some (a5 @ replicate 28 0 @ r)"
    using put32_zeros [of 22 a4 0 32] by (simp add: defs)
  have 6: "put16 26 1 (a5 @ replicate 28 0 @ r) = Some (a6 @ replicate 26 0 @ r)"
    using put16_zeros [of 26 a5 0 28] by (simp add: defs)
  have 7: "put16 28 24 (a6 @ replicate 26 0 @ r) = Some (a7 @ replicate 24 0 @ r)"
    using put16_zeros [of 28 a6 0 26] by (simp add: defs)
  have 8: "put32 34 (stride * height) (a7 @ replicate 24 0 @ r) = Some (a8 @ replicate 16 0 @ r)"
    using put32_zeros [of 34 a7 4 24] by (simp add: defs a8_def)
  have "bmp_header size0 width height stride bmp = Some (a8 @ replicate 16 0 @ r)"
    unfolding bmp_header_def c s0 s1 1 2 3 4 5 6 7 8 bind.bind_lunit by (rule refl)
  moreover have "a8 @ replicate 16 0 = bmp_head size0 width height"
    using assms(3) by (simp add: bmp_head_def defs a8_def)
  ultimately show ?thesis by (simp add: r_def flip: append_assoc)
qed


subsection \<open>Accepted icons\<close>

lemma and_three: "(v AND 3 :: u32) = 0 \<longleftrightarrow> unat v mod 4 = 0"
proof -
  have "v AND 3 = take_bit 2 v" by (simp add: take_bit_eq_mask mask_eq_exp_minus_1)
  moreover have "unat (take_bit 2 v) = unat v mod 4" by (simp only: unsigned_take_bit_eq) (simp add: take_bit_eq_mod)
  ultimately show ?thesis by (metis unat_eq_0)
qed

lemma stride_exact:
  assumes "unat (width :: u32) \<le> 256" and "unat width mod 4 = 0"
  shows "unat ((width * 3 + 3) AND NOT 3) = 3 * unat width"
proof -
  have all: "list_all (\<lambda>k. unat ((of_nat (4 * k) * 3 + 3 :: u32) AND NOT 3) = 12 * k) [0..<65]" by code_simp
  obtain k where k: "unat width = 4 * k" using assms(2) by auto
  have "of_nat (unat width) = width" by simp
  then have "width = of_nat (4 * k)" unfolding k by (rule sym)
  moreover have "k \<in> set [0..<65]" using k assms(1) by simp
  ultimately show ?thesis using all k by (simp add: list_all_iff)
qed

definition dds_field :: "u8 list \<Rightarrow> nat \<Rightarrow> u32" where
  "dds_field dds i = of_le32 (dds ! i) (dds ! (i + 1)) (dds ! (i + 2)) (dds ! (i + 3))"

text \<open>What the decoder accepts: a DXT1 surface with sides that are multiples of four up to 256, and its exact size.\<close>

definition dds_valid :: "u8 list \<Rightarrow> nat \<Rightarrow> nat \<Rightarrow> nat \<Rightarrow> bool" where
  "dds_valid dds n w h \<longleftrightarrow> 128 \<le> n \<and> dds_field dds 0 = 0x20534444 \<and> dds_field dds 4 = 124 \<and>
     dds_field dds 76 = 32 \<and> dds_field dds 84 = 0x31545844 \<and>
     w = unat (dds_field dds 16) \<and> h = unat (dds_field dds 12) \<and>
     0 < w \<and> 0 < h \<and> w \<le> 256 \<and> h \<le> 256 \<and> w mod 4 = 0 \<and> h mod 4 = 0 \<and> n = 128 + w * h div 2"

lemma small_product: "(w :: nat) \<le> 256 \<Longrightarrow> h \<le> 256 \<Longrightarrow> w * h \<le> 65536"
  using mult_le_mono [of w 256 h 256] by simp

lemma dds_size_eq:
  assumes "unat (w :: u32) \<le> 256" and "unat h \<le> 256"
  shows "dds_size = 128 + w * h div 2 \<longleftrightarrow> unat dds_size = 128 + unat w * unat h div 2"
proof -
  note p = small_product [OF assms]
  have m: "unat (w * h) = unat w * unat h" using p by (simp add: unat_word_ariths)
  have d: "unat (w * h div 2) = unat w * unat h div 2" using m by (simp add: unat_div)
  have "unat (128 + w * h div 2) = 128 + unat w * unat h div 2"
    using d p by (simp add: unat_word_ariths)
  then show ?thesis by (metis word_unat_eq_iff)
qed

lemma dds_header_spec:
  assumes "unat dds_size \<le> length dds"
  shows "\<exists>r. dds_header dds dds_size = Some r \<and>
    (case r of
       Some (width, height) \<Rightarrow> dds_valid dds (unat dds_size) (unat width) (unat height)
     | None \<Rightarrow> \<not> (\<exists>w h. dds_valid dds (unat dds_size) w h))"
proof (cases "dds_size < 128")
  case True
  then show ?thesis by (auto simp: dds_header_def dds_valid_def word_less_nat_alt)
next
  case False
  then have len: "128 \<le> length dds" "128 \<le> unat dds_size" using assms by (simp_all add: word_less_nat_alt)
  let ?w = "dds_field dds 16" and ?h = "dds_field dds 12"
  have r: "read32 dds i = Some (dds_field dds i)" if "i + 3 < 128" for i
    using that len by (simp add: read32_in dds_field_def)
  define ok where "ok \<longleftrightarrow> ?w \<noteq> 0 \<and> ?h \<noteq> 0 \<and> \<not> ?w > 256 \<and> \<not> ?h > 256 \<and> ?w AND 3 = 0 \<and> ?h AND 3 = 0 \<and>
    dds_size = 128 + ?w * ?h div 2"
  have hd: "dds_header dds dds_size = Some
    (if dds_field dds 0 = 0x20534444 \<and> dds_field dds 4 = 124 \<and> dds_field dds 76 = 32 \<and>
       dds_field dds 84 = 0x31545844 \<and> ok then Some (?w, ?h) else None)"
    using False by (auto simp: dds_header_def r ok_def)
  have "ok \<longleftrightarrow> 0 < unat ?w \<and> 0 < unat ?h \<and> unat ?w \<le> 256 \<and> unat ?h \<le> 256 \<and> unat ?w mod 4 = 0 \<and>
    unat ?h mod 4 = 0 \<and> unat dds_size = 128 + unat ?w * unat ?h div 2"
    unfolding ok_def and_three using dds_size_eq [of ?w ?h dds_size]
    by (auto simp: word_less_nat_alt unat_gt_0)
  then show ?thesis using len unfolding hd by (auto simp: dds_valid_def)
qed

lemma dds_to_bmp_spec:
  assumes "unat dds_size \<le> length dds" and "unat capacity \<le> length bmp"
  shows "\<exists>status bmp'. vcm_mtp_dxt1_dds_to_bmp (Some dds) dds_size (Some bmp) capacity = Some (status, Some bmp') \<and>
    length bmp' = length bmp \<and>
    (if \<exists>w h. dds_valid dds (unat dds_size) w h \<and> 54 + 3 * w * h \<le> unat capacity
     then (\<exists>w h. dds_valid dds (unat dds_size) w h \<and> status = int (54 + 3 * w * h) \<and>
       take 54 bmp' = bmp_head (of_nat (54 + 3 * w * h)) (of_nat w) (of_nat h) \<and>
       (\<forall>x < w. \<forall>y < h. bmp_pixel bmp' h (3 * w) x y = dxt1_pixel dds w x y) \<and>
       drop (54 + 3 * w * h) bmp' = drop (54 + 3 * w * h) bmp)
     else status = - 1 \<and> bmp' = bmp)"
proof -
  obtain r where r: "dds_header dds dds_size = Some r"
    "case r of Some (width, height) \<Rightarrow> dds_valid dds (unat dds_size) (unat width) (unat height)
     | None \<Rightarrow> \<not> (\<exists>w h. dds_valid dds (unat dds_size) w h)"
    using dds_header_spec [OF assms(1)] by blast
  show ?thesis
  proof (cases r)
    case None
    with r show ?thesis by (auto simp: vcm_mtp_dxt1_dds_to_bmp_def)
  next
    case (Some wh)
    obtain width height where wh: "wh = (width, height)" by (cases wh)
    define w where "w = unat width"
    define h where "h = unat height"
    have v: "dds_valid dds (unat dds_size) w h" using r(2) Some wh by (simp add: w_def h_def)
    have b: "w \<le> 256" "h \<le> 256" "w mod 4 = 0" "h mod 4 = 0" "unat dds_size = 128 + w * h div 2"
      using v by (auto simp: dds_valid_def)
    have uniq: "w' = w \<and> h' = h" if "dds_valid dds (unat dds_size) w' h'" for w' h'
      using v that by (simp add: dds_valid_def)
    define stride where "stride = (width * 3 + 3) AND NOT 3"
    define size0 where "size0 = 54 + stride * height"
    have st: "unat stride = 3 * w" using stride_exact [of width] b by (simp add: stride_def w_def)
    note pr = small_product [OF b(1,2)]
    have "unat (stride * height) = 3 * w * h"
      using pr st by (simp add: unat_word_ariths h_def)
    then have sz: "unat size0 = 54 + 3 * w * h" using pr by (simp add: size0_def unat_word_ariths)
    have unf: "vcm_mtp_dxt1_dds_to_bmp (Some dds) dds_size (Some bmp) capacity =
      (if capacity < size0 then Some (- 1, Some bmp)
       else do {
         b \<leftarrow> bmp_header size0 width height stride bmp;
         b \<leftarrow> for_each (\<lambda>row. for_each (write_block dds w h (3 * w) row) [0..<w div 4]) [0..<h div 4] b;
         Some (sint size0, Some b) })"
      using st [unfolded stride_def w_def]
      by (simp add: vcm_mtp_dxt1_dds_to_bmp_def r(1) Some wh Let_def stride_def size0_def w_def h_def)
    show ?thesis
    proof (cases "capacity < size0")
      case True
      then have "\<not> 54 + 3 * w * h \<le> unat capacity" using sz by (simp add: word_less_nat_alt)
      with uniq True show ?thesis unfolding unf by auto
    next
      case False
      then have cap: "54 + 3 * w * h \<le> unat capacity" using sz by (simp add: word_less_nat_alt)
      define b0 where "b0 = bmp_head size0 width height @ replicate (unat size0 - 54) 0 @ drop (unat size0) bmp"
      have hdr: "bmp_header size0 width height stride bmp = Some b0"
        unfolding b0_def by (rule bmp_header_exact) (use sz cap assms(2) size0_def in simp_all)
      have l54: "length (bmp_head size0 width height) = 54" by (simp add: bmp_head_def)
      have l0: "length b0 = length bmp" using l54 sz cap assms(2) by (simp add: b0_def)
      have dl: "128 + h div 4 * (w div 4) * 8 \<le> length dds"
      proof -
        have "h div 4 * (w div 4) * 16 = (h div 4 * 4) * (w div 4 * 4)" by simp
        also have "\<dots> = h * w" using b(3,4) by (metis add.right_neutral div_mult_mod_eq)
        finally have "h div 4 * (w div 4) * 8 = w * h div 2" by (simp add: mult.commute)
        then show ?thesis using b(5) assms(1) by simp
      qed
      have room: "54 + 3 * w * h \<le> length b0" using l0 cap assms(2) by simp
      have "w * 3 \<le> 3 * w" by simp
      from all_painted [OF this room dl b(3,4)] obtain b1 where
        b1: "for_each (\<lambda>row. for_each (write_block dds w h (3 * w) row) [0..<w div 4]) [0..<h div 4] b0 = Some b1"
        "length b1 = length b0" "take 54 b1 = take 54 b0" "drop (54 + 3 * w * h) b1 = drop (54 + 3 * w * h) b0"
        "\<forall>x < w. \<forall>y < h. bmp_pixel b1 h (3 * w) x y = dxt1_pixel dds w x y" by blast
      have ret: "sint size0 = int (54 + 3 * w * h)"
      proof -
        have "unat size0 < 2 ^ 31" using sz pr by simp
        then have "sint size0 = int (unat size0)" using sint_of_nat_u32 [of "unat size0"] by simp
        with sz show ?thesis by simp
      qed
      have "of_nat (unat size0) = size0" by simp
      then have conv: "of_nat (54 + 3 * w * h) = size0" "of_nat w = width" "of_nat h = height"
        unfolding sz by (simp_all only: w_def h_def) simp_all
      have t: "take 54 b0 = bmp_head size0 width height" using l54 by (simp add: b0_def)
      have d: "drop (54 + 3 * w * h) b0 = drop (54 + 3 * w * h) bmp"
        using l54 sz by (simp add: b0_def)
      have run: "vcm_mtp_dxt1_dds_to_bmp (Some dds) dds_size (Some bmp) capacity = Some (int (54 + 3 * w * h), Some b1)"
        unfolding unf using False by (simp add: hdr b1(1) ret)
      have ex: "\<exists>w h. dds_valid dds (unat dds_size) w h \<and> 54 + 3 * w * h \<le> unat capacity" using v cap by blast
      have head: "take 54 b1 = bmp_head (of_nat (54 + 3 * w * h)) (of_nat w) (of_nat h)"
        unfolding conv using b1(3) t by simp
      show ?thesis
        unfolding if_P [OF ex]
      proof (intro exI conjI)
        show "vcm_mtp_dxt1_dds_to_bmp (Some dds) dds_size (Some bmp) capacity = Some (int (54 + 3 * w * h), Some b1)"
          by (rule run)
        show "length b1 = length bmp" using b1(2) l0 by simp
        show "drop (54 + 3 * w * h) b1 = drop (54 + 3 * w * h) bmp" using b1(4) d by simp
      qed (use v b1(5) head in simp_all)
    qed
  qed
qed

text \<open>
  C17. The thumbnail decoder is total and exact: for buffers of the sizes it is told, it touches no byte outside them; it accepts
  precisely the DXT1 surfaces with sides that are multiples of four up to 256 whose bitmap fits the output, leaves the output alone
  otherwise, and for an accepted icon returns the size of a bitmap with the right header in which every
  pixel, from the bottom row up, has the colour that its block of the compressed data gives it.
\<close>

theorem thumbnail_decoded:
  assumes "unat dds_size \<le> length dds" and "unat capacity \<le> length bmp"
  shows "\<exists>status bmp'. vcm_mtp_dxt1_dds_to_bmp (Some dds) dds_size (Some bmp) capacity = Some (status, Some bmp') \<and>
    length bmp' = length bmp \<and>
    (if \<exists>w h. dds_valid dds (unat dds_size) w h \<and> 54 + 3 * w * h \<le> unat capacity
     then (\<exists>w h. dds_valid dds (unat dds_size) w h \<and> status = int (54 + 3 * w * h) \<and>
       take 54 bmp' = bmp_head (of_nat (54 + 3 * w * h)) (of_nat w) (of_nat h) \<and>
       (\<forall>x < w. \<forall>y < h. bmp_pixel bmp' h (3 * w) x y = dxt1_pixel dds w x y) \<and>
       drop (54 + 3 * w * h) bmp' = drop (54 + 3 * w * h) bmp)
     else status = - 1 \<and> bmp' = bmp)"
  using dds_to_bmp_spec [OF assms] .


definition sample_icon :: "u8 list" where
  "sample_icon = le32 0x20534444 @ le32 124 @ replicate 4 0 @ le32 4 @ le32 4 @ replicate 56 0 @ le32 32 @
     replicate 4 0 @ le32 0x31545844 @ replicate 40 0 @ [0x1f, 0xf8, 0, 0, 0xe4, 0, 0, 0]"

theorem thumbnail_decoded_witness:
  "\<exists>bmp'. vcm_mtp_dxt1_dds_to_bmp (Some sample_icon) 136 (Some (replicate 102 7)) 102 = Some (102, Some bmp') \<and>
     length bmp' = 102 \<and> bmp_pixel bmp' 4 12 0 0 = [255, 0, 255]"
proof -
  have v: "dds_valid sample_icon 136 4 4" by code_simp
  have n: "unat (136 :: u32) = 136" "unat (102 :: u32) = 102" "length sample_icon = 136"
    by (simp_all add: sample_icon_def)
  have u: "w = 4 \<and> h = 4" if "dds_valid sample_icon 136 w h" for w h
    using v that by (simp add: dds_valid_def)
  have ex: "\<exists>w h. dds_valid sample_icon (unat (136 :: u32)) w h \<and> 54 + 3 * w * h \<le> unat (102 :: u32)"
    unfolding n using v by (intro exI [of _ 4] conjI) simp_all
  have px: "dxt1_pixel sample_icon 4 0 0 = [255, 0, 255]" unfolding dxt1_pixel_code by code_simp
  have "unat (136 :: u32) \<le> length sample_icon" "unat (102 :: u32) \<le> length (replicate 102 (7 :: u8))"
    by (simp_all add: n)
  from thumbnail_decoded [OF this, unfolded if_P [OF ex]] show ?thesis
    unfolding n using u px by fastforce
qed

end
