(* ===== verification/Media_Library.thy ===== *)
theory Media_Library
  imports C_Strings
begin

text \<open>
  The read-only media library of \<^verbatim>\<open>src/vita/library.c\<close>: paths, formats and dates of registered
  media, and the enumeration that feeds the MTP catalogue. The SQLite library and the file system are
  parameters: a query is its sequence of result rows with the status codes of the calls around it, a file lookup
  is a function from paths to file attributes.
\<close>

subsection \<open>Data\<close>

abbreviation (input) VCM_LIBRARY_PHOTO :: int where "VCM_LIBRARY_PHOTO \<equiv> 0"
abbreviation (input) VCM_LIBRARY_MUSIC :: int where "VCM_LIBRARY_MUSIC \<equiv> 1"
abbreviation (input) VCM_LIBRARY_VIDEO :: int where "VCM_LIBRARY_VIDEO \<equiv> 2"

record VcmLibraryMediaInfo =
  m_kind :: int
  m_id :: u64
  m_name :: "u8 list"
  m_title :: "u8 list option"
  m_artist :: "u8 list option"
  m_album :: "u8 list option"
  m_created :: "u8 list"
  m_modified :: "u8 list"
  m_size :: u64
  m_mtp_format :: u16
  m_thumb_width :: u16
  m_thumb_height :: u16
  m_width :: u32
  m_height :: u32

text \<open>What the console's kernel reports of a file.\<close>

record SceDateTime =
  d_year :: nat
  d_month :: nat
  d_day :: nat
  d_hour :: nat
  d_minute :: nat
  d_second :: nat

record SceIoStat =
  st_size :: int
  st_ctime :: SceDateTime
  st_mtime :: SceDateTime

text \<open>
  A query: whether the database opens, the status of preparing the statement and binding its arguments, the results of stepping
  (a row, or \<^term>\<open>None\<close> for an error; after the last one the statement is done), and the status of
  the clean-up calls (\<open>sql_finalize\<close> is 0 when there is no statement to finalize).
\<close>

record 'r query =
  sql_open :: bool
  sql_prepare :: int
  sql_steps :: "'r option list"
  sql_finalize :: int
  sql_close :: int

record media_row =
  r_id :: u64
  r_path :: "u8 list option"
  r_title :: "u8 list option"
  r_created :: "u8 list option"
  r_artist :: "u8 list option"
  r_album :: "u8 list option"
  r_icon :: "u8 list"
  r_width :: int
  r_height :: int

subsection \<open>Paths\<close>

definition database_path :: "int \<Rightarrow> u8 list option" where
  "database_path kind =
     (if kind \<ge> 0 \<and> kind < 3 then
        Some ([ascii ''ux0:/mms/photo/AVContent.db'', ascii ''ux0:/mms/music/AVContent.db'',
               ascii ''ux0:/mms/video/AVContent.db''] ! nat kind)
      else None)"

definition stored_prefix :: "int \<Rightarrow> u8 list" where
  "stored_prefix kind =
     (if kind = VCM_LIBRARY_PHOTO then ascii ''photo0:/''
      else if kind = VCM_LIBRARY_MUSIC then ascii ''music0:/'' else ascii ''video0:/'')"

definition physical_root :: "int \<Rightarrow> u8 list" where
  "physical_root kind =
     (if kind = VCM_LIBRARY_PHOTO then ascii ''ux0:/picture/''
      else if kind = VCM_LIBRARY_MUSIC then ascii ''ux0:/music/'' else ascii ''ux0:/video/'')"

text \<open>The status and the path array; both the stored text and the array may be null.\<close>

definition physical_path ::
    "int \<Rightarrow> u8 list option \<Rightarrow> u8 list option \<Rightarrow> nat \<Rightarrow> (int \<times> u8 list option) option" where
  "physical_path kind stored path capacity =
     (case (stored, path) of
        (Some s, Some out) \<Rightarrow>
          if capacity < 32 then Some (- 1, path)
          else do {
            let prefix = stored_prefix kind;
            let physical = physical_root kind;
            let suffix =
              (if starts prefix s then Some (drop (length prefix) s)
               else if starts physical s then Some (drop (length physical) s) else None);
            (case suffix of
               None \<Rightarrow> Some (- 1, path)
             | Some t \<Rightarrow>
                 if t = [] \<or> strstr t (ascii ''..'') \<noteq> None \<or> 0x5c \<in> set t \<or> 0x3a \<in> set t \<or> 0x0a \<in> set t
                 then Some (- 1, path)
                 else do {
                   (n, out) \<leftarrow> snprintf out capacity (physical @ t);
                   Some (if n > 0 \<and> n < int capacity then 0 else - 1, Some out)
                 })
          }
      | _ \<Rightarrow> Some (- 1, path))"

definition sidecar_path :: "u8 list \<Rightarrow> nat \<Rightarrow> (int \<times> u8 list) option" where
  "sidecar_path path capacity = do {
     s \<leftarrow> c_string path;
     (case strrchr s 0x2e of
        None \<Rightarrow> Some (- 1, path)
      | Some dot \<Rightarrow>
          if (case strrchr s 0x2f of None \<Rightarrow> False | Some slash \<Rightarrow> dot < slash) \<or> dot + 5 > capacity
          then Some (- 1, path)
          else if dot + 5 \<le> length path then
            Some (0, take dot path @ ascii ''.m4t'' @ [0] @ drop (dot + 5) path)
          else None)
   }"

subsection \<open>Formats and dates\<close>

definition lower :: "u8 \<Rightarrow> u8" where
  "lower c = (if 0x41 \<le> c \<and> c \<le> 0x5a then c + 0x20 else c)"

definition extension_is :: "u8 list \<Rightarrow> u8 list \<Rightarrow> bool" where
  "extension_is actual expected \<longleftrightarrow> map lower actual = map lower expected"

definition mtp_format :: "int \<Rightarrow> u8 list \<Rightarrow> u16" where
  "mtp_format kind name =
     (case strrchr name 0x2e of
        None \<Rightarrow> 0
      | Some i \<Rightarrow>
          let dot = drop i name in
          if kind = VCM_LIBRARY_PHOTO then
            if extension_is dot (ascii ''.jpg'') \<or> extension_is dot (ascii ''.jpeg'') then 0x3801
            else if extension_is dot (ascii ''.png'') then 0x380b
            else if extension_is dot (ascii ''.bmp'') then 0x3804
            else if extension_is dot (ascii ''.gif'') then 0x3807
            else if extension_is dot (ascii ''.tif'') \<or> extension_is dot (ascii ''.tiff'') then 0x380d
            else if extension_is dot (ascii ''.mpo'') then 0xb301
            else 0
          else if kind = VCM_LIBRARY_MUSIC then
            if extension_is dot (ascii ''.mp3'') then 0x3009
            else if extension_is dot (ascii ''.m4a'') \<or> extension_is dot (ascii ''.aac'') then 0xb903
            else if extension_is dot (ascii ''.wav'') then 0x3008
            else 0
          else if kind = VCM_LIBRARY_VIDEO \<and> extension_is dot (ascii ''.mp4'') then 0xb982
          else 0)"

text \<open>\<open>%0ku\<close> of the C formats.\<close>

definition padded_dec :: "nat \<Rightarrow> nat \<Rightarrow> u8 list" where
  "padded_dec k n = replicate (k - length (dec_text n)) 0x30 @ dec_text n"

definition mtp_stat_date :: "u8 list \<Rightarrow> SceDateTime \<Rightarrow> u8 list option" where
  "mtp_stat_date out v = do {
     out \<leftarrow> store out 0 0;
     if d_year v < 1970 \<or> d_year v > 9999 \<or> d_month v < 1 \<or> d_month v > 12 \<or> d_day v < 1 \<or>
        d_day v > 31 \<or> d_hour v > 23 \<or> d_minute v > 59 \<or> d_second v > 59 then Some out
     else do {
       (_, out) \<leftarrow> snprintf out 24 (padded_dec 4 (d_year v) @ padded_dec 2 (d_month v) @
         padded_dec 2 (d_day v) @ [0x54] @ padded_dec 2 (d_hour v) @ padded_dec 2 (d_minute v) @
         padded_dec 2 (d_second v));
       Some out
     }
   }"

definition date_digits :: "nat list" where
  "date_digits = [0, 1, 2, 3, 5, 6, 8, 9, 11, 12, 14, 15, 17, 18]"

definition mtp_db_date :: "u8 list \<Rightarrow> u8 list option \<Rightarrow> u8 list option" where
  "mtp_db_date out v = do {
     out \<leftarrow> store out 0 0;
     (case v of
        None \<Rightarrow> Some out
      | Some s \<Rightarrow>
          if length (take 24 s) < 19 \<or> c_at s 4 \<noteq> 0x2d \<or> c_at s 7 \<noteq> 0x2d \<or> c_at s 10 \<noteq> 0x54 \<or>
             c_at s 13 \<noteq> 0x3a \<or> c_at s 16 \<noteq> 0x3a then Some out
          else if list_ex (\<lambda>i. c_at s i < 0x30 \<or> c_at s i > 0x39) date_digits then Some out
          else do {
            (_, out) \<leftarrow> snprintf out 24 (take 4 s @ take 2 (drop 5 s) @ take 2 (drop 8 s) @ [0x54] @
              take 2 (drop 11 s) @ take 2 (drop 14 s) @ take 2 (drop 17 s));
            Some out
          })
   }"

definition blob32 :: "u8 list \<Rightarrow> nat \<Rightarrow> u32 option" where
  "blob32 bytes i = do {
     a \<leftarrow> fetch bytes i; b \<leftarrow> fetch bytes (i + 1); c \<leftarrow> fetch bytes (i + 2); d \<leftarrow> fetch bytes (i + 3);
     Some (of_le32 a b c d)
   }"

subsection \<open>Enumeration\<close>

text \<open>The callback gets its context and a media description, and returns a status and the new context.\<close>

type_synonym 'c visitor = "'c \<Rightarrow> VcmLibraryMediaInfo \<Rightarrow> (int \<times> 'c) option"

definition thumb_size_of :: "int \<Rightarrow> u8 list \<Rightarrow> (u16 \<times> u16) option" where
  "thumb_size_of kind icon =
     (if kind = VCM_LIBRARY_PHOTO \<and> length icon = 8 then do {
        height \<leftarrow> blob32 icon 0;
        width \<leftarrow> blob32 icon 4;
        Some (if width \<noteq> 0 \<and> height \<noteq> 0 \<and> width \<le> 256 \<and> height \<le> 256 \<and> width AND 3 = 0 \<and> height AND 3 = 0
              then (ucast width, ucast height) else (0, 0))
      }
      else Some (0, 0))"

definition eligible_size :: "int \<Rightarrow> bool" where
  "eligible_size n \<longleftrightarrow> 0 < n \<and> n \<le> 0xfffffff3"

text \<open>
  The second visit of a video row, for its subtitle sidecar. \<open>path\<close> is the array that holds the video's path,
  \<open>junk\<close> the indeterminate bytes of the local arrays.
\<close>

definition visit_sidecar ::
    "(u8 list \<Rightarrow> SceIoStat option) \<Rightarrow> 'c visitor \<Rightarrow> (nat \<Rightarrow> u8) \<Rightarrow> u8 list \<Rightarrow> VcmLibraryMediaInfo \<Rightarrow> 'c \<Rightarrow>
      (int \<times> 'c) option" where
  "visit_sidecar getstat visit junk path media ctx = do {
     (status, path) \<leftarrow> sidecar_path path 1024;
     if status \<noteq> 0 then Some (0, ctx)
     else do {
       p \<leftarrow> c_string path;
       (case getstat p of
          None \<Rightarrow> Some (0, ctx)
        | Some stat \<Rightarrow>
            if \<not> eligible_size (st_size stat) then Some (0, ctx)
            else if length (m_name media) \<ge> 256 then Some (0, ctx)
            else do {
              let sidecar_name = m_name media @ [0] @ drop (length (m_name media) + 1) (map junk [0..<256]);
              (status, sidecar_name) \<leftarrow> sidecar_path sidecar_name 256;
              if status \<noteq> 0 then Some (0, ctx)
              else do {
                name \<leftarrow> c_string sidecar_name;
                modified \<leftarrow> mtp_stat_date (map junk [0..<24]) (st_mtime stat);
                modified \<leftarrow> c_string modified;
                (rc, ctx) \<leftarrow> visit ctx (media\<lparr>m_kind := 3, m_name := name,
                  m_size := word_of_int (st_size stat), m_mtp_format := 0xba82,
                  m_title := Some [], m_artist := Some [], m_album := Some [],
                  m_thumb_width := 0, m_thumb_height := 0, m_width := 0, m_height := 0,
                  m_modified := modified\<rparr>);
                Some (if rc < 0 then - 1 else 0, ctx)
              }
            })
     }
   }"

definition row_media ::
    "int \<Rightarrow> (nat \<Rightarrow> u8) \<Rightarrow> media_row \<Rightarrow> u8 list \<Rightarrow> SceIoStat \<Rightarrow> VcmLibraryMediaInfo option" where
  "row_media kind junk row name stat = do {
     created \<leftarrow> mtp_db_date (map junk [0..<24]) (r_created row);
     first \<leftarrow> fetch created 0;
     created \<leftarrow> (if first = 0 then mtp_stat_date created (st_ctime stat) else Some created);
     modified \<leftarrow> mtp_stat_date (map junk [0..<24]) (st_mtime stat);
     created \<leftarrow> c_string created;
     modified \<leftarrow> c_string modified;
     (tw, th) \<leftarrow> thumb_size_of kind (r_icon row);
     let sized = r_width row > 0 \<and> r_width row \<le> 65535 \<and> r_height row > 0 \<and> r_height row \<le> 65535;
     Some \<lparr>m_kind = kind, m_id = r_id row, m_name = name, m_title = r_title row, m_artist = r_artist row,
       m_album = r_album row, m_created = created, m_modified = modified,
       m_size = word_of_int (st_size stat), m_mtp_format = mtp_format kind name,
       m_thumb_width = tw, m_thumb_height = th,
       m_width = (if sized then word_of_int (r_width row) else 0),
       m_height = (if sized then word_of_int (r_height row) else 0)\<rparr>
   }"

definition visit_row ::
    "int \<Rightarrow> (u8 list \<Rightarrow> SceIoStat option) \<Rightarrow> 'c visitor \<Rightarrow> (nat \<Rightarrow> u8) \<Rightarrow> media_row \<Rightarrow> 'c \<Rightarrow> (int \<times> 'c) option" where
  "visit_row kind getstat visit junk row ctx =
     (case r_path row of
        None \<Rightarrow> Some (0, ctx)
      | Some stored \<Rightarrow>
          (case strrchr stored 0x2f of
             None \<Rightarrow> Some (0, ctx)
           | Some slash \<Rightarrow>
               let name = drop (Suc slash) stored in
               if r_id row = 0 \<or> name = [] \<or> mtp_format kind name = 0 then Some (0, ctx)
               else do {
                 (status, path) \<leftarrow> physical_path kind (Some stored) (Some (map junk [0..<1024])) 1024;
                 (case path of
                    None \<Rightarrow> None
                  | Some path \<Rightarrow>
                      if status < 0 then Some (0, ctx)
                      else do {
                        p \<leftarrow> c_string path;
                        (case getstat p of
                           None \<Rightarrow> Some (0, ctx)
                         | Some stat \<Rightarrow>
                             if \<not> eligible_size (st_size stat) then Some (0, ctx)
                             else do {
                               media \<leftarrow> row_media kind junk row name stat;
                               (rc, ctx) \<leftarrow> visit ctx media;
                               if rc < 0 then Some (- 1, ctx)
                               else if kind = VCM_LIBRARY_VIDEO
                               then visit_sidecar getstat visit junk path media ctx
                               else Some (0, ctx)
                             })
                      })
               }))"

fun visit_rows ::
    "int \<Rightarrow> (u8 list \<Rightarrow> SceIoStat option) \<Rightarrow> 'c visitor \<Rightarrow> (nat \<Rightarrow> u8) \<Rightarrow> media_row option list \<Rightarrow> 'c \<Rightarrow>
      (int \<times> 'c) option" where
  "visit_rows kind getstat visit junk [] ctx = Some (0, ctx)"
| "visit_rows kind getstat visit junk (None # steps) ctx = Some (- 1, ctx)"
| "visit_rows kind getstat visit junk (Some row # steps) ctx = do {
     (rc, ctx) \<leftarrow> visit_row kind getstat visit junk row ctx;
     if rc \<noteq> 0 then Some (rc, ctx) else visit_rows kind getstat visit junk steps ctx
   }"

text \<open>The status after the statement and the database have been closed.\<close>

definition closing :: "'r query \<Rightarrow> int \<Rightarrow> int" where
  "closing q rc =
     (let rc = (if sql_finalize q \<noteq> 0 then - 1 else rc)
      in if sql_close q \<noteq> 0 then - 1 else rc)"

definition vcm_library_enumerate ::
    "int \<Rightarrow> (u8 list \<Rightarrow> SceIoStat option) \<Rightarrow> media_row query \<Rightarrow> (nat \<Rightarrow> u8) \<Rightarrow> 'c visitor option \<Rightarrow> 'c \<Rightarrow>
      (int \<times> 'c) option" where
  "vcm_library_enumerate kind getstat q junk visit ctx =
     (case visit of
        None \<Rightarrow> Some (- 1, ctx)
      | Some visit \<Rightarrow>
          if database_path kind = None \<or> \<not> sql_open q then Some (- 1, ctx)
          else do {
            (rc, ctx) \<leftarrow> (if sql_prepare q = 0
              then visit_rows kind getstat visit junk (sql_steps q) ctx
              else Some (sql_prepare q, ctx));
            Some (if closing q rc = 0 then 0 else - 1, ctx)
          })"

text \<open>The number of rows, by a query of its own; the count variable is null when \<^term>\<open>None\<close>.\<close>

definition vcm_library_count :: "int \<Rightarrow> int query \<Rightarrow> u32 option \<Rightarrow> int \<times> u32 option" where
  "vcm_library_count kind q count =
     (case count of
        None \<Rightarrow> (- 1, None)
      | Some old \<Rightarrow>
          if database_path kind = None \<or> \<not> sql_open q then (- 1, count)
          else
            let rc = (if sql_prepare q = 0 then (case sql_steps q of Some v # _ \<Rightarrow> 0 | _ \<Rightarrow> - 1) else sql_prepare q);
                (rc, count) =
                  (if rc = 0 then
                     (case sql_steps q of
                        Some v # _ \<Rightarrow> if v < 0 \<or> v > 0xffffffff then (- 1, count) else (0, Some (word_of_int v))
                      | _ \<Rightarrow> (rc, count))
                   else (rc, count))
            in (if closing q rc = 0 then 0 else - 1, count))"

definition vcm_library_resolve ::
    "int \<Rightarrow> u8 list option query \<Rightarrow> u8 list option \<Rightarrow> nat \<Rightarrow> (int \<times> u8 list option) option" where
  "vcm_library_resolve kind q path capacity =
     (if path = None \<or> capacity < 32 \<or> database_path kind = None \<or> \<not> sql_open q then Some (- 1, path)
      else do {
        let stored = (if sql_prepare q = 0 then (case sql_steps q of Some v # _ \<Rightarrow> v | _ \<Rightarrow> None) else None);
        (rc, path) \<leftarrow> physical_path kind stored path capacity;
        Some (closing q rc, path)
      })"

definition vcm_library_resolve_sidecar ::
    "u8 list option query \<Rightarrow> u8 list option \<Rightarrow> nat \<Rightarrow> (int \<times> u8 list option) option" where
  "vcm_library_resolve_sidecar q path capacity = do {
     (rc, path) \<leftarrow> vcm_library_resolve VCM_LIBRARY_VIDEO q path capacity;
     (case path of
        Some p \<Rightarrow>
          if rc = 0 then do { (rc, p) \<leftarrow> sidecar_path p capacity; Some (rc, Some p) }
          else Some (- 1, path)
      | None \<Rightarrow> Some (- 1, path))
   }"

subsection \<open>Paths stay inside the media folders\<close>

definition safe_suffix :: "u8 list \<Rightarrow> bool" where
  "safe_suffix t \<longleftrightarrow> t \<noteq> [] \<and> \<not> (\<exists>a b. t = a @ ascii ''..'' @ b) \<and> 0x5c \<notin> set t \<and> 0x3a \<notin> set t \<and> 0x0a \<notin> set t"

definition media_suffix :: "int \<Rightarrow> u8 list \<Rightarrow> u8 list option" where
  "media_suffix kind s =
     (if starts (stored_prefix kind) s then Some (drop (length (stored_prefix kind)) s)
      else if starts (physical_root kind) s then Some (drop (length (physical_root kind)) s) else None)"

lemma physical_root_nonzero: "0 \<notin> set (physical_root kind)" "physical_root kind \<noteq> []" "length (physical_root kind) \<le> 13"
proof -
  have "0 \<notin> set (ascii ''ux0:/picture/'')" "0 \<notin> set (ascii ''ux0:/music/'')" "0 \<notin> set (ascii ''ux0:/video/'')"
    by code_simp+
  then show "0 \<notin> set (physical_root kind)" by (simp add: physical_root_def del: ascii_simps)
qed (simp_all add: physical_root_def)

lemma media_suffix_nonzero: "media_suffix kind s = Some t \<Longrightarrow> 0 \<notin> set s \<Longrightarrow> 0 \<notin> set t"
  by (auto simp: media_suffix_def dest: in_set_dropD split: if_splits)

lemma physical_path_spec:
  assumes "32 \<le> capacity" and "length out = capacity" and "0 \<notin> set s"
  shows "\<exists>status out'. physical_path kind (Some s) (Some out) capacity = Some (status, Some out') \<and>
    length out' = capacity \<and>
    (case media_suffix kind s of
       Some t \<Rightarrow>
         if safe_suffix t \<and> length (physical_root kind @ t) < capacity
         then status = 0 \<and> c_string out' = Some (physical_root kind @ t) else status = - 1
     | None \<Rightarrow> status = - 1)"
proof (cases "media_suffix kind s")
  case None
  then show ?thesis
    using assms by (auto simp: physical_path_def media_suffix_def Let_def split: if_splits)
next
  case (Some t)
  have sfx: "(if starts (stored_prefix kind) s then Some (drop (length (stored_prefix kind)) s)
     else if starts (physical_root kind) s then Some (drop (length (physical_root kind)) s) else None) = Some t"
    using Some by (simp add: media_suffix_def)
  have safe: "(t = [] \<or> strstr t (ascii ''..'') \<noteq> None \<or> 0x5c \<in> set t \<or> 0x3a \<in> set t \<or> 0x0a \<in> set t) \<longleftrightarrow> \<not> safe_suffix t"
    by (simp only: safe_suffix_def strstr_None [symmetric]) argo
  have unf: "physical_path kind (Some s) (Some out) capacity =
    (if \<not> safe_suffix t then Some (- 1, Some out)
     else do { (n, out) \<leftarrow> snprintf out capacity (physical_root kind @ t);
       Some (if n > 0 \<and> n < int capacity then 0 else - 1, Some out) })"
    using assms(1) unfolding physical_path_def Let_def prod.case option.case sfx safe
    by (simp del: ascii_simps)
  show ?thesis
  proof (cases "safe_suffix t \<and> length (physical_root kind @ t) < capacity")
    case True
    have z: "0 \<notin> set (physical_root kind @ t)"
      using physical_root_nonzero(1) media_suffix_nonzero [OF Some assms(3)] by simp
    obtain o' where o': "snprintf out capacity (physical_root kind @ t) = Some (int (length (physical_root kind @ t)), o')"
      "c_string o' = Some (physical_root kind @ t)" "length o' = length out"
      using snprintf_fits [of "physical_root kind @ t" capacity out] True assms(2) z by auto
    have "0 < int (length (physical_root kind)) + int (length t)" using physical_root_nonzero(2) [of kind] by (cases "physical_root kind") simp_all
    then show ?thesis using True Some o' assms(2) by (simp add: unf)
  next
    case False
    then show ?thesis
      using snprintf_total [of capacity out "physical_root kind @ t"] assms(1,2) Some
      by (auto simp: unf)
  qed
qed

text \<open>
  C34. Library paths cannot leave the media folders: for any text the database stores the function returns without overrunning
  the path array, and a path is accepted only when it is the folder of the requested kind on \<open>ux0:\<close> followed by a non-empty
  rest without \<open>..\<close>, backslash, colon or line feed; the array then holds exactly this path.
\<close>

theorem physical_path_confined:
  assumes "32 \<le> capacity" and "length out = capacity" and "0 \<notin> set s"
  shows "\<exists>status out'. physical_path kind (Some s) (Some out) capacity = Some (status, Some out') \<and>
    length out' = capacity \<and> (status = 0 \<longrightarrow> (\<exists>t. c_string out' = Some (physical_root kind @ t) \<and>
    safe_suffix t \<and> (s = stored_prefix kind @ t \<or> s = physical_root kind @ t)))"
proof -
  have m: "s = stored_prefix kind @ t \<or> s = physical_root kind @ t" if "media_suffix kind s = Some t" for t
    using that by (auto simp: media_suffix_def starts_iff split: if_splits)
  show ?thesis
    using physical_path_spec [OF assms, of kind] m
    by (auto split: option.splits if_splits)
qed

theorem physical_path_confined_witness:
  "\<exists>out'. physical_path 0 (Some (ascii ''photo0:/a.jpg'')) (Some (replicate 32 1)) 32 = Some (0, Some out') \<and>
     (\<exists>t. c_string out' = Some (physical_root 0 @ t) \<and> safe_suffix t)"
proof -
  have e: "physical_path 0 (Some (ascii ''photo0:/a.jpg'')) (Some (replicate 32 1)) 32 =
    Some (0, Some (ascii ''ux0:/picture/a.jpg'' @ [0] @ replicate 13 1))"
    by code_simp
  have "0 \<notin> set (ascii ''photo0:/a.jpg'')" by code_simp
  from physical_path_confined [OF _ _ this, of 32 "replicate 32 1" 0] e show ?thesis by (simp del: ascii_simps) blast
qed

subsection \<open>Dates\<close>

text \<open>The MTP date form \<open>YYYYMMDDThhmmss\<close>.\<close>

definition mtp_date :: "u8 list \<Rightarrow> bool" where
  "mtp_date t \<longleftrightarrow> length t = 15 \<and> (\<forall>i < 15. if i = 8 then t ! i = 0x54 else is_digit (t ! i))"

lemma padded_dec_length: "0 < k \<Longrightarrow> n < 10 ^ k \<Longrightarrow> length (padded_dec k n) = k"
  using dec_text_length [of n k] by (simp add: padded_dec_def)

lemma padded_dec_digits: "list_all is_digit (padded_dec k n)"
  using dec_text_digits [of n] by (auto simp: padded_dec_def list_all_iff is_digit_def)

lemma mtp_dateI:
  assumes "length a = 8" "length b = 6" "list_all is_digit a" "list_all is_digit b"
  shows "mtp_date (a @ [0x54] @ b)"
  using assms by (auto simp: mtp_date_def nth_append nth_Cons' list_all_length)

lemma mtp_date_nonzero: "mtp_date t \<Longrightarrow> 0 \<notin> set t"
proof
  assume t: "mtp_date t" and "0 \<in> set t"
  then obtain i where "i < 15" "t ! i = 0" by (auto simp: mtp_date_def in_set_conv_nth)
  then show False using t by (auto simp: mtp_date_def is_digit_def split: if_splits)
qed

lemma stat_date_spec:
  assumes "length out = 24"
  shows "\<exists>out' t. mtp_stat_date out v = Some out' \<and> length out' = 24 \<and> c_string out' = Some t \<and> (t = [] \<or> mtp_date t)"
proof -
  let ?o = "out[0 := 0]"
  have e: "c_string ?o = Some []" using assms by (cases out) (simp_all add: c_string_def)
  have st: "store out 0 0 = Some ?o" using assms by (intro store_in) simp
  define bad where "bad \<longleftrightarrow> d_year v < 1970 \<or> d_year v > 9999 \<or> d_month v < 1 \<or> d_month v > 12 \<or> d_day v < 1 \<or>
    d_day v > 31 \<or> d_hour v > 23 \<or> d_minute v > 59 \<or> d_second v > 59"
  define a where "a = padded_dec 4 (d_year v) @ padded_dec 2 (d_month v) @ padded_dec 2 (d_day v)"
  define b where "b = padded_dec 2 (d_hour v) @ padded_dec 2 (d_minute v) @ padded_dec 2 (d_second v)"
  have unf: "mtp_stat_date out v = (if bad then Some ?o else do { (_, o') \<leftarrow> snprintf ?o 24 (a @ [0x54] @ b); Some o' })"
    by (simp add: mtp_stat_date_def st bad_def a_def b_def)
  show ?thesis
  proof (cases bad)
    case True
    then show ?thesis using unf e assms by simp
  next
    case False
    have "length a = 8" "length b = 6"
      using False by (simp_all add: a_def b_def bad_def padded_dec_length)
    then have d: "mtp_date (a @ [0x54] @ b)"
      by (rule mtp_dateI) (simp_all add: a_def b_def padded_dec_digits)
    have "\<exists>o'. snprintf ?o 24 (a @ [0x54] @ b) = Some (int (length (a @ [0x54] @ b)), o') \<and>
      c_string o' = Some (a @ [0x54] @ b) \<and> length o' = length ?o"
      by (rule snprintf_fits) (use \<open>length a = 8\<close> \<open>length b = 6\<close> assms mtp_date_nonzero [OF d] in simp_all)
    then show ?thesis using unf False d assms by auto
  qed
qed

lemma db_date_spec:
  assumes "length out = 24"
  shows "\<exists>out' t. mtp_db_date out v = Some out' \<and> length out' = 24 \<and> c_string out' = Some t \<and> (t = [] \<or> mtp_date t)"
proof -
  let ?o = "out[0 := 0]"
  have e: "c_string ?o = Some []" using assms by (cases out) (simp_all add: c_string_def)
  have st: "store out 0 0 = Some ?o" using assms by (intro store_in) simp
  show ?thesis
  proof (cases v)
    case None
    then show ?thesis using e st assms by (simp add: mtp_db_date_def)
  next
    case (Some s)
    define bad where "bad \<longleftrightarrow> length (take 24 s) < 19 \<or> c_at s 4 \<noteq> 0x2d \<or> c_at s 7 \<noteq> 0x2d \<or> c_at s 10 \<noteq> 0x54 \<or>
      c_at s 13 \<noteq> 0x3a \<or> c_at s 16 \<noteq> 0x3a \<or> list_ex (\<lambda>i. c_at s i < 0x30 \<or> c_at s i > 0x39) date_digits"
    define a where "a = take 4 s @ take 2 (drop 5 s) @ take 2 (drop 8 s)"
    define b where "b = take 2 (drop 11 s) @ take 2 (drop 14 s) @ take 2 (drop 17 s)"
    have unf: "mtp_db_date out v = (if bad then Some ?o else do { (_, o') \<leftarrow> snprintf ?o 24 (a @ [0x54] @ b); Some o' })"
      by (simp add: mtp_db_date_def st Some bad_def a_def b_def)
    show ?thesis
    proof (cases bad)
      case True
      then show ?thesis using unf e assms by simp
    next
      case False
      then have l: "19 \<le> length s" and dg: "\<forall>i \<in> set date_digits. is_digit (c_at s i)"
        by (auto simp: bad_def list_ex_iff is_digit_def not_less)
      have nth: "is_digit (s ! i)" if "i \<in> set date_digits" for i
      proof -
        have "i < length s" using that l by (auto simp: date_digits_def)
        with dg that show ?thesis by (auto simp: c_at_def)
      qed
      have t2: "take 2 (drop i s) = [s ! i, s ! Suc i]" if "Suc i < length s" for i
        using that by (simp add: numeral_2_eq_2 take_Suc_conv_app_nth Cons_nth_drop_Suc [symmetric])
      have t4: "take 4 s = [s ! 0, s ! 1, s ! 2, s ! 3]"
        using t2 [of 0] t2 [of 2] l take_add [of 2 2 s] by simp
      have "length a = 8" "length b = 6" "list_all is_digit a" "list_all is_digit b"
        using l nth by (simp_all add: a_def b_def t2 t4 date_digits_def)
      then have d: "mtp_date (a @ [0x54] @ b)" by (rule mtp_dateI)
      have "\<exists>o'. snprintf ?o 24 (a @ [0x54] @ b) = Some (int (length (a @ [0x54] @ b)), o') \<and>
        c_string o' = Some (a @ [0x54] @ b) \<and> length o' = length ?o"
        by (rule snprintf_fits) (use \<open>length a = 8\<close> \<open>length b = 6\<close> assms mtp_date_nonzero [OF d] in simp_all)
      then show ?thesis using unf False d assms by auto
    qed
  qed
qed


subsection \<open>The contract of the enumeration\<close>

text \<open>Database rows hold C strings.\<close>

definition text_ok :: "u8 list option \<Rightarrow> bool" where
  "text_ok t \<longleftrightarrow> (case t of None \<Rightarrow> True | Some s \<Rightarrow> 0 \<notin> set s)"

definition row_ok :: "media_row \<Rightarrow> bool" where
  "row_ok row \<longleftrightarrow> text_ok (r_path row) \<and> text_ok (r_title row) \<and> text_ok (r_created row) \<and>
     text_ok (r_artist row) \<and> text_ok (r_album row)"

text \<open>What a visitor may rely on.\<close>

definition media_valid :: "int \<Rightarrow> VcmLibraryMediaInfo \<Rightarrow> bool" where
  "media_valid kind m \<longleftrightarrow>
     (m_kind m = kind \<or> kind = VCM_LIBRARY_VIDEO \<and> m_kind m = 3) \<and> m_id m \<noteq> 0 \<and>
     m_name m \<noteq> [] \<and> 0 \<notin> set (m_name m) \<and> 0x2f \<notin> set (m_name m) \<and> 0x5c \<notin> set (m_name m) \<and>
     0x3a \<notin> set (m_name m) \<and> 0x0a \<notin> set (m_name m) \<and>
     text_ok (m_title m) \<and> text_ok (m_artist m) \<and> text_ok (m_album m) \<and>
     (m_created m = [] \<or> mtp_date (m_created m)) \<and> (m_modified m = [] \<or> mtp_date (m_modified m)) \<and>
     m_size m \<noteq> 0 \<and> m_size m \<le> 0xfffffff3 \<and> m_mtp_format m \<noteq> 0 \<and> m_mtp_format m \<noteq> 0x3001 \<and>
     m_thumb_width m \<le> 256 \<and> m_thumb_height m \<le> 256 \<and>
     (m_kind m \<noteq> VCM_LIBRARY_PHOTO \<longrightarrow> m_thumb_width m = 0 \<and> m_thumb_height m = 0)"

text \<open>
  The interface between the enumeration and its callback: on media descriptions that are valid for the
  kind, the callback returns without a fault and keeps its invariant.
\<close>

locale media_visitor =
  fixes visit :: "'c visitor" and inv :: "'c \<Rightarrow> bool"
  assumes visit_keeps: "inv c \<Longrightarrow> media_valid kind m \<Longrightarrow> 0 \<le> kind \<Longrightarrow> kind < 3 \<Longrightarrow>
    \<exists>rc c'. visit c m = Some (rc, c') \<and> inv c'"

lemma mtp_format_values:
  "mtp_format kind name \<in> {0, 0x3801, 0x380b, 0x3804, 0x3807, 0x380d, 0xb301, 0x3009, 0xb903, 0x3008, 0xb982}"
  by (auto simp: mtp_format_def Let_def split: option.splits)

lemma thumb_size_spec:
  "\<exists>w h. thumb_size_of kind icon = Some (w, h) \<and> w \<le> 256 \<and> h \<le> 256 \<and>
    (kind \<noteq> VCM_LIBRARY_PHOTO \<longrightarrow> w = 0 \<and> h = 0)"
proof (cases "kind = VCM_LIBRARY_PHOTO \<and> length icon = 8")
  case True
  have u: "(ucast v :: u16) \<le> 256" if "(v :: u32) \<le> 256" for v
    using that by (simp add: word_le_nat_alt unsigned_ucast_eq take_bit_nat_def)
  obtain h where h: "blob32 icon 0 = Some h" using True by (simp add: blob32_def)
  obtain w where w: "blob32 icon 4 = Some w" using True by (simp add: blob32_def)
  show ?thesis using True u by (auto simp: thumb_size_of_def h w)
qed (auto simp: thumb_size_of_def)

lemma eligible_word:
  assumes "eligible_size n"
  shows "(word_of_int n :: u64) \<noteq> 0" "(word_of_int n :: u64) \<le> 0xfffffff3"
proof -
  have "uint (word_of_int n :: u64) = n"
    using assms by (simp add: eligible_size_def uint_word_of_int)
  then show "(word_of_int n :: u64) \<noteq> 0" "(word_of_int n :: u64) \<le> 0xfffffff3"
    using assms by (auto simp: eligible_size_def word_le_def word_uint_eq_iff)
qed

lemma row_media_spec:
  assumes "row_ok row" and "kind \<in> {0, 1, 2}" and "name \<noteq> []" and "set name \<inter> {0, 0x2f, 0x5c, 0x3a, 0x0a} = {}"
    and "r_id row \<noteq> 0" and "mtp_format kind name \<noteq> 0" and "eligible_size (st_size stat)"
  shows "\<exists>m. row_media kind junk row name stat = Some m \<and> media_valid kind m \<and> m_name m = name \<and> m_kind m = kind"
proof -
  obtain c t where c: "mtp_db_date (map junk [0..<24]) (r_created row) = Some c" "length c = 24"
    "c_string c = Some t" "t = [] \<or> mtp_date t"
    using db_date_spec [of "map junk [0..<24]" "r_created row"] by auto
  have f: "fetch c 0 = Some (c ! 0)" using c(2) by (intro fetch_in) simp
  obtain c' t' where c': "(if c ! 0 = 0 then mtp_stat_date c (st_ctime stat) else Some c) = Some c'"
    "c_string c' = Some t'" "t' = [] \<or> mtp_date t'"
    using stat_date_spec [OF c(2), of "st_ctime stat"] c(3,4) by (cases "c ! 0 = 0") auto
  obtain d u where d: "mtp_stat_date (map junk [0..<24]) (st_mtime stat) = Some d" "c_string d = Some u" "u = [] \<or> mtp_date u"
    using stat_date_spec [of "map junk [0..<24]" "st_mtime stat"] by auto
  obtain w h where wh: "thumb_size_of kind (r_icon row) = Some (w, h)" "w \<le> 256" "h \<le> 256"
    "kind \<noteq> VCM_LIBRARY_PHOTO \<longrightarrow> w = 0 \<and> h = 0"
    using thumb_size_spec by blast
  note sz = eligible_word [OF assms(7)]
  have fm: "mtp_format kind name \<noteq> 0x3001" using mtp_format_values [of kind name] by auto
  have nm: "0 \<notin> set name" "0x2f \<notin> set name" "0x5c \<notin> set name" "0x3a \<notin> set name" "0x0a \<notin> set name"
    using assms(4) by auto
  show ?thesis
    using assms(1-3,5,6) nm sz fm wh c' d
    by (simp add: row_media_def c(1) f Let_def media_valid_def row_ok_def)
qed

text \<open>Replacing the extension of a name.\<close>

lemma c_string_append: "0 \<notin> set s \<Longrightarrow> c_string (s @ 0 # r) = Some s"
  by (rule c_string_prefix) simp_all

lemma sidecar_path_spec:
  assumes "c_string path = Some s" and "length path = capacity"
  shows "\<exists>status path'. sidecar_path path capacity = Some (status, path') \<and> length path' = capacity \<and>
    status \<in> {0, - 1} \<and>
    (status = 0 \<longrightarrow> (\<exists>dot < length s. c_string path' = Some (take dot s @ ascii ''.m4t'')))"
proof (cases "strrchr s 0x2e")
  case None
  then show ?thesis using assms by (simp add: sidecar_path_def)
next
  case (Some dot)
  then have dot: "dot < length s" using strrchr_Some by blast
  show ?thesis
  proof (cases "(case strrchr s 0x2f of None \<Rightarrow> False | Some slash \<Rightarrow> dot < slash) \<or> dot + 5 > capacity")
    case True
    then show ?thesis using assms Some by (simp add: sidecar_path_def)
  next
    case False
    let ?p = "take dot path @ ascii ''.m4t'' @ [0] @ drop (dot + 5) path"
    have ts: "take dot path = take dot s"
    proof -
      have "s = takeWhile (\<lambda>c. c \<noteq> 0) path" using assms(1) by (auto simp: c_string_def split: if_splits)
      then obtain rest where "path = s @ rest" by (metis takeWhile_dropWhile_id)
      with dot show ?thesis by simp
    qed
    have nz: "0 \<notin> set (take dot s @ ascii ''.m4t'')"
    proof -
      have "0 \<notin> set (ascii ''.m4t'')" by code_simp
      then show ?thesis using c_string_nonzero [OF assms(1)] by (auto dest: in_set_takeD simp del: ascii_simps)
    qed
    have sp: "sidecar_path path capacity = Some (0, ?p)"
      using assms False by (simp add: sidecar_path_def Some del: ascii_simps)
    have "?p = (take dot s @ ascii ''.m4t'') @ 0 # drop (dot + 5) path" by (simp add: ts)
    then have cs: "c_string ?p = Some (take dot s @ ascii ''.m4t'')" using c_string_append [OF nz] by simp
    have "dot + 5 \<le> length path" using False assms(2) by simp
    then have "length ?p = length path" by simp
    then have "length ?p = capacity" using assms(2) by (rule trans)
    with sp cs dot show ?thesis by auto
  qed
qed

text \<open>The characters a path in a media folder cannot have are not in its last component either.\<close>

lemma file_name_chars:
  assumes "strrchr s 0x2f = Some slash" and "s = root @ t" and "safe_suffix t" and "0x2f \<in> set root" and "last root = 0x2f" and "0 \<notin> set s"
  shows "set (drop (Suc slash) s) \<inter> {0, 0x2f, 0x5c, 0x3a, 0x0a} = {}"
proof -
  have sl: "slash < length s" "s ! slash = 0x2f" "0x2f \<notin> set (drop (Suc slash) s)"
    using assms(1) strrchr_Some by blast+
  have rt: "root \<noteq> []" using assms(4) by auto
  have "length root \<le> Suc slash"
  proof (rule ccontr)
    assume l: "\<not> length root \<le> Suc slash"
    have "drop (Suc slash) s = drop (Suc slash) root @ t" using l assms(2) by simp
    moreover have "last (drop (Suc slash) root) = 0x2f" "drop (Suc slash) root \<noteq> []" using l assms(5) by simp_all
    ultimately show False using sl(3) last_in_set [of "drop (Suc slash) root"] by simp
  qed
  then have "set (drop (Suc slash) s) \<subseteq> set t"
    using assms(2) by (auto dest: in_set_dropD)
  moreover have "0 \<notin> set (drop (Suc slash) s)" using assms(6) by (auto dest: in_set_dropD)
  ultimately show ?thesis using assms(3) sl(3) by (auto simp: safe_suffix_def)
qed

lemma stored_roots:
  "0x2f \<in> set (stored_prefix kind)" "last (stored_prefix kind) = 0x2f"
  "0x2f \<in> set (physical_root kind)" "last (physical_root kind) = 0x2f"
  by (simp_all add: stored_prefix_def physical_root_def)

lemma physical_path_name:
  assumes "0 \<notin> set s" and "strrchr s 0x2f = Some slash"
  shows "\<exists>status out' p. physical_path kind (Some s) (Some (map junk [0..<1024])) 1024 = Some (status, Some out') \<and>
    length out' = 1024 \<and> (0 \<le> status \<longrightarrow>
      c_string out' = Some p \<and> set (drop (Suc slash) s) \<inter> {0, 0x2f, 0x5c, 0x3a, 0x0a} = {})"
proof -
  obtain status out' where e: "physical_path kind (Some s) (Some (map junk [0..<1024])) 1024 = Some (status, Some out')"
    "length out' = 1024"
    "case media_suffix kind s of
       Some t \<Rightarrow>
         if safe_suffix t \<and> length (physical_root kind @ t) < 1024
         then status = 0 \<and> c_string out' = Some (physical_root kind @ t) else status = - 1
     | None \<Rightarrow> status = - 1"
    using physical_path_spec [of 1024 "map junk [0..<1024]" s kind] assms(1) by auto
  show ?thesis
  proof (cases "0 \<le> status")
    case False
    then show ?thesis using e(1,2) by simp
  next
    case True
    then obtain t where t: "media_suffix kind s = Some t" "safe_suffix t" "c_string out' = Some (physical_root kind @ t)"
      using e(3) by (auto split: option.splits if_splits)
    from t(1) consider "s = stored_prefix kind @ t" | "s = physical_root kind @ t"
      by (auto simp: media_suffix_def starts_iff split: if_splits)
    then have "set (drop (Suc slash) s) \<inter> {0, 0x2f, 0x5c, 0x3a, 0x0a} = {}"
      by cases (rule file_name_chars [OF assms(2) _ t(2) _ _ assms(1)], assumption, (rule stored_roots)+)+
    then show ?thesis using e(1,2) t(3) by blast
  qed
qed

context media_visitor
begin

lemma visit_sidecar_keeps:
  assumes "inv c" and "media_valid VCM_LIBRARY_VIDEO m" and "c_string path = Some p" and "length path = 1024"
  shows "\<exists>rc c'. visit_sidecar getstat visit junk path m c = Some (rc, c') \<and> inv c'"
proof -
  obtain st path' where sp: "sidecar_path path 1024 = Some (st, path')" "st \<in> {0, - 1}"
    "st = 0 \<longrightarrow> (\<exists>dot < length p. c_string path' = Some (take dot p @ ascii ''.m4t''))"
    using sidecar_path_spec [OF assms(3,4)] by blast
  show ?thesis
  proof (cases "st = 0")
    case False
    then show ?thesis using sp(1) assms(1) by (simp add: visit_sidecar_def)
  next
    case st: True
    then obtain q where q: "c_string path' = Some q" using sp(3) by blast
    show ?thesis
    proof (cases "\<exists>stat. getstat q = Some stat \<and> eligible_size (st_size stat) \<and> length (m_name m) < 256")
      case False
      then show ?thesis using sp(1) st q assms(1) by (auto simp: visit_sidecar_def split: option.splits)
    next
      case True
      then obtain stat where stat: "getstat q = Some stat" "eligible_size (st_size stat)" "length (m_name m) < 256" by blast
      let ?n = "m_name m @ [0] @ drop (length (m_name m) + 1) (map junk [0..<256])"
      have nz: "0 \<notin> set (m_name m)" using assms(2) by (simp add: media_valid_def)
      have cn: "c_string ?n = Some (m_name m)" using c_string_append [OF nz] by simp
      have ln: "length ?n = 256" using stat(3) by simp
      obtain st2 n' where n': "sidecar_path ?n 256 = Some (st2, n')"
        "st2 = 0 \<longrightarrow> (\<exists>dot < length (m_name m). c_string n' = Some (take dot (m_name m) @ ascii ''.m4t''))"
        using sidecar_path_spec [OF cn ln] by blast
      show ?thesis
      proof (cases "st2 = 0")
        case False
        then show ?thesis using sp(1) st q stat n'(1) assms(1) by (simp add: visit_sidecar_def)
      next
        case st2: True
        then obtain dot where nm: "c_string n' = Some (take dot (m_name m) @ ascii ''.m4t'')" using n'(2) by blast
        obtain d u where d: "mtp_stat_date (map junk [0..<24]) (st_mtime stat) = Some d" "c_string d = Some u" "u = [] \<or> mtp_date u"
          using stat_date_spec [of "map junk [0..<24]" "st_mtime stat"] by auto
        let ?m = "m\<lparr>m_kind := 3, m_name := take dot (m_name m) @ ascii ''.m4t'',
          m_size := word_of_int (st_size stat), m_mtp_format := 0xba82, m_title := Some [], m_artist := Some [], m_album := Some [],
          m_thumb_width := 0, m_thumb_height := 0, m_width := 0, m_height := 0, m_modified := u\<rparr>"
        have "media_valid VCM_LIBRARY_VIDEO ?m"
          using assms(2) d(3) eligible_word [OF stat(2)]
          by (auto simp: media_valid_def text_ok_def dest: in_set_takeD)
        then obtain rc c' where "visit c ?m = Some (rc, c')" "inv c'"
          using visit_keeps [OF assms(1)] by fastforce
        then show ?thesis
          using sp(1) st q stat n'(1) st2 nm d(1,2) by (simp add: visit_sidecar_def Let_def del: ascii_simps)
      qed
    qed
  qed
qed

lemma visit_row_keeps:
  assumes "inv c" and "row_ok row" and "kind \<in> {0, 1, 2}"
  shows "\<exists>rc c'. visit_row kind getstat visit junk row c = Some (rc, c') \<and> inv c'"
proof (cases "\<exists>s slash. r_path row = Some s \<and> strrchr s 0x2f = Some slash \<and>
    r_id row \<noteq> 0 \<and> drop (Suc slash) s \<noteq> [] \<and> mtp_format kind (drop (Suc slash) s) \<noteq> 0")
  case False
  then show ?thesis using assms(1) by (auto simp: visit_row_def Let_def split: option.splits)
next
  case True
  then obtain s slash where s: "r_path row = Some s" "strrchr s 0x2f = Some slash" "r_id row \<noteq> 0"
    "drop (Suc slash) s \<noteq> []" "mtp_format kind (drop (Suc slash) s) \<noteq> 0" by blast
  let ?name = "drop (Suc slash) s"
  have "0 \<notin> set s" using assms(2) s(1) by (simp add: row_ok_def text_ok_def)
  from physical_path_name [OF this s(2), of kind junk] obtain st path p where
    pp: "physical_path kind (Some s) (Some (map junk [0..<1024])) 1024 = Some (st, Some path)"
    "length path = 1024" "0 \<le> st \<longrightarrow> c_string path = Some p \<and> set ?name \<inter> {0, 0x2f, 0x5c, 0x3a, 0x0a} = {}" by blast
  show ?thesis
  proof (cases "\<exists>stat. 0 \<le> st \<and> getstat p = Some stat \<and> eligible_size (st_size stat)")
    case False
    then show ?thesis
      using s pp(1,3) assms(1) by (auto simp: visit_row_def Let_def split: option.splits)
  next
    case True
    then obtain stat where stat: "0 \<le> st" "getstat p = Some stat" "eligible_size (st_size stat)" by blast
    with pp(3) have cp: "c_string path = Some p" "set ?name \<inter> {0, 0x2f, 0x5c, 0x3a, 0x0a} = {}" by simp_all
    obtain m where m: "row_media kind junk row ?name stat = Some m" "media_valid kind m"
      using row_media_spec [OF assms(2,3) s(4) cp(2) s(3,5) stat(3)] by blast
    obtain rc c' where v: "visit c m = Some (rc, c')" "inv c'"
      using visit_keeps [OF assms(1) m(2)] assms(3) by auto
    show ?thesis
      using visit_sidecar_keeps [OF v(2) _ cp(1) pp(2), of m getstat junk] m s pp(1) stat cp(1) v
      by (auto simp: visit_row_def Let_def)
  qed
qed

lemma visit_rows_keeps:
  assumes "inv c" and "\<And>row. Some row \<in> set steps \<Longrightarrow> row_ok row" and "kind \<in> {0, 1, 2}"
  shows "\<exists>rc c'. visit_rows kind getstat visit junk steps c = Some (rc, c') \<and> inv c'"
  using assms(1,2)
proof (induction steps arbitrary: c)
  case (Cons step steps)
  show ?case
  proof (cases step)
    case (Some row)
    obtain rc c' where v: "visit_row kind getstat visit junk row c = Some (rc, c')" "inv c'"
      using visit_row_keeps [OF Cons.prems(1) Cons.prems(2) assms(3), of row getstat junk] Some by auto
    show ?thesis using Cons.IH [OF v(2)] Cons.prems(2) Some v by simp
  qed (use Cons.prems in simp)
qed simp

lemma enumerate_keeps:
  assumes "inv c" and "\<And>row. Some row \<in> set (sql_steps q) \<Longrightarrow> row_ok row"
  shows "\<exists>rc c'. vcm_library_enumerate kind getstat q junk (Some visit) c = Some (rc, c') \<and> inv c' \<and> rc \<in> {0, - 1}"
proof (cases "database_path kind = None \<or> \<not> sql_open q \<or> sql_prepare q \<noteq> 0")
  case True
  then show ?thesis using assms(1) by (auto simp: vcm_library_enumerate_def)
next
  case False
  then have "kind \<in> {0, 1, 2}" by (auto simp: database_path_def split: if_splits)
  then obtain rc c' where "visit_rows kind getstat visit junk (sql_steps q) c = Some (rc, c')" "inv c'"
    using visit_rows_keeps [OF assms] by blast
  then show ?thesis using False by (auto simp: vcm_library_enumerate_def)
qed

end

subsection \<open>Lookups by identifier\<close>

lemma snprintf_terminated:
  assumes "0 < capacity" and "capacity \<le> length out" and "0 \<notin> set t"
  shows "\<exists>out'. snprintf out capacity t = Some (int (length t), out') \<and> length out' = length out \<and>
    c_string out' = Some (take (capacity - 1) t)"
proof -
  let ?s = "take (capacity - 1) t"
  have "snprintf out capacity t = Some (int (length t), ?s @ 0 # drop (Suc (length ?s)) out)"
    using assms(1,2) by (auto simp: snprintf_def Let_def min_def)
  moreover have "c_string (?s @ 0 # drop (Suc (length ?s)) out) = Some ?s"
    using assms(3) by (intro c_string_append) (auto dest: in_set_takeD)
  ultimately show ?thesis using assms(1,2) by auto
qed

text \<open>A lookup by identifier never faults, and the path it accepts is a string.\<close>

lemma physical_path_total:
  assumes "text_ok stored" and "32 \<le> capacity" and "length out = capacity"
  shows "\<exists>status out'. physical_path kind stored (Some out) capacity = Some (status, Some out') \<and> length out' = capacity \<and>
    status \<in> {0, - 1} \<and> (status = 0 \<longrightarrow> (\<exists>p. c_string out' = Some p))"
proof (cases stored)
  case None
  then show ?thesis using assms(3) by (simp add: physical_path_def)
next
  case (Some s)
  then have "0 \<notin> set s" using assms(1) by (simp add: text_ok_def)
  from physical_path_spec [OF assms(2,3) this, of kind] show ?thesis
    unfolding Some by (auto split: option.splits if_splits)
qed

definition paths_ok :: "u8 list option query \<Rightarrow> bool" where
  "paths_ok q \<longleftrightarrow> (\<forall>v. Some v \<in> set (sql_steps q) \<longrightarrow> text_ok v)"

lemma resolve_total:
  assumes "paths_ok q" and "32 \<le> capacity" and "length out = capacity"
  shows "\<exists>rc out'. vcm_library_resolve kind q (Some out) capacity = Some (rc, Some out') \<and> length out' = capacity \<and>
    rc \<in> {0, - 1} \<and> (rc = 0 \<longrightarrow> (\<exists>p. c_string out' = Some p))"
proof (cases "database_path kind = None \<or> \<not> sql_open q")
  case True
  then show ?thesis using assms(2,3) by (auto simp: vcm_library_resolve_def)
next
  case False
  define stored where "stored = (if sql_prepare q = 0 then (case sql_steps q of Some v # _ \<Rightarrow> v | _ \<Rightarrow> None) else None)"
  have "text_ok stored"
    using assms(1) unfolding stored_def paths_ok_def
    by (auto simp: text_ok_def split: list.splits option.splits)
  from physical_path_total [OF this assms(2,3), of kind] obtain st out' where
    "physical_path kind stored (Some out) capacity = Some (st, Some out')" "length out' = capacity"
    "st \<in> {0, - 1}" "st = 0 \<longrightarrow> (\<exists>p. c_string out' = Some p)" by blast
  then show ?thesis
    using False assms(2) by (auto simp: vcm_library_resolve_def stored_def [symmetric] closing_def Let_def)
qed

lemma resolve_sidecar_total:
  assumes "paths_ok q" and "32 \<le> capacity" and "length out = capacity"
  shows "\<exists>rc out'. vcm_library_resolve_sidecar q (Some out) capacity = Some (rc, Some out') \<and>
    rc \<in> {0, - 1} \<and> (rc = 0 \<longrightarrow> (\<exists>p. c_string out' = Some p))"
proof -
  obtain rc out' where r: "vcm_library_resolve VCM_LIBRARY_VIDEO q (Some out) capacity = Some (rc, Some out')"
    "length out' = capacity" "rc = 0 \<longrightarrow> (\<exists>p. c_string out' = Some p)"
    using resolve_total [OF assms] by blast
  show ?thesis
  proof (cases "rc = 0")
    case False
    then show ?thesis by (simp add: vcm_library_resolve_sidecar_def r(1))
  next
    case True
    then obtain p where "c_string out' = Some p" using r(3) by blast
    from sidecar_path_spec [OF this r(2)] show ?thesis using True by (auto simp: vcm_library_resolve_sidecar_def r(1))
  qed
qed

end
