(* ===== verification/Library_Listing.thy ===== *)
theory Library_Listing
  imports Media_Library
begin

text \<open>
  The listings of \<^verbatim>\<open>src/vita/library.c\<close> for the desktop client: pages of registered media as JSON text in the
  caller's array, and photo icons. The lemmas show that the text is exactly the JSON object of the rows, that it is never written past
  the array, and that every string in it decodes to the text it was made from.
\<close>

subsection \<open>Listings as JSON\<close>

text \<open>The output array with the number of bytes used; an operation also returns its status.\<close>

type_synonym json_buf = "u8 list \<times> nat"

definition append_json :: "nat \<Rightarrow> u8 list \<Rightarrow> json_buf \<Rightarrow> (int \<times> json_buf) option" where
  "append_json cap s b =
     (case b of (out, used) \<Rightarrow>
        let n = min (length s) cap in
        if n \<ge> cap \<or> used > cap - n - 1 then Some (- 1, b)
        else if used + n < length out then
          Some (0, (take used out @ take n s @ [0] @ drop (used + n + 1) out, used + n))
        else None)"

text \<open>The next step of a chain of output calls, taken when the previous one succeeded.\<close>

definition and_then ::
    "(json_buf \<Rightarrow> (int \<times> json_buf) option) \<Rightarrow> (json_buf \<Rightarrow> (int \<times> json_buf) option) \<Rightarrow> json_buf \<Rightarrow>
      (int \<times> json_buf) option" where
  "and_then f g b = do { (rc, b) \<leftarrow> f b; if rc < 0 then Some (- 1, b) else g b }"

definition hex4 :: "u8 \<Rightarrow> u8 list" where
  "hex4 c = (let d = (\<lambda>n. if n < 10 then 0x30 + of_nat n else 0x57 + of_nat n)
     in [0x30, 0x30, d (unat c div 16), d (unat c mod 16)])"

definition quoted_char :: "nat \<Rightarrow> u8 \<Rightarrow> json_buf \<Rightarrow> (int \<times> json_buf) option" where
  "quoted_char cap c b =
     (if c = 0x22 \<or> c = 0x5c then append_json cap [0x5c, c] b
      else if c < 32 then append_json cap ([0x5c, 0x75] @ hex4 c) b
      else
        (case b of (out, used) \<Rightarrow>
           if used + 1 \<ge> cap then Some (- 1, b)
           else do {
             out \<leftarrow> store out used c;
             out \<leftarrow> store out (used + 1) 0;
             Some (0, (out, used + 1))
           }))"

fun quoted_loop :: "nat \<Rightarrow> u8 list \<Rightarrow> json_buf \<Rightarrow> (int \<times> json_buf) option" where
  "quoted_loop cap [] b = Some (0, b)"
| "quoted_loop cap (c # s) b = do {
     (rc, b) \<leftarrow> quoted_char cap c b;
     if rc < 0 then Some (- 1, b) else quoted_loop cap s b
   }"

text \<open>Going back from position 256 over the continuation bytes of a cut character.\<close>

fun clip_back :: "u8 list \<Rightarrow> nat \<Rightarrow> nat" where
  "clip_back s 0 = 0"
| "clip_back s (Suc n) = (if c_at s (Suc n) AND 0xc0 = 0x80 then clip_back s n else Suc n)"

definition clip_limit :: "u8 list \<Rightarrow> nat" where
  "clip_limit s = (let n = min (length s) 257 in if n > 256 then clip_back s 256 else n)"

definition append_quoted :: "nat \<Rightarrow> u8 list option \<Rightarrow> json_buf \<Rightarrow> (int \<times> json_buf) option" where
  "append_quoted cap s =
     and_then (append_json cap [0x22])
       (and_then (quoted_loop cap (let t = (case s of None \<Rightarrow> [] | Some t \<Rightarrow> t) in take (clip_limit t) t))
         (append_json cap [0x22]))"

record list_row =
  l_id :: u64
  l_title :: "u8 list option"
  l_path :: "u8 list option"
  l_size :: u64
  l_created :: "u8 list option"
  l_artist :: "u8 list option"
  l_album :: "u8 list option"
  l_thumb :: bool
  l_width :: int
  l_height :: int

text \<open>Text formatted into a local array of the given size and read back from it.\<close>

definition formatted :: "(nat \<Rightarrow> u8) \<Rightarrow> nat \<Rightarrow> u8 list \<Rightarrow> u8 list option" where
  "formatted junk size0 s = do { (_, out) \<leftarrow> snprintf (map junk [0..<size0]) size0 s; c_string out }"

definition list_sidecar_size ::
    "int \<Rightarrow> (u8 list \<Rightarrow> SceIoStat option) \<Rightarrow> (nat \<Rightarrow> u8) \<Rightarrow> u8 list option \<Rightarrow> nat option" where
  "list_sidecar_size kind getstat junk path =
     (if kind \<noteq> VCM_LIBRARY_VIDEO then Some 0
      else do {
        (status, sidecar) \<leftarrow> physical_path kind path (Some (map junk [0..<1024])) 1024;
        (case sidecar of
           None \<Rightarrow> None
         | Some sidecar \<Rightarrow>
             if status \<noteq> 0 then Some 0
             else do {
               (status, sidecar) \<leftarrow> sidecar_path sidecar 1024;
               if status \<noteq> 0 then Some 0
               else do {
                 p \<leftarrow> c_string sidecar;
                 Some (case getstat p of None \<Rightarrow> 0 | Some stat \<Rightarrow> if st_size stat > 0 then nat (st_size stat) else 0)
               }
             })
      })"

definition base_name :: "u8 list option \<Rightarrow> u8 list option" where
  "base_name path =
     (case path of
        None \<Rightarrow> None
      | Some p \<Rightarrow> (case strrchr p 0x2f of None \<Rightarrow> Some p | Some i \<Rightarrow> Some (drop (Suc i) p)))"

definition append_row ::
    "int \<Rightarrow> (u8 list \<Rightarrow> SceIoStat option) \<Rightarrow> (nat \<Rightarrow> u8) \<Rightarrow> nat \<Rightarrow> bool \<Rightarrow> list_row \<Rightarrow> json_buf \<Rightarrow>
      (int \<times> json_buf) option" where
  "append_row kind getstat junk cap first row b = do {
     head \<leftarrow> formatted junk 160 ((if first then [] else ascii '','') @ ascii ''{\"id\":\"'' @
       dec_text (unat (l_id row)) @ ascii ''\",\"title\":'');
     sized \<leftarrow> formatted junk 160 (ascii '',\"size\":'' @ dec_text (unat (l_size row)) @ ascii '',\"created\":'');
     (rc, b) \<leftarrow>
       and_then (append_json cap head)
       (and_then (append_quoted cap (l_title row))
       (and_then (append_json cap (ascii '',\"name\":''))
       (and_then (append_quoted cap (base_name (l_path row)))
       (and_then (append_json cap sized)
       (and_then (append_quoted cap (l_created row))
       (and_then (append_json cap (ascii '',\"artist\":''))
       (and_then (append_quoted cap (l_artist row))
       (and_then (append_json cap (ascii '',\"album\":''))
         (append_quoted cap (l_album row)))))))))) b;
     if rc < 0 then Some (- 1, b)
     else do {
       sidecar \<leftarrow> list_sidecar_size kind getstat junk (l_path row);
       tail \<leftarrow> formatted junk 160 (ascii '',\"thumbnail\":'' @ (if l_thumb row then ascii ''true'' else ascii ''false'') @
         ascii '',\"width\":'' @ int_text (l_width row) @ ascii '',\"height\":'' @ int_text (l_height row) @
         ascii '',\"sidecar_size\":'' @ dec_text sidecar @ ascii ''}'');
       append_json cap tail b
     }
   }"

text \<open>The row loop: the status, the number of rows counted (one more than the limit when there are more) and the buffer.\<close>

fun list_rows ::
    "int \<Rightarrow> (u8 list \<Rightarrow> SceIoStat option) \<Rightarrow> (nat \<Rightarrow> u8) \<Rightarrow> nat \<Rightarrow> nat \<Rightarrow> list_row option list \<Rightarrow> nat \<Rightarrow> json_buf \<Rightarrow>
      (int \<times> nat \<times> json_buf) option" where
  "list_rows kind getstat junk cap limit [] count b = Some (0, count, b)"
| "list_rows kind getstat junk cap limit (None # steps) count b = Some (- 1, count, b)"
| "list_rows kind getstat junk cap limit (Some row # steps) count b =
     (if count = limit then Some (0, count + 1, b)
      else do {
        (rc, b) \<leftarrow> append_row kind getstat junk cap (count = 0) row b;
        if rc < 0 then Some (- 1, count, b)
        else list_rows kind getstat junk cap limit steps (count + 1) b
      })"

definition vcm_library_list ::
    "int \<Rightarrow> int \<Rightarrow> int \<Rightarrow> (u8 list \<Rightarrow> SceIoStat option) \<Rightarrow> list_row query \<Rightarrow> (nat \<Rightarrow> u8) \<Rightarrow> u8 list option \<Rightarrow> nat \<Rightarrow>
      (int \<times> u8 list option) option" where
  "vcm_library_list kind offset limit getstat q junk json capacity =
     (case json of
        None \<Rightarrow> Some (- 1, None)
      | Some out \<Rightarrow>
          if capacity < 256 \<or> offset < 0 \<or> limit < 1 \<or> limit > 32 \<or> database_path kind = None \<or> \<not> sql_open q
          then Some (- 1, json)
          else do {
            (rc, b) \<leftarrow> (if sql_prepare q = 0 then append_json capacity (ascii ''{\"items\":['') (out, 0)
              else Some (sql_prepare q, (out, 0)));
            (rc, count, b) \<leftarrow> (if rc = 0
              then list_rows kind getstat junk capacity (nat limit) (sql_steps q) 0 b else Some (rc, 0, b));
            tail \<leftarrow> formatted junk 72 (ascii ''],\"next_offset\":'' @
              int_text (if int count > limit then offset + limit else - 1) @ ascii ''}'');
            (rc, b) \<leftarrow> (if rc = 0 then append_json capacity tail b else Some (rc, b));
            Some (if closing q rc = 0 then int (snd b) else - 1, Some (fst b))
          })"

subsection \<open>Icons\<close>

text \<open>
  A photo's identifier with the result of the icon query for it (the blob, no row, a failed binding or a failed step) and the
  status of resetting that query. Every icon is written as a 12-byte header and the data.
\<close>

datatype icon_step = Icon "u8 list" | No_Icon | Bind_Error int | Icon_Error

definition write_icon :: "u64 \<Rightarrow> u8 list \<Rightarrow> ('c \<Rightarrow> u8 list \<Rightarrow> (int \<times> 'c) option) \<Rightarrow> 'c \<Rightarrow> (int \<times> 'c) option" where
  "write_icon ident data write ctx = do {
     let size0 = (if length data < 128 \<or> length data > 65536 then 0 else length data);
     (rc, ctx) \<leftarrow> write ctx (le64 ident @ le32 (of_nat size0));
     if rc < 0 then Some (- 1, ctx)
     else if size0 = 0 then Some (0, ctx)
     else do { (rc, ctx) \<leftarrow> write ctx data; Some (if rc < 0 then - 1 else 0, ctx) }
   }"

fun icon_rows ::
    "(u64 \<times> icon_step \<times> int) option list \<Rightarrow> ('c \<Rightarrow> u8 list \<Rightarrow> (int \<times> 'c) option) \<Rightarrow> 'c \<Rightarrow> (int \<times> 'c) option" where
  "icon_rows [] write ctx = Some (0, ctx)"
| "icon_rows (None # steps) write ctx = Some (- 1, ctx)"
| "icon_rows (Some (ident, icon, reset) # steps) write ctx =
     (case icon of
        Bind_Error rc \<Rightarrow> Some (rc, ctx)
      | Icon_Error \<Rightarrow> Some (- 1, ctx)
      | _ \<Rightarrow> do {
          (rc, ctx) \<leftarrow> write_icon ident (case icon of Icon d \<Rightarrow> d | _ \<Rightarrow> []) write ctx;
          let rc = (if reset \<noteq> 0 then - 1 else rc);
          if rc \<noteq> 0 then Some (rc, ctx) else icon_rows steps write ctx
        })"

definition vcm_library_photo_icons ::
    "int \<Rightarrow> int \<Rightarrow> (u64 \<times> icon_step \<times> int) query \<Rightarrow> ('c \<Rightarrow> u8 list \<Rightarrow> (int \<times> 'c) option) option \<Rightarrow> 'c \<Rightarrow> (int \<times> 'c) option" where
  "vcm_library_photo_icons offset limit q write ctx =
     (case write of
        None \<Rightarrow> Some (- 1, ctx)
      | Some write \<Rightarrow>
          if offset < 0 \<or> limit < 1 \<or> limit > 32 \<or> \<not> sql_open q then Some (- 1, ctx)
          else do {
            (rc, ctx) \<leftarrow> (if sql_prepare q = 0 then icon_rows (sql_steps q) write ctx else Some (sql_prepare q, ctx));
            Some (closing q rc, ctx)
          })"

text \<open>The blob of one photo's icon, null when \<^term>\<open>None\<close>, copied into the caller's array.\<close>

definition vcm_library_photo_icon ::
    "u64 \<Rightarrow> u8 list option query \<Rightarrow> u8 list option \<Rightarrow> nat \<Rightarrow> (int \<times> u8 list option) option" where
  "vcm_library_photo_icon ident q data capacity =
     (case data of
        None \<Rightarrow> Some (- 1, None)
      | Some out \<Rightarrow>
          if ident = 0 \<or> ident > 0x7fffffffffffffff \<or> capacity < 128 \<or> \<not> sql_open q then Some (- 1, data)
          else do {
            (size0, out) \<leftarrow>
              (if sql_prepare q = 0 then
                 (case sql_steps q of
                    Some (Some blob) # _ \<Rightarrow>
                      if length blob \<ge> 128 \<and> length blob \<le> capacity then
                        if length blob \<le> length out
                        then Some (int (length blob), blob @ drop (length blob) out) else None
                      else Some (- 1, out)
                  | _ \<Rightarrow> Some (- 1, out))
               else Some (- 1, out));
            Some (closing q size0, Some out)
          })"

subsection \<open>JSON output\<close>

text \<open>
  What an output call promises: it writes exactly the text \<open>t\<close> behind the bytes already written when the text and its
  terminator fit, fails otherwise, and stays inside the array.
\<close>

definition terminated :: "u8 list \<Rightarrow> nat \<Rightarrow> bool" where
  "terminated out used \<longleftrightarrow> used = 0 \<or> out ! used = 0"

definition outputs :: "nat \<Rightarrow> (json_buf \<Rightarrow> (int \<times> json_buf) option) \<Rightarrow> u8 list \<Rightarrow> bool" where
  "outputs cap f t \<longleftrightarrow> (\<forall>out used. length out = cap \<longrightarrow> used < cap \<longrightarrow> terminated out used \<longrightarrow>
     (if used + length t < cap
      then \<exists>out'. f (out, used) = Some (0, (out', used + length t)) \<and> length out' = cap \<and>
        take (used + length t) out' = take used out @ t \<and> terminated out' (used + length t)
      else \<exists>out' used'. f (out, used) = Some (- 1, (out', used')) \<and> length out' = cap \<and> used' < cap))"

lemma outputs_fits:
  assumes "outputs cap f t" "length out = cap" "used + length t < cap" "terminated out used"
  obtains out' where "f (out, used) = Some (0, (out', used + length t))" "length out' = cap"
    "take (used + length t) out' = take used out @ t" "terminated out' (used + length t)"
  using assms unfolding outputs_def by (metis (no_types, lifting) add_lessD1)

lemma outputs_full:
  assumes "outputs cap f t" "length out = cap" "used < cap" "\<not> used + length t < cap" "terminated out used"
  obtains out' used' where "f (out, used) = Some (- 1, (out', used'))" "length out' = cap" "used' < cap"
  using assms unfolding outputs_def by (metis (no_types, lifting))

lemma outputsI:
  assumes "\<And>out used. length out = cap \<Longrightarrow> used < cap \<Longrightarrow> terminated out used \<Longrightarrow> used + length t < cap \<Longrightarrow>
      \<exists>out'. f (out, used) = Some (0, (out', used + length t)) \<and> length out' = cap \<and>
        take (used + length t) out' = take used out @ t \<and> terminated out' (used + length t)"
    and "\<And>out used. length out = cap \<Longrightarrow> used < cap \<Longrightarrow> terminated out used \<Longrightarrow> \<not> used + length t < cap \<Longrightarrow>
      \<exists>out' used'. f (out, used) = Some (- 1, (out', used')) \<and> length out' = cap \<and> used' < cap"
  shows "outputs cap f t"
  unfolding outputs_def using assms by simp

lemma outputs_append: "outputs cap (append_json cap s) s"
proof (rule outputsI, goal_cases)
  case (1 out used)
  let ?o = "take used out @ s @ [0] @ drop (used + length s + 1) out"
  have "append_json cap s (out, used) = Some (0, (?o, used + length s))"
    using 1 by (auto simp: append_json_def Let_def min_def)
  moreover have "length ?o = cap" "take (used + length s) ?o = take used out @ s" "?o ! (used + length s) = 0"
    using 1 by (simp_all add: nth_append)
  ultimately show ?case by (auto simp: terminated_def)
next
  case (2 out used)
  then show ?case by (auto simp: append_json_def Let_def min_def)
qed

lemma outputs_nothing: "outputs cap (\<lambda>b. Some (0, b)) []"
  by (simp add: outputs_def)

lemma outputs_and_then:
  assumes f: "outputs cap f s" and g: "outputs cap g t"
  shows "outputs cap (and_then f g) (s @ t)"
proof (rule outputsI, goal_cases)
  case (1 out used)
  then obtain o1 where o1: "f (out, used) = Some (0, (o1, used + length s))" "length o1 = cap"
    "take (used + length s) o1 = take used out @ s" "terminated o1 (used + length s)"
    using outputs_fits [OF f, of out used] by auto
  then obtain o2 where "g (o1, used + length s) = Some (0, (o2, used + length s + length t))" "length o2 = cap"
    "take (used + length s + length t) o2 = take (used + length s) o1 @ t" "terminated o2 (used + length s + length t)"
    using outputs_fits [OF g, of o1 "used + length s"] 1 by auto
  then show ?case using o1 by (simp add: and_then_def add.assoc)
next
  case (2 out used)
  show ?case
  proof (cases "used + length s < cap")
    case True
    then obtain o1 where o1: "f (out, used) = Some (0, (o1, used + length s))" "length o1 = cap" "terminated o1 (used + length s)"
      using outputs_fits [OF f, of out used] 2 by auto
    then obtain o2 u2 where "g (o1, used + length s) = Some (- 1, (o2, u2))" "length o2 = cap" "u2 < cap"
      using outputs_full [OF g, of o1 "used + length s"] 2 True by auto
    then show ?thesis using o1 by (simp add: and_then_def)
  next
    case False
    then obtain o1 u1 where "f (out, used) = Some (- 1, (o1, u1))" "length o1 = cap" "u1 < cap"
      using outputs_full [OF f, of out used] 2 by auto
    then show ?thesis by (simp add: and_then_def)
  qed
qed

text \<open>JSON string syntax: the escaped form of a byte, and of a text.\<close>

definition json_escape :: "u8 \<Rightarrow> u8 list" where
  "json_escape c =
     (if c = 0x22 \<or> c = 0x5c then [0x5c, c] else if c < 32 then [0x5c, 0x75] @ hex4 c else [c])"

definition json_string :: "u8 list option \<Rightarrow> u8 list" where
  "json_string s = [0x22] @ concat (map json_escape
     (case s of None \<Rightarrow> [] | Some t \<Rightarrow> take (clip_limit t) t)) @ [0x22]"

lemma outputs_char: "outputs cap (quoted_char cap c) (json_escape c)"
proof (cases "c = 0x22 \<or> c = 0x5c \<or> c < 32")
  case True
  have "quoted_char cap c = append_json cap (json_escape c)"
    using True by (auto simp: quoted_char_def json_escape_def fun_eq_iff)
  then show ?thesis by (simp add: outputs_append)
next
  case False
  then have e: "json_escape c = [c]" by (simp add: json_escape_def)
  show ?thesis unfolding e
  proof (rule outputsI, goal_cases)
    case (1 out used)
    have "store out used c = Some (out[used := c])" using 1 by (intro store_in) simp
    moreover have "store (out[used := c]) (used + 1) 0 = Some (out[used := c, used + 1 := 0])" using 1 by (intro store_in) simp
    ultimately show ?case using False 1
      by (auto simp: quoted_char_def take_Suc_conv_app_nth nth_list_update terminated_def)
  next
    case (2 out used)
    then show ?case using False by (auto simp: quoted_char_def)
  qed
qed

lemma quoted_loop_and_then: "quoted_loop cap (c # s) = and_then (quoted_char cap c) (quoted_loop cap s)"
  by (simp add: fun_eq_iff and_then_def)

lemma outputs_loop: "outputs cap (quoted_loop cap s) (concat (map json_escape s))"
proof (induction s)
  case Nil
  have "quoted_loop cap [] = (\<lambda>b. Some (0, b))" by (simp add: fun_eq_iff)
  then show ?case by (simp add: outputs_nothing)
next
  case (Cons c s)
  then show ?case using outputs_and_then [OF outputs_char Cons.IH] by (simp add: quoted_loop_and_then)
qed

lemma outputs_quoted: "outputs cap (append_quoted cap s) (json_string s)"
proof -
  have "(let t = case s of None \<Rightarrow> [] | Some t \<Rightarrow> t in take (clip_limit t) t) =
    (case s of None \<Rightarrow> [] | Some t \<Rightarrow> take (clip_limit t) t)"
    by (cases s) simp_all
  then show ?thesis
    unfolding append_quoted_def json_string_def
    by (simp only:) (intro outputs_and_then outputs_append outputs_loop)
qed

text \<open>Reading a JSON string body back.\<close>

definition hex_value :: "u8 \<Rightarrow> nat" where
  "hex_value c = (if c \<le> 0x39 then unat c - 0x30 else unat c - 0x57)"

fun json_decode :: "u8 list \<Rightarrow> u8 list" where
  "json_decode [] = []"
| "json_decode (x # s) =
     (if x \<noteq> 0x5c then x # json_decode s
      else
        (case s of
           [] \<Rightarrow> []
         | e # r \<Rightarrow>
             if e = 0x75 then
               of_nat (((hex_value (r ! 0) * 16 + hex_value (r ! 1)) * 16 + hex_value (r ! 2)) * 16 + hex_value (r ! 3)) #
               json_decode (drop 4 r)
             else e # json_decode r))"

text \<open>No quotation mark outside an escape, and no control character.\<close>

fun json_body :: "u8 list \<Rightarrow> bool" where
  "json_body [] = True"
| "json_body (x # s) =
     (if x \<noteq> 0x5c then 32 \<le> x \<and> x \<noteq> 0x22 \<and> json_body s
      else
        (case s of
           [] \<Rightarrow> False
         | e # r \<Rightarrow>
             if e = 0x75 then 4 \<le> length r \<and>
               list_all (\<lambda>c. 0x30 \<le> c \<and> c \<le> 0x39 \<or> 0x61 \<le> c \<and> c \<le> 0x66) (take 4 r) \<and> json_body (drop 4 r)
             else (e = 0x22 \<or> e = 0x5c) \<and> json_body r))"

lemma hex_digit:
  assumes "n < 16"
  defines "d \<equiv> (if n < 10 then 0x30 + of_nat n else 0x57 + of_nat n) :: u8"
  shows "hex_value d = n" "0x30 \<le> d \<and> d \<le> 0x39 \<or> 0x61 \<le> d \<and> d \<le> 0x66"
proof -
  have u: "unat d = (if n < 10 then 0x30 + n else 0x57 + n)"
    using assms by (simp add: unat_word_ariths unat_of_nat)
  show "hex_value d = n" "0x30 \<le> d \<and> d \<le> 0x39 \<or> 0x61 \<le> d \<and> d \<le> 0x66"
    using assms(1) by (simp_all add: hex_value_def word_le_nat_alt u)
qed

lemma hex4_shape:
  obtains c d where "hex4 x = [0x30, 0x30, c, d]" "hex_value c = unat x div 16" "hex_value d = unat x mod 16"
    "0x30 \<le> c \<and> c \<le> 0x39 \<or> 0x61 \<le> c \<and> c \<le> 0x66" "0x30 \<le> d \<and> d \<le> 0x39 \<or> 0x61 \<le> d \<and> d \<le> 0x66"
proof -
  have "unat x < 256" using unsigned_less [of x, where ?'a = nat] by simp
  then have "unat x div 16 < 16" "unat x mod 16 < 16" by simp_all
  note d = hex_digit [OF this(1)] hex_digit [OF this(2)]
  show thesis by (rule that [OF _ d(1) d(3) d(2) d(4)]) (simp add: hex4_def Let_def)
qed

lemma json_escape_decode:
  "json_decode (json_escape x @ r) = x # json_decode r" "json_body (json_escape x @ r) = json_body r"
proof -
  obtain c d where h: "hex4 x = [0x30, 0x30, c, d]" "hex_value c = unat x div 16" "hex_value d = unat x mod 16"
    "0x30 \<le> c \<and> c \<le> 0x39 \<or> 0x61 \<le> c \<and> c \<le> 0x66" "0x30 \<le> d \<and> d \<le> 0x39 \<or> 0x61 \<le> d \<and> d \<le> 0x66"
    by (rule hex4_shape)
  have z: "hex_value 0x30 = 0" by (simp add: hex_value_def)
  have v: "(of_nat (unat x div 16) * 16 + of_nat (unat x mod 16) :: u8) = x"
  proof -
    have "(of_nat (unat x div 16 * 16 + unat x mod 16) :: u8) = of_nat (unat x)" by (simp only: div_mult_mod_eq)
    then show ?thesis by (simp only: of_nat_add of_nat_mult of_nat_numeral) simp
  qed
  show "json_decode (json_escape x @ r) = x # json_decode r" "json_body (json_escape x @ r) = json_body r"
    using h(4,5) by (auto simp: json_escape_def h z v not_less)
qed

lemma json_text_decode:
  "json_decode (concat (map json_escape s)) = s" "json_body (concat (map json_escape s))"
  by (induction s) (simp_all add: json_escape_decode)

lemma clip_back_le: "clip_back s n \<le> n"
  by (induction n) (simp_all add: le_SucI)

lemma clip_back_boundary: "clip_back s n = 0 \<or> c_at s (clip_back s n) AND 0xc0 \<noteq> 0x80"
  by (induction n) simp_all

lemma clip_limit_spec:
  "clip_limit s \<le> 256" "length s \<le> 256 \<Longrightarrow> clip_limit s = length s"
  "clip_limit s = 0 \<or> clip_limit s = length s \<or> c_at s (clip_limit s) AND 0xc0 \<noteq> 0x80"
  using clip_back_le [of s 256] clip_back_boundary [of s 256] by (auto simp: clip_limit_def Let_def min_def)

text \<open>
  C35. A text of the listing becomes a well-formed JSON string: given room, \<open>append_quoted\<close> appends a quotation mark, a body without
  bare quotation marks or control characters that decodes to the text, and a quotation mark; without room it fails; either way it stays
  in the array. The text is whole up to 256 bytes, and a longer one is never cut inside a UTF-8 character.
\<close>

theorem append_quoted_json:
  assumes "length out = cap" and "used < cap" and "used = 0 \<or> out ! used = 0"
  shows "\<exists>body. json_body body \<and> json_decode body = take (clip_limit t) t \<and>
    clip_limit t \<le> 256 \<and> (length t \<le> 256 \<longrightarrow> clip_limit t = length t) \<and>
    (clip_limit t = 0 \<or> clip_limit t = length t \<or> c_at t (clip_limit t) AND 0xc0 \<noteq> 0x80) \<and>
    (if used + length body + 2 < cap
     then \<exists>out'. append_quoted cap (Some t) (out, used) = Some (0, (out', used + length body + 2)) \<and> length out' = cap \<and>
       take (used + length body + 2) out' = take used out @ [0x22] @ body @ [0x22] \<and> out' ! (used + length body + 2) = 0
     else \<exists>out' used'. append_quoted cap (Some t) (out, used) = Some (- 1, (out', used')) \<and> length out' = cap)"
proof (intro exI conjI)
  let ?body = "concat (map json_escape (take (clip_limit t) t))"
  show "json_body ?body" "json_decode ?body = take (clip_limit t) t" by (rule json_text_decode)+
  have js: "json_string (Some t) = [0x22] @ ?body @ [0x22]" by (simp add: json_string_def)
  have len: "length (json_string (Some t)) = length ?body + 2" by (simp add: js)
  have tm: "terminated out used" using assms(3) by (simp add: terminated_def)
  show "if used + length ?body + 2 < cap
     then \<exists>out'. append_quoted cap (Some t) (out, used) = Some (0, (out', used + length ?body + 2)) \<and> length out' = cap \<and>
       take (used + length ?body + 2) out' = take used out @ [0x22] @ ?body @ [0x22] \<and> out' ! (used + length ?body + 2) = 0
     else \<exists>out' used'. append_quoted cap (Some t) (out, used) = Some (- 1, (out', used')) \<and> length out' = cap"
  proof (cases "used + length ?body + 2 < cap")
    case True
    have a: "used + length (json_string (Some t)) = used + length ?body + 2" by (simp add: len)
    have "used + length (json_string (Some t)) < cap" using True by (simp add: len)
    from outputs_fits [OF outputs_quoted assms(1) this tm] obtain out' where
      "append_quoted cap (Some t) (out, used) = Some (0, (out', used + length ?body + 2))" "length out' = cap"
      "take (used + length ?body + 2) out' = take used out @ json_string (Some t)" "terminated out' (used + length ?body + 2)"
      unfolding a .
    with True show ?thesis by (auto simp: js terminated_def)
  next
    case False
    then have "\<not> used + length (json_string (Some t)) < cap" by (simp add: len)
    then obtain out' used' where "append_quoted cap (Some t) (out, used) = Some (- 1, (out', used'))" "length out' = cap"
      using outputs_full [OF outputs_quoted assms(1,2) _ tm] by blast
    with False show ?thesis by auto
  qed
qed (use clip_limit_spec [of t] in auto)

theorem append_quoted_json_witness:
  "\<exists>body out'. json_decode body = [0x61, 0x22, 0x0a] \<and>
     append_quoted 12 (Some [0x61, 0x22, 0x0a]) (replicate 12 0, 0) = Some (0, (out', 11)) \<and>
     take 11 out' = [0x22] @ body @ [0x22]"
proof -
  obtain body where b: "json_decode body = take (clip_limit [0x61, 0x22, 0x0a]) [0x61, 0x22, 0x0a]"
    "if 0 + length body + 2 < 12
     then \<exists>out'. append_quoted 12 (Some [0x61, 0x22, 0x0a]) (replicate 12 0, 0) = Some (0, (out', 0 + length body + 2)) \<and> length out' = 12 \<and>
       take (0 + length body + 2) out' = take 0 (replicate 12 0) @ [0x22] @ body @ [0x22] \<and> out' ! (0 + length body + 2) = 0
     else \<exists>out' used'. append_quoted 12 (Some [0x61, 0x22, 0x0a]) (replicate 12 0, 0) = Some (- 1, (out', used')) \<and> length out' = 12"
    using append_quoted_json [of "replicate 12 0" 12 0 "[0x61, 0x22, 0x0a]"] by auto
  have e: "append_quoted 12 (Some [0x61, 0x22, 0x0a]) (replicate 12 0, 0) =
    Some (0, ([0x22, 0x61, 0x5c, 0x22, 0x5c, 0x75, 0x30, 0x30, 0x30, 0x61, 0x22, 0], 11))" by code_simp
  have "take (clip_limit [0x61, 0x22, 0x0a]) [0x61, 0x22, 0x0a :: u8] = [0x61, 0x22, 0x0a]" by code_simp
  with b(1) have "json_decode body = [0x61, 0x22, 0x0a]" by simp
  moreover have "take 11 [0x22, 0x61, 0x5c, 0x22, 0x5c, 0x75, 0x30, 0x30, 0x30, 0x61, 0x22, 0 :: u8] = [0x22] @ body @ [0x22]"
    using b(2) unfolding e by (auto split: if_splits)
  ultimately show ?thesis using e by blast
qed

subsection \<open>The listing\<close>

text \<open>The sidecar's path as text, and the listing as a text, from the rows of the query.\<close>

definition sidecar_name :: "nat \<Rightarrow> u8 list \<Rightarrow> u8 list option" where
  "sidecar_name capacity s =
     (case strrchr s 0x2e of
        None \<Rightarrow> None
      | Some dot \<Rightarrow>
          if (case strrchr s 0x2f of None \<Rightarrow> False | Some slash \<Rightarrow> dot < slash) \<or> dot + 5 > capacity then None
          else Some (take dot s @ ascii ''.m4t''))"

definition sidecar_bytes :: "int \<Rightarrow> (u8 list \<Rightarrow> SceIoStat option) \<Rightarrow> u8 list option \<Rightarrow> nat" where
  "sidecar_bytes kind getstat path =
     (case Option.bind path (media_suffix kind) of
        None \<Rightarrow> 0
      | Some t \<Rightarrow>
          if kind = VCM_LIBRARY_VIDEO \<and> safe_suffix t \<and> length (physical_root kind @ t) < 1024 then
            (case Option.bind (sidecar_name 1024 (physical_root kind @ t)) getstat of
               None \<Rightarrow> 0 | Some stat \<Rightarrow> nat (st_size stat))
          else 0)"

definition row_json :: "int \<Rightarrow> (u8 list \<Rightarrow> SceIoStat option) \<Rightarrow> list_row \<Rightarrow> u8 list" where
  "row_json kind getstat row =
     ascii ''{\"id\":\"'' @ dec_text (unat (l_id row)) @ ascii ''\",\"title\":'' @ json_string (l_title row) @
     ascii '',\"name\":'' @ json_string (base_name (l_path row)) @
     ascii '',\"size\":'' @ dec_text (unat (l_size row)) @ ascii '',\"created\":'' @ json_string (l_created row) @
     ascii '',\"artist\":'' @ json_string (l_artist row) @ ascii '',\"album\":'' @ json_string (l_album row) @
     ascii '',\"thumbnail\":'' @ (if l_thumb row then ascii ''true'' else ascii ''false'') @
     ascii '',\"width\":'' @ int_text (l_width row) @ ascii '',\"height\":'' @ int_text (l_height row) @
     ascii '',\"sidecar_size\":'' @ dec_text (sidecar_bytes kind getstat (l_path row)) @ ascii ''}''"

fun rows_json :: "int \<Rightarrow> (u8 list \<Rightarrow> SceIoStat option) \<Rightarrow> bool \<Rightarrow> list_row list \<Rightarrow> u8 list" where
  "rows_json kind getstat first [] = []"
| "rows_json kind getstat first (row # rows) =
     (if first then [] else ascii '','') @ row_json kind getstat row @ rows_json kind getstat False rows"

definition listing_json :: "int \<Rightarrow> (u8 list \<Rightarrow> SceIoStat option) \<Rightarrow> int \<Rightarrow> int \<Rightarrow> list_row list \<Rightarrow> u8 list" where
  "listing_json kind getstat offset limit rows =
     ascii ''{\"items\":['' @ rows_json kind getstat True (take (nat limit) rows) @ ascii ''],\"next_offset\":'' @
     int_text (if int (length rows) > limit then offset + limit else - 1) @ ascii ''}''"

text \<open>What the database and the file system report: C strings, 32-bit integers and 63-bit file sizes.\<close>

definition list_row_ok :: "list_row \<Rightarrow> bool" where
  "list_row_ok row \<longleftrightarrow> text_ok (l_path row) \<and> - (2 ^ 31) \<le> l_width row \<and> l_width row < 2 ^ 31 \<and>
     - (2 ^ 31) \<le> l_height row \<and> l_height row < 2 ^ 31"

definition stat_ok :: "(u8 list \<Rightarrow> SceIoStat option) \<Rightarrow> bool" where
  "stat_ok getstat \<longleftrightarrow> (\<forall>p stat. getstat p = Some stat \<longrightarrow> st_size stat < 2 ^ 63)"

lemma sidecar_path_value:
  assumes "c_string path = Some s" and "length path = capacity"
  shows "\<exists>path'. sidecar_path path capacity = Some (if sidecar_name capacity s = None then - 1 else 0, path') \<and>
    (\<forall>q. sidecar_name capacity s = Some q \<longrightarrow> c_string path' = Some q)"
proof -
  obtain st path' where sp: "sidecar_path path capacity = Some (st, path')" "st \<in> {0, - 1}"
    "st = 0 \<longrightarrow> (\<exists>dot < length s. c_string path' = Some (take dot s @ ascii ''.m4t''))"
    using sidecar_path_spec [OF assms] by blast
  have eq: "c_string path' = sidecar_name capacity s" if st: "st = 0"
  proof -
    obtain dot where d: "strrchr s 0x2e = Some dot"
      "\<not> ((case strrchr s 0x2f of None \<Rightarrow> False | Some slash \<Rightarrow> dot < slash) \<or> dot + 5 > capacity)"
      "path' = take dot path @ ascii ''.m4t'' @ [0] @ drop (dot + 5) path"
      using sp(1) st assms(1) by (auto simp: sidecar_path_def simp del: ascii_simps split: option.splits if_splits)
    have "take dot path = take dot s"
    proof -
      have "s = takeWhile (\<lambda>c. c \<noteq> 0) path" using assms(1) by (auto simp: c_string_def split: if_splits)
      then obtain rest where "path = s @ rest" by (metis takeWhile_dropWhile_id)
      with strrchr_Some [OF d(1)] show ?thesis by simp
    qed
    then have p': "path' = (take dot s @ ascii ''.m4t'') @ 0 # drop (dot + 5) path" using d(3) by simp
    have "0 \<notin> set (ascii ''.m4t'')" by code_simp
    then have "0 \<notin> set (take dot s @ ascii ''.m4t'')"
      using c_string_nonzero [OF assms(1)] by (auto dest: in_set_takeD simp del: ascii_simps)
    from c_string_append [OF this] d(1,2) show ?thesis
      unfolding p' by (simp add: sidecar_name_def del: ascii_simps)
  qed
  have ne: "sidecar_name capacity s = None" if "st \<noteq> 0"
    using sp(1) that assms(1) by (auto simp: sidecar_path_def sidecar_name_def simp del: ascii_simps split: option.splits if_splits)
  show ?thesis
    using sp eq ne by (cases "st = 0") auto
qed

lemma list_sidecar_size_value:
  assumes "text_ok path"
  shows "list_sidecar_size kind getstat junk path = Some (sidecar_bytes kind getstat path)"
proof (cases "kind = VCM_LIBRARY_VIDEO \<and> path \<noteq> None")
  case False
  then show ?thesis by (auto simp: list_sidecar_size_def sidecar_bytes_def physical_path_def split: option.splits)
next
  case True
  then obtain s where s: "path = Some s" "0 \<notin> set s" using assms by (auto simp: text_ok_def)
  let ?out = "map junk [0..<1024]"
  have "length ?out = 1024" by simp
  from physical_path_spec [OF _ this s(2), of kind] obtain st out' where
    pp: "physical_path kind (Some s) (Some ?out) 1024 = Some (st, Some out')" "length out' = 1024"
    "case media_suffix kind s of
       Some t \<Rightarrow>
         if safe_suffix t \<and> length (physical_root kind @ t) < 1024
         then st = 0 \<and> c_string out' = Some (physical_root kind @ t) else st = - 1
     | None \<Rightarrow> st = - 1" by auto
  show ?thesis
  proof (cases "st = 0")
    case False
    then show ?thesis
      using True s pp by (auto simp: list_sidecar_size_def sidecar_bytes_def split: option.splits if_splits)
  next
    case st: True
    then obtain t where t: "media_suffix kind s = Some t" "safe_suffix t" "length (physical_root kind @ t) < 1024"
      "c_string out' = Some (physical_root kind @ t)"
      using pp(3) by (auto split: option.splits if_splits)
    obtain o2 where o2: "sidecar_path out' 1024 =
        Some (if sidecar_name 1024 (physical_root kind @ t) = None then - 1 else 0, o2)"
      "\<forall>q. sidecar_name 1024 (physical_root kind @ t) = Some q \<longrightarrow> c_string o2 = Some q"
      using sidecar_path_value [OF t(4) pp(2)] by blast
    show ?thesis
      using True s(1) pp(1) st t(1-3) o2
      by (cases "sidecar_name 1024 (physical_root kind @ t)")
        (auto simp: list_sidecar_size_def sidecar_bytes_def split: option.splits)
  qed
qed

lemma formatted_fits: "length s < n \<Longrightarrow> 0 \<notin> set s \<Longrightarrow> formatted junk n s = Some s"
  using snprintf_fits [of s n "map junk [0..<n]"] by (auto simp: formatted_def)

lemma dec_text_u64: "n < 2 ^ 64 \<Longrightarrow> length (dec_text n) \<le> 20"
  by (rule dec_text_length) simp_all

lemma int_text_length: "- (2 ^ 31) \<le> i \<Longrightarrow> i < 2 ^ 31 \<Longrightarrow> length (int_text i) \<le> 11"
  using dec_text_length [of "nat (- i)" 10] dec_text_length [of "nat i" 10] by (fastforce simp: int_text_def)

lemma int_text_nonzero: "0 \<notin> set (int_text i)"
  by (simp add: int_text_def dec_text_nonzero)

lemma u64_less: "unat (v :: u64) < 2 ^ 64"
  using unsigned_less [of v, where ?'a = nat] by simp

lemma append_row_outputs:
  assumes "list_row_ok row" and "stat_ok getstat"
  shows "outputs cap (append_row kind getstat junk cap first row) ((if first then [] else ascii '','') @ row_json kind getstat row)"
proof -
  let ?head = "(if first then [] else ascii '','') @ ascii ''{\"id\":\"'' @ dec_text (unat (l_id row)) @ ascii ''\",\"title\":''"
  let ?sized = "ascii '',\"size\":'' @ dec_text (unat (l_size row)) @ ascii '',\"created\":''"
  let ?tail = "ascii '',\"thumbnail\":'' @ (if l_thumb row then ascii ''true'' else ascii ''false'') @
     ascii '',\"width\":'' @ int_text (l_width row) @ ascii '',\"height\":'' @ int_text (l_height row) @
     ascii '',\"sidecar_size\":'' @ dec_text (sidecar_bytes kind getstat (l_path row)) @ ascii ''}''"
  have sb: "sidecar_bytes kind getstat (l_path row) < 2 ^ 64"
    using assms(2) by (fastforce simp: sidecar_bytes_def stat_ok_def split: option.splits bind_splits)
  have h: "formatted junk 160 ?head = Some ?head"
    by (rule formatted_fits) (use dec_text_u64 [OF u64_less, of "l_id row"] dec_text_nonzero in auto)
  have z: "formatted junk 160 ?sized = Some ?sized"
    by (rule formatted_fits) (use dec_text_u64 [OF u64_less, of "l_size row"] dec_text_nonzero in auto)
  have wh: "length (int_text (l_width row)) \<le> 11" "length (int_text (l_height row)) \<le> 11"
    using assms(1) by (auto simp: list_row_ok_def intro!: int_text_length)
  have t: "formatted junk 160 ?tail = Some ?tail"
    by (rule formatted_fits) (use dec_text_u64 [OF sb] wh dec_text_nonzero int_text_nonzero in auto)
  have "append_row kind getstat junk cap first row =
    and_then (and_then (append_json cap ?head)
       (and_then (append_quoted cap (l_title row))
       (and_then (append_json cap (ascii '',\"name\":''))
       (and_then (append_quoted cap (base_name (l_path row)))
       (and_then (append_json cap ?sized)
       (and_then (append_quoted cap (l_created row))
       (and_then (append_json cap (ascii '',\"artist\":''))
       (and_then (append_quoted cap (l_artist row))
       (and_then (append_json cap (ascii '',\"album\":''))
         (append_quoted cap (l_album row))))))))))) (append_json cap ?tail)"
    unfolding append_row_def h z Option.bind.simps
    using assms(1) t
    by (simp only: list_sidecar_size_value list_row_ok_def Option.bind.simps and_then_def fun_eq_iff simp_thms)
  moreover have "outputs cap \<dots> ((?head @ json_string (l_title row) @ ascii '',\"name\":'' @ json_string (base_name (l_path row)) @ ?sized @
      json_string (l_created row) @ ascii '',\"artist\":'' @ json_string (l_artist row) @ ascii '',\"album\":'' @
      json_string (l_album row)) @ ?tail)"
    by (intro outputs_and_then outputs_append outputs_quoted)
  ultimately show ?thesis unfolding row_json_def append_assoc by (simp only: append_assoc)
qed

lemma list_rows_outputs:
  fixes kind :: int
  assumes "stat_ok getstat" and "count \<le> limit" and "list_all list_row_ok rows"
    and "length out = cap" and "used < cap" and "terminated out used"
  defines "t \<equiv> rows_json kind getstat (count = 0) (take (limit - count) rows)"
  shows "if used + length t < cap
    then \<exists>out'. list_rows kind getstat junk cap limit (map Some rows) count (out, used) =
        Some (0, min (count + length rows) (Suc limit), (out', used + length t)) \<and> length out' = cap \<and>
      take (used + length t) out' = take used out @ t \<and> terminated out' (used + length t)
    else \<exists>n out' used'. list_rows kind getstat junk cap limit (map Some rows) count (out, used) = Some (- 1, n, (out', used')) \<and>
      length out' = cap \<and> used' < cap"
  using assms(2-6) unfolding t_def
proof (induction rows arbitrary: count out used)
  case (Cons row rows)
  show ?case
  proof (cases "count = limit")
    case True
    then show ?thesis using Cons.prems by simp
  next
    case False
    define r where "r = (if count = 0 then [] else ascii '','') @ row_json kind getstat row"
    define t where "t = rows_json kind getstat False (take (limit - Suc count) rows)"
    have e: "outputs cap (append_row kind getstat junk cap (count = 0) row) r"
      using append_row_outputs [OF _ assms(1), of row cap kind junk "count = 0"] Cons.prems(2) by (simp add: r_def)
    have tk: "take (limit - count) (row # rows) = row # take (limit - Suc count) rows"
      using False Cons.prems(1) by (simp add: take_Cons')
    have rj: "rows_json kind getstat (count = 0) (take (limit - count) (row # rows)) = r @ t"
      unfolding tk r_def t_def by (simp del: ascii_simps)
    show ?thesis
    proof (cases "used + length r < cap")
      case fits: True
      from outputs_fits [OF e Cons.prems(3) this Cons.prems(5)] obtain o1 where
        o1: "append_row kind getstat junk cap (count = 0) row (out, used) = Some (0, (o1, used + length r))" "length o1 = cap"
        "take (used + length r) o1 = take used out @ r" "terminated o1 (used + length r)" .
      have s1: "Suc count \<le> limit" "list_all list_row_ok rows" "(Suc count = 0) = False"
        using False Cons.prems(1,2) by simp_all
      have st: "list_rows kind getstat junk cap limit (map Some (row # rows)) count (out, used) =
        list_rows kind getstat junk cap limit (map Some rows) (Suc count) (o1, used + length r)"
        using False by (simp add: o1(1))
      show ?thesis
        using Cons.IH [OF s1(1,2) o1(2) fits o1(4), unfolded s1(3), folded t_def]
        unfolding rj st o1(3) by (cases "used + length r + length t < cap") (simp_all add: add.assoc)
    next
      case full: False
      from outputs_full [OF e Cons.prems(3,4) this Cons.prems(5)] obtain o1 u1 where
        o1: "append_row kind getstat junk cap (count = 0) row (out, used) = Some (- 1, (o1, u1))" "length o1 = cap" "u1 < cap" .
      have "\<not> used + length (r @ t) < cap" using full by simp
      then show ?thesis unfolding rj using False o1 by simp
    qed
  qed
qed simp

lemma tail_formatted:
  assumes "- (2 ^ 31) \<le> v" and "v < 2 ^ 31"
  shows "formatted junk 72 (ascii ''],\"next_offset\":'' @ int_text v @ ascii ''}'') =
    Some (ascii ''],\"next_offset\":'' @ int_text v @ ascii ''}'')"
  by (rule formatted_fits) (use int_text_length [OF assms] int_text_nonzero in auto)

text \<open>
  C19. Pages of the library are complete: when the query delivers \<open>rows\<close> without an error, \<open>vcm_library_list\<close>
  writes exactly the JSON object with one entry for each of the first \<open>limit\<close> rows and the offset of the next page, or -1 when there is none,
  and returns its length; if that text does not fit it fails. It always returns and never writes outside the caller's array.
\<close>

theorem library_list_exact:
  assumes "kind \<in> {0, 1, 2}" and "256 \<le> capacity" and "length out = capacity" and "0 \<le> offset" and "1 \<le> limit" and "limit \<le> 32"
    and "offset + limit < 2 ^ 31" and "q = \<lparr>sql_open = True, sql_prepare = 0, sql_steps = map Some rows, sql_finalize = 0, sql_close = 0\<rparr>"
    and "list_all list_row_ok rows" and "stat_ok getstat"
  shows "\<exists>out'. vcm_library_list kind offset limit getstat q junk (Some out) capacity =
      Some (if length (listing_json kind getstat offset limit rows) < capacity
            then int (length (listing_json kind getstat offset limit rows)) else - 1, Some out') \<and>
    length out' = capacity \<and>
    (length (listing_json kind getstat offset limit rows) < capacity \<longrightarrow>
      take (length (listing_json kind getstat offset limit rows)) out' = listing_json kind getstat offset limit rows \<and>
      out' ! length (listing_json kind getstat offset limit rows) = 0)"
proof -
  let ?T = "listing_json kind getstat offset limit rows"
  define a where "a = ascii ''{\"items\":[''"
  define r where "r = rows_json kind getstat True (take (nat limit) rows)"
  define z where "z = ascii ''],\"next_offset\":'' @ int_text (if int (length rows) > limit then offset + limit else - 1) @ ascii ''}''"
  have T: "?T = a @ r @ z" by (simp add: listing_json_def a_def r_def z_def del: ascii_simps)
  have nx: "(int (min (length rows) (Suc (nat limit))) > limit) = (int (length rows) > limit)" using assms(5) by (auto simp: min_def)
  have fz: "formatted junk 72 z = Some z" using assms(4-7) unfolding z_def by (intro tail_formatted) auto
  obtain d where db: "database_path kind = Some d" using assms(1) by (auto simp: database_path_def)
  have a: "a \<noteq> []" "length a < capacity" using assms(2) by (simp_all add: a_def)
  then have "0 + length a < capacity" by simp
  from outputs_fits [OF outputs_append assms(3) this] obtain o1 where
    o1: "append_json capacity a (out, 0) = Some (0, (o1, length a))" "length o1 = capacity" "take (length a) o1 = a"
    "terminated o1 (length a)"
    by (auto simp: terminated_def simp del: ascii_simps)
  define run where "run = list_rows kind getstat junk capacity (nat limit) (map Some rows) 0 (o1, length a)"
  have unf: "vcm_library_list kind offset limit getstat q junk (Some out) capacity = do {
      (rc, count, b) \<leftarrow> run;
      tail \<leftarrow> formatted junk 72 (ascii ''],\"next_offset\":'' @
              int_text (if int count > limit then offset + limit else - 1) @ ascii ''}'');
      (rc, b) \<leftarrow> (if rc = 0 then append_json capacity tail b else Some (rc, b));
      Some (if rc = 0 then int (snd b) else - 1, Some (fst b)) }"
    using assms(2,4-6) unfolding assms(8) run_def
    by (simp add: db vcm_library_list_def o1(1) [unfolded a_def] a_def closing_def del: ascii_simps)
  note run = list_rows_outputs [OF assms(10) _ assms(9) o1(2) a(2) o1(4), of 0 "nat limit" kind junk, folded run_def, unfolded diff_zero add_0 simp_thms, folded r_def]
  show ?thesis
  proof (cases "length a + length r < capacity")
    case True
    then obtain o2 where o2: "run = Some (0, min (length rows) (Suc (nat limit)), (o2, length a + length r))" "length o2 = capacity"
      "take (length a + length r) o2 = a @ r" "terminated o2 (length a + length r)"
      using run o1(3) by (auto simp del: ascii_simps)
    show ?thesis
    proof (cases "length ?T < capacity")
      case fits: True
      have lT: "length a + length r + length z = length ?T" by (simp add: T)
      from outputs_fits [OF outputs_append o2(2) _ o2(4), of z] fits obtain o3 where
        o3: "append_json capacity z (o2, length a + length r) = Some (0, (o3, length ?T))" "length o3 = capacity"
        "take (length ?T) o3 = (a @ r) @ z" "terminated o3 (length ?T)"
        unfolding o2(3) lT by blast
      have "take (length ?T) o3 = ?T" using o3(3) by (simp add: T)
      moreover have "?T \<noteq> []" using a(1) by (simp add: T)
      ultimately show ?thesis
        using fits fz o3(1,2,4) by (auto simp: unf o2(1) nx z_def [symmetric] terminated_def simp del: ascii_simps)
    next
      case full: False
      then have "\<not> length a + length r + length z < capacity" by (simp add: T)
      from outputs_full [OF outputs_append o2(2) True this o2(4)] obtain o3 u3 where
        "append_json capacity z (o2, length a + length r) = Some (- 1, (o3, u3))" "length o3 = capacity" by blast
      then show ?thesis using full fz by (simp add: unf o2(1) nx z_def [symmetric] del: ascii_simps)
    qed
  next
    case False
    then obtain n o2 u2 where o2: "run = Some (- 1, n, (o2, u2))" "length o2 = capacity" using run by (auto simp del: ascii_simps)
    have "\<not> length ?T < capacity" using False by (simp add: T)
    moreover have "formatted junk 72 (ascii ''],\"next_offset\":'' @
        int_text (if int n > limit then offset + limit else - 1) @ ascii ''}'') =
      Some (ascii ''],\"next_offset\":'' @ int_text (if int n > limit then offset + limit else - 1) @ ascii ''}'')"
      using assms(4-7) by (intro tail_formatted) auto
    ultimately show ?thesis using o2 by (simp add: unf del: ascii_simps)
  qed
qed

lemma safe_suffix_code [code]:
  "safe_suffix t \<longleftrightarrow> t \<noteq> [] \<and> strstr t (ascii ''..'') = None \<and> 0x5c \<notin> set t \<and> 0x3a \<notin> set t \<and> 0x0a \<notin> set t"
  by (simp only: safe_suffix_def strstr_None)

definition sample_track :: list_row where
  "sample_track = \<lparr>l_id = 7, l_title = Some (ascii ''a''), l_path = Some (ascii ''music0:/a.mp3''), l_size = 9,
     l_created = None, l_artist = None, l_album = None, l_thumb = False, l_width = 0, l_height = 0\<rparr>"

theorem library_list_exact_witness:
  "\<exists>out'. vcm_library_list 1 0 1 (\<lambda>_. None)
      \<lparr>sql_open = True, sql_prepare = 0, sql_steps = map Some [sample_track, sample_track], sql_finalize = 0, sql_close = 0\<rparr>
      (\<lambda>_. 0) (Some (replicate 256 1)) 256 = Some (166, Some out') \<and>
     take 166 out' = listing_json 1 (\<lambda>_. None) 0 1 [sample_track, sample_track]"
proof -
  have l: "length (listing_json 1 (\<lambda>_. None) 0 1 [sample_track, sample_track]) = 166" by code_simp
  have ok: "list_all list_row_ok [sample_track, sample_track]" by code_simp
  have st: "stat_ok (\<lambda>_. None)" by (simp add: stat_ok_def)
  from library_list_exact [of 1 256 "replicate 256 1" 0 1, OF _ _ _ _ _ _ _ refl ok st] show ?thesis
    unfolding l by simp blast
qed

subsection \<open>Any result of a query\<close>

text \<open>Pages of a listing with any result of the query.\<close>

lemma list_rows_total:
  assumes "stat_ok getstat" and "\<forall>row. Some row \<in> set steps \<longrightarrow> list_row_ok row"
    and "length out = cap" and "used < cap" and "terminated out used"
  shows "\<exists>rc n out' used'. list_rows kind getstat junk cap limit steps count (out, used) = Some (rc, n, (out', used')) \<and>
    length out' = cap \<and> used' < cap \<and> rc \<in> {0, - 1} \<and> (rc = 0 \<longrightarrow> terminated out' used' \<and> used \<le> used')"
  using assms(2-5)
proof (induction steps arbitrary: count out used)
  case (Cons step steps)
  show ?case
  proof (cases step)
    case None
    then show ?thesis using Cons.prems by simp
  next
    case (Some row)
    define r where "r = (if count = 0 then [] else ascii '','') @ row_json kind getstat row"
    have e: "outputs cap (append_row kind getstat junk cap (count = 0) row) r"
      using append_row_outputs [OF _ assms(1), of row cap kind junk "count = 0"] Cons.prems(1) Some by (simp add: r_def)
    have next_rows: "\<forall>row. Some row \<in> set steps \<longrightarrow> list_row_ok row" using Cons.prems(1) by simp
    show ?thesis
    proof (cases "count = limit")
      case True
      then show ?thesis using Cons.prems Some by simp
    next
      case more: False
      show ?thesis
      proof (cases "used + length r < cap")
        case True
        from outputs_fits [OF e Cons.prems(2) this Cons.prems(4)] obtain o1 where
          o1: "append_row kind getstat junk cap (count = 0) row (out, used) = Some (0, (o1, used + length r))" "length o1 = cap"
          "terminated o1 (used + length r)" .
        from Cons.IH [OF next_rows o1(2) True o1(3), of "count + 1"] show ?thesis
          using Some more o1(1) by fastforce
      next
        case False
        from outputs_full [OF e Cons.prems(2,3) this Cons.prems(4)] obtain o1 u1 where
          "append_row kind getstat junk cap (count = 0) row (out, used) = Some (- 1, (o1, u1))" "length o1 = cap" "u1 < cap" .
        then show ?thesis using Some more by simp
      qed
    qed
  qed
qed simp

lemma terminated_string: "terminated out used \<Longrightarrow> used < length out \<Longrightarrow> 0 < used \<Longrightarrow> \<exists>t. c_string out = Some t"
  by (auto simp: terminated_def c_string_def dest: nth_mem)

lemma library_list_total:
  assumes "stat_ok getstat" and "\<forall>row. Some row \<in> set (sql_steps q) \<longrightarrow> list_row_ok row"
    and "256 \<le> capacity" and "length out = capacity" and "0 \<le> offset" and "offset + limit < 2 ^ 31"
  shows "\<exists>rc out'. vcm_library_list kind offset limit getstat q junk (Some out) capacity = Some (rc, Some out') \<and>
    (0 \<le> rc \<longrightarrow> (\<exists>t. c_string out' = Some t))"
proof (cases "limit < 1 \<or> limit > 32 \<or> database_path kind = None \<or> \<not> sql_open q")
  case True
  then show ?thesis by (auto simp: vcm_library_list_def)
next
  case False
  then obtain db where db: "database_path kind = Some db" by auto
  define a where "a = ascii ''{\"items\":[''"
  have a: "0 < length a" "length a < 256" by (simp_all add: a_def)
  have al: "0 + length a < capacity" using a assms(3) by simp
  from outputs_fits [OF outputs_append assms(4) this] obtain o1 where
    o1: "append_json capacity a (out, 0) = Some (0, (o1, length a))" "length o1 = capacity" "terminated o1 (length a)"
    by (auto simp: terminated_def simp del: ascii_simps)
  have tl: "\<exists>t. formatted junk 72 (ascii ''],\"next_offset\":'' @ int_text (if int n > limit then offset + limit else - 1) @ ascii ''}'') = Some t" for n
    using tail_formatted [of "offset + limit" junk] tail_formatted [of "- 1" junk] assms(5,6) False
    by (cases "int n > limit") (simp_all del: ascii_simps)
  obtain rc n o2 u2 where r: "(if sql_prepare q = 0
      then list_rows kind getstat junk capacity (nat limit) (sql_steps q) 0 (o1, length a)
      else Some (sql_prepare q, 0, (out, 0))) = Some (rc, n, (o2, u2))"
    "rc = 0 \<longrightarrow> length o2 = capacity \<and> u2 < capacity \<and> terminated o2 u2 \<and> 0 < u2"
    using list_rows_total [OF assms(1,2) o1(2) _ o1(3), of kind junk "nat limit" 0] al a(1) by (cases "sql_prepare q = 0") fastforce+
  obtain t where t: "formatted junk 72 (ascii ''],\"next_offset\":'' @ int_text (if int n > limit then offset + limit else - 1) @ ascii ''}'') = Some t"
    using tl by blast
  have unf: "vcm_library_list kind offset limit getstat q junk (Some out) capacity = do {
      (rc, b) \<leftarrow> (if rc = 0 then append_json capacity t (o2, u2) else Some (rc, (o2, u2)));
      Some (if closing q rc = 0 then int (snd b) else - 1, Some (fst b)) }"
  proof (cases "sql_prepare q = 0")
    case True
    with r(1) have "list_rows kind getstat junk capacity (nat limit) (sql_steps q) 0 (o1, length a) = Some (rc, n, (o2, u2))" by simp
    then show ?thesis
      using True False assms(3,5) t o1(1) db unfolding vcm_library_list_def a_def [symmetric] by (simp del: ascii_simps)
  next
    case prep: False
    with r(1) have "rc = sql_prepare q" "n = 0" "o2 = out" "u2 = 0" by simp_all
    then show ?thesis
      using prep False assms(3,5) t db unfolding vcm_library_list_def a_def [symmetric] by (simp del: ascii_simps)
  qed
  show ?thesis
  proof (cases "rc = 0")
    case False
    then have "closing q rc \<noteq> 0" by (simp add: closing_def Let_def)
    then show ?thesis using False unfolding unf by simp
  next
    case True
    note o2 = r(2) [rule_format, OF True]
    show ?thesis
    proof (cases "u2 + length t < capacity")
      case fits: True
      from outputs_fits [OF outputs_append _ fits] o2 obtain o3 where
        "append_json capacity t (o2, u2) = Some (0, (o3, u2 + length t))" "length o3 = capacity" "terminated o3 (u2 + length t)" by blast
      then show ?thesis using True fits o2 terminated_string [of o3 "u2 + length t"] unfolding unf by simp
    next
      case full: False
      from outputs_full [OF outputs_append _ _ full] o2 obtain o3 u3 where
        "append_json capacity t (o2, u2) = Some (- 1, (o3, u3))" by blast
      then show ?thesis using True unfolding unf by (simp add: closing_def Let_def)
    qed
  qed
qed


text \<open>Icons: any callback that keeps a property keeps it over the whole stream.\<close>

lemma write_icon_keeps:
  assumes "\<And>c d. P c \<Longrightarrow> \<exists>rc c'. write c d = Some (rc, c') \<and> P c'" and "P c"
  shows "\<exists>rc c'. write_icon ident data write c = Some (rc, c') \<and> P c'"
proof -
  define n where "n = (if length data < 128 \<or> length data > 65536 then 0 else length data)"
  obtain rc c1 where w1: "write c (le64 ident @ le32 (of_nat n)) = Some (rc, c1)" "P c1" using assms by blast
  obtain rc' c2 where w2: "write c1 data = Some (rc', c2)" "P c2" using assms(1) [OF w1(2)] by blast
  show ?thesis unfolding write_icon_def Let_def n_def [symmetric] using w1 w2 by auto
qed

lemma icon_rows_keeps:
  assumes "\<And>c d. P c \<Longrightarrow> \<exists>rc c'. write c d = Some (rc, c') \<and> P c'" and "P c"
  shows "\<exists>rc c'. icon_rows steps write c = Some (rc, c') \<and> P c'"
  using assms(2)
proof (induction steps arbitrary: c)
  case (Cons step steps)
  show ?case
  proof (cases step)
    case (Some row)
    then obtain ident icon reset where row: "step = Some (ident, icon, reset)" by (cases row) simp
    have "\<exists>rc c'. write_icon ident d write c = Some (rc, c') \<and> P c'" for d
      by (rule write_icon_keeps [of P "write", OF assms(1) Cons.prems])
    then obtain rc c1 where w: "write_icon ident (case icon of Icon d \<Rightarrow> d | _ \<Rightarrow> []) write c = Some (rc, c1)" "P c1" by blast
    from Cons.IH [OF w(2)] obtain rc' c2 where "icon_rows steps write c1 = Some (rc', c2)" "P c2" by blast
    then show ?thesis using w Cons.prems by (cases icon) (simp_all add: row Let_def)
  qed (use Cons.prems in simp)
qed simp

lemma photo_icons_keeps:
  assumes "\<And>c d. P c \<Longrightarrow> \<exists>rc c'. write c d = Some (rc, c') \<and> P c'" and "P c"
  shows "\<exists>rc c'. vcm_library_photo_icons offset limit q (Some write) c = Some (rc, c') \<and> P c'"
  using icon_rows_keeps [of P "write", OF assms, of "sql_steps q"] assms(2)
  by (auto simp: vcm_library_photo_icons_def)

lemma photo_icon_total:
  assumes "capacity \<le> length out"
  shows "\<exists>size0 out'. vcm_library_photo_icon ident q (Some out) capacity = Some (size0, Some out') \<and>
    length out' = length out \<and> size0 \<le> int capacity"
proof -
  define r where "r = (if sql_prepare q = 0 then
         (case sql_steps q of
            Some (Some blob) # _ \<Rightarrow>
              if length blob \<ge> 128 \<and> length blob \<le> capacity then
                if length blob \<le> length out
                then Some (int (length blob), blob @ drop (length blob) out) else None
              else Some (- 1, out)
          | _ \<Rightarrow> Some (- 1, out))
       else Some (- 1, out))"
  have "\<exists>n o1. r = Some (n, o1) \<and> length o1 = length out \<and> n \<le> int capacity"
    unfolding r_def using assms by (auto split: list.splits option.splits)
  then obtain n o1 where "r = Some (n, o1)" "length o1 = length out" "n \<le> int capacity" by blast
  then show ?thesis
    unfolding vcm_library_photo_icon_def option.case r_def [symmetric] by (auto simp: closing_def Let_def)
qed

end
