(* ===== verification/Mtp_Snapshot.thy ===== *)
theory Mtp_Snapshot
  imports Media_Library Mtp_Catalog
begin

text \<open>
  The catalogue snapshot of \<^verbatim>\<open>src/vita/mtp_snapshot.c\<close>: every registered photo, track, video and subtitle
  of the media library becomes an entry of a new MTP catalogue. A source pointer is the list of bytes from the pointer on; what follows the
  terminator of a media text in memory is the parameter \<open>slack\<close>.
\<close>

subsection \<open>Operations\<close>

definition lead_length :: "u8 \<Rightarrow> nat" where
  "lead_length first =
     (if first < 0x80 then 1 else if first AND 0xe0 = 0xc0 then 2
      else if first AND 0xf0 = 0xe0 then 3 else if first AND 0xf8 = 0xf0 then 4 else 0)"

text \<open>The check of the continuation bytes; the loop goes on after a failure.\<close>

fun tail_good :: "u8 list \<Rightarrow> nat \<Rightarrow> nat \<Rightarrow> bool \<Rightarrow> bool option" where
  "tail_good src k 0 good = Some good"
| "tail_good src k (Suc n) good = do {
     c \<leftarrow> fetch src k;
     tail_good src (Suc k) n (if c = 0 \<or> c AND 0xc0 \<noteq> 0x80 then False else good)
   }"

fun copy_bytes :: "u8 list \<Rightarrow> u8 list \<Rightarrow> nat \<Rightarrow> nat \<Rightarrow> u8 list option" where
  "copy_bytes out src i 0 = Some out"
| "copy_bytes out src i (Suc n) = do { c \<leftarrow> fetch src i; out \<leftarrow> store out i c; copy_bytes out src (Suc i) n }"

function copy_text_loop :: "u8 list \<Rightarrow> nat \<Rightarrow> u8 list \<Rightarrow> nat \<Rightarrow> (u8 list \<times> nat) option" where
  "copy_text_loop out capacity src i = do {
     first \<leftarrow> fetch src i;
     if first = 0 \<or> \<not> i + 1 < capacity then Some (out, i)
     else if lead_length first = 0 \<or> i + lead_length first \<ge> capacity then Some (out, i)
     else do {
       good \<leftarrow> tail_good src (i + 1) (lead_length first - 1) True;
       if \<not> good then Some (out, i)
       else do {
         out \<leftarrow> copy_bytes out src i (lead_length first);
         copy_text_loop out capacity src (i + lead_length first)
       }
     }
   }"
  by pat_completeness auto
termination by (relation "measure (\<lambda>(out, capacity, src, i). capacity - i)") auto

declare copy_text_loop.simps [simp del]

definition copy_text :: "u8 list \<Rightarrow> nat \<Rightarrow> u8 list option \<Rightarrow> u8 list option" where
  "copy_text out capacity src = do {
     (out, i) \<leftarrow> copy_text_loop out capacity (case src of None \<Rightarrow> [0] | Some s \<Rightarrow> s) 0;
     store out i 0
   }"

definition title_char :: "u8 \<Rightarrow> u8" where
  "title_char c =
     (if c < 32 \<or> c = 127 \<or> c = 0x2f \<or> c = 0x5c \<or> c = 0x3a \<or> c = 0x3c \<or> c = 0x3e \<or> c = 0x22 \<or> c = 0x7c \<or>
         c = 0x3f \<or> c = 0x2a then 0x5f else c)"

fun title_loop :: "u8 list \<Rightarrow> nat \<Rightarrow> u8 list \<Rightarrow> (u8 list \<times> nat) option" where
  "title_loop out used [] = Some (out, used)"
| "title_loop out used (c # s) =
     (if used + 8 < 256 then do { out \<leftarrow> store out used (title_char c); title_loop out (used + 1) s }
      else Some (out, used))"

fun trim_loop :: "u8 list \<Rightarrow> nat \<Rightarrow> nat option" where
  "trim_loop out 0 = Some 0"
| "trim_loop out (Suc n) = do { c \<leftarrow> fetch out n; if c = 0x20 \<or> c = 0x2e then trim_loop out n else Some (Suc n) }"

fun extension_loop :: "u8 list \<Rightarrow> nat \<Rightarrow> u8 list \<Rightarrow> (u8 list \<times> nat) option" where
  "extension_loop out used [] = Some (out, used)"
| "extension_loop out used (c # s) =
     (if used + 1 < 256 then do { out \<leftarrow> store out used c; extension_loop out (used + 1) s }
      else Some (out, used))"

definition display_name :: "(nat \<Rightarrow> u8) \<Rightarrow> VcmMtpEntry \<Rightarrow> VcmMtpEntry option" where
  "display_name junk entry = do {
     first \<leftarrow> fetch (e_title entry) 0;
     if first = 0 \<or> (e_kind entry \<noteq> VCM_MTP_MUSIC \<and> e_kind entry \<noteq> VCM_MTP_VIDEO) then Some entry
     else do {
       name \<leftarrow> c_string (e_name entry);
       (case strrchr name 0x2e of
          None \<Rightarrow> Some entry
        | Some dot \<Rightarrow> do {
            safe_title \<leftarrow> copy_text (map junk [0..<240]) 240 (Some (e_title entry));
            title \<leftarrow> c_string safe_title;
            (out, used) \<leftarrow> title_loop (e_display_name entry) 0 title;
            used \<leftarrow> trim_loop out used;
            if used = 0 \<or> used + 7 \<ge> 256 then Some (entry\<lparr>e_display_name := out\<rparr>)
            else do {
              (out, used) \<leftarrow> extension_loop out used (drop dot name);
              out \<leftarrow> store out used 0;
              Some (entry\<lparr>e_display_name := out\<rparr>)
            }
          })
     }
   }"

text \<open>The bytes behind a pointer to a media text.\<close>

definition behind :: "u8 list \<Rightarrow> u8 list \<Rightarrow> u8 list" where
  "behind slack s = s @ 0 # slack"

definition thumbnail_bytes :: "VcmMtpEntry \<Rightarrow> u32" where
  "thumbnail_bytes entry =
     (if e_kind entry = VCM_MTP_PHOTO \<and> e_thumb_width entry \<noteq> 0 \<and> e_thumb_height entry \<noteq> 0 then
        let stride = (ucast (e_thumb_width entry) * 3 + 3) AND NOT 3
        in 54 + stride * ucast (e_thumb_height entry)
      else e_thumb_size entry)"

definition fill_entry :: "(nat \<Rightarrow> u8) \<Rightarrow> u8 list \<Rightarrow> VcmLibraryMediaInfo \<Rightarrow> VcmMtpEntry \<Rightarrow> VcmMtpEntry option" where
  "fill_entry junk slack media entry = do {
     t \<leftarrow> copy_text (e_title entry) 256 (map_option (behind slack) (m_title media));
     a \<leftarrow> copy_text (e_artist entry) 128 (map_option (behind slack) (m_artist media));
     b \<leftarrow> copy_text (e_album entry) 128 (map_option (behind slack) (m_album media));
     c \<leftarrow> copy_text (e_created entry) 24 (Some (behind slack (m_created media)));
     d \<leftarrow> copy_text (e_modified entry) 24 (Some (behind slack (m_modified media)));
     let entry = entry\<lparr>e_title := t, e_artist := a, e_album := b, e_created := c, e_modified := d,
       e_thumb_width := m_thumb_width media, e_thumb_height := m_thumb_height media,
       e_width := m_width media, e_height := m_height media\<rparr>;
     display_name junk (entry\<lparr>e_thumb_size := thumbnail_bytes entry\<rparr>)
   }"

definition add_entry :: "(nat \<Rightarrow> u8) \<Rightarrow> u8 list \<Rightarrow> VcmMtpCatalog visitor" where
  "add_entry junk slack catalog media =
     (if m_size media = 0 then Some (0, catalog)
      else do {
        (handle, catalog) \<leftarrow> vcm_mtp_catalog_add catalog (m_kind media) (m_id media) (Some (m_name media))
          (m_size media) (m_mtp_format media);
        if handle = 0 then Some (- 1, catalog)
        else
          (case c_entries catalog of
             None \<Rightarrow> None
           | Some es \<Rightarrow> do {
               entry \<leftarrow> fetch es (unat (handle - 1));
               entry \<leftarrow> fill_entry junk slack media entry;
               es \<leftarrow> store es (unat (handle - 1)) entry;
               Some (0, catalog\<lparr>c_entries := Some es\<rparr>)
             })
      })"

record VcmMtpSnapshot =
  sn_catalog :: VcmMtpCatalog
  sn_allocation :: "VcmMtpEntry list option"

definition no_snapshot :: VcmMtpSnapshot where
  "no_snapshot = \<lparr>sn_catalog = \<lparr>c_entries = None, c_count = 0, c_capacity = 0\<rparr>, sn_allocation = None\<rparr>"

text \<open>The second component counts the allocations that are freed.\<close>

definition vcm_mtp_snapshot_destroy :: "VcmMtpSnapshot \<Rightarrow> VcmMtpSnapshot \<times> nat" where
  "vcm_mtp_snapshot_destroy snapshot =
     (no_snapshot, if sn_allocation snapshot \<noteq> None then 1 else 0)"

text \<open>
  What the build sees of the device: the row count and the rows of each kind, the file attributes and the allocator, which
  returns the storage it is asked for or nothing. The layout rules of the ABI make an entry 1120 bytes long.
\<close>

record device =
  dev_count :: "int \<Rightarrow> int query"
  dev_rows :: "int \<Rightarrow> media_row query"
  dev_stat :: "u8 list \<Rightarrow> SceIoStat option"
  dev_malloc :: "nat \<Rightarrow> VcmMtpEntry list option"

abbreviation (input) entry_bytes :: u64 where "entry_bytes \<equiv> 1120"

definition enumerate_kind :: "device \<Rightarrow> (nat \<Rightarrow> u8) \<Rightarrow> u8 list \<Rightarrow> int \<Rightarrow> VcmMtpCatalog \<Rightarrow> (int \<times> VcmMtpCatalog) option" where
  "enumerate_kind dev junk slack kind catalog =
     vcm_library_enumerate kind (dev_stat dev) (dev_rows dev kind) junk (Some (add_entry junk slack)) catalog"

text \<open>
  The uninitialised counters start at 0; they are read only after they have been written. The allocation and the catalogue's
  entries are the same storage: the field \<open>sn_allocation\<close> only tells whether there is one to free.
\<close>

definition vcm_mtp_snapshot_build ::
    "device \<Rightarrow> (nat \<Rightarrow> u8) \<Rightarrow> u8 list \<Rightarrow> VcmMtpSnapshot option \<Rightarrow> (int \<times> VcmMtpSnapshot option \<times> nat) option" where
  "vcm_mtp_snapshot_build dev junk slack snapshot =
     (case snapshot of
        None \<Rightarrow> Some (- 1, None, 0)
      | Some old \<Rightarrow>
          (case (vcm_library_count VCM_LIBRARY_PHOTO (dev_count dev 0) (Some 0),
                 vcm_library_count VCM_LIBRARY_MUSIC (dev_count dev 1) (Some 0),
                 vcm_library_count VCM_LIBRARY_VIDEO (dev_count dev 2) (Some 0)) of
             ((rp, Some photo), (rm, Some music), (rv, Some video)) \<Rightarrow>
               if rp < 0 \<or> rm < 0 \<or> rv < 0 then Some (- 1, Some no_snapshot, 0)
               else
                 let needed = (3 + ucast photo + ucast music + 2 * ucast video :: u64) in
                 if needed > 0xfffffffe \<or> needed * entry_bytes > 24 * 1024 * 1024 then Some (- 1, Some no_snapshot, 0)
                 else
                   (case dev_malloc dev (unat needed) of
                      None \<Rightarrow> Some (- 1, Some no_snapshot, 0)
                    | Some storage \<Rightarrow> do {
                        init \<leftarrow> vcm_mtp_catalog_init (Some storage) (ucast needed);
                        (ok, catalog) \<leftarrow>
                          (case init of
                             Inl _ \<Rightarrow> Some (False, sn_catalog no_snapshot)
                           | Inr c \<Rightarrow> do {
                               (rc, c) \<leftarrow> enumerate_kind dev junk slack VCM_LIBRARY_PHOTO c;
                               if rc < 0 then Some (False, c)
                               else do {
                                 (rc, c) \<leftarrow> enumerate_kind dev junk slack VCM_LIBRARY_MUSIC c;
                                 if rc < 0 then Some (False, c)
                                 else do {
                                   (rc, c) \<leftarrow> enumerate_kind dev junk slack VCM_LIBRARY_VIDEO c;
                                   Some (rc \<ge> 0, c)
                                 }
                               }
                             });
                        let snapshot = \<lparr>sn_catalog = catalog, sn_allocation = Some storage\<rparr>;
                        if ok then Some (0, Some snapshot, 0)
                        else
                          let (snapshot, freed) = vcm_mtp_snapshot_destroy snapshot
                          in Some (- 1, Some snapshot, freed)
                      })
           | _ \<Rightarrow> None))"

subsection \<open>Copying texts\<close>

text \<open>The longest start of a text that consists of complete UTF-8 units and leaves room for a terminator.\<close>

definition continuation :: "u8 \<Rightarrow> bool" where
  "continuation c \<longleftrightarrow> c \<noteq> 0 \<and> c AND 0xc0 = 0x80"

definition unit_length :: "u8 list \<Rightarrow> nat" where
  "unit_length s =
     (case s of [] \<Rightarrow> 0
      | c # r \<Rightarrow> if lead_length c \<le> length s \<and> list_all continuation (take (lead_length c - 1) r) then lead_length c else 0)"

function utf8_clip :: "nat \<Rightarrow> u8 list \<Rightarrow> u8 list" where
  "utf8_clip room s =
     (if unit_length s = 0 \<or> room < unit_length s then []
      else take (unit_length s) s @ utf8_clip (room - unit_length s) (drop (unit_length s) s))"
  by pat_completeness auto
termination by (relation "measure (\<lambda>(room, s). room)") auto

declare utf8_clip.simps [simp del]

lemma unit_length_le: "unit_length s \<le> length s"
  by (simp add: unit_length_def split: list.splits)

lemma utf8_clip_length: "length (utf8_clip room s) \<le> room"
proof (induction room s rule: utf8_clip.induct)
  case (1 room s)
  then show ?case by (subst utf8_clip.simps) (auto simp: min_def)
qed

lemma utf8_clip_prefix: "\<exists>r. s = utf8_clip room s @ r"
proof (induction room s rule: utf8_clip.induct)
  case (1 room s)
  show ?case
  proof (cases "unit_length s = 0 \<or> room < unit_length s")
    case True
    then show ?thesis by (subst utf8_clip.simps) auto
  next
    case False
    with 1 obtain r where "drop (unit_length s) s = utf8_clip (room - unit_length s) (drop (unit_length s) s) @ r" by auto
    then have "take (unit_length s) s @ drop (unit_length s) s =
      (take (unit_length s) s @ utf8_clip (room - unit_length s) (drop (unit_length s) s)) @ r" by simp
    then show ?thesis using False by (subst utf8_clip.simps) auto
  qed
qed

definition whole :: "u8 list \<Rightarrow> bool" where
  "whole s \<longleftrightarrow> utf8_clip (length s) s = s"

lemma utf8_clip_more: "length (utf8_clip room s) \<le> room' \<Longrightarrow> room' \<le> room \<Longrightarrow> utf8_clip room' (utf8_clip room s) = utf8_clip room s"
proof (induction room s arbitrary: room' rule: utf8_clip.induct)
  case (1 room s)
  show ?case
  proof (cases "unit_length s = 0 \<or> room < unit_length s")
    case True
    then have "utf8_clip room s = []" by (subst utf8_clip.simps) simp
    moreover have "utf8_clip room' [] = []" by (subst utf8_clip.simps) (simp add: unit_length_def)
    ultimately show ?thesis by simp
  next
    case False
    let ?u = "unit_length s"
    let ?r = "utf8_clip (room - ?u) (drop ?u s)"
    have e: "utf8_clip room s = take ?u s @ ?r" using False by (subst utf8_clip.simps) simp
    have l: "length (take ?u s) = ?u" using unit_length_le [of s] by simp
    obtain c t where s: "s = c # t" using False by (cases s) (auto simp: unit_length_def)
    then have u: "?u = lead_length c" "lead_length c \<le> length s" "list_all continuation (take (lead_length c - 1) t)" "0 < lead_length c"
      using False by (auto simp: unit_length_def split: if_splits)
    have "take ?u s @ ?r = c # (take (lead_length c - 1) t @ ?r)" using u(1,4) by (cases "lead_length c") (simp_all add: s)
    moreover have "unit_length (c # (take (lead_length c - 1) t @ ?r)) = ?u"
      using u s by (auto simp: unit_length_def min_def)
    ultimately have ul: "unit_length (take ?u s @ ?r) = ?u" by simp
    have "utf8_clip (room' - ?u) ?r = ?r"
      using "1.IH" [OF False, of "room' - ?u"] "1.prems" l unfolding e by simp
    then show ?thesis
      unfolding e using ul l "1.prems" False unfolding e by (subst utf8_clip.simps) auto
  qed
qed

lemma utf8_clip_whole: "whole (utf8_clip room s)"
  unfolding whole_def using utf8_clip_more utf8_clip_length by blast

lemma lead_length_le: "lead_length c \<le> 4"
  by (simp add: lead_length_def)

lemma tail_good_spec:
  assumes "k + n \<le> length src"
  shows "tail_good src k n good = Some (good \<and> list_all continuation (take n (drop k src)))"
  using assms
proof (induction n arbitrary: k good)
  case (Suc n)
  then have "drop k src = src ! k # drop (Suc k) src" by (simp add: Cons_nth_drop_Suc)
  with Suc show ?case by (auto simp: continuation_def)
qed simp

lemma copy_bytes_spec:
  assumes "i + n \<le> length src" and "i + n \<le> length out"
  shows "copy_bytes out src i n = Some (take i out @ take n (drop i src) @ drop (i + n) out)"
  using assms
proof (induction n arbitrary: i out)
  case (Suc n)
  have "drop i src = src ! i # drop (Suc i) src" using Suc.prems by (simp add: Cons_nth_drop_Suc)
  with Suc show ?case by (simp add: take_update_Suc)
qed simp

lemma whole_unit:
  assumes "whole s" and "s \<noteq> []"
  shows "unit_length s \<noteq> 0" "whole (drop (unit_length s) s)"
proof -
  let ?u = "unit_length s"
  have c: "utf8_clip (length s) s = s" using assms(1) by (simp add: whole_def)
  then show u: "?u \<noteq> 0" using assms(2) by (subst (asm) utf8_clip.simps) (auto split: if_splits)
  have "utf8_clip (length s) s = take ?u s @ utf8_clip (length s - ?u) (drop ?u s)"
    using u unit_length_le [of s] by (subst utf8_clip.simps) simp
  then have "take ?u s @ utf8_clip (length s - ?u) (drop ?u s) = take ?u s @ drop ?u s" using c by simp
  then have "utf8_clip (length s - ?u) (drop ?u s) = drop ?u s" unfolding same_append_eq .
  then show "whole (drop ?u s)" by (simp add: whole_def)
qed

lemma tail_in_text:
  "list_all continuation (take n (r @ 0 # slack)) \<longleftrightarrow> n \<le> length r \<and> list_all continuation (take n r)"
proof (cases "n \<le> length r")
  case False
  then obtain m where "n - length r = Suc m" by (metis Suc_diff_Suc not_le)
  then show ?thesis using False by (simp add: continuation_def)
qed simp

lemma store_end:
  "k = length a \<Longrightarrow> k < length out \<Longrightarrow> store (a @ drop k out) k v = Some (a @ v # drop (Suc k) out)"
  by (simp add: list_update_append Cons_nth_drop_Suc [symmetric])

lemma copy_text_loop_spec:
  assumes "0 \<notin> set s" and "length out = capacity" and "length pre < capacity" and "2 \<le> length slack \<or> whole s"
  defines "t \<equiv> utf8_clip (capacity - 1 - length pre) s"
  shows "copy_text_loop out capacity (pre @ s @ 0 # slack) (length pre) =
    Some (take (length pre) out @ t @ drop (length pre + length t) out, length pre + length t)"
  using assms(1-4) unfolding t_def
proof (induction "length s" arbitrary: s pre out rule: less_induct)
  case less
  let ?i = "length pre" and ?src = "pre @ s @ 0 # slack"
  show ?case
  proof (cases s)
    case Nil
    then have "utf8_clip n s = []" for n by (subst utf8_clip.simps) (simp add: unit_length_def)
    then show ?thesis using Nil by (subst copy_text_loop.simps) simp
  next
    case (Cons c r)
    have c: "c \<noteq> 0" "fetch ?src ?i = Some c" using less.prems(1) Cons by (auto simp: nth_append)
    show ?thesis
    proof (cases "lead_length c = 0 \<or> ?i + lead_length c \<ge> capacity")
      case True
      have "utf8_clip (capacity - 1 - ?i) s = []"
        using True by (subst utf8_clip.simps) (auto simp: unit_length_def Cons)
      then show ?thesis using True c by (subst copy_text_loop.simps) simp
    next
      case False
      let ?n = "lead_length c"
      have bound: "?i + 1 + (?n - 1) \<le> length ?src"
      proof (cases "whole s")
        case True
        from whole_unit(1) [OF this] have "?n \<le> length s" by (auto simp: Cons unit_length_def split: if_splits)
        then show ?thesis by simp
      next
        case False
        then have "2 \<le> length slack" using less.prems(4) by simp
        then show ?thesis using lead_length_le [of c] Cons by simp
      qed
      have "drop (?i + 1) ?src = r @ 0 # slack" by (simp add: Cons)
      then have good: "tail_good ?src (?i + 1) (?n - 1) True = Some (?n - 1 \<le> length r \<and> list_all continuation (take (?n - 1) r))"
        using tail_good_spec [OF bound, of True] by (simp only: tail_in_text simp_thms)
      show ?thesis
      proof (cases "?n - 1 \<le> length r \<and> list_all continuation (take (?n - 1) r)")
        case bad: False
        then have "unit_length s = 0" using False by (auto simp: unit_length_def Cons)
        then have "utf8_clip (capacity - 1 - ?i) s = []" by (subst utf8_clip.simps) simp
        then show ?thesis using False c good bad by (subst copy_text_loop.simps) (auto simp: not_less)
      next
        case True
        then have u: "unit_length s = ?n" using False by (auto simp: unit_length_def Cons)
        have ns: "?n \<le> length s" using u unit_length_le [of s] by simp
        let ?out = "take ?i out @ take ?n s @ drop (?i + ?n) out"
        have cp: "copy_bytes out ?src ?i ?n = Some ?out"
          using copy_bytes_spec [of ?i ?n ?src out] ns False less.prems(2) by simp
        let ?pre = "pre @ take ?n s" and ?s = "drop ?n s"
        have lp: "length ?pre = ?i + ?n" using ns by simp
        have src: "?src = ?pre @ ?s @ 0 # slack" by simp
        have hyp: "length ?s < length s" "0 \<notin> set ?s" "length ?out = capacity" "length ?pre < capacity"
            "2 \<le> length slack \<or> whole ?s"
          using False ns Cons less.prems whole_unit(2) [of s] u lp by (auto dest: in_set_dropD)
        have ih: "copy_text_loop ?out capacity ?src (?i + ?n) =
          Some (take (?i + ?n) ?out @ utf8_clip (capacity - 1 - (?i + ?n)) ?s @
            drop (?i + ?n + length (utf8_clip (capacity - 1 - (?i + ?n)) ?s)) ?out,
            ?i + ?n + length (utf8_clip (capacity - 1 - (?i + ?n)) ?s))"
          using less.hyps [OF hyp, unfolded lp src [symmetric]] .
        have clip: "utf8_clip (capacity - 1 - ?i) s = take ?n s @ utf8_clip (capacity - 1 - (?i + ?n)) ?s"
        proof -
          have "\<not> capacity - 1 - ?i < ?n" "?n \<noteq> 0" using False by auto
          then show ?thesis using u by (subst utf8_clip.simps) (simp add: diff_diff_left)
        qed
        have lt: "length (take ?n s) = ?n" using ns by simp
        show ?thesis
          unfolding clip using False c good True cp ih lt less.prems(2)
          by (subst copy_text_loop.simps) (simp add: ac_simps not_less)
      qed
    qed
  qed
qed

text \<open>Copying keeps the array's size and stores the clipped text, whatever follows the source in memory.\<close>

lemma copy_text_spec:
  assumes "0 \<notin> set s" and "length out = capacity" and "0 < capacity" and "2 \<le> length slack \<or> whole s"
  shows "\<exists>out'. copy_text out capacity (Some (s @ 0 # slack)) = Some out' \<and> length out' = capacity \<and>
    c_string out' = Some (utf8_clip (capacity - 1) s)"
proof -
  let ?t = "utf8_clip (capacity - 1) s"
  have l: "length ?t < capacity" using utf8_clip_length [of "capacity - 1" s] assms(3) by simp
  have "copy_text_loop out capacity (s @ 0 # slack) 0 = Some (?t @ drop (length ?t) out, length ?t)"
    using copy_text_loop_spec [of s out capacity "[]" slack] assms by simp
  then have "copy_text out capacity (Some (s @ 0 # slack)) = Some (?t @ 0 # drop (Suc (length ?t)) out)"
    using store_end [OF refl, of ?t out] l assms(2) by (simp add: copy_text_def)
  moreover have "0 \<notin> set ?t" using utf8_clip_prefix [of s "capacity - 1"] assms(1) by (metis Un_iff set_append)
  ultimately show ?thesis using c_string_append [of ?t "drop (Suc (length ?t)) out"] l assms(2) by simp
qed

subsection \<open>Display names\<close>

lemma c_string_split: "c_string a = Some s \<Longrightarrow> \<exists>r. a = s @ 0 # r \<and> 0 \<notin> set s"
proof -
  assume a: "c_string a = Some s"
  then have "0 \<in> set a" "s = takeWhile (\<lambda>c. c \<noteq> 0) a" by (auto simp: c_string_def split: if_splits)
  then obtain x r where "dropWhile (\<lambda>c. c \<noteq> 0) a = x # r" "x = 0"
    by (metis (mono_tags, lifting) dropWhile_eq_Nil_conv hd_dropWhile list.collapse)
  then have "a = s @ 0 # r" using \<open>s = _\<close> by (metis takeWhile_dropWhile_id)
  with c_string_nonzero [OF a] show ?thesis by blast
qed

text \<open>What is left of a title without the spaces and dots at its end.\<close>

definition trimmed :: "u8 list \<Rightarrow> u8 list" where
  "trimmed s = rev (dropWhile (\<lambda>c. c = 0x20 \<or> c = 0x2e) (rev s))"

definition shown_title :: "u8 list \<Rightarrow> u8 list" where
  "shown_title t = map title_char (utf8_clip 239 t)"

lemma title_loop_spec:
  "used + length s \<le> 248 \<Longrightarrow> length out = 256 \<Longrightarrow>
   title_loop out used s = Some (take used out @ map title_char s @ drop (used + length s) out, used + length s)"
proof (induction s arbitrary: used out)
  case (Cons c s)
  then show ?case by (simp add: take_update_Suc)
qed simp

lemma extension_loop_spec:
  "used < 256 \<Longrightarrow> length out = 256 \<Longrightarrow>
   extension_loop out used s = Some (take used out @ take (255 - used) s @ drop (used + length (take (255 - used) s)) out,
     used + length (take (255 - used) s))"
proof (induction s arbitrary: used out)
  case (Cons c s)
  show ?case
  proof (cases "used + 1 < 256")
    case True
    have t: "take (255 - used) (c # s) = c # take (255 - Suc used) s" using True by (simp add: take_Cons')
    show ?thesis unfolding t using Cons.IH [of "Suc used" "out[used := c]"] True Cons.prems by (simp add: take_update_Suc)
  next
    case False
    then have "255 - used = 0" using Cons.prems by simp
    then show ?thesis using False by simp
  qed
qed simp

lemma trimmed_length: "length (trimmed s) \<le> length s"
  using length_dropWhile_le [of _ "rev s"] by (simp add: trimmed_def)

lemma trim_loop_spec:
  "n \<le> length out \<Longrightarrow> trim_loop out n = Some (length (trimmed (take n out))) \<and>
   take (length (trimmed (take n out))) out = trimmed (take n out)"
proof (induction n)
  case (Suc n)
  have "take (Suc n) out = take n out @ [out ! n]" using Suc.prems by (simp add: take_Suc_conv_app_nth)
  then show ?case using Suc by (auto simp: trimmed_def)
qed (simp add: trimmed_def)

lemma title_char_nonzero: "title_char c \<noteq> 0"
  by (auto simp: title_char_def)

lemma trimmed_set: "set (trimmed s) \<subseteq> set s"
  by (auto simp: trimmed_def dest: set_dropWhileD)

definition display_text :: "u8 list \<Rightarrow> u8 list \<Rightarrow> u8 list" where
  "display_text name title =
     (let u = trimmed (shown_title title) in u @ take (255 - length u) (drop (the (strrchr name 0x2e)) name))"

lemma display_name_spec:
  assumes "entry_strings_ok entry" and "e_display_name entry ! 255 = 0"
    and "c_string (e_title entry) = Some title" and "whole title" and "c_string (e_name entry) = Some name"
  shows "\<exists>d. display_name junk entry = Some (entry\<lparr>e_display_name := d\<rparr>) \<and> length d = 256 \<and> 0 \<in> set d \<and>
    (if title = [] \<or> e_kind entry \<notin> {1, 2} \<or> 0x2e \<notin> set name then d = e_display_name entry
     else if trimmed (shown_title title) = []
     then d = shown_title title @ drop (length (shown_title title)) (e_display_name entry)
     else c_string d = Some (display_text name title))"
proof -
  let ?old = "e_display_name entry"
  have old: "length ?old = 256" "length (e_title entry) = 256" "0 \<in> set ?old" using assms(1) by (auto simp: entry_strings_ok_def)
  obtain r where r: "e_title entry = title @ 0 # r" "0 \<notin> set title" using c_string_split [OF assms(3)] by blast
  have f: "fetch (e_title entry) 0 = Some (if title = [] then 0 else hd title)"
    unfolding r(1) by (cases title) simp_all
  have hz: "title \<noteq> [] \<Longrightarrow> hd title \<noteq> 0" using r(2) by (metis hd_in_set)
  show ?thesis
  proof (cases "title = [] \<or> e_kind entry \<notin> {1, 2} \<or> 0x2e \<notin> set name")
    case True
    have "display_name junk entry = Some entry"
      using True f assms(5) hz by (auto simp: display_name_def strrchr_None [symmetric])
    then show ?thesis using True old by (intro exI [of _ ?old]) simp
  next
    case False
    then obtain dot where dot: "strrchr name 0x2e = Some dot" using strrchr_None by fastforce
    let ?t = "shown_title title" and ?u = "trimmed (shown_title title)"
    obtain st where st: "copy_text (map junk [0..<240]) 240 (Some (e_title entry)) = Some st" "c_string st = Some (utf8_clip 239 title)"
      using copy_text_spec [of title "map junk [0..<240]" 240 r] r assms(4) by auto
    have lt: "length ?t \<le> 239" using utf8_clip_length [of 239 title] by (simp add: shown_title_def)
    let ?o = "?t @ drop (length ?t) ?old"
    have tl: "title_loop ?old 0 (utf8_clip 239 title) = Some (?o, length ?t)"
      using title_loop_spec [of 0 "utf8_clip 239 title" ?old] lt old(1) by (simp add: shown_title_def)
    have lo: "length ?o = 256" using lt old(1) by simp
    have tr: "trim_loop ?o (length ?t) = Some (length ?u)" "take (length ?u) ?o = ?u"
      using trim_loop_spec [of "length ?t" ?o] lo by simp_all
    have lu: "length ?u \<le> 239" using trimmed_length [of ?t] lt by simp
    have run: "display_name junk entry =
      (if length ?u = 0 \<or> length ?u + 7 \<ge> 256 then Some (entry\<lparr>e_display_name := ?o\<rparr>)
       else do { (out, used) \<leftarrow> extension_loop ?o (length ?u) (drop dot name); out \<leftarrow> store out used 0;
         Some (entry\<lparr>e_display_name := out\<rparr>) })"
      using False f hz assms(5) dot st tl tr(1) by (auto simp: display_name_def)
    show ?thesis
    proof (cases "?u = []")
      case True
      have "?o ! 255 = 0" using lt old(1) assms(2) by (simp add: nth_append)
      then have "0 \<in> set ?o" using nth_mem [of 255 ?o] lo by simp
      then show ?thesis using run True False lo by (intro exI [of _ ?o]) simp
    next
      case nb: False
      let ?e = "take (255 - length ?u) (drop dot name)"
      let ?k = "length ?u + length ?e"
      let ?p = "(?u @ ?e) @ drop ?k ?o"
      have ex: "extension_loop ?o (length ?u) (drop dot name) = Some (?p, ?k)"
      proof -
        have "length ?u < 256" using lu by simp
        from extension_loop_spec [OF this lo, of "drop dot name"] show ?thesis by (simp only: tr(2) append_assoc)
      qed
      have k: "?k < 256" using lu by simp
      let ?d = "(?u @ ?e) @ 0 # drop (Suc ?k) ?o"
      have d: "store ?p ?k 0 = Some ?d"
      proof -
        have "?k = length (?u @ ?e)" "?k < length ?o" using k lo by (simp_all only: length_append)
        then show ?thesis by (rule store_end)
      qed
      have z: "0 \<notin> set (?u @ ?e)"
      proof -
        have "0 \<notin> set ?t" using title_char_nonzero by (auto simp: shown_title_def)
        moreover have "0 \<notin> set name" using c_string_nonzero [OF assms(5)] .
        ultimately show ?thesis using trimmed_set [of ?t] by (auto dest: in_set_takeD in_set_dropD)
      qed
      have dt: "display_text name title = ?u @ ?e" by (simp add: display_text_def dot Let_def)
      have "length ?d = ?k + Suc (length ?o - Suc ?k)" by (simp only: length_append list.size(4) length_drop)
      then have "length ?d = 256" using k lo by linarith
      have "display_name junk entry = Some (entry\<lparr>e_display_name := ?d\<rparr>)"
      proof -
        have "\<not> (length ?u = 0 \<or> length ?u + 7 \<ge> 256)" using nb lu by simp
        then show ?thesis unfolding run by (simp only: if_False ex d Option.bind.simps prod.case)
      qed
      moreover have "0 \<in> set ?d" by (simp only: set_append list.set) blast
      moreover have "c_string ?d = Some (display_text name title)" unfolding dt by (rule c_string_append [OF z])
      ultimately show ?thesis using \<open>length ?d = 256\<close> nb False by (intro exI [of _ ?d]) (simp only: if_False simp_thms)
    qed
  qed
qed

text \<open>Every name that is shown is non-empty and free of refused characters.\<close>

definition shows_name :: "u8 list \<Rightarrow> bool" where
  "shows_name d \<longleftrightarrow> (\<exists>x. c_string d = Some x \<and> x \<noteq> [] \<and> (\<forall>c \<in> set x. \<not> name_char_refused c))"

lemma title_char_accepted: "\<not> name_char_refused (title_char c)"
  by (auto simp: title_char_def name_char_refused_def)

lemma shown_title_nonempty:
  assumes "whole t" and "t \<noteq> []"
  shows "shown_title t \<noteq> []"
proof -
  have "unit_length t \<noteq> 0" using whole_unit(1) [OF assms] .
  moreover have "unit_length t \<le> 4" using lead_length_le by (auto simp: unit_length_def split: list.splits)
  ultimately have "utf8_clip 239 t \<noteq> []" using assms(2) by (subst utf8_clip.simps) simp
  then show ?thesis by (simp add: shown_title_def)
qed

lemma display_shows_name:
  assumes "valid_name name" and "old = name @ replicate n 0" and "whole title"
    and "if title = [] \<or> k \<or> 0x2e \<notin> set name then d = old
     else if trimmed (shown_title title) = [] then d = shown_title title @ drop (length (shown_title title)) old
     else c_string d = Some (display_text name title)"
    and "0 \<in> set d"
  shows "shows_name d"
proof -
  have nm: "name \<noteq> []" "\<forall>c \<in> set name. \<not> name_char_refused c" using assms(1) by (auto simp: valid_name_def)
  have t: "\<forall>c \<in> set (shown_title title). \<not> name_char_refused c" using title_char_accepted by (auto simp: shown_title_def)
  have nz: "0 \<notin> set name" by (rule valid_name_nonzero [OF assms(1)])
  from \<open>0 \<in> set d\<close> have c: "c_string d = Some (takeWhile (\<lambda>c. c \<noteq> 0) d)" by (rule c_string_Some)
  consider "d = old" | "title \<noteq> []" "d = shown_title title @ drop (length (shown_title title)) old"
    | "c_string d = Some (display_text name title)" "trimmed (shown_title title) \<noteq> []"
    using assms(4) by (auto split: if_splits)
  then show ?thesis
  proof cases
    case 1
    have "takeWhile (\<lambda>c. c \<noteq> 0) d = name" unfolding 1 assms(2) using nz by (auto simp: takeWhile_append takeWhile_replicate)
    then show ?thesis using c nm by (simp add: shows_name_def)
  next
    case 2
    let ?t = "shown_title title"
    have "name_char_refused 0" by (simp add: name_char_refused_def)
    then have tz: "\<forall>c \<in> set ?t. c \<noteq> 0" using t by metis
    have "d = (?t @ drop (length ?t) name) @ replicate (n - (length ?t - length name)) 0"
      unfolding 2 assms(2) by simp
    moreover have "\<forall>c \<in> set (?t @ drop (length ?t) name). c \<noteq> 0" using tz nz by (auto dest: in_set_dropD)
    ultimately have "takeWhile (\<lambda>c. c \<noteq> 0) d = ?t @ drop (length ?t) name"
      by (simp only: takeWhile_append2 takeWhile_replicate) simp
    then show ?thesis
      using c nm t shown_title_nonempty [OF assms(3) 2(1)] by (auto simp: shows_name_def dest: in_set_dropD)
  next
    case 3
    have "\<forall>c \<in> set (display_text name title). \<not> name_char_refused c"
      using nm(2) t trimmed_set [of "shown_title title"]
      by (auto simp: display_text_def Let_def dest!: in_set_takeD in_set_dropD)
    then show ?thesis using 3 by (auto simp: shows_name_def display_text_def Let_def)
  qed
qed

subsection \<open>Entries\<close>

definition text_of :: "u8 list option \<Rightarrow> u8 list" where
  "text_of x = (case x of None \<Rightarrow> [] | Some s \<Rightarrow> s)"

lemma copy_media_text:
  assumes "text_ok x" and "length out = capacity" and "0 < capacity" and "2 \<le> length slack"
  shows "\<exists>out'. copy_text out capacity (map_option (behind slack) x) = Some out' \<and> length out' = capacity \<and>
    c_string out' = Some (utf8_clip (capacity - 1) (text_of x))"
proof (cases x)
  case None
  have "whole []" unfolding whole_def by (subst utf8_clip.simps) (simp add: unit_length_def)
  moreover have "copy_text out capacity None = copy_text out capacity (Some ([] @ 0 # []))" by (simp add: copy_text_def)
  ultimately show ?thesis using copy_text_spec [of "[]" out capacity "[]"] assms None by (simp add: text_of_def)
next
  case (Some s)
  then show ?thesis using copy_text_spec [of s out capacity slack] assms by (simp add: text_ok_def behind_def text_of_def)
qed

text \<open>The name shown to the host: made of the title where there is a usable one, the file name otherwise.\<close>

definition display_shown :: "VcmLibraryMediaInfo \<Rightarrow> u8 list \<Rightarrow> bool" where
  "display_shown m n \<longleftrightarrow> shows_name n \<and>
     (let title = utf8_clip 255 (text_of (m_title m)) in
      if title = [] \<or> m_kind m \<notin> {1, 2} \<or> 0x2e \<notin> set (m_name m) then c_string n = Some (m_name m)
      else trimmed (shown_title title) \<noteq> [] \<longrightarrow> c_string n = Some (display_text (m_name m) title))"

text \<open>The announced size of a photo's thumbnail: a bitmap header and rows of 24-bit pixels padded to four bytes.\<close>

definition thumb_announced :: "VcmLibraryMediaInfo \<Rightarrow> u32 \<Rightarrow> bool" where
  "thumb_announced m z \<longleftrightarrow>
     unat z = (if m_kind m = VCM_LIBRARY_PHOTO \<and> m_thumb_width m \<noteq> 0 \<and> m_thumb_height m \<noteq> 0
       then 54 + (unat (m_thumb_width m) * 3 + 3) div 4 * 4 * unat (m_thumb_height m) else 0)"

text \<open>The entry that describes a media file.\<close>

definition describes :: "VcmLibraryMediaInfo \<Rightarrow> VcmMtpEntry \<Rightarrow> bool" where
  "describes m e \<longleftrightarrow>
     e_native_id e = m_id m \<and> e_size e = m_size m \<and> e_format e = m_mtp_format m \<and> e_kind e = word_of_int (m_kind m) \<and>
     e_parent e = parent_of_kind (m_kind m) \<and> c_string (e_name e) = Some (m_name m) \<and>
     c_string (e_title e) = Some (utf8_clip 255 (text_of (m_title m))) \<and>
     c_string (e_artist e) = Some (utf8_clip 127 (text_of (m_artist m))) \<and>
     c_string (e_album e) = Some (utf8_clip 127 (text_of (m_album m))) \<and>
     c_string (e_created e) = Some (m_created m) \<and> c_string (e_modified e) = Some (m_modified m) \<and>
     e_thumb_width e = m_thumb_width m \<and> e_thumb_height e = m_thumb_height m \<and> e_width e = m_width m \<and> e_height e = m_height m \<and>
     thumb_announced m (e_thumb_size e) \<and>
     display_shown m (e_display_name e)"

lemma utf8_ascii: "\<forall>c \<in> set s. c \<noteq> 0 \<and> c < 0x80 \<Longrightarrow> length s \<le> room \<Longrightarrow> utf8_clip room s = s"
proof (induction s arbitrary: room)
  case Nil
  then show ?case by (subst utf8_clip.simps) (simp add: unit_length_def)
next
  case (Cons c s)
  then have "unit_length (c # s) = 1" by (simp add: unit_length_def lead_length_def)
  then show ?case using Cons by (subst utf8_clip.simps) simp
qed

lemma date_text: "t = [] \<or> mtp_date t \<Longrightarrow> utf8_clip 23 t = t \<and> 0 \<notin> set t"
proof -
  assume t: "t = [] \<or> mtp_date t"
  have "c < 0x80" if c: "c \<in> set t" for c
  proof -
    obtain i where "i < 15" "c = t ! i" "mtp_date t" using t c by (cases "t = []") (auto simp: mtp_date_def in_set_conv_nth)
    then show ?thesis by (cases "i = 8") (auto simp: mtp_date_def is_digit_def word_le_nat_alt word_less_nat_alt)
  qed
  moreover have "length t \<le> 23" "0 \<notin> set t" using t mtp_date_nonzero by (auto simp: mtp_date_def)
  ultimately show ?thesis using utf8_ascii [of t 23] by auto
qed

lemma thumbnail_stride:
  assumes "(w :: u16) \<le> 256"
  shows "unat ((ucast w * 3 + 3 :: u32) AND NOT 3) = (unat w * 3 + 3) div 4 * 4"
proof -
  have "unat w \<le> 256" using assms by (simp add: word_le_nat_alt)
  then have u: "unat (ucast w * 3 + 3 :: u32) = unat w * 3 + 3"
    by (simp add: unat_word_ariths unsigned_ucast_eq take_bit_nat_def)
  have "mask 2 = (3 :: u32)" by (simp add: mask_eq_exp_minus_1)
  then show ?thesis using unat_and_not_mask [of "ucast w * 3 + 3 :: u32" 2] u by (simp only:) simp
qed

lemma thumbnail_bytes_spec:
  assumes "e_thumb_width e \<le> 256" and "e_thumb_height e \<le> 256" and "e_kind e = 0" "e_thumb_width e \<noteq> 0" "e_thumb_height e \<noteq> 0"
  shows "unat (thumbnail_bytes e) = 54 + (unat (e_thumb_width e) * 3 + 3) div 4 * 4 * unat (e_thumb_height e)"
proof -
  let ?s = "(unat (e_thumb_width e) * 3 + 3) div 4 * 4"
  have w: "unat (e_thumb_width e) \<le> 256" "unat (e_thumb_height e) \<le> 256" using assms(1,2) by (simp_all add: word_le_nat_alt)
  have h: "unat (ucast (e_thumb_height e) :: u32) = unat (e_thumb_height e)"
    using w by (simp add: unsigned_ucast_eq take_bit_nat_def)
  have s: "?s \<le> 772" using w(1) by simp
  have m: "?s * unat (e_thumb_height e) \<le> 772 * 256" using s w(2) by (rule mult_le_mono)
  define x where "x = (ucast (e_thumb_width e) * 3 + 3 :: u32) AND NOT 3"
  have x: "unat x = ?s" unfolding x_def by (rule thumbnail_stride [OF assms(1)])
  have "unat (54 + x * ucast (e_thumb_height e)) = 54 + ?s * unat (e_thumb_height e)"
    using m by (simp add: unat_word_ariths h x)
  then show ?thesis using assms(3-5) by (simp add: thumbnail_bytes_def Let_def x_def)
qed

lemma fill_entry_spec:
  assumes "entry_strings_ok entry" and "e_display_name entry ! 255 = 0" and "c_string (e_name entry) = Some (m_name m)"
    and "e_display_name entry = m_name m @ replicate k 0" and "valid_name (m_name m)" and "e_thumb_size entry = 0"
    and "e_kind entry = word_of_int (m_kind m)" and "media_valid kind m" and "0 \<le> kind" and "kind < 3" and "2 \<le> length slack"
  shows "\<exists>t a b c d z n. fill_entry junk slack m entry =
      Some (entry\<lparr>e_title := t, e_artist := a, e_album := b, e_created := c, e_modified := d,
        e_thumb_width := m_thumb_width m, e_thumb_height := m_thumb_height m, e_width := m_width m, e_height := m_height m,
        e_thumb_size := z, e_display_name := n\<rparr>) \<and>
    length t = 256 \<and> length a = 128 \<and> length b = 128 \<and> length c = 24 \<and> length d = 24 \<and> length n = 256 \<and> 0 \<in> set n \<and>
    c_string t = Some (utf8_clip 255 (text_of (m_title m))) \<and> c_string a = Some (utf8_clip 127 (text_of (m_artist m))) \<and>
    c_string b = Some (utf8_clip 127 (text_of (m_album m))) \<and> c_string c = Some (m_created m) \<and> c_string d = Some (m_modified m) \<and>
    thumb_announced m z \<and>
    display_shown m n"
proof -
  have ok: "text_ok (m_title m)" "text_ok (m_artist m)" "text_ok (m_album m)" "m_thumb_width m \<le> 256" "m_thumb_height m \<le> 256"
    "m_kind m \<noteq> 0 \<longrightarrow> m_thumb_width m = 0 \<and> m_thumb_height m = 0"
    using assms(8) by (auto simp: media_valid_def)
  have k: "m_kind m = 0 \<or> m_kind m = 1 \<or> m_kind m = 2 \<or> m_kind m = 3" using assms(8-10) by (auto simp: media_valid_def)
  have len: "length (e_title entry) = 256" "length (e_artist entry) = 128" "length (e_album entry) = 128"
    "length (e_created entry) = 24" "length (e_modified entry) = 24"
    using assms(1) by (auto simp: entry_strings_ok_def)
  obtain t where t: "copy_text (e_title entry) 256 (map_option (behind slack) (m_title m)) = Some t" "length t = 256"
    "c_string t = Some (utf8_clip 255 (text_of (m_title m)))"
    using copy_media_text [OF ok(1) len(1) _ assms(11)] by auto
  obtain a where a: "copy_text (e_artist entry) 128 (map_option (behind slack) (m_artist m)) = Some a" "length a = 128"
    "c_string a = Some (utf8_clip 127 (text_of (m_artist m)))"
    using copy_media_text [OF ok(2) len(2) _ assms(11)] by auto
  obtain b where b: "copy_text (e_album entry) 128 (map_option (behind slack) (m_album m)) = Some b" "length b = 128"
    "c_string b = Some (utf8_clip 127 (text_of (m_album m)))"
    using copy_media_text [OF ok(3) len(3) _ assms(11)] by auto
  have cr: "utf8_clip 23 (m_created m) = m_created m" "0 \<notin> set (m_created m)"
    and mo: "utf8_clip 23 (m_modified m) = m_modified m" "0 \<notin> set (m_modified m)"
    using date_text assms(8) unfolding media_valid_def by blast+
  obtain c where c: "copy_text (e_created entry) 24 (Some (behind slack (m_created m))) = Some c" "length c = 24" "c_string c = Some (m_created m)"
    using copy_text_spec [OF cr(2) len(4), of slack] assms(11) cr(1) by (auto simp: behind_def)
  obtain d where d: "copy_text (e_modified entry) 24 (Some (behind slack (m_modified m))) = Some d" "length d = 24" "c_string d = Some (m_modified m)"
    using copy_text_spec [OF mo(2) len(5), of slack] assms(11) mo(1) by (auto simp: behind_def)
  define e1 where "e1 = entry\<lparr>e_title := t, e_artist := a, e_album := b, e_created := c, e_modified := d,
    e_thumb_width := m_thumb_width m, e_thumb_height := m_thumb_height m, e_width := m_width m, e_height := m_height m\<rparr>"
  define z where "z = thumbnail_bytes e1"
  have uz: "thumb_announced m z"
  proof (cases "m_kind m = 0 \<and> m_thumb_width m \<noteq> 0 \<and> m_thumb_height m \<noteq> 0")
    case True
    then show ?thesis using thumbnail_bytes_spec [of e1] ok(4,5) assms(7) by (simp add: z_def e1_def thumb_announced_def)
  next
    case False
    then show ?thesis using k assms(6,7) by (auto simp: z_def e1_def thumbnail_bytes_def thumb_announced_def)
  qed
  have zs: "0 \<in> set t" "0 \<in> set a" "0 \<in> set b" "0 \<in> set c" "0 \<in> set d"
    using t(3) a(3) b(3) c(3) d(3) by (auto simp: c_string_def split: if_splits)
  have e1: "entry_strings_ok (e1\<lparr>e_thumb_size := z\<rparr>)"
    using assms(1) t(2) a(2) b(2) c(2) d(2) zs by (simp add: e1_def entry_strings_ok_def)
  define title where "title = utf8_clip 255 (text_of (m_title m))"
  obtain n where n: "display_name junk (e1\<lparr>e_thumb_size := z\<rparr>) = Some (e1\<lparr>e_thumb_size := z, e_display_name := n\<rparr>)"
    "length n = 256" "0 \<in> set n"
    "if title = [] \<or> e_kind e1 \<notin> {1, 2} \<or> 0x2e \<notin> set (m_name m) then n = e_display_name entry
     else if trimmed (shown_title title) = [] then n = shown_title title @ drop (length (shown_title title)) (e_display_name entry)
     else c_string n = Some (display_text (m_name m) title)"
    using display_name_spec [OF e1, of title "m_name m" junk] assms(2,3) t(3) utf8_clip_whole [of 255 "text_of (m_title m)"]
    by (auto simp: e1_def title_def)
  have old: "c_string (e_display_name entry) = Some (m_name m)"
  proof -
    have "0 \<in> set (e_display_name entry)" using assms(1) by (simp add: entry_strings_ok_def)
    moreover have "takeWhile (\<lambda>c. c \<noteq> 0) (e_display_name entry) = m_name m"
      unfolding assms(4) using valid_name_nonzero [OF assms(5)] by (auto simp: takeWhile_append takeWhile_replicate)
    ultimately show ?thesis by (simp add: c_string_Some)
  qed
  have clean: "shows_name n"
    using display_shows_name [OF assms(5,4) _ n(4) n(3)] utf8_clip_whole [of 255 "text_of (m_title m)"] by (simp add: title_def)
  have kk: "e_kind e1 \<notin> {1, 2} \<longleftrightarrow> m_kind m \<notin> {1, 2}" using k assms(7) by (auto simp: e1_def)
  have fe: "fill_entry junk slack m entry = Some (e1\<lparr>e_thumb_size := z, e_display_name := n\<rparr>)"
    by (simp add: fill_entry_def t(1) a(1) b(1) c(1) d(1) Let_def z_def e1_def [symmetric] n(1) [unfolded z_def])
  have dn: "display_shown m n"
    using n(4) old clean unfolding display_shown_def kk Let_def title_def [symmetric] by (auto split: if_splits)
  show ?thesis
    by (intro exI conjI) (rule fe [unfolded e1_def], (rule t(2) a(2) b(2) c(2) d(2) n(2,3) t(3) a(3) b(3) c(3) d(3) uz dn)+)
qed

lemma catalog_entry_update:
  assumes inv: "catalog_inv c" and es: "c_entries c = Some es" and i: "3 \<le> i" "i < length (visible c)"
    and e: "entry_wf i e" "media_ok e"
  defines "c' \<equiv> c\<lparr>c_entries := Some (es[i := e])\<rparr>"
  shows "visible c' = (visible c)[i := e]" and "catalog_inv c'"
proof -
  show v: "visible c' = (visible c)[i := e]" using es by (simp add: c'_def take_update_swap)
  have "entry_wf j ((visible c)[i := e] ! j)" if "j < length (visible c)" for j
    using that inv e(1) i(2) by (cases "j = i") (auto simp: catalog_inv_def catalog_wf_def)
  moreover have "take 3 ((visible c)[i := e]) = take 3 (visible c)" using i(1) by simp
  moreover have "\<forall>x \<in> set (drop 3 ((visible c)[i := e])). media_ok x"
  proof -
    have "drop 3 ((visible c)[i := e]) = (drop 3 (visible c))[i - 3 := e]" using i(1) by (simp add: drop_update_swap)
    then show ?thesis using inv e(2) set_update_subset_insert [of "drop 3 (visible c)" "i - 3" e] by (auto simp: catalog_inv_def)
  qed
  ultimately show "catalog_inv c'"
    using inv es unfolding catalog_inv_def catalog_wf_def v by (simp add: c'_def)
qed

lemma add_entry_spec:
  assumes inv: "catalog_inv c" and m: "media_valid kind m" and k: "0 \<le> kind" "kind < 3" and slack: "2 \<le> length slack"
  shows "\<exists>rc c'. add_entry junk slack c m = Some (rc, c') \<and> catalog_inv c' \<and> c_capacity c' = c_capacity c \<and>
    (if c_count c < c_capacity c \<and> c_count c < 0xfffffffe \<and> valid_name (m_name m)
     then rc = 0 \<and> (\<exists>e. visible c' = visible c @ [e] \<and> e_handle e = c_count c + 1 \<and> describes m e)
     else rc = - 1 \<and> visible c' = visible c)"
proof -
  have mk: "m_kind m \<in> {0..3}" "m_size m \<noteq> 0" using m k by (auto simp: media_valid_def)
  have adm: "admissible c (m_kind m) (m_id m) (Some (m_name m)) (m_size m) (m_mtp_format m) \<longleftrightarrow>
    c_count c < c_capacity c \<and> c_count c < 0xfffffffe \<and> valid_name (m_name m)"
    using m mk by (auto simp: admissible_def media_valid_def)
  have nz: "0 \<notin> set (m_name m)" using m by (simp add: media_valid_def)
  obtain h c1 where add: "vcm_mtp_catalog_add c (m_kind m) (m_id m) (Some (m_name m)) (m_size m) (m_mtp_format m) = Some (h, c1)"
    "catalog_inv c1" "c_capacity c1 = c_capacity c"
    "if admissible c (m_kind m) (m_id m) (Some (m_name m)) (m_size m) (m_mtp_format m)
     then h = c_count c + 1 \<and> visible c1 = visible c @ [new_entry c (m_kind m) (m_id m) (m_name m) (m_size m) (m_mtp_format m)]
     else h = 0 \<and> visible c1 = visible c"
    using catalog_add_spec [OF inv, of "m_kind m" "Some (m_name m)" "m_id m" "m_size m" "m_mtp_format m"] mk nz by auto
  show ?thesis
  proof (cases "c_count c < c_capacity c \<and> c_count c < 0xfffffffe \<and> valid_name (m_name m)")
    case False
    then show ?thesis using add mk(2) unfolding adm by (simp add: add_entry_def)
  next
    case True
    let ?i = "unat (c_count c)"
    let ?n = "new_entry c (m_kind m) (m_id m) (m_name m) (m_size m) (m_mtp_format m)"
    have h: "h = c_count c + 1" "visible c1 = visible c @ [?n]" using add(4) True unfolding adm by simp_all
    have suc: "unat (c_count c + 1) = Suc ?i" using True unat_Suc_bounded by blast
    then have hz: "h \<noteq> 0" "unat (h - 1) = ?i" using h(1) by auto
    obtain es where es: "c_entries c1 = Some es" using add(2) by (auto simp: catalog_inv_def catalog_wf_def)
    have lv: "length (visible c) = ?i" "3 \<le> ?i"
      using inv catalog_wf_length [of c] by (auto simp: catalog_inv_def catalog_wf_def word_le_nat_alt)
    have fe: "fetch es ?i = Some ?n"
    proof -
      have l: "?i < length (visible c1)" "visible c1 ! ?i = ?n" using h(2) lv(1) by (simp_all add: nth_append)
      moreover have "visible c1 = take (unat (c_count c1)) es" using es by simp
      ultimately have "es ! ?i = ?n" "?i < length es" by (metis length_take min_less_iff_conj nth_take)+
      then show ?thesis by simp
    qed
    have nw: "entry_wf ?i ?n" "media_ok ?n"
      using new_entry_wf [OF mk(1) _ suc lv(2)] True m by (auto simp: media_valid_def)
    have vn: "length (m_name m) \<le> 240" using True by (simp add: valid_name_def)
    have nm: "e_name ?n = m_name m @ 0 # replicate (255 - length (m_name m)) 0" "e_display_name ?n = e_name ?n"
      using vn by (simp_all add: new_entry_def Suc_diff_le flip: replicate_Suc)
    have cn: "c_string (e_name ?n) = Some (m_name m)" unfolding nm(1) by (rule c_string_append [OF nz])
    have dn: "e_display_name ?n = m_name m @ replicate (256 - length (m_name m)) 0" by (simp add: new_entry_def)
    have d0: "e_display_name ?n ! 255 = 0" unfolding nm using vn by (simp add: nth_append nth_Cons')
    have so: "entry_strings_ok ?n" using nw(1) by (simp add: entry_wf_def)
    have base: "e_thumb_size ?n = 0" "e_kind ?n = word_of_int (m_kind m)" by (simp_all add: new_entry_def clear_entry_def)
    obtain t a b cc d z n where f: "fill_entry junk slack m ?n =
      Some (?n\<lparr>e_title := t, e_artist := a, e_album := b, e_created := cc, e_modified := d,
        e_thumb_width := m_thumb_width m, e_thumb_height := m_thumb_height m, e_width := m_width m, e_height := m_height m,
        e_thumb_size := z, e_display_name := n\<rparr>)" (is "_ = Some ?e")
      "length t = 256" "length a = 128" "length b = 128" "length cc = 24" "length d = 24" "length n = 256" "0 \<in> set n"
      "c_string t = Some (utf8_clip 255 (text_of (m_title m)))" "c_string a = Some (utf8_clip 127 (text_of (m_artist m)))"
      "c_string b = Some (utf8_clip 127 (text_of (m_album m)))" "c_string cc = Some (m_created m)" "c_string d = Some (m_modified m)"
      "thumb_announced m z"
      "display_shown m n"
      using fill_entry_spec [OF so d0 cn dn _ base m k slack] True by blast
    have "0 \<in> set t" "0 \<in> set a" "0 \<in> set b" "0 \<in> set cc" "0 \<in> set d"
      using f(9-13) by (auto simp: c_string_def split: if_splits)
    then have ew: "entry_wf ?i ?e" using nw(1) f(2-8) by (simp add: entry_wf_def entry_strings_ok_def)
    have mo: "media_ok ?e" using nw(2) by (simp add: media_ok_def)
    have "e_native_id ?n = m_id m" "e_size ?n = m_size m" "e_format ?n = m_mtp_format m" "e_parent ?n = parent_of_kind (m_kind m)"
      "e_handle ?n = c_count c + 1" by (simp_all add: new_entry_def)
    then have de: "describes m ?e" "e_handle ?e = c_count c + 1"
      using f(9-15) cn base(2) by (simp_all add: describes_def)
    have up: "visible (c1\<lparr>c_entries := Some (es[?i := ?e])\<rparr>) = (visible c1)[?i := ?e]"
      "catalog_inv (c1\<lparr>c_entries := Some (es[?i := ?e])\<rparr>)"
      using catalog_entry_update [OF add(2) es lv(2) _ ew mo] h(2) lv(1) by simp_all
    have "?i < length es" using fetch_SomeD [OF fe] by simp
    then have run: "add_entry junk slack c m = Some (0, c1\<lparr>c_entries := Some (es[?i := ?e])\<rparr>)"
      using mk(2) hz fe f(1) es by (simp add: add_entry_def add(1))
    have "visible (c1\<lparr>c_entries := Some (es[?i := ?e])\<rparr>) = visible c @ [?e]"
      unfolding up(1) h(2) using lv(1) by (metis list_update_length)
    then show ?thesis using run up(2) add(3) True de by auto
  qed
qed

subsection \<open>The snapshot\<close>

text \<open>The visitor \<open>add_entry\<close> keeps the catalogue invariant, so the enumeration does.\<close>

interpretation snapshot: media_visitor "add_entry junk slack0"
    "\<lambda>c. catalog_inv c \<and> c_capacity c = cap \<and> 2 \<le> length slack0"
  for junk slack0 cap
proof
  fix c kind m assume "catalog_inv c \<and> c_capacity c = cap \<and> 2 \<le> length slack0" "media_valid kind m" "0 \<le> kind" "kind < 3"
  then show "\<exists>rc c'. add_entry junk slack0 c m = Some (rc, c') \<and> catalog_inv c' \<and> c_capacity c' = cap \<and> 2 \<le> length slack0"
    using add_entry_spec [of c kind m slack0 junk] by blast
qed

definition device_ok :: "device \<Rightarrow> bool" where
  "device_ok dev \<longleftrightarrow>
     (\<forall>kind row. Some row \<in> set (sql_steps (dev_rows dev kind)) \<longrightarrow> row_ok row) \<and>
     (\<forall>n storage. dev_malloc dev n = Some storage \<longrightarrow> length storage = n)"

lemma enumerate_kind_keeps:
  assumes "device_ok dev" and "catalog_inv c" and "2 \<le> length slack"
  shows "\<exists>rc c'. enumerate_kind dev junk slack kind c = Some (rc, c') \<and> catalog_inv c' \<and> c_capacity c' = c_capacity c \<and> rc \<in> {0, - 1}"
  using snapshot.enumerate_keeps [of c "c_capacity c" slack "dev_rows dev kind" kind "dev_stat dev" junk] assms
  unfolding enumerate_kind_def device_ok_def by blast

lemma library_count_total: "\<exists>rc n. vcm_library_count kind q (Some v) = (rc, Some n)"
  by (auto simp: vcm_library_count_def Let_def split: list.splits option.splits)

text \<open>The number of entries asked for, and whether an allocation is made.\<close>

definition counted :: "device \<Rightarrow> int \<Rightarrow> nat" where
  "counted dev kind = unat (the (snd (vcm_library_count kind (dev_count dev kind) (Some 0))))"

definition entries_needed :: "device \<Rightarrow> nat" where
  "entries_needed dev = 3 + counted dev 0 + counted dev 1 + 2 * counted dev 2"

definition allocates :: "device \<Rightarrow> bool" where
  "allocates dev \<longleftrightarrow> (\<forall>kind \<in> {0, 1, 2}. 0 \<le> fst (vcm_library_count kind (dev_count dev kind) (Some 0))) \<and>
     entries_needed dev * 1120 \<le> 24 * 1024 * 1024 \<and> dev_malloc dev (entries_needed dev) \<noteq> None"

text \<open>Where a built catalogue comes from: the root folders, then the three enumerations.\<close>

definition enumerated :: "device \<Rightarrow> (nat \<Rightarrow> u8) \<Rightarrow> u8 list \<Rightarrow> VcmMtpCatalog \<Rightarrow> bool" where
  "enumerated dev junk slack c \<longleftrightarrow> (\<exists>storage capacity c0 c1 c2.
     vcm_mtp_catalog_init (Some storage) capacity = Some (Inr c0) \<and> catalog_inv c0 \<and>
     enumerate_kind dev junk slack VCM_LIBRARY_PHOTO c0 = Some (0, c1) \<and> enumerate_kind dev junk slack VCM_LIBRARY_MUSIC c1 = Some (0, c2) \<and>
     enumerate_kind dev junk slack VCM_LIBRARY_VIDEO c2 = Some (0, c))"

lemma snapshot_build_trace:
  assumes "device_ok dev" and "2 \<le> length slack"
  shows "\<exists>rc s freed. vcm_mtp_snapshot_build dev junk slack (Some old) = Some (rc, Some s, freed) \<and>
    (if rc = 0
     then catalog_inv (sn_catalog s) \<and> sn_allocation s \<noteq> None \<and> freed = 0 \<and> allocates dev \<and>
       unat (c_capacity (sn_catalog s)) = entries_needed dev \<and>
       enumerated dev junk slack (sn_catalog s)
     else rc = - 1 \<and> s = no_snapshot \<and> freed = (if allocates dev then 1 else 0))"
proof -
  obtain rp p where cp: "vcm_library_count 0 (dev_count dev 0) (Some 0) = (rp, Some p)" using library_count_total by blast
  obtain rm m where cm: "vcm_library_count 1 (dev_count dev 1) (Some 0) = (rm, Some m)" using library_count_total by blast
  obtain rv v where cv: "vcm_library_count 2 (dev_count dev 2) (Some 0) = (rv, Some v)" using library_count_total by blast
  define needed where "needed = (3 + ucast p + ucast m + 2 * ucast v :: u64)"
  have nd: "entries_needed dev = 3 + unat p + unat m + 2 * unat v" by (simp add: entries_needed_def counted_def cp cm cv)
  have lt: "unat p < 2 ^ 32" "unat m < 2 ^ 32" "unat v < 2 ^ 32" by (rule unat_u32_less)+
  have un: "unat needed = entries_needed dev"
    using lt unfolding nd needed_def by (simp add: unat_word_ariths unsigned_ucast_eq take_bit_nat_def)
  have big: "unat (needed * entry_bytes) = entries_needed dev * 1120"
    using lt nd by (simp add: unat_word_ariths un)
  have guard: "(needed > 0xfffffffe \<or> needed * entry_bytes > 24 * 1024 * 1024) \<longleftrightarrow> entries_needed dev * 1120 > 24 * 1024 * 1024"
    by (auto simp: word_less_nat_alt big un)
  have al: "allocates dev \<longleftrightarrow> \<not> (rp < 0 \<or> rm < 0 \<or> rv < 0) \<and> \<not> (needed > 0xfffffffe \<or> needed * entry_bytes > 24 * 1024 * 1024) \<and>
      dev_malloc dev (unat needed) \<noteq> None"
    unfolding guard un by (auto simp: allocates_def cp cm cv)
  show ?thesis
  proof (cases "allocates dev")
    case False
    have "vcm_mtp_snapshot_build dev junk slack (Some old) = Some (- 1, Some no_snapshot, 0)"
      using False unfolding al vcm_mtp_snapshot_build_def option.case cp cm cv prod.case Let_def needed_def [symmetric] by auto
    then show ?thesis using False by simp
  next
    case True
    then obtain st where st: "dev_malloc dev (unat needed) = Some st" unfolding al by blast
    have sz: "entries_needed dev \<le> 22469" using True by (simp add: allocates_def)
    have cap: "unat (ucast needed :: u32) = entries_needed dev"
      using sz un by (simp add: unsigned_ucast_eq take_bit_nat_def)
    have "length st = unat (ucast needed :: u32)" "3 \<le> (ucast needed :: u32)"
      using assms(1) st un cap nd by (auto simp: device_ok_def word_le_nat_alt)
    then obtain c0 where c0: "vcm_mtp_catalog_init (Some st) (ucast needed) = Some (Inr c0)" "catalog_inv c0" "c_capacity c0 = ucast needed"
      using catalog_init_spec by blast
    obtain r1 c1 where c1: "enumerate_kind dev junk slack 0 c0 = Some (r1, c1)" "catalog_inv c1" "c_capacity c1 = c_capacity c0" "r1 \<in> {0, - 1}"
      using enumerate_kind_keeps [OF assms(1) c0(2) assms(2)] by blast
    obtain r2 c2 where c2: "enumerate_kind dev junk slack 1 c1 = Some (r2, c2)" "catalog_inv c2" "c_capacity c2 = c_capacity c1" "r2 \<in> {0, - 1}"
      using enumerate_kind_keeps [OF assms(1) c1(2) assms(2)] by blast
    obtain r3 c3 where c3: "enumerate_kind dev junk slack 2 c2 = Some (r3, c3)" "catalog_inv c3" "c_capacity c3 = c_capacity c2" "r3 \<in> {0, - 1}"
      using enumerate_kind_keeps [OF assms(1) c2(2) assms(2)] by blast
    have run: "vcm_mtp_snapshot_build dev junk slack (Some old) =
      (if r1 = 0 \<and> r2 = 0 \<and> r3 = 0 then Some (0, Some \<lparr>sn_catalog = c3, sn_allocation = Some st\<rparr>, 0)
       else Some (- 1, Some no_snapshot, 1))"
      using True st c1(4) c2(4) c3(4) unfolding al
      unfolding vcm_mtp_snapshot_build_def option.case cp cm cv prod.case Let_def needed_def [symmetric]
      by (auto simp: c0(1) c1(1) c2(1) c3(1) vcm_mtp_snapshot_destroy_def)
    have "enumerated dev junk slack c3" if "r1 = 0" "r2 = 0" "r3 = 0"
      using c0(1,2) c1(1) c2(1) c3(1) that unfolding enumerated_def by blast
    then show ?thesis using run True c3(2,3) c2(3) c1(3) c0(3) cap by simp
  qed
qed

lemma snapshot_build_spec:
  assumes "device_ok dev" and "2 \<le> length slack"
  shows "\<exists>rc s freed. vcm_mtp_snapshot_build dev junk slack (Some old) = Some (rc, Some s, freed) \<and>
    (if rc = 0
     then catalog_inv (sn_catalog s) \<and> sn_allocation s \<noteq> None \<and> freed = 0 \<and> allocates dev \<and>
       unat (c_capacity (sn_catalog s)) = entries_needed dev
     else rc = - 1 \<and> s = no_snapshot \<and> freed = (if allocates dev then 1 else 0))"
  using snapshot_build_trace [OF assms, of junk old] by (auto split: if_splits)

text \<open>
  C11. A snapshot is whole or absent. On a device whose rows hold C strings and whose allocator returns what it is asked for, building a
  snapshot always returns. On success the snapshot owns a catalogue that satisfies the catalogue
  invariant, with room for the root folders, every counted photo and track and two entries per counted video, in at most 24 MiB. On failure
  nothing is left: there is no catalogue, and the allocation has been freed exactly if one was made.
\<close>

theorem snapshot_whole_or_absent:
  assumes "device_ok dev" and "2 \<le> length slack"
  shows "\<exists>rc s freed. vcm_mtp_snapshot_build dev junk slack (Some old) = Some (rc, Some s, freed) \<and>
    (if rc = 0
     then catalog_inv (sn_catalog s) \<and> sn_allocation s \<noteq> None \<and> freed = 0 \<and> allocates dev \<and>
       unat (c_capacity (sn_catalog s)) = entries_needed dev
     else rc = - 1 \<and> s = no_snapshot \<and> freed = (if allocates dev then 1 else 0))"
  using snapshot_build_spec [OF assms] .

text \<open>A device whose databases are empty.\<close>

definition sample_query :: "'r list \<Rightarrow> 'r query" where
  "sample_query rows = \<lparr>sql_open = True, sql_prepare = 0, sql_steps = map Some rows, sql_finalize = 0, sql_close = 0\<rparr>"

definition sample_device :: device where
  "sample_device = \<lparr>dev_count = (\<lambda>kind. sample_query [0]), dev_rows = (\<lambda>kind. sample_query []),
     dev_stat = (\<lambda>_. None), dev_malloc = (\<lambda>n. Some (replicate n clear_entry))\<rparr>"

lemma sample_device_ok: "device_ok sample_device"
  by (auto simp: device_ok_def sample_device_def sample_query_def)

definition build_status :: "(int \<times> VcmMtpSnapshot option \<times> nat) option \<Rightarrow> int \<times> u8 list option list" where
  "build_status r =
     (case r of Some (rc, Some s, _) \<Rightarrow> (rc, map (\<lambda>e. c_string (e_display_name e)) (visible (sn_catalog s))) | _ \<Rightarrow> (- 9, []))"

lemma sample_build:
  "build_status (vcm_mtp_snapshot_build sample_device (\<lambda>_. 0) [0, 0] (Some no_snapshot)) =
   (0, [Some (ascii ''Photo''), Some (ascii ''Music''), Some (ascii ''Video'')])"
  by code_simp

theorem snapshot_whole_or_absent_witness:
  "\<exists>s. vcm_mtp_snapshot_build sample_device (\<lambda>_. 0) [0, 0] (Some no_snapshot) = Some (0, Some s, 0) \<and>
     catalog_inv (sn_catalog s) \<and> unat (c_capacity (sn_catalog s)) = entries_needed sample_device"
proof -
  obtain rc s freed where b: "vcm_mtp_snapshot_build sample_device (\<lambda>_. 0) [0, 0] (Some no_snapshot) = Some (rc, Some s, freed)"
    "if rc = 0
     then catalog_inv (sn_catalog s) \<and> sn_allocation s \<noteq> None \<and> freed = 0 \<and> allocates sample_device \<and>
       unat (c_capacity (sn_catalog s)) = entries_needed sample_device
     else rc = - 1 \<and> s = no_snapshot \<and> freed = (if allocates sample_device then 1 else 0)"
    using snapshot_whole_or_absent [OF sample_device_ok, of "[0, 0]" "\<lambda>_. 0" no_snapshot] by auto
  have "rc = 0" using sample_build unfolding b(1) by (simp add: build_status_def)
  with b show ?thesis by auto
qed

text \<open>
  C22. Adding a media description that the enumeration delivers appends exactly one entry that describes it, under the next handle, when
  the catalogue has room and the name is acceptable; otherwise the description is refused and no entry changes. The invariant is kept, and
  no array is overrun.
\<close>

theorem add_entry_correct:
  assumes "catalog_inv c" and "media_valid kind m" and "0 \<le> kind" and "kind < 3" and "2 \<le> length slack"
  shows "\<exists>rc c'. add_entry junk slack c m = Some (rc, c') \<and> catalog_inv c' \<and>
    (if c_count c < c_capacity c \<and> c_count c < 0xfffffffe \<and> valid_name (m_name m)
     then rc = 0 \<and> (\<exists>e. visible c' = visible c @ [e] \<and> e_handle e = c_count c + 1 \<and> describes m e)
     else rc = - 1 \<and> visible c' = visible c)"
  using add_entry_spec [OF assms] by blast

definition sample_media :: VcmLibraryMediaInfo where
  "sample_media = \<lparr>m_kind = 1, m_id = 7, m_name = ascii ''a.mp3'', m_title = Some (ascii ''b?''), m_artist = None, m_album = None,
     m_created = [], m_modified = [], m_size = 100, m_mtp_format = 0x3009, m_thumb_width = 0, m_thumb_height = 0, m_width = 0, m_height = 0\<rparr>"

theorem add_entry_correct_witness:
  "\<exists>c c' e. catalog_inv c \<and> add_entry (\<lambda>_. 0) [0, 0] c sample_media = Some (0, c') \<and> visible c' = visible c @ [e] \<and>
     describes sample_media e"
proof -
  obtain c where c: "catalog_inv c" "c_capacity c = 4" "c_count c = 3"
    using catalog_init_spec [of 4 "replicate 4 clear_entry"] by auto
  have m: "media_valid 1 sample_media" by code_simp
  have v: "valid_name (m_name sample_media)" by code_simp
  from add_entry_correct [OF c(1) m _ _, of "[0, 0]" "\<lambda>_. 0"] c(2,3) v
  have "\<exists>rc c'. add_entry (\<lambda>_. 0) [0, 0] c sample_media = Some (rc, c') \<and> catalog_inv c' \<and>
    rc = 0 \<and> (\<exists>e. visible c' = visible c @ [e] \<and> e_handle e = c_count c + 1 \<and> describes sample_media e)" by simp
  with c(1) show ?thesis by blast
qed

subsection \<open>Two defects\<close>

text \<open>
  The continuation loop of \<open>copy_text\<close> does not stop at the terminator: for a text that ends in the first byte of a
  four-byte character it reads two bytes behind the terminator, a fault when the text's memory ends there, although the result never depends on them.
\<close>

theorem copy_text_reads_behind_terminator:
  "copy_text (replicate 256 0) 256 (Some [0x61, 0xf0, 0]) = None \<and>
   (\<forall>a b. \<exists>out. copy_text (replicate 256 0) 256 (Some [0x61, 0xf0, 0, a, b]) = Some out \<and> c_string out = Some [0x61])"
proof
  show "copy_text (replicate 256 0) 256 (Some [0x61, 0xf0, 0]) = None" by code_simp
  have "utf8_clip 255 [0x61, 0xf0] = [0x61]" by code_simp
  then have "\<exists>out. copy_text (replicate 256 0) 256 (Some [0x61, 0xf0, 0, a, b]) = Some out \<and> c_string out = Some [0x61]" for a b
    using copy_text_spec [of "[0x61, 0xf0]" "replicate 256 0" 256 "[a, b]"] by auto
  then show "\<forall>a b. \<exists>out. copy_text (replicate 256 0) 256 (Some [0x61, 0xf0, 0, a, b]) = Some out \<and> c_string out = Some [0x61]"
    by blast
qed

text \<open>
  A title of only spaces and dots damages the shown name: \<open>display_name\<close> overwrites the start of the file name before it finds out
  that nothing of the title is left, and returns without restoring it, so the track \<open>a.mp3\<close> titled with eight spaces is shown as eight spaces,
  without its extension.
\<close>

theorem blank_title_damages_display_name:
  "map_option (\<lambda>e. c_string (e_display_name e))
     (display_name (\<lambda>_. 0) (clear_entry\<lparr>e_kind := 1, e_name := ascii ''a.mp3'' @ replicate 251 0,
        e_display_name := ascii ''a.mp3'' @ replicate 251 0, e_title := replicate 8 0x20 @ replicate 248 0\<rparr>)) =
   Some (Some (replicate 8 0x20))"
  by code_simp

end
