(* ===== verification/Engine_Invariant.thy ===== *)
theory Engine_Invariant
  imports Mtp_Engine
begin

text \<open>
  An interface between the engine of \<^verbatim>\<open>src/vita/mtp_engine.c\<close> and a transport: whatever property of its context a transport keeps in
  every callback survives a whole run of the engine, on every path.
\<close>

subsection \<open>Invariants of a transport's context\<close>

text \<open>
  A property of the context that every callback keeps holds after the engine has run. The engine is the client of this interface; the
  adapter provides it below.
\<close>

locale callback_invariant =
  fixes t :: "'c VcmMtpTransport" and inv :: "'c \<Rightarrow> bool"
  assumes keeps_send: "t_send_data t = Some send \<Longrightarrow> inv c \<Longrightarrow> send c command bs off whole = (st, c') \<Longrightarrow> inv c'"
    and keeps_response: "t_send_response t = Some answer \<Longrightarrow> inv c \<Longrightarrow> answer c response = (st, c') \<Longrightarrow> inv c'"
    and keeps_open: "t_open_object t = Some open1 \<Longrightarrow> inv c \<Longrightarrow> open1 c e = (st, c') \<Longrightarrow> inv c'"
    and keeps_read: "t_read_object t = Some read \<Longrightarrow> inv c \<Longrightarrow> read c wanted = (got, bs, c') \<Longrightarrow> inv c'"
    and keeps_close: "t_close_object t = Some close \<Longrightarrow> inv c \<Longrightarrow> inv (close c)"
    and keeps_thumb: "t_read_thumb t = Some thumb \<Longrightarrow> inv c \<Longrightarrow> thumb c e cap = (got, bs, c') \<Longrightarrow> inv c'"
begin

lemma kept_snd:
  "t_send_data t = Some send \<Longrightarrow> inv c \<Longrightarrow> inv (snd (send c command bs off whole))"
  "t_send_response t = Some answer \<Longrightarrow> inv c \<Longrightarrow> inv (snd (answer c response))"
  using keeps_send keeps_response by (metis surjective_pairing)+

lemma handles_loop_keeps:
  assumes "t_send_data t = Some send"
  shows "send_handles_loop send command result capacity es c scratch off used found = Some (c', rest) \<Longrightarrow> inv c \<Longrightarrow> inv c'"
proof (induction es arbitrary: c scratch off used found)
  case (Cons e es)
  show ?case
  proof (cases "send c command (the (pass scratch used)) off (r_data_length result)")
    case (Pair st c1)
    then show ?thesis
      using Cons.prems Cons.IH keeps_send [OF assms Cons.prems(2) Pair]
      by (auto simp: bind_eq_Some_conv Let_def split: if_splits)
  qed
qed simp

lemma object_loop_keeps:
  assumes "t_send_data t = Some send" and "t_read_object t = Some read"
    and "send_object_loop send read command len capacity c scratch off = Some (st, c', rest)" and "inv c"
  shows "inv c'"
  using assms(3,4)
proof (induction "unat len - unat off" arbitrary: c scratch off rule: less_induct)
  case less
  show ?case
  proof (cases "off < len")
    case False
    then have "send_object_loop send read command len capacity c scratch off = Some (0, c, scratch)"
      by (subst send_object_loop.simps) simp
    then show ?thesis using less.prems by simp
  next
    case True
    define w where w: "w = (if len - off > capacity then capacity else len - off)"
    obtain got bs c1 where g: "read c w = (got, bs, c1)" by (metis prod_cases3)
    note kept = keeps_read [OF assms(2) less.prems(2) g]
    note step = less.prems(1) [unfolded object_loop_step [where send = send and read = read, OF True w g]]
    obtain s1 where s1: "fill scratch bs = Some s1" using step by (cases "fill scratch bs") auto
    show ?thesis
    proof (cases "sint got \<le> 0 \<or> got > w")
      case True
      then show ?thesis using step s1 kept by auto
    next
      case ok: False
      then have m: "unat len - unat (off + got) < unat len - unat off"
        using object_measure [OF True, of got capacity] unfolding w by blast
      obtain sent where sent: "pass s1 got = Some sent" using step s1 ok by (cases "pass s1 got") auto
      obtain st1 c2 where send: "send c1 command sent off len = (st1, c2)" by fastforce
      show ?thesis
        using step s1 ok sent send keeps_send [OF assms(1) kept send] less.hyps [OF m, of c2 s1]
        by (auto split: if_splits)
    qed
  qed
qed

lemma send_handles_keeps:
  assumes "t_send_data t = Some send" and "send_handles send server command result c scratch capacity = Some (st, c', rest)" and "inv c"
  shows "inv c'"
proof -
  obtain es c1 s0 s1 off used found failed where loop:
    "send_handles_loop send command result capacity es c s0 0 4 0 = Some (c1, s1, off, used, found, failed)"
    and c': "c' = c1 \<or> (\<exists>bs. c' = snd (send c1 command bs off (r_data_length result)))"
  proof -
    obtain s0 and catalog :: VcmMtpCatalog and es :: "VcmMtpEntry list" where es: "(if length es < unat (c_count catalog) then None
       else do {
         (context, scratch, offset, used, found, failed) \<leftarrow>
           send_handles_loop send command result capacity (take (unat (c_count catalog)) es) c s0 0 4 0;
         if failed then Some (- 1, context, scratch)
         else if found \<noteq> (r_data_length result - 4) div 4 then Some (- 1, context, scratch)
         else do {
           bs \<leftarrow> pass scratch used;
           case send context command bs offset (r_data_length result) of (st, context) \<Rightarrow> Some (st, context, scratch)
         } }) = Some (st, c', rest)"
      using assms(2) unfolding send_handles_def Let_def bind_eq_Some_conv by (elim exE conjE) (rule that)
    then obtain c1 s1 off used found failed where loop:
      "send_handles_loop send command result capacity (take (unat (c_count catalog)) es) c s0 0 4 0 =
        Some (c1, s1, off, used, found, failed)"
      "(if failed then Some (- 1, c1, s1)
         else if found \<noteq> (r_data_length result - 4) div 4 then Some (- 1, c1, s1)
         else do {
           bs \<leftarrow> pass s1 used;
           let (st, context) = send c1 command bs off (r_data_length result);
           Some (st, context, s1)
         }) = Some (st, c', rest)"
      by (auto simp: bind_eq_Some_conv split: if_splits)
    then have "c' = c1 \<or> (\<exists>bs. c' = snd (send c1 command bs off (r_data_length result)))"
      by (auto simp: bind_eq_Some_conv Let_def split_beta split: if_splits)
    then show thesis using that loop(1) by blast
  qed
  have "inv c1" using handles_loop_keeps [OF assms(1) loop assms(3)] .
  then show ?thesis using c' kept_snd(1) [OF assms(1)] by blast
qed

lemma send_object_keeps:
  assumes "t_send_data t = Some send" and "send_object t send server command result c scratch capacity = Some (st, c', rest)" and "inv c"
  shows "inv c'"
proof -
  obtain found where found: "vcm_mtp_catalog_get (s_catalog server) (r_object_handle result) = Some found"
    using assms(2) by (cases "vcm_mtp_catalog_get (s_catalog server) (r_object_handle result)") (auto simp: send_object_def)
  show ?thesis
  proof (cases "found = None \<or> t_open_object t = None \<or> t_read_object t = None \<or> t_close_object t = None")
    case True
    then show ?thesis using assms(2,3) found by (auto simp: send_object_def split: option.splits)
  next
    case False
    then obtain e open1 read close where cb: "found = Some e" "t_open_object t = Some open1"
      "t_read_object t = Some read" "t_close_object t = Some close" by auto
    obtain st1 c1 where op: "open1 c e = (st1, c1)" by fastforce
    note kept = keeps_open [OF cb(2) assms(3) op]
    show ?thesis
      using assms(2) found cb op kept object_loop_keeps [OF assms(1) cb(3) _ kept] keeps_close [OF cb(4)]
      by (auto simp: send_object_def bind_eq_Some_conv split: if_splits)
  qed
qed

lemma send_thumb_keeps:
  assumes "t_send_data t = Some send" and "send_thumb t send server command result c thumb cap = Some (st, c', rest)" and "inv c"
  shows "inv c'"
proof -
  obtain found where found: "vcm_mtp_catalog_get (s_catalog server) (r_object_handle result) = Some found"
    using assms(2) by (cases "vcm_mtp_catalog_get (s_catalog server) (r_object_handle result)") (auto simp: send_thumb_def)
  show ?thesis
  proof (cases "found = None \<or> t_read_thumb t = None \<or> thumb = None")
    case True
    then show ?thesis using assms(2,3) found by (auto simp: send_thumb_def split: option.splits)
  next
    case False
    then obtain e read buf where cb: "found = Some e" "t_read_thumb t = Some read" "thumb = Some buf" by auto
    obtain got bs c1 where rd: "read c e cap = (got, bs, c1)" by (metis prod_cases3)
    note kept = keeps_thumb [OF cb(2) assms(3) rd]
    show ?thesis
      using assms(2,3) found cb rd kept kept_snd(1) [OF assms(1) kept]
      by (auto simp: send_thumb_def bind_eq_Some_conv split_beta Let_def split: if_splits)
  qed
qed

lemma send_phase_keeps:
  assumes "t_send_data t = Some send" and "send_phase t send server command result c scratch capacity thumb cap = Some (st, c', rest)"
    and "inv c"
  shows "inv c'"
proof (cases "r_data_kind result")
  case VCM_MTP_DATA_HANDLES
  then show ?thesis using assms send_handles_keeps [OF assms(1) _ assms(3)]
    by (auto simp: send_phase_def bind_eq_Some_conv)
next
  case VCM_MTP_DATA_OBJECT
  then show ?thesis using assms send_object_keeps [OF assms(1) _ assms(3)]
    by (auto simp: send_phase_def bind_eq_Some_conv)
next
  case VCM_MTP_DATA_THUMB
  then show ?thesis using assms send_thumb_keeps [OF assms(1) _ assms(3)]
    by (auto simp: send_phase_def bind_eq_Some_conv)
qed (use assms kept_snd(1) [OF assms(1,3)] in \<open>auto simp: send_phase_def bind_eq_Some_conv split_beta Let_def\<close>)

lemma engine_keeps:
  assumes "vcm_mtp_engine_run server command t c scratch capacity thumb cap uninit = Some (ret, server', c', rest)" and "inv c"
  shows "inv c'"
proof (cases "t_send_data t = None \<or> t_send_response t = None \<or> scratch = None \<or> capacity < 4096")
  case True
  then show ?thesis using assms by (auto simp: vcm_mtp_engine_run_def split: option.splits if_splits)
next
  case False
  then obtain send answer buf where cb: "t_send_data t = Some send" "t_send_response t = Some answer"
    "scratch = Some buf" "\<not> capacity < 4096" by auto
  obtain status server1 r buf1 where
    ex: "vcm_mtp_server_execute server command uninit scratch capacity = Some (status, server1, r, Some buf1)"
    using assms(1) cb by (auto simp: vcm_mtp_engine_run_def bind_eq_Some_conv split: if_splits)
  define r1 where "r1 = (if status < 0
      then r\<lparr>r_response := command\<lparr>m_code := MTP_GENERAL_ERROR, m_param_count := 0\<rparr>,
        r_data_kind := VCM_MTP_DATA_NONE\<rparr> else r)"
  note run = assms(1) [unfolded engine_run_eq [OF cb ex, folded r1_def]]
  show ?thesis
  proof (cases "m_code (r_response r1) = MTP_OK")
    case False
    then show ?thesis using run kept_snd(2) [OF cb(2) assms(2)] by (auto simp: split_beta Let_def)
  next
    case True
    then obtain sent c1 b th where ph: "send_phase t send server1 command r1 c buf1 capacity thumb cap = Some (sent, c1, b, th)"
      using run by (auto split: option.splits)
    show ?thesis
      using run True ph kept_snd(2) [OF cb(2) send_phase_keeps [OF cb(1) ph assms(2)]] by (auto simp: split_beta Let_def)
  qed
qed

end

end
