(* ===== verification/Catalog_Layout.thy ===== *)
theory Catalog_Layout
  imports Mtp_Catalog
begin

text \<open>
  The memory layout of a catalogue that crosses the loopback bridge: \<open>VcmMtpCatalogHeader\<close> and an array of \<open>VcmMtpEntry\<close>
  from \<^verbatim>\<open>src/vita/mtp_catalog.h\<close>, as the ARM ABI lays them out: little-endian fields in declaration order, each aligned to its size.
  Writing an object to memory leaves its padding bytes arbitrary; reading ignores them.
\<close>

subsection \<open>Reading and writing words\<close>

definition of_le64 :: "u32 \<Rightarrow> u32 \<Rightarrow> u64" where
  "of_le64 lo hi = ucast lo OR push_bit 32 (ucast hi)"

definition get16 :: "u8 list \<Rightarrow> nat \<Rightarrow> u16" where
  "get16 m i = of_le16 (m ! i) (m ! (i + 1))"

definition get32 :: "u8 list \<Rightarrow> nat \<Rightarrow> u32" where
  "get32 m i = of_le32 (m ! i) (m ! (i + 1)) (m ! (i + 2)) (m ! (i + 3))"

definition get64 :: "u8 list \<Rightarrow> nat \<Rightarrow> u64" where
  "get64 m i = of_le64 (get32 m i) (get32 m (i + 4))"

definition get_text :: "u8 list \<Rightarrow> nat \<Rightarrow> nat \<Rightarrow> u8 list" where
  "get_text m i n = take n (drop i m)"

record VcmMtpCatalogHeader =
  h_magic :: u32
  h_version :: u32
  h_count :: u32
  h_entry_size :: u32
  h_max_size :: u64
  h_free_size :: u64

subsection \<open>Objects in memory\<close>

definition header_at :: "u8 list \<Rightarrow> VcmMtpCatalogHeader" where
  "header_at m = \<lparr>h_magic = get32 m 0, h_version = get32 m 4, h_count = get32 m 8, h_entry_size = get32 m 12,
     h_max_size = get64 m 16, h_free_size = get64 m 24\<rparr>"

definition header_bytes :: "VcmMtpCatalogHeader \<Rightarrow> u8 list" where
  "header_bytes h = le32 (h_magic h) @ le32 (h_version h) @ le32 (h_count h) @ le32 (h_entry_size h) @
     le64 (h_max_size h) @ le64 (h_free_size h)"

definition entry_at :: "u8 list \<Rightarrow> VcmMtpEntry" where
  "entry_at m = \<lparr>e_native_id = get64 m 0, e_size = get64 m 8, e_handle = get32 m 16, e_parent = get32 m 20,
     e_format = get16 m 24, e_kind = m ! 26, e_name = get_text m 27 256, e_display_name = get_text m 283 256,
     e_title = get_text m 539 256, e_artist = get_text m 795 128, e_album = get_text m 923 128,
     e_created = get_text m 1051 24, e_modified = get_text m 1075 24, e_thumb_size = get32 m 1100,
     e_thumb_width = get16 m 1104, e_thumb_height = get16 m 1106, e_width = get32 m 1108, e_height = get32 m 1112\<rparr>"

text \<open>One padding byte before the thumbnail size and four at the end.\<close>

definition entry_memory :: "u8 list \<Rightarrow> VcmMtpEntry \<Rightarrow> u8 list" where
  "entry_memory pad e = le64 (e_native_id e) @ le64 (e_size e) @ le32 (e_handle e) @ le32 (e_parent e) @
     le16 (e_format e) @ [e_kind e] @ e_name e @ e_display_name e @ e_title e @ e_artist e @ e_album e @
     e_created e @ e_modified e @ take 1 pad @ le32 (e_thumb_size e) @ le16 (e_thumb_width e) @ le16 (e_thumb_height e) @
     le32 (e_width e) @ le32 (e_height e) @ drop 1 pad"

fun entries_at :: "u8 list \<Rightarrow> nat \<Rightarrow> VcmMtpEntry list" where
  "entries_at m 0 = []"
| "entries_at m (Suc n) = entry_at (take 1120 m) # entries_at (drop 1120 m) n"

definition entries_memory :: "u8 list \<Rightarrow> VcmMtpEntry list \<Rightarrow> u8 list" where
  "entries_memory pad es = concat (map (entry_memory pad) es)"

subsection \<open>Reading back what was written\<close>

lemma of_le64_le64: "of_le64 (ucast v) (ucast (drop_bit 32 v)) = v"
proof (rule bit_word_eqI)
  fix n assume n: "n < LENGTH(64)"
  show "bit (of_le64 (ucast v) (ucast (drop_bit 32 v))) n = bit v n"
    using n by (cases "n < 32") (auto simp: of_le64_def bit_simps)
qed

lemma get_words:
  "get16 (le16 a @ r) 0 = a" "get32 (le32 b @ r) 0 = b" "get64 (le64 c @ r) 0 = c"
proof -
  show "get16 (le16 a @ r) 0 = a" using of_le16_le16 [of a] by (simp add: get16_def le16_def)
  show g: "get32 (le32 b @ r) 0 = b" for b r using of_le32_le32 [of b] by (simp add: get32_def le32_bytes)
  have s: "get32 (p @ q) (length p + i) = get32 q i" for p q i by (simp add: get32_def nth_append add.assoc)
  show "get64 (le64 c @ r) 0 = c"
    using g [of "ucast c" "le32 (ucast (drop_bit 32 c)) @ r"] s [of "le32 (ucast c)" "le32 (ucast (drop_bit 32 c)) @ r" 0]
      g [of "ucast (drop_bit 32 c)" r] of_le64_le64 [of c]
    by (simp add: get64_def le64_def)
qed

lemma get_skip:
  "get16 (p @ q) (length p + i) = get16 q i" "get32 (p @ q) (length p + i) = get32 q i"
  "get64 (p @ q) (length p + i) = get64 q i" "get_text (p @ q) (length p + i) n = get_text q i n"
proof -
  show "get16 (p @ q) (length p + i) = get16 q i" by (simp add: get16_def nth_append add.assoc)
  show g: "get32 (p @ q) (length p + i) = get32 q i" for i by (simp add: get32_def nth_append add.assoc)
  show "get64 (p @ q) (length p + i) = get64 q i" using g [of i] g [of "i + 4"] by (simp add: get64_def add.assoc)
  show "get_text (p @ q) (length p + i) n = get_text q i n" by (simp add: get_text_def)
qed

text \<open>The same with the length of the skipped part as a number.\<close>

lemma get_after:
  assumes "length p = k" and "k \<le> i"
  shows "get16 (p @ q) i = get16 q (i - k)" "get32 (p @ q) i = get32 q (i - k)" "get64 (p @ q) i = get64 q (i - k)"
    "get_text (p @ q) i n = get_text q (i - k) n" "(p @ q) ! i = q ! (i - k)"
  using get_skip [of p q "i - k"] assms by (simp_all add: nth_append)

lemma get_behind_byte:
  "1 \<le> i \<Longrightarrow> get16 (x # q) i = get16 q (i - 1)" "1 \<le> i \<Longrightarrow> get32 (x # q) i = get32 q (i - 1)"
  "1 \<le> i \<Longrightarrow> get_text (x # q) i n = get_text q (i - 1) n"
  using get_after [of "[x]" 1 i q] by simp_all

lemma get_text_here: "length p = n \<Longrightarrow> get_text (p @ q) 0 n = p"
  by (simp add: get_text_def)

lemma header_roundtrip: "header_at (header_bytes h @ r) = h"
  by (simp add: header_at_def header_bytes_def get_words get_after)

definition entry_shape :: "VcmMtpEntry \<Rightarrow> bool" where
  "entry_shape e \<longleftrightarrow> length (e_name e) = 256 \<and> length (e_display_name e) = 256 \<and> length (e_title e) = 256 \<and>
     length (e_artist e) = 128 \<and> length (e_album e) = 128 \<and> length (e_created e) = 24 \<and> length (e_modified e) = 24"

lemma entry_memory_length: "entry_shape e \<Longrightarrow> length pad = 5 \<Longrightarrow> length (entry_memory pad e) = 1120"
  by (simp add: entry_memory_def entry_shape_def)

lemma entry_roundtrip:
  assumes "entry_shape e" and "length pad = 5"
  shows "entry_at (entry_memory pad e @ r) = e"
proof -
  have [simp]: "length (e_name e) = 256" "length (e_display_name e) = 256" "length (e_title e) = 256"
    "length (e_artist e) = 128" "length (e_album e) = 128" "length (e_created e) = 24" "length (e_modified e) = 24"
    "length pad = 5"
    using assms by (simp_all add: entry_shape_def)
  show ?thesis
    unfolding entry_at_def entry_memory_def append_assoc
    by (simp add: get_words get_after get_behind_byte get_text_here)
qed

lemma entries_roundtrip:
  assumes "list_all entry_shape es" and "length pad = 5"
  shows "entries_at (entries_memory pad es @ r) (length es) = es" and "length (entries_memory pad es) = 1120 * length es"
  using assms(1)
proof (induction es)
  case (Cons e es)
  {
    case 1
    have l: "length (entry_memory pad e) = 1120" using 1 assms(2) by (simp add: entry_memory_length)
    have "entry_at (entry_memory pad e) = e" using entry_roundtrip [of e pad "[]"] 1 assms(2) by simp
    then show ?case using Cons.IH(1) 1 l by (simp add: entries_memory_def)
  next
    case 2
    have l: "length (entry_memory pad e) = 1120" using 2 assms(2) by (simp add: entry_memory_length)
    then show ?case using Cons.IH(2) 2 by (simp add: entries_memory_def)
  }
qed (simp_all add: entries_memory_def)

end
