(* ===== verification/Catalog_Client.thy ===== *)
theory Catalog_Client
  imports Catalog_Layout C_Strings
begin

text \<open>
  The loopback client of \<^verbatim>\<open>src/usb/catalog_client.c\<close>, with which the USB plug-in talks to the application: HTTP requests over a
  local socket that fetch and check the catalogue, stream files and thumbnails, and upload a transfer queue. The network and the
  memory blocks of the kernel are parameters.
\<close>

subsection \<open>The network\<close>

text \<open>
  The system calls over an arbitrary state of the network and the kernel. Receiving returns the count and the bytes that were
  written to the front of the caller's buffer.
\<close>

record 'w net =
  n_socket :: "'w \<Rightarrow> int \<times> 'w"
  n_init :: "'w \<Rightarrow> 'w"
  n_timeouts :: "int \<Rightarrow> 'w \<Rightarrow> 'w"
  n_connect :: "int \<Rightarrow> 'w \<Rightarrow> int \<times> 'w"
  n_close :: "int \<Rightarrow> 'w \<Rightarrow> 'w"
  n_recv :: "int \<Rightarrow> nat \<Rightarrow> 'w \<Rightarrow> int \<times> u8 list \<times> 'w"
  n_send :: "int \<Rightarrow> u8 list \<Rightarrow> 'w \<Rightarrow> int \<times> 'w"
  k_alloc :: "nat \<Rightarrow> 'w \<Rightarrow> int \<times> 'w"
  k_base :: "int \<Rightarrow> 'w \<Rightarrow> int \<times> u8 list option \<times> 'w"
  k_free :: "int \<Rightarrow> 'w \<Rightarrow> 'w"

definition connect_local :: "('w, 'a) net_scheme \<Rightarrow> 'w \<Rightarrow> int \<times> 'w" where
  "connect_local net w =
     (let (socket, w) = n_socket net w;
          (socket, w) = (if socket < 0 then n_socket net (n_init net w) else (socket, w))
      in if socket < 0 then (socket, w)
         else
           let w = n_timeouts net socket w;
               (rc, w) = n_connect net socket w
           in if rc < 0 then (- 101, n_close net socket w) else (socket, w))"

subsection \<open>Exact transfers\<close>

text \<open>
  The loops count in \<^typ>\<open>nat\<close>: a call that keeps to the size it is given never moves the counter past \<open>size0\<close>. \<^term>\<open>None\<close> is a write
  outside the caller's array.
\<close>

definition write_at :: "u8 list \<Rightarrow> nat \<Rightarrow> u8 list \<Rightarrow> u8 list option" where
  "write_at data i bs =
     (if i + length bs \<le> length data then Some (take i data @ bs @ drop (i + length bs) data) else None)"

function recv_loop :: "('w, 'a) net_scheme \<Rightarrow> int \<Rightarrow> nat \<Rightarrow> nat \<Rightarrow> u8 list \<Rightarrow> 'w \<Rightarrow> (int \<times> u8 list \<times> 'w) option" where
  "recv_loop net socket size0 received data w =
     (if received < size0 then
        case n_recv net socket (size0 - received) w of (got, bs, w) \<Rightarrow> do {
          data \<leftarrow> write_at data received bs;
          if got \<le> 0 then Some (- 1, data, w)
          else recv_loop net socket size0 (received + nat got) data w
        }
      else Some (0, data, w))"
  by pat_completeness auto
termination by (relation "measure (\<lambda>(net, socket, size0, received, data, w). size0 - received)") auto

declare recv_loop.simps [simp del]

definition recv_exact :: "('w, 'a) net_scheme \<Rightarrow> int \<Rightarrow> u8 list \<Rightarrow> nat \<Rightarrow> 'w \<Rightarrow> (int \<times> u8 list \<times> 'w) option" where
  "recv_exact net socket data size0 w = recv_loop net socket size0 0 data w"

function send_loop :: "('w, 'a) net_scheme \<Rightarrow> int \<Rightarrow> u8 list \<Rightarrow> nat \<Rightarrow> 'w \<Rightarrow> int \<times> 'w" where
  "send_loop net socket data sent w =
     (if sent < length data then
        case n_send net socket (drop sent data) w of (count, w) \<Rightarrow>
          if count \<le> 0 then (- 1, w) else send_loop net socket data (sent + nat count) w
      else (0, w))"
  by pat_completeness auto
termination by (relation "measure (\<lambda>(net, socket, data, sent, w). length data - sent)") auto

declare send_loop.simps [simp del]

definition send_exact :: "('w, 'a) net_scheme \<Rightarrow> int \<Rightarrow> u8 list \<Rightarrow> 'w \<Rightarrow> int \<times> 'w" where
  "send_exact net socket data w = send_loop net socket data 0 w"

subsection \<open>Response headers\<close>

abbreviation (input) end_of_headers :: "u8 list" where "end_of_headers \<equiv> [13, 10, 13, 10]"

text \<open>
  Reading the response one byte at a time: the bytes read so far, and whether the loop ended without a failed receive. The
  array has 512 bytes, of which the last one is kept for the terminator.
\<close>

function read_headers :: "('w, 'a) net_scheme \<Rightarrow> int \<Rightarrow> u8 list \<Rightarrow> 'w \<Rightarrow> (u8 list \<times> bool \<times> 'w) option" where
  "read_headers net socket headers w =
     (if length headers + 1 < 512 then
        case n_recv net socket 1 w of (got, bs, w) \<Rightarrow>
          if got \<noteq> 1 then Some (headers, False, w)
          else
            (case bs of
               [c] \<Rightarrow>
                 let headers = headers @ [c] in
                 if length headers \<ge> 4 \<and> drop (length headers - 4) headers = end_of_headers then Some (headers, True, w)
                 else read_headers net socket headers w
             | _ \<Rightarrow> None)
      else Some (headers, True, w))"
  by pat_completeness auto
termination by (relation "measure (\<lambda>(net, socket, headers, w). 512 - length headers)") auto

declare read_headers.simps [simp del]

text \<open>The text of the headers up to the first zero byte, and the one behind \<open>Content-Length\<close>.\<close>

definition header_text :: "u8 list \<Rightarrow> u8 list" where
  "header_text headers = takeWhile (\<lambda>c. c \<noteq> 0) headers"

definition length_field :: "u8 list \<Rightarrow> u8 list option" where
  "length_field headers =
     map_option (drop 18) (strstr (header_text headers) ([13, 10] @ ascii ''Content-Length: ''))"

text \<open>The digit loop with its overflow check: \<^term>\<open>None\<close> is the error return.\<close>

fun checked_digits :: "u64 \<Rightarrow> u8 list \<Rightarrow> (u64 \<times> u8 list) option" where
  "checked_digits number [] = Some (number, [])"
| "checked_digits number (c # s) =
     (if is_digit c then
        let digit = ucast (c - 0x30) in
        if number > (0xffffffffffffffff - digit) div 10 then None
        else checked_digits (number * 10 + digit) s
      else Some (number, c # s))"

text \<open>The digit loop of \<open>response_status\<close> has no such check.\<close>

fun wrapping_digits :: "u64 \<Rightarrow> u8 list \<Rightarrow> u64 \<times> u8 list" where
  "wrapping_digits number [] = (number, [])"
| "wrapping_digits number (c # s) =
     (if is_digit c then wrapping_digits (number * 10 + ucast (c - 0x30)) s else (number, c # s))"

text \<open>The result holds the length when the status is 0.\<close>

definition response_length :: "('w, 'a) net_scheme \<Rightarrow> int \<Rightarrow> 'w \<Rightarrow> (int \<times> u64 \<times> 'w) option" where
  "response_length net socket w = do {
     (headers, _, w) \<leftarrow> read_headers net socket [] w;
     let used = length headers;
     if used < 4 \<or> \<not> starts (ascii ''HTTP/1.1 200 '') headers \<or> drop (used - 4) headers \<noteq> end_of_headers
     then Some (- 1, 0, w)
     else
       (case length_field headers of
          None \<Rightarrow> Some (- 1, 0, w)
        | Some field \<Rightarrow>
            if \<not> is_digit (c_at field 0) then Some (- 1, 0, w)
            else
              (case checked_digits 0 field of
                 None \<Rightarrow> Some (- 1, 0, w)
               | Some (number, rest) \<Rightarrow>
                   if c_at rest 0 \<noteq> 13 then Some (- 1, 0, w) else Some (0, number, w)))
   }"

definition response_status :: "('w, 'a) net_scheme \<Rightarrow> int \<Rightarrow> int \<Rightarrow> 'w \<Rightarrow> (int \<times> u64 \<times> 'w) option" where
  "response_status net socket expected w = do {
     (headers, received, w) \<leftarrow> read_headers net socket [] w;
     if \<not> received then Some (- 1, 0, w)
     else
       let used = length headers;
           prefix = take 23 (ascii ''HTTP/1.1 '' @ int_text expected @ ascii '' '')
       in if used < 4 \<or> \<not> starts prefix headers then Some (- 1, 0, w)
          else
            (case length_field headers of
               None \<Rightarrow> Some (- 1, 0, w)
             | Some field \<Rightarrow>
                 if \<not> is_digit (c_at field 0) then Some (- 1, 0, w)
                 else
                   let (number, rest) = wrapping_digits 0 field in
                   if c_at rest 0 \<noteq> 13 then Some (- 1, 0, w) else Some (0, number, w))
   }"

subsection \<open>Checking a received catalogue\<close>

record VcmBridgeCatalog =
  b_block :: int
  b_catalog :: VcmMtpCatalog
  b_max_size :: u64
  b_free_size :: u64

text \<open>
  The length of a text in an array, scanning for refused characters; \<^term>\<open>None\<close> is the error return. A text without a terminator has
  the length of the array.
\<close>

fun scan_text :: "(u8 \<Rightarrow> bool) \<Rightarrow> u8 list \<Rightarrow> nat option" where
  "scan_text refused [] = Some 0"
| "scan_text refused (c # s) =
     (if c = 0 then Some 0 else if refused c then None else map_option Suc (scan_text refused s))"

definition text_accepted :: "(u8 \<Rightarrow> bool) \<Rightarrow> u8 list \<Rightarrow> bool" where
  "text_accepted refused a \<longleftrightarrow>
     (case scan_text refused a of None \<Rightarrow> False | Some len \<Rightarrow> len \<noteq> 0 \<and> len \<noteq> length a)"

definition unterminated :: "u8 list \<Rightarrow> bool" where
  "unterminated a \<longleftrightarrow> length (takeWhile (\<lambda>c. c \<noteq> 0) a) = length a"

definition entry_accepted :: "nat \<Rightarrow> VcmMtpEntry \<Rightarrow> bool" where
  "entry_accepted i e \<longleftrightarrow>
     \<not> (e_handle e \<noteq> of_nat i + 1 \<or> e_kind e > VCM_MTP_FOLDER \<or>
        e_parent e \<noteq> (if i < 3 then VCM_MTP_NO_PARENT else if e_kind e = VCM_MTP_PHOTO then 1
          else if e_kind e = VCM_MTP_MUSIC then 2 else 3) \<or>
        (if i < 3 then e_kind e \<noteq> VCM_MTP_FOLDER else e_native_id e = 0 \<or> e_kind e = VCM_MTP_FOLDER)) \<and>
     text_accepted (\<lambda>c. c < 32 \<or> c = 0x2f \<or> c = 0x5c \<or> c = 0x3a) (e_name e) \<and>
     text_accepted (\<lambda>c. c < 32 \<or> c = 0x2f \<or> c = 0x5c \<or> c = 0x3a \<or> c = 127) (e_display_name e) \<and>
     \<not> (unterminated (e_title e) \<or> unterminated (e_artist e) \<or> unterminated (e_album e) \<or>
        unterminated (e_created e) \<or> unterminated (e_modified e)) \<and>
     \<not> (e_thumb_width e > 256 \<or> e_thumb_height e > 256 \<or>
        (e_thumb_size e \<noteq> 0 \<and> (e_kind e \<noteq> VCM_MTP_PHOTO \<or>
         e_thumb_size e \<noteq> 54 + ((ucast (e_thumb_width e) * 3 + 3) AND NOT 3) * ucast (e_thumb_height e))))"

fun entries_accepted :: "nat \<Rightarrow> VcmMtpEntry list \<Rightarrow> bool" where
  "entries_accepted i [] = True"
| "entries_accepted i (e # es) = (entry_accepted i e \<and> entries_accepted (Suc i) es)"

text \<open>\<open>body\<close> is null when it is \<^term>\<open>None\<close>; \<open>len\<close> is the number of bytes that were received.\<close>

definition validate :: "VcmBridgeCatalog \<Rightarrow> u8 list option \<Rightarrow> u32 \<Rightarrow> (int \<times> VcmBridgeCatalog) option" where
  "validate out body len =
     (if len < 32 then Some (- 1, out)
      else do {
        body \<leftarrow> body;
        if length body < unat len then None
        else do {
          let header = header_at body;
          if h_magic header \<noteq> 0x434d4356 \<or> h_version header \<noteq> 3 \<or> h_entry_size header \<noteq> 1120 \<or>
             h_count header < 3 \<or> h_count header > (len - 32) div 1120 \<or>
             len \<noteq> 32 + h_count header * 1120 \<or> h_max_size header = 0 \<or> h_free_size header > h_max_size header
          then Some (- 1, out)
          else
            let entries = entries_at (drop 32 body) (unat (h_count header)) in
            if \<not> entries_accepted 0 entries then Some (- 1, out)
            else Some (0, out\<lparr>b_catalog := \<lparr>c_entries = Some entries, c_count = h_count header, c_capacity = h_count header\<rparr>,
              b_max_size := h_max_size header, b_free_size := h_free_size header\<rparr>)
        }
      })"

definition no_catalog :: VcmBridgeCatalog where
  "no_catalog = \<lparr>b_block = - 1, b_catalog = \<lparr>c_entries = None, c_count = 0, c_capacity = 0\<rparr>, b_max_size = 0, b_free_size = 0\<rparr>"

abbreviation (input) request_tail :: "u8 list" where
  "request_tail \<equiv> ascii '' HTTP/1.1'' @ [13, 10] @ ascii ''Host: 127.0.0.1'' @ [13, 10] @ ascii ''Connection: close'' @ end_of_headers"

definition fetch_body ::
    "('w, 'a) net_scheme \<Rightarrow> int \<Rightarrow> u32 \<Rightarrow> VcmBridgeCatalog \<Rightarrow> 'w \<Rightarrow> (int \<times> VcmBridgeCatalog \<times> 'w) option" where
  "fetch_body net socket len out w =
     (let allocation = (len + 0xfff) AND NOT 0xfff;
          (block, w) = k_alloc net (unat allocation) w
      in if block < 0 then Some (block, out, n_close net socket w)
         else
           case k_base net block w of (result, base, w) \<Rightarrow> do {
             (result, base, w) \<leftarrow>
               (case base of
                  Some data \<Rightarrow>
                    if result \<ge> 0 then do {
                      (result, data, w) \<leftarrow> recv_exact net socket data (unat len) w;
                      Some (result, Some data, w)
                    } else Some (result, base, w)
                | None \<Rightarrow> Some (result, base, w));
             let w = n_close net socket w;
             if result < 0 then Some (- 105, out, k_free net block w)
             else do {
               (rc, out) \<leftarrow> validate out base len;
               if rc < 0 then Some (- 106, out, k_free net block w)
               else Some (0, out\<lparr>b_block := block\<rparr>, w)
             }
           })"

definition vcm_bridge_catalog_fetch ::
    "('w, 'a) net_scheme \<Rightarrow> VcmBridgeCatalog option \<Rightarrow> 'w \<Rightarrow> (int \<times> VcmBridgeCatalog option \<times> 'w) option" where
  "vcm_bridge_catalog_fetch net out w =
     (case out of
        None \<Rightarrow> Some (- 1, None, w)
      | Some _ \<Rightarrow>
          let (socket, w) = connect_local net w in
          if socket < 0 then Some (socket, Some no_catalog, w)
          else
            let (rc, w) = send_exact net socket (ascii ''GET /v2/usb/catalog'' @ request_tail) w in
            if rc < 0 then Some (- 102, Some no_catalog, n_close net socket w)
            else do {
              (rc, response_size, w) \<leftarrow> response_length net socket w;
              if rc < 0 then Some (- 103, Some no_catalog, n_close net socket w)
              else if response_size < 32 \<or> response_size > 24 * 1024 * 1024 + 32
              then Some (- 104, Some no_catalog, n_close net socket w)
              else do {
                (rc, out, w) \<leftarrow> fetch_body net socket (ucast response_size) no_catalog w;
                Some (rc, Some out, w)
              }
            })"

definition vcm_bridge_catalog_release :: "('w, 'a) net_scheme \<Rightarrow> VcmBridgeCatalog \<Rightarrow> 'w \<Rightarrow> VcmBridgeCatalog \<times> 'w" where
  "vcm_bridge_catalog_release net catalog w =
     (no_catalog, if b_block catalog \<ge> 0 then k_free net (b_block catalog) w else w)"

subsection \<open>Streams\<close>

record VcmBridgeStream =
  bs_socket :: int
  bs_remaining :: u64

text \<open>A request is sent when it fits into its array.\<close>

definition request_fits :: "nat \<Rightarrow> u8 list \<Rightarrow> bool" where
  "request_fits capacity s \<longleftrightarrow> s \<noteq> [] \<and> length s < capacity"

definition kind_path :: "u8 \<Rightarrow> u8 list" where
  "kind_path kind = (if kind = VCM_MTP_PHOTO then ascii ''photo'' else if kind = VCM_MTP_MUSIC then ascii ''music'' else ascii ''video'')"

definition vcm_bridge_stream_open ::
    "('w, 'a) net_scheme \<Rightarrow> VcmBridgeStream \<Rightarrow> VcmMtpEntry \<Rightarrow> 'w \<Rightarrow> (int \<times> VcmBridgeStream \<times> 'w) option" where
  "vcm_bridge_stream_open net stream entry w =
     (if e_kind entry \<ge> VCM_MTP_FOLDER \<or> e_native_id entry = 0 then Some (- 1, stream, w)
      else
        let stream = \<lparr>bs_socket = - 1, bs_remaining = 0\<rparr>;
            request = ascii ''GET /v2/library/'' @ kind_path (e_kind entry) @ ascii ''/'' @ dec_text (unat (e_native_id entry)) @
              (if e_kind entry = VCM_MTP_SIDECAR then ascii ''/m4t'' else []) @ request_tail
        in if \<not> request_fits 192 request then Some (- 1, stream, w)
           else
             let (socket, w) = connect_local net w in
             if socket < 0 then Some (socket, stream, w)
             else
               let (rc, w) = send_exact net socket request w in
               if rc < 0 then Some (- 1, stream, n_close net socket w)
               else do {
                 (rc, available, w) \<leftarrow> response_length net socket w;
                 if rc < 0 \<or> available \<noteq> e_size entry then Some (- 1, stream, n_close net socket w)
                 else Some (0, \<lparr>bs_socket = socket, bs_remaining = available\<rparr>, w)
               })"

text \<open>Reading returns the status or count, and the bytes written to the front of the caller's buffer.\<close>

definition vcm_bridge_stream_read ::
    "('w, 'a) net_scheme \<Rightarrow> VcmBridgeStream \<Rightarrow> u32 \<Rightarrow> 'w \<Rightarrow> int \<times> u8 list \<times> VcmBridgeStream \<times> 'w" where
  "vcm_bridge_stream_read net stream capacity w =
     (if bs_socket stream < 0 then (- 1, [], stream, w)
      else if bs_remaining stream = 0 \<or> capacity = 0 then (0, [], stream, w)
      else
        let capacity = (if ucast capacity > bs_remaining stream then ucast (bs_remaining stream) else capacity) in
        case n_recv net (bs_socket stream) (unat capacity) w of (received, bs, w) \<Rightarrow>
          if received \<le> 0 then (- 1, bs, stream, w)
          else (received, bs, stream\<lparr>bs_remaining := bs_remaining stream - word_of_int received\<rparr>, w))"

definition vcm_bridge_stream_close :: "('w, 'a) net_scheme \<Rightarrow> VcmBridgeStream \<Rightarrow> 'w \<Rightarrow> VcmBridgeStream \<times> 'w" where
  "vcm_bridge_stream_close net stream w =
     (\<lparr>bs_socket = - 1, bs_remaining = 0\<rparr>, if bs_socket stream \<ge> 0 then n_close net (bs_socket stream) w else w)"

definition vcm_bridge_thumbnail_fetch ::
    "('w, 'a) net_scheme \<Rightarrow> VcmMtpEntry \<Rightarrow> u8 list \<Rightarrow> u32 \<Rightarrow> 'w \<Rightarrow> (int \<times> u8 list \<times> 'w) option" where
  "vcm_bridge_thumbnail_fetch net entry bmp capacity w =
     (if e_kind entry \<noteq> VCM_MTP_PHOTO \<or> e_native_id entry = 0 \<or> capacity < 54 then Some (- 1, bmp, w)
      else
        let request = ascii ''GET /v2/usb/thumb/'' @ dec_text (unat (e_native_id entry)) @ request_tail in
        if \<not> request_fits 176 request then Some (- 1, bmp, w)
        else
          let (socket, w) = connect_local net w in
          if socket < 0 then Some (socket, bmp, w)
          else
            let (rc, w) = send_exact net socket request w in
            if rc < 0 then Some (- 1, bmp, n_close net socket w)
            else do {
              (rc, available, w) \<leftarrow> response_length net socket w;
              if rc < 0 \<or> available < 54 \<or> available > ucast capacity \<or> available > 256 * 256 * 3 + 54
              then Some (- 1, bmp, n_close net socket w)
              else do {
                (rc, bmp, w) \<leftarrow> recv_exact net socket bmp (unat available) w;
                if rc < 0 then Some (- 1, bmp, n_close net socket w)
                else
                  let w = n_close net socket w in
                  if length bmp < 6 then None
                  else if bmp ! 0 \<noteq> 0x42 \<or> bmp ! 1 \<noteq> 0x4d \<or> ucast (get32 bmp 2) \<noteq> available then Some (- 1, bmp, w)
                  else Some (uint available, bmp, w)
              }
            })"

subsection \<open>Uploads and queue commands\<close>

record VcmBridgeUpload =
  up_socket :: int
  up_expected :: u64
  up_written :: u64

definition upload_begin ::
    "('w, 'a) net_scheme \<Rightarrow> VcmBridgeUpload \<Rightarrow> u8 list \<Rightarrow> u8 list \<Rightarrow> u64 \<Rightarrow> 'w \<Rightarrow> int \<times> VcmBridgeUpload \<times> 'w" where
  "upload_begin net upload verb target size0 w =
     (if size0 = 0 then (- 1, upload, w)
      else
        let upload = \<lparr>up_socket = - 1, up_expected = size0, up_written = 0\<rparr>;
            (socket, w) = connect_local net w
        in if socket < 0 then (socket, upload, w)
           else
             let request = verb @ ascii '' '' @ target @ ascii '' HTTP/1.1'' @ [13, 10] @ ascii ''Host: 127.0.0.1'' @ [13, 10] @
                   ascii ''Content-Length: '' @ dec_text (unat size0) @ [13, 10] @ ascii ''Connection: close'' @ end_of_headers;
                 (rc, w) = (if request_fits 256 request then send_exact net socket request w else (- 1, w))
             in if rc < 0 then (- 1, upload, n_close net socket w)
                else (0, upload\<lparr>up_socket := socket\<rparr>, w))"

definition vcm_bridge_queue_begin ::
    "('w, 'a) net_scheme \<Rightarrow> VcmBridgeUpload \<Rightarrow> u64 \<Rightarrow> 'w \<Rightarrow> int \<times> VcmBridgeUpload \<times> 'w" where
  "vcm_bridge_queue_begin net upload size0 w =
     (if size0 \<le> 512 * 1024 then upload_begin net upload (ascii ''POST'') (ascii ''/v2/usb/queue'') size0 w
      else (- 1, upload, w))"

definition vcm_bridge_file_begin ::
    "('w, 'a) net_scheme \<Rightarrow> VcmBridgeUpload \<Rightarrow> u32 \<Rightarrow> int \<Rightarrow> u64 \<Rightarrow> 'w \<Rightarrow> int \<times> VcmBridgeUpload \<times> 'w" where
  "vcm_bridge_file_begin net upload index sidecar size0 w =
     (if index \<ge> 128 \<or> (sidecar \<noteq> 0 \<and> sidecar \<noteq> 1) \<or> size0 = 0 \<or> size0 > 8 * 1024 * 1024 * 1024 then (- 1, upload, w)
      else upload_begin net upload (ascii ''PUT'')
        (take 63 (ascii ''/v2/usb/files/'' @ dec_text (unat index) @ ascii ''/'' @ dec_text (nat sidecar))) size0 w)"

text \<open>The caller passes the bytes to be sent.\<close>

definition vcm_bridge_upload_write ::
    "('w, 'a) net_scheme \<Rightarrow> VcmBridgeUpload \<Rightarrow> u8 list \<Rightarrow> 'w \<Rightarrow> int \<times> VcmBridgeUpload \<times> 'w" where
  "vcm_bridge_upload_write net upload data w =
     (if up_socket upload < 0 \<or> up_written upload > up_expected upload \<or>
         of_nat (length data) > up_expected upload - up_written upload then (- 1, upload, w)
      else
        let (rc, w) = (if data \<noteq> [] then send_exact net (up_socket upload) data w else (0, w)) in
        if rc < 0 then (- 1, upload, w)
        else (0, upload\<lparr>up_written := up_written upload + of_nat (length data)\<rparr>, w))"

definition vcm_bridge_upload_abort :: "('w, 'a) net_scheme \<Rightarrow> VcmBridgeUpload \<Rightarrow> 'w \<Rightarrow> VcmBridgeUpload \<times> 'w" where
  "vcm_bridge_upload_abort net upload w =
     (\<lparr>up_socket = - 1, up_expected = 0, up_written = 0\<rparr>,
      if up_socket upload \<ge> 0 then n_close net (up_socket upload) w else w)"

text \<open>Throwing away a response body: a receive that returns more than it was asked for has overrun the buffer.\<close>

function discard_loop :: "('w, 'a) net_scheme \<Rightarrow> int \<Rightarrow> nat \<Rightarrow> nat \<Rightarrow> 'w \<Rightarrow> (int \<times> 'w) option" where
  "discard_loop net socket room body w =
     (if body = 0 then Some (0, w)
      else
        let wanted = min body room in
        case n_recv net socket wanted w of (got, bs, w) \<Rightarrow>
          if got > int wanted then None
          else if got \<le> 0 then Some (- 1, w)
          else discard_loop net socket room (body - nat got) w)"
  by pat_completeness auto
termination by (relation "measure (\<lambda>(net, socket, room, body, w). body)") (auto simp: zless_nat_conj)

declare discard_loop.simps [simp del]

definition vcm_bridge_upload_finish ::
    "('w, 'a) net_scheme \<Rightarrow> VcmBridgeUpload \<Rightarrow> 'w \<Rightarrow> (int \<times> VcmBridgeUpload \<times> 'w) option" where
  "vcm_bridge_upload_finish net upload w =
     (if up_socket upload < 0 \<or> up_written upload \<noteq> up_expected upload then Some (- 1, upload, w)
      else do {
        (result, body, w) \<leftarrow> response_status net (up_socket upload) 201 w;
        (result, w) \<leftarrow> (if result = 0 then discard_loop net (up_socket upload) 256 (unat body) w else Some (result, w));
        let (upload, w) = vcm_bridge_upload_abort net upload w;
        Some (result, upload, w)
      })"

definition get_binary ::
    "('w, 'a) net_scheme \<Rightarrow> u8 list \<Rightarrow> u8 list \<Rightarrow> 'w \<Rightarrow> (int \<times> u8 list \<times> 'w) option" where
  "get_binary net target out w =
     (let (socket, w) = connect_local net w in
      if socket < 0 then Some (socket, out, w)
      else
        let request = ascii ''GET '' @ target @ request_tail;
            (rc, w) = (if request_fits 160 request then send_exact net socket request w else (- 1, w))
        in if rc < 0 then Some (- 1, out, n_close net socket w)
           else do {
             (rc, len, w) \<leftarrow> response_status net socket 200 w;
             if rc \<noteq> 0 \<or> len \<noteq> of_nat (length out) then Some (- 1, out, n_close net socket w)
             else do {
               (rc, out, w) \<leftarrow> recv_exact net socket out (length out) w;
               Some (if rc = 0 then 0 else - 1, out, n_close net socket w)
             }
           })"

definition vcm_bridge_queue_action :: "('w, 'a) net_scheme \<Rightarrow> u8 list \<Rightarrow> 'w \<Rightarrow> (int \<times> 'w) option" where
  "vcm_bridge_queue_action net action w =
     (if action \<noteq> ascii ''sync'' \<and> action \<noteq> ascii ''cancel'' then Some (- 1, w)
      else
        let (socket, w) = connect_local net w in
        if socket < 0 then Some (socket, w)
        else
          let request = ascii ''POST /v2/usb/'' @ action @ ascii '' HTTP/1.1'' @ [13, 10] @ ascii ''Host: 127.0.0.1'' @ [13, 10] @
                ascii ''Content-Length: 0'' @ [13, 10] @ ascii ''Connection: close'' @ end_of_headers;
              (rc, w) = (if request_fits 192 request then send_exact net socket request w else (- 1, w))
          in do {
            (result, w) \<leftarrow>
              (if rc \<noteq> 0 then Some (- 1, w)
               else do {
                 (rc, body, w) \<leftarrow> response_status net socket (if action = ascii ''sync'' then 202 else 200) w;
                 if rc \<noteq> 0 then Some (- 1, w) else discard_loop net socket 128 (unat body) w
               });
            Some (result, n_close net socket w)
          })"

record VcmBridgeQueueStatus =
  qs_count :: u32
  qs_imported :: u32
  qs_failed :: u32
  qs_syncing :: u32
  qs_cancelled :: u32
  qs_transferred :: u64
  qs_total :: u64

text \<open>
  The structures that \<open>get_binary\<close> fills are arrays of 40 and 12 bytes; \<open>junk\<close> is their indeterminate content. An answer that is not
  accepted leaves the caller's variables as they are, which is \<^term>\<open>None\<close> here.
\<close>

definition vcm_bridge_queue_status ::
    "('w, 'a) net_scheme \<Rightarrow> (nat \<Rightarrow> u8) \<Rightarrow> 'w \<Rightarrow> (VcmBridgeQueueStatus option \<times> 'w) option" where
  "vcm_bridge_queue_status net junk w = do {
     (rc, v, w) \<leftarrow> get_binary net (ascii ''/v2/usb/queue/status'') (map junk [0..<40]) w;
     Some (if rc < 0 \<or> get32 v 0 \<noteq> 0x53554356 then None
       else Some \<lparr>qs_count = get32 v 4, qs_imported = get32 v 8, qs_failed = get32 v 12, qs_syncing = get32 v 16,
         qs_cancelled = get32 v 20, qs_transferred = get64 v 24, qs_total = get64 v 32\<rparr>, w)
   }"

definition vcm_bridge_item_status ::
    "('w, 'a) net_scheme \<Rightarrow> (nat \<Rightarrow> u8) \<Rightarrow> u32 \<Rightarrow> 'w \<Rightarrow> ((u32 \<times> u32) option \<times> 'w) option" where
  "vcm_bridge_item_status net junk index w =
     (if index \<ge> 128 then Some (None, w)
      else do {
        (rc, v, w) \<leftarrow> get_binary net (take 63 (ascii ''/v2/usb/queue/item/'' @ dec_text (unat index))) (map junk [0..<12]) w;
        Some (if rc < 0 \<or> get32 v 0 \<noteq> 0x49554356 then None else Some (get32 v 4, get32 v 8), w)
      })"

subsection \<open>An accepted catalogue is well formed\<close>

lemma entries_at_length: "length (entries_at m n) = n"
  by (induction n arbitrary: m) simp_all

lemma entries_at_nth: "i < n \<Longrightarrow> entries_at m n ! i = entry_at (take 1120 (drop (1120 * i) m))"
proof (induction n arbitrary: m i)
  case (Suc n)
  then show ?case by (cases i) (simp_all add: drop_drop add.commute)
qed simp

lemma entry_at_shape: "1120 \<le> length m \<Longrightarrow> entry_shape (entry_at m)"
  by (simp add: entry_shape_def entry_at_def get_text_def)

lemma scan_text_terminated: "scan_text refused a = Some len \<Longrightarrow> len \<noteq> length a \<Longrightarrow> 0 \<in> set a \<and> len = length (takeWhile (\<lambda>c. c \<noteq> 0) a) \<and>
  (\<forall>c \<in> set (takeWhile (\<lambda>c. c \<noteq> 0) a). \<not> refused c)"
  by (induction a arbitrary: len) (auto split: if_splits)

lemma not_unterminated: "\<not> unterminated a \<longleftrightarrow> 0 \<in> set a"
proof (induction a)
  case (Cons c a)
  then show ?case by (auto simp: unterminated_def)
qed (simp add: unterminated_def)

lemma entries_accepted_iff: "entries_accepted k es \<longleftrightarrow> (\<forall>i < length es. entry_accepted (k + i) (es ! i))"
proof (induction es arbitrary: k)
  case (Cons e es)
  show ?case
    unfolding entries_accepted.simps Cons.IH by (auto simp: less_Suc_eq_0_disj nth_Cons')
qed simp

lemma text_accepted_terminated: "text_accepted refused a \<Longrightarrow> 0 \<in> set a"
  using scan_text_terminated by (fastforce simp: text_accepted_def split: option.splits)

lemma entry_accepted_wf:
  assumes "entry_accepted i e" and "entry_shape e" and "i + 1 < 2 ^ 32"
  shows "entry_wf i e"
proof -
  have h: "e_handle e = of_nat (Suc i)" and k: "e_kind e \<le> 4" and t: "0 \<in> set (e_name e)" "0 \<in> set (e_display_name e)"
    "0 \<in> set (e_title e)" "0 \<in> set (e_artist e)" "0 \<in> set (e_album e)" "0 \<in> set (e_created e)" "0 \<in> set (e_modified e)"
    using assms(1) text_accepted_terminated by (auto simp: entry_accepted_def not_unterminated not_less add.commute)
  have f: "e_kind e = 4 \<longleftrightarrow> i < 3" and p: "e_parent e = (if i < 3 then 0 else if e_kind e = 0 then 1 else if e_kind e = 1 then 2 else 3)"
    using assms(1) by (auto simp: entry_accepted_def split: if_splits)
  have "unat (e_handle e) = Suc i" unfolding h using assms(3) by (intro unat_of_nat_small) simp
  moreover have "parent_of_kind (uint (e_kind e)) = (if e_kind e = 0 then 1 else if e_kind e = 1 then 2 else 3)"
    using word_uint_eq_iff [of "e_kind e" 1] by (simp add: parent_of_kind_def unsigned_eq_0_iff)
  ultimately show ?thesis
    using k t f p assms(2) by (simp add: entry_wf_def entry_strings_ok_def entry_shape_def)
qed

lemma validate_wf:
  assumes "validate out (Some body) len = Some (0, out')" and "unat len \<le> length body"
  shows "catalog_wf (b_catalog out') \<and> b_max_size out' \<noteq> 0 \<and> b_free_size out' \<le> b_max_size out' \<and>
    b_block out' = b_block out"
proof -
  let ?h = "header_at body"
  let ?n = "unat (h_count ?h)"
  let ?es = "entries_at (drop 32 body) ?n"
  have g: "\<not> len < 32" "\<not> h_count ?h < 3" "\<not> h_count ?h > (len - 32) div 1120" "len = 32 + h_count ?h * 1120"
    "h_max_size ?h \<noteq> 0" "\<not> h_free_size ?h > h_max_size ?h" "entries_accepted 0 ?es"
    "out' = out\<lparr>b_catalog := \<lparr>c_entries = Some ?es, c_count = h_count ?h, c_capacity = h_count ?h\<rparr>,
      b_max_size := h_max_size ?h, b_free_size := h_free_size ?h\<rparr>"
    using assms by (auto simp: validate_def Let_def split: if_splits)
  have n: "?n \<le> (unat len - 32) div 1120"
    using g(1,3) by (simp add: word_less_nat_alt unat_div not_less unat_diff_le word_le_nat_alt)
  then have "1120 * ?n \<le> unat len - 32" by (simp add: less_eq_div_iff_mult_less_eq mult.commute)
  then have room: "1120 * ?n \<le> length (drop 32 body)" using assms(2) by simp
  have "entry_wf i (?es ! i)" if i: "i < ?n" for i
  proof -
    have "1120 * Suc i \<le> 1120 * ?n" using i by simp
    then have "1120 \<le> length (take 1120 (drop (1120 * i) (drop 32 body)))" using room by simp
    then have "entry_shape (?es ! i)" using i by (simp only: entries_at_nth entry_at_shape)
    moreover have "entry_accepted i (?es ! i)" using g(7) i by (simp add: entries_accepted_iff entries_at_length)
    moreover have "i + 1 < 2 ^ 32" using i unat_u32_less [of "h_count ?h"] by simp
    ultimately show ?thesis by (intro entry_accepted_wf)
  qed
  then have "catalog_wf (b_catalog out')" using g(2,8) by (simp add: catalog_wf_def entries_at_length not_less)
  then show ?thesis using g(5,6,8) by simp
qed

subsection \<open>The kernel and the network\<close>

text \<open>
  Documented behaviour of the calls: a receive writes as many bytes as it returns, at most as many as it was asked for, and none on an
  error; a send accepts at most what it was given; a memory block has at least the size asked for.
\<close>

definition net_ok :: "('w, 'a) net_scheme \<Rightarrow> bool" where
  "net_ok net \<longleftrightarrow>
     (\<forall>s n w got bs w'. n_recv net s n w = (got, bs, w') \<longrightarrow>
        (if got > 0 then got = int (length bs) \<and> length bs \<le> n else bs = [])) \<and>
     (\<forall>s d w count w'. n_send net s d w = (count, w') \<longrightarrow> count \<le> int (length d)) \<and>
     (\<forall>n w block w' w'' result base w3. k_alloc net n w = (block, w') \<longrightarrow> k_base net block w'' = (result, base, w3) \<longrightarrow>
        (\<forall>data. base = Some data \<longrightarrow> n \<le> length data) \<and> (0 \<le> result \<longrightarrow> base \<noteq> None))"

lemma net_recv:
  assumes "net_ok net" and "n_recv net s n w = (got, bs, w')"
  shows "got > 0 \<Longrightarrow> got = int (length bs) \<and> length bs \<le> n" "\<not> got > 0 \<Longrightarrow> bs = []" "length bs \<le> n"
  using assms unfolding net_ok_def by (metis le0 list.size(3))+

lemma write_at_in: "i + length bs \<le> length data \<Longrightarrow> \<exists>data'. write_at data i bs = Some data' \<and> length data' = length data \<and>
    take i data' = take i data \<and> take (i + length bs) data' = take i data @ bs"
  by (simp add: write_at_def)

lemma recv_loop_total:
  assumes "net_ok net" and "size0 \<le> length data" and "received \<le> size0"
  shows "\<exists>rc data' w'. recv_loop net socket size0 received data w = Some (rc, data', w') \<and> length data' = length data \<and> rc \<in> {0, - 1}"
  using assms
proof (induction net socket size0 received data w rule: recv_loop.induct)
  case (1 net socket size0 received data w)
  show ?case
  proof (cases "received < size0")
    case False
    then show ?thesis by (subst recv_loop.simps) simp
  next
    case True
    obtain got bs w1 where r: "n_recv net socket (size0 - received) w = (got, bs, w1)" by (metis prod_cases3)
    have b: "length bs \<le> size0 - received" using net_recv(3) [OF "1.prems"(1) r] .
    then have "received + length bs \<le> length data" using True "1.prems"(2) by linarith
    from write_at_in [OF this] obtain d1 where d1: "write_at data received bs = Some d1" "length d1 = length data" by blast
    show ?thesis
    proof (cases "got \<le> 0")
      case True
      then show ?thesis using r d1 \<open>received < size0\<close> by (subst recv_loop.simps) simp
    next
      case False
      then have "received + nat got \<le> size0" using net_recv(1) [OF "1.prems"(1) r] b True by simp
      with "1.IH" [OF True r [symmetric] refl, of d1] False "1.prems"(1,2) d1
      have "\<exists>rc data' w'. recv_loop net socket size0 (received + nat got) d1 w1 = Some (rc, data', w') \<and>
        length data' = length data \<and> rc \<in> {0, - 1}" by auto
      then show ?thesis using r d1 True False by (subst recv_loop.simps) simp
    qed
  qed
qed

lemma read_headers_total:
  assumes "net_ok net" and "length headers < 512"
  shows "\<exists>h ok w'. read_headers net socket headers w = Some (h, ok, w') \<and> length h < 512"
  using assms
proof (induction net socket headers w rule: read_headers.induct)
  case (1 net socket headers w)
  show ?case
  proof (cases "length headers + 1 < 512")
    case False
    then show ?thesis using "1.prems" by (subst read_headers.simps) auto
  next
    case True
    obtain got bs w1 where r: "n_recv net socket 1 w = (got, bs, w1)" by (metis prod_cases3)
    show ?thesis
    proof (cases "got = 1")
      case False
      then show ?thesis using True r by (subst read_headers.simps) auto
    next
      case got: True
      then have "length bs = 1" using net_recv(1) [OF "1.prems"(1) r] by simp
      then obtain c where c: "bs = [c]" by (cases bs) auto
      show ?thesis
      proof (cases "length (headers @ [c]) \<ge> 4 \<and> drop (length (headers @ [c]) - 4) (headers @ [c]) = end_of_headers")
        case stop: True
        then show ?thesis using True r got c by (subst read_headers.simps) (auto simp: Let_def)
      next
        case go: False
        have "\<exists>h ok w'. read_headers net socket (headers @ [c]) w1 = Some (h, ok, w') \<and> length h < 512"
          using "1.IH" [OF True r [symmetric] refl, of c "[]" "headers @ [c]"] got c go "1.prems"(1) True by simp
        then show ?thesis using True r got c go by (subst read_headers.simps) (auto simp: Let_def)
      qed
    qed
  qed
qed

lemma response_length_total:
  assumes "net_ok net"
  shows "\<exists>rc n w'. response_length net socket w = Some (rc, n, w') \<and> rc \<in> {0, - 1}"
proof -
  obtain h ok w' where "read_headers net socket [] w = Some (h, ok, w')"
    using read_headers_total [OF assms, of "[]" socket w] by auto
  then show ?thesis by (auto simp: response_length_def Let_def split: option.splits)
qed

lemma allocation_enough:
  assumes "(len :: u32) \<le> 0x2000000"
  shows "unat len \<le> unat ((len + 0xfff) AND NOT 0xfff)"
proof -
  have "unat (len + 0xfff) = unat len + 0xfff" using assms by (simp add: word_le_nat_alt unat_word_ariths)
  moreover have "mask 12 = (0xfff :: u32)" by (simp add: mask_eq_exp_minus_1)
  ultimately have "unat ((len + 0xfff) AND NOT 0xfff) = (unat len + 0xfff) div 4096 * 4096"
    using unat_and_not_mask [of "len + 0xfff" 12] by simp
  then show ?thesis by simp
qed

definition fetch_result :: "int \<Rightarrow> VcmBridgeCatalog \<Rightarrow> bool" where
  "fetch_result rc b \<longleftrightarrow>
     (if rc = 0 then catalog_wf (b_catalog b) \<and> b_max_size b \<noteq> 0 \<and> b_free_size b \<le> b_max_size b \<and> b_block b \<ge> 0
      else rc < 0 \<and> b = no_catalog)"

lemma fetch_body_safe:
  assumes "net_ok net" and "len \<le> 0x2000000"
  shows "\<exists>rc b w'. fetch_body net s len no_catalog w = Some (rc, b, w') \<and> fetch_result rc b"
proof -
  obtain block w1 where al: "k_alloc net (unat ((len + 0xfff) AND NOT 0xfff)) w = (block, w1)" by fastforce
  obtain result base w2 where ba: "k_base net block w1 = (result, base, w2)" by (metis prod_cases3)
  show ?thesis
  proof (cases "block < 0")
    case True
    then show ?thesis using al by (simp add: fetch_body_def fetch_result_def)
  next
    case bl: False
    show ?thesis
    proof (cases "result < 0")
      case True
      then have "fetch_body net s len no_catalog w = Some (- 105, no_catalog, k_free net block (n_close net s w2))"
        using al ba bl by (cases base) (simp_all add: fetch_body_def Let_def)
      then show ?thesis by (simp add: fetch_result_def)
    next
      case res: False
      then obtain data where data: "base = Some data" "unat ((len + 0xfff) AND NOT 0xfff) \<le> length data"
        using assms(1) al ba unfolding net_ok_def by (metis not_None_eq not_less)
      then have room: "unat len \<le> length data" using allocation_enough [OF assms(2)] by simp
      obtain r3 d3 w3 where r3: "recv_exact net s data (unat len) w2 = Some (r3, d3, w3)" "length d3 = length data" "r3 \<in> {0, - 1}"
        using recv_loop_total [OF assms(1) room, of 0 s w2] by (auto simp: recv_exact_def)
      have run: "fetch_body net s len no_catalog w =
        (if r3 < 0 then Some (- 105, no_catalog, k_free net block (n_close net s w3))
         else do { (rc, out) \<leftarrow> validate no_catalog (Some d3) len;
           if rc < 0 then Some (- 106, out, k_free net block (n_close net s w3))
           else Some (0, out\<lparr>b_block := block\<rparr>, n_close net s w3) })"
        using al ba bl res data(1) r3(1) by (simp add: fetch_body_def Let_def)
      have "\<exists>rc out. validate no_catalog (Some d3) len = Some (rc, out) \<and> (rc = 0 \<or> rc = - 1 \<and> out = no_catalog)"
        using room r3(2) by (auto simp: validate_def Let_def)
      then obtain rc out where v: "validate no_catalog (Some d3) len = Some (rc, out)" "rc = 0 \<or> rc = - 1 \<and> out = no_catalog" by blast
      show ?thesis
        using run v validate_wf [of no_catalog d3 len out] room r3(2,3) bl by (cases "rc = 0") (auto simp: fetch_result_def)
    qed
  qed
qed

lemma catalog_fetch_safe:
  assumes "net_ok net"
  shows "\<exists>rc b w'. vcm_bridge_catalog_fetch net (Some old) w = Some (rc, Some b, w') \<and> fetch_result rc b"
proof -
  obtain s w1 where c: "connect_local net w = (s, w1)" by fastforce
  obtain r2 w2 where sd: "send_exact net s (ascii ''GET /v2/usb/catalog'' @ request_tail) w1 = (r2, w2)" by fastforce
  obtain r3 n w3 where rl: "response_length net s w2 = Some (r3, n, w3)" "r3 \<in> {0, - 1}"
    using response_length_total [OF assms] by blast
  show ?thesis
  proof (cases "s < 0 \<or> r2 < 0 \<or> r3 < 0 \<or> n < 32 \<or> n > 24 * 1024 * 1024 + 32")
    case True
    then show ?thesis
      using c sd rl by (auto simp: vcm_bridge_catalog_fetch_def fetch_result_def simp del: ascii_simps)
  next
    case False
    let ?len = "ucast n :: u32"
    have fetch: "vcm_bridge_catalog_fetch net (Some old) w = do {
        (rc, out, w) \<leftarrow> fetch_body net s ?len no_catalog w3; Some (rc, Some out, w) }"
      using False c sd rl(1) by (simp add: vcm_bridge_catalog_fetch_def del: ascii_simps)
    have "?len \<le> 0x2000000"
      using False by (simp add: word_le_nat_alt word_less_nat_alt unsigned_ucast_eq take_bit_nat_def)
    from fetch_body_safe [OF assms this, of s w3] show ?thesis unfolding fetch by auto
  qed
qed

text \<open>
  C10. A catalogue fetched over the bridge is safe to serve: on any network and kernel that keep to their documented behaviour, fetching
  always returns without leaving the received block; success means that the catalogue satisfies what the MTP server and
  engine rely on, with a non-zero capacity that bounds the free space and a memory block that holds it; every failure leaves no catalogue.
\<close>

theorem fetched_catalog_wf:
  assumes "net_ok net"
  shows "\<exists>rc b w'. vcm_bridge_catalog_fetch net (Some old) w = Some (rc, Some b, w') \<and>
    (if rc = 0 then catalog_wf (b_catalog b) \<and> b_max_size b \<noteq> 0 \<and> b_free_size b \<le> b_max_size b \<and> b_block b \<ge> 0
     else rc < 0 \<and> b = no_catalog)"
  using catalog_fetch_safe [OF assms] unfolding fetch_result_def .

text \<open>
  A network whose peer has already sent the bytes in its state and which delivers as much as is asked for; a memory block is named by its size.
\<close>

definition script_net :: "u8 list net" where
  "script_net = \<lparr>n_socket = (\<lambda>w. (5, w)), n_init = id, n_timeouts = (\<lambda>s. id), n_connect = (\<lambda>s w. (0, w)), n_close = (\<lambda>s. id),
     n_recv = (\<lambda>s n w. (int (length (take n w)), take n w, drop n w)), n_send = (\<lambda>s d w. (int (length d), w)),
     k_alloc = (\<lambda>n w. (int n, w)), k_base = (\<lambda>b w. (0, Some (replicate (nat b) 0), w)), k_free = (\<lambda>b. id)\<rparr>"

lemma script_net_ok: "net_ok script_net"
  by (simp add: net_ok_def script_net_def)

subsection \<open>Response lengths\<close>

lemma checked_digits_exact:
  assumes "checked_digits number s = Some (v, rest)"
  shows "\<exists>ds. s = ds @ rest \<and> list_all is_digit ds \<and> \<not> is_digit (c_at rest 0) \<and> unat v = digits_value (unat number) ds"
  using assms
proof (induction s arbitrary: number)
  case Nil
  then show ?case by (simp add: is_digit_def)
next
  case (Cons c s)
  show ?case
  proof (cases "is_digit c")
    case False
    then show ?thesis using Cons.prems by (intro exI [of _ "[]"]) auto
  next
    case True
    let ?d = "ucast (c - 0x30) :: u64"
    have ok: "\<not> number > (0xffffffffffffffff - ?d) div 10" and r: "checked_digits (number * 10 + ?d) s = Some (v, rest)"
      using Cons.prems True by (auto simp: Let_def split: if_splits)
    have d: "unat ?d = unat c - 0x30" "unat ?d \<le> 9"
    proof -
      have c: "48 \<le> unat c" "unat c \<le> 57" using True by (simp_all add: is_digit_def word_le_nat_alt)
      then have "unat (c - 0x30) = unat c - 0x30" by (subst unat_diff_le) (simp_all add: word_le_nat_alt)
      then have "unat ?d = (unat c - 0x30) mod 2 ^ 64" by (simp add: unsigned_ucast_eq take_bit_nat_def)
      then show "unat ?d = unat c - 0x30" "unat ?d \<le> 9" using c by (simp_all add: mod_less)
    qed
    have "unat number \<le> (0xffffffffffffffff - unat ?d) div 10"
    proof -
      have "unat (0xffffffffffffffff - ?d) = 0xffffffffffffffff - unat ?d"
        using d(2) by (subst unat_diff_le) (simp_all add: word_le_nat_alt)
      then show ?thesis using ok by (simp add: not_less word_le_nat_alt unat_div)
    qed
    then have "unat number * 10 + unat ?d < 2 ^ 64" using d(2) by simp
    then have u: "unat (number * 10 + ?d) = unat number * 10 + (unat c - 0x30)"
      using d(1) by (simp add: unat_word_ariths)
    from Cons.IH [OF r] obtain ds where "s = ds @ rest" "list_all is_digit ds" "\<not> is_digit (c_at rest 0)"
      "unat v = digits_value (unat number * 10 + (unat c - 0x30)) ds" unfolding u by blast
    then show ?thesis using True by (intro exI [of _ "c # ds"]) simp
  qed
qed

text \<open>
  C36. The announced length of a response is read exactly: when \<open>response_length\<close> accepts, the headers begin with status 200 and
  end with an empty line, and the result is the decimal number that stands between the first \<open>Content-Length\<close> field name and the
  end of its line; a number that does not fit into 64 bits is refused instead of wrapping around.
\<close>

theorem response_length_exact:
  assumes "response_length net socket w = Some (0, n, w')"
  shows "\<exists>h ok before ds after. read_headers net socket [] w = Some (h, ok, w') \<and>
    starts (ascii ''HTTP/1.1 200 '') h \<and> drop (length h - 4) h = end_of_headers \<and>
    header_text h = before @ [13, 10] @ ascii ''Content-Length: '' @ ds @ 13 # after \<and>
    list_all is_digit ds \<and> ds \<noteq> [] \<and> unat n = digits_value 0 ds"
proof -
  obtain h ok w1 where h: "read_headers net socket [] w = Some (h, ok, w1)"
    using assms by (cases "read_headers net socket [] w") (auto simp: response_length_def)
  obtain field where f: "length_field h = Some field" "is_digit (c_at field 0)"
    and st: "starts (ascii ''HTTP/1.1 200 '') h" "drop (length h - 4) h = end_of_headers"
    and cd: "\<exists>rest. checked_digits 0 field = Some (n, rest) \<and> c_at rest 0 = 13" and w: "w1 = w'"
    using assms h by (auto simp: response_length_def Let_def simp del: ascii_simps split: if_splits option.splits)
  obtain rest where rest: "checked_digits 0 field = Some (n, rest)" "c_at rest 0 = 13" using cd by blast
  obtain ds where ds: "field = ds @ rest" "list_all is_digit ds" "unat n = digits_value 0 ds"
    using checked_digits_exact [OF rest(1)] by auto
  obtain after where after: "rest = 13 # after" using rest(2) by (cases rest) auto
  have ne: "ds \<noteq> []" using f(2) ds(1) after by (auto simp: is_digit_def)
  obtain r where r: "strstr (header_text h) ([13, 10] @ ascii ''Content-Length: '') = Some r" "field = drop 18 r"
    using f(1) by (auto simp: length_field_def simp del: ascii_simps)
  obtain a b where ab: "header_text h = a @ r" "r = ([13, 10] @ ascii ''Content-Length: '') @ b"
    using strstr_Some [OF r(1)] by blast
  have "length ([13, 10] @ ascii ''Content-Length: '') = 18" by simp
  then have "b = field" using r(2) ab(2) by (metis append_eq_conv_conj)
  then have "header_text h = a @ [13, 10] @ ascii ''Content-Length: '' @ ds @ 13 # after" using ab ds(1) after by simp
  then show ?thesis using h w st ds(2,3) ne by blast
qed

definition sample_response :: "u8 list" where
  "sample_response = ascii ''HTTP/1.1 200 OK'' @ [13, 10] @ ascii ''Content-Length: 42'' @ [13, 10, 13, 10]"

theorem response_length_exact_witness:
  "response_length script_net 5 sample_response = Some (0, 42, []) \<and>
   (\<exists>h ok before ds after. read_headers script_net 5 [] sample_response = Some (h, ok, []) \<and>
     header_text h = before @ [13, 10] @ ascii ''Content-Length: '' @ ds @ 13 # after \<and> digits_value 0 ds = 42)"
proof -
  have r: "response_length script_net 5 sample_response = Some (0, 42, [])" by code_simp
  have "unat (42 :: u64) = 42" by simp
  with response_length_exact [OF r] r show ?thesis by metis
qed

text \<open>
  The check is missing where a reply to an upload or a queue command is read: \<open>response_status\<close> accepts a body
  of 2 to the power of 64 bytes as empty, so that the rest of the reply is taken for received.
\<close>

theorem status_length_wraps: "wrapping_digits 0 (ascii ''18446744073709551616'' @ [13]) = (0, [13]) \<and> checked_digits 0 (ascii ''18446744073709551616'' @ [13]) = None"
  by code_simp

end
