(* ===== verification/Mtpif_Adapter.thy ===== *)
theory Mtpif_Adapter
  imports Engine_Invariant Catalog_Client
begin

text \<open>
  The USB adapter of \<^verbatim>\<open>src/usb/mtpif_adapter.c\<close>: it runs one MTP command on the console's MTP port, either through the engine,
  with the loopback client as its transport, or as one of the private queue commands. The kernel's MTP port is a
  parameter, next to the network calls of the client. The lemmas instantiate the engine's theorems with this transport.
\<close>

subsection \<open>The port\<close>

text \<open>A data record; the kernel writes the transferred count, and for a receive the bytes at the front of the buffer.\<close>

record MtpIfSendData =
  d_transaction :: u32
  d_bytes :: "u8 list"
  d_chunk_length :: u32
  d_chunk_length_high :: u32
  d_total_length :: u32
  d_total_length_high :: u32
  d_transferred :: u32
  d_transferred_high :: u32

record 'w mtpif = "'w net" +
  p_phase :: "int \<Rightarrow> 'w \<Rightarrow> int \<times> 'w"
  p_send :: "MtpIfSendData \<Rightarrow> 'w \<Rightarrow> int \<times> MtpIfSendData \<times> 'w"
  p_recv :: "MtpIfSendData \<Rightarrow> 'w \<Rightarrow> int \<times> MtpIfSendData \<times> 'w"
  p_response :: "VcmMtpCommand \<Rightarrow> 'w \<Rightarrow> int \<times> 'w"

definition empty_record :: MtpIfSendData where
  "empty_record = \<lparr>d_transaction = 0, d_bytes = [], d_chunk_length = 0, d_chunk_length_high = 0, d_total_length = 0,
     d_total_length_high = 0, d_transferred = 0, d_transferred_high = 0\<rparr>"

abbreviation (input) MTP_INVALID_PARAMETER :: u16 where "MTP_INVALID_PARAMETER \<equiv> 0x201d"

subsection \<open>Private commands\<close>

definition private_response ::
    "('w, 'a) mtpif_scheme \<Rightarrow> VcmMtpCommand \<Rightarrow> u16 \<Rightarrow> u32 list \<Rightarrow> 'w \<Rightarrow> int \<times> 'w" where
  "private_response port command code params w =
     (let response = command\<lparr>m_code := code, m_reserved := 0, m_param_count := of_nat (length params),
            m_params := take 5 (params @ replicate 5 0)\<rparr>;
          (phase, w) = p_phase port 8 w
      in if phase < 0 then (phase, w) else p_response port response w)"

text \<open>
  The loop that moves the data phase of an upload through the static buffer \<open>scratch\<close>; a receive that changes the size of the buffer has
  written outside it.
\<close>

function receive_private_data ::
    "('w, 'a) mtpif_scheme \<Rightarrow> VcmMtpCommand \<Rightarrow> nat \<Rightarrow> nat \<Rightarrow> u8 list \<Rightarrow> VcmBridgeUpload \<Rightarrow> 'w \<Rightarrow>
      (int \<times> u8 list \<times> VcmBridgeUpload \<times> 'w) option" where
  "receive_private_data port command all received scratch upload w =
     (if received < all then
        let wanted = (if all - received > 65536 then 65536 else of_nat (all - received)) :: u32 in
        case p_recv port (empty_record\<lparr>d_transaction := m_transaction command, d_bytes := scratch, d_chunk_length := wanted\<rparr>) w
        of (result, r, w) \<Rightarrow>
          if length (d_bytes r) \<noteq> length scratch then None
          else if result < 0 \<or> d_transferred r = 0 \<or> d_transferred_high r \<noteq> 0 \<or> d_transferred r > wanted
          then Some (- 1, d_bytes r, upload, w)
          else do {
            bytes \<leftarrow> pass (d_bytes r) (d_transferred r);
            let (rc, upload, w) = vcm_bridge_upload_write port upload bytes w;
            if rc < 0 then Some (- 1, d_bytes r, upload, w)
            else receive_private_data port command all (received + unat (d_transferred r)) (d_bytes r) upload w
          }
      else Some (if received = all then 0 else - 1, scratch, upload, w))"
  by pat_completeness auto

termination
  by (relation "measure (\<lambda>(port, command, all, received, scratch, upload, w). all - received)")
    (auto simp: unat_gt_0 intro!: diff_less_mono2)

declare receive_private_data.simps [simp del]

definition join64 :: "u32 \<Rightarrow> u32 \<Rightarrow> u64" where
  "join64 lo hi = ucast lo OR push_bit 32 (ucast hi)"

text \<open>An upload command: what to begin, then the data, then the end or an abort.\<close>

definition private_upload ::
    "('w, 'a) mtpif_scheme \<Rightarrow> VcmMtpCommand \<Rightarrow> u64 \<Rightarrow> u8 list \<Rightarrow>
      (VcmBridgeUpload \<Rightarrow> 'w \<Rightarrow> int \<times> VcmBridgeUpload \<times> 'w) \<Rightarrow> 'w \<Rightarrow> (int \<times> u8 list \<times> 'w) option" where
  "private_upload port command size0 scratch start w = do {
     let (status, upload, w) = start \<lparr>up_socket = - 1, up_expected = 0, up_written = 0\<rparr> w;
     (rc, scratch, upload, w) \<leftarrow>
       (if status = 0 then receive_private_data port command (unat size0) 0 scratch upload w else Some (- 1, scratch, upload, w));
     if rc = 0 then do {
       (status, _, w) \<leftarrow> vcm_bridge_upload_finish port upload w;
       Some (status, scratch, w)
     }
     else
       let (_, w) = vcm_bridge_upload_abort port upload w
       in Some (status, scratch, w)
   }"

text \<open>The array of parameters is read only as far as the count reaches, and always has five elements.\<close>

definition dispatch_private ::
    "('w, 'a) mtpif_scheme \<Rightarrow> (nat \<Rightarrow> u8) \<Rightarrow> u8 list \<Rightarrow> VcmMtpCommand \<Rightarrow> 'w \<Rightarrow> (int \<times> u8 list \<times> 'w) option" where
  "dispatch_private port junk scratch command w =
     (let code = m_code command; ps = m_params command; count = m_param_count command;
          refuse = (let (rc, w) = private_response port command MTP_INVALID_PARAMETER [] w in (rc, scratch, w));
          answer = (\<lambda>status params scratch w.
            let (rc, w) = private_response port command (if status = 0 then MTP_OK else MTP_GENERAL_ERROR)
              (if status < 0 then [] else params) w
            in (rc, scratch, w))
      in if code = 0x9ff0 then
           if count \<noteq> 2 then Some refuse
           else do {
             let size0 = join64 (ps ! 0) (ps ! 1);
             (status, scratch, w) \<leftarrow> private_upload port command size0 scratch (\<lambda>u. vcm_bridge_queue_begin port u size0) w;
             Some (answer status [] scratch w)
           }
         else if code = 0x9ff1 then
           if count \<noteq> 4 \<or> ps ! 1 > 1 then Some refuse
           else do {
             let size0 = join64 (ps ! 2) (ps ! 3);
             (status, scratch, w) \<leftarrow> private_upload port command size0 scratch
               (\<lambda>u. vcm_bridge_file_begin port u (ps ! 0) (sint (ps ! 1)) size0) w;
             Some (answer status [] scratch w)
           }
         else if code = 0x9ff2 then
           if count \<noteq> 0 then Some refuse
           else do { (status, w) \<leftarrow> vcm_bridge_queue_action port (ascii ''sync'') w; Some (answer status [] scratch w) }
         else if code = 0x9ff3 then
           if count \<noteq> 0 then Some refuse
           else do {
             (value, w) \<leftarrow> vcm_bridge_queue_status port junk w;
             Some (case value of
               None \<Rightarrow> answer (- 1) [] scratch w
             | Some v \<Rightarrow> answer 0 [qs_count v, qs_imported v, qs_failed v, qs_syncing v, qs_cancelled v] scratch w)
           }
         else if code = 0x9ff4 then
           if count \<noteq> 1 \<or> ps ! 0 \<ge> 128 then Some refuse
           else do {
             (value, w) \<leftarrow> vcm_bridge_item_status port junk (ps ! 0) w;
             Some (case value of None \<Rightarrow> answer (- 1) [] scratch w | Some (state, error) \<Rightarrow> answer 0 [state, error] scratch w)
           }
         else if code = 0x9ff5 then
           if count \<noteq> 0 then Some refuse
           else do { (status, w) \<leftarrow> vcm_bridge_queue_action port (ascii ''cancel'') w; Some (answer status [] scratch w) }
         else Some (0, scratch, w))"

subsection \<open>The transport\<close>

text \<open>
  The context of the callbacks. The engine's callbacks have no fault value: a fault of the client is recorded in \<open>x_fault\<close>, and the callback
  fails.
\<close>

record 'w MtpIfContext =
  x_world :: 'w
  x_stream :: VcmBridgeStream
  x_sent :: u32
  x_total :: u32
  x_fault :: bool

definition send_data ::
    "('w, 'a) mtpif_scheme \<Rightarrow> 'w MtpIfContext \<Rightarrow> VcmMtpCommand \<Rightarrow> u8 list \<Rightarrow> u32 \<Rightarrow> u32 \<Rightarrow> c_int \<times> 'w MtpIfContext" where
  "send_data port context command bs offset whole =
     (let count = of_nat (length bs) in
      if count = 0 \<or> count > 0x10000 \<or> offset \<noteq> x_sent context \<or> offset > whole \<or>
         (x_sent context \<noteq> 0 \<and> whole \<noteq> x_total context) \<or> count > whole - offset then (- 1, context)
      else
        case p_send port (empty_record\<lparr>d_transaction := m_transaction command, d_bytes := bs, d_chunk_length := count,
          d_total_length := whole\<rparr>) (x_world context) of (result, r, w) \<Rightarrow>
          if result < 0 \<or> d_transferred r \<noteq> count \<or> d_transferred_high r \<noteq> 0 then (- 1, context\<lparr>x_world := w\<rparr>)
          else (0, context\<lparr>x_world := w, x_sent := x_sent context + count, x_total := whole\<rparr>))"

definition send_response ::
    "('w, 'a) mtpif_scheme \<Rightarrow> 'w MtpIfContext \<Rightarrow> VcmMtpCommand \<Rightarrow> c_int \<times> 'w MtpIfContext" where
  "send_response port context response =
     (let (result, w) = p_phase port 8 (x_world context) in
      if result < 0 then (word_of_int result, context\<lparr>x_world := w\<rparr>)
      else
        let (result, w) = p_response port response w
        in (word_of_int result, context\<lparr>x_world := w\<rparr>))"

definition open_object ::
    "('w, 'a) mtpif_scheme \<Rightarrow> 'w MtpIfContext \<Rightarrow> VcmMtpEntry \<Rightarrow> c_int \<times> 'w MtpIfContext" where
  "open_object port context entry =
     (let st = (x_stream context)\<lparr>bs_socket := - 1\<rparr> in
      case vcm_bridge_stream_open port st entry (x_world context) of
        None \<Rightarrow> (- 1, context\<lparr>x_stream := st, x_fault := True\<rparr>)
      | Some (rc, st, w) \<Rightarrow> (word_of_int rc, context\<lparr>x_stream := st, x_world := w\<rparr>))"

definition read_object ::
    "('w, 'a) mtpif_scheme \<Rightarrow> 'w MtpIfContext \<Rightarrow> u32 \<Rightarrow> c_int \<times> u8 list \<times> 'w MtpIfContext" where
  "read_object port context capacity =
     (case vcm_bridge_stream_read port (x_stream context) capacity (x_world context) of
        (rc, bs, st, w) \<Rightarrow> (word_of_int rc, bs, context\<lparr>x_stream := st, x_world := w\<rparr>))"

definition close_object :: "('w, 'a) mtpif_scheme \<Rightarrow> 'w MtpIfContext \<Rightarrow> 'w MtpIfContext" where
  "close_object port context =
     (let (st, w) = vcm_bridge_stream_close port (x_stream context) (x_world context)
      in context\<lparr>x_stream := st, x_world := w\<rparr>)"

text \<open>
  The thumbnail is fetched into the engine's buffer; the bytes of a failed fetch are not used by the engine and are left out here.
\<close>

definition read_thumb ::
    "('w, 'a) mtpif_scheme \<Rightarrow> 'w MtpIfContext \<Rightarrow> VcmMtpEntry \<Rightarrow> u32 \<Rightarrow> c_int \<times> u8 list \<times> 'w MtpIfContext" where
  "read_thumb port context entry capacity =
     (case vcm_bridge_thumbnail_fetch port entry (replicate (unat capacity) 0) capacity (x_world context) of
        None \<Rightarrow> (- 1, [], context\<lparr>x_fault := True\<rparr>)
      | Some (rc, bmp, w) \<Rightarrow> (word_of_int rc, if rc < 0 then [] else take (nat rc) bmp, context\<lparr>x_world := w\<rparr>))"

definition mtpif_transport :: "('w, 'a) mtpif_scheme \<Rightarrow> 'w MtpIfContext VcmMtpTransport" where
  "mtpif_transport port =
     \<lparr>t_send_data = Some (send_data port), t_send_response = Some (send_response port), t_open_object = Some (open_object port),
      t_read_object = Some (read_object port), t_close_object = Some (close_object port), t_read_thumb = Some (read_thumb port)\<rparr>"

text \<open>
  One command. The result is the returned status, the server, the context and the two static buffers; a private command uses only the
  world of the context.
\<close>

definition vcm_mtpif_dispatch ::
    "('w, 'a) mtpif_scheme \<Rightarrow> (nat \<Rightarrow> u8) \<Rightarrow> VcmMtpResult \<Rightarrow> VcmMtpServer \<Rightarrow> VcmMtpCommand \<Rightarrow> u8 list \<Rightarrow> u8 list \<Rightarrow> 'w \<Rightarrow>
      (c_int \<times> VcmMtpServer \<times> 'w MtpIfContext \<times> u8 list \<times> u8 list) option" where
  "vcm_mtpif_dispatch port junk uninit server command scratch thumbnail w =
     (let (phase, w) = p_phase port 1 w;
          context = \<lparr>x_world = w, x_stream = \<lparr>bs_socket = - 1, bs_remaining = 0\<rparr>, x_sent = 0, x_total = 0, x_fault = False\<rparr>
      in if phase < 0 then Some (word_of_int phase, server, context, scratch, thumbnail)
         else if m_code command \<ge> 0x9ff0 \<and> m_code command \<le> 0x9ff5 then do {
           (rc, scratch, w) \<leftarrow> dispatch_private port junk scratch command w;
           Some (word_of_int rc, server, context\<lparr>x_world := w\<rparr>, scratch, thumbnail)
         }
         else do {
           (ret, server, context, scratch, thumbnail) \<leftarrow>
             vcm_mtp_engine_run server command (mtpif_transport port) context (Some scratch) 65536 (Some thumbnail) 196662 uninit;
           s \<leftarrow> scratch; t \<leftarrow> thumbnail;
           Some (ret, server, context, s, t)
         })"

text \<open>The engine keeps the size of the thumbnail buffer.\<close>

lemma send_phase_thumb_size:
  assumes "send_phase t send server command result c scratch capacity (Some buf) cap = Some (st, c', scratch', thumb')"
  shows "\<exists>buf'. thumb' = Some buf' \<and> length buf' = length buf"
proof -
  have fill: "length b = length buf" if "fill buf bs = Some b" for bs b
    using that by (auto simp: fill_def split: if_splits)
  show ?thesis
  proof (cases "r_data_kind result")
    case VCM_MTP_DATA_THUMB
    then have "send_thumb t send server command result c (Some buf) cap = Some (st, c', thumb')"
      using assms by (auto simp: send_phase_def bind_eq_Some_conv)
    then obtain found where found: "vcm_mtp_catalog_get (s_catalog server) (r_object_handle result) = Some found"
      and th: "send_thumb t send server command result c (Some buf) cap = Some (st, c', thumb')"
      by (cases "vcm_mtp_catalog_get (s_catalog server) (r_object_handle result)") (auto simp: send_thumb_def)
    then show ?thesis
      using fill by (cases found; cases "t_read_thumb t")
        (auto simp: send_thumb_def bind_eq_Some_conv split_beta Let_def split: if_splits)
  qed (use assms in \<open>auto simp: send_phase_def bind_eq_Some_conv split_beta Let_def\<close>)
qed

lemma engine_thumb_size:
  assumes "vcm_mtp_engine_run server command t c scratch capacity (Some buf) cap uninit = Some (ret, server', c', scratch', thumb')"
  shows "\<exists>buf'. thumb' = Some buf' \<and> length buf' = length buf"
proof (cases "t_send_data t = None \<or> t_send_response t = None \<or> scratch = None \<or> capacity < 4096")
  case True
  then show ?thesis using assms by (auto simp: vcm_mtp_engine_run_def split: option.splits if_splits)
next
  case False
  then obtain send answer buf0 where cb: "t_send_data t = Some send" "t_send_response t = Some answer"
    "scratch = Some buf0" "\<not> capacity < 4096" by auto
  obtain status server1 r buf1 where
    ex: "vcm_mtp_server_execute server command uninit scratch capacity = Some (status, server1, r, Some buf1)"
    using assms cb by (auto simp: vcm_mtp_engine_run_def bind_eq_Some_conv split: if_splits)
  show ?thesis
    using assms [unfolded engine_run_eq [OF cb ex]]
    by (auto simp: split_beta Let_def split: if_splits option.splits prod.splits dest!: send_phase_thumb_size)
qed

subsection \<open>The transport keeps the engine's contract\<close>

lemma recv_count_small:
  assumes "net_ok net" and "n_recv net s (unat n) w = (got, bs, w')" and "got > 0"
  shows "got < 2 ^ 32" and "unat (word_of_int got :: u32) = length bs" and "word_of_int got \<le> (n :: u32)"
proof -
  have g: "got = int (length bs)" "length bs \<le> unat n" using net_recv(1) [OF assms(1,2,3)] by simp_all
  then have "length bs < 2 ^ 32" using unat_u32_less [of n] by simp
  then show "got < 2 ^ 32" "unat (word_of_int got :: u32) = length bs" "word_of_int got \<le> n"
    using g by (simp_all add: unat_of_nat_small word_le_nat_alt)
qed

lemma stream_read_polite:
  assumes "net_ok net" and "vcm_bridge_stream_read net stream0 capacity w = (rc, bs, stream1, w')"
  shows "length bs \<le> unat capacity"
proof -
  define cap where "cap = (if ucast capacity > bs_remaining stream0 then ucast (bs_remaining stream0) else capacity)"
  have "unat (ucast (bs_remaining stream0) :: u32) \<le> unat (bs_remaining stream0)"
    by (simp add: unsigned_ucast_eq take_bit_nat_def)
  moreover have "unat (ucast capacity :: u64) = unat capacity"
    using unat_u32_less [of capacity] by (simp add: unsigned_ucast_eq take_bit_nat_def)
  ultimately have le: "cap \<le> capacity" by (auto simp: cap_def word_le_nat_alt word_less_nat_alt)
  obtain got data w1 where r: "n_recv net (bs_socket stream0) (unat cap) w = (got, data, w1)" by (metis prod_cases3)
  have "length data \<le> unat capacity" using net_recv(3) [OF assms(1) r] le by (simp add: word_le_nat_alt)
  then show ?thesis
    using assms(2) r by (auto simp: vcm_bridge_stream_read_def Let_def cap_def [symmetric] split: if_splits)
qed

lemma stream_open_total:
  assumes "net_ok net"
  shows "\<exists>rc stream1 w'. vcm_bridge_stream_open net stream0 entry w = Some (rc, stream1, w')"
proof -
  define request where "request = ascii ''GET /v2/library/'' @ kind_path (e_kind entry) @ ascii ''/'' @
    dec_text (unat (e_native_id entry)) @ (if e_kind entry = VCM_MTP_SIDECAR then ascii ''/m4t'' else []) @ request_tail"
  obtain s w1 where c: "connect_local net w = (s, w1)" by fastforce
  obtain r w2 where sd: "send_exact net s request w1 = (r, w2)" by fastforce
  obtain r3 n w3 where rl: "response_length net s w2 = Some (r3, n, w3)" using response_length_total [OF assms] by blast
  show ?thesis
    unfolding vcm_bridge_stream_open_def Let_def request_def [symmetric] c prod.case sd rl by simp
qed

lemma thumbnail_total:
  assumes "net_ok net" and "length bmp = unat capacity"
  shows "\<exists>rc bmp' w'. vcm_bridge_thumbnail_fetch net entry bmp capacity w = Some (rc, bmp', w') \<and> length bmp' = length bmp \<and>
    (if rc < 0 then rc = - 1 \<or> rc = fst (connect_local net w) else rc \<le> int (unat capacity) \<and> rc < 2 ^ 31)"
proof -
  define request where "request = ascii ''GET /v2/usb/thumb/'' @ dec_text (unat (e_native_id entry)) @ request_tail"
  obtain s w1 where c: "connect_local net w = (s, w1)" by fastforce
  obtain r w2 where sd: "send_exact net s request w1 = (r, w2)" by fastforce
  obtain r3 n w3 where rl: "response_length net s w2 = Some (r3, n, w3)" "r3 \<in> {0, - 1}"
    using response_length_total [OF assms(1)] by blast
  have wide: "unat (ucast capacity :: u64) = unat capacity"
    using unat_u32_less [of capacity] by (simp add: unsigned_ucast_eq take_bit_nat_def)
  note unfold = vcm_bridge_thumbnail_fetch_def request_def [symmetric]
  show ?thesis
  proof (cases "e_kind entry \<noteq> VCM_MTP_PHOTO \<or> e_native_id entry = 0 \<or> capacity < 54 \<or> \<not> request_fits 176 request \<or> s < 0 \<or> r < 0 \<or>
      r3 < 0 \<or> n < 54 \<or> n > ucast capacity \<or> n > 256 * 256 * 3 + 54")
    case True
    then show ?thesis using assms(2) rl(2) unfolding unfold Let_def c prod.case sd rl(1) by auto
  next
    case False
    have n: "54 \<le> unat n" "unat n \<le> unat capacity" "unat n \<le> 196662"
    proof -
      have "\<not> n < 54" "\<not> ucast capacity < n" "\<not> 196662 < n" using False by simp_all
      then have "unat (54 :: u64) \<le> unat n" "unat n \<le> unat (ucast capacity :: u64)" "unat n \<le> unat (196662 :: u64)"
        by (simp_all only: not_less word_le_nat_alt)
      then show "54 \<le> unat n" "unat n \<le> unat capacity" "unat n \<le> 196662" by (simp_all add: wide)
    qed
    obtain r4 d4 w4 where r4: "recv_exact net s bmp (unat n) w3 = Some (r4, d4, w4)" "length d4 = length bmp"
      using recv_loop_total [OF assms(1), of "unat n" bmp 0 s w3] n assms(2) by (auto simp: recv_exact_def)
    have run: "vcm_bridge_thumbnail_fetch net entry bmp capacity w =
      (if r4 < 0 then Some (- 1, d4, n_close net s w4)
       else if length d4 < 6 then None
       else if d4 ! 0 \<noteq> 0x42 \<or> d4 ! 1 \<noteq> 0x4d \<or> ucast (get32 d4 2) \<noteq> n then Some (- 1, d4, n_close net s w4)
       else Some (uint n, d4, n_close net s w4))"
      using False r4(1) unfolding unfold Let_def c prod.case sd rl(1) by simp
    have "uint n \<le> int (unat capacity)" "uint n < 2147483648" using n unfolding uint_nat by linarith+
    then show ?thesis using run r4(2) n assms(2) by auto
  qed
qed

lemma sint_of_int_small: "- (2 ^ 31) \<le> i \<Longrightarrow> i < 2 ^ 31 \<Longrightarrow> sint (word_of_int i :: c_int) = i"
  unfolding int_word_sint by (simp add: mod_pos_pos_trivial)

text \<open>An error code of a socket is a C \<open>int\<close>.\<close>

definition port_ok :: "('w, 'a) mtpif_scheme \<Rightarrow> bool" where
  "port_ok port \<longleftrightarrow> net_ok port \<and> (\<forall>w. - (2 ^ 31) \<le> fst (n_socket port w))"

lemma connect_failed:
  assumes "fst (connect_local net w) < 0"
  shows "fst (connect_local net w) = - 101 \<or> (\<exists>v. fst (connect_local net w) = fst (n_socket net v))"
proof -
  define s1 w1 s2 w2 where d: "s1 = fst (n_socket net w)" "w1 = snd (n_socket net w)"
    "s2 = fst (n_socket net (n_init net w1))" "w2 = snd (n_socket net (n_init net w1))"
  have "n_socket net w = (s1, w1)" "n_socket net (n_init net w1) = (s2, w2)" by (simp_all add: d)
  then have "fst (connect_local net w) \<in> {- 101, s1, s2}"
    using assms by (auto simp: connect_local_def Let_def split: prod.splits if_splits)
  then show ?thesis using d(1,3) by auto
qed

lemma connect_error:
  assumes "port_ok port" and "fst (connect_local port w) < 0"
  shows "sint (word_of_int (fst (connect_local port w)) :: c_int) < 0"
proof -
  have low: "- (2 ^ 31) \<le> fst (n_socket port v)" for v using assms(1) by (simp add: port_ok_def)
  have "- (2 ^ 31) \<le> fst (connect_local port w)"
    using connect_failed [OF assms(2)] low by fastforce
  then show ?thesis using assms(2) by (simp add: sint_of_int_small)
qed

lemma mtpif_polite:
  assumes "port_ok port"
  shows "polite (mtpif_transport port)"
proof -
  have net: "net_ok port" using assms by (simp add: port_ok_def)
  have "length bs \<le> unat wanted" if "read_object port c wanted = (got, bs, c')" for c wanted got bs c'
    using that stream_read_polite [OF net] by (auto simp: read_object_def split: prod.splits)
  moreover have "length bs \<le> unat cap \<and> (0 < sint got \<longrightarrow> unat got \<le> unat cap)"
    if "read_thumb port c e cap = (got, bs, c')" for c e cap got bs c'
  proof -
    obtain rc bmp w' where t: "vcm_bridge_thumbnail_fetch port e (replicate (unat cap) 0) cap (x_world c) = Some (rc, bmp, w')"
      "if rc < 0 then rc = - 1 \<or> rc = fst (connect_local port (x_world c)) else rc \<le> int (unat cap) \<and> rc < 2 ^ 31"
      using thumbnail_total [OF net, of "replicate (unat cap) 0" cap e "x_world c"] by auto
    have g: "got = word_of_int rc" "bs = (if rc < 0 then [] else take (nat rc) bmp)" using that t(1) by (auto simp: read_thumb_def)
    show ?thesis
    proof (cases "rc < 0")
      case True
      then have "sint got < 0" using t(2) g(1) connect_error [OF assms, of "x_world c"] by auto
      then show ?thesis using g(2) True by simp
    next
      case False
      then have "rc \<le> int (unat cap)" "rc < 4294967296" using t(2) by (simp_all only: if_False) simp
      then have "nat rc \<le> unat cap" "nat rc < 2 ^ 32" using False by (linarith, simp)
      moreover have "got = of_nat (nat rc)" using g(1) False by simp
      ultimately have "unat got = nat rc" "nat rc \<le> unat cap" using unat_of_nat_small [of "nat rc", where ?'w = 32] by simp_all
      then show ?thesis using g(2) False by simp
    qed
  qed
  ultimately show ?thesis by (simp add: polite_def mtpif_transport_def split: prod.split)
qed


lemma mtpif_faultless:
  assumes "port_ok port"
  shows "callback_invariant (mtpif_transport port) (\<lambda>c. \<not> x_fault c)"
proof -
  have net: "net_ok port" using assms by (simp add: port_ok_def)
  have "\<not> x_fault c'" if "open_object port c e = (st, c')" "\<not> x_fault c" for c e st c'
    using that stream_open_total [OF net, of "(x_stream c)\<lparr>bs_socket := - 1\<rparr>" e "x_world c"]
    by (auto simp: open_object_def Let_def)
  moreover have "\<not> x_fault c'" if "read_thumb port c e cap = (st, bs, c')" "\<not> x_fault c" for c e cap st bs c'
    using that thumbnail_total [OF net, of "replicate (unat cap) 0" cap e "x_world c"]
    by (auto simp: read_thumb_def)
  moreover have "\<not> x_fault c'" if "send_data port c command bs off whole = (st, c')" "\<not> x_fault c" for c command bs off whole st c'
    using that by (auto simp: send_data_def Let_def split: if_splits prod.splits)
  moreover have "\<not> x_fault c'" if "send_response port c r = (st, c')" "\<not> x_fault c" for c r st c'
    using that by (auto simp: send_response_def Let_def split: if_splits prod.splits)
  moreover have "\<not> x_fault c'" if "read_object port c wanted = (st, bs, c')" "\<not> x_fault c" for c wanted st bs c'
    using that by (auto simp: read_object_def split: prod.splits)
  ultimately show ?thesis
    by (intro callback_invariant.intro) (auto simp: mtpif_transport_def close_object_def Let_def split: prod.splits)
qed

subsection \<open>Chunks at the port\<close>

text \<open>A port that takes every record it is given completely.\<close>

definition port_takes :: "('w, 'a) mtpif_scheme \<Rightarrow> bool" where
  "port_takes port \<longleftrightarrow> (\<forall>r w. case p_send port r w of (result, r', w') \<Rightarrow>
     0 \<le> result \<and> d_transferred r' = d_chunk_length r \<and> d_transferred_high r' = 0)"

text \<open>The progress that the adapter keeps of a transfer, and whether it accepts a chunk.\<close>

definition takes :: "u32 \<times> u32 \<Rightarrow> u8 list \<Rightarrow> u32 \<Rightarrow> u32 \<Rightarrow> bool" where
  "takes p b off whole \<longleftrightarrow> (let count = of_nat (length b) in
     \<not> (count = 0 \<or> count > 0x10000 \<or> off \<noteq> fst p \<or> off > whole \<or> (fst p \<noteq> 0 \<and> whole \<noteq> snd p) \<or> count > whole - off))"

definition advance :: "u32 \<times> u32 \<Rightarrow> chunk \<Rightarrow> u32 \<times> u32" where
  "advance p x = (case x of (b, off, whole, ok) \<Rightarrow> if ok then (fst p + of_nat (length b), whole) else p)"

fun verdicts :: "u32 \<times> u32 \<Rightarrow> chunk list \<Rightarrow> bool" where
  "verdicts p [] \<longleftrightarrow> True"
| "verdicts p ((b, off, whole, ok) # xs) \<longleftrightarrow> ok = takes p b off whole \<and> verdicts (advance p (b, off, whole, ok)) xs"

lemma verdicts_snoc: "verdicts p (xs @ [(b, off, whole, ok)]) \<longleftrightarrow> verdicts p xs \<and> ok = takes (foldl advance p xs) b off whole"
  by (induction p xs rule: verdicts.induct) auto

lemma send_data_verdict:
  assumes "port_takes port" and "send_data port c command b off whole = (st, c')"
  shows "(\<not> sint st < 0) = takes (x_sent c, x_total c) b off whole \<and>
    (x_sent c', x_total c') = advance (x_sent c, x_total c) (b, off, whole, \<not> sint st < 0)"
proof (cases "takes (x_sent c, x_total c) b off whole")
  case False
  then have "(st, c') = (- 1, c)" using assms(2) by (simp add: takes_def send_data_def Let_def)
  then show ?thesis using False by (simp add: advance_def)
next
  case True
  define r where "r = empty_record\<lparr>d_transaction := m_transaction command, d_bytes := b, d_chunk_length := of_nat (length b), d_total_length := whole\<rparr>"
  obtain result r' w where p: "p_send port r (x_world c) = (result, r', w)" by (metis prod_cases3)
  have "0 \<le> result \<and> d_transferred r' = of_nat (length b) \<and> d_transferred_high r' = 0"
    using assms(1) p unfolding port_takes_def by (auto simp: r_def dest!: spec [of _ r] spec [of _ "x_world c"])
  then have "(st, c') = (0, c\<lparr>x_world := w, x_sent := x_sent c + of_nat (length b), x_total := whole\<rparr>)"
    using assms(2) True p by (auto simp: takes_def send_data_def Let_def r_def split: if_splits)
  then show ?thesis using True by (simp add: advance_def)
qed

definition progress_kept :: "'w MtpIfContext \<times> event list \<Rightarrow> bool" where
  "progress_kept x \<longleftrightarrow> verdicts (0, 0) (sends (snd x)) \<and>
     foldl advance (0, 0) (sends (snd x)) = (x_sent (fst x), x_total (fst x))"

lemma progress_sent:
  assumes "port_takes port" and "send_data port c command b off whole = (st, c')" and "progress_kept (c, l)"
  shows "progress_kept (c', l @ [Sent b off whole (\<not> sint st < 0)])"
  using send_data_verdict [OF assms(1,2)] assms(3) by (simp add: progress_kept_def verdicts_snoc)

lemma counters_kept:
  "open_object port c e = (st, c') \<Longrightarrow> x_sent c' = x_sent c \<and> x_total c' = x_total c"
  "read_thumb port c e cap = (st, bs, c') \<Longrightarrow> x_sent c' = x_sent c \<and> x_total c' = x_total c"
  "send_response port c response = (st, c') \<Longrightarrow> x_sent c' = x_sent c \<and> x_total c' = x_total c"
  "read_object port c wanted = (st, bs, c') \<Longrightarrow> x_sent c' = x_sent c \<and> x_total c' = x_total c"
  "x_sent (close_object port c) = x_sent c \<and> x_total (close_object port c) = x_total c"
  by (auto simp: open_object_def read_thumb_def send_response_def read_object_def close_object_def Let_def
      split: option.splits if_splits prod.splits)

lemma mtpif_progress:
  assumes "port_takes port"
  shows "callback_invariant (traced (mtpif_transport port)) progress_kept"
proof (intro callback_invariant.intro, goal_cases)
  case (1 send c command bs off whole st c')
  then show ?case using progress_sent [OF assms, of "fst c"]
    by (cases c; cases c') (auto simp: traced_def mtpif_transport_def split: prod.splits)
next
  case (2 answer c response st c')
  then show ?case 
    by (cases c; cases c') (auto simp: traced_def mtpif_transport_def progress_kept_def counters_kept(5) dest!: counters_kept(3) split: prod.splits)
next
  case (3 open1 c e st c')
  then show ?case 
    by (cases c; cases c') (auto simp: traced_def mtpif_transport_def progress_kept_def counters_kept(5) dest!: counters_kept(1) split: prod.splits)
next
  case (4 read c wanted got bs c')
  then show ?case 
    by (cases c; cases c') (auto simp: traced_def mtpif_transport_def progress_kept_def counters_kept(5) dest!: counters_kept(4) split: prod.splits)
next
  case (5 close c)
  then show ?case 
    by (cases c) (auto simp: traced_def mtpif_transport_def progress_kept_def counters_kept(5) split: prod.splits)
next
  case (6 thumb c e cap got bs c')
  then show ?case 
    by (cases c; cases c') (auto simp: traced_def mtpif_transport_def progress_kept_def counters_kept(5) dest!: counters_kept(2) split: prod.splits)
qed

text \<open>Exactly the records of 1 to 65536 bytes are accepted; the size of a chunk is counted as the adapter counts it.\<close>

definition fits_record :: "u8 list \<Rightarrow> bool" where
  "fits_record b \<longleftrightarrow> (of_nat (length b) :: u32) \<noteq> 0 \<and> (of_nat (length b) :: u32) \<le> 0x10000"

lemma takes_first: "takes (0, 0) b 0 (of_nat (length b)) \<longleftrightarrow> fits_record b"
  by (auto simp: takes_def fits_record_def Let_def not_less)

definition judged :: "chunk list \<Rightarrow> bool" where
  "judged xs \<longleftrightarrow> (\<forall>(b, off, whole, ok) \<in> set xs. ok \<longleftrightarrow> fits_record b)"

lemma chunks_taken:
  assumes "chunks tot off xs" and "verdicts p xs" and "unat (fst p) = off" and "off = 0 \<or> unat (snd p) = tot"
  shows "judged xs"
  using assms
proof (induction tot off xs arbitrary: p rule: chunks.induct)
  case (2 tot off b o1 t ok xs)
  have h: "unat o1 = off" "unat t = tot" "b \<noteq> []" "off + length b \<le> tot" "ok \<or> xs = []" "chunks tot (off + length b) xs"
    "ok = takes p b o1 t" "verdicts (advance p (b, o1, t, ok)) xs"
    using "2.prems" by auto
  have len: "unat (of_nat (length b) :: u32) = length b" using h(2,4) unat_u32_less [of t] by (intro unat_of_nat_small) simp
  have o: "o1 = fst p" using h(1) "2.prems"(3) by (simp add: word_unat_eq_iff)
  have room: "unat (t - o1) = tot - off" using h by (subst unat_diff_le) (simp_all add: word_le_nat_alt)
  have whole: "fst p \<noteq> 0 \<longrightarrow> t = snd p" using "2.prems"(3,4) h(2) by (auto simp: word_unat_eq_iff)
  have inside: "\<not> o1 > t" "\<not> of_nat (length b) > t - o1"
    using room h(1,2,4) len by (simp_all add: word_less_nat_alt)
  have ok: "ok \<longleftrightarrow> fits_record b"
    using o whole inside unfolding h(7) takes_def Let_def fits_record_def not_less [symmetric] by blast
  moreover have "judged xs" if ok
  proof -
    have "unat (fst p + of_nat (length b)) = off + length b"
      using len h(2,4) "2.prems"(3) unat_u32_less [of t] by (subst unat_add_bounded) simp_all
    then show ?thesis using "2.IH" [of "advance p (b, o1, t, ok)"] h(2,6,8) that by (simp add: advance_def)
  qed
  ultimately show ?case using h(5) by (auto simp: judged_def)
qed (simp add: judged_def)

lemma single_taken:
  assumes "verdicts (0, 0) [(b, 0, of_nat (length b), ok)]"
  shows "judged [(b, 0, of_nat (length b), ok)]"
proof -
  have "ok = takes (0, 0) b 0 (of_nat (length b))" using assms by (simp only: verdicts.simps)
  then show ?thesis unfolding judged_def takes_first by simp
qed

lemma data_taken:
  assumes "delivered s data evs \<or> interrupted s data evs" and "verdicts (0, 0) (sends evs)"
  shows "judged (sends evs)"
proof (cases data)
  case No_Data
  then show ?thesis using assms by (simp add: judged_def)
next
  case (Dataset D)
  then have "evs = [Sent D 0 (of_nat (length D)) True] \<or> evs = [Sent D 0 (of_nat (length D)) False]" using assms(1) by simp
  then have "sends evs = [(D, 0, of_nat (length D), True)] \<or> sends evs = [(D, 0, of_nat (length D), False)]" by (elim disjE) simp_all
  then show ?thesis using assms(2) by (elim disjE) (simp_all only: single_taken)
next
  case (Handles p f hs)
  then have "chunks (4 + 4 * length hs) 0 (sends evs)" using assms(1) by auto
  then show ?thesis using chunks_taken [OF _ assms(2)] by simp
next
  case (Object e)
  then have "chunks (unat (e_size e)) 0 (sends evs)" 
    using assms(1) object_transfer_facts [of "object_room s" "unat (e_size e)" 0]
    by (auto split: if_splits)
  then show ?thesis using chunks_taken [OF _ assms(2)] by simp
next
  case (Thumb e)
  have "of_nat (length b) = got" if "taken_from bs got b" for bs got b
    by (simp add: taken_from_facts(1) [OF that])
  with Thumb have "sends evs = [] \<or> (\<exists>b ok. sends evs = [(b, 0, of_nat (length b), ok)])"
    using assms(1) by (auto split: if_splits)
  then consider "sends evs = []" | b ok where "sends evs = [(b, 0, of_nat (length b), ok)]" by blast
  then show ?thesis
  proof cases
    case 1
    then show ?thesis by (simp add: judged_def)
  next
    case 2
    then show ?thesis using assms(2) by (simp only: single_taken)
  qed
qed

lemma outcome_taken:
  assumes "outcome s c0 server command server' evs response" and "verdicts (0, 0) (sends evs)"
  shows "judged (sends evs)"
proof -
  consider "evs = []" | data where "delivered s data evs \<or> interrupted s data evs"
    using assms(1) by (auto simp: outcome_def split: option.splits if_splits)
  then show ?thesis
  proof cases
    case 1
    then show ?thesis by (simp add: judged_def)
  next
    case 2
    then show ?thesis by (rule data_taken [OF _ assms(2)])
  qed
qed

subsection \<open>Dispatching\<close>

definition private_code :: "VcmMtpCommand \<Rightarrow> bool" where
  "private_code command \<longleftrightarrow> m_code command \<ge> 0x9ff0 \<and> m_code command \<le> 0x9ff5"

definition fresh_context :: "'w \<Rightarrow> 'w MtpIfContext" where
  "fresh_context w = \<lparr>x_world = w, x_stream = \<lparr>bs_socket = - 1, bs_remaining = 0\<rparr>, x_sent = 0, x_total = 0, x_fault = False\<rparr>"

text \<open>What the adapter provides to the engine: every callback, a buffer of 65536 bytes and one for thumbnails.\<close>

definition console_service :: service where
  "console_service = \<lparr>can_objects = True, object_room = 65536, can_thumbs = True\<rparr>"

lemma offers_console: "offers (mtpif_transport port) 65536 (Some thumbnail) 196662 = console_service"
  by (simp add: offers_def mtpif_transport_def console_service_def)

lemma dispatch_serves:
  assumes "port_ok port" and "s_catalog server = Some c0" and "catalog_wf c0" and "command_ok command"
    and "length scratch = 65536" and "length thumbnail = 196662"
    and "p_phase port 1 w = (phase, w1)" and "0 \<le> phase" and "\<not> private_code command"
  shows "\<exists>ret server' context scratch' thumbnail' evs response.
    vcm_mtpif_dispatch port junk uninit server command scratch thumbnail w = Some (ret, server', context, scratch', thumbnail') \<and>
    vcm_mtp_engine_run server command (traced (mtpif_transport port)) (fresh_context w1, []) (Some scratch) 65536 (Some thumbnail) 196662
      uninit = Some (ret, server', (context, evs @ [Responded response]), Some scratch', Some thumbnail') \<and>
    \<not> x_fault context \<and> length scratch' = 65536 \<and> length thumbnail' = 196662 \<and>
    outcome console_service c0 server command server' evs response \<and>
    (port_takes port \<longrightarrow> judged (sends evs))"
proof -
  have ready: "engine_ready server c0 command (mtpif_transport port) scratch 65536 (Some thumbnail) 196662"
    using assms mtpif_polite [OF assms(1)] by (simp add: engine_ready_def) (simp add: mtpif_transport_def)
  obtain ret server' c' scratch' thumb' evs response where run:
    "vcm_mtp_engine_run server command (mtpif_transport port) (fresh_context w1) (Some scratch) 65536 (Some thumbnail) 196662 uninit =
      Some (ret, server', c', Some scratch', thumb')"
    "vcm_mtp_engine_run server command (traced (mtpif_transport port)) (fresh_context w1, []) (Some scratch) 65536 (Some thumbnail)
      196662 uninit = Some (ret, server', (c', evs @ [Responded response]), Some scratch', thumb')"
    "length scratch' = length scratch" "outcome console_service c0 server command server' evs response"
    using engine_traced [OF ready, of "fresh_context w1" uninit] unfolding offers_console by blast
  obtain thumbnail' where th: "thumb' = Some thumbnail'" "length thumbnail' = 196662"
    using engine_thumb_size [OF run(1)] assms(6) by auto
  have "\<not> x_fault c'"
    using callback_invariant.engine_keeps [OF mtpif_faultless [OF assms(1)] run(1)] by (simp add: fresh_context_def)
  moreover have "port_takes port \<longrightarrow> judged (sends evs)"
  proof
    assume takes: "port_takes port"
    have "progress_kept (c', evs @ [Responded response])"
      using callback_invariant.engine_keeps [OF mtpif_progress [OF takes] run(2)] by (simp add: progress_kept_def fresh_context_def)
    then have "verdicts (0, 0) (sends evs)" by (simp add: progress_kept_def)
    then show "judged (sends evs)" using outcome_taken [OF run(4)] by blast
  qed
  moreover have "vcm_mtpif_dispatch port junk uninit server command scratch thumbnail w = Some (ret, server', c', scratch', thumbnail')"
    using run(1) assms(8,9) th(1)
    unfolding vcm_mtpif_dispatch_def assms(7) prod.case private_code_def fresh_context_def [symmetric] Let_def by auto
  ultimately show ?thesis using run(2,3,4) th assms(5) by auto
qed

subsection \<open>Private commands return\<close>

text \<open>The port delivers into the buffer of the record without changing its size.\<close>

definition port_receives :: "('w, 'a) mtpif_scheme \<Rightarrow> bool" where
  "port_receives port \<longleftrightarrow> (\<forall>r w. case p_recv port r w of (result, r', w') \<Rightarrow> length (d_bytes r') = length (d_bytes r))"

lemma response_status_total:
  assumes "net_ok net"
  shows "\<exists>rc n w'. response_status net socket code w = Some (rc, n, w')"
proof -
  obtain h ok w' where "read_headers net socket [] w = Some (h, ok, w')"
    using read_headers_total [OF assms, of "[]" socket w] by auto
  then show ?thesis by (simp add: response_status_def Let_def split: option.split prod.split del: ascii_simps)
qed

lemma discard_loop_total:
  assumes "net_ok net"
  shows "\<exists>rc w'. discard_loop net socket room body w = Some (rc, w')"
  using assms
proof (induction net socket room body w rule: discard_loop.induct)
  case (1 net socket room body w)
  obtain got bs w1 where r: "n_recv net socket (min body room) w = (got, bs, w1)" by (metis prod_cases3)
  have "\<not> got > int (min body room)" using net_recv(1) [OF "1.prems" r] by linarith
  then show ?case
    using "1.IH" [OF _ refl r [symmetric] refl] "1.prems" r by (subst discard_loop.simps) (auto simp: Let_def)
qed

lemma upload_finish_total:
  assumes "net_ok net"
  shows "\<exists>rc upload' w'. vcm_bridge_upload_finish net upload w = Some (rc, upload', w')"
proof -
  obtain r1 n w1 where st: "response_status net (up_socket upload) 201 w = Some (r1, n, w1)"
    using response_status_total [OF assms] by blast
  obtain r2 w2 where d: "discard_loop net (up_socket upload) 256 (unat n) w1 = Some (r2, w2)"
    using discard_loop_total [OF assms] by blast
  show ?thesis using st d by (cases "r1 = 0") (simp_all add: vcm_bridge_upload_finish_def split_beta)
qed

lemma get_binary_total:
  assumes "net_ok net"
  shows "\<exists>rc v w'. get_binary net target out w = Some (rc, v, w') \<and> length v = length out"
proof -
  define request where "request = ascii ''GET '' @ target @ request_tail"
  obtain s w1 where c: "connect_local net w = (s, w1)" by fastforce
  define sent where "sent = (if request_fits 160 request then send_exact net s request w1 else (- 1, w1))"
  obtain r w2 where sd: "sent = (r, w2)" by fastforce
  obtain r3 n w3 where st: "response_status net s 200 w2 = Some (r3, n, w3)" using response_status_total [OF assms] by blast
  obtain r4 v w4 where rc: "recv_exact net s out (length out) w3 = Some (r4, v, w4)" "length v = length out"
    using recv_loop_total [OF assms, of "length out" out 0 s w3] by (auto simp: recv_exact_def)
  show ?thesis
    unfolding get_binary_def c Let_def prod.case request_def [symmetric] sent_def [symmetric] sd using st rc by simp
qed

lemma queue_action_total:
  assumes "net_ok net"
  shows "\<exists>rc w'. vcm_bridge_queue_action net action w = Some (rc, w')"
proof -
  define request where "request = ascii ''POST /v2/usb/'' @ action @ ascii '' HTTP/1.1'' @ [13, 10] @ ascii ''Host: 127.0.0.1'' @ [13, 10] @
                ascii ''Content-Length: 0'' @ [13, 10] @ ascii ''Connection: close'' @ end_of_headers"
  define code :: int where "code = (if action = ascii ''sync'' then 202 else 200)"
  obtain s w1 where c: "connect_local net w = (s, w1)" by fastforce
  define sent where "sent = (if request_fits 192 request then send_exact net s request w1 else (- 1, w1))"
  obtain r w2 where sd: "sent = (r, w2)" by fastforce
  obtain r3 n w3 where st: "response_status net s code w2 = Some (r3, n, w3)" using response_status_total [OF assms] by blast
  obtain r4 w4 where d: "discard_loop net s 128 (unat n) w3 = Some (r4, w4)" using discard_loop_total [OF assms] by blast
  show ?thesis
    unfolding vcm_bridge_queue_action_def c Let_def prod.case request_def [symmetric] sent_def [symmetric] sd code_def [symmetric]
    using st d by simp
qed

lemma receive_private_total:
  assumes "port_receives port" and "length scratch = 65536"
  shows "\<exists>rc scratch' upload' w'. receive_private_data port command all received scratch upload w = Some (rc, scratch', upload', w') \<and>
    rc \<in> {0, - 1} \<and> length scratch' = 65536"
  using assms
proof (induction port command all received scratch upload w rule: receive_private_data.induct)
  case (1 port command all received scratch upload w)
  define wanted :: u32 where "wanted = (if all - received > 65536 then 65536 else of_nat (all - received))"
  define req where "req = empty_record\<lparr>d_transaction := m_transaction command, d_bytes := scratch, d_chunk_length := wanted\<rparr>"
  obtain result r w1 where p: "p_recv port req w = (result, r, w1)" by (metis prod_cases3)
  have len: "length (d_bytes r) = length scratch"
    using "1.prems"(1) p by (auto simp: port_receives_def req_def dest!: spec [of _ req] spec [of _ w])
  have small: "unat wanted \<le> 65536"
    using unat_of_nat_small [of "all - received", where ?'w = 32] by (auto simp: wanted_def)
  show ?case
  proof (cases "received < all \<and> \<not> (result < 0 \<or> d_transferred r = 0 \<or> d_transferred_high r \<noteq> 0 \<or> d_transferred r > wanted)")
    case False
    then show ?thesis using p len "1.prems"(2)
      by (subst receive_private_data.simps) (auto simp: Let_def wanted_def [symmetric] req_def [symmetric])
  next
    case True
    have "unat (d_transferred r) \<le> length (d_bytes r)"
      using True small len "1.prems"(2) by (auto simp: not_less word_le_nat_alt)
    then obtain bs where ps: "pass (d_bytes r) (d_transferred r) = Some bs" by (simp add: pass_def)
    obtain rc u w2 where wr: "vcm_bridge_upload_write port upload bs w1 = (rc, u, w2)" by (metis prod_cases3)
    have step: "receive_private_data port command all received scratch upload w =
      (if rc < 0 then Some (- 1, d_bytes r, u, w2)
       else receive_private_data port command all (received + unat (d_transferred r)) (d_bytes r) u w2)"
      using True p len ps wr
      by (subst receive_private_data.simps) (simp add: Let_def wanted_def [symmetric] req_def [symmetric])
    show ?thesis
    proof (cases "rc < 0")
      case True
      then show ?thesis using step len "1.prems"(2) by simp
    next
      case go: False
      have "\<exists>rc scratch' upload' w'. receive_private_data port command all (received + unat (d_transferred r)) (d_bytes r) u w2 =
          Some (rc, scratch', upload', w') \<and> rc \<in> {0, - 1} \<and> length scratch' = 65536"
        using "1.IH" [OF _ wanted_def p [unfolded req_def, symmetric] refl _ _ ps wr [symmetric] refl refl go "1.prems"(1)]
          True len "1.prems"(2) by simp
      then show ?thesis using step go by simp
    qed
  qed
qed


lemma private_upload_total:
  assumes "net_ok port" and "port_receives port" and "length scratch = 65536"
  shows "\<exists>rc scratch' w'. private_upload port command size0 scratch start w = Some (rc, scratch', w') \<and> length scratch' = 65536"
proof -
  obtain status u w1 where st: "start \<lparr>up_socket = - 1, up_expected = 0, up_written = 0\<rparr> w = (status, u, w1)" by (metis prod_cases3)
  obtain rc s1 u2 w2 where rp: "receive_private_data port command (unat size0) 0 scratch u w1 = Some (rc, s1, u2, w2)"
    "length s1 = 65536"
    using receive_private_total [OF assms(2,3)] by blast
  obtain r3 u3 w3 where fin: "vcm_bridge_upload_finish port u2 w2 = Some (r3, u3, w3)" using upload_finish_total [OF assms(1)] by blast
  show ?thesis
  proof (cases "status = 0")
    case True
    then show ?thesis using st rp fin by (cases "rc = 0") (simp_all add: private_upload_def Let_def split_beta)
  next
    case False
    then show ?thesis using st assms(3) by (simp add: private_upload_def Let_def split_beta)
  qed
qed

lemma dispatch_private_total:
  assumes "net_ok port" and "port_receives port" and "length scratch = 65536"
  shows "\<exists>rc scratch' w'. dispatch_private port junk scratch command w = Some (rc, scratch', w') \<and> length scratch' = 65536"
proof -
  have up: "\<exists>status s1 w1. private_upload port command size0 scratch start w = Some (status, s1, w1) \<and> length s1 = 65536" for size0 start
    using private_upload_total [OF assms] .
  have act: "\<exists>status w1. vcm_bridge_queue_action port action w = Some (status, w1)" for action
    using queue_action_total [OF assms(1)] .
  have qs: "\<exists>v w1. vcm_bridge_queue_status port junk w = Some (v, w1)"
    using get_binary_total [OF assms(1), of "ascii ''/v2/usb/queue/status''" "map junk [0..<40]" w]
    by (auto simp: vcm_bridge_queue_status_def simp del: ascii_simps)
  have item: "\<exists>v w1. vcm_bridge_item_status port junk i w = Some (v, w1)" for i
    using get_binary_total [OF assms(1), of "take 63 (ascii ''/v2/usb/queue/item/'' @ dec_text (unat i))" "map junk [0..<12]" w]
    by (auto simp: vcm_bridge_item_status_def simp del: ascii_simps)
  obtain size1 st1 s1 w1 where u1: "size1 = join64 (m_params command ! 0) (m_params command ! 1)"
    "private_upload port command size1 scratch (\<lambda>u. vcm_bridge_queue_begin port u size1) w = Some (st1, s1, w1)" "length s1 = 65536"
    using up by blast
  obtain size2 st2 s2 w2 where u2: "size2 = join64 (m_params command ! 2) (m_params command ! 3)"
    "private_upload port command size2 scratch
      (\<lambda>u. vcm_bridge_file_begin port u (m_params command ! 0) (sint (m_params command ! 1)) size2) w = Some (st2, s2, w2)"
    "length s2 = 65536"
    using up by blast
  obtain st3 w3 where a3: "vcm_bridge_queue_action port (ascii ''sync'') w = Some (st3, w3)" using act by blast
  obtain v4 w4 where q4: "vcm_bridge_queue_status port junk w = Some (v4, w4)" using qs by blast
  obtain v5 w5 where i5: "vcm_bridge_item_status port junk (m_params command ! 0) w = Some (v5, w5)" using item by blast
  obtain st6 w6 where a6: "vcm_bridge_queue_action port (ascii ''cancel'') w = Some (st6, w6)" using act by blast
  show ?thesis
    unfolding dispatch_private_def Let_def u1(1) [symmetric] u2(1) [symmetric] u1(2) u2(2) a3 q4 i5 a6
    using u1(3) u2(3) assms(3) by (simp split: prod.split option.split)
qed

subsection \<open>Properties\<close>

lemma outcome_catalog: "outcome s c0 server command server' evs response \<Longrightarrow> s_catalog server' = s_catalog server"
  by (auto simp: outcome_def split: option.splits)

text \<open>Whatever the command, a dispatch returns, and keeps the catalogue of the server and the static buffers.\<close>

lemma dispatch_returns:
  assumes "port_ok port" and "port_receives port" and "s_catalog server = Some c0" and "catalog_wf c0" and "command_ok command"
    and "length scratch = 65536" and "length thumbnail = 196662"
  shows "\<exists>ret server' context scratch' thumbnail'.
    vcm_mtpif_dispatch port junk uninit server command scratch thumbnail w = Some (ret, server', context, scratch', thumbnail') \<and>
    \<not> x_fault context \<and> length scratch' = 65536 \<and> length thumbnail' = 196662 \<and> s_catalog server' = Some c0"
proof -
  obtain phase w1 where ph: "p_phase port 1 w = (phase, w1)" by fastforce
  have net: "net_ok port" using assms(1) by (simp add: port_ok_def)
  consider "phase < 0" | "0 \<le> phase" "\<not> private_code command" | "0 \<le> phase" "private_code command" by linarith
  then show ?thesis
  proof cases
    case 1
    then show ?thesis using assms(3,6,7) ph by (simp add: vcm_mtpif_dispatch_def)
  next
    case 2
    then show ?thesis
      using dispatch_serves [OF assms(1,3-7) ph 2, of junk uninit] outcome_catalog assms(3) by metis
  next
    case 3
    obtain rc scratch' w' where "dispatch_private port junk scratch command w1 = Some (rc, scratch', w')" "length scratch' = 65536"
      using dispatch_private_total [OF net assms(2,6)] by blast
    then show ?thesis using assms(3,7) ph 3 by (simp add: vcm_mtpif_dispatch_def private_code_def Let_def)
  qed
qed

text \<open>
  C6. A standard MTP command at the console's port is served as the abstract responder specifies: with a well-formed catalogue and calls that
  keep to their documented behaviour, dispatching returns without a fault and keeps the sizes of the static buffers; the events at
  the transport are those of the engine's outcome; and when the port takes whatever it is given, the adapter accepts exactly the
  data records of 1 to 65536 bytes, so that its bookkeeping of offsets never refuses a chunk that the engine sends.
\<close>

theorem command_served:
  assumes "port_ok port" and "s_catalog server = Some c0" and "catalog_wf c0" and "command_ok command"
    and "length scratch = 65536" and "length thumbnail = 196662"
    and "p_phase port 1 w = (phase, w1)" and "0 \<le> phase" and "\<not> private_code command"
  shows "\<exists>ret server' context scratch' thumbnail' evs response.
    vcm_mtpif_dispatch port junk uninit server command scratch thumbnail w = Some (ret, server', context, scratch', thumbnail') \<and>
    vcm_mtp_engine_run server command (traced (mtpif_transport port)) (fresh_context w1, []) (Some scratch) 65536 (Some thumbnail) 196662
      uninit = Some (ret, server', (context, evs @ [Responded response]), Some scratch', Some thumbnail') \<and>
    \<not> x_fault context \<and> length scratch' = 65536 \<and> length thumbnail' = 196662 \<and>
    outcome console_service c0 server command server' evs response \<and>
    (port_takes port \<longrightarrow>
      (\<forall>(b, off, whole, ok) \<in> set (sends evs).
        ok \<longleftrightarrow> (of_nat (length b) :: u32) \<noteq> 0 \<and> (of_nat (length b) :: u32) \<le> 0x10000))"
  using dispatch_serves [OF assms, of junk uninit] unfolding judged_def fits_record_def .

text \<open>A port that takes everything, over a peer that sends the bytes of the state, and one whose data phase fails.\<close>

definition sample_port :: "u8 list mtpif" where
  "sample_port = net.extend script_net
     \<lparr>p_phase = (\<lambda>p w. (0, w)), p_send = (\<lambda>r w. (0, r\<lparr>d_transferred := d_chunk_length r, d_transferred_high := 0\<rparr>, w)),
      p_recv = (\<lambda>r w. (- 1, r, w)), p_response = (\<lambda>c w. (0, w))\<rparr>"

lemma sample_port_ok: "port_ok sample_port" "port_takes sample_port" "port_receives sample_port"
  by (simp_all add: port_ok_def net_ok_def sample_port_def script_net_def net.defs port_takes_def port_receives_def)

text \<open>The service answers a request for the object with three bytes; the host gets them in one record.\<close>

definition object_reply :: "u8 list" where
  "object_reply = ascii ''HTTP/1.1 200 OK'' @ [13, 10] @ ascii ''Content-Length: 3'' @ end_of_headers @ ascii ''abc''"

lemma sample_stream_open:
  "vcm_bridge_stream_open sample_port \<lparr>bs_socket = - 1, bs_remaining = 0\<rparr> (sample_entry 4 1 0 0x3801 3) object_reply =
    Some (0, \<lparr>bs_socket = 5, bs_remaining = 3\<rparr>, ascii ''abc'')"
  by code_simp

lemma sample_stream_read:
  "vcm_bridge_stream_read sample_port \<lparr>bs_socket = 5, bs_remaining = 3\<rparr> 3 (ascii ''abc'') =
    (3, ascii ''abc'', \<lparr>bs_socket = 5, bs_remaining = 0\<rparr>, [])"
  by code_simp

definition object_announced :: VcmMtpResult where
  "object_announced = \<lparr>r_response = \<lparr>m_code = MTP_OK, m_reserved = 0, m_session = 1, m_transaction = 7,
     m_params = replicate 5 0, m_param_count = 0\<rparr>, r_data_kind = VCM_MTP_DATA_OBJECT, r_data_length = 3,
     r_object_handle = 4, r_parent = 0, r_format = 0\<rparr>"

lemma sample_execute:
  "vcm_mtp_server_execute open_server (sample_command 0x1009 [4]) undefined (Some (replicate 65536 0)) 65536 =
    Some (0, open_server, object_announced, Some (replicate 65536 0))"
  by (simp add: run_simps object_announced_def)

lemma sample_get: "vcm_mtp_catalog_get (s_catalog open_server) 4 = Some (Some (sample_entry 4 1 0 0x3801 3))"
  by (simp add: vcm_mtp_catalog_get_def sample_catalog_def sample_entry_def open_server_def)

text \<open>The context between the callbacks: the socket with what is left of the body, and the counters.\<close>

definition sample_context :: "u64 \<Rightarrow> u8 list \<Rightarrow> u32 \<Rightarrow> u8 list MtpIfContext" where
  "sample_context left w sent = \<lparr>x_world = w, x_stream = \<lparr>bs_socket = 5, bs_remaining = left\<rparr>, x_sent = sent,
     x_total = sent, x_fault = False\<rparr>"

lemma sample_callbacks:
  "open_object sample_port (fresh_context object_reply) (sample_entry 4 1 0 0x3801 3) = (0, sample_context 3 (ascii ''abc'') 0)"
  "read_object sample_port (sample_context 3 (ascii ''abc'') 0) 3 = (3, ascii ''abc'', sample_context 0 [] 0)"
  "send_data sample_port (sample_context 0 [] 0) command (ascii ''abc'') 0 3 = (0, sample_context 0 [] 3)"
  "send_response sample_port (close_object sample_port (sample_context 0 [] 3)) response =
    (0, close_object sample_port (sample_context 0 [] 3))"
  using sample_stream_open sample_stream_read
  by (simp_all add: open_object_def read_object_def send_data_def send_response_def fresh_context_def sample_context_def
      sample_port_def net.defs empty_record_def del: ascii_simps) (simp_all add: ascii_def)

lemma sample_object_sent:
  "\<exists>scratch'. send_object (traced (mtpif_transport sample_port)) (tsend (send_data sample_port)) open_server command
      object_announced (fresh_context object_reply, []) (replicate 65536 0) 65536 =
    Some (0, (close_object sample_port (sample_context 0 [] 3), [Opened (sample_entry 4 1 0 0x3801 3) True,
      Filled 3 3 (ascii ''abc''), Sent (ascii ''abc'') 0 3 True, Closed]), scratch')"
proof -
  have "fill (replicate 65536 0) (ascii ''abc'') = Some (ascii ''abc'' @ drop 3 (replicate 65536 0))"
    "pass (ascii ''abc'' @ drop 3 (replicate 65536 (0 :: u8))) 3 = Some (ascii ''abc'')"
    by (simp_all add: fill_def pass_def ascii_def)
  then have "send_object_loop (tsend (send_data sample_port)) (tread (read_object sample_port)) command 3 65536
      (sample_context 3 (ascii ''abc'') 0, l) (replicate 65536 0) 0 =
    Some (0, (sample_context 0 [] 3, l @ [Filled 3 3 (ascii ''abc''), Sent (ascii ''abc'') 0 3 True]),
      ascii ''abc'' @ drop 3 (replicate 65536 0))" for l
    by (simp add: send_object_loop.simps [of _ _ _ 3 65536 _ _ 0] send_object_loop.simps [of _ _ _ 3 65536 _ _ 3]
        tsend_def tread_def sample_callbacks del: ascii_simps)
  moreover have "t_open_object (traced (mtpif_transport sample_port)) = Some (\<lambda>(c, l) e.
      let (st, c') = open_object sample_port c e in (st, c', l @ [Opened e (\<not> sint st < 0)]))"
    "t_close_object (traced (mtpif_transport sample_port)) = Some (\<lambda>(c, l). (close_object sample_port c, l @ [Closed]))"
    "t_read_object (traced (mtpif_transport sample_port)) = Some (tread (read_object sample_port))"
    by (simp_all add: traced_def mtpif_transport_def tread_def [abs_def])
  ultimately show ?thesis
    by (simp add: send_object_def sample_get object_announced_def sample_callbacks del: ascii_simps)
qed

lemma sample_object_served:
  "\<exists>ret server' context response scratch' thumb'.
    vcm_mtp_engine_run open_server (sample_command 0x1009 [4]) (traced (mtpif_transport sample_port)) (fresh_context object_reply, [])
      (Some (replicate 65536 0)) 65536 (Some (replicate 196662 0)) 196662 undefined =
      Some (ret, server', (context, [Opened (sample_entry 4 1 0 0x3801 3) True, Filled 3 3 (ascii ''abc''),
        Sent (ascii ''abc'') 0 3 True, Closed] @ [Responded response]), scratch', thumb') \<and> m_code response = MTP_OK"
proof -
  have cb: "t_send_data (traced (mtpif_transport sample_port)) = Some (tsend (send_data sample_port))"
    "t_send_response (traced (mtpif_transport sample_port)) = Some (\<lambda>(c, l) response.
       let (st, c') = send_response sample_port c response in (st, c', l @ [Responded response]))"
    by (simp_all add: traced_def mtpif_transport_def tsend_def [abs_def])
  obtain scratch' where "send_object (traced (mtpif_transport sample_port)) (tsend (send_data sample_port)) open_server
      (sample_command 0x1009 [4]) object_announced (fresh_context object_reply, []) (replicate 65536 0) 65536 =
    Some (0, (close_object sample_port (sample_context 0 [] 3), [Opened (sample_entry 4 1 0 0x3801 3) True,
      Filled 3 3 (ascii ''abc''), Sent (ascii ''abc'') 0 3 True, Closed]), scratch')"
    using sample_object_sent by blast
  then have "send_phase (traced (mtpif_transport sample_port)) (tsend (send_data sample_port)) open_server
      (sample_command 0x1009 [4]) object_announced (fresh_context object_reply, []) (replicate 65536 0) 65536
      (Some (replicate 196662 0)) 196662 =
    Some (0, (close_object sample_port (sample_context 0 [] 3), [Opened (sample_entry 4 1 0 0x3801 3) True,
      Filled 3 3 (ascii ''abc''), Sent (ascii ''abc'') 0 3 True, Closed]), scratch', Some (replicate 196662 0))"
    by (simp add: send_phase_def object_announced_def del: ascii_simps)
  then show ?thesis
    using sample_callbacks(4)
    by (subst engine_run_eq [OF cb refl _ sample_execute]) (simp_all add: object_announced_def del: ascii_simps)
qed

theorem command_served_witness:
  "\<exists>ret server' context scratch' thumbnail' evs response.
    vcm_mtpif_dispatch sample_port (\<lambda>i. 0) undefined open_server (sample_command 0x1009 [4]) (replicate 65536 0) (replicate 196662 0)
      object_reply = Some (ret, server', context, scratch', thumbnail') \<and>
    outcome console_service sample_catalog open_server (sample_command 0x1009 [4]) server' evs response \<and>
    m_code response = MTP_OK \<and> sends evs = [(ascii ''abc'', 0, 3, True)] \<and>
    (\<forall>(b, off, whole, ok) \<in> set (sends evs).
      ok \<longleftrightarrow> (of_nat (length b) :: u32) \<noteq> 0 \<and> (of_nat (length b) :: u32) \<le> 0x10000)"
proof -
  have "\<not> private_code (sample_command 0x1009 [4])" "command_ok (sample_command 0x1009 [4])"
    by (simp_all add: private_code_def command_ok_def sample_command_def)
  moreover have "p_phase sample_port 1 object_reply = (0, object_reply)" by (simp add: sample_port_def net.defs)
  moreover have "s_catalog open_server = Some sample_catalog" by (simp add: open_server_def)
  moreover have "length (replicate 65536 (0 :: u8)) = 65536" "length (replicate 196662 (0 :: u8)) = 196662" by (rule length_replicate)+
  ultimately obtain ret server' c1 scratch' thumbnail' evs response where served:
    "vcm_mtpif_dispatch sample_port (\<lambda>i. 0) undefined open_server (sample_command 0x1009 [4]) (replicate 65536 0) (replicate 196662 0)
      object_reply = Some (ret, server', c1, scratch', thumbnail')"
    "vcm_mtp_engine_run open_server (sample_command 0x1009 [4]) (traced (mtpif_transport sample_port)) (fresh_context object_reply, [])
      (Some (replicate 65536 0)) 65536 (Some (replicate 196662 0)) 196662 undefined =
      Some (ret, server', (c1, evs @ [Responded response]), Some scratch', Some thumbnail')"
    "outcome console_service sample_catalog open_server (sample_command 0x1009 [4]) server' evs response"
    "port_takes sample_port \<longrightarrow> (\<forall>(b, off, whole, ok) \<in> set (sends evs).
      ok \<longleftrightarrow> (of_nat (length b) :: u32) \<noteq> 0 \<and> (of_nat (length b) :: u32) \<le> 0x10000)"
    using command_served [OF sample_port_ok(1) _ sample_catalog_wf, of open_server "sample_command 0x1009 [4]"
        "replicate 65536 0" "replicate 196662 0" object_reply 0 object_reply "\<lambda>i. 0" undefined]
    by blast
  have "sends evs = [(ascii ''abc'', 0, 3, True)]" "m_code response = MTP_OK"
    using sample_object_served served(2) by (auto simp del: ascii_simps)
  then show ?thesis using served(1,3,4) sample_port_ok(2) by blast
qed

text \<open>
  C37. A private command always returns: uploads, queue actions and status queries end for any peer and any port that keep to their documented
  behaviour, without leaving a buffer and keeping the size of the shared one.
\<close>

theorem private_commands_return:
  assumes "net_ok port" and "port_receives port" and "length scratch = 65536"
  shows "\<exists>rc scratch' w'. dispatch_private port junk scratch command w = Some (rc, scratch', w') \<and> length scratch' = 65536"
  using assms by (rule dispatch_private_total)

theorem private_commands_return_witness:
  "\<exists>rc scratch' w'. dispatch_private sample_port (\<lambda>i. 0) (replicate 65536 0) (sample_command 0x9ff0 [10, 0]) [] = Some (rc, scratch', w')"
  using private_commands_return [of sample_port "replicate 65536 0" "\<lambda>i. 0" "sample_command 0x9ff0 [10, 0]" "[]"] sample_port_ok
  unfolding port_ok_def by auto

text \<open>
  C38. An upload whose data phase fails is answered with OK: when the queue upload was begun and receiving its data failed, the upload is
  aborted, but the status of its beginning is still 0 and the host gets the response code of success.
\<close>

theorem failed_upload_answered_ok:
  assumes "m_code command = 0x9ff0" and "m_param_count command = 2"
    and "size0 = join64 (m_params command ! 0) (m_params command ! 1)"
    and "vcm_bridge_queue_begin port \<lparr>up_socket = - 1, up_expected = 0, up_written = 0\<rparr> size0 w = (0, upload, w1)"
    and "receive_private_data port command (unat size0) 0 scratch upload w1 = Some (- 1, scratch', upload', w2)"
  shows "dispatch_private port junk scratch command w =
    (let (rc, w3) = private_response port command MTP_OK [] (snd (vcm_bridge_upload_abort port upload' w2)) in Some (rc, scratch', w3))"
  using assms by (simp add: dispatch_private_def private_upload_def split_beta Let_def)

theorem failed_upload_answered_ok_witness:
  "\<exists>scratch' w3. dispatch_private sample_port (\<lambda>i. 0) [0, 0] (sample_command 0x9ff0 [10, 0]) [] =
     (let (rc, w3) = private_response sample_port (sample_command 0x9ff0 [10, 0]) MTP_OK [] w3 in Some (rc, scratch', w3))"
proof -
  let ?c = "sample_command 0x9ff0 [10, 0]"
  have "join64 10 0 = 10" by (simp add: join64_def)
  have b: "vcm_bridge_queue_begin sample_port \<lparr>up_socket = - 1, up_expected = 0, up_written = 0\<rparr> 10 [] =
    (0, \<lparr>up_socket = 5, up_expected = 10, up_written = 0\<rparr>, [])" by code_simp
  have r: "receive_private_data sample_port ?c (unat (10 :: u64)) 0 [0, 0] \<lparr>up_socket = 5, up_expected = 10, up_written = 0\<rparr> [] =
    Some (- 1, [0, 0], \<lparr>up_socket = 5, up_expected = 10, up_written = 0\<rparr>, [])"
    by (subst receive_private_data.simps) (simp add: sample_port_def net.defs empty_record_def)
  show ?thesis
    using failed_upload_answered_ok [of ?c 10 sample_port "[]", OF _ _ _ b r, of "\<lambda>i. 0"] \<open>join64 10 0 = 10\<close>
    by (simp add: sample_command_def) blast
qed

end
