(* ===== verification/World_Invariant.thy ===== *)
theory World_Invariant
  imports Mtpif_Adapter
begin

text \<open>
  An interface between the calls of the system and the USB side of \<^verbatim>\<open>src/usb\<close>: a property of the system's state that every call
  keeps is kept by every operation of the client and of the adapter. The engine's interface for transports follows from it. The calls for
  memory blocks are separate, so that a record of the allocated blocks can be such a property between them.
\<close>

subsection \<open>Invariants of the system's state\<close>

text \<open>
  A property of the system's state that every call of the port keeps, those for memory blocks apart, is kept by every operation of the
  client and the adapter that does not fetch a catalogue, and so by a whole dispatch.
\<close>

locale system_invariant =
  fixes port :: "('w, 'a) mtpif_scheme" and inv :: "'w \<Rightarrow> bool"
  assumes socket [simp]: "inv w \<Longrightarrow> inv (snd (n_socket port w))"
    and init [simp]: "inv w \<Longrightarrow> inv (n_init port w)"
    and timeouts [simp]: "inv w \<Longrightarrow> inv (n_timeouts port s w)"
    and connect [simp]: "inv w \<Longrightarrow> inv (snd (n_connect port s w))"
    and close [simp]: "inv w \<Longrightarrow> inv (n_close port s w)"
    and recv [simp]: "inv w \<Longrightarrow> inv (snd (snd (n_recv port s n w)))"
    and send [simp]: "inv w \<Longrightarrow> inv (snd (n_send port s data w))"
    and phase [simp]: "inv w \<Longrightarrow> inv (snd (p_phase port p w))"
    and send_record [simp]: "inv w \<Longrightarrow> inv (snd (snd (p_send port r w)))"
    and recv_record [simp]: "inv w \<Longrightarrow> inv (snd (snd (p_recv port r w)))"
    and response [simp]: "inv w \<Longrightarrow> inv (snd (p_response port c w))"
begin

lemma connect_keeps [simp]: "inv w \<Longrightarrow> inv (snd (connect_local port w))"
  by (auto simp: connect_local_def Let_def split_beta)

lemma send_loop_keeps:
  assumes "inv w"
  shows "inv (snd (send_loop port socket data sent w))"
  using assms
proof (induction "length data - sent" arbitrary: sent w rule: less_induct)
  case less
  show ?case
    using less.hyps [of "sent + nat (fst (n_send port socket (drop sent data) w))" "snd (n_send port socket (drop sent data) w)"]
      less.prems
    by (subst send_loop.simps) (auto simp: split_beta)
qed

lemma send_exact_keeps [simp]: "inv w \<Longrightarrow> inv (snd (send_exact port socket data w))"
  by (simp add: send_exact_def send_loop_keeps)

lemma recv_loop_keeps:
  assumes "recv_loop port socket size0 received data w = Some x" and "inv w"
  shows "inv (snd (snd x))"
  using assms
proof (induction "size0 - received" arbitrary: received data w rule: less_induct)
  case less
  obtain got bs w1 where r: "n_recv port socket (size0 - received) w = (got, bs, w1)" by (metis prod_cases3)
  have "inv w1" using recv [OF less.prems(2), of socket "size0 - received"] r by simp
  then show ?case
    using less.prems less.hyps [of "received + nat got" _ w1] r
    by (subst (asm) recv_loop.simps) (auto simp: bind_eq_Some_conv split: if_splits)
qed

lemma recv_exact_keeps: "recv_exact port socket data size0 w = Some x \<Longrightarrow> inv w \<Longrightarrow> inv (snd (snd x))"
  by (simp add: recv_exact_def recv_loop_keeps)

lemma read_headers_keeps:
  assumes "read_headers port socket headers w = Some x" and "inv w"
  shows "inv (snd (snd x))"
  using assms
proof (induction "512 - length headers" arbitrary: headers w rule: less_induct)
  case less
  obtain got bs w1 where r: "n_recv port socket 1 w = (got, bs, w1)" by (metis prod_cases3)
  have "inv w1" using recv [OF less.prems(2), of socket 1] r by simp
  then show ?case
    using less.prems less.hyps [of "headers @ bs" w1] r
    by (subst (asm) read_headers.simps) (auto simp: Let_def split: if_splits list.splits)
qed

lemma response_length_keeps: "response_length port socket w = Some x \<Longrightarrow> inv w \<Longrightarrow> inv (snd (snd x))"
  by (auto simp: response_length_def Let_def bind_eq_Some_conv split: if_splits option.splits dest!: read_headers_keeps simp del: ascii_simps)

lemma response_status_keeps: "response_status port socket code w = Some x \<Longrightarrow> inv w \<Longrightarrow> inv (snd (snd x))"
  by (auto simp: response_status_def Let_def bind_eq_Some_conv split: if_splits option.splits prod.splits
      dest!: read_headers_keeps simp del: ascii_simps)

lemma discard_loop_keeps:
  assumes "discard_loop port socket room body w = Some x" and "inv w"
  shows "inv (snd x)"
  using assms
proof (induction body arbitrary: w rule: less_induct)
  case (less body)
  obtain got bs w1 where r: "n_recv port socket (min body room) w = (got, bs, w1)" by (metis prod_cases3)
  have "inv w1" using recv [OF less.prems(2), of socket "min body room"] r by simp
  then show ?case
    using less.prems less.IH [of "body - nat got" w1] r
    by (subst (asm) discard_loop.simps) (auto simp: Let_def split: if_splits)
qed

lemma stream_open_keeps:
  "vcm_bridge_stream_open port stream0 entry w = Some x \<Longrightarrow> inv w \<Longrightarrow> inv (snd (snd x))"
  unfolding vcm_bridge_stream_open_def Let_def split_beta
  by (auto simp: bind_eq_Some_conv split: if_splits dest!: response_length_keeps simp del: ascii_simps)

lemma stream_read_keeps [simp]: "inv w \<Longrightarrow> inv (snd (snd (snd (vcm_bridge_stream_read port stream0 capacity w))))"
  by (simp add: vcm_bridge_stream_read_def Let_def split_beta)

lemma stream_close_keeps [simp]: "inv w \<Longrightarrow> inv (snd (vcm_bridge_stream_close port stream0 w))"
  by (simp add: vcm_bridge_stream_close_def)

lemma thumbnail_keeps:
  assumes "vcm_bridge_thumbnail_fetch port entry bmp capacity w = Some x" and "inv w"
  shows "inv (snd (snd x))"
proof -
  define request where "request = ascii ''GET /v2/usb/thumb/'' @ dec_text (unat (e_native_id entry)) @ request_tail"
  obtain s w1 where c: "connect_local port w = (s, w1)" by fastforce
  obtain r w2 where sd: "send_exact port s request w1 = (r, w2)" by fastforce
  have w: "inv w1" "inv w2" using connect_keeps [OF assms(2)] send_exact_keeps [of w1 s request] c sd by simp_all
  show ?thesis
    using assms w unfolding vcm_bridge_thumbnail_fetch_def Let_def request_def [symmetric] c prod.case sd
    by (auto simp: bind_eq_Some_conv simp del: ascii_simps split: if_split_asm dest!: response_length_keeps recv_exact_keeps)
qed

lemma upload_begin_keeps [simp]: "inv w \<Longrightarrow> inv (snd (snd (upload_begin port upload verb target size0 w)))"
  unfolding upload_begin_def Let_def split_beta by (simp del: ascii_simps)

lemma upload_keeps [simp]:
  "inv w \<Longrightarrow> inv (snd (snd (vcm_bridge_queue_begin port upload size0 w)))"
  "inv w \<Longrightarrow> inv (snd (snd (vcm_bridge_file_begin port upload i sidecar size0 w)))"
  "inv w \<Longrightarrow> inv (snd (snd (vcm_bridge_upload_write port upload data w)))"
  "inv w \<Longrightarrow> inv (snd (vcm_bridge_upload_abort port upload w))"
  by (simp_all add: vcm_bridge_queue_begin_def vcm_bridge_file_begin_def vcm_bridge_upload_write_def vcm_bridge_upload_abort_def
      Let_def split_beta del: ascii_simps)

lemma upload_finish_keeps: "vcm_bridge_upload_finish port upload w = Some x \<Longrightarrow> inv w \<Longrightarrow> inv (snd (snd x))"
  unfolding vcm_bridge_upload_finish_def Let_def split_beta
  by (auto simp: bind_eq_Some_conv split: if_splits dest!: response_status_keeps discard_loop_keeps)

lemma get_binary_keeps: "get_binary port target out w = Some x \<Longrightarrow> inv w \<Longrightarrow> inv (snd (snd x))"
  unfolding get_binary_def Let_def split_beta
  by (auto simp: bind_eq_Some_conv split: if_splits dest!: response_status_keeps recv_exact_keeps simp del: ascii_simps)

lemma queue_action_keeps: "vcm_bridge_queue_action port action w = Some x \<Longrightarrow> inv w \<Longrightarrow> inv (snd x)"
  unfolding vcm_bridge_queue_action_def Let_def split_beta
  by (auto simp: bind_eq_Some_conv split: if_splits dest!: response_status_keeps discard_loop_keeps simp del: ascii_simps)

lemma queue_status_keeps: "vcm_bridge_queue_status port junk w = Some x \<Longrightarrow> inv w \<Longrightarrow> inv (snd x)"
  unfolding vcm_bridge_queue_status_def
  by (auto simp: bind_eq_Some_conv dest!: get_binary_keeps simp del: ascii_simps)

lemma item_status_keeps: "vcm_bridge_item_status port junk i w = Some x \<Longrightarrow> inv w \<Longrightarrow> inv (snd x)"
  unfolding vcm_bridge_item_status_def
  by (auto simp: bind_eq_Some_conv split: if_splits dest!: get_binary_keeps simp del: ascii_simps)

subsection \<open>The adapter\<close>

lemma private_response_keeps [simp]: "inv w \<Longrightarrow> inv (snd (private_response port command code ps w))"
  by (simp add: private_response_def Let_def split_beta)

lemma receive_private_keeps:
  assumes "receive_private_data port command all received scratch upload w = Some x" and "inv w"
  shows "inv (snd (snd (snd x)))"
  using assms
proof (induction "all - received" arbitrary: received scratch upload w rule: less_induct)
  case less
  define wanted :: u32 where "wanted = (if all - received > 65536 then 65536 else of_nat (all - received))"
  define req where "req = empty_record\<lparr>d_transaction := m_transaction command, d_bytes := scratch, d_chunk_length := wanted\<rparr>"
  obtain result r w1 where p: "p_recv port req w = (result, r, w1)" by (metis prod_cases3)
  have w1: "inv w1" using recv_record [OF less.prems(2), of req] p by simp
  show ?case
  proof (cases "received < all \<and> length (d_bytes r) = length scratch \<and>
      \<not> (result < 0 \<or> d_transferred r = 0 \<or> d_transferred_high r \<noteq> 0 \<or> d_transferred r > wanted)")
    case False
    then show ?thesis using less.prems p w1
      by (subst (asm) receive_private_data.simps) (auto simp: Let_def wanted_def [symmetric] req_def [symmetric] split: if_splits)
  next
    case True
    have "0 < unat (d_transferred r)" using True by (simp add: unat_gt_0)
    then have m: "all - (received + unat (d_transferred r)) < all - received" using True by (intro diff_less_mono2) auto
    obtain bs where ps: "pass (d_bytes r) (d_transferred r) = Some bs"
      using less.prems(1) True p
      by (subst (asm) receive_private_data.simps)
        (auto simp: Let_def wanted_def [symmetric] req_def [symmetric] bind_eq_Some_conv)
    obtain rc u w2 where wr: "vcm_bridge_upload_write port upload bs w1 = (rc, u, w2)" by (metis prod_cases3)
    have w2: "inv w2" using upload_keeps(3) [OF w1, of upload bs] wr by simp
    have step: "receive_private_data port command all received scratch upload w =
      (if rc < 0 then Some (- 1, d_bytes r, u, w2)
       else receive_private_data port command all (received + unat (d_transferred r)) (d_bytes r) u w2)"
      using True p ps wr
      by (subst receive_private_data.simps) (simp add: Let_def wanted_def [symmetric] req_def [symmetric])
    show ?thesis using less.prems(1) [unfolded step] less.hyps [OF m _ w2] w2 by (auto split: if_splits)
  qed
qed

lemma private_upload_keeps:
  assumes "private_upload port command size0 scratch start w = Some x" and "inv w"
    and "\<And>u w. inv w \<Longrightarrow> inv (snd (snd (start u w)))"
  shows "inv (snd (snd x))"
proof -
  obtain status u w1 where st: "start \<lparr>up_socket = - 1, up_expected = 0, up_written = 0\<rparr> w = (status, u, w1)" by (metis prod_cases3)
  have "inv w1" using assms(3) [OF assms(2), of "\<lparr>up_socket = - 1, up_expected = 0, up_written = 0\<rparr>"] st by simp
  then show ?thesis using assms(1) st
    by (auto simp: private_upload_def Let_def split_beta bind_eq_Some_conv split: if_splits
        dest!: receive_private_keeps upload_finish_keeps)
qed

lemma dispatch_private_keeps:
  assumes "dispatch_private port junk scratch command w = Some x" and "inv w"
  shows "inv (snd (snd x))"
proof -
  note up = private_upload_keeps [OF _ assms(2)]
  show ?thesis
    using assms(1) unfolding dispatch_private_def Let_def split_beta
    by (auto simp: bind_eq_Some_conv assms(2) split: if_split_asm option.splits simp del: ascii_simps
        dest!: up queue_action_keeps [OF _ assms(2)] queue_status_keeps [OF _ assms(2)] item_status_keeps [OF _ assms(2)])
qed

sublocale adapter: callback_invariant "mtpif_transport port" "\<lambda>c. inv (x_world c)"
proof (unfold_locales, goal_cases)
  case (1 send c command bs off whole st c')
  then show ?case
    by (auto simp: mtpif_transport_def send_data_def Let_def split_beta split: if_splits)
next
  case (2 answer c response st c')
  then show ?case by (auto simp: mtpif_transport_def send_response_def Let_def split_beta split: if_splits)
next
  case (3 open1 c e st c')
  then show ?case
    by (auto simp: mtpif_transport_def open_object_def Let_def split: option.splits prod.splits dest!: stream_open_keeps)
next
  case (4 read c wanted got bs c')
  then show ?case by (auto simp: mtpif_transport_def read_object_def split_beta)
next
  case (5 close c)
  then show ?case by (auto simp: mtpif_transport_def close_object_def split_beta)
next
  case (6 thumb c e cap got bs c')
  then show ?case by (auto simp: mtpif_transport_def read_thumb_def split: option.splits prod.splits dest!: thumbnail_keeps)
qed

lemma dispatch_keeps:
  assumes "vcm_mtpif_dispatch port junk uninit server command scratch thumbnail w = Some (ret, server', c, scratch', thumbnail')"
    and "inv w"
  shows "inv (x_world c)"
proof -
  obtain ph w1 where ph: "p_phase port 1 w = (ph, w1)" by fastforce
  have w1: "inv w1" using phase [OF assms(2), of 1] ph by simp
  show ?thesis
  proof (cases "ph < 0 \<or> private_code command")
    case True
    then show ?thesis
      using assms(1) w1 unfolding vcm_mtpif_dispatch_def ph prod.case Let_def private_code_def
      by (auto simp: bind_eq_Some_conv split: if_split_asm dest!: dispatch_private_keeps)
  next
    case False
    then obtain ret2 s2 c2 sc2 th2 where run: "vcm_mtp_engine_run server command (mtpif_transport port) (fresh_context w1) (Some scratch) 65536
        (Some thumbnail) 196662 uninit = Some (ret2, s2, c2, sc2, th2)" "c = c2"
      using assms(1) unfolding vcm_mtpif_dispatch_def ph prod.case Let_def private_code_def fresh_context_def [symmetric]
      by (auto simp: bind_eq_Some_conv split: if_split_asm)
    show ?thesis
      using adapter.engine_keeps [OF run(1)] w1 run(2) by (simp add: fresh_context_def)
  qed
qed

end

text \<open>When the calls for memory blocks keep the property too, fetching a catalogue keeps it.\<close>

locale world_invariant = system_invariant port inv
  for port :: "('w, 'a) mtpif_scheme" and inv :: "'w \<Rightarrow> bool" +
  assumes alloc [simp]: "inv w \<Longrightarrow> inv (snd (k_alloc port n w))"
    and base [simp]: "inv w \<Longrightarrow> inv (snd (snd (k_base port b w)))"
    and free [simp]: "inv w \<Longrightarrow> inv (k_free port b w)"
begin

lemma fetch_body_keeps:
  assumes "fetch_body port socket len out w = Some x" and "inv w"
  shows "inv (snd (snd x))"
proof -
  let ?w1 = "snd (k_alloc port (unat ((len + 0xfff) AND NOT 0xfff)) w)"
  let ?b = "fst (k_alloc port (unat ((len + 0xfff) AND NOT 0xfff)) w)"
  have "inv (snd (snd (k_base port ?b ?w1)))" using assms(2) by simp
  then show ?thesis using assms
    unfolding fetch_body_def Let_def split_beta
    by (auto simp: bind_eq_Some_conv split: if_splits option.splits dest!: recv_exact_keeps)
qed

lemma catalog_fetch_keeps: "vcm_bridge_catalog_fetch port out w = Some x \<Longrightarrow> inv w \<Longrightarrow> inv (snd (snd x))"
  unfolding vcm_bridge_catalog_fetch_def Let_def split_beta
  by (auto simp: bind_eq_Some_conv split: if_splits option.splits dest!: response_length_keeps fetch_body_keeps simp del: ascii_simps)

end

subsection \<open>The memory blocks held\<close>

text \<open>
  A record of the memory blocks that have been allocated and not freed, as the system's state shows it; freeing a block that is not held
  leaves no record. Only the calls for memory blocks change it.
\<close>

definition take_block :: "int \<Rightarrow> int list option \<Rightarrow> int list option" where
  "take_block b held = (if b < 0 then held else map_option (Cons b) held)"

definition free_block :: "int \<Rightarrow> int list option \<Rightarrow> int list option" where
  "free_block b held = (case held of None \<Rightarrow> None | Some bs \<Rightarrow> if b \<in> set bs then Some (remove1 b bs) else None)"

lemma free_taken [simp]: "0 \<le> b \<Longrightarrow> free_block b (take_block b (Some bs)) = Some bs"
  by (simp add: free_block_def take_block_def)

locale block_ledger =
  fixes port :: "('w, 'a) mtpif_scheme" and held :: "'w \<Rightarrow> int list option"
  assumes quiet: "system_invariant port (\<lambda>w. held w = l)"
    and alloc_held: "k_alloc port n w = (block, w') \<Longrightarrow> held w' = take_block block (held w)"
    and base_held: "k_base port b w = (result, data, w') \<Longrightarrow> held w' = held w"
    and free_held: "held (k_free port b w) = free_block b (held w)"
begin

lemma close_held: "held (n_close port s w) = held w"
  by (rule system_invariant.close [OF quiet refl])

lemma receive_held: "recv_exact port s data n w = Some x \<Longrightarrow> held (snd (snd x)) = held w"
  by (rule system_invariant.recv_exact_keeps [OF quiet _ refl])

text \<open>Fetching a catalogue leaves the block of the catalogue allocated, or on any failure nothing.\<close>

lemma fetch_body_held:
  assumes "fetch_body port s len out w = Some (rc, b, w')" and "held w = Some bs"
  shows "held w' = Some (if rc = 0 then b_block b # bs else bs)"
proof -
  obtain block w1 where al: "k_alloc port (unat ((len + 0xfff) AND NOT 0xfff)) w = (block, w1)" by fastforce
  obtain result base w2 where ba: "k_base port block w1 = (result, base, w2)" by (metis prod_cases3)
  have h: "held w1 = take_block block (Some bs)" "held w2 = take_block block (Some bs)"
    using alloc_held [OF al] base_held [OF ba] assms(2) by simp_all
  show ?thesis
  proof (cases "block < 0")
    case True
    then show ?thesis using assms(1) al h by (auto simp: fetch_body_def close_held take_block_def)
  next
    case False
    then have free: "held (k_free port block (n_close port s v)) = Some bs" if "held v = take_block block (Some bs)" for v
      using that by (simp add: free_held close_held)
    show ?thesis
      using assms(1) al ba h False
      by (auto simp: fetch_body_def Let_def bind_eq_Some_conv free close_held take_block_def
          split: if_splits option.splits dest!: receive_held)
  qed
qed

lemma catalog_fetch_held:
  assumes "vcm_bridge_catalog_fetch port (Some old) w = Some (rc, Some b, w')" and "held w = Some bs"
  shows "held w' = Some (if rc = 0 then b_block b # bs else bs)"
proof -
  obtain s w1 where c: "connect_local port w = (s, w1)" by fastforce
  obtain r2 w2 where sd: "send_exact port s (ascii ''GET /v2/usb/catalog'' @ request_tail) w1 = (r2, w2)" by fastforce
  have h: "held w1 = Some bs" "held w2 = Some bs"
    using system_invariant.connect_keeps [OF quiet assms(2)] c
      system_invariant.send_exact_keeps [OF quiet, of w1 "Some bs" s "ascii ''GET /v2/usb/catalog'' @ request_tail"] sd by simp_all
  have rl: "held w3 = Some bs" if "response_length port s w2 = Some (r3, n, w3)" for r3 n w3
    using system_invariant.response_length_keeps [OF quiet that h(2)] by simp
  show ?thesis
    using assms(1) h c sd
    by (auto simp: vcm_bridge_catalog_fetch_def close_held bind_eq_Some_conv simp del: ascii_simps split: if_splits
        dest!: rl fetch_body_held)
qed

lemma dispatch_held:
  assumes "vcm_mtpif_dispatch port junk uninit server command scratch thumbnail w = Some (ret, server', c, scratch', thumbnail')"
  shows "held (x_world c) = held w"
  by (rule system_invariant.dispatch_keeps [OF quiet assms refl])

end

end
