(* ===== verification/Usb_Probe.thy ===== *)
theory Usb_Probe
  imports World_Invariant
begin

text \<open>
  The USB plug-in of \<^verbatim>\<open>src/usb/probe.c\<close>, built with its active responder: a hook around the firmware's receive call that watches
  the commands of the host, fetches the application's catalogue at the first request for the device information, and from then on answers
  every command itself. The lemmas show that the plug-in never faults, has exactly the memory block of its catalogue allocated
  while it is active and none otherwise, and never mixes the sessions of the two responders.
\<close>

subsection \<open>State\<close>

text \<open>
  The original receive call and the writing of a log line are parameters, next to those of the adapter. The receive call fills the record
  of the command, which is absent when the pointer is null.
\<close>

record 'w probe = "'w mtpif" +
  o_receive :: "VcmMtpCommand option \<Rightarrow> 'w \<Rightarrow> int \<times> VcmMtpCommand option \<times> 'w"
  o_log :: "u8 list \<Rightarrow> u32 \<Rightarrow> u32 \<Rightarrow> 'w \<Rightarrow> 'w"

text \<open>The variables of the module, with the two static buffers of the adapter and the state of the system.\<close>

record 'w hook =
  g_world :: 'w
  g_logged :: u32
  g_log_lines :: u32
  g_catalog :: VcmBridgeCatalog
  g_server :: VcmMtpServer
  g_active :: bool
  g_catalog_failures :: u32
  g_sony_session :: u32
  g_scratch :: "u8 list"
  g_thumbnail :: "u8 list"

definition log_line :: "('w, 'a) probe_scheme \<Rightarrow> u8 list \<Rightarrow> u32 \<Rightarrow> u32 \<Rightarrow> 'w hook \<Rightarrow> 'w hook" where
  "log_line port event value detail h =
     (if g_log_lines h \<ge> 64 then h
      else h\<lparr>g_log_lines := g_log_lines h + 1, g_world := o_log port event value detail (g_world h)\<rparr>)"

text \<open>A line that is written only while the counter of logged commands is below a limit.\<close>

definition log_limited :: "('w, 'a) probe_scheme \<Rightarrow> u32 \<Rightarrow> u8 list \<Rightarrow> u32 \<Rightarrow> u32 \<Rightarrow> 'w hook \<Rightarrow> 'w hook" where
  "log_limited port limit event value detail h =
     (if g_logged h < limit then log_line port event value detail (h\<lparr>g_logged := g_logged h + 1\<rparr>) else h)"

definition release_catalog :: "('w, 'a) probe_scheme \<Rightarrow> 'w hook \<Rightarrow> 'w hook" where
  "release_catalog port h =
     (if g_active h then
        let (catalog, w) = vcm_bridge_catalog_release port (g_catalog h) (g_world h)
        in h\<lparr>g_catalog := catalog, g_world := w, g_active := False\<rparr>
      else h\<lparr>g_active := False\<rparr>)"

subsection \<open>The hook\<close>

text \<open>What one turn of the hook's loop does: it returns to the firmware, or continues with the next command.\<close>

datatype turn = Return int | Again

definition track_session :: "VcmMtpCommand \<Rightarrow> 'w hook \<Rightarrow> 'w hook" where
  "track_session request h =
     (if \<not> g_active h \<and> m_code request = 0x1002 \<and> m_param_count request = 1 then h\<lparr>g_sony_session := m_params request ! 0\<rparr>
      else if \<not> g_active h \<and> m_code request = 0x1003 then h\<lparr>g_sony_session := 0\<rparr>
      else h)"

definition take_over :: "('w, 'a) probe_scheme \<Rightarrow> VcmMtpCommand \<Rightarrow> 'w hook \<Rightarrow> 'w hook option" where
  "take_over port request h =
     (if \<not> g_active h \<and> m_code request = 0x1001 then do {
        (status, catalog, w) \<leftarrow> vcm_bridge_catalog_fetch port (Some (g_catalog h)) (g_world h);
        catalog \<leftarrow> catalog;
        let h = h\<lparr>g_catalog := catalog, g_world := w\<rparr>;
        if status = 0 then do {
          let server = vcm_mtp_server_init (Some (b_catalog catalog));
          let server = vcm_mtp_server_set_storage server (b_max_size catalog) (b_free_size catalog);
          let server = server\<lparr>s_session := (if m_session request \<noteq> 0 then m_session request else g_sony_session h)\<rparr>;
          Some (log_line port (ascii ''active'') (c_count (b_catalog catalog)) (s_session server)
            (h\<lparr>g_server := server, g_active := True\<rparr>))
        }
        else do {
          let failures = g_catalog_failures h;
          let h = h\<lparr>g_catalog_failures := failures + 1\<rparr>;
          Some (if failures < 4 then log_line port (ascii ''catalog-fail'') (word_of_int status) 0 h else h)
        }
      } else Some h)"

definition answer_command ::
    "('w, 'a) probe_scheme \<Rightarrow> (nat \<Rightarrow> u8) \<Rightarrow> VcmMtpResult \<Rightarrow> VcmMtpCommand \<Rightarrow> 'w hook \<Rightarrow> (turn \<times> 'w hook) option" where
  "answer_command port junk uninit request h = do {
     let h = log_limited port 56 (ascii ''vcm-op'') (ucast (m_code request)) (m_param_count request) h;
     (handled, server, context, scratch, thumbnail) \<leftarrow>
       vcm_mtpif_dispatch port junk uninit (g_server h) request (g_scratch h) (g_thumbnail h) (g_world h);
     let h = h\<lparr>g_server := server, g_world := x_world context, g_scratch := scratch, g_thumbnail := thumbnail\<rparr>;
     Some (if sint handled < 0
       then (Return (sint handled),
         release_catalog port (log_line port (ascii ''dispatch-error'') (ucast (m_code request)) handled h))
       else (Again, h))
   }"

definition hook_turn ::
    "('w, 'a) probe_scheme \<Rightarrow> (nat \<Rightarrow> u8) \<Rightarrow> VcmMtpResult \<Rightarrow> VcmMtpCommand option \<Rightarrow> 'w hook \<Rightarrow>
      (turn \<times> VcmMtpCommand option \<times> 'w hook) option" where
  "hook_turn port junk uninit command h =
     (case o_receive port command (g_world h) of (result, command, w) \<Rightarrow>
        let h = h\<lparr>g_world := w\<rparr> in
        if result < 0 then Some (Return result, command, release_catalog port h)
        else
          (case command of
             None \<Rightarrow> Some (Return result, command, h)
           | Some request \<Rightarrow> do {
               let h = log_limited port 32 (ascii ''recv'') (ucast (m_code request)) (word_of_int result) h;
               h \<leftarrow> take_over port request (track_session request h);
               if g_active h then do {
                 (turn, h) \<leftarrow> answer_command port junk uninit request h;
                 Some (turn, command, h)
               }
               else Some (Return result, command, h)
             }))"

text \<open>The loop, for a number of turns: \<open>Again\<close> is a hook that has not returned yet.\<close>

fun recv_command_hook ::
    "nat \<Rightarrow> ('w, 'a) probe_scheme \<Rightarrow> (nat \<Rightarrow> u8) \<Rightarrow> VcmMtpResult \<Rightarrow> VcmMtpCommand option \<Rightarrow> 'w hook \<Rightarrow>
      (turn \<times> VcmMtpCommand option \<times> 'w hook) option" where
  "recv_command_hook 0 port junk uninit command h = Some (Again, command, h)"
| "recv_command_hook (Suc turns) port junk uninit command h = do {
     (turn, command, h) \<leftarrow> hook_turn port junk uninit command h;
     case turn of
       Return result \<Rightarrow> Some (Return result, command, h)
     | Again \<Rightarrow> recv_command_hook turns port junk uninit command h
   }"

subsection \<open>The invariant\<close>

text \<open>
  The static buffers have their sizes; the record of the catalogue names a memory block exactly while the plug-in is active, and then its
  server works on the well-formed catalogue in that block. Which blocks are really allocated is the subject of \<open>memory_exact\<close> below.
\<close>

definition hook_inv :: "'w hook \<Rightarrow> bool" where
  "hook_inv h \<longleftrightarrow> length (g_scratch h) = 65536 \<and> length (g_thumbnail h) = 196662 \<and>
     (if g_active h
      then s_catalog (g_server h) = Some (b_catalog (g_catalog h)) \<and> catalog_wf (b_catalog (g_catalog h)) \<and> b_block (g_catalog h) \<ge> 0
      else b_block (g_catalog h) < 0)"

text \<open>A successful receive call fills in a record of five parameters; the pointer to it stays as it is.\<close>

definition probe_ok :: "('w, 'a) probe_scheme \<Rightarrow> bool" where
  "probe_ok port \<longleftrightarrow> port_ok port \<and> port_receives port \<and>
     (\<forall>command w. case o_receive port command w of (result, command', w') \<Rightarrow>
        (command' = None \<longleftrightarrow> command = None) \<and> (0 \<le> result \<longrightarrow> (\<forall>c. command' = Some c \<longrightarrow> command_ok c)))"

lemma log_line_keeps [simp]:
  "g_catalog (log_line port event value detail h) = g_catalog h" "g_server (log_line port event value detail h) = g_server h"
  "g_active (log_line port event value detail h) = g_active h" "g_sony_session (log_line port event value detail h) = g_sony_session h"
  "g_scratch (log_line port event value detail h) = g_scratch h" "g_thumbnail (log_line port event value detail h) = g_thumbnail h"
  by (simp_all add: log_line_def)

lemma log_limited_keeps [simp]:
  "g_catalog (log_limited port limit event value detail h) = g_catalog h"
  "g_server (log_limited port limit event value detail h) = g_server h"
  "g_active (log_limited port limit event value detail h) = g_active h"
  "g_sony_session (log_limited port limit event value detail h) = g_sony_session h"
  "g_scratch (log_limited port limit event value detail h) = g_scratch h"
  "g_thumbnail (log_limited port limit event value detail h) = g_thumbnail h"
  by (simp_all add: log_limited_def)

lemma track_session_keeps [simp]:
  "g_catalog (track_session c h) = g_catalog h" "g_server (track_session c h) = g_server h" "g_active (track_session c h) = g_active h"
  "g_scratch (track_session c h) = g_scratch h" "g_thumbnail (track_session c h) = g_thumbnail h"
  by (simp_all add: track_session_def)

lemma hook_inv_log [simp]:
  "hook_inv (log_line port event value detail h) = hook_inv h" "hook_inv (log_limited port limit event value detail h) = hook_inv h"
  "hook_inv (track_session c h) = hook_inv h" "hook_inv (h\<lparr>g_world := w\<rparr>) = hook_inv h"
  by (simp_all add: hook_inv_def)

lemma release_spec:
  "hook_inv h \<Longrightarrow> hook_inv (release_catalog port h) \<and> \<not> g_active (release_catalog port h)"
  by (simp add: release_catalog_def hook_inv_def vcm_bridge_catalog_release_def no_catalog_def)

text \<open>A turn takes over or leaves the activity as it was.\<close>

definition taken_over :: "VcmMtpCommand \<Rightarrow> 'w hook \<Rightarrow> 'w hook \<Rightarrow> bool" where
  "taken_over request h h' \<longleftrightarrow> \<not> g_active h \<and> g_active h' \<and> m_code request = 0x1001 \<and>
     s_session (g_server h') = (if m_session request \<noteq> 0 then m_session request else g_sony_session h) \<and>
     s_storage_free (g_server h') \<le> s_storage_capacity (g_server h') \<and> s_storage_capacity (g_server h') \<noteq> 0"

lemma take_over_spec:
  assumes "port_ok port" and "hook_inv h"
  shows "\<exists>h'. take_over port request h = Some h' \<and> hook_inv h' \<and> g_sony_session h' = g_sony_session h \<and>
    (taken_over request h h' \<or> g_active h' = g_active h \<and> (g_active h \<longrightarrow> h' = h))"
proof (cases "\<not> g_active h \<and> m_code request = 0x1001")
  case False
  then have "take_over port request h = Some h" unfolding take_over_def by (rule if_not_P)
  then show ?thesis using assms(2) by simp
next
  case True
  have net: "net_ok port" using assms(1) by (simp add: port_ok_def)
  obtain rc b w where f: "vcm_bridge_catalog_fetch port (Some (g_catalog h)) (g_world h) = Some (rc, Some b, w)" "fetch_result rc b"
    using catalog_fetch_safe [OF net] by blast
  define h1 where "h1 = h\<lparr>g_catalog := b, g_world := w\<rparr>"
  have h1: "g_catalog h1 = b" "g_active h1 = g_active h" "g_sony_session h1 = g_sony_session h" "g_scratch h1 = g_scratch h"
    "g_thumbnail h1 = g_thumbnail h" by (simp_all add: h1_def)
  show ?thesis
  proof (cases "rc = 0")
    case False
    then have b: "b_block b < 0" using f(2) by (simp add: fetch_result_def no_catalog_def)
    define h2 where "h2 = (if g_catalog_failures h1 < 4
      then log_line port (ascii ''catalog-fail'') (word_of_int rc) 0 (h1\<lparr>g_catalog_failures := g_catalog_failures h1 + 1\<rparr>)
      else h1\<lparr>g_catalog_failures := g_catalog_failures h1 + 1\<rparr>)"
    have "take_over port request h = Some h2"
      using True False f(1) by (simp add: take_over_def Let_def h1_def h2_def del: ascii_simps)
    moreover have "hook_inv h2" "g_sony_session h2 = g_sony_session h" "g_active h2 = g_active h"
      using h1 b True assms(2) by (simp_all add: h2_def hook_inv_def del: ascii_simps)
    ultimately show ?thesis using True by blast
  next
    case ok: True
    then have b: "catalog_wf (b_catalog b)" "b_block b \<ge> 0" "b_free_size b \<le> b_max_size b" "b_max_size b \<noteq> 0"
      using f(2) by (simp_all add: fetch_result_def)
    define server where "server = vcm_mtp_server_set_storage (vcm_mtp_server_init (Some (b_catalog b))) (b_max_size b) (b_free_size b)
      \<lparr>s_session := (if m_session request \<noteq> 0 then m_session request else g_sony_session h1)\<rparr>"
    define h2 where "h2 = log_line port (ascii ''active'') (c_count (b_catalog b)) (s_session server) (h1\<lparr>g_server := server, g_active := True\<rparr>)"
    have "take_over port request h = Some h2"
      using True ok f(1) by (simp add: take_over_def Let_def h1_def h2_def server_def del: ascii_simps)
    moreover have "s_catalog server = Some (b_catalog b)" "s_storage_free server \<le> s_storage_capacity server"
      "s_storage_capacity server \<noteq> 0" "s_session server = (if m_session request \<noteq> 0 then m_session request else g_sony_session h)"
      using b(3,4) h1(3) by (simp_all add: server_def vcm_mtp_server_init_def vcm_mtp_server_set_storage_def)
    then have "hook_inv h2" "g_sony_session h2 = g_sony_session h" "taken_over request h h2"
      using h1 b True assms(2) by (simp_all add: h2_def hook_inv_def taken_over_def del: ascii_simps)
    ultimately show ?thesis by blast
  qed
qed

lemma answer_spec:
  assumes "port_ok port" and "port_receives port" and "hook_inv h" and "g_active h" and "command_ok request"
  shows "\<exists>turn h'. answer_command port junk uninit request h = Some (turn, h') \<and> hook_inv h' \<and>
    g_sony_session h' = g_sony_session h \<and> (case turn of Again \<Rightarrow> g_active h' | Return r \<Rightarrow> r < 0 \<and> \<not> g_active h')"
proof -
  define h1 where "h1 = log_limited port 56 (ascii ''vcm-op'') (ucast (m_code request)) (m_param_count request) h"
  have h1: "hook_inv h1" "g_active h1" "g_sony_session h1 = g_sony_session h" using assms(3,4) by (simp_all add: h1_def)
  obtain ret server' c scratch' thumbnail' where d:
    "vcm_mtpif_dispatch port junk uninit (g_server h1) request (g_scratch h1) (g_thumbnail h1) (g_world h1) =
      Some (ret, server', c, scratch', thumbnail')"
    "length scratch' = 65536" "length thumbnail' = 196662" "s_catalog server' = Some (b_catalog (g_catalog h1))"
    using dispatch_returns [OF assms(1,2), of "g_server h1" "b_catalog (g_catalog h1)" request "g_scratch h1" "g_thumbnail h1"
        junk uninit "g_world h1"] h1 assms(5)
    by (auto simp: hook_inv_def)
  define h2 where "h2 = h1\<lparr>g_server := server', g_world := x_world c, g_scratch := scratch', g_thumbnail := thumbnail'\<rparr>"
  have h2: "hook_inv h2" "g_active h2" "g_sony_session h2 = g_sony_session h"
    using h1 d(2-4) by (simp_all add: hook_inv_def h2_def)
  have a: "answer_command port junk uninit request h =
    Some (if sint ret < 0 then (Return (sint ret), release_catalog port (log_line port (ascii ''dispatch-error'') (ucast (m_code request)) ret h2))
      else (Again, h2))"
    unfolding answer_command_def Let_def h1_def [symmetric] d(1) h2_def by (simp del: ascii_simps)
  have s: "g_sony_session (release_catalog port h') = g_sony_session h'" for h' :: "'a hook"
    by (simp add: release_catalog_def split_beta Let_def)
  show ?thesis
    unfolding a using h2 release_spec [of "log_line port (ascii ''dispatch-error'') (ucast (m_code request)) ret h2" port]
    by (cases "sint ret < 0") (simp_all add: s del: ascii_simps)
qed

text \<open>A turn of the hook, and what it does with a command.\<close>

lemma turn_spec:
  assumes "probe_ok port" and "hook_inv h" and "command \<noteq> None"
  shows "\<exists>turn request h' result w. hook_turn port junk uninit command h = Some (turn, Some request, h') \<and> hook_inv h' \<and>
    o_receive port command (g_world h) = (result, Some request, w) \<and>
    (case turn of
       Again \<Rightarrow> g_active h'
     | Return r \<Rightarrow> \<not> g_active h' \<and>
        (0 \<le> r \<longrightarrow> r = result \<and> \<not> g_active h \<and>
          g_sony_session h' = g_sony_session (track_session request h)))"
proof -
  obtain result command' w where "o_receive port command (g_world h) = (result, command', w)" by (metis prod_cases3)
  moreover from this obtain request where "command' = Some request" "0 \<le> result \<longrightarrow> command_ok request"
    using assms(1,3) unfolding probe_ok_def by (auto dest!: spec [of _ command] spec [of _ "g_world h"])
  ultimately have rc: "o_receive port command (g_world h) = (result, Some request, w)" and req: "0 \<le> result \<longrightarrow> command_ok request" by simp_all
  have ok: "port_ok port" "port_receives port" using assms(1) unfolding probe_ok_def by blast+
  define h1 where "h1 = h\<lparr>g_world := w\<rparr>"
  have h1: "hook_inv h1" "g_active h1 = g_active h" "g_sony_session h1 = g_sony_session h" using assms(2) by (simp_all add: h1_def)
  show ?thesis
  proof (cases "result < 0")
    case True
    then show ?thesis using rc release_spec [OF h1(1), of port] by (simp add: hook_turn_def h1_def [symmetric])
  next
    case 3: False
    define h2 where "h2 = track_session request (log_limited port 32 (ascii ''recv'') (ucast (m_code request)) (word_of_int result) h1)"
    have h2: "hook_inv h2" "g_active h2 = g_active h" using h1 by (simp_all add: h2_def del: ascii_simps)
    have sony: "g_sony_session h2 = g_sony_session (track_session request h)"
      using h1 by (simp add: h2_def track_session_def del: ascii_simps)
    obtain h3 where h3: "take_over port request h2 = Some h3" "hook_inv h3" "g_sony_session h3 = g_sony_session h2"
      "g_active h2 \<longrightarrow> g_active h3"
      using take_over_spec [OF ok(1) h2(1), of request] by (auto simp: taken_over_def)
    have turn: "hook_turn port junk uninit command h =
      (if g_active h3 then do { (turn, h) \<leftarrow> answer_command port junk uninit request h3; Some (turn, Some request, h) }
       else Some (Return result, Some request, h3))"
      using rc 3 h3(1) by (simp add: hook_turn_def h1_def [symmetric] h2_def [symmetric] Let_def del: ascii_simps)
    show ?thesis
    proof (cases "g_active h3")
      case False
      then show ?thesis using turn rc h3 h2 sony 3 by simp
    next
      case True
      obtain t h4 where h4: "answer_command port junk uninit request h3 = Some (t, h4)" "hook_inv h4"
        "case t of Again \<Rightarrow> g_active h4 | Return r \<Rightarrow> r < 0 \<and> \<not> g_active h4"
        using answer_spec [OF ok(1,2) h3(2) True] req 3 by force
      then show ?thesis using turn rc True by (cases t) simp_all
    qed
  qed
qed

lemma hook_spec:
  assumes "probe_ok port" and "hook_inv h" and "command \<noteq> None"
  shows "\<exists>turn command' h'. recv_command_hook turns port junk uninit command h = Some (turn, command', h') \<and> hook_inv h' \<and>
    (case turn of
       Again \<Rightarrow> turns = 0 \<or> g_active h'
     | Return r \<Rightarrow> \<not> g_active h' \<and>
        (0 \<le> r \<longrightarrow> \<not> g_active h \<and> (\<exists>request w. command' = Some request \<and>
          o_receive port command (g_world h) = (r, Some request, w) \<and> g_sony_session h' = g_sony_session (track_session request h))))"
  using assms(2,3)
proof (induction turns arbitrary: command h)
  case (Suc turns)
  obtain turn request h' result w where t: "hook_turn port junk uninit command h = Some (turn, Some request, h')" "hook_inv h'"
    "o_receive port command (g_world h) = (result, Some request, w)"
    "case turn of Again \<Rightarrow> g_active h'
     | Return r \<Rightarrow> \<not> g_active h' \<and> (0 \<le> r \<longrightarrow> r = result \<and> \<not> g_active h \<and>
          g_sony_session h' = g_sony_session (track_session request h))"
    using turn_spec [OF assms(1) Suc.prems] by blast
  show ?case
  proof (cases turn)
    case (Return r)
    then show ?thesis using t by auto
  next
    case Again
    then have act: "g_active h'" using t(4) by simp
    obtain turn2 command2 h2 where r: "recv_command_hook turns port junk uninit (Some request) h' = Some (turn2, command2, h2)" "hook_inv h2"
      "case turn2 of Again \<Rightarrow> turns = 0 \<or> g_active h2
       | Return r \<Rightarrow> \<not> g_active h2 \<and> (0 \<le> r \<longrightarrow> \<not> g_active h')"
      using Suc.IH [OF t(2), of "Some request"] by (fastforce split: turn.splits)
    show ?thesis
    proof (cases turn2)
      case (Return r2)
      then show ?thesis using r t(1) Again act by auto
    next
      case again2: Again
      then show ?thesis using r t(1) Again act by (cases turns) auto
    qed
  qed
qed simp


subsection \<open>Systems with further state\<close>

text \<open>Calls of a system whose state has a second component that they keep.\<close>

definition lift_call :: "('w \<Rightarrow> 'b \<times> 'w) \<Rightarrow> 'w \<times> 'x \<Rightarrow> 'b \<times> 'w \<times> 'x" where
  "lift_call f x = (let (r, w) = f (fst x) in (r, w, snd x))"

definition lift_call3 :: "('w \<Rightarrow> 'b \<times> 'c \<times> 'w) \<Rightarrow> 'w \<times> 'x \<Rightarrow> 'b \<times> 'c \<times> 'w \<times> 'x" where
  "lift_call3 f x = (let (r, s, w) = f (fst x) in (r, s, w, snd x))"

definition lift_effect :: "('w \<Rightarrow> 'w) \<Rightarrow> 'w \<times> 'x \<Rightarrow> 'w \<times> 'x" where
  "lift_effect f x = (f (fst x), snd x)"

lemma lift_simps [simp]:
  "snd (snd (lift_call f x)) = snd x" "snd (snd (snd (lift_call3 g x))) = snd x" "snd (lift_effect k x) = snd x"
  by (simp_all add: lift_call_def lift_call3_def lift_effect_def split_beta Let_def)

lemma lift_calls:
  "lift_call f x = (r, x') \<Longrightarrow> f (fst x) = (r, fst x')" "lift_call3 g x = (r, q, x') \<Longrightarrow> g (fst x) = (r, q, fst x')"
  subgoal unfolding lift_call_def by (cases "f (fst x)") auto
  subgoal unfolding lift_call3_def by (cases "g (fst x)") auto
  done

text \<open>
  A system that answers as the given one does, as far as the laws of the calls go, keeps to them.
\<close>

lemma lifted_ok:
  fixes port :: "'w probe" and port2 :: "('w \<times> 'x) probe"
  assumes "probe_ok port"
    and "n_recv port2 = (\<lambda>s n. lift_call3 (n_recv port s n))" and "n_send port2 = (\<lambda>s d. lift_call (n_send port s d))"
    and "\<And>n x. fst (k_alloc port2 n x) = fst (k_alloc port n (fst x))" and "k_base port2 = (\<lambda>b. lift_call3 (k_base port b))"
    and "n_socket port2 = lift_call (n_socket port)" and "p_recv port2 = (\<lambda>r. lift_call3 (p_recv port r))"
    and "\<And>command x. case o_receive port2 command x of (result, command', x') \<Rightarrow>
      result = - 1 \<and> command' = command \<or>
      result = fst (o_receive port command (fst x)) \<and> command' = fst (snd (o_receive port command (fst x)))"
  shows "probe_ok port2"
proof -
  have ok: "net_ok port" "\<forall>w. - (2 ^ 31) \<le> fst (n_socket port w)" "port_receives port"
    "\<forall>command w. case o_receive port command w of (result, command', w') \<Rightarrow>
        (command' = None \<longleftrightarrow> command = None) \<and> (0 \<le> result \<longrightarrow> (\<forall>c. command' = Some c \<longrightarrow> command_ok c))"
    using assms(1) by (simp_all only: probe_ok_def port_ok_def simp_thms)
  have "net_ok port2"
    unfolding net_ok_def
  proof (intro conjI allI impI, goal_cases)
    case (1 s n w got bs w')
    then have "lift_call3 (n_recv port s n) w = (got, bs, w')" by (simp add: assms(2))
    then have "n_recv port s n (fst w) = (got, bs, fst w')" by (rule lift_calls)
    from net_recv [OF ok(1) this] show ?case by simp
  next
    case (2 s d w count w')
    then have "lift_call (n_send port s d) w = (count, w')" by (simp add: assms(3))
    then have "n_send port s d (fst w) = (count, fst w')" by (rule lift_calls)
    then show ?case using ok(1) unfolding net_ok_def by blast
  next
    case (3 n w block w' w'' result base w3 data)
    then obtain v where "k_alloc port n (fst w) = (block, v)" using assms(4) [of n w] by (metis fst_conv surj_pair)
    moreover have "k_base port block (fst w'') = (result, Some data, fst w3)" using 3 by (auto simp: assms(5) intro: lift_calls)
    ultimately show ?case using ok(1) unfolding net_ok_def by blast
  next
    case (4 n w block w' w'' result base w3)
    then obtain v where "k_alloc port n (fst w) = (block, v)" using assms(4) [of n w] by (metis fst_conv surj_pair)
    moreover have "k_base port block (fst w'') = (result, base, fst w3)" using 4 by (auto simp: assms(5) intro: lift_calls)
    ultimately show ?case using ok(1) 4(3) unfolding net_ok_def by blast
  qed
  moreover have "- (2 ^ 31) \<le> fst (n_socket port2 x)" for x
    using ok(2) by (simp add: assms(6) lift_call_def split_beta Let_def)
  moreover have "port_receives port2"
    unfolding port_receives_def
  proof (intro allI)
    fix r and x :: "'w \<times> 'x"
    have "case p_recv port r (fst x) of (result, r', w') \<Rightarrow> length (d_bytes r') = length (d_bytes r)"
      using ok(3) by (simp add: port_receives_def)
    then show "case p_recv port2 r x of (result, r', w') \<Rightarrow> length (d_bytes r') = length (d_bytes r)"
      by (simp add: assms(7) lift_call3_def split_beta Let_def)
  qed
  moreover have "case o_receive port2 command x of (result, command', x') \<Rightarrow>
      (command' = None \<longleftrightarrow> command = None) \<and> (0 \<le> result \<longrightarrow> (\<forall>c. command' = Some c \<longrightarrow> command_ok c))" for command x
    using ok(4) [rule_format, of command "fst x"] assms(8) [of command x] by (auto simp: split_beta)
  ultimately show ?thesis unfolding probe_ok_def port_ok_def by blast
qed

subsection \<open>The memory of the plug-in\<close>

text \<open>
  The system with a record of the memory blocks that the plug-in has allocated and not yet freed; the record is lost when a block is freed
  that is not held. Every call answers as that of the given system does.
\<close>

definition ledgered :: "'w probe \<Rightarrow> ('w \<times> int list option) probe" where
  "ledgered port = \<lparr>n_socket = lift_call (n_socket port), n_init = lift_effect (n_init port),
     n_timeouts = (\<lambda>s. lift_effect (n_timeouts port s)), n_connect = (\<lambda>s. lift_call (n_connect port s)),
     n_close = (\<lambda>s. lift_effect (n_close port s)), n_recv = (\<lambda>s n. lift_call3 (n_recv port s n)),
     n_send = (\<lambda>s d. lift_call (n_send port s d)),
     k_alloc = (\<lambda>n x. let (b, w) = k_alloc port n (fst x) in (b, w, take_block b (snd x))),
     k_base = (\<lambda>b. lift_call3 (k_base port b)),
     k_free = (\<lambda>b x. (k_free port b (fst x), free_block b (snd x))),
     p_phase = (\<lambda>p. lift_call (p_phase port p)), p_send = (\<lambda>r. lift_call3 (p_send port r)),
     p_recv = (\<lambda>r. lift_call3 (p_recv port r)), p_response = (\<lambda>c. lift_call (p_response port c)),
     o_receive = (\<lambda>c. lift_call3 (o_receive port c)), o_log = (\<lambda>e v d. lift_effect (o_log port e v d))\<rparr>"

interpretation quiet: system_invariant "ledgered port" "\<lambda>x. snd x = l" for port :: "'w probe" and l
  by unfold_locales (simp_all add: ledgered_def)

interpretation led: block_ledger "ledgered port" snd for port :: "'w probe"
  by (intro block_ledger.intro quiet.system_invariant_axioms)
    (auto simp: ledgered_def lift_call3_def split_beta Let_def)

lemma ledgered_ok: "probe_ok port \<Longrightarrow> probe_ok (ledgered port)"
  by (rule lifted_ok) (auto simp: ledgered_def split_beta Let_def lift_call3_def)

text \<open>The plug-in holds the block of its catalogue while it is active, and none otherwise.\<close>

definition memory_exact :: "('w \<times> int list option) hook \<Rightarrow> bool" where
  "memory_exact h \<longleftrightarrow> snd (g_world h) = Some (if g_active h then [b_block (g_catalog h)] else [])"

lemma ledger_log [simp]:
  "snd (g_world (log_line (ledgered port) e v d h)) = snd (g_world h)"
  "snd (g_world (log_limited (ledgered port) k e v d h)) = snd (g_world h)"
  "snd (g_world (track_session c h)) = snd (g_world h)"
  by (simp_all add: log_limited_def log_line_def track_session_def ledgered_def)

lemma memory_log [simp]:
  "memory_exact (log_line (ledgered port) e v d h) = memory_exact h"
  "memory_exact (log_limited (ledgered port) k e v d h) = memory_exact h"
  "memory_exact (track_session c h) = memory_exact h"
  by (simp_all add: memory_exact_def)

lemma release_memory:
  assumes "g_active h \<longrightarrow> 0 \<le> b_block (g_catalog h)" and "memory_exact h"
  shows "memory_exact (release_catalog (ledgered port) h)"
proof (cases "g_active h")
  case True
  then have "0 \<le> b_block (g_catalog h)" "snd (g_world h) = Some [b_block (g_catalog h)]"
    using assms by (simp_all add: memory_exact_def)
  then show ?thesis
    using True by (simp add: release_catalog_def vcm_bridge_catalog_release_def memory_exact_def ledgered_def free_block_def)
next
  case False
  then show ?thesis using assms(2) by (simp add: release_catalog_def memory_exact_def)
qed

lemma take_over_memory:
  assumes "take_over (ledgered port) request h = Some h'" and "memory_exact h"
  shows "memory_exact h'"
proof (cases "\<not> g_active h \<and> m_code request = 0x1001")
  case False
  then have "take_over (ledgered port) request h = Some h" unfolding take_over_def by (rule if_not_P)
  then show ?thesis using assms by simp
next
  case True
  obtain status catalog w where f: "vcm_bridge_catalog_fetch (ledgered port) (Some (g_catalog h)) (g_world h) = Some (status, Some catalog, w)"
    using assms(1) True by (auto simp: take_over_def bind_eq_Some_conv)
  have "snd w = Some (if status = 0 then [b_block catalog] else [])"
    using led.catalog_fetch_held [OF f, of "[]"] assms(2) True by (simp add: memory_exact_def)
  then show ?thesis
    using assms(1) True f by (auto simp: take_over_def Let_def memory_exact_def simp del: ascii_simps split: if_splits)
qed

lemma answer_memory:
  assumes "g_active h" and "0 \<le> b_block (g_catalog h)" and "memory_exact h"
    and "answer_command (ledgered port) junk uninit request h = Some (turn, h')"
  shows "memory_exact h'"
proof -
  define h1 where "h1 = log_limited (ledgered port) 56 (ascii ''vcm-op'') (ucast (m_code request)) (m_param_count request) h"
  have h1: "g_active h1" "0 \<le> b_block (g_catalog h1)" "memory_exact h1" using assms(1-3) by (simp_all add: h1_def del: ascii_simps)
  obtain ret server c scratch thumbnail where d: "vcm_mtpif_dispatch (ledgered port) junk uninit (g_server h1) request (g_scratch h1)
      (g_thumbnail h1) (g_world h1) = Some (ret, server, c, scratch, thumbnail)"
    using assms(4) unfolding answer_command_def Let_def h1_def [symmetric] by (auto simp: bind_eq_Some_conv)
  define h2 where "h2 = h1\<lparr>g_server := server, g_world := x_world c, g_scratch := scratch, g_thumbnail := thumbnail\<rparr>"
  have "memory_exact h2" "g_active h2" "0 \<le> b_block (g_catalog h2)"
    using led.dispatch_held [OF d] h1 by (simp_all add: memory_exact_def h2_def)
  moreover have "h' = (if sint ret < 0
      then release_catalog (ledgered port) (log_line (ledgered port) (ascii ''dispatch-error'') (ucast (m_code request)) ret h2) else h2)"
    using assms(4) d unfolding answer_command_def Let_def h1_def [symmetric] h2_def by (simp del: ascii_simps split: if_splits)
  ultimately show ?thesis by (simp add: release_memory del: ascii_simps)
qed

lemma turn_memory:
  assumes "probe_ok port" and "hook_inv h" and "memory_exact h"
    and "hook_turn (ledgered port) junk uninit command h = Some (turn, command', h')"
  shows "memory_exact h'"
proof -
  have ok: "port_ok (ledgered port)" using ledgered_ok [OF assms(1)] by (simp add: probe_ok_def)
  obtain result command1 w where rc: "o_receive (ledgered port) command (g_world h) = (result, command1, w)" by (metis prod_cases3)
  define h1 where "h1 = h\<lparr>g_world := w\<rparr>"
  have "snd w = snd (g_world h)" using rc by (auto simp: ledgered_def lift_call3_def split_beta Let_def)
  then have h1: "hook_inv h1" "memory_exact h1" using assms(2,3) by (simp_all add: h1_def memory_exact_def)
  show ?thesis
  proof (cases "result < 0 \<or> command1 = None")
    case True
    have "g_active h1 \<longrightarrow> 0 \<le> b_block (g_catalog h1)" using h1(1) by (simp add: hook_inv_def)
    with True show ?thesis
      using assms(4) rc h1 by (auto simp: hook_turn_def h1_def [symmetric] release_memory split: if_splits)
  next
    case False
    then obtain request where req: "command1 = Some request" "\<not> result < 0" by auto
    define h2 where "h2 = track_session request (log_limited (ledgered port) 32 (ascii ''recv'') (ucast (m_code request)) (word_of_int result) h1)"
    have h2: "hook_inv h2" "memory_exact h2" using h1 by (simp_all add: h2_def del: ascii_simps)
    obtain h3 where h3: "take_over (ledgered port) request h2 = Some h3" "hook_inv h3"
      using take_over_spec [OF ok h2(1), of request] by blast
    have m3: "memory_exact h3" using take_over_memory [OF h3(1) h2(2)] .
    have run: "(if g_active h3 then do { (turn, h) \<leftarrow> answer_command (ledgered port) junk uninit request h3; Some (turn, Some request, h) }
       else Some (Return result, Some request, h3)) = Some (turn, command', h')"
      using assms(4) rc req h3(1) by (simp add: hook_turn_def h1_def [symmetric] h2_def [symmetric] Let_def del: ascii_simps)
    show ?thesis
    proof (cases "g_active h3")
      case True
      then have "0 \<le> b_block (g_catalog h3)" using h3(2) by (simp add: hook_inv_def)
      with True run show ?thesis by (auto simp: bind_eq_Some_conv dest: answer_memory [OF True _ m3])
    qed (use run m3 in simp)
  qed
qed

lemma hook_memory:
  assumes "probe_ok port" and "hook_inv h" and "command \<noteq> None" and "memory_exact h"
    and "recv_command_hook turns (ledgered port) junk uninit command h = Some (turn, command', h')"
  shows "memory_exact h'"
  using assms(2-)
proof (induction turns arbitrary: command h)
  case (Suc turns)
  obtain turn1 request h1 where t: "hook_turn (ledgered port) junk uninit command h = Some (turn1, Some request, h1)" "hook_inv h1"
    using turn_spec [OF ledgered_ok [OF assms(1)] Suc.prems(1,2)] by blast
  have "memory_exact h1" using turn_memory [OF assms(1) Suc.prems(1,3) t(1)] .
  then show ?case using Suc.IH [OF t(2), of "Some request"] Suc.prems(4) t(1) by (cases turn1) auto
qed simp

subsection \<open>Properties\<close>

text \<open>
  C7. The plug-in never faults, never mixes the two responders and never leaks memory: from a state that satisfies its invariant, any number
  of turns of the hook ends in such a state. The blocks that it has allocated and not freed are then exactly the block of its catalogue
  while it is active, which holds the well-formed catalogue of its server, and none while it is inactive. A hook that is still waiting is
  active; a hook that has returned is inactive, and it hands a command to the firmware only when it was inactive before and the command is
  the first one that the firmware's own call has received, whose session it has recorded.
\<close>

theorem responders_exclusive:
  assumes "probe_ok port" and "hook_inv h" and "command \<noteq> None"
    and "snd (g_world h) = Some (if g_active h then [b_block (g_catalog h)] else [])"
  shows "\<exists>turn command' h'. recv_command_hook turns (ledgered port) junk uninit command h = Some (turn, command', h') \<and> hook_inv h' \<and>
    snd (g_world h') = Some (if g_active h' then [b_block (g_catalog h')] else []) \<and>
    (case turn of
       Again \<Rightarrow> turns = 0 \<or> g_active h'
     | Return r \<Rightarrow> \<not> g_active h' \<and>
        (0 \<le> r \<longrightarrow> \<not> g_active h \<and> (\<exists>request w. command' = Some request \<and>
          o_receive (ledgered port) command (g_world h) = (r, Some request, w) \<and>
          g_sony_session h' = g_sony_session (track_session request h))))"
  using hook_spec [OF ledgered_ok [OF assms(1)] assms(2,3), of turns junk uninit] hook_memory [OF assms(1-3)] assms(4)
  unfolding memory_exact_def by blast

definition sample_probe :: "u8 list probe" where
  "sample_probe = mtpif.extend sample_port
     \<lparr>o_receive = (\<lambda>command w. (0, map_option (\<lambda>c. sample_command 0x1002 [7]) command, w)), o_log = (\<lambda>event value detail w. w)\<rparr>"

definition idle_hook :: "'w \<Rightarrow> 'w hook" where
  "idle_hook w = \<lparr>g_world = w, g_logged = 0, g_log_lines = 0, g_catalog = no_catalog,
     g_server = \<lparr>s_session = 0, s_catalog = None, s_storage_capacity = 0, s_storage_free = 0\<rparr>, g_active = False,
     g_catalog_failures = 0, g_sony_session = 0, g_scratch = replicate 65536 0, g_thumbnail = replicate 196662 0\<rparr>"

lemma sample_probe_ok: "probe_ok sample_probe"
proof -
  have "port_ok sample_probe" "port_receives sample_probe"
    by (simp_all add: port_ok_def net_ok_def sample_probe_def sample_port_def script_net_def net.defs mtpif.defs port_receives_def)
  moreover have "command_ok (sample_command 0x1002 [7])" by (simp add: command_ok_def sample_command_def)
  ultimately show ?thesis by (simp add: probe_ok_def sample_probe_def mtpif.defs)
qed

lemma idle_hook_inv: "hook_inv (idle_hook w)"
  by (simp add: hook_inv_def idle_hook_def no_catalog_def)

theorem responders_exclusive_witness:
  "\<exists>turn command' h'. recv_command_hook 1 (ledgered sample_probe) (\<lambda>i. 0) undefined (Some (sample_command 0 [])) (idle_hook ([], Some [])) =
     Some (turn, command', h') \<and> hook_inv h' \<and> snd (g_world h') = Some (if g_active h' then [b_block (g_catalog h')] else []) \<and>
     (\<forall>r. turn = Return r \<longrightarrow> 0 \<le> r \<longrightarrow> g_sony_session h' = 7)"
proof -
  have s: "g_sony_session (track_session (sample_command 0x1002 [7]) (idle_hook ([], Some []))) = 7"
    by (simp add: track_session_def sample_command_def idle_hook_def)
  have o: "o_receive (ledgered sample_probe) (Some c) w = (0, Some (sample_command 0x1002 [7]), w)" for c w
    by (simp add: sample_probe_def mtpif.defs ledgered_def lift_call3_def)
  have held: "snd (g_world (idle_hook ([], Some []))) = Some (if g_active (idle_hook ([], Some [])) then [b_block (g_catalog (idle_hook ([], Some [])))] else [])"
    by (simp add: idle_hook_def)
  show ?thesis
    using responders_exclusive [OF sample_probe_ok idle_hook_inv option.distinct(2) held, of 1 "\<lambda>i. 0" undefined "sample_command 0 []"]
  proof (elim exE conjE, goal_cases)
    case (1 turn command' h')
    then show ?case using o s by (intro exI [of _ turn] exI [of _ command'] exI [of _ h']) (cases turn, auto)
  qed
qed

text \<open>
  Taking over: a request for the device information either makes the plug-in active or leaves it inactive, and nothing else does.
  When it becomes active, the server continues the session of the request, or the one that was opened at the firmware before, and
  reports a capacity that is not zero and bounds the free space.
\<close>

theorem take_over_continues:
  assumes "port_ok port" and "hook_inv h" and "\<not> g_active h"
  shows "\<exists>h'. take_over port request h = Some h' \<and> hook_inv h' \<and> g_sony_session h' = g_sony_session h \<and>
    (g_active h' \<longrightarrow> m_code request = 0x1001 \<and>
       s_session (g_server h') = (if m_session request \<noteq> 0 then m_session request else g_sony_session h) \<and>
       s_storage_free (g_server h') \<le> s_storage_capacity (g_server h') \<and> s_storage_capacity (g_server h') \<noteq> 0)"
  using take_over_spec [OF assms(1,2), of request] assms(3) by (auto simp: taken_over_def)

theorem take_over_continues_witness:
  "\<exists>h'. take_over sample_probe (sample_command 0x1001 []) (idle_hook (ascii ''HTTP/1.1 404 '')) = Some h' \<and> hook_inv h' \<and>
     g_sony_session h' = 0"
proof -
  have "port_ok sample_probe" using sample_probe_ok by (simp add: probe_ok_def)
  moreover have "\<not> g_active (idle_hook (ascii ''HTTP/1.1 404 ''))" "g_sony_session (idle_hook (ascii ''HTTP/1.1 404 '')) = 0"
    by (simp_all add: idle_hook_def del: ascii_simps)
  ultimately show ?thesis using take_over_continues [OF _ idle_hook_inv, of sample_probe] by metis
qed

subsection \<open>A host that goes away\<close>

text \<open>
  The system with a host that sends at most as many commands as the second component of the state says; after that the receive call
  fails. Every other call is the one of the given system.
\<close>

definition leaving_host :: "'w probe \<Rightarrow> ('w \<times> nat) probe" where
  "leaving_host port = \<lparr>n_socket = lift_call (n_socket port), n_init = lift_effect (n_init port),
     n_timeouts = (\<lambda>s. lift_effect (n_timeouts port s)), n_connect = (\<lambda>s. lift_call (n_connect port s)),
     n_close = (\<lambda>s. lift_effect (n_close port s)), n_recv = (\<lambda>s n. lift_call3 (n_recv port s n)),
     n_send = (\<lambda>s d. lift_call (n_send port s d)), k_alloc = (\<lambda>n. lift_call (k_alloc port n)),
     k_base = (\<lambda>b. lift_call3 (k_base port b)), k_free = (\<lambda>b. lift_effect (k_free port b)),
     p_phase = (\<lambda>p. lift_call (p_phase port p)), p_send = (\<lambda>r. lift_call3 (p_send port r)),
     p_recv = (\<lambda>r. lift_call3 (p_recv port r)), p_response = (\<lambda>c. lift_call (p_response port c)),
     o_receive = (\<lambda>c x. if snd x = 0 then (- 1, c, x)
       else let (r, c, w) = o_receive port c (fst x) in (r, c, w, snd x - 1)),
     o_log = (\<lambda>e v d. lift_effect (o_log port e v d))\<rparr>"

text \<open>No call of the adapter or the client brings commands back.\<close>

interpretation leaving: world_invariant "leaving_host port" "\<lambda>x. snd x \<le> n" for port :: "'w probe" and n
  by unfold_locales (simp_all add: leaving_host_def)

lemma leaving_ok: "probe_ok port \<Longrightarrow> probe_ok (leaving_host port)"
  by (rule lifted_ok) (auto simp: leaving_host_def lift_call_def split_beta Let_def)

lemma log_counts:
  "snd (g_world (log_line (leaving_host port) e v d h)) = snd (g_world h)"
  "snd (g_world (log_limited (leaving_host port) k e v d h)) = snd (g_world h)"
  by (simp_all add: log_limited_def log_line_def leaving_host_def)

lemma take_over_counts:
  assumes "take_over (leaving_host port) request h = Some h'"
  shows "snd (g_world h') \<le> snd (g_world h)"
proof (cases "\<not> g_active h \<and> m_code request = 0x1001")
  case False
  then have "take_over (leaving_host port) request h = Some h" unfolding take_over_def by (rule if_not_P)
  then show ?thesis using assms by simp
next
  case True
  obtain status catalog w where f: "vcm_bridge_catalog_fetch (leaving_host port) (Some (g_catalog h)) (g_world h) = Some (status, Some catalog, w)"
    using assms True by (auto simp: take_over_def bind_eq_Some_conv)
  have "snd w \<le> snd (g_world h)" using leaving.catalog_fetch_keeps [OF f] by simp
  then show ?thesis
    using assms True f by (auto simp: take_over_def Let_def log_counts simp del: ascii_simps split: if_splits)
qed

lemma answer_counts:
  assumes "answer_command (leaving_host port) junk uninit request h = Some (Again, h')"
  shows "snd (g_world h') \<le> snd (g_world h)"
proof -
  define h1 where "h1 = log_limited (leaving_host port) 56 (ascii ''vcm-op'') (ucast (m_code request)) (m_param_count request) h"
  obtain ret server c scratch thumbnail where d: "vcm_mtpif_dispatch (leaving_host port) junk uninit (g_server h1) request (g_scratch h1)
      (g_thumbnail h1) (g_world h1) = Some (ret, server, c, scratch, thumbnail)"
    and w: "g_world h' = x_world c"
    using assms unfolding answer_command_def Let_def h1_def [symmetric] by (auto simp: bind_eq_Some_conv split: if_splits)
  have "snd (x_world c) \<le> snd (g_world h1)" by (rule leaving.dispatch_keeps [OF d]) simp
  then show ?thesis using w by (simp add: h1_def log_counts del: ascii_simps)
qed

lemma turn_counts:
  assumes "hook_turn (leaving_host port) junk uninit command h = Some (Again, command', h')"
  shows "snd (g_world h') < snd (g_world h)"
proof -
  obtain result command1 w where rc: "o_receive (leaving_host port) command (g_world h) = (result, command1, w)" by (metis prod_cases3)
  define h1 where "h1 = h\<lparr>g_world := w\<rparr>"
  obtain request where req: "command1 = Some request" "\<not> result < 0"
    using assms unfolding hook_turn_def rc prod.case Let_def by (cases command1) (auto split: if_splits)
  have less: "snd w < snd (g_world h)"
    using rc req(2) by (auto simp: leaving_host_def split_beta Let_def split: if_splits)
  define h2 where "h2 = track_session request (log_limited (leaving_host port) 32 (ascii ''recv'') (ucast (m_code request)) (word_of_int result) h1)"
  have h2: "snd (g_world h2) = snd w" by (simp add: h2_def track_session_def log_counts h1_def del: ascii_simps)
  obtain h3 where h3: "take_over (leaving_host port) request h2 = Some h3"
    "answer_command (leaving_host port) junk uninit request h3 = Some (Again, h')"
    using assms req(2) unfolding hook_turn_def rc prod.case Let_def req(1) option.case h1_def [symmetric] h2_def [symmetric]
    by (auto simp: bind_eq_Some_conv split: if_splits)
  show ?thesis using take_over_counts [OF h3(1)] answer_counts [OF h3(2)] h2 less by linarith
qed

lemma hook_returns_within:
  assumes "probe_ok port" and "hook_inv h" and "command \<noteq> None" and "snd (g_world h) \<le> n"
  shows "\<exists>r command' h'. recv_command_hook (Suc n) (leaving_host port) junk uninit command h = Some (Return r, command', h') \<and>
    \<not> g_active h' \<and> hook_inv h'"
  using assms(2-)
proof (induction n arbitrary: command h)
  case 0
  obtain turn request h' where t: "hook_turn (leaving_host port) junk uninit command h = Some (turn, Some request, h')" "hook_inv h'"
    "case turn of Again \<Rightarrow> g_active h' | Return r \<Rightarrow> \<not> g_active h'"
    using turn_spec [OF leaving_ok [OF assms(1)] 0(1,2), of junk uninit] by (fastforce split: turn.splits)
  have "turn \<noteq> Again" using turn_counts t(1) 0(3) by fastforce
  then obtain r where "turn = Return r" by (cases turn) auto
  then show ?case using t by simp
next
  case (Suc n)
  obtain turn request h' where t: "hook_turn (leaving_host port) junk uninit command h = Some (turn, Some request, h')" "hook_inv h'"
    "case turn of Again \<Rightarrow> g_active h' | Return r \<Rightarrow> \<not> g_active h'"
    using turn_spec [OF leaving_ok [OF assms(1)] Suc.prems(1,2), of junk uninit] by (fastforce split: turn.splits)
  show ?case
  proof (cases turn)
    case (Return r)
    then show ?thesis using t by simp
  next
    case Again
    then have "snd (g_world h') \<le> n" using turn_counts t(1) Suc.prems(3) by fastforce
    from Suc.IH [OF t(2) _ this, of "Some request"] show ?thesis using t(1) Again by simp
  qed
qed


text \<open>
  C16. The hook returns when the host goes away: if the host sends at most \<open>n\<close> more commands before the receive call fails, the hook returns
  to the firmware after at most \<open>n + 1\<close> turns, inactive and without its memory block, whatever the commands and the answers of the peer are.
\<close>

theorem hook_returns:
  assumes "probe_ok port" and "hook_inv h" and "command \<noteq> None" and "snd (g_world h) \<le> n"
  shows "\<exists>r command' h'. recv_command_hook (Suc n) (leaving_host port) junk uninit command h = Some (Return r, command', h') \<and>
    \<not> g_active h' \<and> b_block (g_catalog h') < 0"
  using hook_returns_within [OF assms, of junk uninit] by (fastforce simp: hook_inv_def)

theorem hook_returns_witness:
  "\<exists>r command' h'. recv_command_hook 3 (leaving_host sample_probe) (\<lambda>i. 0) undefined (Some (sample_command 0 [])) (idle_hook ([], 2)) =
     Some (Return r, command', h')"
proof -
  have "snd (g_world (idle_hook ([] :: u8 list, 2 :: nat))) \<le> 2" by (simp add: idle_hook_def)
  from hook_returns [OF sample_probe_ok idle_hook_inv option.distinct(2) this, of "\<lambda>i. 0" undefined "sample_command 0 []"]
  show ?thesis unfolding eval_nat_numeral by blast
qed

end
