(* ===== verification/Library_Audit.thy ===== *)
theory Library_Audit
  imports Library_Listing
begin

text \<open>
  The diagnostic of the music database, \<open>vcm_library_audit_music\<close> of \<^verbatim>\<open>src/vita/library.c\<close>: every registered track is sorted
  into one class by the first test of the catalogue that it fails. The lemmas show that no track is lost or counted twice, and what the
  report says when the database cannot be read.
\<close>

subsection \<open>The audit\<close>

text \<open>The file system as the audit sees it: status and size of a path, and the status of opening it.\<close>

record audit_host =
  a_stat :: "u8 list \<Rightarrow> int \<times> int"
  a_open :: "u8 list \<Rightarrow> int"
  a_module :: int
  a_apputil :: int
  a_mount :: int

record audit_counts =
  n_rows :: u32
  n_eligible :: u32
  n_invalid :: u32
  n_unsupported :: u32
  n_bad_path :: u32
  n_stat_failed :: u32
  n_bad_size :: u32
  first_stat :: int
  first_open :: int
  alias_stat :: int

definition no_counts :: audit_counts where
  "no_counts = \<lparr>n_rows = 0, n_eligible = 0, n_invalid = 0, n_unsupported = 0, n_bad_path = 0, n_stat_failed = 0, n_bad_size = 0,
     first_stat = 0, first_open = 0, alias_stat = 0\<rparr>"

definition stat_failure :: "audit_host \<Rightarrow> u8 list \<Rightarrow> int \<Rightarrow> audit_counts \<Rightarrow> audit_counts" where
  "stat_failure host path status c =
     (let c = c\<lparr>n_stat_failed := n_stat_failed c + 1\<rparr> in
      if first_stat c \<noteq> 0 then c
      else
        let file = a_open host path;
            alias = ascii ''music0:/'' @ drop 11 path
        in c\<lparr>first_stat := status, first_open := (if file < 0 then file else 0),
             alias_stat := (if length alias < 1024 then fst (a_stat host alias) else alias_stat c)\<rparr>)"

definition audit_row :: "audit_host \<Rightarrow> (nat \<Rightarrow> u8) \<Rightarrow> u64 \<Rightarrow> u8 list option \<Rightarrow> audit_counts \<Rightarrow> audit_counts option" where
  "audit_row host junk ident stored c0 =
     (let c = c0\<lparr>n_rows := n_rows c0 + 1\<rparr>;
          name = (case stored of None \<Rightarrow> None | Some s \<Rightarrow> (case strrchr s 0x2f of None \<Rightarrow> None | Some i \<Rightarrow> Some (drop (Suc i) s)))
      in if ident = 0 \<or> name = None \<or> name = Some [] then Some (c\<lparr>n_invalid := n_invalid c + 1\<rparr>)
         else if mtp_format VCM_LIBRARY_MUSIC (the name) = 0 then Some (c\<lparr>n_unsupported := n_unsupported c + 1\<rparr>)
         else do {
           (rc, path) \<leftarrow> physical_path VCM_LIBRARY_MUSIC stored (Some (map junk [0..<1024])) 1024;
           if rc < 0 then Some (c\<lparr>n_bad_path := n_bad_path c + 1\<rparr>)
           else do {
             path \<leftarrow> path;
             path \<leftarrow> c_string path;
             Some (case a_stat host path of (status, bytes) \<Rightarrow>
               if status < 0 then stat_failure host path status c
               else if \<not> eligible_size bytes then c\<lparr>n_bad_size := n_bad_size c + 1\<rparr>
               else c\<lparr>n_eligible := n_eligible c + 1\<rparr>)
           }
         })"

fun audit_rows ::
    "audit_host \<Rightarrow> (nat \<Rightarrow> u8) \<Rightarrow> (u64 \<times> u8 list option) option list \<Rightarrow> audit_counts \<Rightarrow> (int \<times> audit_counts) option" where
  "audit_rows host junk [] c = Some (0, c)"
| "audit_rows host junk (None # steps) c = Some (- 1, c)"
| "audit_rows host junk (Some (ident, stored) # steps) c = do {
     c \<leftarrow> audit_row host junk ident stored c;
     audit_rows host junk steps c
   }"

definition audit_text :: "audit_counts \<Rightarrow> int \<Rightarrow> int \<Rightarrow> u8 list" where
  "audit_text c apputil mount =
     ascii ''{\"rows\":'' @ dec_text (unat (n_rows c)) @ ascii '',\"eligible\":'' @ dec_text (unat (n_eligible c)) @
     ascii '',\"invalid\":'' @ dec_text (unat (n_invalid c)) @ ascii '',\"unsupported\":'' @ dec_text (unat (n_unsupported c)) @
     ascii '',\"bad_path\":'' @ dec_text (unat (n_bad_path c)) @ ascii '',\"stat_failed\":'' @ dec_text (unat (n_stat_failed c)) @
     ascii '',\"bad_size\":'' @ dec_text (unat (n_bad_size c)) @ ascii '',\"first_stat\":'' @ int_text (first_stat c) @
     ascii '',\"first_open\":'' @ int_text (first_open c) @ ascii '',\"alias_stat\":'' @ int_text (alias_stat c) @
     ascii '',\"apputil\":'' @ int_text apputil @ ascii '',\"mount\":'' @ int_text mount @ ascii ''}''"

definition vcm_library_audit_music ::
    "audit_host \<Rightarrow> (u64 \<times> u8 list option) query \<Rightarrow> (nat \<Rightarrow> u8) \<Rightarrow> u8 list option \<Rightarrow> nat \<Rightarrow> (int \<times> u8 list option) option" where
  "vcm_library_audit_music host q junk json capacity =
     (case json of
        None \<Rightarrow> Some (- 1, None)
      | Some out \<Rightarrow>
          if capacity < 256 \<or> \<not> sql_open q then Some (- 1, json)
          else do {
            let apputil = (if a_module host < 0 then a_module host else a_apputil host);
            let mount = (if apputil < 0 then apputil else a_mount host);
            (rc, c) \<leftarrow> (if sql_prepare q = 0 then audit_rows host junk (sql_steps q) no_counts else Some (sql_prepare q, no_counts));
            let rc = (if sql_finalize q \<noteq> 0 then - 1 else rc);
            let rc = (if sql_close q \<noteq> 0 then - 1 else rc);
            if rc < 0 then Some (- 1, json)
            else do {
              (n, out) \<leftarrow> snprintf out capacity (audit_text c apputil mount);
              Some (if n > 0 \<and> n < int capacity then n else - 1, Some out)
            }
          })"

subsection \<open>What the audit counts\<close>

text \<open>The file system of the audit and the one of the enumeration are the same.\<close>

definition same_files :: "audit_host \<Rightarrow> (u8 list \<Rightarrow> SceIoStat option) \<Rightarrow> bool" where
  "same_files host getstat \<longleftrightarrow> (\<forall>p. case getstat p of
     None \<Rightarrow> fst (a_stat host p) < 0
   | Some stat \<Rightarrow> 0 \<le> fst (a_stat host p) \<and> snd (a_stat host p) = st_size stat)"

text \<open>A visitor that only counts.\<close>

definition count_visit :: "nat visitor" where
  "count_visit k media = Some (0, Suc k)"

definition refused_rows :: "audit_counts \<Rightarrow> u32" where
  "refused_rows c = n_invalid c + n_unsupported c + n_bad_path c + n_stat_failed c + n_bad_size c"

lemma stat_failure_counts:
  "n_rows (stat_failure host p st c) = n_rows c" "n_eligible (stat_failure host p st c) = n_eligible c"
  "refused_rows (stat_failure host p st c) = refused_rows c + 1"
  by (simp_all add: stat_failure_def Let_def refused_rows_def)

lemma audit_row_visit:
  assumes ok: "row_ok row" and files: "same_files host getstat"
  shows "\<exists>c' e. audit_row host junk (r_id row) (r_path row) c = Some c' \<and> e \<in> {0, 1} \<and>
    visit_row VCM_LIBRARY_MUSIC getstat count_visit junk row k = Some (0, k + e) \<and>
    n_rows c' = n_rows c + 1 \<and> n_eligible c' = n_eligible c + of_nat e \<and> refused_rows c' = refused_rows c + of_nat (1 - e)"
proof (cases "\<exists>s slash. r_path row = Some s \<and> strrchr s 0x2f = Some slash \<and>
    r_id row \<noteq> 0 \<and> drop (Suc slash) s \<noteq> [] \<and> mtp_format VCM_LIBRARY_MUSIC (drop (Suc slash) s) \<noteq> 0")
  case False
  then have "visit_row VCM_LIBRARY_MUSIC getstat count_visit junk row k = Some (0, k + 0)"
    by (auto simp: visit_row_def Let_def split: option.splits)
  moreover have "\<exists>c'. audit_row host junk (r_id row) (r_path row) c = Some c' \<and> n_rows c' = n_rows c + 1 \<and>
    n_eligible c' = n_eligible c \<and> refused_rows c' = refused_rows c + 1"
    using False by (cases "r_path row") (auto simp: audit_row_def Let_def refused_rows_def split: option.splits)
  ultimately show ?thesis by force
next
  case True
  then obtain s slash where s: "r_path row = Some s" "strrchr s 0x2f = Some slash" "r_id row \<noteq> 0"
    "drop (Suc slash) s \<noteq> []" "mtp_format VCM_LIBRARY_MUSIC (drop (Suc slash) s) \<noteq> 0" by blast
  let ?name = "drop (Suc slash) s"
  define c1 where "c1 = c\<lparr>n_rows := n_rows c + 1\<rparr>"
  have "0 \<notin> set s" using ok s(1) by (simp add: row_ok_def text_ok_def)
  from physical_path_name [OF this s(2), of VCM_LIBRARY_MUSIC junk] obtain st path p where
    pp: "physical_path VCM_LIBRARY_MUSIC (Some s) (Some (map junk [0..<1024])) 1024 = Some (st, Some path)"
    "0 \<le> st \<longrightarrow> c_string path = Some p \<and> set ?name \<inter> {0, 0x2f, 0x5c, 0x3a, 0x0a} = {}" by blast
  have au: "audit_row host junk (r_id row) (r_path row) c =
    (if st < 0 then Some (c1\<lparr>n_bad_path := n_bad_path c1 + 1\<rparr>)
     else do { p \<leftarrow> c_string path;
       Some (case a_stat host p of (status, bytes) \<Rightarrow>
               if status < 0 then stat_failure host p status c1
               else if \<not> eligible_size bytes then c1\<lparr>n_bad_size := n_bad_size c1 + 1\<rparr>
               else c1\<lparr>n_eligible := n_eligible c1 + 1\<rparr>) })"
    using s pp(1) by (cases "c_string path") (simp_all add: audit_row_def Let_def c1_def split: prod.split)
  show ?thesis
  proof (cases "0 \<le> st")
    case False
    then have "visit_row VCM_LIBRARY_MUSIC getstat count_visit junk row k = Some (0, k + 0)"
      using s pp(1) by (simp add: visit_row_def Let_def)
    with False show ?thesis unfolding au by (intro exI conjI) (auto simp: c1_def refused_rows_def)
  next
    case st: True
    with pp(2) have cp: "c_string path = Some p" "set ?name \<inter> {0, 0x2f, 0x5c, 0x3a, 0x0a} = {}" by simp_all
    obtain status bytes where ab: "a_stat host p = (status, bytes)" by (cases "a_stat host p")
    have same: "case getstat p of None \<Rightarrow> status < 0 | Some stat \<Rightarrow> 0 \<le> status \<and> bytes = st_size stat"
      using files ab unfolding same_files_def by (metis fst_conv snd_conv)
    show ?thesis
    proof (cases "\<exists>stat. getstat p = Some stat \<and> eligible_size (st_size stat)")
      case False
      then have "visit_row VCM_LIBRARY_MUSIC getstat count_visit junk row k = Some (0, k + 0)"
        using s pp(1) st cp(1) by (auto simp: visit_row_def Let_def split: option.splits)
      with False same st cp(1) show ?thesis unfolding au
        by (intro exI conjI) (auto simp: c1_def ab refused_rows_def stat_failure_counts stat_failure_counts(3) [unfolded refused_rows_def] split: option.splits)
    next
      case True
      then obtain stat where stat: "getstat p = Some stat" "eligible_size (st_size stat)" by blast
      have "VCM_LIBRARY_MUSIC \<in> {0, 1, 2}" by simp
      from row_media_spec [OF ok this s(4) cp(2) s(3,5) stat(2)] obtain m where
        "row_media VCM_LIBRARY_MUSIC junk row ?name stat = Some m" by blast
      then have "visit_row VCM_LIBRARY_MUSIC getstat count_visit junk row k = Some (0, k + 1)"
        using s pp(1) st cp(1) stat by (simp add: visit_row_def Let_def count_visit_def)
      with stat same st cp(1) show ?thesis unfolding au
        by (intro exI conjI) (auto simp: c1_def ab refused_rows_def)
    qed
  qed
qed

lemma audit_rows_visits:
  assumes "list_all row_ok rows" and "same_files host getstat"
  shows "\<exists>c' e. audit_rows host junk (map (\<lambda>r. Some (r_id r, r_path r)) rows) c = Some (0, c') \<and> e \<le> length rows \<and>
    visit_rows VCM_LIBRARY_MUSIC getstat count_visit junk (map Some rows) k = Some (0, k + e) \<and>
    n_rows c' = n_rows c + of_nat (length rows) \<and> n_eligible c' = n_eligible c + of_nat e \<and>
    refused_rows c' = refused_rows c + of_nat (length rows - e)"
  using assms(1)
proof (induction rows arbitrary: c k)
  case (Cons row rows)
  obtain c1 e1 where 1: "audit_row host junk (r_id row) (r_path row) c = Some c1" "e1 \<in> {0, 1}"
    "visit_row VCM_LIBRARY_MUSIC getstat count_visit junk row k = Some (0, k + e1)"
    "n_rows c1 = n_rows c + 1" "n_eligible c1 = n_eligible c + of_nat e1" "refused_rows c1 = refused_rows c + of_nat (1 - e1)"
    using audit_row_visit [OF _ assms(2), of row junk c k] Cons.prems by auto
  have "list_all row_ok rows" using Cons.prems by simp
  from Cons.IH [OF this, of c1 "k + e1"] obtain c2 e2 where
    2: "audit_rows host junk (map (\<lambda>r. Some (r_id r, r_path r)) rows) c1 = Some (0, c2)" "e2 \<le> length rows"
    "visit_rows VCM_LIBRARY_MUSIC getstat count_visit junk (map Some rows) (k + e1) = Some (0, k + e1 + e2)"
    "n_rows c2 = n_rows c1 + of_nat (length rows)" "n_eligible c2 = n_eligible c1 + of_nat e2"
    "refused_rows c2 = refused_rows c1 + of_nat (length rows - e2)" by blast
  have n: "Suc (length rows) - (e1 + e2) = (1 - e1) + (length rows - e2)" using 1(2) 2(2) by auto
  show ?case
    by (rule exI [of _ c2], rule exI [of _ "e1 + e2"]) (use 1 2 n in \<open>auto simp: add.assoc\<close>)
qed simp


text \<open>
  C39. The audit predicts the catalogue: on the rows of the music database, with the same file system, the audit and the enumeration that feeds
  the MTP catalogue return together; the number of eligible tracks it reports is the number of tracks that the enumeration delivers, the number
  of rows is exact, and every other row is in exactly one of the five classes of refused ones.
\<close>

theorem audit_predicts_catalogue:
  assumes "list_all row_ok rows" and "same_files host getstat" and "length rows < 2 ^ 32"
  shows "\<exists>c. audit_rows host junk (map (\<lambda>r. Some (r_id r, r_path r)) rows) no_counts = Some (0, c) \<and>
    visit_rows VCM_LIBRARY_MUSIC getstat count_visit junk (map Some rows) 0 = Some (0, unat (n_eligible c)) \<and>
    unat (n_rows c) = length rows \<and> n_rows c = n_eligible c + refused_rows c \<and>
    unat (n_eligible c) + unat (refused_rows c) = length rows"
proof -
  obtain c e where c: "audit_rows host junk (map (\<lambda>r. Some (r_id r, r_path r)) rows) no_counts = Some (0, c)" "e \<le> length rows"
    "visit_rows VCM_LIBRARY_MUSIC getstat count_visit junk (map Some rows) 0 = Some (0, 0 + e)"
    "n_rows c = of_nat (length rows)" "n_eligible c = of_nat e" "refused_rows c = of_nat (length rows - e)"
    using audit_rows_visits [OF assms(1,2), of junk no_counts 0] by (auto simp: no_counts_def refused_rows_def)
  have small: "unat (of_nat n :: u32) = n" if "n \<le> length rows" for n
    using that assms(3) by (simp add: unat_of_nat take_bit_nat_def)
  show ?thesis
    by (rule exI [of _ c]) (use c small [of e] small [of "length rows"] small [of "length rows - e"] in \<open>simp flip: of_nat_add\<close>)
qed

definition audit_sample_host :: audit_host where
  "audit_sample_host = \<lparr>a_stat = (\<lambda>p. if p = ascii ''ux0:/music/a.mp3'' then (0, 9) else (- 1, 0)), a_open = (\<lambda>_. - 1), a_module = 0,
     a_apputil = 0, a_mount = 0\<rparr>"

definition audit_sample_row :: "string \<Rightarrow> media_row" where
  "audit_sample_row path = \<lparr>r_id = 7, r_path = Some (ascii path), r_title = None, r_created = None, r_artist = None, r_album = None,
     r_icon = [], r_width = 0, r_height = 0\<rparr>"

definition audit_sample_stat :: "u8 list \<Rightarrow> SceIoStat option" where
  "audit_sample_stat p = (let d = \<lparr>d_year = 2020, d_month = 1, d_day = 1, d_hour = 1, d_minute = 1, d_second = 1\<rparr> in
     if p = ascii ''ux0:/music/a.mp3'' then Some \<lparr>st_size = 9, st_ctime = d, st_mtime = d\<rparr> else None)"

theorem audit_predicts_catalogue_witness:
  "\<exists>c. audit_rows audit_sample_host (\<lambda>_. 0)
      (map (\<lambda>r. Some (r_id r, r_path r)) [audit_sample_row ''music0:/a.mp3'', audit_sample_row ''music0:/b.mp3'', audit_sample_row ''music0:/c.txt''])
      no_counts = Some (0, c) \<and> unat (n_rows c) = 3 \<and> unat (n_eligible c) + unat (refused_rows c) = 3"
proof -
  have ok: "list_all row_ok [audit_sample_row ''music0:/a.mp3'', audit_sample_row ''music0:/b.mp3'', audit_sample_row ''music0:/c.txt'']"
    by code_simp
  have files: "same_files audit_sample_host audit_sample_stat"
    by (simp add: same_files_def audit_sample_host_def audit_sample_stat_def Let_def)
  from audit_predicts_catalogue [OF ok files, of "\<lambda>_. 0"] show ?thesis by auto
qed

text \<open>
  When the statement cannot be prepared, SQLite returns a positive code. The other queries of the library fail then; the audit
  only looks for negative codes and reports an empty library without an error.
\<close>

lemma audit_masks_prepare_failure:
  assumes "sql_open q" and "0 < sql_prepare q" and "sql_finalize q = 0" and "sql_close q = 0" and "length out = 256"
    and "list_all (\<lambda>i. - (2 ^ 31) \<le> i \<and> i < 2 ^ 31) [a_module host, a_apputil host, a_mount host]"
  shows "\<exists>out' apputil mount. vcm_library_audit_music host q junk (Some out) 256 =
    Some (int (length (audit_text no_counts apputil mount)), Some out') \<and> c_string out' = Some (audit_text no_counts apputil mount)"
proof -
  define apputil where "apputil = (if a_module host < 0 then a_module host else a_apputil host)"
  define mount where "mount = (if apputil < 0 then apputil else a_mount host)"
  have "length (int_text apputil) \<le> 11" "length (int_text mount) \<le> 11"
    using assms(6) by (auto simp: apputil_def mount_def intro!: int_text_length)
  moreover have "length (dec_text 0) = 1" "length (int_text 0) = 1" by (code_simp, code_simp)
  ultimately have l: "length (audit_text no_counts apputil mount) < 256" "0 < length (audit_text no_counts apputil mount)"
    by (simp_all add: audit_text_def no_counts_def)
  have "0 \<notin> set (audit_text no_counts apputil mount)"
    by (simp add: audit_text_def dec_text_nonzero int_text_nonzero)
  from snprintf_fits [OF l(1) _ this, of out] assms(5) obtain out' where
    "snprintf out 256 (audit_text no_counts apputil mount) = Some (int (length (audit_text no_counts apputil mount)), out')"
    "c_string out' = Some (audit_text no_counts apputil mount)" by auto
  then show ?thesis
    using assms(1-4) l unfolding vcm_library_audit_music_def option.case Let_def apputil_def [symmetric] mount_def [symmetric]
    by (intro exI [of _ out'] exI [of _ apputil] exI [of _ mount]) simp
qed

text \<open>The audit never faults, and what it returns is a string.\<close>

lemma audit_rows_total:
  assumes "\<forall>ident v. Some (ident, v) \<in> set steps \<longrightarrow> text_ok v"
  shows "\<exists>rc c'. audit_rows host junk steps c = Some (rc, c')"
  using assms
proof (induction steps arbitrary: c)
  case (Cons step steps)
  have row: "\<exists>c'. audit_row host junk ident v c = Some c'" if "step = Some (ident, v)" for ident v
  proof -
    have "text_ok v" using Cons.prems that by simp
    from physical_path_total [OF this, of 1024 "map junk [0..<1024]" VCM_LIBRARY_MUSIC] obtain st p where
      "physical_path VCM_LIBRARY_MUSIC v (Some (map junk [0..<1024])) 1024 = Some (st, Some p)" "st \<in> {0, - 1}"
      "st = 0 \<longrightarrow> (\<exists>t. c_string p = Some t)" by auto
    then show ?thesis unfolding audit_row_def Let_def by auto
  qed
  show ?case
  proof (cases step)
    case (Some r)
    then obtain ident v where r: "step = Some (ident, v)" by (cases r) simp
    then obtain c1 where "audit_row host junk ident v c = Some c1" using row by blast
    then show ?thesis using Cons r by simp
  qed simp
qed simp

lemma audit_total:
  assumes "\<forall>ident v. Some (ident, v) \<in> set (sql_steps q) \<longrightarrow> text_ok v" and "256 \<le> capacity" and "length out = capacity"
  shows "\<exists>rc out'. vcm_library_audit_music host q junk (Some out) capacity = Some (rc, Some out') \<and>
    (0 \<le> rc \<longrightarrow> (\<exists>t. c_string out' = Some t))"
proof -
  obtain rc c where c: "(if sql_prepare q = 0 then audit_rows host junk (sql_steps q) no_counts else Some (sql_prepare q, no_counts)) = Some (rc, c)"
    using audit_rows_total [OF assms(1), of host junk no_counts] by (cases "sql_prepare q = 0") auto
  have n: "\<exists>out'. snprintf out capacity (audit_text c a m) = Some (int (length (audit_text c a m)), out') \<and> (\<exists>t. c_string out' = Some t)" for a m
    using snprintf_terminated [of capacity out "audit_text c a m"] assms(2,3)
    by (auto simp: audit_text_def dec_text_nonzero int_text_nonzero)
  define apputil where "apputil = (if a_module host < 0 then a_module host else a_apputil host)"
  define mount where "mount = (if apputil < 0 then apputil else a_mount host)"
  obtain out' where "snprintf out capacity (audit_text c apputil mount) = Some (int (length (audit_text c apputil mount)), out')"
    "\<exists>t. c_string out' = Some t" using n by blast
  then show ?thesis
    using assms(2) unfolding vcm_library_audit_music_def option.case Let_def apputil_def [symmetric] mount_def [symmetric] c
    by (auto simp del: ascii_simps)
qed

end
