(* ===== verification/Wifi_Replies.thy ===== *)
theory Wifi_Replies
  imports Catalog_Client Mtp_Snapshot Mtp_Thumb Library_Audit Sync_Queue
begin

text \<open>
  The replies of the network service of \<^verbatim>\<open>src/vita/wifi_service.c\<close>: status and queue reports, the USB catalogue and its summary,
  thumbnails, listings and downloads of the library. A handler transforms the state of the system; \<^term>\<open>None\<close> is an access outside an array.
\<close>

subsection \<open>The system\<close>

text \<open>
  The calls of the system and of the other components, over an arbitrary state that also holds what the threads share: the transfer queue and
  the flags of the service. Queries of the database, the file system and the allocator are parameters.
\<close>

datatype file_mode = Read_Only | Create_New

record 'w service = "'w net" +
  v_queue :: "'w \<Rightarrow> sync_queue"
  v_set_queue :: "sync_queue \<Rightarrow> 'w \<Rightarrow> 'w"
  v_device :: "'w \<Rightarrow> device"
  v_path :: "int \<Rightarrow> u64 \<Rightarrow> 'w \<Rightarrow> u8 list option query"
  v_list :: "int \<Rightarrow> int \<Rightarrow> int \<Rightarrow> 'w \<Rightarrow> list_row query"
  v_icons :: "int \<Rightarrow> int \<Rightarrow> 'w \<Rightarrow> (u64 \<times> icon_step \<times> int) query"
  v_icon :: "u64 \<Rightarrow> 'w \<Rightarrow> u8 list option query"
  v_devctl :: "'w \<Rightarrow> int \<times> int \<times> int"
  v_dev_info :: "'w \<Rightarrow> int \<times> u64 \<times> u64"
  v_malloc :: "nat \<Rightarrow> 'w \<Rightarrow> u8 list option \<times> 'w"
  v_free :: "'w \<Rightarrow> 'w"
  v_open :: "u8 list \<Rightarrow> file_mode \<Rightarrow> 'w \<Rightarrow> int \<times> 'w"
  v_read :: "int \<Rightarrow> nat \<Rightarrow> 'w \<Rightarrow> int \<times> u8 list \<times> 'w"
  v_write :: "int \<Rightarrow> u8 list \<Rightarrow> 'w \<Rightarrow> int \<times> 'w"
  v_close :: "int \<Rightarrow> 'w \<Rightarrow> int \<times> 'w"
  v_sync_file :: "int \<Rightarrow> 'w \<Rightarrow> int \<times> 'w"
  v_rename :: "u8 list \<Rightarrow> u8 list \<Rightarrow> 'w \<Rightarrow> int \<times> 'w"
  v_remove :: "u8 list \<Rightarrow> 'w \<Rightarrow> 'w"
  v_sync :: "'w \<Rightarrow> int \<times> 'w"
  v_log :: "u8 list \<Rightarrow> int \<Rightarrow> 'w \<Rightarrow> 'w"
  v_blocking :: "int \<Rightarrow> 'w \<Rightarrow> int \<times> 'w"
  v_audit :: "'w \<Rightarrow> audit_host"
  v_tracks :: "'w \<Rightarrow> (u64 \<times> u8 list option) query"
  v_stop :: "'w \<Rightarrow> bool"
  v_usb_mode :: "'w \<Rightarrow> bool"
  v_set_served :: "'w \<Rightarrow> 'w"

abbreviation (input) crlf :: "u8 list" where "crlf \<equiv> [13, 10]"

subsection \<open>Responses\<close>

function send_all_loop :: "('w, 'a) net_scheme \<Rightarrow> int \<Rightarrow> u8 list \<Rightarrow> nat \<Rightarrow> 'w \<Rightarrow> int \<times> 'w" where
  "send_all_loop net socket data offset w =
     (if offset < length data then
        case n_send net socket (drop offset data) w of (sent, w) \<Rightarrow>
          if sent \<le> 0 then (- 1, w) else send_all_loop net socket data (offset + nat sent) w
      else (0, w))"
  by pat_completeness auto
termination by (relation "measure (\<lambda>(net, socket, data, offset, w). length data - offset)") auto

declare send_all_loop.simps [simp del]

definition send_all :: "('w, 'a) net_scheme \<Rightarrow> int \<Rightarrow> u8 list \<Rightarrow> 'w \<Rightarrow> int \<times> 'w" where
  "send_all net socket data w = send_all_loop net socket data 0 w"

definition respond :: "('w, 'a) net_scheme \<Rightarrow> int \<Rightarrow> int \<Rightarrow> u8 list \<Rightarrow> u8 list \<Rightarrow> 'w \<Rightarrow> 'w" where
  "respond net socket status reason json w =
     (let body = take 32768 json;
          header = ascii ''HTTP/1.1 '' @ int_text status @ ascii '' '' @ reason @ crlf @ ascii ''Content-Type: application/json'' @ crlf @
            ascii ''Content-Length: '' @ dec_text (length body) @ crlf @ ascii ''Connection: close'' @ crlf @ crlf
      in if request_fits 256 header
         then snd (send_all net socket body (snd (send_all net socket header w)))
         else w)"

definition respond_binary :: "('w, 'a) net_scheme \<Rightarrow> int \<Rightarrow> u8 list \<Rightarrow> 'w \<Rightarrow> 'w" where
  "respond_binary net socket body w =
     (let header = ascii ''HTTP/1.1 200 OK'' @ crlf @ ascii ''Content-Type: application/octet-stream'' @ crlf @
            ascii ''Content-Length: '' @ dec_text (length body) @ crlf @ ascii ''Connection: close'' @ crlf @ crlf
      in if request_fits 192 header then
           let (rc, w) = send_all net socket header w in
           if rc = 0 then snd (send_all net socket body w) else w
         else w)"

text \<open>The error messages are all objects with one text.\<close>

definition error_json :: "u8 list \<Rightarrow> u8 list" where
  "error_json message = ascii ''{\"error\":\"'' @ message @ ascii ''\"}''"

definition refuse :: "('w, 'a) net_scheme \<Rightarrow> int \<Rightarrow> int \<Rightarrow> string \<Rightarrow> string \<Rightarrow> 'w \<Rightarrow> 'w" where
  "refuse net socket status reason message w = respond net socket status (ascii reason) (error_json (ascii message)) w"

subsection \<open>Queue reports\<close>

definition state_code :: "item_state \<Rightarrow> u32" where
  "state_code state =
     (case state of VCM_WAITING \<Rightarrow> 0 | VCM_RECEIVING \<Rightarrow> 1 | VCM_RECEIVED \<Rightarrow> 2 | VCM_IMPORTING \<Rightarrow> 3 | VCM_IMPORTED \<Rightarrow> 4 | VCM_FAILED \<Rightarrow> 5)"

definition queue_status_bytes :: "VcmQueueInfo \<Rightarrow> u8 list" where
  "queue_status_bytes info =
     le32 0x53554356 @ le32 (word_of_int (i_count info)) @ le32 (word_of_int (i_imported info)) @ le32 (word_of_int (i_failed info)) @
     le32 (if i_syncing info then 1 else 0) @ le32 (if i_cancelled info then 1 else 0) @ le64 (i_transferred info) @ le64 (i_total info)"

definition item_status_bytes :: "VcmQueueItem \<Rightarrow> u8 list" where
  "item_status_bytes item = le32 0x49554356 @ le32 (state_code (q_state item)) @ le32 (word_of_int (q_error item))"

definition send_usb_queue_status :: "('w, 'a) service_scheme \<Rightarrow> int \<Rightarrow> int \<Rightarrow> 'w \<Rightarrow> 'w option" where
  "send_usb_queue_status srv socket item_index w =
     (if item_index < 0 then Some (respond_binary srv socket (queue_status_bytes (vcm_queue_info (v_queue srv w))) w)
      else do {
        (rc, item) \<leftarrow> vcm_queue_item item_index (v_queue srv w);
        (case item of
           Some item \<Rightarrow>
             if rc < 0 then Some (refuse srv socket 404 ''Not Found'' ''Queue item not found'' w)
             else Some (respond_binary srv socket (item_status_bytes item) w)
         | None \<Rightarrow> if rc < 0 then Some (refuse srv socket 404 ''Not Found'' ''Queue item not found'' w) else None)
      })"

text \<open>\<open>%d\<close> prints a 32-bit number.\<close>

definition c_int_text :: "int \<Rightarrow> u8 list" where
  "c_int_text i = int_text (sint (word_of_int i :: 32 word))"

text \<open>The items of the status report, one after another into the rest of the array.\<close>

fun status_items :: "sync_queue \<Rightarrow> nat list \<Rightarrow> u8 list \<Rightarrow> u8 list option" where
  "status_items s [] text = Some text"
| "status_items s (i # is) text = do {
     (rc, item) \<leftarrow> vcm_queue_item (int i) s;
     item \<leftarrow> item;
     name \<leftarrow> c_string (q_id item);
     let text = text @ (if i = 0 then [] else ascii '','') @ ascii ''{\"id\":\"'' @ name @ ascii ''\",\"state\":'' @
       dec_text (unat (state_code (q_state item))) @ ascii '',\"error\":'' @ c_int_text (q_error item) @ ascii ''}'';
     if length text < 32768 then status_items s is text else None
   }"

definition bool_text :: "bool \<Rightarrow> u8 list" where
  "bool_text b = c_int_text (if b then 1 else 0)"

definition send_status :: "('w, 'a) service_scheme \<Rightarrow> int \<Rightarrow> 'w \<Rightarrow> 'w option" where
  "send_status srv socket w =
     (let s = v_queue srv w; info = vcm_queue_info s in do {
        queue_id \<leftarrow> c_string (i_id info);
        let text = ascii ''{\"service\":\"vita-content-manager\",\"version\":2,\"video_folders\":true,\"library_export\":true,\"queue\":\"'' @
          queue_id @ ascii ''\",\"count\":'' @ c_int_text (i_count info) @ ascii '',\"imported\":'' @ c_int_text (i_imported info) @
          ascii '',\"failed\":'' @ c_int_text (i_failed info) @ ascii '',\"syncing\":'' @ bool_text (i_syncing info) @
          ascii '',\"cancelled\":'' @ bool_text (i_cancelled info) @ ascii '',\"transferred\":'' @ dec_text (unat (i_transferred info)) @
          ascii '',\"total\":'' @ dec_text (unat (i_total info)) @ ascii '',\"items\":['';
        if length text < 32768 then do {
          text \<leftarrow> status_items s [0..<nat (i_count info)] text;
          Some (respond srv socket 200 (ascii ''OK'') (take 32767 (text @ ascii '']}'')) w)
        } else None
      })"

subsection \<open>The USB catalogue\<close>

text \<open>Capacity and free space of the card, from the device or from the application manager.\<close>

definition ux0_space :: "('w, 'a) service_scheme \<Rightarrow> 'w \<Rightarrow> int \<times> u64 \<times> u64" where
  "ux0_space srv w =
     (case v_devctl srv w of (space, max_size, free_size) \<Rightarrow>
        if space \<ge> 0 \<and> max_size > 0 \<and> free_size \<ge> 0 \<and> free_size \<le> max_size
        then (0, word_of_int max_size, word_of_int free_size)
        else
          case v_dev_info srv w of (rc, max_size, free_size) \<Rightarrow>
            if rc < 0 \<or> max_size = 0 \<or> free_size > max_size then (- 1, max_size, free_size) else (0, max_size, free_size))"

definition destroy_snapshot :: "('w, 'a) service_scheme \<Rightarrow> VcmMtpSnapshot \<Rightarrow> 'w \<Rightarrow> 'w" where
  "destroy_snapshot srv snapshot w = (if snd (vcm_mtp_snapshot_destroy snapshot) \<noteq> 0 then v_free srv w else w)"

definition catalog_reply_header :: "u32 \<Rightarrow> u8 list" where
  "catalog_reply_header len =
     ascii ''HTTP/1.1 200 OK'' @ crlf @ ascii ''Content-Type: application/octet-stream'' @ crlf @
     ascii ''Content-Length: '' @ dec_text (unat len) @ crlf @ ascii ''Connection: close'' @ crlf @ crlf"

text \<open>
  The build gets an uninitialised snapshot. \<open>pad\<close> is what the padding bytes of the entries hold; the array is read only as far as
  it reaches.
\<close>

definition send_usb_catalog ::
    "('w, 'a) service_scheme \<Rightarrow> (nat \<Rightarrow> u8) \<Rightarrow> u8 list \<Rightarrow> u8 list \<Rightarrow> VcmMtpSnapshot \<Rightarrow> int \<Rightarrow> 'w \<Rightarrow> 'w option" where
  "send_usb_catalog srv junk slack pad uninit socket w = do {
     (rc, snapshot, freed) \<leftarrow> vcm_mtp_snapshot_build (v_device srv w) junk slack (Some uninit);
     if rc < 0 then Some (refuse srv socket 500 ''Internal Server Error'' ''USB catalogue unavailable'' w)
     else do {
       snapshot \<leftarrow> snapshot;
       (case ux0_space srv w of (rc, max_size, free_size) \<Rightarrow>
          if rc < 0 then
            Some (refuse srv socket 500 ''Internal Server Error'' ''ux0 space unavailable'' (destroy_snapshot srv snapshot w))
          else do {
            let catalog = sn_catalog snapshot;
            let header = \<lparr>h_magic = 0x434d4356, h_version = 3, h_count = c_count catalog, h_entry_size = 1120,
              h_max_size = max_size, h_free_size = free_size\<rparr>;
            let len = 32 + c_count catalog * 1120;
            let response = catalog_reply_header len;
            entries \<leftarrow> c_entries catalog;
            let memory = entries_memory pad entries;
            let wanted = unat (c_count catalog * 1120);
            if length memory < wanted then None
            else
              Some (destroy_snapshot srv snapshot (if request_fits 192 response then
                let (rc, w) = send_all srv socket response w in
                if rc = 0 then
                  let (rc, w) = send_all srv socket (header_bytes header) w in
                  if rc = 0 then
                    let (rc, w) = send_all srv socket (take wanted memory) w in
                    if rc = 0 then v_set_served srv w else w
                  else w
                else w
              else w))
          })
     }
   }"

definition kind_counts :: "VcmMtpEntry list \<Rightarrow> nat \<Rightarrow> nat" where
  "kind_counts es kind = length (filter (\<lambda>e. unat (e_kind e) = kind) es)"

definition send_usb_catalog_summary ::
    "('w, 'a) service_scheme \<Rightarrow> (nat \<Rightarrow> u8) \<Rightarrow> u8 list \<Rightarrow> VcmMtpSnapshot \<Rightarrow> int \<Rightarrow> 'w \<Rightarrow> 'w option" where
  "send_usb_catalog_summary srv junk slack uninit socket w = do {
     (rc, snapshot, freed) \<leftarrow> vcm_mtp_snapshot_build (v_device srv w) junk slack (Some uninit);
     if rc < 0 then Some (refuse srv socket 500 ''Internal Server Error'' ''USB catalogue unavailable'' w)
     else do {
       snapshot \<leftarrow> snapshot;
       entries \<leftarrow> c_entries (sn_catalog snapshot);
       let count = unat (c_count (sn_catalog snapshot));
       if length entries < count then None
       else
         let listed = drop 3 (take count entries);
             json = ascii ''{\"photo\":'' @ dec_text (kind_counts listed 0) @ ascii '',\"music\":'' @ dec_text (kind_counts listed 1) @
               ascii '',\"video\":'' @ dec_text (kind_counts listed 2) @ ascii '',\"sidecar\":'' @ dec_text (kind_counts listed 3) @
               ascii '',\"total\":'' @ dec_text count @ ascii ''}''
         in Some (respond srv socket 200 (ascii ''OK'') (take 191 json) (destroy_snapshot srv snapshot w))
     }
   }"


subsection \<open>Numbers in requests\<close>

text \<open>\<open>parse_library_number\<close> and \<open>parse_decimal\<close> have the same text.\<close>

fun number_loop :: "u64 \<Rightarrow> u8 list \<Rightarrow> u64 option" where
  "number_loop v [] = Some v"
| "number_loop v (c # s) =
     (if \<not> is_digit c \<or> v > (0xffffffffffffffff - ucast (c - 0x30)) div 10 then None
      else number_loop (v * 10 + ucast (c - 0x30)) s)"

definition parse_library_number :: "u8 list \<Rightarrow> u64 option" where
  "parse_library_number s = (if s = [] then None else number_loop 0 s)"

definition parse_decimal :: "u8 list \<Rightarrow> u64 option" where
  "parse_decimal s = (if s = [] then None else number_loop 0 s)"

subsection \<open>Thumbnails\<close>

definition send_usb_thumbnail :: "('w, 'a) service_scheme \<Rightarrow> int \<Rightarrow> u8 list \<Rightarrow> 'w \<Rightarrow> 'w option" where
  "send_usb_thumbnail srv socket request_line w =
     (let start = drop 18 request_line;
          bad = Some (refuse srv socket 400 ''Bad Request'' ''Invalid thumbnail ID'' w)
      in case strstr start (ascii '' HTTP/1.1'') of
           None \<Rightarrow> bad
         | Some tail \<Rightarrow>
             let number = take (length start - length tail) start in
             if c_at tail 9 \<noteq> 0 \<or> number = [] \<or> length number > 20 then bad
             else
               (case parse_library_number number of
                  None \<Rightarrow> bad
                | Some ident \<Rightarrow>
                    if ident = 0 then bad
                    else
                      let (dds, w) = v_malloc srv 65536 w;
                          (bmp, w) = v_malloc srv (256 * 256 * 3 + 54) w
                      in case (dds, bmp) of
                           (Some d, Some b) \<Rightarrow> do {
                             (dds_size, dds) \<leftarrow> vcm_library_photo_icon ident (v_icon srv ident w) (Some d) 65536;
                             (bmp_size, bmp) \<leftarrow>
                               (if dds_size > 0 then vcm_mtp_dxt1_dds_to_bmp dds (word_of_int dds_size) (Some b) (256 * 256 * 3 + 54)
                                else Some (- 1, Some b));
                             let w = v_free srv w;
                             if bmp_size < 0 then Some (refuse srv socket 404 ''Not Found'' ''Thumbnail unavailable'' (v_free srv w))
                             else do {
                               data \<leftarrow> bmp;
                               let response = ascii ''HTTP/1.1 200 OK'' @ crlf @ ascii ''Content-Type: image/bmp'' @ crlf @
                                 ascii ''Content-Length: '' @ int_text bmp_size @ crlf @ ascii ''Connection: close'' @ crlf @ crlf;
                               if length data < nat bmp_size then None
                               else
                                 Some (v_free srv
                                   (if request_fits 192 response then
                                      let (rc, w) = send_all srv socket response w in
                                      if rc = 0 then snd (send_all srv socket (take (nat bmp_size) data) w) else w
                                    else w))
                             }
                           }
                         | _ \<Rightarrow>
                             let w = (if dds \<noteq> None then v_free srv w else w);
                                 w = (if bmp \<noteq> None then v_free srv w else w)
                             in Some (refuse srv socket 500 ''Internal Server Error'' ''No thumbnail memory'' w)))"

subsection \<open>Downloads\<close>

text \<open>
  The loop over the file with its buffer of 16384 bytes; a read returns the count and the bytes that were written to the front of the buffer.
\<close>

function file_loop :: "('w, 'a) service_scheme \<Rightarrow> int \<Rightarrow> int \<Rightarrow> u8 list \<Rightarrow> nat \<Rightarrow> 'w \<Rightarrow> 'w option" where
  "file_loop srv socket fd chunk remaining w =
     (if remaining = 0 then Some w
      else
        let wanted = min remaining 16384 in
        case v_read srv fd wanted w of (got, bs, w) \<Rightarrow>
          if length bs > length chunk then None
          else
            let chunk = bs @ drop (length bs) chunk in
            if got \<le> 0 then Some w
            else if nat got > length chunk \<or> nat got > remaining then None
            else
              case send_all srv socket (take (nat got) chunk) w of (rc, w) \<Rightarrow>
                if rc < 0 then Some w else file_loop srv socket fd chunk (remaining - nat got) w)"
  by pat_completeness auto
termination by (relation "measure (\<lambda>(srv, socket, fd, chunk, remaining, w). remaining)") auto

declare file_loop.simps [simp del]

definition send_library_file ::
    "('w, 'a) service_scheme \<Rightarrow> (nat \<Rightarrow> u8) \<Rightarrow> int \<Rightarrow> int \<Rightarrow> u64 \<Rightarrow> bool \<Rightarrow> 'w \<Rightarrow> 'w option" where
  "send_library_file srv junk socket kind ident sidecar w =
     (if ident > 0x7fffffffffffffff then Some (refuse srv socket 404 ''Not Found'' ''Media item not found'' w)
      else do {
        let kind = (if sidecar then VCM_LIBRARY_VIDEO else kind);
        let buf = map junk [0..<1024];
        (rc, path) \<leftarrow>
          (if sidecar then vcm_library_resolve_sidecar (v_path srv kind ident w) (Some buf) 1024
           else vcm_library_resolve kind (v_path srv kind ident w) (Some buf) 1024);
        if rc < 0 then Some (refuse srv socket 404 ''Not Found'' ''Media item not found'' w)
        else do {
          path \<leftarrow> path;
          path \<leftarrow> c_string path;
          (case dev_stat (v_device srv w) path of
             None \<Rightarrow> Some (refuse srv socket 404 ''Not Found'' ''Media file unavailable'' w)
           | Some stat \<Rightarrow>
               if st_size stat \<le> 0 then Some (refuse srv socket 404 ''Not Found'' ''Media file unavailable'' w)
               else
                 let (fd, w) = v_open srv path Read_Only w in
                 if fd < 0 then Some (refuse srv socket 404 ''Not Found'' ''Media file unavailable'' w)
                 else
                   let header = ascii ''HTTP/1.1 200 OK'' @ crlf @ ascii ''Content-Type: application/octet-stream'' @ crlf @
                         ascii ''Content-Length: '' @ dec_text (nat (st_size stat)) @ crlf @ ascii ''Connection: close'' @ crlf @ crlf;
                       (rc, w) = (if request_fits 220 header then send_all srv socket header w else (- 1, w))
                   in do {
                     w \<leftarrow> (if rc = 0 then file_loop srv socket fd (map junk [0..<16384]) (nat (st_size stat)) w else Some w);
                     Some (snd (v_close srv fd w))
                   })
        }
      })"

text \<open>One chunk of the stream of icons: its length in hexadecimal, the data, and an end of line.\<close>

definition send_chunk :: "('w, 'a) net_scheme \<Rightarrow> int \<Rightarrow> 'w \<Rightarrow> u8 list \<Rightarrow> (int \<times> 'w) option" where
  "send_chunk net socket w data =
     (let head = hex_text (length data) @ crlf in
      if \<not> request_fits 24 head then Some (- 1, w)
      else
        let (rc, w) = send_all net socket head w in
        if rc < 0 then Some (- 1, w)
        else
          let (rc, w) = send_all net socket data w in
          if rc < 0 then Some (- 1, w)
          else
            let (rc, w) = send_all net socket crlf w in
            Some (if rc < 0 then - 1 else 0, w))"

definition icons_header :: "u8 list" where
  "icons_header = ascii ''HTTP/1.1 200 OK'' @ crlf @ ascii ''Content-Type: application/octet-stream'' @ crlf @
     ascii ''Transfer-Encoding: chunked'' @ crlf @ ascii ''Connection: close'' @ crlf @ crlf"

text \<open>A page of the listing or of the icons, from the text behind the question mark.\<close>

definition send_page :: "('w, 'a) service_scheme \<Rightarrow> (nat \<Rightarrow> u8) \<Rightarrow> int \<Rightarrow> int \<Rightarrow> bool \<Rightarrow> u8 list \<Rightarrow> 'w \<Rightarrow> 'w option" where
  "send_page srv junk socket kind icons rest w =
     (let bad = Some (refuse srv socket 400 ''Bad Request'' ''Invalid page'' w) in
      if \<not> starts (ascii ''offset='') rest then bad
      else
        let rest = drop 7 rest in
        case strstr rest (ascii ''&limit='') of
          None \<Rightarrow> bad
        | Some separator \<Rightarrow>
            (case (parse_library_number (take (length rest - length separator) rest), parse_library_number (drop 7 separator)) of
               (Some offset, Some limit) \<Rightarrow>
                 if \<not> (offset \<le> 1000000 \<and> limit \<ge> 1 \<and> limit \<le> 32) then bad
                 else if icons then
                   let (rc, w) = send_all srv socket icons_header w in
                   if rc = 0 then do {
                     (rc, w) \<leftarrow> vcm_library_photo_icons (uint offset) (uint limit) (v_icons srv (uint offset) (uint limit) w)
                       (Some (send_chunk srv socket)) w;
                     Some (if rc = 0 then snd (send_all srv socket (ascii ''0'' @ crlf @ crlf) w) else w)
                   } else Some w
                 else do {
                   (rc, json) \<leftarrow> vcm_library_list kind (uint offset) (uint limit) (dev_stat (v_device srv w))
                     (v_list srv kind (uint offset) (uint limit) w) junk (Some (map junk [0..<32768])) 32768;
                   if rc < 0
                   then Some (refuse srv socket 500 ''Internal Server Error'' ''Could not read the Vita media library'' w)
                   else do {
                     json \<leftarrow> json;
                     text \<leftarrow> c_string json;
                     Some (respond srv socket 200 (ascii ''OK'') text w)
                   }
                 }
             | _ \<Rightarrow> bad))"

text \<open>The audit of the music database.\<close>

definition send_music_audit :: "('w, 'a) service_scheme \<Rightarrow> (nat \<Rightarrow> u8) \<Rightarrow> int \<Rightarrow> 'w \<Rightarrow> 'w option" where
  "send_music_audit srv junk socket w = do {
     (rc, audit) \<leftarrow> vcm_library_audit_music (v_audit srv w) (v_tracks srv w) junk (Some (map junk [0..<256])) 256;
     if rc < 0 then Some (refuse srv socket 500 ''Internal Server Error'' ''Music audit failed'' w)
     else do {
       audit \<leftarrow> audit;
       text \<leftarrow> c_string audit;
       Some (respond srv socket 200 (ascii ''OK'') text w)
     }
   }"

text \<open>The request line begins with \<open>GET /v2/library/\<close>, which is 16 characters long.\<close>

definition send_library :: "('w, 'a) service_scheme \<Rightarrow> (nat \<Rightarrow> u8) \<Rightarrow> int \<Rightarrow> u8 list \<Rightarrow> 'w \<Rightarrow> 'w option" where
  "send_library srv junk socket request_line w =
     (case strstr request_line (ascii '' HTTP/1.1'') of
        None \<Rightarrow> Some (refuse srv socket 400 ''Bad Request'' ''Invalid request'' w)
      | Some tail \<Rightarrow>
          if c_at tail 9 \<noteq> 0 then Some (refuse srv socket 400 ''Bad Request'' ''Invalid request'' w)
          else
            let target = take (length request_line - length tail - 16) (drop 16 request_line) in
            if length target \<ge> 128 then Some (refuse srv socket 400 ''Bad Request'' ''Invalid library route'' w)
            else
              let kind = (if starts (ascii ''photo'') target then VCM_LIBRARY_PHOTO
                          else if starts (ascii ''music'') target then VCM_LIBRARY_MUSIC
                          else if starts (ascii ''video'') target then VCM_LIBRARY_VIDEO else - 1);
                  rest = drop 5 target;
                  icons = (kind = VCM_LIBRARY_PHOTO \<and> starts (ascii ''photo/thumbs?'') target)
              in if kind < 0 then Some (refuse srv socket 404 ''Not Found'' ''Unknown library'' w)
                 else if c_at rest 0 = 0x2f then
                   if kind = VCM_LIBRARY_PHOTO \<and> starts (ascii ''/thumbs?'') rest
                   then send_page srv junk socket kind icons (drop 8 rest) w
                   else
                     let name = drop 1 rest;
                         found = (case strstr name (ascii ''/m4t'') of
                           Some r \<Rightarrow> if kind = VCM_LIBRARY_VIDEO \<and> c_at r 4 = 0 then Some (take (length name - length r) name) else None
                         | None \<Rightarrow> None)
                     in (case parse_library_number (case found of Some number \<Rightarrow> number | None \<Rightarrow> name) of
                           None \<Rightarrow> Some (refuse srv socket 400 ''Bad Request'' ''Invalid media ID'' w)
                         | Some ident \<Rightarrow> send_library_file srv junk socket kind ident (found \<noteq> None) w)
                 else if c_at rest 0 = 0x3f then send_page srv junk socket kind icons (drop 1 rest) w
                 else Some (refuse srv socket 400 ''Bad Request'' ''Page required'' w))"

end
