(* ===== verification/Wifi_Service.thy ===== *)
theory Wifi_Service
  imports Wifi_Replies
begin

text \<open>
  The requests of the network service of \<^verbatim>\<open>src/vita/wifi_service.c\<close>: reading a request, the names of uploads, receiving a file, and the
  handler that dispatches on the request line. Texts are C strings without their terminator.
\<close>

subsection \<open>Names of uploads\<close>

definition upload_prefix :: "u8 list" where "upload_prefix = ascii ''/v2/files/''"

definition usb_upload_prefix :: "u8 list" where "usb_upload_prefix = ascii ''/v2/usb/files/''"

definition allowed_extensions :: "u8 list list" where
  "allowed_extensions = map ascii [''mp3'', ''mp4'', ''jpg'', ''jpeg'', ''png'', ''gif'', ''bmp'', ''tif'', ''tiff'', ''mpo'', ''m4a'',
     ''wav'', ''m4t'']"

definition lower_hex :: "u8 \<Rightarrow> bool" where
  "lower_hex c \<longleftrightarrow> (0x30 \<le> c \<and> c \<le> 0x39) \<or> (0x61 \<le> c \<and> c \<le> 0x66)"

definition upload_name :: "u8 list \<Rightarrow> nat \<Rightarrow> u8 list option" where
  "upload_name target capacity =
     (if \<not> starts upload_prefix target then None
      else
        let value = drop (length upload_prefix) target in
        if length value < 36 \<or> value ! 32 \<noteq> 0x2e then None
        else if \<not> list_all lower_hex (take 32 value) then None
        else if drop 33 value \<notin> set allowed_extensions then None
        else if length value < capacity then Some value else None)"

definition usb_upload_target :: "u8 list \<Rightarrow> (u32 \<times> u32) option" where
  "usb_upload_target target =
     (if \<not> starts usb_upload_prefix target then None
      else
        let cursor = drop (length usb_upload_prefix) target;
            number = takeWhile (\<lambda>c. c \<noteq> 0x2f) cursor;
            slash = drop (length number) cursor
        in if slash = [] \<or> number = [] \<or> c_at slash 1 < 0x30 \<or> c_at slash 1 > 0x31 \<or> c_at slash 2 \<noteq> 0 then None
           else if length number \<ge> 12 then None
           else
             (case (parse_decimal number, parse_decimal (drop 1 slash)) of
                (Some first, Some second) \<Rightarrow> if first \<ge> 128 \<or> second > 1 then None else Some (ucast first, ucast second)
              | _ \<Rightarrow> None))"

subsection \<open>Reading a request\<close>

text \<open>
  The bytes received so far go to an array of 4096 bytes. The result is the status with the text before the empty line and the
  bytes behind it.
\<close>

function read_request ::
    "('w, 'a) net_scheme \<Rightarrow> int \<Rightarrow> u8 list \<Rightarrow> 'w \<Rightarrow> ((u8 list \<times> u8 list) option \<times> 'w) option" where
  "read_request net socket header w =
     (if length header < 4095 then
        case n_recv net socket (4095 - length header) w of (got, bs, w) \<Rightarrow>
          if got \<le> 0 then Some (None, w)
          else if length bs \<noteq> nat got \<or> length header + length bs > 4095 then None
          else
            let header = header @ bs; text = takeWhile (\<lambda>c. c \<noteq> 0) header in
            case strstr text end_of_headers of
              Some tail \<Rightarrow>
                let used = length text - length tail in Some (Some (take used header, drop (used + 4) header), w)
            | None \<Rightarrow> read_request net socket header w
      else Some (None, w))"
  by pat_completeness auto
termination by (relation "measure (\<lambda>(net, socket, header, w). 4095 - length header)") auto

declare read_request.simps [simp del]

text \<open>The lines of the headers, up to an empty one.\<close>

function header_lines :: "u8 list \<Rightarrow> u8 list list" where
  "header_lines text =
     (if text = [] then []
      else
        case strstr text crlf of
          None \<Rightarrow> [text]
        | Some tail \<Rightarrow> take (length text - length tail) text # header_lines (drop 2 tail))"
  by pat_completeness auto
termination
proof (relation "measure length", goal_cases)
  case (2 t tail)
  then obtain a b where "t = a @ tail" "tail = crlf @ b" using strstr_Some by blast
  then show ?case by simp
qed simp

declare header_lines.simps [simp del]

record headers =
  x_length :: u64
  x_length_seen :: nat
  x_session_seen :: nat
  x_invalid :: bool
  x_session :: "u8 list"

definition starts_nocase :: "u8 list \<Rightarrow> u8 list \<Rightarrow> bool" where
  "starts_nocase pat s \<longleftrightarrow> map lower (take (length pat) s) = map lower pat"

definition header_line :: "u8 list \<Rightarrow> headers \<Rightarrow> headers" where
  "header_line line x =
     (if starts_nocase (ascii ''Content-Length: '') line then
        let x1 = x\<lparr>x_length_seen := x_length_seen x + 1\<rparr> in
        if x_length_seen x \<noteq> 0 then x1\<lparr>x_invalid := True\<rparr>
        else
          (case parse_decimal (drop 16 line) of
             None \<Rightarrow> x1\<lparr>x_invalid := True\<rparr>
           | Some v \<Rightarrow> x1\<lparr>x_length := v\<rparr>)
      else if starts_nocase (ascii ''X-VCM-Queue: '') line then
        let x1 = x\<lparr>x_session_seen := x_session_seen x + 1\<rparr> in
        if x_session_seen x \<noteq> 0 \<or> length (drop 13 line) \<noteq> 32 then x1\<lparr>x_invalid := True\<rparr>
        else x1\<lparr>x_session := drop 13 line\<rparr>
      else if starts_nocase (ascii ''Transfer-Encoding:'') line then x\<lparr>x_invalid := True\<rparr>
      else x)"

definition parse_headers :: "u8 list \<Rightarrow> headers" where
  "parse_headers text = foldl (\<lambda>x line. header_line line x)
     \<lparr>x_length = 0, x_length_seen = 0, x_session_seen = 0, x_invalid = False, x_session = []\<rparr> (header_lines text)"

subsection \<open>Receiving a file\<close>

definition inbox :: "u8 list" where "inbox = ascii ''ux0:/data/vita-content-manager/wifi''"

definition report :: "('w, 'a) service_scheme \<Rightarrow> int \<Rightarrow> bool \<Rightarrow> int \<Rightarrow> 'w \<Rightarrow> 'w option" where
  "report srv i sidecar error w = do {
     q \<leftarrow> vcm_queue_received i sidecar error (v_queue srv w);
     Some (v_set_queue srv q w)
   }"

function write_loop :: "('w, 'a) service_scheme \<Rightarrow> int \<Rightarrow> u8 list \<Rightarrow> nat \<Rightarrow> 'w \<Rightarrow> bool \<times> 'w" where
  "write_loop srv fd data written w =
     (if written < length data then
        case v_write srv fd (drop written data) w of (result, w) \<Rightarrow>
          if result \<le> 0 then (True, w) else write_loop srv fd data (written + nat result) w
      else (False, w))"
  by pat_completeness auto
termination by (relation "measure (\<lambda>(srv, fd, data, written, w). length data - written)") auto

declare write_loop.simps [simp del]

text \<open>The loop over the body: the count of received bytes and whether it has failed. \<open>first\<close> is the part that came with the headers.\<close>

function receive_loop ::
    "('w, 'a) service_scheme \<Rightarrow> int \<Rightarrow> int \<Rightarrow> int \<Rightarrow> bool \<Rightarrow> nat \<Rightarrow> u8 list \<Rightarrow> nat \<Rightarrow> 'w \<Rightarrow> (nat \<times> bool \<times> 'w) option" where
  "receive_loop srv socket fd item sidecar expected first received w =
     (if \<not> (received < expected \<and> \<not> v_stop srv w \<and> \<not> vcm_queue_cancelled (v_queue srv w)) then Some (received, False, w)
      else do {
        (data, w) \<leftarrow>
          (if received = 0 \<and> first \<noteq> [] then Some (first, w)
           else
             let wanted = min (expected - received) 16384 in
             case n_recv srv socket wanted w of (got, bs, w) \<Rightarrow>
               if got \<le> 0 then Some ([], w) else if length bs \<noteq> nat got \<or> length bs > wanted then None else Some (bs, w));
        if data = [] then Some (received, True, w)
        else do {
          let (failure, w) = write_loop srv fd data 0 w;
          q \<leftarrow> vcm_queue_progress item (of_nat (received + length data)) sidecar (v_queue srv w);
          let w = v_set_queue srv q w;
          if failure then Some (received + length data, True, w)
          else receive_loop srv socket fd item sidecar expected first (received + length data) w
        }
      })"
  by pat_completeness auto
termination
  by (relation "measure (\<lambda>(srv, socket, fd, item, sidecar, expected, first, received, w). expected - received)")
    (auto intro!: diff_less_mono2)

declare receive_loop.simps [simp del]

definition finish_file ::
    "('w, 'a) service_scheme \<Rightarrow> int \<Rightarrow> int \<Rightarrow> int \<Rightarrow> bool \<Rightarrow> u8 list \<Rightarrow> u8 list \<Rightarrow> bool \<Rightarrow> 'w \<Rightarrow> 'w option" where
  "finish_file srv socket fd item sidecar part_path full_path failure w =
     (let (failure, w) = (if failure then (True, w) else let (rc, w) = v_sync_file srv fd w in (rc < 0, w));
          (rc, w) = v_close srv fd w;
          failure = (failure \<or> rc < 0);
          (failure, w) = (if failure then (True, w) else let (rc, w) = v_rename srv part_path full_path w in (rc < 0, w))
      in if failure then
           let w = v_remove srv part_path (v_log srv (ascii ''receive failed'') (- 1) w);
               w = refuse srv socket 500 ''Internal Server Error'' ''Transfer did not complete'' w
           in report srv item sidecar (- 1007) w
         else
           let (status, w) = v_sync srv w;
               w = (if status < 0 then v_log srv (ascii ''sync published upload'') status w else w);
               w = v_log srv (ascii ''receive published'') 0 w
           in do {
             w \<leftarrow> report srv item sidecar (if status < 0 then - 1003 else 0) w;
             Some (respond srv socket 201 (ascii ''Created'')
               (if status < 0 then ascii ''{\"ok\":true,\"state\":\"received\",\"durable\":false}''
                else ascii ''{\"ok\":true,\"state\":\"received\",\"durable\":true}'') w)
           })"

definition receive_file ::
    "('w, 'a) service_scheme \<Rightarrow> int \<Rightarrow> u8 list \<Rightarrow> u64 \<Rightarrow> u8 list \<Rightarrow> 'w \<Rightarrow> 'w option" where
  "receive_file srv socket name expected first w =
     (if expected = 0 \<or> expected > 8 * 1024 * 1024 * 1024 \<or> of_nat (length first) > expected
      then Some (refuse srv socket 413 ''Payload Too Large'' ''Invalid file size'' w)
      else do {
        (item, sidecar, q) \<leftarrow> vcm_queue_find name expected (v_queue srv w);
        let w = v_set_queue srv q w;
        let sidecar = (sidecar = Some True);
        if item < 0 then Some (refuse srv socket 409 ''Conflict'' ''File does not match the active queue'' w)
        else
          case v_devctl srv w of (space, max_size, free_size) \<Rightarrow>
            if space < 0 \<or> free_size < 0 \<or> word_of_int free_size < expected + 8 * 1024 * 1024
            then report srv item sidecar (- 1006) (refuse srv socket 507 ''Insufficient Storage'' ''Not enough Vita storage'' w)
            else
              let full_path = inbox @ ascii ''/'' @ name in
              if length full_path \<ge> 180
              then report srv item sidecar (- 1) (refuse srv socket 400 ''Bad Request'' ''Invalid file name'' w)
              else
                let part_path = take 189 (full_path @ ascii ''.vcm-part'') in
                if dev_stat (v_device srv w) full_path \<noteq> None \<or> dev_stat (v_device srv w) part_path \<noteq> None
                then report srv item sidecar (- 1002) (refuse srv socket 409 ''Conflict'' ''Transfer ID already exists'' w)
                else
                  let (fd, w) = v_open srv part_path Create_New w in
                  if fd < 0 then
                    report srv item sidecar fd (refuse srv socket 500 ''Internal Server Error'' ''Cannot create file''
                      (v_log srv (ascii ''create partial'') fd w))
                  else do {
                    (received, failure, w) \<leftarrow> receive_loop srv socket fd item sidecar (unat expected) first 0 w;
                    finish_file srv socket fd item sidecar part_path full_path (failure \<or> received \<noteq> unat expected) w
                  }
      })"

subsection \<open>The handler\<close>

text \<open>
  The file name of an upload. A local client may name the item by its index in the queue, provided that the path is the canonical one;
  any other path must hold the name itself. The second component says whether the first form was used.
\<close>

definition usb_files_text :: "u32 \<Rightarrow> u32 \<Rightarrow> u8 list" where
  "usb_files_text index sidecar = usb_upload_prefix @ dec_text (unat index) @ ascii ''/'' @ dec_text (unat sidecar)"

definition put_name ::
    "('w, 'a) service_scheme \<Rightarrow> (nat \<Rightarrow> u8) \<Rightarrow> bool \<Rightarrow> u8 list \<Rightarrow> 'w \<Rightarrow> (u8 list option \<times> bool) option" where
  "put_name srv junk is_loopback target w = do {
     usb \<leftarrow>
       (if is_loopback \<and> v_usb_mode srv w then
          (case usb_upload_target target of
             None \<Rightarrow> Some None
           | Some (index, sidecar) \<Rightarrow> do {
               (rc, name, usb_expected) \<leftarrow>
                 vcm_queue_usb_target (uint index) (uint sidecar) (Some (map junk [0..<64])) 64 (Some 0) (v_queue srv w);
               if rc = 0 then do {
                 name \<leftarrow> name;
                 name \<leftarrow> c_string name;
                 Some (if target = take 63 (usb_files_text index sidecar) then Some name else None)
               } else Some None
             })
        else Some None);
     Some (case usb of Some name \<Rightarrow> (Some name, True) | None \<Rightarrow> (upload_name target 64, False))
   }"

text \<open>The rest of the body of a publication, \<^term>\<open>None\<close> when the connection fails.\<close>

function body_loop :: "('w, 'a) net_scheme \<Rightarrow> int \<Rightarrow> nat \<Rightarrow> u8 list \<Rightarrow> 'w \<Rightarrow> (u8 list option \<times> 'w) option" where
  "body_loop net socket len body w =
     (if length body < len then
        case n_recv net socket (len - length body) w of (got, bs, w) \<Rightarrow>
          if got \<le> 0 then Some (None, w)
          else if length bs \<noteq> nat got \<or> length body + length bs > len then None
          else body_loop net socket len (body @ bs) w
      else Some (Some body, w))"
  by pat_completeness auto
termination by (relation "measure (\<lambda>(net, socket, len, body, w). len - length body)") auto

declare body_loop.simps [simp del]

definition publish_queue :: "('w, 'a) service_scheme \<Rightarrow> int \<Rightarrow> u64 \<Rightarrow> u8 list \<Rightarrow> 'w \<Rightarrow> 'w option" where
  "publish_queue srv socket len first w =
     (if len = 0 \<or> len \<ge> 512 * 1024 \<or> of_nat (length first) > len
      then Some (refuse srv socket 413 ''Too Large'' ''Queue too large'' w)
      else do {
        (body, w) \<leftarrow> body_loop srv socket (unat len) first w;
        (case body of
           None \<Rightarrow> Some w
         | Some body \<Rightarrow>
             if 0 \<in> set body then Some (refuse srv socket 400 ''Bad Request'' ''Invalid queue'' w)
             else do {
               (result, q) \<leftarrow> vcm_queue_publish (body @ [0]) (v_queue srv w);
               let w = v_set_queue srv q w;
               Some (if result = 0 then respond srv socket 201 (ascii ''Created'') (ascii ''{\"ok\":true}'') w
                     else if result = - 2 then refuse srv socket 409 ''Rejected'' ''Another transfer is active'' w
                     else refuse srv socket 400 ''Rejected'' ''Invalid queue metadata'' w)
             })
      })"

definition sync_queue_request :: "('w, 'a) service_scheme \<Rightarrow> int \<Rightarrow> 'w \<Rightarrow> 'w option" where
  "sync_queue_request srv socket w = do {
     (result, q) \<leftarrow> vcm_queue_sync (v_queue srv w);
     let w = v_set_queue srv q w;
     Some (if result = 0 then respond srv socket 202 (ascii ''Accepted'') (ascii ''{\"ok\":true}'') w
           else refuse srv socket 409 ''Conflict'' ''Queue is not fully transferred'' w)
   }"

text \<open>The requests that change the queue. \<open>rest\<close> holds the lines behind the request line, \<open>body\<close> what was received behind the headers.\<close>

definition handle_transfer ::
    "('w, 'a) service_scheme \<Rightarrow> (nat \<Rightarrow> u8) \<Rightarrow> int \<Rightarrow> bool \<Rightarrow> u8 list \<Rightarrow> u8 list \<Rightarrow> u8 list \<Rightarrow> 'w \<Rightarrow> 'w option" where
  "handle_transfer srv junk socket is_loopback line rest body w =
     (let usb_publish = (line = ascii ''POST /v2/usb/queue HTTP/1.1'');
          usb_sync = (line = ascii ''POST /v2/usb/sync HTTP/1.1'');
          usb_cancel = (line = ascii ''POST /v2/usb/cancel HTTP/1.1'');
          publish = (line = ascii ''POST /v2/queue HTTP/1.1'' \<or> usb_publish);
          sync = (line = ascii ''POST /v2/sync HTTP/1.1'' \<or> usb_sync);
          cancel = (line = ascii ''POST /v2/cancel HTTP/1.1'' \<or> usb_cancel);
          upload = starts (ascii ''PUT '') line;
          version = strstr (drop 4 line) (ascii '' HTTP/1.1'')
      in if \<not> publish \<and> \<not> sync \<and> \<not> cancel \<and> \<not> upload
         then Some (refuse srv socket 404 ''Not Found'' ''Unknown endpoint'' w)
         else if upload \<and> (case version of None \<Rightarrow> True | Some v \<Rightarrow> c_at v 9 \<noteq> 0)
         then Some (refuse srv socket 400 ''Bad Request'' ''Invalid request line'' w)
         else do {
           let target = (case version of None \<Rightarrow> [] | Some v \<Rightarrow> take (length (drop 4 line) - length v) (drop 4 line));
           (name, usb_upload) \<leftarrow> (if upload then put_name srv junk is_loopback target w else Some (Some [], False));
           (case name of
              None \<Rightarrow> Some (refuse srv socket 400 ''Bad Request'' ''Invalid upload path'' w)
            | Some name \<Rightarrow>
                let x = parse_headers rest;
                    usb_request = (usb_publish \<or> usb_sync \<or> usb_cancel \<or> usb_upload)
                in if x_invalid x then Some (refuse srv socket 400 ''Bad Request'' ''Invalid request headers'' w)
                   else if usb_request \<and> (\<not> is_loopback \<or> \<not> v_usb_mode srv w)
                   then Some (refuse srv socket 403 ''Forbidden'' ''Local USB bridge only'' w)
                   else do {
                     current \<leftarrow>
                       (if \<not> publish \<and> \<not> usb_request then
                          if x_session_seen x \<noteq> 1 then Some False else vcm_queue_matches (x_session x) (v_queue srv w)
                        else Some True);
                     if \<not> current then Some (refuse srv socket 409 ''Conflict'' ''The active queue has changed'' w)
                     else if x_length_seen x \<noteq> 1
                     then Some (refuse srv socket 411 ''Length Required'' ''Content-Length required'' w)
                     else if publish then publish_queue srv socket (x_length x) body w
                     else if sync then sync_queue_request srv socket w
                     else if cancel then
                       Some (respond srv socket 200 (ascii ''OK'') (ascii ''{\"ok\":true}'')
                         (v_set_queue srv (vcm_queue_cancel (v_queue srv w)) w))
                     else receive_file srv socket name (x_length x) body w
                   })
         })"

text \<open>The state of one item of the queue, for a local client.\<close>

definition send_item_status :: "('w, 'a) service_scheme \<Rightarrow> int \<Rightarrow> bool \<Rightarrow> u8 list \<Rightarrow> 'w \<Rightarrow> 'w option" where
  "send_item_status srv socket is_loopback line w =
     (let value = drop 23 line;
          bad = Some (refuse srv socket 400 ''Bad Request'' ''Invalid queue item'' w)
      in if \<not> is_loopback \<or> \<not> v_usb_mode srv w then Some (refuse srv socket 403 ''Forbidden'' ''Local USB bridge only'' w)
         else
           (case strstr value (ascii '' HTTP/1.1'') of
              None \<Rightarrow> bad
            | Some suffix \<Rightarrow>
                let number = take (length value - length suffix) value in
                if c_at suffix 9 \<noteq> 0 \<or> number = [] \<or> length number \<ge> 12 then bad
                else
                  (case parse_decimal number of
                     None \<Rightarrow> bad
                   | Some index \<Rightarrow> if index \<ge> 128 then bad else send_usb_queue_status srv socket (uint index) w)))"

definition send_storage :: "('w, 'a) service_scheme \<Rightarrow> int \<Rightarrow> 'w \<Rightarrow> 'w" where
  "send_storage srv socket w =
     (case ux0_space srv w of (rc, max_size, free_size) \<Rightarrow>
        if rc < 0 then refuse srv socket 500 ''Internal Server Error'' ''ux0 space unavailable'' w
        else respond srv socket 200 (ascii ''OK'') (take 159 (ascii ''{\"capacity\":'' @ dec_text (unat max_size) @ ascii '',\"free\":'' @
          dec_text (unat free_size) @ ascii '',\"used\":'' @ dec_text (unat (max_size - free_size)) @ ascii ''}'')) w)"

text \<open>
  The dispatch on the request line: the reports first, then the requests that change the queue.
\<close>

definition handle_request ::
    "('w, 'a) service_scheme \<Rightarrow> (nat \<Rightarrow> u8) \<Rightarrow> u8 list \<Rightarrow> u8 list \<Rightarrow> VcmMtpSnapshot \<Rightarrow> int \<Rightarrow> bool \<Rightarrow> u8 list \<Rightarrow> u8 list \<Rightarrow>
      u8 list \<Rightarrow> 'w \<Rightarrow> 'w option" where
  "handle_request srv junk slack pad uninit socket is_loopback line rest body w =
     (let local_only = refuse srv socket 403 ''Forbidden'' ''Local USB bridge only'' in
      if line = ascii ''GET /v2/status HTTP/1.1'' then send_status srv socket w
      else if line = ascii ''GET /v2/usb/catalog HTTP/1.1'' then
        if is_loopback \<and> \<not> v_usb_mode srv w then Some (refuse srv socket 409 ''Conflict'' ''USB mode is off'' w)
        else if is_loopback then send_usb_catalog srv junk slack pad uninit socket w
        else Some (local_only w)
      else if line = ascii ''GET /v2/usb/catalog/summary HTTP/1.1'' then send_usb_catalog_summary srv junk slack uninit socket w
      else if line = ascii ''GET /v2/usb/queue/status HTTP/1.1'' then
        if is_loopback \<and> v_usb_mode srv w then send_usb_queue_status srv socket (- 1) w else Some (local_only w)
      else if starts (ascii ''GET /v2/usb/queue/item/'') line then send_item_status srv socket is_loopback line w
      else if line = ascii ''GET /v2/diagnostics/music HTTP/1.1'' then send_music_audit srv junk socket w
      else if line = ascii ''GET /v2/diagnostics/storage HTTP/1.1'' then Some (send_storage srv socket w)
      else if starts (ascii ''GET /v2/usb/thumb/'') line then
        if is_loopback then send_usb_thumbnail srv socket line w else Some (local_only w)
      else if starts (ascii ''GET /v2/library/'') line then send_library srv junk socket line w
      else handle_transfer srv junk socket is_loopback line rest body w)"

definition handle_client ::
    "('w, 'a) service_scheme \<Rightarrow> (nat \<Rightarrow> u8) \<Rightarrow> u8 list \<Rightarrow> u8 list \<Rightarrow> VcmMtpSnapshot \<Rightarrow> int \<Rightarrow> bool \<Rightarrow> 'w \<Rightarrow> 'w option" where
  "handle_client srv junk slack pad uninit socket is_loopback w =
     (let (mode_status, w) = v_blocking srv socket w in
      if mode_status < 0 then Some (v_log srv (ascii ''configure client blocking mode'') mode_status w)
      else do {
        (request, w) \<leftarrow> read_request srv socket [] (n_timeouts srv socket w);
        (case request of
           None \<Rightarrow> Some (refuse srv socket 400 ''Bad Request'' ''Invalid request headers'' w)
         | Some (header, body) \<Rightarrow>
             (case strstr header crlf of
                None \<Rightarrow> Some (refuse srv socket 400 ''Bad Request'' ''Invalid request line'' w)
              | Some line_end \<Rightarrow>
                  handle_request srv junk slack pad uninit socket is_loopback
                    (take (length header - length line_end) header) (drop 2 line_end) body w))
      })"

subsection \<open>Numbers and names\<close>

text \<open>A 64-bit number is read exactly.\<close>

lemma number_step:
  assumes "is_digit c"
  shows "v > (0xffffffffffffffff - ucast (c - 0x30)) div 10 \<longleftrightarrow> \<not> unat (v :: u64) * 10 + (unat c - 0x30) < 2 ^ 64"
    and "unat v * 10 + (unat c - 0x30) < 2 ^ 64 \<Longrightarrow> unat (v * 10 + ucast (c - 0x30)) = unat v * 10 + (unat c - 0x30)"
proof -
  have c: "0x30 \<le> unat c" "unat c \<le> 0x39" using assms by (simp_all add: is_digit_def word_le_nat_alt)
  have d: "unat (ucast (c - 0x30) :: u64) = unat c - 0x30"
    using c by (simp add: unsigned_ucast_eq take_bit_nat_eq_self unat_sub word_le_nat_alt)
  define k where "k = unat c - 0x30"
  have k: "k \<le> 9" using c by (simp add: k_def)
  have "(0xffffffffffffffff :: u64) - ucast (c - 0x30) = of_nat (18446744073709551615 - k)"
    using d k by (simp add: k_def word_unat_eq_iff unat_sub word_le_nat_alt unat_of_nat take_bit_nat_eq_self)
  then have "unat ((0xffffffffffffffff - ucast (c - 0x30 :: u8) :: u64) div 10) = (18446744073709551615 - k) div 10"
    by (simp add: unat_div unat_of_nat take_bit_nat_eq_self)
  then have "v > (0xffffffffffffffff - ucast (c - 0x30)) div 10 \<longleftrightarrow> (18446744073709551615 - k) div 10 < unat v"
    by (simp add: word_less_nat_alt)
  also have "\<dots> \<longleftrightarrow> \<not> unat v * 10 + k < 2 ^ 64" using k by (simp add: div_less_iff_less_mult) arith
  finally show "v > (0xffffffffffffffff - ucast (c - 0x30)) div 10 \<longleftrightarrow> \<not> unat v * 10 + (unat c - 0x30) < 2 ^ 64"
    by (simp add: k_def)
  show "unat (v * 10 + ucast (c - 0x30)) = unat v * 10 + (unat c - 0x30)" if "unat v * 10 + (unat c - 0x30) < 2 ^ 64"
    using that d by (simp add: unat_word_ariths)
qed

lemma number_loop_exact:
  "number_loop v s = (if list_all is_digit s \<and> digits_value (unat v) s < 2 ^ 64 then Some (of_nat (digits_value (unat v) s)) else None)"
proof (induction s arbitrary: v)
  case Nil
  then show ?case using unsigned_less [of v, where ?'a = nat] by simp
next
  case (Cons c s)
  show ?case
  proof (cases "is_digit c \<and> unat v * 10 + (unat c - 0x30) < 2 ^ 64")
    case True
    then have "unat (v * 10 + ucast (c - 0x30)) = unat v * 10 + (unat c - 0x30)" using number_step(2) by blast
    moreover have "number_loop v (c # s) = number_loop (v * 10 + ucast (c - 0x30)) s"
      using True number_step(1) [of c v] by simp
    ultimately show ?thesis using Cons True by simp
  next
    case False
    then have "number_loop v (c # s) = None" using number_step(1) [of c v] by auto
    moreover have "\<not> (is_digit c \<and> digits_value (unat v) (c # s) < 2 ^ 64)"
      using False digits_value_ge [of "unat v * 10 + (unat c - 0x30)" s] by auto
    ultimately show ?thesis by auto
  qed
qed

lemma parse_decimal_text: "n < 2 ^ 64 \<Longrightarrow> parse_decimal (dec_text n) = Some (of_nat n)"
  using dec_text_digits [of n] by (simp add: parse_decimal_def dec_text_nonempty number_loop_exact dec_text_value)

text \<open>A name that cannot leave the inbox: 32 hexadecimal digits, a dot, and an extension of the list.\<close>

definition safe_name :: "u8 list \<Rightarrow> bool" where
  "safe_name name \<longleftrightarrow> length name > 32 \<and> list_all lower_hex (take 32 name) \<and> name ! 32 = 0x2e \<and> drop 33 name \<in> set allowed_extensions"

lemma allowed_extensions_length: "e \<in> set allowed_extensions \<Longrightarrow> 3 \<le> length e \<and> length e \<le> 4"
  by (auto simp: allowed_extensions_def)

lemma upload_name_iff:
  "upload_name target capacity = Some name \<longleftrightarrow> target = upload_prefix @ name \<and> safe_name name \<and> length name < capacity"
proof -
  have l: "36 \<le> length name" if "safe_name name" for name
    using that allowed_extensions_length [of "drop 33 name"] by (auto simp: safe_name_def)
  show ?thesis
  proof
    assume u: "upload_name target capacity = Some name"
    then have s: "starts upload_prefix target" by (simp add: upload_name_def split: if_splits)
    then obtain v where t: "target = upload_prefix @ v" by (auto simp: starts_iff)
    then have "upload_name target capacity = (if length v < 36 \<or> v ! 32 \<noteq> 0x2e then None
        else if \<not> list_all lower_hex (take 32 v) then None
        else if drop 33 v \<notin> set allowed_extensions then None
        else if length v < capacity then Some v else None)"
      by (simp add: upload_name_def)
    with u have "name = v" "\<not> length v < 36" "v ! 32 = 0x2e" "list_all lower_hex (take 32 v)" "drop 33 v \<in> set allowed_extensions" "length v < capacity"
      by (auto split: if_splits)
    then show "target = upload_prefix @ name \<and> safe_name name \<and> length name < capacity" by (simp add: t safe_name_def)
  next
    assume "target = upload_prefix @ name \<and> safe_name name \<and> length name < capacity"
    then show "upload_name target capacity = Some name" using l [of name] by (simp add: upload_name_def safe_name_def)
  qed
qed

lemma safe_name_chars: "safe_name name \<Longrightarrow> 0x2f \<notin> set name \<and> 0x5c \<notin> set name \<and> 0x3a \<notin> set name \<and> length name \<le> 37"
proof -
  assume s: "safe_name name"
  then have n: "name = take 32 name @ [0x2e] @ drop 33 name" using id_take_nth_drop [of 32 name] by (simp add: safe_name_def)
  have "0x2f \<notin> set (take 32 name)" "0x5c \<notin> set (take 32 name)" "0x3a \<notin> set (take 32 name)"
    using s by (auto simp: safe_name_def list_all_iff lower_hex_def)
  moreover have "0x2f \<notin> set e \<and> 0x5c \<notin> set e \<and> 0x3a \<notin> set e" if "e \<in> set allowed_extensions" for e
    using that by (auto simp: allowed_extensions_def)
  then have "0x2f \<notin> set (drop 33 name)" "0x5c \<notin> set (drop 33 name)" "0x3a \<notin> set (drop 33 name)"
    using s by (auto simp: safe_name_def)
  moreover have "length name \<le> 37" using s allowed_extensions_length [of "drop 33 name"] by (auto simp: safe_name_def)
  ultimately show ?thesis by (subst n, subst (2) n, subst (3) n) simp
qed

text \<open>The path of an item's file on the local bridge.\<close>

lemma usb_path_read:
  assumes "index < 128" and "sidecar \<le> 1"
  shows "usb_upload_target (usb_files_text index sidecar) = Some (index, sidecar)"
proof -
  have i: "unat index < 128" "unat sidecar \<le> 1" using assms by (simp_all add: word_less_nat_alt word_le_nat_alt)
  have nd: "c \<noteq> 0x2f" if "c \<in> set (dec_text n)" for c n
    using that dec_text_digits [of n] by (auto simp: list_all_iff is_digit_def)
  have tw: "takeWhile (\<lambda>c. c \<noteq> 0x2f) (dec_text (unat index) @ 0x2f # r) = dec_text (unat index)" for r
    using nd by (subst takeWhile_append2) auto
  have len: "length (dec_text (unat index)) \<le> 3" using i by (intro dec_text_length) simp_all
  have d01: "dec_text 0 = [0x30]" "dec_text (Suc 0) = [0x31]" by (simp_all add: dec_text.simps)
  have s01: "unat sidecar = 0 \<or> unat sidecar = 1" using i(2) by linarith
  have p: "parse_decimal (dec_text (unat index)) = Some (of_nat (unat index))" "parse_decimal (dec_text (unat sidecar)) = Some (of_nat (unat sidecar))"
    by (rule parse_decimal_text, use i in simp)+
  have c: "ucast (of_nat (unat index) :: u64) = index" "ucast (of_nat (unat sidecar) :: u64) = sidecar"
    "\<not> (of_nat (unat index) :: u64) \<ge> 128" "\<not> (of_nat (unat sidecar) :: u64) > 1"
    using i by (simp_all add: word_unat_eq_iff unsigned_ucast_eq unat_of_nat take_bit_nat_eq_self word_le_nat_alt word_less_nat_alt take_bit_word_eq_self)
  have t: "usb_files_text index sidecar = usb_upload_prefix @ dec_text (unat index) @ 0x2f # dec_text (unat sidecar)"
    by (simp add: usb_files_text_def)
  have v: "c_at (0x2f # dec_text (unat sidecar)) 1 = 0x30 \<or> c_at (0x2f # dec_text (unat sidecar)) 1 = 0x31"
    "c_at (0x2f # dec_text (unat sidecar)) 2 = 0"
    using s01 by (auto simp: c_at_def d01)
  show ?thesis
    unfolding t usb_upload_target_def Let_def
    using tw len p c v dec_text_nonempty [of "unat index"] by auto
qed

end
