(* ===== verification/Wifi_Safety.thy ===== *)
theory Wifi_Safety
  imports Wifi_Service Queue_System
begin

text \<open>
  The network service is a client of the transfer queue. Every request, however malformed, is handled without a fault, and its effect on the queue is
  a sequence of steps of \<open>Queue_System\<close> that ends with no upload in progress, while the other threads go on working between the calls of the
  system.
\<close>

subsection \<open>The host of the service\<close>

text \<open>The identifier that the status report prints fits its array.\<close>

definition tidy :: "sync_queue \<Rightarrow> bool" where
  "tidy q \<longleftrightarrow> length (i_id (queue q)) = 33"

text \<open>The calls of the system leave the queue alone, except that the other threads may take their steps.\<close>

definition quiet :: "('w, 'a) service_scheme \<Rightarrow> 'w \<Rightarrow> 'w \<Rightarrow> bool" where
  "quiet srv w w' \<longleftrightarrow> (\<forall>s. reachable s \<longrightarrow> shared s = v_queue srv w \<longrightarrow> tidy (shared s) \<longrightarrow>
     (\<exists>s'. step\<^sup>*\<^sup>* s s' \<and> upload s' = upload s \<and> shared s' = v_queue srv w' \<and> tidy (shared s')))"

text \<open>The queue system reached from \<open>s0\<close>, with upload \<open>u\<close> in progress.\<close>

definition tracked :: "('w, 'a) service_scheme \<Rightarrow> system \<Rightarrow> (nat \<times> bool) option \<Rightarrow> 'w \<Rightarrow> bool" where
  "tracked srv s0 u w \<longleftrightarrow> (\<exists>s. step\<^sup>*\<^sup>* s0 s \<and> upload s = u \<and> shared s = v_queue srv w \<and> tidy (shared s))"

text \<open>What the handlers rely on: the documented results of the calls, and rows of the databases that hold C strings.\<close>

definition service_host :: "('w, 'a) service_scheme \<Rightarrow> bool" where
  "service_host srv \<longleftrightarrow>
     (\<forall>q w. v_queue srv (v_set_queue srv q w) = q) \<and>
     (\<forall>socket w. quiet srv w (n_timeouts srv socket w)) \<and>
     (\<forall>socket n w. case n_recv srv socket n w of (got, bs, w') \<Rightarrow> quiet srv w w' \<and> (0 < got \<longrightarrow> length bs = nat got \<and> length bs \<le> n)) \<and>
     (\<forall>socket data w. quiet srv w (snd (n_send srv socket data w))) \<and>
     (\<forall>n w. case v_malloc srv n w of (r, w') \<Rightarrow> quiet srv w w' \<and> (\<forall>d. r = Some d \<longrightarrow> length d = n)) \<and>
     (\<forall>w. quiet srv w (v_free srv w)) \<and>
     (\<forall>path mode w. quiet srv w (snd (v_open srv path mode w))) \<and>
     (\<forall>fd n w. case v_read srv fd n w of (got, bs, w') \<Rightarrow> quiet srv w w' \<and> length bs \<le> n \<and> got \<le> int (length bs)) \<and>
     (\<forall>fd data w. quiet srv w (snd (v_write srv fd data w))) \<and>
     (\<forall>fd w. quiet srv w (snd (v_close srv fd w))) \<and>
     (\<forall>fd w. quiet srv w (snd (v_sync_file srv fd w))) \<and>
     (\<forall>p q w. quiet srv w (snd (v_rename srv p q w))) \<and>
     (\<forall>p w. quiet srv w (v_remove srv p w)) \<and>
     (\<forall>w. quiet srv w (snd (v_sync srv w))) \<and>
     (\<forall>event status w. quiet srv w (v_log srv event status w)) \<and>
     (\<forall>socket w. quiet srv w (snd (v_blocking srv socket w))) \<and>
     (\<forall>w. quiet srv w (v_set_served srv w)) \<and>
     (\<forall>w. device_ok (v_device srv w) \<and> stat_ok (dev_stat (v_device srv w))) \<and>
     (\<forall>kind ident w. paths_ok (v_path srv kind ident w)) \<and>
     (\<forall>kind offset limit w row. Some row \<in> set (sql_steps (v_list srv kind offset limit w)) \<longrightarrow> list_row_ok row) \<and>
     (\<forall>w ident v. Some (ident, v) \<in> set (sql_steps (v_tracks srv w)) \<longrightarrow> text_ok v)"

lemma reachable_steps: "step\<^sup>*\<^sup>* s s' \<Longrightarrow> reachable s \<Longrightarrow> reachable s'"
  by (induction rule: rtranclp_induct) (auto intro: later)

lemma quiet_refl [simp]: "quiet srv w w"
  unfolding quiet_def by blast

lemma quiet_trans [trans]: "quiet srv w w' \<Longrightarrow> quiet srv w' w'' \<Longrightarrow> quiet srv w w''"
  unfolding quiet_def by (metis reachable_steps rtranclp_trans)

lemma tracked_quiet:
  assumes "reachable s0" and "tracked srv s0 u w" and "quiet srv w w'"
  shows "tracked srv s0 u w'"
proof -
  obtain s where s: "step\<^sup>*\<^sup>* s0 s" "upload s = u" "shared s = v_queue srv w" "tidy (shared s)"
    using assms(2) by (auto simp: tracked_def)
  then obtain s' where "step\<^sup>*\<^sup>* s s'" "upload s' = upload s" "shared s' = v_queue srv w'" "tidy (shared s')"
    using assms(3) reachable_steps [OF s(1) assms(1)] unfolding quiet_def by blast
  with s show ?thesis unfolding tracked_def by (metis rtranclp_trans)
qed

lemma tracked_inv:
  assumes "reachable s0" and "tracked srv s0 u w"
  shows "\<exists>s. reachable s \<and> system_inv s \<and> upload s = u \<and> shared s = v_queue srv w \<and> tidy (shared s) \<and> step\<^sup>*\<^sup>* s0 s"
  using assms reachable_steps reachable_inv unfolding tracked_def by blast

text \<open>The laws of the host, one for each call.\<close>

lemma host_calls:
  assumes "service_host srv"
  shows host_queue: "v_queue srv (v_set_queue srv q w) = q"
    and host_timeouts: "quiet srv w (n_timeouts srv socket w)"
    and host_recv: "n_recv srv socket n w = (got, bs, w') \<Longrightarrow> quiet srv w w' \<and> (0 < got \<longrightarrow> length bs = nat got \<and> length bs \<le> n)"
    and host_send: "n_send srv socket data w = (sent, w') \<Longrightarrow> quiet srv w w'"
    and host_malloc: "v_malloc srv n w = (r, w') \<Longrightarrow> quiet srv w w' \<and> (\<forall>d. r = Some d \<longrightarrow> length d = n)"
    and host_free: "quiet srv w (v_free srv w)"
    and host_open: "v_open srv path mode w = (fd, w') \<Longrightarrow> quiet srv w w'"
    and host_read: "v_read srv fd n w = (got, bs, w') \<Longrightarrow> quiet srv w w' \<and> length bs \<le> n \<and> got \<le> int (length bs)"
    and host_write: "v_write srv fd data w = (sent, w') \<Longrightarrow> quiet srv w w'"
    and host_close: "v_close srv fd w = (rc, w') \<Longrightarrow> quiet srv w w'"
    and host_sync_file: "v_sync_file srv fd w = (rc, w') \<Longrightarrow> quiet srv w w'"
    and host_rename: "v_rename srv p q' w = (rc, w') \<Longrightarrow> quiet srv w w'"
    and host_remove: "quiet srv w (v_remove srv p w)"
    and host_sync: "v_sync srv w = (rc, w') \<Longrightarrow> quiet srv w w'"
    and host_log: "quiet srv w (v_log srv event status w)"
    and host_blocking: "v_blocking srv socket w = (rc, w') \<Longrightarrow> quiet srv w w'"
    and host_served: "quiet srv w (v_set_served srv w)"
    and host_device: "device_ok (v_device srv w)" "stat_ok (dev_stat (v_device srv w))"
    and host_paths: "paths_ok (v_path srv kind ident w)"
    and host_rows: "Some row \<in> set (sql_steps (v_list srv kind offset limit w)) \<Longrightarrow> list_row_ok row"
    and host_tracks: "Some (i, v) \<in> set (sql_steps (v_tracks srv w)) \<Longrightarrow> text_ok v"
  using assms unfolding service_host_def by (auto split: prod.splits; metis snd_conv)+

subsection \<open>Sending\<close>

lemma send_all_loop_quiet:
  fixes srv :: "('w, 'a) service_scheme"
  assumes h: "service_host srv"
  shows "send_all_loop srv socket data offset w = (rc, w') \<Longrightarrow> quiet srv w w'"
proof (induction "length data - offset" arbitrary: offset w rule: less_induct)
  case less
  show ?case
  proof (cases "offset < length data")
    case False
    then show ?thesis using less.prems by (simp add: send_all_loop.simps)
  next
    case True
    obtain sent w1 where n: "n_send srv socket (drop offset data) w = (sent, w1)" by (cases "n_send srv socket (drop offset data) w")
    note q = host_send [OF h n]
    show ?thesis
    proof (cases "sent \<le> 0")
      case True
      then show ?thesis using less.prems n q by (subst (asm) send_all_loop.simps) (simp split: if_splits)
    next
      case False
      then have "send_all_loop srv socket data (offset + nat sent) w1 = (rc, w')"
        using less.prems n True by (subst (asm) send_all_loop.simps) simp
      from less.hyps [OF _ this] have "quiet srv w1 w'" using False True by simp
      with q show ?thesis by (rule quiet_trans)
    qed
  qed
qed

lemma send_all_quiet: "service_host srv \<Longrightarrow> send_all srv socket data w = (rc, w') \<Longrightarrow> quiet srv w w'"
  unfolding send_all_def by (rule send_all_loop_quiet)

lemma send_all_quiet' [intro]: "service_host srv \<Longrightarrow> quiet srv w (snd (send_all srv socket data w))"
  by (cases "send_all srv socket data w") (auto dest: send_all_quiet)

lemma respond_quiet [intro]: "service_host srv \<Longrightarrow> quiet srv w (respond srv socket status reason json w)"
  unfolding respond_def Let_def by (auto intro: quiet_trans)

lemma refuse_quiet [intro]: "service_host srv \<Longrightarrow> quiet srv w (refuse srv socket status reason message w)"
  unfolding refuse_def by (rule respond_quiet)

lemma respond_binary_quiet [intro]: "service_host srv \<Longrightarrow> quiet srv w (respond_binary srv socket body w)"
  unfolding respond_binary_def Let_def by (auto intro: quiet_trans send_all_quiet split: prod.split)

lemma send_chunk_quiet:
  assumes "service_host srv"
  shows "\<exists>rc w'. send_chunk srv socket w data = Some (rc, w') \<and> quiet srv w w'"
proof -
  obtain rc1 w1 where 1: "send_all srv socket (hex_text (length data) @ crlf) w = (rc1, w1)" by fastforce
  obtain rc2 w2 where 2: "send_all srv socket data w1 = (rc2, w2)" by fastforce
  obtain rc3 w3 where 3: "send_all srv socket crlf w2 = (rc3, w3)" by fastforce
  note q = 1 [THEN send_all_quiet [OF assms]] 2 [THEN send_all_quiet [OF assms]] 3 [THEN send_all_quiet [OF assms]]
  show ?thesis
    using q(1) quiet_trans [OF q(1,2)] quiet_trans [OF quiet_trans [OF q(1,2)] q(3)]
    by (simp add: send_chunk_def Let_def 1 2 3)
qed

subsection \<open>Reports on the queue\<close>

text \<open>A handler that only looks: it returns, and the queue sees nothing but the other threads.\<close>

definition looks :: "('w, 'a) service_scheme \<Rightarrow> 'w \<Rightarrow> 'w option \<Rightarrow> bool" where
  "looks srv w r \<longleftrightarrow> (\<exists>w'. r = Some w' \<and> quiet srv w w')"

lemma looksI [intro]: "quiet srv w w' \<Longrightarrow> looks srv w (Some w')"
  by (simp add: looks_def)

lemma looks_after: "quiet srv w w1 \<Longrightarrow> looks srv w1 r \<Longrightarrow> looks srv w r"
  unfolding looks_def by (blast intro: quiet_trans)

lemma looks_refuse [intro]: "service_host srv \<Longrightarrow> quiet srv w w1 \<Longrightarrow> looks srv w (Some (refuse srv socket status reason message w1))"
  by (blast intro: quiet_trans)

lemma looks_respond [intro]: "service_host srv \<Longrightarrow> quiet srv w w1 \<Longrightarrow> looks srv w (Some (respond srv socket status reason json w1))"
  by (blast intro: quiet_trans)

lemma looks_if: "looks srv w a \<Longrightarrow> looks srv w b \<Longrightarrow> looks srv w (if c then a else b)"
  by simp

lemma looks_option: "looks srv w a \<Longrightarrow> (\<And>x. looks srv w (f x)) \<Longrightarrow> looks srv w (case r of None \<Rightarrow> a | Some x \<Rightarrow> f x)"
  by (cases r) simp_all

lemma queue_item_total:
  assumes "shape_ok q"
  shows "\<exists>rc item. vcm_queue_item k q = Some (rc, item) \<and> (item = None \<longrightarrow> rc < 0)"
  using assms by (auto simp: vcm_queue_item_def item_at_def shape_ok_def)

lemma usb_status_looks:
  assumes h: "service_host srv" and "shape_ok (v_queue srv w)"
  shows "looks srv w (send_usb_queue_status srv socket k w)"
proof -
  obtain rc item where "vcm_queue_item k (v_queue srv w) = Some (rc, item)" "item = None \<longrightarrow> rc < 0"
    using queue_item_total [OF assms(2)] by blast
  then show ?thesis using h by (auto simp: send_usb_queue_status_def split: option.split)
qed

lemma c_int_text_length: "length (c_int_text i) \<le> 11"
  unfolding c_int_text_def
  using sint_ge [of "word_of_int i :: 32 word"] sint_lt [of "word_of_int i :: 32 word"] by (intro int_text_length) simp_all

lemma status_items_total:
  assumes sh: "shape_ok s" and ok: "list_all item_ok (live s)"
    and "\<forall>i \<in> set is. i < length (live s)" and "length text + 90 * length is < 32768"
  shows "\<exists>t. status_items s is text = Some t"
  using assms(3,4)
proof (induction "is" arbitrary: "text")
  case (Cons i "is")
  have i: "i < length (live s)" using Cons.prems by simp
  let ?x = "live s ! i"
  have it: "vcm_queue_item (int i) s = Some (0, Some ?x)"
    using item_access [OF sh i] i length_live [OF sh] by (simp add: vcm_queue_item_def)
  have "item_ok ?x" using ok i by (simp add: list_all_length)
  then obtain d where d: "id_valid d" "q_id ?x = d @ [0]" by (auto simp: item_ok_def item_valid_def holds_id_def)
  have dl: "length d = 32" using d(1) by (simp add: id_valid_iff)
  define t where "t = text @ (if i = 0 then [] else ascii '','') @ ascii ''{\"id\":\"'' @ d @ ascii ''\",\"state\":'' @
       dec_text (unat (state_code (q_state ?x))) @ ascii '',\"error\":'' @ c_int_text (q_error ?x) @ ascii ''}''"
  have "unat (state_code st) < 10 ^ 1" for st by (cases st) (simp_all add: state_code_def)
  then have "length (dec_text (unat (state_code (q_state ?x)))) \<le> 1" by (rule dec_text_length) simp
  then have l: "length t \<le> length text + 90" using c_int_text_length [of "q_error ?x"] dl by (cases "i = 0") (simp_all add: t_def)
  have "status_items s (i # is) text = (if length t < 32768 then status_items s is t else None)"
    using d by (simp add: it c_string_id t_def)
  moreover have "\<exists>u. status_items s is t = Some u" using Cons.prems l by (intro Cons.IH) simp_all
  moreover have "length t < 32768" using Cons.prems(2) l by simp
  ultimately show ?case by simp
qed simp

lemma tidy_id: "tidy q \<Longrightarrow> c_string (i_id (queue q)) = Some t \<Longrightarrow> length t \<le> 32"
  using c_string_short [of "i_id (queue q)" t] by (simp add: tidy_def)

lemma status_looks:
  assumes h: "service_host srv" and "reachable s0" and "tracked srv s0 u w"
  shows "looks srv w (send_status srv socket w)"
proof -
  let ?q = "v_queue srv w"
  obtain s where s: "system_inv s" "shared s = ?q" "tidy (shared s)" using tracked_inv [OF assms(2,3)] by blast
  then have sh: "shape_ok ?q" and ok: "list_all item_ok (live ?q)" by (simp_all add: system_inv_def)
  obtain d where d: "c_string (i_id (queue ?q)) = Some d" using sh by (auto simp: shape_ok_def c_string_def)
  have dl: "length d \<le> 32" using tidy_id [OF _ d] s by simp
  have n: "nat (i_count (queue ?q)) = length (live ?q)" "length (live ?q) \<le> 128"
    using length_live [OF sh] sh by (auto simp: shape_ok_def)
  define t where "t = ascii ''{\"service\":\"vita-content-manager\",\"version\":2,\"video_folders\":true,\"library_export\":true,\"queue\":\"'' @
          d @ ascii ''\",\"count\":'' @ c_int_text (i_count (queue ?q)) @ ascii '',\"imported\":'' @ c_int_text (i_imported (queue ?q)) @
          ascii '',\"failed\":'' @ c_int_text (i_failed (queue ?q)) @ ascii '',\"syncing\":'' @ bool_text (i_syncing (queue ?q)) @
          ascii '',\"cancelled\":'' @ bool_text (i_cancelled (queue ?q)) @ ascii '',\"transferred\":'' @ dec_text (unat (i_transferred (queue ?q))) @
          ascii '',\"total\":'' @ dec_text (unat (i_total (queue ?q))) @ ascii '',\"items\":[''"
  have "length (c_int_text (i_count (queue ?q))) \<le> 11" "length (c_int_text (i_imported (queue ?q))) \<le> 11"
    "length (c_int_text (i_failed (queue ?q))) \<le> 11" "length (bool_text (i_syncing (queue ?q))) \<le> 11"
    "length (bool_text (i_cancelled (queue ?q))) \<le> 11"
    unfolding bool_text_def by (rule c_int_text_length)+
  moreover have "length (dec_text (unat (i_transferred (queue ?q)))) \<le> 20" "length (dec_text (unat (i_total (queue ?q)))) \<le> 20"
    by (rule dec_text_u64 [OF u64_less])+
  ultimately have tl: "length t \<le> 1000" using dl
    unfolding t_def length_append ascii_def length_map by simp
  obtain u where u: "status_items ?q [0..<nat (i_count (queue ?q))] t = Some u"
    using status_items_total [OF sh ok, of "[0..<nat (i_count (queue ?q))]" t] tl n by auto
  then have "send_status srv socket w = Some (respond srv socket 200 (ascii ''OK'') (take 32767 (u @ ascii '']}'')) w)"
    using tl unfolding send_status_def Let_def vcm_queue_info_def d Option.bind.simps t_def [symmetric] u by (simp del: ascii_simps)
  then show ?thesis using h by auto
qed

subsection \<open>The catalogue\<close>

text \<open>The bytes of the catalogue's array that are sent.\<close>

lemma catalog_memory:
  assumes "catalog_wf c" and "length pad = 5"
  shows "\<exists>es. c_entries c = Some es \<and> 1120 * unat (c_count c) \<le> length (entries_memory pad es) \<and>
    take (1120 * unat (c_count c)) (entries_memory pad es) = entries_memory pad (visible c) \<and>
    list_all entry_shape (visible c) \<and> length (visible c) = unat (c_count c)"
proof -
  obtain es where es: "c_entries c = Some es" "c_count c \<le> c_capacity c" "unat (c_capacity c) \<le> length es"
    using assms(1) by (auto simp: catalog_wf_def)
  have n: "unat (c_count c) \<le> length es" using es(2,3) by (simp add: word_le_nat_alt)
  have v: "visible c = take (unat (c_count c)) es" using es(1) by (simp add: visible_def)
  have sh: "list_all entry_shape (visible c)"
    using assms(1) by (auto simp: catalog_wf_def list_all_length entry_wf_def entry_strings_ok_def entry_shape_def)
  have len: "length (visible c) = unat (c_count c)" using n by (simp add: v)
  have "es = visible c @ drop (unat (c_count c)) es" by (simp add: v)
  then have split: "entries_memory pad es = entries_memory pad (visible c) @ entries_memory pad (drop (unat (c_count c)) es)"
    unfolding entries_memory_def by (metis concat_append map_append)
  have "length (entries_memory pad (visible c)) = 1120 * unat (c_count c)"
    using entries_roundtrip(2) [OF sh assms(2)] len by simp
  then show ?thesis using es(1) sh len split by simp
qed

lemma small_catalog:
  assumes "unat (c_capacity c) = entries_needed dev" and "allocates dev" and "catalog_wf c"
  shows "unat (c_count c * 1120) = 1120 * unat (c_count c)" and "unat (32 + c_count c * 1120) = 32 + 1120 * unat (c_count c)"
proof -
  have n: "unat (c_count c) * 1120 \<le> 25165824"
    using assms by (auto simp: allocates_def catalog_wf_def word_le_nat_alt)
  then show 1: "unat (c_count c * 1120) = 1120 * unat (c_count c)" by (simp add: unat_word_ariths)
  show "unat (32 + c_count c * 1120) = 32 + 1120 * unat (c_count c)"
    using n by (simp add: unat_word_ariths(1) 1)
qed

lemma destroy_quiet [intro]: "service_host srv \<Longrightarrow> quiet srv w (destroy_snapshot srv s w)"
  by (auto simp: destroy_snapshot_def intro: host_free)

lemma catalog_looks:
  assumes h: "service_host srv" and "2 \<le> length slack" and "length pad = 5"
  shows "looks srv w (send_usb_catalog srv junk slack pad uninit socket w)"
proof -
  obtain rc s freed where b: "vcm_mtp_snapshot_build (v_device srv w) junk slack (Some uninit) = Some (rc, Some s, freed)"
    and r: "if rc = 0
     then catalog_inv (sn_catalog s) \<and> sn_allocation s \<noteq> None \<and> freed = 0 \<and> allocates (v_device srv w) \<and>
       unat (c_capacity (sn_catalog s)) = entries_needed (v_device srv w)
     else rc = - 1 \<and> s = no_snapshot \<and> freed = (if allocates (v_device srv w) then 1 else 0)"
    using snapshot_build_spec [OF host_device(1) [OF h] assms(2)] by blast
  show ?thesis
  proof (cases "rc = 0")
    case False
    then show ?thesis using r b h by (auto simp: send_usb_catalog_def)
  next
    case True
    let ?c = "sn_catalog s"
    have wf: "catalog_wf ?c" and sz: "unat (c_count ?c * 1120) = 1120 * unat (c_count ?c)"
      using r True small_catalog by (simp_all add: catalog_inv_def)
    obtain es where es: "c_entries ?c = Some es" "1120 * unat (c_count ?c) \<le> length (entries_memory pad es)"
      using catalog_memory [OF wf assms(3)] by blast
    obtain rc2 mx fr where sp: "ux0_space srv w = (rc2, mx, fr)" by (cases "ux0_space srv w")
    have q: "quiet srv w w'" if "send_all srv socket data w = (rc3, w')" for data rc3 w w'
      using send_all_quiet [OF h that] .
    show ?thesis
    proof (cases "rc2 < 0")
      case True
      then show ?thesis using \<open>rc = 0\<close> b sp h by (auto simp: send_usb_catalog_def)
    next
      case False
      define header where "header = \<lparr>h_magic = 0x434d4356, h_version = 3, h_count = c_count ?c, h_entry_size = 1120,
              h_max_size = mx, h_free_size = fr\<rparr>"
      define w' where "w' = (if request_fits 192 (catalog_reply_header (32 + c_count ?c * 1120)) then
                let (rc, w) = send_all srv socket (catalog_reply_header (32 + c_count ?c * 1120)) w in
                if rc = 0 then
                  let (rc, w) = send_all srv socket (header_bytes header) w in
                  if rc = 0 then
                    let (rc, w) = send_all srv socket (take (1120 * unat (c_count ?c)) (entries_memory pad es)) w in
                    if rc = 0 then v_set_served srv w else w
                  else w
                else w
              else w)"
      have "quiet srv w w'"
        unfolding w'_def by (auto split: prod.split dest!: q intro: quiet_trans)
        (meson quiet_trans host_served [OF h])
      moreover have "send_usb_catalog srv junk slack pad uninit socket w = Some (destroy_snapshot srv s w')"
        unfolding w'_def header_def sz [symmetric] using \<open>rc = 0\<close> False b sp es sz
        by (simp add: send_usb_catalog_def Let_def)
      ultimately show ?thesis using h by (auto intro: quiet_trans)
    qed
  qed
qed

lemma summary_looks:
  assumes h: "service_host srv" and "2 \<le> length slack"
  shows "looks srv w (send_usb_catalog_summary srv junk slack uninit socket w)"
proof -
  obtain rc s freed where b: "vcm_mtp_snapshot_build (v_device srv w) junk slack (Some uninit) = Some (rc, Some s, freed)"
    and r: "if rc = 0 then catalog_inv (sn_catalog s) else rc = - 1"
    using snapshot_build_spec [OF host_device(1) [OF h] assms(2), of w junk uninit] by (auto split: if_splits)
  show ?thesis
  proof (cases "rc = 0")
    case False
    then show ?thesis using r b h by (auto simp: send_usb_catalog_summary_def)
  next
    case True
    then have "catalog_wf (sn_catalog s)" using r by (simp add: catalog_inv_def)
    then obtain es where "c_entries (sn_catalog s) = Some es" "unat (c_count (sn_catalog s)) \<le> length es"
      by (auto simp: catalog_wf_def word_le_nat_alt)
    then show ?thesis using True b h by (auto simp: send_usb_catalog_summary_def Let_def)
  qed
qed

subsection \<open>Thumbnails, downloads and pages\<close>

lemma thumbnail_looks:
  assumes h: "service_host srv"
  shows "looks srv w (send_usb_thumbnail srv socket line w)"
proof -
  have bad: "looks srv w (Some (refuse srv socket 400 ''Bad Request'' ''Invalid thumbnail ID'' w))" using h by auto
  show ?thesis
  proof (cases "strstr (drop 18 line) (ascii '' HTTP/1.1'')")
    case None
    then show ?thesis using bad by (simp add: send_usb_thumbnail_def Let_def del: ascii_simps)
  next
    case (Some tail)
    define number where "number = take (length (drop 18 line) - length tail) (drop 18 line)"
    show ?thesis
    proof (cases "\<not> (c_at tail 9 \<noteq> 0 \<or> number = [] \<or> length number > 20) \<and> (\<exists>i. parse_library_number number = Some i \<and> i \<noteq> 0)")
      case False
      then show ?thesis
        using bad unfolding send_usb_thumbnail_def Let_def Some option.case number_def [symmetric]
        by (auto split: option.split simp del: ascii_simps)
    next
      case True
      then obtain i where i: "parse_library_number number = Some i" "i \<noteq> 0" by blast
      obtain d w1 where d: "v_malloc srv 65536 w = (d, w1)" by fastforce
      obtain b w2 where b: "v_malloc srv (256 * 256 * 3 + 54) w1 = (b, w2)" by fastforce
      note q = host_malloc [OF h d] host_malloc [OF h b]
      have q2: "quiet srv w w2" using q by (blast intro: quiet_trans)
      have unf: "send_usb_thumbnail srv socket line w = (case (d, b) of
                           (Some d, Some b) \<Rightarrow> do {
                             (dds_size, dds) \<leftarrow> vcm_library_photo_icon i (v_icon srv i w2) (Some d) 65536;
                             (bmp_size, bmp) \<leftarrow>
                               (if dds_size > 0 then vcm_mtp_dxt1_dds_to_bmp dds (word_of_int dds_size) (Some b) (256 * 256 * 3 + 54)
                                else Some (- 1, Some b));
                             let w = v_free srv w2;
                             if bmp_size < 0 then Some (refuse srv socket 404 ''Not Found'' ''Thumbnail unavailable'' (v_free srv w))
                             else do {
                               data \<leftarrow> bmp;
                               let response = ascii ''HTTP/1.1 200 OK'' @ crlf @ ascii ''Content-Type: image/bmp'' @ crlf @
                                 ascii ''Content-Length: '' @ int_text bmp_size @ crlf @ ascii ''Connection: close'' @ crlf @ crlf;
                               if length data < nat bmp_size then None
                               else
                                 Some (v_free srv
                                   (if request_fits 192 response then
                                      let (rc, w) = send_all srv socket response w in
                                      if rc = 0 then snd (send_all srv socket (take (nat bmp_size) data) w) else w
                                    else w))
                             }
                           }
                         | _ \<Rightarrow>
                             let w = (if d \<noteq> None then v_free srv w2 else w2);
                                 w = (if b \<noteq> None then v_free srv w else w)
                             in Some (refuse srv socket 500 ''Internal Server Error'' ''No thumbnail memory'' w))"
        using True i d b unfolding send_usb_thumbnail_def Let_def Some option.case number_def [symmetric] by simp
      show ?thesis
      proof (cases "d = None \<or> b = None")
        case True
        then show ?thesis unfolding unf using h q2 host_free [OF h]
          by (auto simp: Let_def split: option.split intro!: looks_refuse intro: quiet_trans)
      next
        case False
        then obtain da ba where db: "d = Some da" "b = Some ba" by auto
        have l: "length da = 65536" "length ba = 256 * 256 * 3 + 54" using q db by auto
        obtain n dds where ic: "vcm_library_photo_icon i (v_icon srv i w2) (Some da) 65536 = Some (n, Some dds)" "length dds = 65536" "n \<le> 65536"
          using photo_icon_total [of 65536 da] l by fastforce
        have "\<exists>m bmp. (if n > 0 then vcm_mtp_dxt1_dds_to_bmp (Some dds) (word_of_int n) (Some ba) (256 * 256 * 3 + 54)
            else Some (- 1, Some ba)) = Some (m, Some bmp) \<and> length bmp = length ba \<and> m \<le> int (length ba)"
        proof (cases "0 < n")
          case True
          have u: "unat (word_of_int n :: u32) \<le> length dds"
            using True ic(2,3) by (simp add: unat_eq_nat_uint uint_word_of_int)
          have "unat (256 * 256 * 3 + 54 :: u32) \<le> length ba" using l(2) by simp
          from dds_to_bmp_spec [OF u this] obtain m bmp where mb:
            "vcm_mtp_dxt1_dds_to_bmp (Some dds) (word_of_int n) (Some ba) (256 * 256 * 3 + 54) = Some (m, Some bmp)" "length bmp = length ba"
            "m = - 1 \<or> (\<exists>x y. dds_valid dds (unat (word_of_int n :: u32)) x y \<and> m = int (54 + 3 * x * y))"
            by (auto split: if_splits)
          have le: "x * y \<le> 65536" if "dds_valid dds (unat (word_of_int n :: u32)) x y" for x y
            using that small_product by (simp add: dds_valid_def)
          have "m \<le> int (length ba)"
          proof (cases "m = - 1")
            case False
            then obtain x y where xy: "dds_valid dds (unat (word_of_int n :: u32)) x y" "m = int (54 + 3 * x * y)" using mb(3) by blast
            have "54 + 3 * (x * y) \<le> length ba" using le [OF xy(1)] l(2) by simp
            then show ?thesis using xy(2) by (simp only: mult.assoc of_nat_le_iff)
          qed simp
          then show ?thesis using mb(1,2) True by auto
        qed simp
        then obtain m bmp where mb: "(if n > 0 then vcm_mtp_dxt1_dds_to_bmp (Some dds) (word_of_int n) (Some ba) (256 * 256 * 3 + 54)
            else Some (- 1, Some ba)) = Some (m, Some bmp)" "length bmp = length ba" "m \<le> int (length ba)" by blast
        show ?thesis
        proof (cases "m < 0")
          case True
          have "quiet srv w (v_free srv (v_free srv w2))" using q2 host_free [OF h] by (meson quiet_trans)
          with True show ?thesis unfolding unf db using ic(1) mb h by (auto intro!: looks_refuse)
        next
          case False
          define response where "response = ascii ''HTTP/1.1 200 OK'' @ crlf @ ascii ''Content-Type: image/bmp'' @ crlf @
             ascii ''Content-Length: '' @ int_text m @ crlf @ ascii ''Connection: close'' @ crlf @ crlf"
          define w3 where "w3 = (if request_fits 192 response then
                                      let (rc, w) = send_all srv socket response (v_free srv w2) in
                                      if rc = 0 then snd (send_all srv socket (take (nat m) bmp) w) else w
                                    else v_free srv w2)"
          have "\<not> length bmp < nat m" using mb(2,3) by simp
          then have r: "send_usb_thumbnail srv socket line w = Some (v_free srv w3)"
            unfolding unf db option.case prod.case ic(1) Option.bind.simps mb(1) Let_def response_def [symmetric] w3_def using False
            by (simp add: Let_def)
          have "quiet srv (v_free srv w2) w3"
            unfolding w3_def Let_def using h by (auto split: prod.split dest: send_all_quiet [OF h] intro: quiet_trans)
          then show ?thesis
            unfolding r using q2 host_free [OF h] by (meson looksI quiet_trans)
        qed
      qed
    qed
  qed
qed

lemma file_loop_looks:
  fixes srv :: "('w, 'a) service_scheme"
  assumes h: "service_host srv" and "16384 \<le> length chunk"
  shows "looks srv w (file_loop srv socket fd chunk remaining w)"
  using assms(2)
proof (induction remaining arbitrary: chunk w rule: less_induct)
  case (less remaining)
  show ?case
  proof (cases "remaining = 0")
    case True
    then show ?thesis by (subst file_loop.simps) auto
  next
    case False
    obtain got bs w1 where rd: "v_read srv fd (min remaining 16384) w = (got, bs, w1)"
      by (cases "v_read srv fd (min remaining 16384) w") auto
    have r: "quiet srv w w1" "length bs \<le> min remaining 16384" "got \<le> int (length bs)"
      using host_read [OF h rd] by auto
    let ?c = "bs @ drop (length bs) chunk"
    show ?thesis
    proof (cases "got \<le> 0")
      case True
      then show ?thesis using False rd r less.prems by (subst file_loop.simps) auto
    next
      case pos: False
      obtain rc w2 where sd: "send_all srv socket (take (nat got) ?c) w1 = (rc, w2)" by fastforce
      note q = send_all_quiet [OF h sd]
      have ok: "\<not> length bs > length chunk" "\<not> (nat got > length ?c \<or> nat got > remaining)" "remaining - nat got < remaining"
        "16384 \<le> length ?c"
        using r pos less.prems False by auto
      have "file_loop srv socket fd chunk remaining w =
          (if rc < 0 then Some w2 else file_loop srv socket fd ?c (remaining - nat got) w2)"
        using False pos ok(1,2) by (subst file_loop.simps) (simp add: rd sd Let_def del: take_append)
      moreover have "looks srv w2 (file_loop srv socket fd ?c (remaining - nat got) w2)"
        by (rule less.IH [OF ok(3,4)])
      ultimately show ?thesis using r(1) q by (auto intro: looks_after quiet_trans)
    qed
  qed
qed

lemma library_file_looks:
  assumes h: "service_host srv"
  shows "looks srv w (send_library_file srv junk socket kind ident sidecar w)"
proof (cases "ident > 0x7fffffffffffffff")
  case True
  then show ?thesis using h by (auto simp: send_library_file_def)
next
  case False
  define k where "k = (if sidecar then VCM_LIBRARY_VIDEO else kind)"
  have ln: "length (map junk [0..<1024]) = 1024" "(32 :: nat) \<le> 1024" by simp_all
  obtain rc out where rs: "(if sidecar then vcm_library_resolve_sidecar (v_path srv k ident w) (Some (map junk [0..<1024])) 1024
           else vcm_library_resolve k (v_path srv k ident w) (Some (map junk [0..<1024])) 1024) = Some (rc, Some out)"
    "rc \<in> {0, - 1}" "rc = 0 \<longrightarrow> (\<exists>p. c_string out = Some p)"
  proof (cases sidecar)
    case True
    obtain rc out where "vcm_library_resolve_sidecar (v_path srv k ident w) (Some (map junk [0..<1024])) 1024 = Some (rc, Some out)"
      "rc \<in> {0, - 1}" "rc = 0 \<longrightarrow> (\<exists>p. c_string out = Some p)"
      using resolve_sidecar_total [OF host_paths [OF h, of k ident w] ln(2,1)] by blast
    then show ?thesis using True by (intro that) simp_all
  next
    case False
    obtain rc out where "vcm_library_resolve k (v_path srv k ident w) (Some (map junk [0..<1024])) 1024 = Some (rc, Some out)"
      "rc \<in> {0, - 1}" "rc = 0 \<longrightarrow> (\<exists>p. c_string out = Some p)"
      using resolve_total [OF host_paths [OF h, of k ident w] ln(2,1)] by blast
    then show ?thesis using False by (intro that) simp_all
  qed
  show ?thesis
  proof (cases "rc < 0")
    case True
    then show ?thesis
      using h False unfolding send_library_file_def Let_def k_def [symmetric] rs(1) by auto
  next
    case ok: False
    then obtain p where p: "c_string out = Some p" using rs(2,3) by auto
    show ?thesis
    proof (cases "\<exists>stat. dev_stat (v_device srv w) p = Some stat \<and> 0 < st_size stat")
      case False
      then show ?thesis
        using h ok \<open>\<not> ident > 0x7fffffffffffffff\<close> p unfolding send_library_file_def Let_def k_def [symmetric] rs(1)
        by (auto split: option.split)
    next
      case True
      then obtain stat where st: "dev_stat (v_device srv w) p = Some stat" "0 < st_size stat" by blast
      obtain fd w1 where op: "v_open srv p Read_Only w = (fd, w1)" by fastforce
      note q1 = host_open [OF h op]
      define header where "header = ascii ''HTTP/1.1 200 OK'' @ crlf @ ascii ''Content-Type: application/octet-stream'' @ crlf @
                         ascii ''Content-Length: '' @ dec_text (nat (st_size stat)) @ crlf @ ascii ''Connection: close'' @ crlf @ crlf"
      obtain rc2 w2 where sd: "(if request_fits 220 header then send_all srv socket header w1 else (- 1, w1)) = (rc2, w2)" by fastforce
      have q2: "quiet srv w1 w2" using sd send_all_quiet [OF h] by (auto split: if_splits)
      have "looks srv w2 (file_loop srv socket fd (map junk [0..<16384]) (nat (st_size stat)) w2)"
        by (rule file_loop_looks [OF h]) simp
      then obtain w3 where w3: "(if rc2 = 0 then file_loop srv socket fd (map junk [0..<16384]) (nat (st_size stat)) w2 else Some w2) = Some w3"
        "quiet srv w2 w3"
        by (cases "rc2 = 0") (auto simp: looks_def)
      obtain rc4 w4 where cl: "v_close srv fd w3 = (rc4, w4)" by fastforce
      have q: "quiet srv w w4" using q1 q2 w3(2) host_close [OF h cl] by (blast intro: quiet_trans)
      have "send_library_file srv junk socket kind ident sidecar w =
        (if fd < 0 then Some (refuse srv socket 404 ''Not Found'' ''Media file unavailable'' w1) else Some w4)"
        unfolding send_library_file_def k_def [symmetric] Let_def rs(1) Option.bind.simps prod.case if_not_P [OF ok]
          if_not_P [OF \<open>\<not> ident > 0x7fffffffffffffff\<close>] p st(1) option.case header_def [symmetric] op sd w3(1) cl
        using st(2) by simp
      then show ?thesis using h q q1 by auto
    qed
  qed
qed

lemma page_looks:
  assumes h: "service_host srv"
  shows "looks srv w (send_page srv junk socket kind icons rest w)"
proof -
  have bad: "looks srv w (Some (refuse srv socket 400 ''Bad Request'' ''Invalid page'' w))" using h by auto
  show ?thesis
  proof (cases "starts (ascii ''offset='') rest \<and> (\<exists>sep. strstr (drop 7 rest) (ascii ''&limit='') = Some sep \<and>
      (\<exists>a b. parse_library_number (take (length (drop 7 rest) - length sep) (drop 7 rest)) = Some a \<and>
        parse_library_number (drop 7 sep) = Some b \<and> a \<le> 1000000 \<and> b \<ge> 1 \<and> b \<le> 32))")
    case False
    then show ?thesis
      using bad unfolding send_page_def Let_def by (auto split: option.split simp del: ascii_simps)
  next
    case True
    then obtain sep a b where g: "starts (ascii ''offset='') rest" "strstr (drop 7 rest) (ascii ''&limit='') = Some sep"
      "parse_library_number (take (length (drop 7 rest) - length sep) (drop 7 rest)) = Some a"
      "parse_library_number (drop 7 sep) = Some b" "a \<le> 1000000" "b \<ge> 1" "b \<le> 32" by blast
    show ?thesis
    proof (cases icons)
      case True
      obtain rc w1 where sd: "send_all srv socket icons_header w = (rc, w1)" by fastforce
      note q1 = send_all_quiet [OF h sd]
      have wr: "\<exists>rc c'. send_chunk srv socket c d = Some (rc, c') \<and> quiet srv w1 c'" if "quiet srv w1 c" for c d
        using send_chunk_quiet [OF h, of socket c d] that by (blast intro: quiet_trans)
      obtain rc2 w2 where ic: "vcm_library_photo_icons (uint a) (uint b) (v_icons srv (uint a) (uint b) w1) (Some (send_chunk srv socket)) w1
          = Some (rc2, w2)" "quiet srv w1 w2"
        using photo_icons_keeps [of "quiet srv w1" "send_chunk srv socket", OF wr quiet_refl] by blast
      have "send_page srv junk socket kind icons rest w =
        Some (if rc = 0 then if rc2 = 0 then snd (send_all srv socket (ascii ''0'' @ crlf @ crlf) w2) else w2 else w1)"
        using g True sd ic(1) unfolding send_page_def Let_def by (simp del: ascii_simps)
      then show ?thesis using h q1 ic(2) by (auto intro: quiet_trans)
    next
      case False
      have ua: "0 \<le> uint a" "uint a + uint b < 2 ^ 31" using g(5,7) by (simp_all add: word_le_def)
      have "256 \<le> (32768 :: nat)" "length (map junk [0..<32768]) = 32768" by simp_all
      from library_list_total [OF host_device(2) [OF h] _ this ua] host_rows [OF h] obtain rc out where
        li: "vcm_library_list kind (uint a) (uint b) (dev_stat (v_device srv w)) (v_list srv kind (uint a) (uint b) w) junk
          (Some (map junk [0..<32768])) 32768 = Some (rc, Some out)" "0 \<le> rc \<longrightarrow> (\<exists>t. c_string out = Some t)"
        by blast
      have "send_page srv junk socket kind icons rest w =
         (if rc < 0 then Some (refuse srv socket 500 ''Internal Server Error'' ''Could not read the Vita media library'' w)
          else do { text \<leftarrow> c_string out; Some (respond srv socket 200 (ascii ''OK'') text w) })"
        using g False li(1) unfolding send_page_def Let_def by (simp del: ascii_simps upt_Suc)
      then show ?thesis using li(2) h by (auto intro!: looks_respond looks_refuse simp del: ascii_simps)
    qed
  qed
qed

lemma library_looks: "service_host srv \<Longrightarrow> looks srv w (send_library srv junk socket line w)"
  unfolding send_library_def Let_def
  by (intro looks_option looks_if looks_refuse page_looks library_file_looks quiet_refl)

lemma audit_looks:
  assumes h: "service_host srv"
  shows "looks srv w (send_music_audit srv junk socket w)"
proof -
  have "256 \<le> (256 :: nat)" "length (map junk [0..<256]) = 256" by simp_all
  from audit_total [OF _ this] host_tracks [OF h] obtain rc out where
    "vcm_library_audit_music (v_audit srv w) (v_tracks srv w) junk (Some (map junk [0..<256])) 256 = Some (rc, Some out)"
    "0 \<le> rc \<longrightarrow> (\<exists>t. c_string out = Some t)" by blast
  then show ?thesis using h by (auto simp: send_music_audit_def simp del: upt_Suc ascii_simps intro!: looks_respond looks_refuse)
qed

lemma storage_quiet: "service_host srv \<Longrightarrow> quiet srv w (send_storage srv socket w)"
  unfolding send_storage_def by (auto split: prod.split)

lemma item_status_looks:
  assumes "service_host srv" and "shape_ok (v_queue srv w)"
  shows "looks srv w (send_item_status srv socket is_loopback line w)"
  unfolding send_item_status_def Let_def using assms
  by (intro looks_option looks_if looks_refuse usb_status_looks quiet_refl)

subsection \<open>Requests that change the queue\<close>

text \<open>A handler that starts and ends with no upload in progress.\<close>

definition drives :: "('w, 'a) service_scheme \<Rightarrow> system \<Rightarrow> 'w option \<Rightarrow> bool" where
  "drives srv s0 r \<longleftrightarrow> (\<exists>w'. r = Some w' \<and> tracked srv s0 None w')"

lemma drives_looks:
  assumes "reachable s0" and "tracked srv s0 None w" and "looks srv w r"
  shows "drives srv s0 r"
  using assms(3) tracked_quiet [OF assms(1,2)] by (auto simp: looks_def drives_def)

lemma drives_if: "drives srv s0 a \<Longrightarrow> drives srv s0 b \<Longrightarrow> drives srv s0 (if c then a else b)"
  by simp

lemma drives_quiet:
  assumes "reachable s0" and "drives srv s0 (Some w)" and "quiet srv w w'"
  shows "drives srv s0 (Some w')"
  using assms(2) tracked_quiet [OF assms(1) _ assms(3)] by (auto simp: drives_def)

lemma tracked_step:
  assumes "reachable s0" and "tracked srv s0 u w"
    and "\<And>s. reachable s \<Longrightarrow> system_inv s \<Longrightarrow> upload s = u \<Longrightarrow> shared s = v_queue srv w \<Longrightarrow> tidy (shared s) \<Longrightarrow>
      \<exists>s'. step s s' \<and> upload s' = u' \<and> shared s' = q \<and> tidy q"
    and "v_queue srv w' = q"
  shows "tracked srv s0 u' w'"
proof -
  obtain s where s: "reachable s" "system_inv s" "upload s = u" "shared s = v_queue srv w" "tidy (shared s)" "step\<^sup>*\<^sup>* s0 s"
    using tracked_inv [OF assms(1,2)] by blast
  then obtain s' where "step s s'" "upload s' = u'" "shared s' = q" "tidy q" using assms(3) by blast
  with s(6) assms(4) show ?thesis unfolding tracked_def by (metis rtranclp.rtrancl_into_rtrancl)
qed

lemma tracked_facts:
  assumes "reachable s0" and "tracked srv s0 u w"
  shows "shape_ok (v_queue srv w)" and "list_all item_ok (live (v_queue srv w))" and "upload_ok u (live (v_queue srv w))"
  using tracked_inv [OF assms] by (auto simp: system_inv_def)

lemma find_tracked:
  assumes h: "service_host srv" and r: "reachable s0" and t: "tracked srv s0 None w" and "size0 \<noteq> 0"
  shows "\<exists>i sidecar q. vcm_queue_find name size0 (v_queue srv w) = Some (i, sidecar, q) \<and>
    tracked srv s0 (if i < 0 then None else Some (nat i, sidecar = Some True)) (v_set_queue srv q w)"
proof -
  obtain i sc q where f: "vcm_queue_find name size0 (v_queue srv w) = Some (i, sc, q)"
    "q = v_queue srv w \<or> (\<exists>xs. q = (v_queue srv w)\<lparr>items := xs, queue := bump (queue (v_queue srv w))\<rparr>)"
    using find_spec [OF tracked_facts(1,2) [OF r t], of name size0] by (auto split: if_splits)
  have "tracked srv s0 (if i < 0 then None else Some (nat i, sc = Some True)) (v_set_queue srv q w)"
  proof (rule tracked_step [OF r t _ host_queue [OF h]])
    fix s :: system assume s: "reachable s" "upload s = None" "shared s = v_queue srv w" "tidy (shared s)"
    from step.find [OF s(2) assms(4)] f(1) s(3)
    have "step s (s\<lparr>shared := q, upload := (if i < 0 then None else Some (nat i, sc = Some True))\<rparr>)" by simp
    moreover have "tidy q" using f(2) s(3,4) by (auto simp: tidy_def)
    ultimately show "\<exists>s'. step s s' \<and> upload s' = (if i < 0 then None else Some (nat i, sc = Some True)) \<and> shared s' = q \<and> tidy q"
      by (intro exI [of _ "s\<lparr>shared := q, upload := (if i < 0 then None else Some (nat i, sc = Some True))\<rparr>"] conjI) simp_all
  qed
  with f(1) show ?thesis by blast
qed

lemma progress_tracked:
  assumes h: "service_host srv" and r: "reachable s0" and t: "tracked srv s0 (Some (i, sidecar)) w"
  shows "\<exists>q. vcm_queue_progress (int i) n sidecar (v_queue srv w) = Some q \<and> tracked srv s0 (Some (i, sidecar)) (v_set_queue srv q w)"
proof -
  obtain s where "system_inv s" "upload s = Some (i, sidecar)" "shared s = v_queue srv w" using tracked_inv [OF r t] by blast
  with progress_total obtain q where q: "vcm_queue_progress (int i) n sidecar (v_queue srv w) = Some q" by metis
  have "tracked srv s0 (Some (i, sidecar)) (v_set_queue srv q w)"
  proof (rule tracked_step [OF r t _ host_queue [OF h]])
    fix s :: system assume s: "upload s = Some (i, sidecar)" "shared s = v_queue srv w" "tidy (shared s)"
    have "tidy q" using q s by (auto simp: tidy_def vcm_queue_progress_def Let_def set_item_def split: bind_splits if_splits)
    with step.progress [OF s(1), of n q] q s show "\<exists>s'. step s s' \<and> upload s' = Some (i, sidecar) \<and> shared s' = q \<and> tidy q"
      by (intro exI [of _ "s\<lparr>shared := q\<rparr>"] conjI) simp_all
  qed
  with q show ?thesis by blast
qed

lemma received_tracked:
  assumes h: "service_host srv" and r: "reachable s0" and t: "tracked srv s0 (Some (i, sidecar)) w"
  shows "drives srv s0 (report srv (int i) sidecar error w)"
proof -
  have "i < length (live (v_queue srv w))" using tracked_facts(3) [OF r t] by (simp add: upload_ok_def)
  note acc = item_access [OF tracked_facts(1) [OF r t] this]
  then have "vcm_queue_received (int i) sidecar error (v_queue srv w) \<noteq> None"
    by (simp add: vcm_queue_received_def Let_def)
  then obtain q where q: "vcm_queue_received (int i) sidecar error (v_queue srv w) = Some q" by blast
  have "tracked srv s0 None (v_set_queue srv q w)"
  proof (rule tracked_step [OF r t _ host_queue [OF h]])
    fix s :: system assume s: "upload s = Some (i, sidecar)" "shared s = v_queue srv w" "tidy (shared s)"
    have "i_id (queue q) = i_id (queue (v_queue srv w))"
      using q by (auto simp: vcm_queue_received_def Let_def acc split: if_splits)
    then have "tidy q" using s by (simp add: tidy_def)
    with step.received [OF s(1), of error q] q s show "\<exists>s'. step s s' \<and> upload s' = None \<and> shared s' = q \<and> tidy q"
      by (intro exI [of _ "s\<lparr>shared := q, upload := None\<rparr>"] conjI) simp_all
  qed
  with q show ?thesis by (simp add: report_def drives_def)
qed

lemma publish_tracked:
  assumes h: "service_host srv" and r: "reachable s0" and t: "tracked srv s0 None w" and "0 \<in> set body"
  shows "\<exists>status q. vcm_queue_publish body (v_queue srv w) = Some (status, q) \<and> tracked srv s0 None (v_set_queue srv q w)"
proof -
  have "length (items (v_queue srv w)) = VCM_QUEUE_MAX" using tracked_facts(1) [OF r t] by (simp add: shape_ok_def)
  from publish_spec [OF assms(4) this] obtain st q where q: "vcm_queue_publish body (v_queue srv w) = Some (st, q)"
    "q = v_queue srv w \<or> queue_accepted (v_queue srv w) q" by metis
  have "tracked srv s0 None (v_set_queue srv q w)"
  proof (rule tracked_step [OF r t _ host_queue [OF h]])
    fix s :: system assume s: "upload s = None" "shared s = v_queue srv w" "tidy (shared s)"
    have "tidy q" if "queue_accepted (v_queue srv w) q"
    proof -
      from that have "\<exists>i. id_valid i \<and> i_id (queue q) = i @ [0]"
        unfolding queue_accepted_def by (elim exE conjE) (metis VcmQueueInfo.select_convs(10))
      then show ?thesis by (auto simp: tidy_def id_valid_iff)
    qed
    then have "tidy q" using q(2) s by auto
    with step.publish [OF s(1) assms(4), of st q] q(1) s show "\<exists>s'. step s s' \<and> upload s' = None \<and> shared s' = q \<and> tidy q"
      by (intro exI [of _ "s\<lparr>shared := q\<rparr>"] conjI) simp_all
  qed
  with q show ?thesis by blast
qed

lemma sync_tracked:
  assumes h: "service_host srv" and r: "reachable s0" and t: "tracked srv s0 None w"
  shows "\<exists>status q. vcm_queue_sync (v_queue srv w) = Some (status, q) \<and> tracked srv s0 None (v_set_queue srv q w)"
proof -
  obtain st q where q: "vcm_queue_sync (v_queue srv w) = Some (st, q)" "i_id (queue q) = i_id (queue (v_queue srv w))"
    using sync_spec [OF tracked_facts(1) [OF r t]] by (auto split: if_splits)
  have "tracked srv s0 None (v_set_queue srv q w)"
  proof (rule tracked_step [OF r t _ host_queue [OF h]])
    fix s :: system assume s: "upload s = None" "shared s = v_queue srv w" "tidy (shared s)"
    with step.sync [OF s(1), of st q] q show "\<exists>s'. step s s' \<and> upload s' = None \<and> shared s' = q \<and> tidy q"
      by (intro exI [of _ "s\<lparr>shared := q\<rparr>"] conjI) (simp_all add: tidy_def)
  qed
  with q show ?thesis by blast
qed

lemma cancel_tracked:
  assumes h: "service_host srv" and r: "reachable s0" and t: "tracked srv s0 None w"
  shows "tracked srv s0 None (v_set_queue srv (vcm_queue_cancel (v_queue srv w)) w)"
proof (rule tracked_step [OF r t _ host_queue [OF h]])
  fix s :: system assume s: "upload s = None" "shared s = v_queue srv w" "tidy (shared s)"
  with step.cancel [of s] show "\<exists>s'. step s s' \<and> upload s' = None \<and> shared s' = vcm_queue_cancel (v_queue srv w) \<and>
      tidy (vcm_queue_cancel (v_queue srv w))"
    by (intro exI [of _ "s\<lparr>shared := vcm_queue_cancel (shared s)\<rparr>"] conjI) (simp_all add: tidy_def vcm_queue_cancel_def)
qed

lemma write_loop_quiet:
  fixes srv :: "('w, 'a) service_scheme"
  assumes h: "service_host srv"
  shows "write_loop srv fd data n w = (rc, w') \<Longrightarrow> quiet srv w w'"
proof (induction "length data - n" arbitrary: n w rule: less_induct)
  case less
  show ?case
  proof (cases "n < length data")
    case False
    then show ?thesis using less.prems by (simp add: write_loop.simps)
  next
    case True
    obtain sent w1 where wr: "v_write srv fd (drop n data) w = (sent, w1)" by fastforce
    note q = host_write [OF h wr]
    show ?thesis
    proof (cases "sent \<le> 0")
      case True
      then show ?thesis using less.prems wr q by (subst (asm) write_loop.simps) (simp split: if_splits)
    next
      case False
      then have "write_loop srv fd data (n + nat sent) w1 = (rc, w')"
        using less.prems wr True by (subst (asm) write_loop.simps) simp
      from less.hyps [OF _ this] have "quiet srv w1 w'" using False True by simp
      with q show ?thesis by (rule quiet_trans)
    qed
  qed
qed

lemma receive_loop_tracked:
  fixes srv :: "('w, 'a) service_scheme"
  assumes h: "service_host srv" and r: "reachable s0"
  shows "tracked srv s0 (Some (i, sidecar)) w \<Longrightarrow>
    \<exists>n failed w'. receive_loop srv socket fd (int i) sidecar expected first received w = Some (n, failed, w') \<and>
      tracked srv s0 (Some (i, sidecar)) w'"
proof (induction "expected - received" arbitrary: received w rule: less_induct)
  case less
  show ?case
  proof (cases "received < expected \<and> \<not> v_stop srv w \<and> \<not> vcm_queue_cancelled (v_queue srv w)")
    case False
    then show ?thesis using less.prems by (subst receive_loop.simps) auto
  next
    case True
    define src where "src = (if received = 0 \<and> first \<noteq> [] then Some (first, w)
           else
             let wanted = min (expected - received) 16384 in
             case n_recv srv socket wanted w of (got, bs, w) \<Rightarrow>
               if got \<le> 0 then Some ([], w) else if length bs \<noteq> nat got \<or> length bs > wanted then None else Some (bs, w))"
    obtain data w1 where d: "src = Some (data, w1)" "quiet srv w w1"
    proof (cases "received = 0 \<and> first \<noteq> []")
      case True
      then show ?thesis by (intro that [of first w]) (simp_all add: src_def)
    next
      case False
      obtain got bs w1 where rv: "n_recv srv socket (min (expected - received) 16384) w = (got, bs, w1)"
        by (cases "n_recv srv socket (min (expected - received) 16384) w") auto
      note rc = host_recv [OF h rv]
      show ?thesis
      proof (cases "got \<le> 0")
        case True
        then show ?thesis using False rv rc by (intro that [of "[]" w1]) (auto simp: src_def Let_def)
      next
        case pos: False
        then show ?thesis using False rv rc by (intro that [of bs w1]) (auto simp: src_def Let_def)
      qed
    qed
    have unf: "receive_loop srv socket fd (int i) sidecar expected first received w =
      (if data = [] then Some (received, True, w1)
       else do {
          let (failure, w) = write_loop srv fd data 0 w1;
          q \<leftarrow> vcm_queue_progress (int i) (of_nat (received + length data)) sidecar (v_queue srv w);
          let w = v_set_queue srv q w;
          if failure then Some (received + length data, True, w)
          else receive_loop srv socket fd (int i) sidecar expected first (received + length data) w
        })"
      using True d(1) unfolding src_def by (subst receive_loop.simps) (simp add: Let_def)
    have t1: "tracked srv s0 (Some (i, sidecar)) w1" using tracked_quiet [OF r less.prems d(2)] .
    show ?thesis
    proof (cases "data = []")
      case True
      then have "receive_loop srv socket fd (int i) sidecar expected first received w = Some (received, True, w1)"
        unfolding unf by simp
      with t1 show ?thesis by blast
    next
      case False
      obtain failure w2 where wl: "write_loop srv fd data 0 w1 = (failure, w2)" by fastforce
      have t2: "tracked srv s0 (Some (i, sidecar)) w2" using tracked_quiet [OF r t1 write_loop_quiet [OF h wl]] .
      obtain q where q: "vcm_queue_progress (int i) (of_nat (received + length data)) sidecar (v_queue srv w2) = Some q"
        "tracked srv s0 (Some (i, sidecar)) (v_set_queue srv q w2)"
        using progress_tracked [OF h r t2, of "of_nat (received + length data)"] by blast
      have "expected - (received + length data) < expected - received" using False True by (simp add: diff_less_mono2)
      from less.hyps [OF this q(2)] show ?thesis
        unfolding unf using False wl q by (auto simp: Let_def simp del: of_nat_add)
    qed
  qed
qed

lemma finish_file_drives:
  assumes h: "service_host srv" and r: "reachable s0" and t: "tracked srv s0 (Some (i, sidecar)) w"
  shows "drives srv s0 (finish_file srv socket fd (int i) sidecar p f failure w)"
proof -
  obtain failure1 w1 where 1: "(if failure then (True, w) else let (rc, w) = v_sync_file srv fd w in (rc < 0, w)) = (failure1, w1)" by fastforce
  have q1: "quiet srv w w1" using 1 host_sync_file [OF h] by (cases failure) (auto split: prod.splits)
  obtain rc w2 where 2: "v_close srv fd w1 = (rc, w2)" by fastforce
  define failure2 where "failure2 = (failure1 \<or> rc < 0)"
  obtain failure3 w3 where 3: "(if failure2 then (True, w2) else let (rc, w) = v_rename srv p f w2 in (rc < 0, w)) = (failure3, w3)" by fastforce
  have q3: "quiet srv w2 w3" using 3 host_rename [OF h] by (cases failure2) (auto split: prod.splits)
  have q: "quiet srv w w3" using q1 host_close [OF h 2] q3 by (meson quiet_trans)
  have t3: "tracked srv s0 (Some (i, sidecar)) w3" using tracked_quiet [OF r t q] .
  show ?thesis
  proof (cases failure3)
    case True
    define w5 where "w5 = refuse srv socket 500 ''Internal Server Error'' ''Transfer did not complete'' (v_remove srv p (v_log srv (ascii ''receive failed'') (- 1) w3))"
    have "quiet srv w3 w5" unfolding w5_def by (meson quiet_trans host_log [OF h] host_remove [OF h] refuse_quiet [OF h])
    from received_tracked [OF h r tracked_quiet [OF r t3 this], of "- 1007"]
    show ?thesis using True unfolding finish_file_def Let_def 1 [unfolded Let_def] prod.case 2 failure2_def [symmetric] 3 [unfolded Let_def] w5_def by simp
  next
    case False
    obtain st w4 where 4: "v_sync srv w3 = (st, w4)" by fastforce
    define w5 where "w5 = v_log srv (ascii ''receive published'') 0
       (if st < 0 then v_log srv (ascii ''sync published upload'') st w4 else w4)"
    have "quiet srv w4 w5" unfolding w5_def by (cases "st < 0") (auto intro: quiet_trans host_log [OF h])
    with host_sync [OF h 4] have "quiet srv w3 w5" by (rule quiet_trans)
    from received_tracked [OF h r tracked_quiet [OF r t3 this], of "if st < 0 then - 1003 else 0"]
    obtain w6 where w6: "report srv (int i) sidecar (if st < 0 then - 1003 else 0) w5 = Some w6" "tracked srv s0 None w6"
      by (auto simp: drives_def)
    have "finish_file srv socket fd (int i) sidecar p f failure w = Some (respond srv socket 201 (ascii ''Created'')
               (if st < 0 then ascii ''{\"ok\":true,\"state\":\"received\",\"durable\":false}''
                else ascii ''{\"ok\":true,\"state\":\"received\",\"durable\":true}'') w6)"
      using False unfolding finish_file_def Let_def 1 [unfolded Let_def] prod.case 2 failure2_def [symmetric] 3 [unfolded Let_def]
        4 w5_def [symmetric] w6(1) Option.bind.simps using False by simp
    moreover have "drives srv s0 (Some (respond srv socket a b c w6))" for a b c
      using drives_quiet [OF r _ respond_quiet [OF h]] w6(2) by (auto simp: drives_def)
    ultimately show ?thesis by simp
  qed
qed

lemma receive_file_drives:
  assumes h: "service_host srv" and r: "reachable s0" and t: "tracked srv s0 None w"
  shows "drives srv s0 (receive_file srv socket name expected first w)"
proof (cases "expected = 0 \<or> expected > 8 * 1024 * 1024 * 1024 \<or> of_nat (length first) > expected")
  case True
  then show ?thesis using h by (auto simp: receive_file_def intro!: drives_looks [OF r t])
next
  case False
  then have "expected \<noteq> 0" by simp
  from find_tracked [OF h r t this, of name] obtain k sc q where
    f: "vcm_queue_find name expected (v_queue srv w) = Some (k, sc, q)"
    "tracked srv s0 (if k < 0 then None else Some (nat k, sc = Some True)) (v_set_queue srv q w)" by blast
  show ?thesis
  proof (cases "k < 0")
    case True
    then have "drives srv s0 (Some (refuse srv socket 409 ''Conflict'' ''File does not match the active queue'' (v_set_queue srv q w)))"
      using f(2) h by (auto intro!: drives_looks [OF r])
    then show ?thesis using True False f(1) unfolding receive_file_def by simp
  next
    case found: False
    define i sidecar w1 where "i = nat k" and "sidecar = (sc = Some True)" and "w1 = v_set_queue srv q w"
    have k: "k = int i" using found by (simp add: i_def)
    have t1: "tracked srv s0 (Some (i, sidecar)) w1" using f(2) found by (simp add: i_def sidecar_def w1_def)
    have out: "drives srv s0 (report srv (int i) sidecar e (refuse srv socket a b c w2))" if "quiet srv w1 w2" for a b c e w2
      using received_tracked [OF h r tracked_quiet [OF r t1 quiet_trans [OF that refuse_quiet [OF h]]]] .
    obtain space mx fr where dc: "v_devctl srv w1 = (space, mx, fr)" by (cases "v_devctl srv w1")
    define full where "full = inbox @ ascii ''/'' @ name"
    define part where "part = take 189 (full @ ascii ''.vcm-part'')"
    obtain fd w2 where op: "v_open srv part Create_New w1 = (fd, w2)" by fastforce
    note q2 = host_open [OF h op]
    have t2: "tracked srv s0 (Some (i, sidecar)) w2" using tracked_quiet [OF r t1 q2] .
    obtain n failed w3 where rl: "receive_loop srv socket fd (int i) sidecar (unat expected) first 0 w2 = Some (n, failed, w3)"
      "tracked srv s0 (Some (i, sidecar)) w3"
      using receive_loop_tracked [OF h r t2] by blast
    note fin = finish_file_drives [OF h r rl(2)]
    have q3: "quiet srv w1 (v_log srv e fd w2)" for e by (meson quiet_trans q2 host_log [OF h])
    have unf: "receive_file srv socket name expected first w =
      (if space < 0 \<or> fr < 0 \<or> word_of_int fr < expected + 8 * 1024 * 1024
            then report srv (int i) sidecar (- 1006) (refuse srv socket 507 ''Insufficient Storage'' ''Not enough Vita storage'' w1)
            else if length full \<ge> 180
              then report srv (int i) sidecar (- 1) (refuse srv socket 400 ''Bad Request'' ''Invalid file name'' w1)
              else if dev_stat (v_device srv w1) full \<noteq> None \<or> dev_stat (v_device srv w1) part \<noteq> None
                then report srv (int i) sidecar (- 1002) (refuse srv socket 409 ''Conflict'' ''Transfer ID already exists'' w1)
                else if fd < 0 then
                    report srv (int i) sidecar fd (refuse srv socket 500 ''Internal Server Error'' ''Cannot create file''
                      (v_log srv (ascii ''create partial'') fd w2))
                  else finish_file srv socket fd (int i) sidecar part full (failed \<or> n \<noteq> unat expected) w3)"
      unfolding receive_file_def if_not_P [OF False] f(1) Option.bind.simps prod.case Let_def w1_def [symmetric] sidecar_def [symmetric]
        dc full_def [symmetric] part_def [symmetric] op k rl(1) by simp
    show ?thesis unfolding unf by (intro drives_if out fin quiet_refl q3)
  qed
qed

lemma body_loop_quiet:
  fixes srv :: "('w, 'a) service_scheme"
  assumes h: "service_host srv"
  shows "\<exists>r w'. body_loop srv socket n body w = Some (r, w') \<and> quiet srv w w'"
proof (induction "n - length body" arbitrary: body w rule: less_induct)
  case less
  show ?case
  proof (cases "length body < n")
    case False
    then show ?thesis by (subst body_loop.simps) simp
  next
    case True
    obtain got bs w1 where rv: "n_recv srv socket (n - length body) w = (got, bs, w1)"
      by (cases "n_recv srv socket (n - length body) w") auto
    note q = host_recv [OF h rv]
    show ?thesis
    proof (cases "got \<le> 0")
      case True
      then have "body_loop srv socket n body w = Some (None, w1)"
        using \<open>length body < n\<close> rv by (subst body_loop.simps) simp
      with q show ?thesis by blast
    next
      case False
      have "n - length (body @ bs) < n - length body" using q False True by auto
      from less.hyps [OF this, of w1] obtain r w' where "body_loop srv socket n (body @ bs) w1 = Some (r, w')" "quiet srv w1 w'" by blast
      then show ?thesis
        using True False rv q by (subst body_loop.simps) (auto intro: quiet_trans)
    qed
  qed
qed

lemma read_request_quiet:
  fixes srv :: "('w, 'a) service_scheme"
  assumes h: "service_host srv"
  shows "\<exists>r w'. read_request srv socket header w = Some (r, w') \<and> quiet srv w w'"
proof (induction "4095 - length header" arbitrary: header w rule: less_induct)
  case less
  show ?case
  proof (cases "length header < 4095")
    case False
    then show ?thesis by (subst read_request.simps) simp
  next
    case True
    obtain got bs w1 where rv: "n_recv srv socket (4095 - length header) w = (got, bs, w1)"
      by (cases "n_recv srv socket (4095 - length header) w") auto
    note q = host_recv [OF h rv]
    show ?thesis
    proof (cases "got \<le> 0")
      case True
      then have "read_request srv socket header w = Some (None, w1)"
        using \<open>length header < 4095\<close> rv by (subst read_request.simps) simp
      with q show ?thesis by blast
    next
      case False
      have "4095 - length (header @ bs) < 4095 - length header" using q False True by auto
      from less.hyps [OF this, of w1] obtain r w' where n: "read_request srv socket (header @ bs) w1 = Some (r, w')" "quiet srv w1 w'" by blast
      define seen where "seen = takeWhile (\<lambda>c. c \<noteq> 0) (header @ bs)"
      have "read_request srv socket header w =
        (case strstr seen end_of_headers of
           Some tail \<Rightarrow> Some (Some (take (length seen - length tail) (header @ bs), drop (length seen - length tail + 4) (header @ bs)), w1)
         | None \<Rightarrow> read_request srv socket (header @ bs) w1)"
        using True False rv q unfolding seen_def by (subst read_request.simps) (auto simp: Let_def split: option.split)
      then show ?thesis using n q by (cases "strstr seen end_of_headers") (auto intro: quiet_trans)
    qed
  qed
qed

lemma publish_queue_drives:
  assumes h: "service_host srv" and r: "reachable s0" and t: "tracked srv s0 None w"
  shows "drives srv s0 (publish_queue srv socket n first w)"
proof (cases "n = 0 \<or> n \<ge> 512 * 1024 \<or> of_nat (length first) > n")
  case True
  then show ?thesis using h by (auto simp: publish_queue_def intro!: drives_looks [OF r t])
next
  case False
  obtain body w1 where b: "body_loop srv socket (unat n) first w = Some (body, w1)" "quiet srv w w1"
    using body_loop_quiet [OF h] by blast
  have t1: "tracked srv s0 None w1" using tracked_quiet [OF r t b(2)] .
  show ?thesis
  proof (cases body)
    case None
    then have "publish_queue srv socket n first w = Some w1" using False b(1) by (simp add: publish_queue_def)
    then show ?thesis using t1 by (simp add: drives_def)
  next
    case (Some bs)
    show ?thesis
    proof (cases "0 \<in> set bs")
      case True
      then have "publish_queue srv socket n first w = Some (refuse srv socket 400 ''Bad Request'' ''Invalid queue'' w1)"
        using False b(1) Some by (simp add: publish_queue_def)
      then show ?thesis using h by (auto intro!: drives_looks [OF r t1])
    next
      case clean: False
      have "0 \<in> set (bs @ [0])" by simp
      from publish_tracked [OF h r t1 this] obtain st q where
        p: "vcm_queue_publish (bs @ [0]) (v_queue srv w1) = Some (st, q)" "tracked srv s0 None (v_set_queue srv q w1)" by blast
      define w2 where "w2 = v_set_queue srv q w1"
      have "publish_queue srv socket n first w =
          (if st = 0 then Some (respond srv socket 201 (ascii ''Created'') (ascii ''{\"ok\":true}'') w2)
           else if st = - 2 then Some (refuse srv socket 409 ''Rejected'' ''Another transfer is active'' w2)
           else Some (refuse srv socket 400 ''Rejected'' ''Invalid queue metadata'' w2))"
        unfolding publish_queue_def if_not_P [OF False] b(1) Some Option.bind.simps prod.case option.case if_not_P [OF clean] p(1) Let_def
          w2_def [symmetric] by simp
      moreover have "drives srv s0 \<dots>"
        using p(2) unfolding w2_def [symmetric]
        by (intro drives_if drives_looks [OF r]) (auto intro: looksI respond_quiet [OF h] refuse_quiet [OF h])
      ultimately show ?thesis by simp
    qed
  qed
qed

lemma sync_request_drives:
  assumes h: "service_host srv" and r: "reachable s0" and t: "tracked srv s0 None w"
  shows "drives srv s0 (sync_queue_request srv socket w)"
proof -
  obtain st q where q: "vcm_queue_sync (v_queue srv w) = Some (st, q)" "tracked srv s0 None (v_set_queue srv q w)"
    using sync_tracked [OF h r t] by blast
  have "sync_queue_request srv socket w =
    (if st = 0 then Some (respond srv socket 202 (ascii ''Accepted'') (ascii ''{\"ok\":true}'') (v_set_queue srv q w))
     else Some (refuse srv socket 409 ''Conflict'' ''Queue is not fully transferred'' (v_set_queue srv q w)))"
    by (simp add: sync_queue_request_def q(1))
  moreover have "drives srv s0 \<dots>"
    using q(2) by (intro drives_if drives_looks [OF r]) (auto intro: looksI respond_quiet [OF h] refuse_quiet [OF h])
  ultimately show ?thesis by simp
qed

lemma item_names_safe:
  assumes "item_ok x" and "c_string (q_id x) = Some d" and "c_string (q_extension x) = Some e" and "f = e \<or> f = ascii ''m4t''"
  shows "safe_name (d @ [0x2e] @ f) \<and> length (d @ [0x2e] @ f) < 64 \<and> 0 \<notin> set (d @ [0x2e] @ f)"
proof -
  have v: "holds_id (q_id x)" "Sync_Queue.media_valid x" using assms(1) by (simp_all add: item_ok_def item_valid_def)
  obtain i where i: "id_valid i" "q_id x = i @ [0]" using v(1) by (auto simp: holds_id_def)
  then have d: "d = i" using assms(2) by (simp add: c_string_id)
  have hex: "list_all lower_hex d" "length d = 32" using i(1) unfolding d by (auto simp: id_valid_iff id_char_def lower_hex_def list_all_iff)
  have "photo_extension e \<or> music_extension e \<or> e = ascii ''mp4''"
    using v(2) assms(3) by (auto simp: Sync_Queue.media_valid_def kind_refused_def simp del: ascii_simps)
  then have ex: "f \<in> set allowed_extensions"
    using assms(4) by (auto simp: photo_extension_def music_extension_def allowed_extensions_def)
  have "0 \<notin> set f" "length f \<le> 4" using ex by (auto simp: allowed_extensions_def)
  then show ?thesis using hex ex id_valid_nonzero [OF i(1)] by (simp add: safe_name_def d nth_append)
qed

lemma usb_target_total:
  assumes sh: "shape_ok q" and ok: "list_all item_ok (live q)" and "length out = 64"
  shows "\<exists>rc out' n. vcm_queue_usb_target i sidecar (Some out) 64 (Some z) q = Some (rc, Some out', n) \<and>
    (rc = 0 \<longrightarrow> (\<exists>t. c_string out' = Some t \<and> safe_name t))"
proof (cases "(sidecar \<noteq> 0 \<and> sidecar \<noteq> 1) \<or> \<not> (\<not> i_cancelled (queue q) \<and> \<not> i_syncing (queue q) \<and> i \<ge> 0 \<and> i < i_count (queue q))")
  case True
  then show ?thesis by (auto simp: vcm_queue_usb_target_def)
next
  case False
  then obtain k where k: "i = int k" "k < length (live q)" using length_live [OF sh] by (metis nat_0_le of_nat_less_iff)
  let ?x = "live q ! k"
  have it: "item_ok ?x" using ok k(2) by (simp add: list_all_length)
  then have v: "holds_id (q_id ?x)" "texts_valid ?x" by (simp_all add: item_ok_def item_valid_def)
  then obtain d where d: "c_string (q_id ?x) = Some d" by (auto simp: holds_id_def c_string_id)
  obtain e where e: "c_string (q_extension ?x) = Some e" using v(2) by (auto simp: texts_valid_def elim: holds_textE)
  define f where "f = (if sidecar \<noteq> 0 then ascii ''m4t'' else e)"
  have "f = e \<or> f = ascii ''m4t''" by (simp add: f_def)
  note nm = item_names_safe [OF it d e this]
  obtain out' where out: "snprintf out 64 (d @ [0x2e] @ f) = Some (int (length (d @ [0x2e] @ f)), out')" "c_string out' = Some (d @ [0x2e] @ f)"
    using snprintf_fits [of "d @ [0x2e] @ f" 64 out] nm assms(3) by auto
  have x: "(if sidecar \<noteq> 0 then Some (ascii ''m4t'') else Some e) = Some f" by (simp add: f_def)
  show ?thesis
    using False out nm unfolding vcm_queue_usb_target_def option.case k(1) item_access(1) [OF sh k(2)] Option.bind.simps d e x Let_def
    by auto
qed

lemma put_name_total:
  assumes r: "reachable s0" and t: "tracked srv s0 None w"
  shows "\<exists>name usb. put_name srv junk is_loopback target w = Some (name, usb) \<and> (\<forall>n. name = Some n \<longrightarrow> safe_name n)"
proof -
  have "\<exists>n. (if is_loopback \<and> v_usb_mode srv w then
          (case usb_upload_target target of
             None \<Rightarrow> Some None
           | Some (index, sidecar) \<Rightarrow> do {
               (rc, name, usb_expected) \<leftarrow>
                 vcm_queue_usb_target (uint index) (uint sidecar) (Some (map junk [0..<64])) 64 (Some 0) (v_queue srv w);
               if rc = 0 then do {
                 name \<leftarrow> name;
                 name \<leftarrow> c_string name;
                 Some (if target = take 63 (usb_files_text index sidecar) then Some name else None)
               } else Some None
             })
        else Some None) = Some n \<and> (\<forall>m. n = Some m \<longrightarrow> safe_name m)" (is "\<exists>n. ?usb = Some n \<and> _")
  proof (cases "is_loopback \<and> v_usb_mode srv w \<and> usb_upload_target target \<noteq> None")
    case False
    then show ?thesis by (cases "usb_upload_target target") auto
  next
    case True
    then obtain i c where u: "usb_upload_target target = Some (i, c)" by auto
    have "length (map junk [0..<64]) = 64" by simp
    from usb_target_total [OF tracked_facts(1,2) [OF r t] this, of "uint i" "uint c" 0] obtain rc out n where
      "vcm_queue_usb_target (uint i) (uint c) (Some (map junk [0..<64])) 64 (Some 0) (v_queue srv w) = Some (rc, Some out, n)"
      "rc = 0 \<longrightarrow> (\<exists>t. c_string out = Some t \<and> safe_name t)" by blast
    then show ?thesis using True u by (cases "rc = 0") auto
  qed
  then obtain n where n: "?usb = Some n" "\<forall>m. n = Some m \<longrightarrow> safe_name m" by blast
  show ?thesis
    unfolding put_name_def n(1) using n(2) upload_name_iff [of target 64] by (cases n) auto
qed

lemma matches_total: "shape_ok q \<Longrightarrow> \<exists>b. vcm_queue_matches name q = Some b"
  by (auto simp: vcm_queue_matches_def shape_ok_def c_string_def)

lemma drives_bind: "c \<noteq> None \<Longrightarrow> (\<And>x. drives srv s0 (f x)) \<Longrightarrow> drives srv s0 (c \<bind> f)"
  by auto

lemma drives_prod: "(\<And>a b. drives srv s0 (f a b)) \<Longrightarrow> drives srv s0 (case p of (a, b) \<Rightarrow> f a b)"
  by (cases p) simp

lemma drives_option: "drives srv s0 a \<Longrightarrow> (\<And>x. drives srv s0 (f x)) \<Longrightarrow> drives srv s0 (case r of None \<Rightarrow> a | Some x \<Rightarrow> f x)"
  by (cases r) simp_all

lemma transfer_drives:
  assumes h: "service_host srv" and r: "reachable s0" and t: "tracked srv s0 None w"
  shows "drives srv s0 (handle_transfer srv junk socket is_loopback line rest body w)"
proof -
  have no: "drives srv s0 (Some (refuse srv socket a b c w))" for a b c using h by (auto intro!: drives_looks [OF r t])
  have yes: "drives srv s0 (Some (respond srv socket a b c (v_set_queue srv (vcm_queue_cancel (v_queue srv w)) w)))" for a b c
    by (rule drives_looks [OF r cancel_tracked [OF h r t]]) (auto intro: respond_quiet [OF h])
  have ok: "(if upload then put_name srv junk is_loopback target w else Some (Some [], False)) \<noteq> None"
    "(if p then if n \<noteq> (1 :: nat) then Some False else vcm_queue_matches name (v_queue srv w) else Some True) \<noteq> None"
    for upload target p n name
    using put_name_total [OF r t, of junk is_loopback target] matches_total [OF tracked_facts(1) [OF r t], of name] by auto
  show ?thesis
    unfolding handle_transfer_def Let_def
    by (intro drives_if drives_bind drives_prod drives_option no yes ok publish_queue_drives [OF h r t] sync_request_drives [OF h r t]
        receive_file_drives [OF h r t])
qed

lemma request_drives:
  assumes h: "service_host srv" and r: "reachable s0" and t: "tracked srv s0 None w" and "2 \<le> length slack" and "length pad = 5"
  shows "drives srv s0 (handle_request srv junk slack pad uninit socket is_loopback line rest body w)"
proof -
  have sh: "shape_ok (v_queue srv w)" using tracked_facts(1) [OF r t] .
  note look = drives_looks [OF r t]
  show ?thesis
    unfolding handle_request_def Let_def
    by (intro drives_if transfer_drives [OF h r t] look [OF status_looks [OF h r t]] look [OF looks_refuse [OF h quiet_refl]]
        look [OF catalog_looks [OF h assms(4,5)]] look [OF summary_looks [OF h assms(4)]] look [OF usb_status_looks [OF h sh]]
        look [OF item_status_looks [OF h sh]] look [OF audit_looks [OF h]] look [OF looksI [OF storage_quiet [OF h]]]
        look [OF thumbnail_looks [OF h]] look [OF library_looks [OF h]])
qed

lemma client_drives:
  assumes h: "service_host srv" and r: "reachable s0" and t: "tracked srv s0 None w" and "2 \<le> length slack" and "length pad = 5"
  shows "drives srv s0 (handle_client srv junk slack pad uninit socket is_loopback w)"
proof -
  obtain st w1 where b: "v_blocking srv socket w = (st, w1)" by fastforce
  note q1 = host_blocking [OF h b]
  have t1: "tracked srv s0 None w1" using tracked_quiet [OF r t q1] .
  obtain req w2 where rr: "read_request srv socket [] (n_timeouts srv socket w1) = Some (req, w2)" "quiet srv (n_timeouts srv socket w1) w2"
    using read_request_quiet [OF h] by blast
  have t2: "tracked srv s0 None w2" using tracked_quiet [OF r t1 quiet_trans [OF host_timeouts [OF h] rr(2)]] .
  note no = drives_looks [OF r t2 looks_refuse [OF h quiet_refl]]
  show ?thesis
    unfolding handle_client_def Let_def b prod.case rr(1) Option.bind.simps
    by (intro drives_if drives_option drives_prod no request_drives [OF h r t2 assms(4,5)] drives_looks [OF r t1 looksI [OF host_log [OF h]]])
qed

subsection \<open>A console\<close>

text \<open>
  A console with the queue of one photo, empty databases, and a client that sends \<open>sw_input\<close>. \<open>sw_file\<close> is the file created
  last: its descriptor, its path and its bytes.
\<close>

record sample_world =
  sw_queue :: sync_queue
  sw_input :: "u8 list"
  sw_file :: "int \<times> u8 list \<times> u8 list"
  sw_published :: "(u8 list \<times> u8 list) list"

definition sample_service :: "sample_world service" where
  "sample_service =
     \<lparr>n_socket = (\<lambda>w. (0, w)), n_init = (\<lambda>w. w), n_timeouts = (\<lambda>s w. w), n_connect = (\<lambda>s w. (0, w)), n_close = (\<lambda>s w. w),
      n_recv = (\<lambda>s n w. let bs = take n (sw_input w) in (int (length bs), bs, w\<lparr>sw_input := drop n (sw_input w)\<rparr>)),
      n_send = (\<lambda>s data w. (int (length data), w)),
      k_alloc = (\<lambda>n w. (- 1, w)), k_base = (\<lambda>b w. (- 1, None, w)), k_free = (\<lambda>b w. w),
      v_queue = sw_queue, v_set_queue = (\<lambda>q w. w\<lparr>sw_queue := q\<rparr>), v_device = (\<lambda>w. sample_device),
      v_path = (\<lambda>kind i w. sample_query []), v_list = (\<lambda>kind offset limit w. sample_query []),
      v_icons = (\<lambda>offset limit w. sample_query []), v_icon = (\<lambda>i w. sample_query []),
      v_devctl = (\<lambda>w. (0, 1000000000, 100000000)), v_dev_info = (\<lambda>w. (0, 0, 0)),
      v_malloc = (\<lambda>n w. (None, w)), v_free = (\<lambda>w. w), v_open = (\<lambda>p m w. (5, w\<lparr>sw_file := (5, p, [])\<rparr>)),
      v_read = (\<lambda>fd n w. (0, [], w)), v_write = (\<lambda>fd data w. (case sw_file w of (f, p, c) \<Rightarrow>
        if f = fd then (int (length data), w\<lparr>sw_file := (f, p, c @ data)\<rparr>) else (- 1, w))),
      v_close = (\<lambda>fd w. (0, w)), v_sync_file = (\<lambda>fd w. (0, w)),
      v_rename = (\<lambda>p q w. (case sw_file w of (f, n, c) \<Rightarrow>
        if n = p then (0, w\<lparr>sw_published := (q, c) # sw_published w\<rparr>) else (- 1, w))), v_remove = (\<lambda>p w. w), v_sync = (\<lambda>w. (0, w)),
      v_log = (\<lambda>e st w. w), v_blocking = (\<lambda>s w. (0, w)),
      v_audit = (\<lambda>w. \<lparr>a_stat = (\<lambda>p. (- 1, 0)), a_open = (\<lambda>p. - 1), a_module = 0, a_apputil = 0, a_mount = 0\<rparr>),
      v_tracks = (\<lambda>w. sample_query []), v_stop = (\<lambda>w. False), v_usb_mode = (\<lambda>w. True), v_set_served = (\<lambda>w. w)\<rparr>"

definition sample_console :: "u8 list \<Rightarrow> sample_world" where
  "sample_console request = \<lparr>sw_queue = sample_queue, sw_input = request, sw_file = (- 1, [], []), sw_published = []\<rparr>"

lemma same_queue_quiet: "v_queue srv w' = v_queue srv w \<Longrightarrow> quiet srv w w'"
  unfolding quiet_def by (metis rtranclp.rtrancl_refl)

lemma sample_service_ok: "service_host sample_service"
proof -
  have "dev_stat sample_device p = None" for p by (simp add: sample_device_def)
  then show ?thesis
    unfolding service_host_def
    by (intro conjI allI) (auto split: prod.splits simp: sample_service_def Let_def sample_query_def paths_ok_def sample_device_ok stat_ok_def
        intro!: same_queue_quiet)
qed

lemma sample_console_tracked:
  "reachable sample_published" "tracked sample_service sample_published None (sample_console request)"
  "shared sample_published = v_queue sample_service (sample_console request)" "upload sample_published = None" "tidy (shared sample_published)"
proof -
  show 1: "shared sample_published = v_queue sample_service (sample_console request)" "upload sample_published = None" "tidy (shared sample_published)"
    by (simp_all add: sample_published_def sample_service_def sample_console_def tidy_def sample_queue_def sample_id_def)
  then show "tracked sample_service sample_published None (sample_console request)"
    unfolding tracked_def by (metis rtranclp.rtrancl_refl)
qed (rule sample_reachable)

subsection \<open>Properties\<close>

text \<open>
  One connection: whatever bytes a client sends, in whatever pieces, and whatever the other threads do
  meanwhile, a connection is handled to its end without an access outside an array; its effect on the shared queue is a sequence of steps of
  the queue system that starts and ends with no upload in progress, so every invariant of the reachable states is kept.
\<close>

theorem service_refines_queue:
  assumes "service_host srv" and "reachable s" and "shared s = v_queue srv w" and "upload s = None" and "tidy (shared s)"
    and "2 \<le> length slack" and "length pad = 5"
  shows "\<exists>w' s'. handle_client srv junk slack pad uninit socket is_loopback w = Some w' \<and>
    step\<^sup>*\<^sup>* s s' \<and> reachable s' \<and> upload s' = None \<and> shared s' = v_queue srv w' \<and> tidy (shared s')"
proof -
  have "tracked srv s None w" using assms(3-5) by (auto simp: tracked_def)
  from client_drives [OF assms(1,2) this assms(6,7)] show ?thesis
    using reachable_steps [OF _ assms(2)] unfolding drives_def tracked_def by metis
qed

theorem service_refines_queue_witness:
  "\<exists>w' s'. handle_client sample_service (\<lambda>_. 0) [0, 0] [0, 0, 0, 0, 0] no_snapshot 3 True
      (sample_console (ascii ''POST /v2/usb/cancel HTTP/1.1'' @ [13, 10] @ ascii ''Content-Length: 0'' @ [13, 10, 13, 10])) = Some w' \<and>
    step\<^sup>*\<^sup>* sample_published s' \<and> upload s' = None \<and> shared s' = v_queue sample_service w'"
  using service_refines_queue [OF sample_service_ok sample_console_tracked(1,3-5), of "[0, 0]" "[0, 0, 0, 0, 0]"] by fastforce

definition refuses :: "('w, 'a) service_scheme \<Rightarrow> int \<Rightarrow> 'w \<Rightarrow> bool \<Rightarrow> 'w option \<Rightarrow> bool" where
  "refuses srv socket w allowed r \<longleftrightarrow>
     (\<forall>w'. r = Some w' \<longrightarrow> (\<exists>status reason message. w' = refuse srv socket status reason message w) \<or> allowed)"

lemma refuses_rules:
  shows refuses_no: "refuses srv socket w q (Some (refuse srv socket a b c w))"
    and refuses_allowed: "q \<Longrightarrow> refuses srv socket w q r"
    and refuses_if: "(g \<Longrightarrow> refuses srv socket w q r) \<Longrightarrow> (\<not> g \<Longrightarrow> refuses srv socket w q r') \<Longrightarrow> refuses srv socket w q (if g then r else r')"
    and refuses_bind: "(\<And>x. m = Some x \<Longrightarrow> refuses srv socket w q (f x)) \<Longrightarrow> refuses srv socket w q (m \<bind> f)"
    and refuses_prod: "(\<And>x y. p = (x, y) \<Longrightarrow> refuses srv socket w q (k x y)) \<Longrightarrow> refuses srv socket w q (case p of (x, y) \<Rightarrow> k x y)"
    and refuses_option: "(o1 = None \<Longrightarrow> refuses srv socket w q r) \<Longrightarrow> (\<And>x. o1 = Some x \<Longrightarrow> refuses srv socket w q (h x)) \<Longrightarrow>
      refuses srv socket w q (case o1 of None \<Rightarrow> r | Some x \<Rightarrow> h x)"
  by (auto simp: refuses_def split: prod.split option.split bind_splits)

text \<open>
  C15. Only authorised requests change the queue. A request that is not a report either gets a refusal and leaves the state as it was, or it is
  a queue, synchronisation or cancellation request of the local bridge or an upload, made from the console itself while USB mode is on; or it publishes
  a new queue; or it is a synchronisation, a cancellation or an upload that names the active queue in its only \<open>X-VCM-Queue\<close> header.
\<close>

theorem requests_authorised:
  assumes "handle_transfer srv junk socket is_loopback line rest body w = Some w'"
  shows "(\<exists>status reason message. w' = refuse srv socket status reason message w) \<or>
    (is_loopback \<and> v_usb_mode srv w \<and>
      (line \<in> {ascii ''POST /v2/usb/queue HTTP/1.1'', ascii ''POST /v2/usb/sync HTTP/1.1'', ascii ''POST /v2/usb/cancel HTTP/1.1''} \<or>
       starts (ascii ''PUT '') line)) \<or>
    line = ascii ''POST /v2/queue HTTP/1.1'' \<or>
    (x_session_seen (parse_headers rest) = 1 \<and> vcm_queue_matches (x_session (parse_headers rest)) (v_queue srv w) = Some True \<and>
      (line = ascii ''POST /v2/sync HTTP/1.1'' \<or> line = ascii ''POST /v2/cancel HTTP/1.1'' \<or> starts (ascii ''PUT '') line))"
proof -
  let ?Q = "(is_loopback \<and> v_usb_mode srv w \<and>
      (line \<in> {ascii ''POST /v2/usb/queue HTTP/1.1'', ascii ''POST /v2/usb/sync HTTP/1.1'', ascii ''POST /v2/usb/cancel HTTP/1.1''} \<or>
       starts (ascii ''PUT '') line)) \<or> line = ascii ''POST /v2/queue HTTP/1.1'' \<or>
    (x_session_seen (parse_headers rest) = 1 \<and> vcm_queue_matches (x_session (parse_headers rest)) (v_queue srv w) = Some True \<and>
      (line = ascii ''POST /v2/sync HTTP/1.1'' \<or> line = ascii ''POST /v2/cancel HTTP/1.1'' \<or> starts (ascii ''PUT '') line))"
  have "refuses srv socket w ?Q (handle_transfer srv junk socket is_loopback line rest body w)"
    unfolding handle_transfer_def Let_def
    by (intro refuses_if refuses_bind refuses_prod refuses_option refuses_no; (rule refuses_allowed)?;
        auto simp del: ascii_simps split: if_splits)
  with assms show ?thesis by (auto simp: refuses_def)
qed


theorem requests_authorised_witness:
  "\<exists>w' a b c. handle_transfer sample_service (\<lambda>_. 0) 3 False (ascii ''POST /v2/sync HTTP/1.1'') [] [] (sample_console []) = Some w' \<and>
    w' = refuse sample_service 3 a b c (sample_console [])"
proof -
  obtain w' where w': "handle_transfer sample_service (\<lambda>_. 0) 3 False (ascii ''POST /v2/sync HTTP/1.1'') [] [] (sample_console []) = Some w'"
    using transfer_drives [OF sample_service_ok sample_console_tracked(1,2)] unfolding drives_def by blast
  have "x_session_seen (parse_headers []) = 0" "ascii ''POST /v2/sync HTTP/1.1'' \<noteq> ascii ''POST /v2/queue HTTP/1.1''"
    by (simp add: parse_headers_def header_lines.simps, code_simp)
  with requests_authorised [OF w'] w' show ?thesis by auto
qed

end
