(* ===== verification/Wifi_Uploads.thy ===== *)
theory Wifi_Uploads
  imports Wifi_Safety
begin

text \<open>
  What uploads of \<^verbatim>\<open>src/vita/wifi_service.c\<close> leave on the memory card: a file is renamed into the inbox only when the announced number of bytes has been received and written,
  under a name that cannot leave the inbox.
\<close>

subsection \<open>Published files\<close>

text \<open>
  What an upload needs of the system: \<open>input\<close> are the bytes the client will still send, \<open>file\<close> the file created last, with
  its descriptor, its path and its bytes, \<open>published\<close> the files renamed into place, the last one first. Writing to the
  descriptor of that file appends to it, and renaming its path publishes its bytes; nothing is said of other descriptors and paths.
\<close>

definition kept :: "('w \<Rightarrow> u8 list) \<Rightarrow> ('w \<Rightarrow> int \<times> u8 list \<times> u8 list) \<Rightarrow> ('w \<Rightarrow> (u8 list \<times> u8 list) list) \<Rightarrow> 'w \<Rightarrow> 'w \<Rightarrow> bool" where
  "kept input file published w w' \<longleftrightarrow> input w' = input w \<and> file w' = file w \<and> published w' = published w"

definition upload_host ::
    "('w, 'a) service_scheme \<Rightarrow> ('w \<Rightarrow> u8 list) \<Rightarrow> ('w \<Rightarrow> int \<times> u8 list \<times> u8 list) \<Rightarrow> ('w \<Rightarrow> (u8 list \<times> u8 list) list) \<Rightarrow> bool" where
  "upload_host srv input file published \<longleftrightarrow>
     (\<forall>socket n w. case n_recv srv socket n w of (got, bs, w') \<Rightarrow> file w' = file w \<and> published w' = published w \<and>
        (0 < got \<longrightarrow> input w = bs @ input w')) \<and>
     (\<forall>fd data w. case v_write srv fd data w of (n, w') \<Rightarrow> input w' = input w \<and> published w' = published w \<and>
        n \<le> int (length data) \<and>
        (\<forall>p c. file w = (fd, p, c) \<longrightarrow> 0 < n \<longrightarrow> file w' = (fd, p, c @ take (nat n) data))) \<and>
     (\<forall>path w. case v_open srv path Create_New w of (fd, w') \<Rightarrow> input w' = input w \<and> published w' = published w \<and>
        (0 \<le> fd \<longrightarrow> file w' = (fd, path, []))) \<and>
     (\<forall>p q w. case v_rename srv p q w of (rc, w') \<Rightarrow>
        if rc < 0 then published w' = published w
        else \<exists>data. published w' = (q, data) # published w \<and> (\<forall>fd c. file w = (fd, p, c) \<longrightarrow> data = c)) \<and>
     (\<forall>socket data w. kept input file published w (snd (n_send srv socket data w))) \<and>
     (\<forall>q w. kept input file published w (v_set_queue srv q w)) \<and>
     (\<forall>fd w. kept input file published w (snd (v_sync_file srv fd w))) \<and>
     (\<forall>fd w. kept input file published w (snd (v_close srv fd w))) \<and>
     (\<forall>w. kept input file published w (snd (v_sync srv w))) \<and>
     (\<forall>event status w. kept input file published w (v_log srv event status w)) \<and>
     (\<forall>p w. published (v_remove srv p w) = published w)"

lemma upload_calls:
  assumes "upload_host srv input file published"
  shows up_recv: "n_recv srv socket n w = (got, bs, w') \<Longrightarrow>
      file w' = file w \<and> published w' = published w \<and> (0 < got \<longrightarrow> input w = bs @ input w')"
    and up_write: "v_write srv fd data w = (k, w') \<Longrightarrow>
      input w' = input w \<and> published w' = published w \<and> k \<le> int (length data) \<and>
      (\<forall>p c. file w = (fd, p, c) \<longrightarrow> 0 < k \<longrightarrow> file w' = (fd, p, c @ take (nat k) data))"
    and up_open: "v_open srv p Create_New w = (fd, w') \<Longrightarrow> input w' = input w \<and> published w' = published w \<and> (0 \<le> fd \<longrightarrow> file w' = (fd, p, []))"
    and up_rename: "v_rename srv p q w = (rc, w') \<Longrightarrow> if rc < 0 then published w' = published w
      else \<exists>data. published w' = (q, data) # published w \<and> (\<forall>fd c. file w = (fd, p, c) \<longrightarrow> data = c)"
    and up_send: "n_send srv socket data w = (k, w') \<Longrightarrow> kept input file published w w'"
    and up_queue: "kept input file published w (v_set_queue srv s w)"
    and up_sync_file: "v_sync_file srv fd w = (rc, w') \<Longrightarrow> kept input file published w w'"
    and up_close: "v_close srv fd w = (rc, w') \<Longrightarrow> kept input file published w w'"
    and up_sync: "v_sync srv w = (rc, w') \<Longrightarrow> kept input file published w w'"
    and up_log: "kept input file published w (v_log srv event status w)"
    and up_remove: "published (v_remove srv p w) = published w"
proof -
  note h = assms [unfolded upload_host_def]
  show "n_recv srv socket n w = (got, bs, w') \<Longrightarrow>
      file w' = file w \<and> published w' = published w \<and> (0 < got \<longrightarrow> input w = bs @ input w')"
    using h [THEN conjunct1, THEN spec [of _ socket], THEN spec [of _ n], THEN spec [of _ w]] by simp
  show "v_write srv fd data w = (k, w') \<Longrightarrow>
      input w' = input w \<and> published w' = published w \<and> k \<le> int (length data) \<and>
      (\<forall>p c. file w = (fd, p, c) \<longrightarrow> 0 < k \<longrightarrow> file w' = (fd, p, c @ take (nat k) data))"
    using h [THEN conjunct2, THEN conjunct1, THEN spec [of _ fd], THEN spec [of _ data], THEN spec [of _ w]] by simp
  show "v_open srv p Create_New w = (fd, w') \<Longrightarrow> input w' = input w \<and> published w' = published w \<and> (0 \<le> fd \<longrightarrow> file w' = (fd, p, []))"
    using h [THEN conjunct2, THEN conjunct2, THEN conjunct1, THEN spec [of _ p], THEN spec [of _ w]] by simp
  show "v_rename srv p q w = (rc, w') \<Longrightarrow> if rc < 0 then published w' = published w
      else \<exists>data. published w' = (q, data) # published w \<and> (\<forall>fd c. file w = (fd, p, c) \<longrightarrow> data = c)"
    using h [THEN conjunct2, THEN conjunct2, THEN conjunct2, THEN conjunct1, THEN spec [of _ p], THEN spec [of _ q], THEN spec [of _ w]] by simp
qed (use assms in \<open>unfold upload_host_def; metis snd_conv\<close>)+

lemma kept_trans: "kept i c p w w1 \<Longrightarrow> kept i c p w1 w2 \<Longrightarrow> kept i c p w w2"
  by (simp add: kept_def)

lemma kept_refl [simp]: "kept i c p w w"
  by (simp add: kept_def)

lemma send_all_loop_kept:
  fixes srv :: "('w, 'a) service_scheme"
  assumes "upload_host srv input file published"
  shows "kept input file published w (snd (send_all_loop srv socket data offset w))"
proof (induction "length data - offset" arbitrary: offset w rule: less_induct)
  case less
  obtain k w1 where s: "n_send srv socket (drop offset data) w = (k, w1)" by fastforce
  show ?case
  proof (cases "offset < length data \<and> 0 < k")
    case False
    then show ?thesis using s up_send [OF assms s] by (subst send_all_loop.simps) (auto split: if_splits)
  next
    case True
    then have "length data - (offset + nat k) < length data - offset" by auto
    from less.hyps [OF this, of w1] up_send [OF assms s] show ?thesis
      using True s by (subst send_all_loop.simps) (auto intro: kept_trans)
  qed
qed

lemma send_all_kept: "upload_host srv input file published \<Longrightarrow> kept input file published w (snd (send_all srv socket data w))"
  unfolding send_all_def by (rule send_all_loop_kept)

lemma respond_kept:
  assumes "upload_host srv input file published"
  shows "kept input file published w (respond srv socket status reason json w)"
  unfolding respond_def Let_def using send_all_kept [OF assms] by (auto intro: kept_trans)

lemma refuse_kept:
  assumes "upload_host srv input file published"
  shows "kept input file published w (refuse srv socket status reason message w)"
  unfolding refuse_def by (rule respond_kept [OF assms])

lemma report_published:
  assumes "upload_host srv input file published" and "report srv i sidecar error w = Some w'"
  shows "published w' = published w"
  using assms(2) up_queue [OF assms(1)] by (auto simp: report_def kept_def split: bind_splits)

lemma write_loop_content:
  fixes srv :: "('w, 'a) service_scheme"
  assumes up: "upload_host srv input file published"
  shows "write_loop srv fd data n w = (failed, w') \<Longrightarrow> n \<le> length data \<Longrightarrow> file w = (fd, p, c) \<Longrightarrow>
    input w' = input w \<and> published w' = published w \<and> (\<not> failed \<longrightarrow> file w' = (fd, p, c @ drop n data))"
proof (induction "length data - n" arbitrary: n w c rule: less_induct)
  case less
  show ?case
  proof (cases "n < length data")
    case False
    then show ?thesis using less.prems by (simp add: write_loop.simps)
  next
    case True
    obtain k w1 where wr: "v_write srv fd (drop n data) w = (k, w1)" by fastforce
    note q = up_write [OF up wr]
    show ?thesis
    proof (cases "k \<le> 0")
      case k: True
      then have "failed" "w' = w1" using less.prems True wr by (simp_all add: write_loop.simps split: if_splits)
      then show ?thesis using q by simp
    next
      case False
      then have nx: "write_loop srv fd data (n + nat k) w1 = (failed, w')"
        using less.prems(1) wr True by (simp add: write_loop.simps [of srv fd data n])
      have "n + nat k \<le> length data" using q True by auto
      moreover have "length data - (n + nat k) < length data - n" using True False by auto
      moreover have "file w1 = (fd, p, c @ take (nat k) (drop n data))" using q less.prems(3) False by simp
      ultimately have "input w' = input w1 \<and> published w' = published w1 \<and>
          (\<not> failed \<longrightarrow> file w' = (fd, p, (c @ take (nat k) (drop n data)) @ drop (n + nat k) data))"
        using less.hyps nx by blast
      moreover have "take (nat k) (drop n data) @ drop (n + nat k) data = drop n data"
        by (metis add.commute append_take_drop_id drop_drop)
      ultimately show ?thesis using q by simp
    qed
  qed
qed

text \<open>The stream of the body is what has been written, what came with the headers and is not written yet, and what is still to come.\<close>

definition body_split ::
    "('w \<Rightarrow> u8 list) \<Rightarrow> ('w \<Rightarrow> int \<times> u8 list \<times> u8 list) \<Rightarrow> int \<Rightarrow> u8 list \<Rightarrow> u8 list \<Rightarrow> u8 list \<Rightarrow> nat \<Rightarrow> 'w \<Rightarrow> bool" where
  "body_split input file fd p body first n w \<longleftrightarrow>
     (\<exists>c. file w = (fd, p, c) \<and> body = c @ (if n = 0 then first else []) @ input w \<and> length c = n)"

lemma receive_loop_content:
  fixes srv :: "('w, 'a) service_scheme"
  assumes up: "upload_host srv input file published"
  shows "body_split input file fd p body first received w \<Longrightarrow>
    receive_loop srv socket fd item sidecar expected first received w = Some (n, failed, w') \<Longrightarrow>
    published w' = published w \<and> (\<not> failed \<longrightarrow> body_split input file fd p body first n w')"
proof (induction "expected - received" arbitrary: received w rule: less_induct)
  case less
  show ?case
  proof (cases "received < expected \<and> \<not> v_stop srv w \<and> \<not> vcm_queue_cancelled (v_queue srv w)")
    case False
    then have "n = received" "w' = w" using less.prems(2) by (subst (asm) receive_loop.simps; auto)+
    then show ?thesis using less.prems(1) by simp
  next
    case True
    define src where "src = (if received = 0 \<and> first \<noteq> [] then Some (first, w)
           else
             let wanted = min (expected - received) 16384 in
             case n_recv srv socket wanted w of (got, bs, w) \<Rightarrow>
               if got \<le> 0 then Some ([], w) else if length bs \<noteq> nat got \<or> length bs > wanted then None else Some (bs, w))"
    have unf: "receive_loop srv socket fd item sidecar expected first received w = do {
       (data, w1) \<leftarrow> src;
       if data = [] then Some (received, True, w1)
       else do {
          let (failure, w) = write_loop srv fd data 0 w1;
          q \<leftarrow> vcm_queue_progress item (of_nat (received + length data)) sidecar (v_queue srv w);
          let w = v_set_queue srv q w;
          if failure then Some (received + length data, True, w)
          else receive_loop srv socket fd item sidecar expected first (received + length data) w
        } }"
      using True unfolding src_def by (subst receive_loop.simps) (simp add: Let_def)
    obtain data w1 where src: "src = Some (data, w1)" using less.prems(2) unfolding unf by (auto split: bind_splits)
    obtain c0 where c0: "file w = (fd, p, c0)" "body = c0 @ (if received = 0 then first else []) @ input w" "length c0 = received"
      using less.prems(1) by (auto simp: body_split_def)
    have d: "file w1 = (fd, p, c0) \<and> published w1 = published w \<and> (data \<noteq> [] \<longrightarrow> body = c0 @ data @ input w1)"
    proof (cases "received = 0 \<and> first \<noteq> []")
      case True
      then show ?thesis using src c0 by (auto simp: src_def)
    next
      case False
      obtain got bs w2 where rv: "n_recv srv socket (min (expected - received) 16384) w = (got, bs, w2)"
        by (cases "n_recv srv socket (min (expected - received) 16384) w") auto
      show ?thesis
        using False rv src c0 up_recv [OF up rv]
        by (auto simp: src_def Let_def split: if_splits)
    qed
    show ?thesis
    proof (cases "data = []")
      case True
      then show ?thesis using less.prems(2) src d unfolding unf by simp
    next
      case False
      obtain failure w2 where wl: "write_loop srv fd data 0 w1 = (failure, w2)" by fastforce
      have le0: "0 \<le> length data" by simp
      note c = write_loop_content [OF up wl le0 d [THEN conjunct1]]
      obtain q where q: "vcm_queue_progress item (of_nat (received + length data)) sidecar (v_queue srv w2) = Some q"
        using less.prems(2) src wl False unfolding unf by (auto split: bind_splits)
      define w3 where "w3 = v_set_queue srv q w2"
      have k: "kept input file published w2 w3" unfolding w3_def by (rule up_queue [OF up])
      have rest: "(if failure then Some (received + length data, True, w3)
          else receive_loop srv socket fd item sidecar expected first (received + length data) w3) = Some (n, failed, w')"
        using less.prems(2) src wl False q unfolding unf w3_def by (simp add: Let_def)
      show ?thesis
      proof (cases failure)
        case True
        then show ?thesis using rest d c k by (auto simp: kept_def)
      next
        case ok: False
        have "body_split input file fd p body first (received + length data) w3"
          using d c k ok False c0(3) by (auto simp: body_split_def kept_def)
        moreover have "expected - (received + length data) < expected - received" using False True by (simp add: diff_less_mono2)
        ultimately have "published w' = published w3 \<and> (\<not> failed \<longrightarrow> body_split input file fd p body first n w')"
          using less.hyps rest ok by simp
        then show ?thesis using d c k by (simp add: kept_def)
      qed
    qed
  qed
qed

lemma finish_file_published:
  assumes up: "upload_host srv input file published"
    and f: "finish_file srv socket fd item sidecar p full failure w = Some w'"
  shows "published w' = published w \<or> \<not> failure \<and>
    (\<exists>data. published w' = (full, data) # published w \<and> (\<forall>f c. file w = (f, p, c) \<longrightarrow> data = c))"
proof -
  obtain failure1 w1 where 1: "(if failure then (True, w) else let (rc, w) = v_sync_file srv fd w in (rc < 0, w)) = (failure1, w1)" by fastforce
  have q1: "kept input file published w w1" "failure \<Longrightarrow> failure1"
    using 1 up_sync_file [OF up] by (cases failure; auto split: prod.splits)+
  obtain rc w2 where 2: "v_close srv fd w1 = (rc, w2)" by fastforce
  define failure2 where "failure2 = (failure1 \<or> rc < 0)"
  obtain failure3 w3 where 3: "(if failure2 then (True, w2) else let (rc, w) = v_rename srv p full w2 in (rc < 0, w)) = (failure3, w3)" by fastforce
  have q: "kept input file published w w2" using kept_trans [OF q1(1) up_close [OF up 2]] .
  have p3: "if failure3 then published w3 = published w2 else \<not> failure2 \<and>
      (\<exists>data. published w3 = (full, data) # published w2 \<and> (\<forall>f c. file w2 = (f, p, c) \<longrightarrow> data = c))"
  proof (cases failure2)
    case True
    then show ?thesis using 3 by simp
  next
    case False
    obtain rc3 w4 where rn: "v_rename srv p full w2 = (rc3, w4)" by fastforce
    then show ?thesis using 3 False up_rename [OF up rn] by (auto split: if_splits)
  qed
  show ?thesis
  proof (cases failure3)
    case True
    have "report srv item sidecar (- 1007) (refuse srv socket 500 ''Internal Server Error'' ''Transfer did not complete''
        (v_remove srv p (v_log srv (ascii ''receive failed'') (- 1) w3))) = Some w'"
      using f True unfolding finish_file_def Let_def 1 [unfolded Let_def] prod.case 2 failure2_def [symmetric] 3 [unfolded Let_def] by simp
    from report_published [OF up this] have "published w' = published w3"
      using refuse_kept [OF up] up_remove [OF up] up_log [OF up] by (simp add: kept_def)
    then show ?thesis using True p3 q by (simp add: kept_def)
  next
    case False
    obtain st w4 where 4: "v_sync srv w3 = (st, w4)" by fastforce
    define w5 where "w5 = v_log srv (ascii ''receive published'') 0
       (if st < 0 then v_log srv (ascii ''sync published upload'') st w4 else w4)"
    have k5: "published w5 = published w3"
      using up_sync [OF up 4] up_log [OF up] unfolding w5_def by (cases "st < 0") (simp_all add: kept_def)
    obtain w6 where w6: "report srv item sidecar (if st < 0 then - 1003 else 0) w5 = Some w6"
      "w' = respond srv socket 201 (ascii ''Created'')
               (if st < 0 then ascii ''{\"ok\":true,\"state\":\"received\",\"durable\":false}''
                else ascii ''{\"ok\":true,\"state\":\"received\",\"durable\":true}'') w6"
      using f unfolding finish_file_def Let_def 1 [unfolded Let_def] prod.case 2 failure2_def [symmetric] 3 [unfolded Let_def]
        4 w5_def [symmetric] using False by (auto simp del: ascii_simps split: bind_splits)
    from report_published [OF up w6(1)] respond_kept [OF up] have "published w' = published w3"
      unfolding w6(2) using k5 by (simp add: kept_def)
    then show ?thesis using False p3 q q1(2) by (auto simp: kept_def failure2_def)
  qed
qed

lemma receive_file_published:
  assumes up: "upload_host srv input file published" and rf: "receive_file srv socket name expected first w = Some w'"
  shows "published w' = published w \<or>
    (published w' = (inbox @ ascii ''/'' @ name, take (unat expected) (first @ input w)) # published w \<and>
     0 < expected \<and> unat expected \<le> length (first @ input w) \<and> length (inbox @ ascii ''/'' @ name) < 180)"
proof (cases "expected = 0 \<or> expected > 8 * 1024 * 1024 * 1024 \<or> of_nat (length first) > expected")
  case True
  then have "w' = refuse srv socket 413 ''Payload Too Large'' ''Invalid file size'' w" using rf by (simp add: receive_file_def)
  then show ?thesis using refuse_kept [OF up] by (simp add: kept_def)
next
  case False
  from rf obtain k sc q where f: "vcm_queue_find name expected (v_queue srv w) = Some (k, sc, q)"
    unfolding receive_file_def if_not_P [OF False] by (auto split: bind_splits)
  define sidecar w1 where "sidecar = (sc = Some True)" and "w1 = v_set_queue srv q w"
  have k1: "kept input file published w w1" unfolding w1_def by (rule up_queue [OF up])
  have refused: "published w2 = published w1" if "report srv i s e (refuse srv socket a b c w1) = Some w2" for i s e a b c w2
    using report_published [OF up that] refuse_kept [OF up] by (simp add: kept_def)
  obtain space mx fr where dc: "v_devctl srv w1 = (space, mx, fr)" by (cases "v_devctl srv w1")
  define full where "full = inbox @ ascii ''/'' @ name"
  define part where "part = take 189 (full @ ascii ''.vcm-part'')"
  obtain fd w2 where op: "v_open srv part Create_New w1 = (fd, w2)" by fastforce
  note o2 = up_open [OF up op]
  have unf: "receive_file srv socket name expected first w =
    (if k < 0 then Some (refuse srv socket 409 ''Conflict'' ''File does not match the active queue'' w1)
     else if space < 0 \<or> fr < 0 \<or> word_of_int fr < expected + 8 * 1024 * 1024
            then report srv k sidecar (- 1006) (refuse srv socket 507 ''Insufficient Storage'' ''Not enough Vita storage'' w1)
            else if length full \<ge> 180
              then report srv k sidecar (- 1) (refuse srv socket 400 ''Bad Request'' ''Invalid file name'' w1)
              else if dev_stat (v_device srv w1) full \<noteq> None \<or> dev_stat (v_device srv w1) part \<noteq> None
                then report srv k sidecar (- 1002) (refuse srv socket 409 ''Conflict'' ''Transfer ID already exists'' w1)
                else if fd < 0 then
                    report srv k sidecar fd (refuse srv socket 500 ''Internal Server Error'' ''Cannot create file''
                      (v_log srv (ascii ''create partial'') fd w2))
                  else do {
                    (received, failure, w) \<leftarrow> receive_loop srv socket fd k sidecar (unat expected) first 0 w2;
                    finish_file srv socket fd k sidecar part full (failure \<or> received \<noteq> unat expected) w })"
    unfolding receive_file_def if_not_P [OF False] f(1) Option.bind.simps prod.case Let_def w1_def [symmetric] sidecar_def [symmetric]
      dc full_def [symmetric] part_def [symmetric] op ..
  show ?thesis
  proof (cases "k < 0 \<or> space < 0 \<or> fr < 0 \<or> word_of_int fr < expected + 8 * 1024 * 1024 \<or> length full \<ge> 180 \<or>
      dev_stat (v_device srv w1) full \<noteq> None \<or> dev_stat (v_device srv w1) part \<noteq> None")
    case True
    then have "published w' = published w1"
      using rf refused refuse_kept [OF up] unfolding unf by (auto simp: kept_def split: if_splits)
    then show ?thesis using k1 by (simp add: kept_def)
  next
    case go: False
    show ?thesis
    proof (cases "fd < 0")
      case True
      then have "report srv k sidecar fd (refuse srv socket 500 ''Internal Server Error'' ''Cannot create file''
          (v_log srv (ascii ''create partial'') fd w2)) = Some w'"
        using rf go unfolding unf by simp
      from report_published [OF up this] show ?thesis
        using refuse_kept [OF up] up_log [OF up] o2 k1 by (simp add: kept_def)
    next
      case opened: False
      then obtain n failed w3 where rl: "receive_loop srv socket fd k sidecar (unat expected) first 0 w2 = Some (n, failed, w3)"
        "finish_file srv socket fd k sidecar part full (failed \<or> n \<noteq> unat expected) w3 = Some w'"
        using rf go unfolding unf by (auto split: bind_splits)
      have "body_split input file fd part (first @ input w) first 0 w2"
        using o2 k1 opened by (simp add: body_split_def kept_def)
      from receive_loop_content [OF up this rl(1)] have c:
        "published w3 = published w" "\<not> failed \<Longrightarrow> body_split input file fd part (first @ input w) first n w3"
        using o2 k1 by (simp_all add: kept_def)
      have "0 < expected" using False by (simp add: word_neq_0_conv)
      moreover have "0 < unat expected" using False by (simp add: unat_gt_0)
      moreover have "file w3 = (fd, part, take (unat expected) (first @ input w)) \<and> unat expected \<le> length (first @ input w)"
        if "\<not> failed" "n = unat expected"
      proof -
        note split = c(2) [OF that(1)] that(2)
        obtain b where "file w3 = (fd, part, b)" "first @ input w = b @ input w3" "length b = unat expected"
          using split \<open>0 < unat expected\<close> by (auto simp: body_split_def)
        then show ?thesis by (metis append_eq_conv_conj length_append le_add1)
      qed
      ultimately show ?thesis
        using finish_file_published [OF up rl(2)] c(1) go unfolding full_def by fastforce
    qed
  qed
qed

lemma body_loop_published:
  fixes srv :: "('w, 'a) service_scheme"
  assumes up: "upload_host srv input file published"
  shows "body_loop srv socket n body w = Some (r, w') \<Longrightarrow> published w' = published w"
proof (induction "n - length body" arbitrary: body w rule: less_induct)
  case less
  show ?case
  proof (cases "length body < n")
    case False
    then show ?thesis using less.prems by (subst (asm) body_loop.simps) simp
  next
    case True
    obtain got bs w1 where rv: "n_recv srv socket (n - length body) w = (got, bs, w1)"
      by (cases "n_recv srv socket (n - length body) w") auto
    note q = up_recv [OF up rv]
    show ?thesis
    proof (cases "got \<le> 0")
      case got: True
      then show ?thesis using less.prems True rv q by (simp add: body_loop.simps [of srv socket n body])
    next
      case False
      then have l: "length bs = nat got" "body_loop srv socket n (body @ bs) w1 = Some (r, w')"
        using less.prems True rv by (simp_all add: body_loop.simps [of srv socket n body] split: if_splits)
      then have "n - length (body @ bs) < n - length body" using False True by auto
      from less.hyps [OF this l(2)] q show ?thesis by simp
    qed
  qed
qed

text \<open>Where a request may have published a file.\<close>

definition publishes :: "('w \<Rightarrow> (u8 list \<times> u8 list) list) \<Rightarrow> 'w \<Rightarrow> (u8 list \<Rightarrow> u8 list \<Rightarrow> bool) \<Rightarrow> 'w option \<Rightarrow> bool" where
  "publishes published w good r \<longleftrightarrow> (\<forall>w'. r = Some w' \<longrightarrow>
     published w' = published w \<or> (\<exists>name data. good name data \<and> published w' = (inbox @ ascii ''/'' @ name, data) # published w))"

lemma publishes_rules:
  shows publishes_same: "published w1 = published w \<Longrightarrow> publishes published w good (Some w1)"
    and publishes_if: "(g \<Longrightarrow> publishes published w good r) \<Longrightarrow> (\<not> g \<Longrightarrow> publishes published w good r') \<Longrightarrow>
      publishes published w good (if g then r else r')"
    and publishes_bind: "(\<And>x. m = Some x \<Longrightarrow> publishes published w good (f x)) \<Longrightarrow> publishes published w good (m \<bind> f)"
    and publishes_prod: "(\<And>x y. p = (x, y) \<Longrightarrow> publishes published w good (k x y)) \<Longrightarrow> publishes published w good (case p of (x, y) \<Rightarrow> k x y)"
    and publishes_option: "(o1 = None \<Longrightarrow> publishes published w good r) \<Longrightarrow> (\<And>x. o1 = Some x \<Longrightarrow> publishes published w good (h x)) \<Longrightarrow>
      publishes published w good (case o1 of None \<Rightarrow> r | Some x \<Rightarrow> h x)"
  by (auto simp: publishes_def split: prod.split option.split bind_splits)

lemma replies_published:
  assumes "upload_host srv input file published"
  shows "published (v_set_queue srv q w1) = published w1" "published (refuse srv socket a b c w1) = published w1"
    "published (respond srv socket a d e w1) = published w1"
  using up_queue [OF assms] refuse_kept [OF assms] respond_kept [OF assms] by (auto simp: kept_def)

lemma publish_queue_published:
  assumes up: "upload_host srv input file published"
  shows "publishes published w good (publish_queue srv socket n first w)"
  unfolding publish_queue_def Let_def
  by (intro publishes_if publishes_bind publishes_prod publishes_option publishes_same)
    (auto simp: replies_published [OF up] dest!: body_loop_published [OF up])

lemma sync_request_published:
  assumes up: "upload_host srv input file published"
  shows "publishes published w good (sync_queue_request srv socket w)"
  unfolding sync_queue_request_def Let_def
  by (intro publishes_if publishes_bind publishes_prod publishes_same) (simp_all add: replies_published [OF up])

text \<open>
  C3. Uploads arrive whole or not at all. Handling a request renames at most one file into the inbox. If it does, the request was an upload; the name
  is 32 hexadecimal digits with an allowed extension, so it cannot leave the inbox; and the file holds exactly the announced number of bytes, the ones that
  the client sent behind the headers.
\<close>

theorem uploads_exact:
  assumes "upload_host srv input file published" and "reachable s" and "tracked srv s None w"
    and "handle_transfer srv junk socket is_loopback line rest body w = Some w'"
  shows "published w' = published w \<or>
    (\<exists>name n. published w' = (inbox @ ascii ''/'' @ name, take n (body @ input w)) # published w \<and> starts (ascii ''PUT '') line \<and>
      safe_name name \<and> n = unat (x_length (parse_headers rest)) \<and> 0 < n \<and> n \<le> length (body @ input w))"
proof -
  note up = assms(1)
  define good where "good = (\<lambda>name data. starts (ascii ''PUT '') line \<and> safe_name name \<and>
    (\<exists>n. data = take n (body @ input w) \<and> n = unat (x_length (parse_headers rest)) \<and> 0 < n \<and> n \<le> length (body @ input w)))"
  have no: "publishes published w good (Some (refuse srv socket a b c w))" for a b c
    by (rule publishes_same) (simp add: replies_published [OF up])
  have yes: "publishes published w good (Some (respond srv socket a b c (v_set_queue srv q w)))" for a b c q
    by (rule publishes_same) (simp add: replies_published [OF up])
  have rcv: "publishes published w good (receive_file srv socket name (x_length (parse_headers rest)) body w)"
    if "starts (ascii ''PUT '') line" "safe_name name" for name
    unfolding publishes_def good_def using receive_file_published [OF up] that
    by (fastforce simp: word_less_nat_alt simp del: ascii_simps)
  have nm: "safe_name name" if "put_name srv junk lb target w = Some (Some name, usb)" for lb target name usb
    using put_name_total [OF assms(2,3), of junk lb target] that by auto
  have "publishes published w good (handle_transfer srv junk socket is_loopback line rest body w)"
    unfolding handle_transfer_def Let_def
    by (intro publishes_if publishes_bind publishes_prod publishes_option no yes publish_queue_published [OF up]
        sync_request_published [OF up] rcv) (auto dest: nm simp del: ascii_simps split: if_splits)
  with assms(4) show ?thesis unfolding publishes_def good_def by blast
qed

lemma sample_upload_host: "upload_host sample_service sw_input sw_file sw_published"
  unfolding upload_host_def kept_def by (intro conjI allI) (auto simp: sample_service_def Let_def split: prod.splits)


theorem uploads_exact_witness:
  "\<exists>w'. handle_transfer sample_service (\<lambda>_. 0) 3 False (ascii ''PUT /v2/files/'' @ sample_id @ ascii ''.jpg HTTP/1.1'')
      (ascii ''Content-Length: 5'' @ [13, 10] @ ascii ''X-VCM-Queue: '' @ sample_id) (ascii ''he'') (sample_console (ascii ''llo'')) = Some w' \<and>
    (sw_published w' = [] \<or> (\<exists>name. sw_published w' = [(inbox @ ascii ''/'' @ name, ascii ''hello'')] \<and> safe_name name))"
proof -
  let ?line = "ascii ''PUT /v2/files/'' @ sample_id @ ascii ''.jpg HTTP/1.1''"
  let ?rest = "ascii ''Content-Length: 5'' @ [13, 10] @ ascii ''X-VCM-Queue: '' @ sample_id"
  obtain w' where w': "handle_transfer sample_service (\<lambda>_. 0) 3 False ?line ?rest (ascii ''he'') (sample_console (ascii ''llo'')) = Some w'"
    using transfer_drives [OF sample_service_ok sample_console_tracked(1,2)] unfolding drives_def by blast
  have n: "unat (x_length (parse_headers ?rest)) = 5"
    by code_simp
  have "sw_published (sample_console (ascii ''llo'')) = []" "take 5 (ascii ''he'' @ sw_input (sample_console (ascii ''llo''))) = ascii ''hello''"
    by (simp_all add: sample_console_def)
  with uploads_exact [OF sample_upload_host sample_console_tracked(1,2) w'] w' show ?thesis unfolding n by auto
qed

end
