(* ===== verification/Wifi_Serve.thy ===== *)
theory Wifi_Serve
  imports Wifi_Safety
begin

text \<open>
  The life of the network service in \<^verbatim>\<open>src/vita/wifi_service.c\<close>: its start, the listener that moves between all interfaces and the loopback
  interface when USB mode is switched, and the loop that accepts one client after the other.
\<close>

subsection \<open>Flags and the log\<close>

text \<open>The flags that the threads share, and the operations of the user interface on them.\<close>

record wifi_flags =
  g_stop :: bool
  g_listening :: bool
  g_netctl_ready :: bool
  g_usb_mode_enabled :: bool
  g_usb_catalog_served :: bool

definition vcm_wifi_stop :: "wifi_flags \<Rightarrow> wifi_flags" where
  "vcm_wifi_stop f = f\<lparr>g_usb_mode_enabled := False, g_stop := True\<rparr>"

definition vcm_usb_mode_set :: "int \<Rightarrow> wifi_flags \<Rightarrow> wifi_flags" where
  "vcm_usb_mode_set enabled f = f\<lparr>g_usb_catalog_served := False, g_usb_mode_enabled := enabled \<noteq> 0\<rparr>"

definition vcm_usb_catalog_connection_lost :: "wifi_flags \<Rightarrow> wifi_flags" where
  "vcm_usb_catalog_connection_lost f = f\<lparr>g_usb_catalog_served := False\<rparr>"

text \<open>A line of the log, which \<open>v_log\<close> stands for in the handlers; the file is opened, written and closed by the three functions.\<close>

definition log_event ::
    "(u8 list \<Rightarrow> 'w \<Rightarrow> int \<times> 'w) \<Rightarrow> (int \<Rightarrow> u8 list \<Rightarrow> 'w \<Rightarrow> 'w) \<Rightarrow> (int \<Rightarrow> 'w \<Rightarrow> 'w) \<Rightarrow> u8 list \<Rightarrow> u32 \<Rightarrow> 'w \<Rightarrow> 'w" where
  "log_event open_log write_log close_log event status w =
     (let (fd, w) = open_log (ascii ''ux0:/data/vita-content-manager/vcm-wifi.log'') w in
      if fd < 0 then w
      else
        let line = event @ ascii '' 0x'' @ hex8 status @ [10];
            w = (if length line < 160 then write_log fd line w else w)
        in close_log fd w)"

subsection \<open>The calls of the service loop\<close>

text \<open>
  An accepted connection comes with the address of its peer: whether the record was filled as a whole, the address family and the address in the
  order of the host. Flags that other threads read are set by calls of their own.
\<close>

record 'w listener = "'w service" +
  l_mkdir :: "u8 list \<Rightarrow> 'w \<Rightarrow> int \<times> 'w"
  l_directory :: "u8 list \<Rightarrow> 'w \<Rightarrow> int \<times> bool"
  l_load_net :: "'w \<Rightarrow> int \<times> 'w"
  l_net_init :: "'w \<Rightarrow> int \<times> 'w"
  l_ctl_init :: "'w \<Rightarrow> int \<times> 'w"
  l_ctl_term :: "'w \<Rightarrow> 'w"
  l_reuse :: "int \<Rightarrow> 'w \<Rightarrow> 'w"
  l_nonblocking :: "int \<Rightarrow> 'w \<Rightarrow> int \<times> 'w"
  l_bind :: "int \<Rightarrow> u32 \<Rightarrow> u16 \<Rightarrow> 'w \<Rightarrow> int \<times> 'w"
  l_listen :: "int \<Rightarrow> 'w \<Rightarrow> int \<times> 'w"
  l_accept :: "int \<Rightarrow> 'w \<Rightarrow> int \<times> (bool \<times> bool \<times> u32) \<times> 'w"
  l_errno :: "'w \<Rightarrow> int"
  l_again :: "int \<Rightarrow> bool"
  l_delay :: "nat \<Rightarrow> 'w \<Rightarrow> 'w"
  l_set_stop :: "bool \<Rightarrow> 'w \<Rightarrow> 'w"
  l_set_listening :: "bool \<Rightarrow> 'w \<Rightarrow> 'w"
  l_set_ready :: "bool \<Rightarrow> 'w \<Rightarrow> 'w"

definition ensure_directory :: "('w, 'a) listener_scheme \<Rightarrow> u8 list \<Rightarrow> 'w \<Rightarrow> int \<times> 'w" where
  "ensure_directory srv path w =
     (let (status, w) = l_mkdir srv path w in
      if status \<ge> 0 then (0, w)
      else
        let (found, directory) = l_directory srv path w in
        if found < 0 \<or> \<not> directory then (status, w) else (0, w))"

definition loopback_address :: u32 where "loopback_address = 0x7f000001"

definition open_listener :: "('w, 'a) listener_scheme \<Rightarrow> bool \<Rightarrow> 'w \<Rightarrow> int \<times> 'w" where
  "open_listener srv loopback_only w =
     (let (server, w) = n_socket srv w in
      if server < 0 then (server, w)
      else
        let w = l_reuse srv server w;
            (status, w) = l_nonblocking srv server w;
            address = (if loopback_only then loopback_address else 0);
            (status, w) = (if status \<ge> 0 then l_bind srv server address 39323 w else (status, w));
            (status, w) = (if status \<ge> 0 then l_listen srv server w else (status, w))
        in if status < 0 then (status, n_close srv server w) else (server, w))"

subsection \<open>The loop\<close>

text \<open>What a turn starts with: the listening socket and the interface it is bound to.\<close>

definition is_loopback_peer :: "bool \<times> bool \<times> u32 \<Rightarrow> bool" where
  "is_loopback_peer peer = (case peer of (filled, inet, address) \<Rightarrow> filled \<and> inet \<and> address = loopback_address)"

text \<open>Switching the listener: \<^term>\<open>False\<close> when that failed and the turn is over.\<close>

definition switch_listener :: "('w, 'a) listener_scheme \<Rightarrow> int \<Rightarrow> bool \<Rightarrow> 'w \<Rightarrow> bool \<times> int \<times> bool \<times> 'w" where
  "switch_listener srv server loopback_only w =
     (let want_loopback = v_usb_mode srv w in
      if want_loopback \<noteq> loopback_only \<or> server < 0 then
        let w = l_set_listening srv False w;
            w = (if server \<ge> 0 then n_close srv server w else w);
            (server, w) = open_listener srv want_loopback w
        in if server < 0 then
             (False, server, loopback_only, l_delay srv 250000 (v_log srv (ascii ''switch listener'') server w))
           else
             (True, server, want_loopback, v_log srv
               (if want_loopback then ascii ''USB loopback only'' else ascii ''Wi-Fi listener restored'') 0 (l_set_listening srv True w))
      else (True, server, loopback_only, w))"

text \<open>A turn of the loop: the flag says whether the loop is left.\<close>

definition serve_turn ::
    "('w, 'a) listener_scheme \<Rightarrow> (nat \<Rightarrow> u8) \<Rightarrow> u8 list \<Rightarrow> u8 list \<Rightarrow> VcmMtpSnapshot \<Rightarrow> int \<Rightarrow> bool \<Rightarrow> 'w \<Rightarrow>
      (bool \<times> int \<times> bool \<times> 'w) option" where
  "serve_turn srv junk slack pad uninit server loopback_only w =
     (case switch_listener srv server loopback_only w of (ready, server, loopback_only, w) \<Rightarrow>
        if \<not> ready then Some (False, server, loopback_only, w)
        else
          (case l_accept srv server w of (client, peer, w) \<Rightarrow>
             if client \<ge> 0 then do {
               w \<leftarrow> handle_client srv junk slack pad uninit client (is_loopback_peer peer) w;
               Some (False, server, loopback_only, n_close srv client w)
             }
             else
               let error = l_errno srv w in
               if \<not> l_again srv error then Some (True, server, loopback_only, v_log srv (ascii ''accept'') error w)
               else Some (False, server, loopback_only, l_delay srv 50000 w)))"

text \<open>At most \<open>fuel\<close> turns; the flag of the result says whether the loop has been left.\<close>

fun serve_loop ::
    "('w, 'a) listener_scheme \<Rightarrow> (nat \<Rightarrow> u8) \<Rightarrow> u8 list \<Rightarrow> u8 list \<Rightarrow> VcmMtpSnapshot \<Rightarrow> nat \<Rightarrow> int \<Rightarrow> bool \<Rightarrow> 'w \<Rightarrow>
      (bool \<times> int \<times> 'w) option" where
  "serve_loop srv junk slack pad uninit 0 server loopback_only w = Some (v_stop srv w, server, w)"
| "serve_loop srv junk slack pad uninit (Suc fuel) server loopback_only w =
     (if v_stop srv w then Some (True, server, w)
      else do {
        (left, server, loopback_only, w) \<leftarrow> serve_turn srv junk slack pad uninit server loopback_only w;
        if left then Some (True, server, w) else serve_loop srv junk slack pad uninit fuel server loopback_only w
      })"

text \<open>The status is \<^term>\<open>None\<close> while the service is still running after \<open>fuel\<close> turns.\<close>

definition data_root :: "u8 list" where "data_root = ascii ''ux0:/data/vita-content-manager''"

definition run_service ::
    "('w, 'a) listener_scheme \<Rightarrow> (nat \<Rightarrow> u8) \<Rightarrow> u8 list \<Rightarrow> u8 list \<Rightarrow> VcmMtpSnapshot \<Rightarrow> nat \<Rightarrow> 'w \<Rightarrow> (int option \<times> 'w) option" where
  "run_service srv junk slack pad uninit fuel w =
     (let (netctl_status, w) = l_ctl_init srv w;
          w = (if netctl_status < 0 then v_log srv (ascii ''initialize netctl'') netctl_status w else l_set_ready srv True w);
          loopback_only = v_usb_mode srv w;
          (server, w) = open_listener srv loopback_only w
      in if server < 0 then
           let w = l_set_ready srv False (v_log srv (ascii ''listen'') server w)
           in Some (Some server, if netctl_status \<ge> 0 then l_ctl_term srv w else w)
         else do {
           let w = v_log srv (ascii ''listening on port 39323'') 0 (l_set_listening srv True w);
           (left, server, w) \<leftarrow> serve_loop srv junk slack pad uninit fuel server loopback_only w;
           if \<not> left then Some (None, w)
           else
             let w = l_set_ready srv False (l_set_listening srv False w);
                 w = (if netctl_status \<ge> 0 then l_ctl_term srv w else w)
             in Some (Some 0, if server \<ge> 0 then n_close srv server w else w)
         })"

definition vcm_wifi_serve ::
    "('w, 'a) listener_scheme \<Rightarrow> (nat \<Rightarrow> u8) \<Rightarrow> u8 list \<Rightarrow> u8 list \<Rightarrow> VcmMtpSnapshot \<Rightarrow> nat \<Rightarrow> 'w \<Rightarrow> (int option \<times> 'w) option" where
  "vcm_wifi_serve srv junk slack pad uninit fuel w =
     (let w = l_set_listening srv False (l_set_stop srv False w);
          (status, w) = ensure_directory srv data_root w
      in if status < 0 then Some (Some status, w)
         else
           let (status, w) = ensure_directory srv inbox w
           in if status < 0 then Some (Some status, v_log srv (ascii ''create Wi-Fi inbox'') status w)
              else
                let (status, w) = l_load_net srv w
                in if status < 0 then Some (Some status, v_log srv (ascii ''load network module'') status w)
                   else
                     let (status, w) = l_net_init srv w
                     in if status < 0 then Some (Some status, v_log srv (ascii ''initialize network'') status w)
                        else run_service srv junk slack pad uninit fuel w)"

subsection \<open>The address shown to the user\<close>

text \<open>
  The state of the network is the status of the query with whether a connection is up, and the status and text of the address; the result holds
  the array with the address when there is one.
\<close>

definition vcm_wifi_ip_address ::
    "bool \<Rightarrow> int \<times> bool \<Rightarrow> int \<times> u8 list \<Rightarrow> u8 list option \<Rightarrow> nat \<Rightarrow> (int \<times> u8 list option) option" where
  "vcm_wifi_ip_address netctl_ready state info address capacity =
     (case address of
        None \<Rightarrow> Some (- 1, None)
      | Some out \<Rightarrow>
          if capacity < 16 \<or> \<not> netctl_ready then Some (- 1, address)
          else if fst state < 0 \<or> \<not> snd state \<or> fst info < 0 \<or> snd info = [] \<or> snd info = ascii ''0.0.0.0'' then Some (- 1, address)
          else do {
            (len, out) \<leftarrow> snprintf out capacity (snd info);
            Some (if len > 0 \<and> len < int capacity then 0 else - 1, Some out)
          })"

lemma ip_address_whole:
  assumes "16 \<le> capacity" and "capacity \<le> length out" and "0 \<notin> set t" and "length t < capacity"
    and "vcm_wifi_ip_address ready state (0, t) (Some out) capacity = Some (0, Some out')"
  shows "c_string out' = Some t \<and> t \<noteq> [] \<and> ready \<and> snd state"
  using assms snprintf_fits [OF assms(4,2,3)] by (auto simp: vcm_wifi_ip_address_def split: if_splits)

subsection \<open>The service as a whole\<close>

text \<open>Every further call leaves the queue to the other threads.\<close>

definition listen_host :: "('w, 'a) listener_scheme \<Rightarrow> bool" where
  "listen_host srv \<longleftrightarrow> service_host srv \<and>
     (\<forall>p w. quiet srv w (snd (l_mkdir srv p w))) \<and> (\<forall>w. quiet srv w (snd (l_load_net srv w))) \<and>
     (\<forall>w. quiet srv w (snd (l_net_init srv w))) \<and> (\<forall>w. quiet srv w (snd (l_ctl_init srv w))) \<and> (\<forall>w. quiet srv w (l_ctl_term srv w)) \<and>
     (\<forall>w. quiet srv w (snd (n_socket srv w))) \<and> (\<forall>s w. quiet srv w (n_close srv s w)) \<and> (\<forall>s w. quiet srv w (l_reuse srv s w)) \<and>
     (\<forall>s w. quiet srv w (snd (l_nonblocking srv s w))) \<and> (\<forall>s a p w. quiet srv w (snd (l_bind srv s a p w))) \<and>
     (\<forall>s w. quiet srv w (snd (l_listen srv s w))) \<and> (\<forall>s w. quiet srv w (snd (snd (l_accept srv s w)))) \<and>
     (\<forall>n w. quiet srv w (l_delay srv n w)) \<and> (\<forall>b w. quiet srv w (l_set_stop srv b w)) \<and>
     (\<forall>b w. quiet srv w (l_set_listening srv b w)) \<and> (\<forall>b w. quiet srv w (l_set_ready srv b w))"

lemma listen_calls:
  assumes "listen_host srv"
  shows listen_service: "service_host srv"
    and "quiet srv w (snd (l_mkdir srv p w))" "quiet srv w (snd (l_load_net srv w))" "quiet srv w (snd (l_net_init srv w))"
      "quiet srv w (snd (l_ctl_init srv w))" "quiet srv w (l_ctl_term srv w)" "quiet srv w (snd (n_socket srv w))"
      "quiet srv w (n_close srv k w)" "quiet srv w (l_reuse srv k w)" "quiet srv w (snd (l_nonblocking srv k w))"
      "quiet srv w (snd (l_bind srv k a port w))" "quiet srv w (snd (l_listen srv k w))" "quiet srv w (snd (snd (l_accept srv k w)))"
      "quiet srv w (l_delay srv n w)" "quiet srv w (l_set_stop srv b w)" "quiet srv w (l_set_listening srv b w)" "quiet srv w (l_set_ready srv b w)"
  using assms unfolding listen_host_def by simp_all

text \<open>Composition of quiet calls: each rule puts one call in front.\<close>

lemma quiet_pair: "quiet srv w (snd p) \<Longrightarrow> (\<And>a w1. p = (a, w1) \<Longrightarrow> quiet srv w w1 \<Longrightarrow> quiet srv w (snd (k a w1))) \<Longrightarrow>
    quiet srv w (snd (case p of (a, w1) \<Rightarrow> k a w1))"
  by (cases p) simp

lemma quiet_if: "(c \<Longrightarrow> quiet srv w (snd x)) \<Longrightarrow> (\<not> c \<Longrightarrow> quiet srv w (snd y)) \<Longrightarrow> quiet srv w (snd (if c then x else y))"
  by simp

lemma ensure_directory_quiet: "listen_host srv \<Longrightarrow> quiet srv w (snd (ensure_directory srv p w))"
  using listen_calls(2) [of srv w p] by (auto simp: ensure_directory_def Let_def split: prod.splits)

lemma open_listener_quiet:
  assumes h: "listen_host srv"
  shows "quiet srv w (snd (open_listener srv lo w))"
proof -
  obtain k w1 where 1: "n_socket srv w = (k, w1)" by fastforce
  obtain r w3 where 3: "l_nonblocking srv k (l_reuse srv k w1) = (r, w3)" by fastforce
  have q1: "quiet srv w w1" using listen_calls(7) [OF h, of w] 1 by simp
  have q3: "quiet srv w w3"
    using quiet_trans [OF q1 quiet_trans [OF listen_calls(9) [OF h, of w1 k] listen_calls(10) [OF h, of "l_reuse srv k w1" k]]] 3 by simp
  obtain r4 w4 where 4: "(if r \<ge> 0 then l_bind srv k (if lo then loopback_address else 0) 39323 w3 else (r, w3)) = (r4, w4)" by fastforce
  have q4: "quiet srv w w4"
    using q3 quiet_trans [OF q3 listen_calls(11) [OF h, of w3 k "if lo then loopback_address else 0" 39323]] 4 by (auto split: if_splits)
  obtain r5 w5 where 5: "(if r4 \<ge> 0 then l_listen srv k w4 else (r4, w4)) = (r5, w5)" by fastforce
  have q5: "quiet srv w w5" using q4 quiet_trans [OF q4 listen_calls(12) [OF h, of w4 k]] 5 by (auto split: if_splits)
  show ?thesis
    unfolding open_listener_def Let_def 1 prod.case 3 4 5 using q1 q5 quiet_trans [OF q5 listen_calls(8) [OF h, of w5 k]] by simp
qed

lemma switch_listener_quiet:
  assumes h: "listen_host srv" and sw: "switch_listener srv server lo w = (ready, server', lo', w')"
  shows "quiet srv w w'"
proof (cases "v_usb_mode srv w \<noteq> lo \<or> server < 0")
  case False
  then show ?thesis using sw by (simp add: switch_listener_def)
next
  case True
  let ?w1 = "l_set_listening srv False w"
  define w2 where "w2 = (if server \<ge> 0 then n_close srv server ?w1 else ?w1)"
  have q1: "quiet srv w ?w1" by (rule listen_calls(16) [OF h])
  have q2: "quiet srv w w2" using q1 quiet_trans [OF q1 listen_calls(8) [OF h, of ?w1 server]] by (simp add: w2_def)
  obtain k w3 where 3: "open_listener srv (v_usb_mode srv w) w2 = (k, w3)" by fastforce
  have q3: "quiet srv w w3" using quiet_trans [OF q2 open_listener_quiet [OF h, of w2 "v_usb_mode srv w"]] 3 by simp
  have log: "quiet srv x (v_log srv e st x)" for x e st by (rule host_log [OF listen_service [OF h]])
  have "w' = (if k < 0 then l_delay srv 250000 (v_log srv (ascii ''switch listener'') k w3)
      else v_log srv (if v_usb_mode srv w then ascii ''USB loopback only'' else ascii ''Wi-Fi listener restored'') 0 (l_set_listening srv True w3))"
    using sw True 3 unfolding switch_listener_def Let_def w2_def [symmetric] by (auto split: if_splits)
  then show ?thesis
    using quiet_trans [OF q3 quiet_trans [OF log listen_calls(14) [OF h]]] quiet_trans [OF q3 quiet_trans [OF listen_calls(16) [OF h] log]]
    by (simp split: if_splits)
qed

lemma serve_turn_drives:
  assumes h: "listen_host srv" and r: "reachable s0" and t: "tracked srv s0 None w" and "2 \<le> length slack" and "length pad = 5"
  shows "\<exists>left server' lo' w'. serve_turn srv junk slack pad uninit server lo w = Some (left, server', lo', w') \<and> tracked srv s0 None w'"
proof -
  obtain ready k lo' w1 where sw: "switch_listener srv server lo w = (ready, k, lo', w1)" by (metis prod_cases4)
  have t1: "tracked srv s0 None w1" by (rule tracked_quiet [OF r t switch_listener_quiet [OF h sw]])
  obtain client peer w2 where ac: "l_accept srv k w1 = (client, peer, w2)" by (metis prod_cases3)
  have t2: "tracked srv s0 None w2" using tracked_quiet [OF r t1 listen_calls(13) [OF h, of w1 k]] ac by simp
  obtain w3 where cl: "handle_client srv junk slack pad uninit client (is_loopback_peer peer) w2 = Some w3" "tracked srv s0 None w3"
    using client_drives [OF listen_service [OF h] r t2 assms(4,5)] unfolding drives_def by blast
  have "tracked srv s0 None (n_close srv client w3)" by (rule tracked_quiet [OF r cl(2) listen_calls(8) [OF h]])
  moreover have "tracked srv s0 None (v_log srv e st w2)" "tracked srv s0 None (l_delay srv n w2)" for e st n
    using tracked_quiet [OF r t2] host_log [OF listen_service [OF h]] listen_calls(14) [OF h] by blast+
  ultimately show ?thesis using t1 unfolding serve_turn_def sw prod.case ac Let_def by (auto simp: cl(1))
qed

lemma serve_loop_drives:
  assumes h: "listen_host srv" and r: "reachable s0" and "2 \<le> length slack" and "length pad = 5"
  shows "tracked srv s0 None w \<Longrightarrow>
    \<exists>left server' w'. serve_loop srv junk slack pad uninit fuel server lo w = Some (left, server', w') \<and> tracked srv s0 None w'"
proof (induction fuel arbitrary: server lo w)
  case (Suc fuel)
  show ?case
  proof (cases "v_stop srv w")
    case False
    obtain left k lo' w1 where "serve_turn srv junk slack pad uninit server lo w = Some (left, k, lo', w1)" "tracked srv s0 None w1"
      using serve_turn_drives [OF h r Suc.prems assms(3,4)] by blast
    with Suc.IH [of w1 k lo'] False show ?thesis by auto
  qed (use Suc.prems in auto)
qed simp

lemma run_service_drives:
  assumes h: "listen_host srv" and r: "reachable s0" and t: "tracked srv s0 None w" and "2 \<le> length slack" and "length pad = 5"
  shows "\<exists>status w'. run_service srv junk slack pad uninit fuel w = Some (status, w') \<and> tracked srv s0 None w'"
proof -
  note q = tracked_quiet [OF r] and log = host_log [OF listen_service [OF h]]
  obtain ctl w1 where 1: "l_ctl_init srv w = (ctl, w1)" by fastforce
  have t1: "tracked srv s0 None w1" using q [OF t listen_calls(5) [OF h, of w]] 1 by simp
  define w2 where "w2 = (if ctl < 0 then v_log srv (ascii ''initialize netctl'') ctl w1 else l_set_ready srv True w1)"
  have t2: "tracked srv s0 None w2" using q [OF t1 log] q [OF t1 listen_calls(17) [OF h]] by (simp add: w2_def)
  obtain k w3 where 3: "open_listener srv (v_usb_mode srv w2) w2 = (k, w3)" by fastforce
  have t3: "tracked srv s0 None w3" using q [OF t2 open_listener_quiet [OF h, of w2 "v_usb_mode srv w2"]] 3 by simp
  have ends: "tracked srv s0 None (if ctl \<ge> 0 then l_ctl_term srv x else x)" if "tracked srv s0 None x" for x
    using that q [OF that listen_calls(6) [OF h]] by simp
  show ?thesis
  proof (cases "k < 0")
    case True
    have "tracked srv s0 None (l_set_ready srv False (v_log srv (ascii ''listen'') k w3))"
      by (rule q [OF q [OF t3 log] listen_calls(17) [OF h]])
    with ends True show ?thesis unfolding run_service_def Let_def 1 prod.case w2_def [symmetric] 3 by simp
  next
    case False
    let ?w4 = "v_log srv (ascii ''listening on port 39323'') 0 (l_set_listening srv True w3)"
    have "tracked srv s0 None ?w4" by (rule q [OF q [OF t3 listen_calls(16) [OF h]] log])
    then obtain left k' w5 where 5: "serve_loop srv junk slack pad uninit fuel k (v_usb_mode srv w2) ?w4 = Some (left, k', w5)" "tracked srv s0 None w5"
      using serve_loop_drives [OF h r assms(4,5)] by blast
    let ?w6 = "l_set_ready srv False (l_set_listening srv False w5)"
    have "tracked srv s0 None ?w6" by (rule q [OF q [OF 5(2) listen_calls(16) [OF h]] listen_calls(17) [OF h]])
    then have "tracked srv s0 None (if ctl \<ge> 0 then l_ctl_term srv ?w6 else ?w6)" by (rule ends)
    then have "tracked srv s0 None (if k' \<ge> 0 then n_close srv k' (if ctl \<ge> 0 then l_ctl_term srv ?w6 else ?w6) else (if ctl \<ge> 0 then l_ctl_term srv ?w6 else ?w6))"
      using q [OF _ listen_calls(8) [OF h]] by simp
    with False 5 show ?thesis unfolding run_service_def Let_def 1 prod.case w2_def [symmetric] 3 by (simp del: ascii_simps)
  qed
qed

text \<open>
  C2. The network service is a correct client of the transfer queue for as long as it runs. Whatever clients connect and whatever bytes they send, in
  whatever pieces, whichever calls fail, and whatever the other threads do meanwhile: any number of turns is served without an access outside an
  array, and the effect on the shared queue is a sequence of steps of the queue system that starts and ends with no upload in progress, so
  every invariant of the reachable states is kept.
\<close>

theorem serving_refines_queue:
  assumes "listen_host srv" and "reachable s" and "shared s = v_queue srv w" and "upload s = None" and "tidy (shared s)"
    and "2 \<le> length slack" and "length pad = 5"
  shows "\<exists>status w' s'. vcm_wifi_serve srv junk slack pad uninit fuel w = Some (status, w') \<and>
    step\<^sup>*\<^sup>* s s' \<and> reachable s' \<and> upload s' = None \<and> shared s' = v_queue srv w' \<and> tidy (shared s')"
proof -
  note h = assms(1) and r = assms(2)
  note q = tracked_quiet [OF r] and log = host_log [OF listen_service [OF h]]
  let ?w0 = "l_set_listening srv False (l_set_stop srv False w)"
  have "tracked srv s None w" using assms(3-5) by (auto simp: tracked_def)
  then have t0: "tracked srv s None ?w0" using q [OF q [OF _ listen_calls(15) [OF h]] listen_calls(16) [OF h]] by blast
  obtain a1 w1 where 1: "ensure_directory srv data_root ?w0 = (a1, w1)" by fastforce
  have t1: "tracked srv s None w1" using q [OF t0 ensure_directory_quiet [OF h, of ?w0 data_root]] 1 by simp
  obtain a2 w2 where 2: "ensure_directory srv inbox w1 = (a2, w2)" by fastforce
  have t2: "tracked srv s None w2" using q [OF t1 ensure_directory_quiet [OF h, of w1 inbox]] 2 by simp
  obtain a3 w3 where 3: "l_load_net srv w2 = (a3, w3)" by fastforce
  have t3: "tracked srv s None w3" using q [OF t2 listen_calls(3) [OF h, of w2]] 3 by simp
  obtain a4 w4 where 4: "l_net_init srv w3 = (a4, w4)" by fastforce
  have t4: "tracked srv s None w4" using q [OF t3 listen_calls(4) [OF h, of w3]] 4 by simp
  have "\<exists>status w'. vcm_wifi_serve srv junk slack pad uninit fuel w = Some (status, w') \<and> tracked srv s None w'"
    unfolding vcm_wifi_serve_def Let_def 1 prod.case 2 3 4
    using t1 q [OF t2 log] q [OF t3 log] q [OF t4 log] run_service_drives [OF h r t4 assms(6,7)] by simp
  then show ?thesis using reachable_steps [OF _ r] unfolding tracked_def by metis
qed

text \<open>The console of \<open>sample_service\<close> with a listener that accepts local clients.\<close>

definition sample_listener :: "sample_world listener" where
  "sample_listener = service.extend sample_service
     \<lparr>l_mkdir = (\<lambda>p w. (0, w)), l_directory = (\<lambda>p w. (0, True)), l_load_net = (\<lambda>w. (0, w)), l_net_init = (\<lambda>w. (0, w)),
      l_ctl_init = (\<lambda>w. (0, w)), l_ctl_term = (\<lambda>w. w), l_reuse = (\<lambda>s w. w), l_nonblocking = (\<lambda>s w. (0, w)),
      l_bind = (\<lambda>s a p w. (0, w)), l_listen = (\<lambda>s w. (0, w)), l_accept = (\<lambda>s w. (7, (True, True, loopback_address), w)),
      l_errno = (\<lambda>w. 0), l_again = (\<lambda>e. True), l_delay = (\<lambda>n w. w), l_set_stop = (\<lambda>b w. w), l_set_listening = (\<lambda>b w. w),
      l_set_ready = (\<lambda>b w. w)\<rparr>"

lemma sample_listener_queue: "v_queue sample_listener = sw_queue" "v_queue sample_service = sw_queue"
  by (simp_all add: sample_listener_def sample_service_def service.defs)

lemma sample_listener_ok: "listen_host sample_listener"
proof -
  have "dev_stat sample_device p = None" for p by (simp add: sample_device_def)
  then have "service_host sample_listener"
    unfolding service_host_def
    by (intro conjI allI) (auto split: prod.splits simp: sample_listener_def sample_service_def service.defs Let_def sample_query_def paths_ok_def sample_device_ok stat_ok_def
        intro!: same_queue_quiet)
  then show ?thesis
    unfolding listen_host_def
    by (intro conjI allI) (auto simp: sample_listener_def sample_service_def service.defs intro!: same_queue_quiet)
qed

theorem serving_refines_queue_witness:
  "\<exists>status w' s'. vcm_wifi_serve sample_listener (\<lambda>_. 0) [0, 0] [0, 0, 0, 0, 0] no_snapshot 1
      (sample_console (ascii ''POST /v2/usb/cancel HTTP/1.1'' @ [13, 10] @ ascii ''Content-Length: 0'' @ [13, 10, 13, 10])) = Some (status, w') \<and>
    step\<^sup>*\<^sup>* sample_published s' \<and> upload s' = None \<and> shared s' = v_queue sample_listener w'"
proof -
  have q: "shared sample_published = v_queue sample_listener (sample_console input)" for input
    using sample_console_tracked(3) by (simp add: sample_listener_queue)
  show ?thesis
    using serving_refines_queue [OF sample_listener_ok sample_console_tracked(1) q sample_console_tracked(4,5), of "[0, 0]" "[0, 0, 0, 0, 0]"]
    by fastforce
qed

end
