(* ===== verification/Catalog_Bridge.thy ===== *)
theory Catalog_Bridge
  imports Wifi_Safety
begin

text \<open>
  The two ends of the loopback bridge together: the reply in which \<^verbatim>\<open>src/vita/wifi_service.c\<close> sends the catalogue, and
  the client in \<^verbatim>\<open>src/usb/catalog_client.c\<close> that reads and checks it. Every catalogue that the snapshot builds passes
  the check of the client, whatever pieces the connection delivers the reply in.
\<close>

subsection \<open>Built catalogues pass the client's check\<close>

text \<open>What the client checks of the entries, of the visible part of a catalogue.\<close>

definition presentable :: "VcmMtpCatalog \<Rightarrow> bool" where
  "presentable c \<longleftrightarrow> entries_accepted 0 (visible c)"

lemma presentable_append:
  "entries_accepted k (es @ [e]) \<longleftrightarrow> entries_accepted k es \<and> entry_accepted (k + length es) e"
  by (induction es arbitrary: k) auto

lemma scan_text_clean:
  "0 \<in> set a \<Longrightarrow> (\<forall>c \<in> set (takeWhile (\<lambda>c. c \<noteq> 0) a). \<not> refused c) \<Longrightarrow> scan_text refused a = Some (length (takeWhile (\<lambda>c. c \<noteq> 0) a))"
  by (induction a) auto

lemma text_accepted_clean:
  assumes "c_string a = Some s" and "s \<noteq> []" and "\<forall>c \<in> set s. \<not> refused c"
  shows "text_accepted refused a"
proof -
  obtain r where "a = s @ 0 # r" "0 \<notin> set s" using c_string_split [OF assms(1)] by blast
  then have s: "takeWhile (\<lambda>c. c \<noteq> 0) a = s" "0 \<in> set a" "length s < length a" by (auto simp: takeWhile_append)
  have "scan_text refused a = Some (length s)" using scan_text_clean [OF s(2)] assms(3) unfolding s(1) by blast
  then show ?thesis using assms(2) s(3) by (simp add: text_accepted_def)
qed

lemma text_terminated: "0 \<in> set a \<Longrightarrow> \<not> unterminated a"
  by (simp add: not_unterminated)

lemma described_thumbnail:
  assumes d: "describes m e" and m: "Media_Library.media_valid kind m" and k: "m_kind m \<in> {0..3}"
  shows "e_thumb_size e = 0 \<or> e_kind e = VCM_MTP_PHOTO \<and>
    e_thumb_size e = 54 + ((ucast (e_thumb_width e) * 3 + 3) AND NOT 3) * ucast (e_thumb_height e)"
proof (cases "m_kind m = VCM_LIBRARY_PHOTO \<and> m_thumb_width m \<noteq> 0 \<and> m_thumb_height m \<noteq> 0")
  case True
  then have e: "e_kind e = 0" "e_thumb_width e \<noteq> 0" "e_thumb_height e \<noteq> 0" "e_thumb_width e \<le> 256" "e_thumb_height e \<le> 256"
    and u: "unat (e_thumb_size e) = 54 + (unat (e_thumb_width e) * 3 + 3) div 4 * 4 * unat (e_thumb_height e)"
    using d m by (auto simp: describes_def thumb_announced_def Media_Library.media_valid_def)
  have "unat (e_thumb_size e) = unat (thumbnail_bytes e)" using u thumbnail_bytes_spec [OF e(4,5,1-3)] by simp
  then have "e_thumb_size e = thumbnail_bytes e" by (rule unsigned_word_eqI)
  then show ?thesis using e(1-3) by (simp add: thumbnail_bytes_def Let_def)
next
  case False
  then have "unat (e_thumb_size e) = 0" using d by (auto simp: describes_def thumb_announced_def)
  then show ?thesis by (simp add: unsigned_eq_0_iff)
qed

lemma described_entry_accepted:
  assumes wf: "entry_wf i e" and i: "3 \<le> i" and ok: "media_ok e" and d: "describes m e" and m: "Media_Library.media_valid kind m"
    and k: "0 \<le> kind" "kind < 3"
  shows "entry_accepted i e"
proof -
  have mk: "m_kind m \<in> {0..3}" using m k by (auto simp: Media_Library.media_valid_def)
  then have "m_kind m = 0 \<or> m_kind m = 1 \<or> m_kind m = 2 \<or> m_kind m = 3" by auto
  then have p: "e_kind e \<le> 3" "e_parent e = (if e_kind e = 0 then 1 else if e_kind e = 1 then 2 else 3)"
    using d by (auto simp: describes_def parent_of_kind_def)
  have "unat (e_handle e) = Suc i" using wf by (simp add: entry_wf_def)
  then have h: "e_handle e = of_nat i + 1" by (metis word_value of_nat_Suc add.commute)
  obtain s where s: "c_string (e_name e) = Some s" "valid_name s" "e_native_id e \<noteq> 0" using ok by (auto simp: media_ok_def)
  have n: "text_accepted (\<lambda>c. c < 32 \<or> c = 0x2f \<or> c = 0x5c \<or> c = 0x3a) (e_name e)"
    by (rule text_accepted_clean [OF s(1)]) (use s(2) in \<open>auto simp: valid_name_def name_char_refused_def\<close>)
  obtain x where x: "c_string (e_display_name e) = Some x" "x \<noteq> []" "\<forall>c \<in> set x. \<not> name_char_refused c"
    using d by (auto simp: describes_def display_shown_def shows_name_def)
  have dn: "text_accepted (\<lambda>c. c < 32 \<or> c = 0x2f \<or> c = 0x5c \<or> c = 0x3a \<or> c = 127) (e_display_name e)"
    by (rule text_accepted_clean [OF x(1,2)]) (use x(3) in \<open>auto simp: name_char_refused_def\<close>)
  have t: "\<not> (unterminated (e_title e) \<or> unterminated (e_artist e) \<or> unterminated (e_album e) \<or>
      unterminated (e_created e) \<or> unterminated (e_modified e))"
    using wf by (simp add: entry_wf_def entry_strings_ok_def not_unterminated)
  have w: "e_thumb_width e \<le> 256" "e_thumb_height e \<le> 256" using d m by (auto simp: describes_def Media_Library.media_valid_def)
  have k4: "\<not> e_kind e > 4" "e_kind e \<noteq> 4" using p(1) by (auto simp: not_less word_le_nat_alt word_unat_eq_iff)
  show ?thesis
    unfolding entry_accepted_def using h p(2) s(3) n dn t w k4 i described_thumbnail [OF d m mk] by (auto simp: not_less)
qed

lemma presentable_add:
  assumes inv: "catalog_inv c" "presentable c" and m: "Media_Library.media_valid kind m" and k: "0 \<le> kind" "kind < 3"
    and slack: "2 \<le> length slack"
  shows "\<exists>rc c'. add_entry junk slack c m = Some (rc, c') \<and> catalog_inv c' \<and> c_capacity c' = c_capacity c \<and> presentable c'"
proof -
  obtain rc c' where a: "add_entry junk slack c m = Some (rc, c')" "catalog_inv c'" "c_capacity c' = c_capacity c"
    and v: "visible c' = visible c \<or> (\<exists>e. visible c' = visible c @ [e] \<and> describes m e)"
    using add_entry_spec [OF inv(1) m k slack, of junk] by metis
  have "presentable c'" using v
  proof (elim disjE exE conjE)
    fix e assume e: "visible c' = visible c @ [e]" "describes m e"
    let ?i = "length (visible c)"
    have i: "3 \<le> ?i" using inv(1) by (auto simp: catalog_inv_def catalog_wf_def visible_def word_le_nat_alt)
    have "entry_wf ?i e" "media_ok e"
      using a(2) e(1) i by (auto simp: catalog_inv_def catalog_wf_def)
    then show ?thesis
      using described_entry_accepted [OF _ i _ e(2) m k] inv(2) unfolding presentable_def e(1) presentable_append by simp
  qed (use inv(2) in \<open>simp add: presentable_def\<close>)
  then show ?thesis using a by blast
qed

interpretation bridged: media_visitor "add_entry junk slack0"
    "\<lambda>c. catalog_inv c \<and> c_capacity c = cap \<and> 2 \<le> length slack0 \<and> presentable c"
  for junk slack0 cap
  by unfold_locales (use presentable_add in metis)

lemma folders_accepted:
  "map_option (entry_accepted 0) (folder 1 (ascii ''Photo'')) = Some True"
  "map_option (entry_accepted 1) (folder 2 (ascii ''Music'')) = Some True"
  "map_option (entry_accepted 2) (folder 3 (ascii ''Video'')) = Some True"
  by code_simp+

lemma init_presentable:
  assumes "vcm_mtp_catalog_init (Some storage) capacity = Some (Inr c)"
  shows "presentable c"
proof -
  obtain a b d where f: "folder 1 (ascii ''Photo'') = Some a" "folder 2 (ascii ''Music'') = Some b" "folder 3 (ascii ''Video'') = Some d"
    and ok: "entry_accepted 0 a" "entry_accepted 1 b" "entry_accepted 2 d"
    using folders_accepted by auto
  have l: "3 \<le> length storage" and c: "c = \<lparr>c_entries = Some (storage[0 := a, Suc 0 := b, 2 := d]), c_count = 3, c_capacity = capacity\<rparr>"
    using assms by (auto simp: vcm_mtp_catalog_init_def f store_def simp del: ascii_simps split: if_splits bind_splits)
  have "storage[0 := a, Suc 0 := b, 2 := d] = a # b # d # drop 3 storage"
    using l by (auto simp: Suc_le_length_iff numeral_2_eq_2 numeral_3_eq_3)
  moreover have "unat (3 :: u32) = 3" by simp
  ultimately have "visible c = [a, b, d]" unfolding c visible_def by (simp del: unsigned_numeral)
  then show ?thesis using ok by (simp add: presentable_def numeral_2_eq_2)
qed

lemma enumerate_presentable:
  assumes "device_ok dev" and "catalog_inv c" and "2 \<le> length slack" and "presentable c"
    and "enumerate_kind dev junk slack kind c = Some (rc, c')"
  shows "catalog_inv c' \<and> presentable c'"
proof -
  have "\<exists>rc c'. enumerate_kind dev junk slack kind c = Some (rc, c') \<and>
      (catalog_inv c' \<and> c_capacity c' = c_capacity c \<and> 2 \<le> length slack \<and> presentable c') \<and> rc \<in> {0, - 1}"
    unfolding enumerate_kind_def
    by (rule bridged.enumerate_keeps) (use assms in \<open>auto simp: device_ok_def\<close>)
  then show ?thesis using assms(5) by auto
qed

lemma enumerated_presentable:
  assumes "device_ok dev" and "2 \<le> length slack" and "enumerated dev junk slack c"
  shows "presentable c"
proof -
  obtain st cap c0 c1 c2 where c0: "vcm_mtp_catalog_init (Some st) cap = Some (Inr c0)" "catalog_inv c0"
    and e: "enumerate_kind dev junk slack 0 c0 = Some (0, c1)" "enumerate_kind dev junk slack 1 c1 = Some (0, c2)"
      "enumerate_kind dev junk slack 2 c2 = Some (0, c)"
    using assms(3) unfolding enumerated_def by blast
  note 1 = enumerate_presentable [OF assms(1) c0(2) assms(2) init_presentable [OF c0(1)] e(1)]
  note 2 = enumerate_presentable [OF assms(1) conjunct1 [OF 1] assms(2) conjunct2 [OF 1] e(2)]
  show ?thesis using enumerate_presentable [OF assms(1) conjunct1 [OF 2] assms(2) conjunct2 [OF 2] e(3)] by blast
qed

lemma validate_accepts:
  assumes c: "presentable c" "catalog_wf c" and pad: "length pad = 5" and sz: "unat (32 + c_count c * 1120) = 32 + 1120 * unat (c_count c)"
    and sp: "mx \<noteq> 0" "fr \<le> mx" and es: "list_all entry_shape (visible c)" "length (visible c) = unat (c_count c)"
  defines "h \<equiv> \<lparr>h_magic = 0x434d4356, h_version = 3, h_count = c_count c, h_entry_size = 1120, h_max_size = mx, h_free_size = fr\<rparr>"
  shows "validate out (Some (header_bytes h @ entries_memory pad (visible c) @ r)) (32 + c_count c * 1120) =
    Some (0, out\<lparr>b_catalog := \<lparr>c_entries = Some (visible c), c_count = c_count c, c_capacity = c_count c\<rparr>, b_max_size := mx, b_free_size := fr\<rparr>)"
proof -
  let ?n = "c_count c"
  obtain body where b: "body = header_bytes h @ entries_memory pad (visible c) @ r" by blast
  have hl: "length (header_bytes h) = 32" by (simp add: header_bytes_def)
  have hd: "header_at body = h" unfolding b by (rule header_roundtrip)
  have d: "drop 32 body = entries_memory pad (visible c) @ r" using hl by (simp add: b)
  have e: "entries_at (drop 32 body) (unat ?n) = visible c"
    unfolding d es(2) [symmetric] by (rule entries_roundtrip(1) [OF es(1) pad])
  have lb: "unat (32 + ?n * 1120) \<le> length body" unfolding sz b using hl entries_roundtrip(2) [OF es(1) pad] es(2) by simp
  have n3: "\<not> ?n < 3" using c(2) by (auto simp: catalog_wf_def not_less)
  have hp: "h_magic h = 0x434d4356" "h_version h = 3" "h_count h = ?n" "h_entry_size h = 1120" "h_max_size h = mx" "h_free_size h = fr"
    by (simp_all add: h_def)
  have "unat (32 + ?n * 1120 - 32) = 1120 * unat ?n"
  proof -
    have "(32 :: u32) \<le> 32 + ?n * 1120" unfolding word_le_nat_alt sz by simp
    then show ?thesis unfolding unat_sub_if' by (simp add: sz word_le_nat_alt)
  qed
  then have q: "\<not> ?n > (32 + ?n * 1120 - 32) div 1120" by (simp add: word_less_nat_alt unat_div)
  have l32: "\<not> 32 + ?n * 1120 < (32 :: u32)" unfolding word_less_nat_alt sz by simp
  show ?thesis
    unfolding b [symmetric] validate_def if_not_P [OF l32] Option.bind.simps if_not_P [OF lb [folded not_less]] Let_def hd hp e
    using c(1) sp n3 q by (simp add: presentable_def not_less)
qed

subsection \<open>Receiving a known reply\<close>

text \<open>
  A connection that delivers what its peer sent: while bytes of \<open>input\<close> are pending, a receive returns some of them, and the other calls
  leave them pending. Memory for the reply is available.
\<close>

definition delivers :: "('w, 'a) net_scheme \<Rightarrow> ('w \<Rightarrow> u8 list) \<Rightarrow> bool" where
  "delivers net input \<longleftrightarrow> net_ok net \<and>
     (\<forall>s n w got bs w'. n_recv net s n w = (got, bs, w') \<longrightarrow> 0 < n \<longrightarrow> input w \<noteq> [] \<longrightarrow> 0 < got \<and> input w = bs @ input w') \<and>
     (\<forall>n w block w'. k_alloc net n w = (block, w') \<longrightarrow> 0 \<le> block \<and> input w' = input w) \<and>
     (\<forall>b w result base w'. k_base net b w = (result, base, w') \<longrightarrow> 0 \<le> result \<and> input w' = input w)"

lemma delivered:
  assumes "delivers net input" and "n_recv net s n w = (got, bs, w')" and "0 < n" and "input w \<noteq> []"
  shows "0 < got" "got = int (length bs)" "length bs \<le> n" "input w = bs @ input w'" "bs \<noteq> []"
proof -
  show g: "0 < got" and "input w = bs @ input w'"
    using assms unfolding delivers_def by blast+
  then show "got = int (length bs)" "length bs \<le> n"
    using net_recv(1) [OF _ assms(2) g] assms(1) by (auto simp: delivers_def)
  then show "bs \<noteq> []" using g by auto
qed

lemma recv_loop_delivers:
  assumes d: "delivers net input"
  shows "received \<le> size0 \<Longrightarrow> size0 \<le> length data \<Longrightarrow> size0 - received \<le> length (input w) \<Longrightarrow>
    \<exists>w'. recv_loop net s size0 received data w =
      Some (0, take received data @ take (size0 - received) (input w) @ drop size0 data, w') \<and> input w' = drop (size0 - received) (input w)"
proof (induction "size0 - received" arbitrary: received data w rule: less_induct)
  case less
  show ?case
  proof (cases "received < size0")
    case False
    then show ?thesis using less.prems by (subst recv_loop.simps) simp
  next
    case True
    obtain got bs w1 where rv: "n_recv net s (size0 - received) w = (got, bs, w1)" by (metis prod_cases3)
    have "input w \<noteq> []" using True less.prems(3) by auto
    note q = delivered [OF d rv _ this]
    have q: "0 < got" "nat got = length bs" "length bs \<le> size0 - received" "input w = bs @ input w1" "bs \<noteq> []" using q True by auto
    let ?d = "take received data @ bs @ drop (received + length bs) data"
    have step: "recv_loop net s size0 received data w = recv_loop net s size0 (received + length bs) ?d w1"
    proof -
      have "received + length bs \<le> length data" using q(3) True less.prems(2) by simp
      then show ?thesis using True rv q(1,2) by (subst recv_loop.simps) (simp add: write_at_def)
    qed
    have t: "take (received + length bs) ?d = take received data @ bs" "drop size0 ?d = drop size0 data"
      using q(3) less.prems(1,2) True by simp_all
    have "size0 - (received + length bs) < size0 - received" "received + length bs \<le> size0" "size0 \<le> length ?d"
      "size0 - (received + length bs) \<le> length (input w1)"
    proof -
      have "0 < length bs" using q(5) by simp
      then show "size0 - (received + length bs) < size0 - received" using True by arith
    qed (use q(3) True less.prems q(4) in auto)
    from less.hyps [OF this] obtain w' where "recv_loop net s size0 (received + length bs) ?d w1 =
        Some (0, (take received data @ bs) @ take (size0 - (received + length bs)) (input w1) @ drop size0 data, w')"
      "input w' = drop (size0 - (received + length bs)) (input w1)"
      unfolding t by blast
    moreover have "take (size0 - received) (input w) = bs @ take (size0 - (received + length bs)) (input w1)"
      "drop (size0 - received) (input w) = drop (size0 - (received + length bs)) (input w1)"
      unfolding q(4) using q(3) by simp_all
    ultimately show ?thesis unfolding step by simp
  qed
qed

fun stops :: "u8 list \<Rightarrow> u8 list \<Rightarrow> bool" where
  "stops acc [] = False"
| "stops acc (c # s) = (if take 4 (c # acc) = [10, 13, 10, 13] then s = [] else stops (c # acc) s)"

lemma read_headers_delivers:
  assumes d: "delivers net input"
  shows "stops (rev acc) h \<Longrightarrow> input w = h @ rest \<Longrightarrow> length acc + length h < 512 \<Longrightarrow>
    \<exists>w'. read_headers net s acc w = Some (acc @ h, True, w') \<and> input w' = rest"
proof (induction h arbitrary: acc w)
  case (Cons c h)
  obtain got bs w1 where rv: "n_recv net s 1 w = (got, bs, w1)" by (metis prod_cases3)
  note q = delivered [OF d rv]
  have q: "bs = [c]" "got = 1" "input w1 = h @ rest"
    using q Cons.prems(2) by (auto simp: le_Suc_eq length_Suc_conv)
  have last: "take 4 (c # rev acc) = [10, 13, 10, 13] \<longleftrightarrow> length (acc @ [c]) \<ge> 4 \<and> drop (length (acc @ [c]) - 4) (acc @ [c]) = end_of_headers"
  proof -
    have "take 4 (c # rev acc) = rev (drop (length (acc @ [c]) - 4) (acc @ [c]))" using take_rev [of 4 "acc @ [c]"] by simp
    then have e: "take 4 (c # rev acc) = [10, 13, 10, 13] \<longleftrightarrow> drop (length (acc @ [c]) - 4) (acc @ [c]) = rev [10, 13, 10, 13]"
      by (metis rev_rev_ident)
    have "length (acc @ [c]) \<ge> 4" if "drop (length (acc @ [c]) - 4) (acc @ [c]) = end_of_headers"
      using arg_cong [OF that, of length] by simp
    then show ?thesis unfolding e by auto
  qed
  show ?case
  proof (cases "take 4 (c # rev acc) = [10, 13, 10, 13]")
    case True
    then have "h = []" using Cons.prems(1) by simp
    then show ?thesis using True [unfolded last] rv q Cons.prems(3) by (subst read_headers.simps) simp
  next
    case False
    then have st: "stops (rev (acc @ [c])) h" using Cons.prems(1) by simp
    have "length (acc @ [c]) + length h < 512" using Cons.prems(3) by simp
    from Cons.IH [OF st q(3) this] obtain w' where "read_headers net s (acc @ [c]) w1 = Some ((acc @ [c]) @ h, True, w')" "input w' = rest" by blast
    moreover have "read_headers net s acc w = read_headers net s (acc @ [c]) w1"
      using False [unfolded last] rv q(1,2) Cons.prems(3) by (subst read_headers.simps) (auto simp: Let_def)
    ultimately show ?thesis by simp
  qed
qed simp

lemma stops_digits: "list_all is_digit ds \<Longrightarrow> stops acc (ds @ 13 # s) = stops (rev ds @ acc) (13 # s)"
proof (induction ds arbitrary: acc)
  case (Cons d ds)
  then have "d \<noteq> 10" by (auto simp: is_digit_def)
  then show ?case using Cons by simp
qed simp

lemma checked_digits_total:
  "list_all is_digit ds \<Longrightarrow> \<not> is_digit c \<Longrightarrow> digits_value (unat v) ds < 2 ^ 64 \<Longrightarrow>
    checked_digits v (ds @ c # s) = Some (of_nat (digits_value (unat v) ds), c # s)"
proof (induction ds arbitrary: v)
  case (Cons d ds)
  have b: "unat v * 10 + (unat d - 0x30) < 2 ^ 64"
    using Cons.prems(3) digits_value_ge [of "unat v * 10 + (unat d - 0x30)" ds] by simp
  have d: "is_digit d" using Cons.prems(1) by simp
  have u: "unat (v * 10 + ucast (d - 0x30)) = unat v * 10 + (unat d - 0x30)" by (rule number_step(2) [OF d b])
  have "\<not> v > (0xffffffffffffffff - ucast (d - 0x30)) div 10" using number_step(1) [OF d, of v] b by blast
  then have "checked_digits v ((d # ds) @ c # s) = checked_digits (v * 10 + ucast (d - 0x30)) (ds @ c # s)"
    using d by (simp add: Let_def)
  also have "\<dots> = Some (of_nat (digits_value (unat v * 10 + (unat d - 0x30)) ds), c # s)"
    using Cons.IH [of "v * 10 + ucast (d - 0x30)"] Cons.prems unfolding u by simp
  finally show ?case by simp
qed simp

definition reply_head :: "u8 list" where
  "reply_head = ascii ''HTTP/1.1 200 OK'' @ crlf @ ascii ''Content-Type: application/octet-stream'' @ crlf @ ascii ''Content-Length: ''"

definition reply_tail :: "u8 list" where
  "reply_tail = crlf @ ascii ''Connection: close'' @ crlf @ crlf"

lemma reply_header_parts: "catalog_reply_header len = reply_head @ dec_text (unat len) @ reply_tail"
  unfolding catalog_reply_header_def reply_head_def reply_tail_def append_assoc ..

lemma reply_header_stops: "stops [] (catalog_reply_header len)"
proof -
  let ?d = "dec_text (unat len)"
  obtain c e where d: "rev ?d = c # e" using dec_text_nonempty [of "unat len"] by (cases "rev ?d") auto
  have "c \<in> set ?d" using d by (metis list.set_intros(1) set_rev)
  then have c: "is_digit c" using dec_text_digits [of "unat len"] by (auto simp: list_all_iff)
  have c: "c \<noteq> 10" "c \<noteq> 13" using c by (auto simp: is_digit_def)
  have "stops [] (reply_head @ ?d @ reply_tail) = stops (rev reply_head) (?d @ reply_tail)"
    unfolding reply_head_def by simp
  also have "\<dots> = stops (rev ?d @ rev reply_head) reply_tail"
    unfolding reply_tail_def using stops_digits [OF dec_text_digits] by simp
  also have "\<dots>" unfolding d reply_tail_def using c by simp
  finally show ?thesis unfolding reply_header_parts .
qed

lemma reply_header_length: "length (catalog_reply_header len) < 192"
  using dec_text_length [of "unat len" 10] unat_u32_less [of len]
  unfolding reply_header_parts length_append reply_head_def reply_tail_def by simp

lemma reply_length_field: "length_field (catalog_reply_header len) = Some (dec_text (unat len) @ reply_tail)"
proof -
  let ?h = "catalog_reply_header len"
  have "\<forall>c \<in> set reply_head \<union> set reply_tail. c \<noteq> 0" unfolding reply_head_def reply_tail_def by simp
  then have "\<forall>c \<in> set ?h. c \<noteq> 0" using dec_text_nonzero [of "unat len"] unfolding reply_header_parts by auto
  then have t: "header_text ?h = ?h" unfolding header_text_def by (simp add: takeWhile_eq_all_conv)
  have "strstr ?h ([13, 10] @ ascii ''Content-Length: '') = Some ([13, 10] @ ascii ''Content-Length: '' @ dec_text (unat len) @ reply_tail)"
    unfolding reply_header_parts reply_head_def by (simp add: starts_def)
  then show ?thesis unfolding length_field_def t by simp
qed

lemma reply_header_read:
  assumes d: "delivers net input" and w: "input w = catalog_reply_header len @ body"
  shows "\<exists>w'. response_length net s w = Some (0, ucast len, w') \<and> input w' = body"
proof -
  let ?h = "catalog_reply_header len"
  have "stops (rev []) ?h" using reply_header_stops by simp
  then obtain w' where r: "read_headers net s [] w = Some (?h, True, w')" "input w' = body"
    using read_headers_delivers [OF d _ w, of "[]"] reply_header_length [of len] by fastforce
  have l4: "\<not> length ?h < 4" unfolding reply_header_parts reply_head_def by simp
  have st: "starts (ascii ''HTTP/1.1 200 '') ?h" unfolding reply_header_parts reply_head_def by (simp add: starts_def)
  have en: "drop (length ?h - 4) ?h = end_of_headers" unfolding reply_header_parts reply_tail_def by simp
  have "is_digit (hd (dec_text (unat len)))"
    using dec_text_digits [of "unat len"] dec_text_nonempty [of "unat len"] by (cases "dec_text (unat len)") auto
  then have dg: "is_digit (c_at (dec_text (unat len) @ reply_tail) 0)"
    using dec_text_nonempty [of "unat len"] by (cases "dec_text (unat len)") auto
  have nd: "\<not> is_digit 13" by (simp add: is_digit_def)
  have "unat len < 2 ^ 64" using unat_u32_less [of len] by simp
  then have cd: "checked_digits 0 (dec_text (unat len) @ reply_tail) = Some (of_nat (unat len), reply_tail)"
    using checked_digits_total [OF dec_text_digits nd, of 0 "unat len"] unfolding reply_tail_def by (simp add: dec_text_value)
  have c13: "c_at reply_tail 0 = 13" unfolding reply_tail_def by simp
  have "response_length net s w = Some (0, ucast len, w')"
    unfolding response_length_def r(1) Option.bind.simps prod.case Let_def reply_length_field option.case cd
    using l4 st en dg c13 by simp
  then show ?thesis using r(2) by blast
qed

lemma fetch_delivered:
  assumes d: "delivers net input" and conn: "connect_local net x = (socket, x1)" "0 \<le> socket"
    and req: "send_exact net socket (ascii ''GET /v2/usb/catalog'' @ request_tail) x1 = (0, x2)"
    and c: "presentable c" "catalog_wf c" and small: "unat (c_count c) * 1120 \<le> 24 * 1024 * 1024"
    and pad: "length pad = 5" and sp: "mx \<noteq> 0" "fr \<le> mx" and es: "list_all entry_shape (visible c)" "length (visible c) = unat (c_count c)"
    and inp: "input x2 = catalog_reply_header (32 + c_count c * 1120) @
      header_bytes \<lparr>h_magic = 0x434d4356, h_version = 3, h_count = c_count c, h_entry_size = 1120, h_max_size = mx, h_free_size = fr\<rparr> @
      entries_memory pad (visible c)"
  shows "\<exists>b x'. vcm_bridge_catalog_fetch net (Some old) x = Some (0, Some b, x') \<and>
    b_catalog b = \<lparr>c_entries = Some (visible c), c_count = c_count c, c_capacity = c_count c\<rparr> \<and> b_max_size b = mx \<and> b_free_size b = fr"
proof -
  let ?len = "32 + c_count c * 1120"
  define h where "h = \<lparr>h_magic = 0x434d4356, h_version = 3, h_count = c_count c, h_entry_size = 1120, h_max_size = mx, h_free_size = fr\<rparr>"
  let ?body = "header_bytes h @ entries_memory pad (visible c)"
  have u: "unat (c_count c * 1120) = 1120 * unat (c_count c)" using small by (simp add: unat_word_ariths)
  then have ul: "unat ?len = 32 + 1120 * unat (c_count c)" using small by (simp add: unat_word_ariths(1))
  obtain x3 where x3: "response_length net socket x2 = Some (0, ucast ?len, x3)" "input x3 = ?body"
    using reply_header_read [OF d inp [folded h_def]] by blast
  have bl: "length ?body = unat ?len" unfolding ul using entries_roundtrip(2) [OF es(1) pad] es(2) by (simp add: header_bytes_def)
  obtain block x4 where al: "k_alloc net (unat ((?len + 0xfff) AND NOT 0xfff)) x3 = (block, x4)" by fastforce
  obtain result base x5 where ba: "k_base net block x4 = (result, base, x5)" by (metis prod_cases3)
  have k: "0 \<le> block" "0 \<le> result" "input x5 = ?body"
    using d al ba x3(2) unfolding delivers_def by (blast, blast, metis)
  obtain data where data: "base = Some data" "unat ((?len + 0xfff) AND NOT 0xfff) \<le> length data"
  proof -
    have "net_ok net" using d unfolding delivers_def by blast
    then have "(\<forall>data. base = Some data \<longrightarrow> unat ((?len + 0xfff) AND NOT 0xfff) \<le> length data) \<and> (0 \<le> result \<longrightarrow> base \<noteq> None)"
      unfolding net_ok_def using al ba by blast
    then show thesis using that k(2) by blast
  qed
  have "?len \<le> 0x2000000" using small by (simp add: word_le_nat_alt ul)
  then have room: "unat ?len \<le> length data" using allocation_enough data(2) by (meson le_trans)
  obtain x6 where x6: "recv_exact net socket data (unat ?len) x5 = Some (0, ?body @ drop (unat ?len) data, x6)"
    using recv_loop_delivers [OF d _ room, of 0 x5 socket] bl k(3) unfolding recv_exact_def by auto
  have v: "validate no_catalog (Some (?body @ drop (unat ?len) data)) ?len = Some (0, no_catalog\<lparr>b_catalog :=
      \<lparr>c_entries = Some (visible c), c_count = c_count c, c_capacity = c_count c\<rparr>, b_max_size := mx, b_free_size := fr\<rparr>)"
    using validate_accepts [OF c pad ul sp es, of no_catalog "drop (unat ?len) data"] unfolding h_def append_assoc .
  have rng: "\<not> (ucast ?len :: u64) < 32" "\<not> (ucast ?len :: u64) > 24 * 1024 * 1024 + 32"
  proof -
    have "unat (ucast ?len :: u64) = unat ?len" using unat_u32_less [of ?len] by (simp add: unsigned_ucast_eq take_bit_nat_eq_self)
    then show "\<not> (ucast ?len :: u64) < 32" "\<not> (ucast ?len :: u64) > 24 * 1024 * 1024 + 32"
      using small by (simp_all add: word_less_nat_alt ul)
  qed
  have uu: "ucast (ucast ?len :: u64) = ?len" by (rule bit_word_eqI) (simp add: bit_simps)
  obtain b x' where fb: "fetch_body net socket ?len no_catalog x3 = Some (0, b, x')" "b_catalog b = \<lparr>c_entries = Some (visible c), c_count = c_count c, c_capacity = c_count c\<rparr>"
    "b_max_size b = mx" "b_free_size b = fr"
    using k(1,2) unfolding fetch_body_def Let_def al prod.case ba data(1) option.case by (simp add: x6 v [unfolded append_assoc])
  have "vcm_bridge_catalog_fetch net (Some old) x = Some (0, Some b, x')"
    using conn(2) rng unfolding vcm_bridge_catalog_fetch_def option.case Let_def conn(1) prod.case req x3(1) Option.bind.simps uu fb(1) by simp
  with fb(2-4) show ?thesis by blast
qed

subsection \<open>Sending\<close>

text \<open>What the service has put on a connection, and whether it has noted a catalogue as served.\<close>

definition emits :: "('w, 'a) service_scheme \<Rightarrow> ('w \<Rightarrow> u8 list) \<Rightarrow> ('w \<Rightarrow> bool) \<Rightarrow> bool" where
  "emits srv sent served \<longleftrightarrow>
     (\<forall>s d w k w'. n_send srv s d w = (k, w') \<longrightarrow> served w' = served w \<and> k \<le> int (length d) \<and>
        (0 < k \<longrightarrow> sent w' = sent w @ take (nat k) d)) \<and>
     (\<forall>w. sent (v_set_served srv w) = sent w \<and> sent (v_free srv w) = sent w \<and> served (v_free srv w) = served w) \<and>
     (\<forall>w rc max_size free_size. v_devctl srv w = (rc, max_size, free_size) \<longrightarrow> max_size < 2 ^ 63)"

lemma emits_send:
  assumes "emits srv sent served" and "n_send srv s d w = (k, w')"
  shows "served w' = served w" "k \<le> int (length d)" "0 < k \<longrightarrow> sent w' = sent w @ take (nat k) d"
  using assms(1) [unfolded emits_def, THEN conjunct1, rule_format, OF assms(2)] by simp_all

lemma take_drop_join: "take k (drop n s) @ drop (n + k) s = drop n s"
  by (metis append_take_drop_id drop_drop add.commute)

lemma send_all_loop_emits:
  fixes srv :: "('w, 'a) service_scheme"
  assumes e: "emits srv sent served"
  shows "send_all_loop srv s data offset w = (rc, w') \<Longrightarrow> served w' = served w \<and> (rc = 0 \<longrightarrow> sent w' = sent w @ drop offset data)"
proof (induction "length data - offset" arbitrary: offset w rule: less_induct)
  case less
  show ?case
  proof (cases "offset < length data")
    case False
    then show ?thesis using less.prems by (simp add: send_all_loop.simps)
  next
    case True
    obtain k w1 where n: "n_send srv s (drop offset data) w = (k, w1)" by fastforce
    have q: "served w1 = served w" "k \<le> int (length data - offset)" "0 < k \<longrightarrow> sent w1 = sent w @ take (nat k) (drop offset data)"
      using emits_send [OF e n] by simp_all
    show ?thesis
    proof (cases "k \<le> 0")
      case True
      then show ?thesis using less.prems n q \<open>offset < length data\<close> by (simp add: send_all_loop.simps [of srv s data offset])
    next
      case False
      then have r: "send_all_loop srv s data (offset + nat k) w1 = (rc, w')"
        using less.prems n True by (simp add: send_all_loop.simps [of srv s data offset])
      have "length data - (offset + nat k) < length data - offset" using False True by simp
      from less.hyps [OF this r] q False show ?thesis by (auto simp: take_drop_join)
    qed
  qed
qed

lemma send_all_emits:
  "emits srv sent served \<Longrightarrow> send_all srv s data w = (rc, w') \<Longrightarrow> served w' = served w \<and> (rc = 0 \<longrightarrow> sent w' = sent w @ data)"
  unfolding send_all_def using send_all_loop_emits [of srv sent served s data 0 w rc w'] by simp

lemma refuse_emits: "emits srv sent served \<Longrightarrow> served (refuse srv s a b c w) = served w"
proof -
  assume e: "emits srv sent served"
  have "served (snd (send_all srv s data w)) = served w" for data w
    using send_all_emits [OF e, of s data w] by (cases "send_all srv s data w") simp
  then show ?thesis by (simp add: refuse_def respond_def Let_def)
qed

lemma destroy_emits:
  "emits srv sent served \<Longrightarrow> served (destroy_snapshot srv s w) = served w \<and> sent (destroy_snapshot srv s w) = sent w"
  by (simp add: emits_def destroy_snapshot_def)

lemma space_valid:
  assumes "emits srv sent served" and "ux0_space srv w = (rc, mx, fr)" and "\<not> rc < 0"
  shows "mx \<noteq> 0 \<and> fr \<le> mx"
proof -
  obtain sp m f where d: "v_devctl srv w = (sp, m, f)" by (metis prod_cases3)
  have m: "m < 2 ^ 63" using assms(1) [unfolded emits_def, THEN conjunct2, THEN conjunct2, rule_format, OF d] .
  show ?thesis
  proof (cases "0 \<le> sp \<and> 0 < m \<and> 0 \<le> f \<and> f \<le> m")
    case True
    then have "uint (word_of_int m :: u64) = m" "uint (word_of_int f :: u64) = f" using m by (simp_all add: uint_word_of_int)
    then have "word_of_int f \<le> (word_of_int m :: u64)" "word_of_int m \<noteq> (0 :: u64)"
      using True by (auto simp: word_le_def word_uint_eq_iff)
    then show ?thesis using assms(2) d True by (simp add: ux0_space_def)
  next
    case False
    then show ?thesis using assms(2,3) d by (auto simp: ux0_space_def not_less split: if_splits prod.splits)
  qed
qed

lemma served_reply:
  assumes e: "emits srv sent served" and dev: "device_ok (v_device srv w)" and "2 \<le> length slack" and pad: "length pad = 5"
    and run: "send_usb_catalog srv junk slack pad uninit s w = Some w'" and sv: "\<not> served w" "served w'"
  shows "\<exists>c mx fr. enumerated (v_device srv w) junk slack c \<and> catalog_wf c \<and> unat (c_count c) * 1120 \<le> 24 * 1024 * 1024 \<and>
    list_all entry_shape (visible c) \<and> length (visible c) = unat (c_count c) \<and> ux0_space srv w = (0, mx, fr) \<and> mx \<noteq> 0 \<and> fr \<le> mx \<and>
    sent w' = sent w @ catalog_reply_header (32 + c_count c * 1120) @
      header_bytes \<lparr>h_magic = 0x434d4356, h_version = 3, h_count = c_count c, h_entry_size = 1120, h_max_size = mx, h_free_size = fr\<rparr> @
      entries_memory pad (visible c)"
proof -
  obtain rc sn freed where b: "vcm_mtp_snapshot_build (v_device srv w) junk slack (Some uninit) = Some (rc, Some sn, freed)"
    and r: "if rc = 0
     then catalog_inv (sn_catalog sn) \<and> sn_allocation sn \<noteq> None \<and> freed = 0 \<and> allocates (v_device srv w) \<and>
       unat (c_capacity (sn_catalog sn)) = entries_needed (v_device srv w) \<and> enumerated (v_device srv w) junk slack (sn_catalog sn)
     else rc = - 1 \<and> sn = no_snapshot \<and> freed = (if allocates (v_device srv w) then 1 else 0)"
    using snapshot_build_trace [OF dev assms(3)] by blast
  have rc: "rc = 0"
  proof (rule ccontr)
    assume "rc \<noteq> 0"
    then show False using r b run sv refuse_emits [OF e] by (auto simp: send_usb_catalog_def)
  qed
  let ?c = "sn_catalog sn"
  have r: "catalog_inv ?c" "allocates (v_device srv w)" "unat (c_capacity ?c) = entries_needed (v_device srv w)"
    "enumerated (v_device srv w) junk slack ?c" using r rc by simp_all
  have wf: "catalog_wf ?c" using r(1) by (simp add: catalog_inv_def)
  obtain es where es: "c_entries ?c = Some es" "1120 * unat (c_count ?c) \<le> length (entries_memory pad es)"
    "take (1120 * unat (c_count ?c)) (entries_memory pad es) = entries_memory pad (visible ?c)"
    "list_all entry_shape (visible ?c)" "length (visible ?c) = unat (c_count ?c)"
    using catalog_memory [OF wf pad] by blast
  have sz: "unat (c_count ?c * 1120) = 1120 * unat (c_count ?c)" using small_catalog(1) [OF r(3,2) wf] .
  have small: "unat (c_count ?c) * 1120 \<le> 24 * 1024 * 1024"
    using r(2,3) wf by (auto simp: allocates_def catalog_wf_def word_le_nat_alt)
  obtain rc2 mx fr where sp: "ux0_space srv w = (rc2, mx, fr)" by (metis prod_cases3)
  have rc2: "\<not> rc2 < 0"
  proof
    assume "rc2 < 0"
    then have "w' = refuse srv s 500 ''Internal Server Error'' ''ux0 space unavailable'' (destroy_snapshot srv sn w)"
      using run b rc sp by (simp add: send_usb_catalog_def)
    then show False using sv refuse_emits [OF e] destroy_emits [OF e] by simp
  qed
  have rc20: "rc2 = 0" using rc2 sp by (auto simp: ux0_space_def split: prod.splits if_splits)
  let ?h = "\<lparr>h_magic = 0x434d4356, h_version = 3, h_count = c_count ?c, h_entry_size = 1120, h_max_size = mx, h_free_size = fr\<rparr>"
  let ?r = "catalog_reply_header (32 + c_count ?c * 1120)"
  obtain r1 w1 where s1: "send_all srv s ?r w = (r1, w1)" by fastforce
  obtain r2 w2 where s2: "send_all srv s (header_bytes ?h) w1 = (r2, w2)" by fastforce
  obtain r3 w3 where s3: "send_all srv s (entries_memory pad (visible ?c)) w2 = (r3, w3)" by fastforce
  have w': "w' = destroy_snapshot srv sn (if request_fits 192 ?r then
      if r1 = 0 then if r2 = 0 then if r3 = 0 then v_set_served srv w3 else w3 else w2 else w1 else w)"
    using run b rc rc2 sp es(1-3) sz s1 s2 s3 by (simp add: send_usb_catalog_def Let_def mult.commute split: if_splits)
  note q1 = send_all_emits [OF e s1] and q2 = send_all_emits [OF e s2] and q3 = send_all_emits [OF e s3]
  have ok: "request_fits 192 ?r \<and> r1 = 0 \<and> r2 = 0 \<and> r3 = 0"
    using sv q1 q2 q3 destroy_emits [OF e] unfolding w' by (auto split: if_splits)
  have "sent w' = sent w @ ?r @ header_bytes ?h @ entries_memory pad (visible ?c)"
    unfolding w' using ok q1 q2 q3 destroy_emits [OF e] e by (simp add: emits_def)
  then show ?thesis
    using r(4) wf small es(4,5) sp rc20 space_valid [OF e sp rc2] by blast
qed

text \<open>
  C4. The catalogue crosses the bridge unchanged. When the application notes a catalogue as served, it has written one reply to the connection; and a
  plug-in whose connection delivers that reply, in pieces of any size, accepts it and holds exactly the entries of the catalogue that was built from
  the databases, with the capacity and the free space of the card. Nothing that the service builds is refused by the checks of the client.
\<close>

theorem catalogue_crosses_bridge:
  assumes "emits srv sent served" and "device_ok (v_device srv w)" and "2 \<le> length slack" and "length pad = 5"
    and "send_usb_catalog srv junk slack pad uninit s w = Some w'" and "\<not> served w" and "served w'"
    and "delivers net input" and "connect_local net x = (socket, x1)" and "0 \<le> socket"
    and "send_exact net socket (ascii ''GET /v2/usb/catalog'' @ request_tail) x1 = (0, x2)" and "sent w' = sent w @ input x2"
  shows "\<exists>c b x'. enumerated (v_device srv w) junk slack c \<and> vcm_bridge_catalog_fetch net (Some old) x = Some (0, Some b, x') \<and>
    c_entries (b_catalog b) = Some (visible c) \<and> c_count (b_catalog b) = c_count c \<and>
    ux0_space srv w = (0, b_max_size b, b_free_size b)"
proof -
  obtain c mx fr where c: "enumerated (v_device srv w) junk slack c" "catalog_wf c" "unat (c_count c) * 1120 \<le> 24 * 1024 * 1024"
    "list_all entry_shape (visible c)" "length (visible c) = unat (c_count c)" "ux0_space srv w = (0, mx, fr)" "mx \<noteq> 0" "fr \<le> mx"
    and st: "sent w' = sent w @ catalog_reply_header (32 + c_count c * 1120) @
      header_bytes \<lparr>h_magic = 0x434d4356, h_version = 3, h_count = c_count c, h_entry_size = 1120, h_max_size = mx, h_free_size = fr\<rparr> @
      entries_memory pad (visible c)"
    using served_reply [OF assms(1-7)] by blast
  have "input x2 = catalog_reply_header (32 + c_count c * 1120) @
      header_bytes \<lparr>h_magic = 0x434d4356, h_version = 3, h_count = c_count c, h_entry_size = 1120, h_max_size = mx, h_free_size = fr\<rparr> @
      entries_memory pad (visible c)" using st assms(12) by simp
  from fetch_delivered [OF assms(8-11) enumerated_presentable [OF assms(2,3) c(1)] c(2,3) assms(4) c(7,8,4,5) this, of old] c(1,6)
  show ?thesis by fastforce
qed

subsection \<open>A console that keeps a record\<close>

text \<open>Its state is what it has sent and whether a catalogue was served; its databases are empty.\<close>

definition recording_service :: "(u8 list \<times> bool) service" where
  "recording_service =
     \<lparr>n_socket = (\<lambda>w. (0, w)), n_init = (\<lambda>w. w), n_timeouts = (\<lambda>s w. w), n_connect = (\<lambda>s w. (0, w)), n_close = (\<lambda>s w. w),
      n_recv = (\<lambda>s n w. (0, [], w)), n_send = (\<lambda>s d w. (int (length d), (fst w @ d, snd w))),
      k_alloc = (\<lambda>n w. (- 1, w)), k_base = (\<lambda>b w. (- 1, None, w)), k_free = (\<lambda>b w. w),
      v_queue = (\<lambda>w. sample_queue), v_set_queue = (\<lambda>q w. w), v_device = (\<lambda>w. sample_device),
      v_path = (\<lambda>kind i w. sample_query []), v_list = (\<lambda>kind offset limit w. sample_query []),
      v_icons = (\<lambda>offset limit w. sample_query []), v_icon = (\<lambda>i w. sample_query []),
      v_devctl = (\<lambda>w. (0, 1000, 100)), v_dev_info = (\<lambda>w. (0, 0, 0)),
      v_malloc = (\<lambda>n w. (None, w)), v_free = (\<lambda>w. w), v_open = (\<lambda>p m w. (- 1, w)),
      v_read = (\<lambda>fd n w. (0, [], w)), v_write = (\<lambda>fd data w. (- 1, w)), v_close = (\<lambda>fd w. (0, w)), v_sync_file = (\<lambda>fd w. (0, w)),
      v_rename = (\<lambda>p q w. (- 1, w)), v_remove = (\<lambda>p w. w), v_sync = (\<lambda>w. (0, w)), v_log = (\<lambda>e st w. w), v_blocking = (\<lambda>s w. (0, w)),
      v_audit = (\<lambda>w. \<lparr>a_stat = (\<lambda>p. (- 1, 0)), a_open = (\<lambda>p. - 1), a_module = 0, a_apputil = 0, a_mount = 0\<rparr>),
      v_tracks = (\<lambda>w. sample_query []), v_stop = (\<lambda>w. False), v_usb_mode = (\<lambda>w. True), v_set_served = (\<lambda>w. (fst w, True))\<rparr>"

lemma recording_emits: "emits recording_service fst snd"
  by (simp add: emits_def recording_service_def)

lemma script_delivers: "delivers script_net (\<lambda>w. w)"
  by (auto simp: delivers_def script_net_ok) (simp_all add: script_net_def)

lemma recording_sends: "send_all recording_service s d w = (0, (fst w @ d, snd w))"
  unfolding send_all_def send_all_loop.simps [of recording_service s d 0] send_all_loop.simps [of recording_service s d "length d"]
  by (simp add: recording_service_def send_all_loop.simps)

lemma recording_served: "\<exists>w'. send_usb_catalog recording_service (\<lambda>_. 0) [0, 0] (replicate 5 0) no_snapshot 3 ([], False) = Some w' \<and> snd w'"
proof -
  obtain rc sn freed where b: "vcm_mtp_snapshot_build sample_device (\<lambda>_. 0) [0, 0] (Some no_snapshot) = Some (rc, Some sn, freed)"
    and r: "if rc = 0
     then catalog_inv (sn_catalog sn) \<and> sn_allocation sn \<noteq> None \<and> freed = 0 \<and> allocates sample_device \<and>
       unat (c_capacity (sn_catalog sn)) = entries_needed sample_device \<and> enumerated sample_device (\<lambda>_. 0) [0, 0] (sn_catalog sn)
     else rc = - 1 \<and> sn = no_snapshot \<and> freed = (if allocates sample_device then 1 else 0)"
    using snapshot_build_trace [OF sample_device_ok, of "[0, 0]" "\<lambda>_. 0" no_snapshot] by auto
  have rc: "rc = 0" using sample_build unfolding b by (simp add: build_status_def)
  have dev: "v_device recording_service w = sample_device" for w by (simp add: recording_service_def)
  have sp: "ux0_space recording_service w = (0, 1000, 100)" for w by (simp add: ux0_space_def recording_service_def)
  have set: "snd (v_set_served recording_service w)" "v_free recording_service w = w" for w by (simp_all add: recording_service_def)
  have "catalog_wf (sn_catalog sn)" using r rc by (simp add: catalog_inv_def)
  moreover have "length (replicate 5 0) = 5" by simp
  ultimately obtain es where es: "c_entries (sn_catalog sn) = Some es" "1120 * unat (c_count (sn_catalog sn)) \<le> length (entries_memory (replicate 5 0) es)"
    using catalog_memory by blast
  have sz: "unat (c_count (sn_catalog sn) * 1120) = 1120 * unat (c_count (sn_catalog sn))"
    using small_catalog(1) r rc by (auto simp: catalog_inv_def)
  have fits: "request_fits 192 (catalog_reply_header n)" for n
    using reply_header_length [of n] by (simp add: request_fits_def catalog_reply_header_def)
  show ?thesis
    unfolding send_usb_catalog_def dev b Option.bind.simps prod.case rc sp Let_def es(1) sz recording_sends
    using es(2) fits set by (simp add: destroy_snapshot_def)
qed

theorem catalogue_crosses_bridge_witness:
  "\<exists>w' c b x'. send_usb_catalog recording_service (\<lambda>_. 0) [0, 0] (replicate 5 0) no_snapshot 3 ([], False) = Some w' \<and>
     enumerated sample_device (\<lambda>_. 0) [0, 0] c \<and>
     vcm_bridge_catalog_fetch script_net (Some no_catalog) (fst w') = Some (0, Some b, x') \<and> c_entries (b_catalog b) = Some (visible c)"
proof -
  obtain w' where w': "send_usb_catalog recording_service (\<lambda>_. 0) [0, 0] (replicate 5 0) no_snapshot 3 ([], False) = Some w'" "snd w'"
    using recording_served by blast
  have dev: "device_ok (v_device recording_service ([], False))" "v_device recording_service ([], False) = sample_device"
    using sample_device_ok by (simp_all add: recording_service_def)
  have conn: "connect_local script_net x = (5, x)" for x by (simp add: connect_local_def script_net_def)
  have req: "send_exact script_net 5 d x = (0, x)" for d x
    by (simp add: send_exact_def send_loop.simps script_net_def)
  have "(2 :: nat) \<le> length [0, 0 :: u8]" "length (replicate 5 0 :: u8 list) = 5" "\<not> snd ([] :: u8 list, False)" "(0 :: int) \<le> 5"
    "fst w' = fst ([], False) @ fst w'" by simp_all
  from catalogue_crosses_bridge [OF recording_emits dev(1) this(1,2) w'(1) this(3) w'(2) script_delivers conn this(4) req this(5), of no_catalog]
  show ?thesis using w'(1) unfolding dev(2) by blast
qed

text \<open>
  Fetching, seen from the client (\<open>fetched_catalog_wf\<close> of \<^verbatim>\<open>Catalog_Client\<close>): the reply of the recording console is accepted and what it
  leaves is well-formed, and a peer that answers 404 leaves no catalogue.
\<close>

theorem fetched_catalog_wf_witness:
  "(\<exists>reply b x'. vcm_bridge_catalog_fetch script_net (Some no_catalog) reply = Some (0, Some b, x') \<and> catalog_wf (b_catalog b) \<and>
     b_max_size b = 1000 \<and> b_free_size b = 100) \<and>
   (\<exists>x'. vcm_bridge_catalog_fetch script_net (Some no_catalog) (ascii ''HTTP/1.1 404 '') = Some (- 103, Some no_catalog, x'))"
proof
  obtain w' where w': "send_usb_catalog recording_service (\<lambda>_. 0) [0, 0] (replicate 5 0) no_snapshot 3 ([], False) = Some w'" "snd w'"
    using recording_served by blast
  have dev: "device_ok (v_device recording_service ([], False))" "ux0_space recording_service ([], False) = (0, 1000, 100)"
    using sample_device_ok by (simp_all add: recording_service_def ux0_space_def)
  have conn: "connect_local script_net x = (5, x)" "send_exact script_net 5 d x = (0, x)" for x d
    by (simp_all add: connect_local_def send_exact_def send_loop.simps script_net_def)
  have len: "2 \<le> length [0, 0 :: u8]" "length (replicate 5 0 :: u8 list) = 5" "\<not> snd ([] :: u8 list, False)" "(0 :: int) \<le> 5" by simp_all
  obtain c where c: "enumerated (v_device recording_service ([], False)) (\<lambda>_. 0) [0, 0] c" "catalog_wf c" "unat (c_count c) * 1120 \<le> 24 * 1024 * 1024"
    "list_all entry_shape (visible c)" "length (visible c) = unat (c_count c)"
    "fst w' = catalog_reply_header (32 + c_count c * 1120) @
      header_bytes \<lparr>h_magic = 0x434d4356, h_version = 3, h_count = c_count c, h_entry_size = 1120, h_max_size = 1000, h_free_size = 100\<rparr> @
      entries_memory (replicate 5 0) (visible c)"
    using served_reply [OF recording_emits dev(1) len(1,2) w'(1) len(3) w'(2)] dev(2) by auto
  have "(1000 :: u64) \<noteq> 0" "(100 :: u64) \<le> 1000" by simp_all
  from fetch_delivered [OF script_delivers conn(1) len(4) conn(2) enumerated_presentable [OF dev(1) len(1) c(1)] c(2,3) len(2) this c(4,5) c(6), of no_catalog]
  show "\<exists>reply b x'. vcm_bridge_catalog_fetch script_net (Some no_catalog) reply = Some (0, Some b, x') \<and> catalog_wf (b_catalog b) \<and>
     b_max_size b = 1000 \<and> b_free_size b = 100"
    using fetched_catalog_wf [OF script_net_ok, of no_catalog "fst w'"] by fastforce
  have "map_option fst (vcm_bridge_catalog_fetch script_net (Some no_catalog) (ascii ''HTTP/1.1 404 '')) = Some (- 103)" by code_simp
  then show "\<exists>x'. vcm_bridge_catalog_fetch script_net (Some no_catalog) (ascii ''HTTP/1.1 404 '') = Some (- 103, Some no_catalog, x')"
    using fetched_catalog_wf [OF script_net_ok, of no_catalog "ascii ''HTTP/1.1 404 ''"] by fastforce
qed

end
