(* ===== verification/State_Triples.thy ===== *)
theory State_Triples
  imports C_Strings "HOL-Library.State_Monad"
begin

text \<open>
  Calls that change a state are values of the library's state monad. This theory holds what the proofs about such calls share: triples with a
  precondition and a postcondition on the result, one rule for each way the code composes calls, and the special case of a relation that every call keeps.
\<close>

named_theorems triple_rules

abbreviation ret :: "'r \<Rightarrow> ('w, 'r) state" where
  "ret \<equiv> State_Monad.return"

definition triple :: "('w \<Rightarrow> bool) \<Rightarrow> ('w, 'r) state \<Rightarrow> ('r \<Rightarrow> 'w \<Rightarrow> bool) \<Rightarrow> bool" where
  "triple P m Q \<longleftrightarrow> (\<forall>w. P w \<longrightarrow> (case run_state m w of (r, w') \<Rightarrow> Q r w'))"

lemma tripleI: "(\<And>w r w'. P w \<Longrightarrow> run_state m w = (r, w') \<Longrightarrow> Q r w') \<Longrightarrow> triple P m Q"
  by (auto simp: triple_def)

lemma tripleD: "triple P m Q \<Longrightarrow> P w \<Longrightarrow> run_state m w = (r, w') \<Longrightarrow> Q r w'"
  by (auto simp: triple_def)

lemma triple_run: "triple P m Q \<Longrightarrow> P w \<Longrightarrow> Q (fst (run_state m w)) (snd (run_state m w))"
  by (auto simp: triple_def split: prod.splits)

lemma triple_post: "triple P m Q \<Longrightarrow> (\<And>r w. Q r w \<Longrightarrow> Q' r w) \<Longrightarrow> triple P m Q'"
  by (auto simp: triple_def split: prod.splits)

lemma triple_pre: "triple P' m Q \<Longrightarrow> (\<And>w. P w \<Longrightarrow> P' w) \<Longrightarrow> triple P m Q"
  by (auto simp: triple_def)

lemma triple_conj: "triple P m Q \<Longrightarrow> triple P' m Q' \<Longrightarrow> triple (\<lambda>w. P w \<and> P' w) m (\<lambda>r w. Q r w \<and> Q' r w)"
  by (auto simp: triple_def split: prod.splits)

lemma triple_imp: "(c \<Longrightarrow> triple P m Q) \<Longrightarrow> triple (\<lambda>w. c \<longrightarrow> P w) m (\<lambda>r w. c \<longrightarrow> Q r w)"
  by (cases c) (simp_all add: triple_def split: prod.split)

lemma triple_ball: "(\<And>x. x \<in> S \<Longrightarrow> triple (P x) m (\<lambda>_. P x)) \<Longrightarrow> triple (\<lambda>w. \<forall>x \<in> S. P x w) m (\<lambda>_ w. \<forall>x \<in> S. P x w)"
  by (fastforce simp: triple_def split: prod.splits)

lemma triple_return: "(\<And>w. P w \<Longrightarrow> Q r w) \<Longrightarrow> triple P (ret r) Q"
  by (simp add: triple_def)

lemma triple_bind:
  assumes "triple P m R" and "\<And>r. triple (R r) (f r) Q"
  shows "triple P (State_Monad.bind m f) Q"
proof (rule tripleI)
  fix w r w'
  assume "P w" and run: "run_state (State_Monad.bind m f) w = (r, w')"
  obtain s v where m: "run_state m w = (s, v)" by (cases "run_state m w")
  have "R s v" using assms(1) \<open>P w\<close> m by (rule tripleD)
  moreover have "run_state (f s) v = (r, w')" using run m by simp
  ultimately show "Q r w'" using assms(2) tripleD by metis
qed

lemma triple_if: "(c \<Longrightarrow> triple P m Q) \<Longrightarrow> (\<not> c \<Longrightarrow> triple P n Q) \<Longrightarrow> triple P (if c then m else n) Q"
  by simp

lemma triple_pair: "(\<And>a b. triple P (f a b) Q) \<Longrightarrow> triple P (case v of (a, b) \<Rightarrow> f a b) Q"
  by (simp split: prod.split)

lemma triple_option: "triple P m Q \<Longrightarrow> (\<And>x. triple P (f x) Q) \<Longrightarrow> triple P (case v of None \<Rightarrow> m | Some x \<Rightarrow> f x) Q"
  by (simp split: option.split)

lemma triple_let: "triple P (f v) Q \<Longrightarrow> triple P (Let v f) Q"
  by simp

lemma triple_any: "triple P m (\<lambda>_ _. True)"
  by (simp add: triple_def split: prod.split)

text \<open>An invariant of the state that a call keeps, whatever it returns.\<close>

definition maintains :: "('w \<Rightarrow> bool) \<Rightarrow> ('w, 'r) state \<Rightarrow> bool" where
  "maintains I m \<longleftrightarrow> triple I m (\<lambda>_. I)"

lemma maintains_triple: "maintains I m \<Longrightarrow> triple I m (\<lambda>_. I)"
  by (simp add: maintains_def)

lemma maintainsD: "maintains I m \<Longrightarrow> I w \<Longrightarrow> I (snd (run_state m w))"
  unfolding maintains_def by (drule triple_run) auto

lemma maintainsI: "(\<And>w. I w \<Longrightarrow> I (snd (run_state m w))) \<Longrightarrow> maintains I m"
  by (auto simp: maintains_def triple_def split: prod.splits) (metis snd_conv)

lemma maintains_disj: "maintains I m \<Longrightarrow> maintains J m \<Longrightarrow> maintains (\<lambda>w. I w \<or> J w) m"
  by (auto simp: maintains_def triple_def split: prod.splits)

lemma maintains_return [triple_rules]: "maintains I (ret r)"
  by (simp add: maintains_def triple_return)

lemma maintains_get [triple_rules]: "maintains I State_Monad.get"
  by (simp add: maintains_def triple_def)

lemma maintains_bind [triple_rules]:
  "maintains I m \<Longrightarrow> (\<And>r. maintains I (f r)) \<Longrightarrow> maintains I (State_Monad.bind m f)"
  unfolding maintains_def by (rule triple_bind)

lemma maintains_if [triple_rules]:
  "(c \<Longrightarrow> maintains I m) \<Longrightarrow> (\<not> c \<Longrightarrow> maintains I n) \<Longrightarrow> maintains I (if c then m else n)"
  by simp

lemma maintains_option [triple_rules]:
  "maintains I m \<Longrightarrow> (\<And>x. maintains I (f x)) \<Longrightarrow> maintains I (case v of None \<Rightarrow> m | Some x \<Rightarrow> f x)"
  by (simp split: option.split)

lemma maintains_sum [triple_rules]:
  "(\<And>x. maintains I (f x)) \<Longrightarrow> (\<And>x. maintains I (g x)) \<Longrightarrow> maintains I (case v of Inl x \<Rightarrow> f x | Inr x \<Rightarrow> g x)"
  by (simp split: sum.split)

lemma maintains_pair [triple_rules]:
  "(\<And>a b. maintains I (f a b)) \<Longrightarrow> maintains I (case v of (a, b) \<Rightarrow> f a b)"
  by (simp split: prod.split)

lemma maintains_let [triple_rules]: "maintains I (f v) \<Longrightarrow> maintains I (Let v f)"
  by simp

text \<open>What a call leaves unchanged is an invariant for every value it may have.\<close>

lemma maintains_value: "(\<And>x. maintains (\<lambda>w. f w = x) m) \<Longrightarrow> run_state m w = (r, w') \<Longrightarrow> f w' = f w"
  using maintainsD [of "\<lambda>v. f v = f w" m w] by simp

lemma triple_value:
  assumes "\<And>x. maintains (\<lambda>w. f w = x) m"
  shows "triple (\<lambda>w. P (f w)) m (\<lambda>_ w. P (f w))"
proof (rule tripleI)
  fix w r w'
  assume "P (f w)" and "run_state m w = (r, w')"
  moreover from this(2) have "f w' = f w" by (rule maintains_value [OF assms])
  ultimately show "P (f w')" by simp
qed

text \<open>The value of a function of the state.\<close>

definition asks :: "('w \<Rightarrow> 'r) \<Rightarrow> ('w, 'r) state" where
  "asks f = do { w \<leftarrow> State_Monad.get; ret (f w) }"

lemma run_asks [simp]: "run_state (asks f) w = (f w, w)"
  by (simp add: asks_def)

lemma maintains_asks [triple_rules]: "maintains I (asks f)"
  by (simp add: maintains_def triple_def)

text \<open>A call that is made only under a condition.\<close>

definition given :: "bool \<Rightarrow> ('w, 'r) state \<Rightarrow> 'r \<Rightarrow> ('w, 'r) state" where
  "given c m r = (if c then m else ret r)"

lemma given_simps [simp]: "given True m r = m" "given False m r = ret r"
  by (simp_all add: given_def)

lemma maintains_given [triple_rules]: "(c \<Longrightarrow> maintains I m) \<Longrightarrow> maintains I (given c m r)"
  by (simp add: given_def maintains_return)

lemma triple_given: "(c \<Longrightarrow> triple P m Q) \<Longrightarrow> (\<not> c \<Longrightarrow> (\<And>w. P w \<Longrightarrow> Q r w)) \<Longrightarrow> triple P (given c m r) Q"
  by (cases c) (auto intro!: triple_return)

end
