(* ===== verification/Media_Database.thy ===== *)
theory Media_Database
  imports State_Triples Sync_Queue Id3_Tags
begin

text \<open>
  The writes to the media databases in \<^verbatim>\<open>src/vita/media_database.c\<close>: starting SQLite, adding a video to a folder, verifying an imported item and
  registering an uploaded song together with its file. SQLite, the file system and the kernel are parameters, calls that change a state of any type;
  the order of the calls, their guards and the transactions are the code's. The \<open>do\<close> blocks read as the C functions do.
\<close>

subsection \<open>The calls of the system\<close>

datatype access = Append_To | Replace_With | Read_From | Create_Only

datatype sys_module = Apputil_Module | Sqlite_Module | Photo_Export_Module | Music_Export_Module | Video_Export_Module

datatype database = Photo_Database | Music_Database | Video_Database

text \<open>The statements of the source, and the values that are bound to their parameters.\<close>

datatype statement =
    User_Version | Count_Tracks
  | Insert_List | Insert_Member | Count_Members
  | Count_Songs | Count_Content
  | Insert_Song | Sort_Keys
  | Journal_Delete | Synchronous_Full | Begin_Immediate | Begin_Folder | Refresh_Config | Commit | Rollback

datatype sql_value = Whole int | Words "u8 list" | Nothing

text \<open>
  A stat gives a status and a size. A read gives an error code or the bytes that were read. One database is open at a time: opening one and preparing a statement
  also tell whether a handle came back. The SQLite allocator keeps three counts, which the log shows.
\<close>

record 'w importer =
  f_stat :: "u8 list \<Rightarrow> ('w, int \<times> int) state"
  f_mkdir :: "u8 list \<Rightarrow> ('w, int) state"
  f_open :: "u8 list \<Rightarrow> access \<Rightarrow> ('w, int) state"
  f_read :: "int \<Rightarrow> nat \<Rightarrow> ('w, int + u8 list) state"
  f_write :: "int \<Rightarrow> u8 list \<Rightarrow> ('w, int) state"
  f_flush :: "int \<Rightarrow> ('w, int) state"
  f_close :: "int \<Rightarrow> ('w, int) state"
  f_rename :: "u8 list \<Rightarrow> u8 list \<Rightarrow> ('w, int) state"
  f_remove :: "u8 list \<Rightarrow> ('w, int) state"
  f_rmdir :: "u8 list \<Rightarrow> ('w, int) state"
  f_sync :: "('w, int) state"
  mem_alloc :: "nat \<Rightarrow> ('w, int) state"
  mem_base :: "int \<Rightarrow> ('w, int \<times> bool) state"
  mem_free :: "int \<Rightarrow> ('w, int) state"
  sys_load :: "sys_module \<Rightarrow> ('w, int) state"
  sys_apputil :: "('w, int) state"
  sys_apputil_end :: "('w, int) state"
  sys_music_mount :: "('w, int) state"
  sys_music_umount :: "('w, int) state"
  sys_busy :: u32
  sql_ready :: "'w \<Rightarrow> bool"
  sql_has_space :: "'w \<Rightarrow> bool"
  sql_space :: "('w, bool) state"
  sql_config :: "('w, int) state"
  sql_initialize :: "('w, int) state"
  sql_counts :: "'w \<Rightarrow> int \<times> int \<times> int"
  sql_set_ready :: "('w, unit) state"
  db_vfs :: "('w, int) state"
  db_open :: "database \<Rightarrow> bool \<Rightarrow> ('w, int \<times> bool) state"
  db_exec :: "statement \<Rightarrow> ('w, int) state"
  db_prepare :: "statement \<Rightarrow> ('w, int \<times> bool) state"
  db_bind :: "nat \<Rightarrow> sql_value \<Rightarrow> ('w, int) state"
  db_step :: "('w, int) state"
  db_column :: "'w \<Rightarrow> int"
  db_changes :: "'w \<Rightarrow> int"
  db_finalize :: "('w, int) state"
  db_close :: "('w, int) state"
  uninitialised :: "u8 list"

text \<open>The C string in an array of a queued item; the queue keeps them terminated.\<close>

definition item_text :: "u8 list \<Rightarrow> u8 list" where
  "item_text a = takeWhile (\<lambda>c. c \<noteq> 0) a"

lemma item_text_c_string: "c_string a = Some s \<Longrightarrow> item_text a = s"
  by (auto simp: c_string_def item_text_def split: if_splits)

subsection \<open>The log\<close>

text \<open>A line of the log, cut to the size of its array; \<open>fd\<close> is negative when there is no log.\<close>

definition record_step :: "('w, 'a) importer_scheme \<Rightarrow> int \<Rightarrow> string \<Rightarrow> int \<Rightarrow> ('w, unit) state" where
  "record_step h fd what v =
     given (0 \<le> fd) (do {
       _ \<leftarrow> f_write h fd (take 159 (ascii ''media DB: '' @ ascii what @ ascii '' 0x'' @ hex8 (word_of_int v) @ [10]));
       ret ()
     }) ()"

subsection \<open>Starting SQLite\<close>

text \<open>The allocator that SQLite is given counts its calls from -1 on; pointers are words, 0 is the null pointer.\<close>

record alloc_counts =
  alloc_calls :: int
  alloc_failures :: int
  largest_request :: int

definition count_call :: "int \<Rightarrow> alloc_counts \<Rightarrow> alloc_counts" where
  "count_call bytes c = c\<lparr>alloc_calls := alloc_calls c + 1, largest_request := max (largest_request c) bytes\<rparr>"

definition sqlite_malloc :: "(u32 \<Rightarrow> ('w, u32) state) \<Rightarrow> int \<Rightarrow> alloc_counts \<Rightarrow> ('w, u32 \<times> alloc_counts) state" where
  "sqlite_malloc space_malloc bytes c = do {
     pointer \<leftarrow> given (0 < bytes) (space_malloc (word_of_int bytes)) 0;
     let c = count_call bytes c;
     ret (pointer, if pointer = 0 then c\<lparr>alloc_failures := alloc_failures c + 1\<rparr> else c)
   }"

definition sqlite_realloc :: "(u32 \<Rightarrow> u32 \<Rightarrow> ('w, u32) state) \<Rightarrow> u32 \<Rightarrow> int \<Rightarrow> alloc_counts \<Rightarrow> ('w, u32 \<times> alloc_counts) state" where
  "sqlite_realloc space_realloc pointer bytes c = do {
     result \<leftarrow> given (0 \<le> bytes) (space_realloc pointer (word_of_int bytes)) 0;
     let c = count_call bytes c;
     ret (result, if result = 0 \<and> bytes \<noteq> 0 then c\<lparr>alloc_failures := alloc_failures c + 1\<rparr> else c)
   }"

definition sqlite_free :: "(u32 \<Rightarrow> ('w, unit) state) \<Rightarrow> u32 \<Rightarrow> ('w, unit) state" where
  "sqlite_free space_free pointer = space_free pointer"

definition initialize_database :: "('w, 'a) importer_scheme \<Rightarrow> int \<Rightarrow> ('w, int) state" where
  "initialize_database h fd = do {
     ready \<leftarrow> asks (sql_ready h);
     if ready then ret 0 else do {
     has_space \<leftarrow> asks (sql_has_space h);
     if has_space then ret (- 1) else do {
     status \<leftarrow> sys_load h Sqlite_Module;
     record_step h fd ''load SQLite sysmodule'' status;
     if status < 0 then ret (- 1) else do {
     arena \<leftarrow> mem_alloc h (4 * 1024 * 1024);
     record_step h fd ''allocate SQLite arena'' arena;
     if arena < 0 then ret (- 1) else do {
     (status, mapped) \<leftarrow> mem_base h arena;
     record_step h fd ''map SQLite arena'' status;
     if status < 0 \<or> \<not> mapped then ret (- 1) else do {
     space \<leftarrow> sql_space h;
     record_step h fd ''create SQLite allocator'' (if space then 0 else - 1);
     if \<not> space then ret (- 1) else do {
     status \<leftarrow> sql_config h;
     record_step h fd ''configure SQLite allocator'' status;
     if status \<noteq> 0 then ret (- 1) else do {
     status \<leftarrow> sql_initialize h;
     record_step h fd ''initialize SQLite'' status;
     (calls, failures, largest) \<leftarrow> asks (sql_counts h);
     record_step h fd ''SQLite allocator call count'' (calls + 1);
     record_step h fd ''SQLite allocator failure count'' (failures + 1);
     record_step h fd ''SQLite largest request'' largest;
     if status \<noteq> 0 then ret (- 1) else do {
     sql_set_ready h;
     ret 0
     }}}}}}}}}"

definition vcm_database_init :: "('w, 'a) importer_scheme \<Rightarrow> ('w, int) state" where
  "vcm_database_init h = initialize_database h (- 1)"

text \<open>The first column of a query; \<open>None\<close> leaves the variable of the caller as it was.\<close>

definition scalar :: "('w, 'a) importer_scheme \<Rightarrow> statement \<Rightarrow> ('w, int \<times> int option) state" where
  "scalar h sql = do {
     (status, _) \<leftarrow> db_prepare h sql;
     if status \<noteq> 0 then ret (status, None) else do {
     status \<leftarrow> db_step h;
     column \<leftarrow> asks (db_column h);
     final_status \<leftarrow> db_finalize h;
     if status \<noteq> 100 then ret (status, None) else ret (final_status, Some column)
     }}"

definition probe_database :: "('w, 'a) importer_scheme \<Rightarrow> int \<Rightarrow> ('w, int) state" where
  "probe_database h fd = do {
     status \<leftarrow> initialize_database h fd;
     if status < 0 then ret (- 1) else do {
     (status, opened) \<leftarrow> db_open h Music_Database False;
     record_step h fd ''open live database read-only'' status;
     if status \<noteq> 0 then do {
       _ \<leftarrow> given opened (db_close h) 0;
       ret (- 1)
     } else do {
     (status, column) \<leftarrow> scalar h User_Version;
     let version = (case column of None \<Rightarrow> - 1 | Some v \<Rightarrow> v);
     record_step h fd ''read user_version status'' status;
     record_step h fd ''user_version value'' version;
     (status, count) \<leftarrow>
       (if status = 0 then do {
          (status, column) \<leftarrow> scalar h Count_Tracks;
          let count = (case column of None \<Rightarrow> - 1 | Some n \<Rightarrow> n);
          record_step h fd ''read track count status'' status;
          record_step h fd ''track count value'' count;
          ret (status, count)
        } else ret (status, - 1));
     close_status \<leftarrow> db_close h;
     record_step h fd ''close database'' close_status;
     ret (if status = 0 \<and> close_status = 0 \<and> version = 265 \<and> 0 \<le> count then 0 else - 1)
     }}}"

subsection \<open>Folders of videos\<close>

text \<open>One of the three statements: the insertions must finish, and the last one must count the video once.\<close>

definition folder_statement ::
    "('w, 'a) importer_scheme \<Rightarrow> int \<Rightarrow> nat \<Rightarrow> statement \<Rightarrow> u8 list \<Rightarrow> u8 list \<Rightarrow> ('w, int) state" where
  "folder_statement h fd i sql title path = do {
     (status, prepared) \<leftarrow> db_prepare h sql;
     record_step h fd ''folder statement index'' (int i);
     record_step h fd ''folder prepare'' status;
     status \<leftarrow> given (status = 0) (db_bind h 1 (Words title)) status;
     status \<leftarrow> given (status = 0 \<and> i \<noteq> 0) (db_bind h 2 (Words path)) status;
     status \<leftarrow> given (status = 0) (do {
         result \<leftarrow> db_step h;
         record_step h fd ''folder step'' result;
         column \<leftarrow> asks (db_column h);
         given (i = 2 \<and> result = 100) (record_step h fd ''folder verified members'' column) ();
         column \<leftarrow> asks (db_column h);
         ret (if i = 2 then (if result = 100 \<and> column = 1 then 0 else - 1) else (if result = 101 then 0 else - 1))
       }) status;
     _ \<leftarrow> given prepared (db_finalize h) 0;
     ret status
   }"

fun folder_statements ::
    "('w, 'a) importer_scheme \<Rightarrow> int \<Rightarrow> (nat \<times> statement) list \<Rightarrow> u8 list \<Rightarrow> u8 list \<Rightarrow> int \<Rightarrow> ('w, int) state" where
  "folder_statements h fd [] title path status = ret status"
| "folder_statements h fd ((i, sql) # rest) title path status =
     (if status = 0 then do {
        status \<leftarrow> folder_statement h fd i sql title path;
        folder_statements h fd rest title path status
      } else ret status)"

definition vcm_video_folder :: "('w, 'a) importer_scheme \<Rightarrow> int \<Rightarrow> u8 list \<Rightarrow> u8 list \<Rightarrow> ('w, int) state" where
  "vcm_video_folder h fd title path =
     (if title = [] then ret 0 else do {
        status \<leftarrow> initialize_database h fd;
        if status < 0 then ret (- 1) else do {
        status \<leftarrow> db_vfs h;
        if status \<noteq> 0 then ret (- 1) else do {
        (status, opened) \<leftarrow> db_open h Video_Database True;
        status \<leftarrow> given (status = 0) (db_exec h Begin_Folder) status;
        status \<leftarrow> folder_statements h fd [(0, Insert_List), (1, Insert_Member), (2, Count_Members)] title path status;
        status \<leftarrow> given opened (do {
            final \<leftarrow> db_exec h (if status = 0 then Commit else Rollback);
            closed \<leftarrow> db_close h;
            ret (if closed \<noteq> 0 then - 1 else if status = 0 then final else status)
          }) status;
        record_step h fd ''register video folder membership'' status;
        ret (if status = 0 then 0 else - 1)
        }}})"

subsection \<open>Verifying an imported item\<close>

definition vcm_verify_library_item :: "('w, 'a) importer_scheme \<Rightarrow> int \<Rightarrow> int \<Rightarrow> u8 list \<Rightarrow> ('w, int) state" where
  "vcm_verify_library_item h fd kind path = do {
     status \<leftarrow> initialize_database h fd;
     if status < 0 then ret (- 1) else do {
     let path = (if kind = 1 \<and> starts (ascii ''music0:/'') path then take 1099 (ascii ''ux0:/music/'' @ drop 8 path) else path);
     let database = (if kind = 0 then Photo_Database else if kind = 1 then Music_Database else Video_Database);
     let sql = (if kind = 1 then Count_Songs else Count_Content);
     status \<leftarrow> db_vfs h;
     (status, opened) \<leftarrow> given (status = 0) (db_open h database False) (status, False);
     record_step h fd ''verify database open'' status;
     (status, prepared) \<leftarrow> given (status = 0) (db_prepare h sql) (status, False);
     record_step h fd ''verify database query'' status;
     status \<leftarrow> given (status = 0) (db_bind h 1 (Words path)) status;
     status \<leftarrow> given (status = 0) (db_step h) status;
     column \<leftarrow> asks (db_column h);
     let count = (if status = 100 then column else 0);
     _ \<leftarrow> given prepared (db_finalize h) 0;
     closed \<leftarrow> given opened (db_close h) 0;
     let verified = (if count = 1 \<and> closed = 0 then 0 else - 1);
     record_step h fd ''verify imported library row'' verified;
     ret verified
     }}"

subsection \<open>Copying a song\<close>

text \<open>Write all of a block, or stop with the error of the write that failed.\<close>

function write_all :: "('w, 'a) importer_scheme \<Rightarrow> int \<Rightarrow> u8 list \<Rightarrow> 'w \<Rightarrow> int \<times> 'w" where
  "write_all h fd data w =
     (if data = [] then (0, w)
      else case run_state (f_write h fd data) w of (wrote, w) \<Rightarrow>
        if wrote \<le> 0 then (if wrote < 0 then wrote else - 1, w)
        else write_all h fd (drop (nat wrote) data) w)"
  by pat_completeness auto
termination by (relation "measure (\<lambda>(h, fd, data, w). length data)") auto

text \<open>The status and the number of bytes copied.\<close>

function copy_loop :: "('w, 'a) importer_scheme \<Rightarrow> int \<Rightarrow> int \<Rightarrow> int \<Rightarrow> int \<Rightarrow> 'w \<Rightarrow> (int \<times> int) \<times> 'w" where
  "copy_loop h input output amount copied w =
     (if copied < amount then
        case run_state (f_read h input 65536) w of
          (Inl e, w) \<Rightarrow> ((if e < 0 then e else - 1, copied), w)
        | (Inr block, w) \<Rightarrow>
            if block = [] then ((- 1, copied), w)
            else case write_all h output block w of (status, w) \<Rightarrow>
              if status < 0 then ((status, copied), w)
              else copy_loop h input output amount (copied + int (length block)) w
      else ((0, copied), w))"
  by pat_completeness auto
termination by (relation "measure (\<lambda>(h, input, output, amount, copied, w). nat (amount - copied))") auto

declare write_all.simps [simp del] copy_loop.simps [simp del]

text \<open>From one open file to another, through a buffer: the status, and the size of the file when it is 0.\<close>

definition copy_into :: "('w, 'a) importer_scheme \<Rightarrow> int \<Rightarrow> int \<Rightarrow> int \<Rightarrow> int \<Rightarrow> ('w, int \<times> int) state" where
  "copy_into h fd input output amount = do {
     buffer \<leftarrow> mem_alloc h 65536;
     if buffer < 0 then do {
       record_step h fd ''allocate copy buffer'' buffer;
       _ \<leftarrow> f_close h input;
       _ \<leftarrow> f_close h output;
       ret (- 1, 0)
     } else do {
     (status, mapped) \<leftarrow> mem_base h buffer;
     record_step h fd ''map copy buffer'' status;
     (status, copied) \<leftarrow> given (status = 0 \<and> mapped) (State (copy_loop h input output amount 0)) (- 1, 0);
     status \<leftarrow> given (status = 0 \<and> copied = amount) (f_flush h output) status;
     record_step h fd ''copy and sync song'' status;
     _ \<leftarrow> mem_free h buffer;
     _ \<leftarrow> f_close h input;
     _ \<leftarrow> f_close h output;
     ret (if status < 0 \<or> copied \<noteq> amount then (- 1, 0) else (0, copied))
     }}"

definition copy_song :: "('w, 'a) importer_scheme \<Rightarrow> int \<Rightarrow> u8 list \<Rightarrow> u8 list \<Rightarrow> ('w, int \<times> int) state" where
  "copy_song h fd source_path output_path = do {
     (status, amount) \<leftarrow> f_stat h source_path;
     record_step h fd ''song source stat'' status;
     if status < 0 \<or> amount = 0 then ret (- 1, 0) else do {
     (present, present_size) \<leftarrow> f_stat h output_path;
     if present = 0 then
       (if present_size \<noteq> amount then do {
          record_step h fd ''destination size mismatch'' (- 1);
          ret (- 1, 0)
        } else do {
          record_step h fd ''reuse verified staged song'' 0;
          ret (0, amount)
        })
     else do {
     input \<leftarrow> f_open h source_path Read_From;
     record_step h fd ''open song source'' input;
     if input < 0 then ret (- 1, 0) else do {
     output \<leftarrow> f_open h output_path Create_Only;
     record_step h fd ''create song destination'' output;
     if output < 0 then do {
       _ \<leftarrow> f_close h input;
       ret (- 1, 0)
     } else do {
     copy_into h fd input output amount
     }}}}}"

subsection \<open>Registering a song\<close>

text \<open>The parameters of a statement, bound in turn until one fails.\<close>

fun bind_values :: "('w, 'a) importer_scheme \<Rightarrow> (nat \<times> sql_value) list \<Rightarrow> int \<Rightarrow> ('w, int) state" where
  "bind_values h [] status = ret status"
| "bind_values h ((i, v) # rest) status =
     (if status = 0 then do {
        status \<leftarrow> db_bind h i v;
        bind_values h rest status
      } else ret status)"

text \<open>The seventeen values of a row of the music table.\<close>

definition song_values ::
    "u8 list \<Rightarrow> u8 list \<Rightarrow> int \<Rightarrow> VcmId3Tags option \<Rightarrow> int \<Rightarrow> int \<Rightarrow> int \<Rightarrow> (nat \<times> sql_value) list" where
  "song_values output_path title file_size tags sample_rate channel_type duration_ms =
     (let number = (\<lambda>f. case tags of None \<Rightarrow> Whole 0 | Some t \<Rightarrow> Whole (f t));
          words = (\<lambda>f. case tags of None \<Rightarrow> Words (ascii ''Unknown'') | Some t \<Rightarrow> Words (item_text (f t)))
      in [(1, number t_track), (2, Whole file_size), (3, Whole sample_rate), (4, Whole channel_type), (5, Whole duration_ms),
          (6, case tags of None \<Rightarrow> Whole (- 1) | Some t \<Rightarrow> Whole (if t_cover_size t \<noteq> 0 then 1 else - 1)),
          (7, number t_cover_width), (8, number t_cover_height), (9, number t_cover_size), (10, number t_cover_offset), (11, number t_cover_codec_type),
          (12, words t_artist), (13, case tags of None \<Rightarrow> Words title | Some t \<Rightarrow> Words (item_text (t_title t))),
          (14, case tags of None \<Rightarrow> Nothing | Some t \<Rightarrow> if item_text (t_genre t) \<noteq> [] then Words (item_text (t_genre t)) else Nothing),
          (15, Words output_path), (16, words t_album_artist), (17, words t_album)])"

text \<open>The keys by which the stock application groups the songs.\<close>

definition sort_keys :: "('w, 'a) importer_scheme \<Rightarrow> int \<Rightarrow> u8 list \<Rightarrow> ('w, bool) state" where
  "sort_keys h fd output_path = do {
     (status, prepared) \<leftarrow> db_prepare h Sort_Keys;
     status \<leftarrow> given (status = 0) (db_bind h 1 (Words output_path)) status;
     status \<leftarrow> given (status = 0) (db_step h) status;
     changes \<leftarrow> asks (db_changes h);
     let updated = (status = 101 \<and> changes = 1);
     record_step h fd ''populate new song category keys'' (if updated then 0 else status);
     _ \<leftarrow> given prepared (db_finalize h) 0;
     ret updated
   }"

definition insert_song :: "('w, 'a) importer_scheme \<Rightarrow> int \<Rightarrow> (nat \<times> sql_value) list \<Rightarrow> ('w, bool) state" where
  "insert_song h fd values = do {
     (status, prepared) \<leftarrow> db_prepare h Insert_Song;
     record_step h fd ''prepare music row'' status;
     status \<leftarrow> bind_values h values status;
     record_step h fd ''bind music row'' status;
     status \<leftarrow> given (status = 0) (db_step h) status;
     record_step h fd ''insert music row'' status;
     _ \<leftarrow> given prepared (db_finalize h) 0;
     ret (status = 101)
   }"

text \<open>The open transaction: the row, its keys and the refresh, committed together or not at all.\<close>

definition music_transaction :: "('w, 'a) importer_scheme \<Rightarrow> int \<Rightarrow> (nat \<times> sql_value) list \<Rightarrow> u8 list \<Rightarrow> bool \<Rightarrow> ('w, int) state" where
  "music_transaction h fd values output_path refresh = do {
     inserted \<leftarrow> insert_song h fd values;
     inserted \<leftarrow> given inserted (sort_keys h fd output_path) inserted;
     inserted \<leftarrow> given (inserted \<and> refresh) (do {
         status \<leftarrow> db_exec h Refresh_Config;
         record_step h fd ''refresh music database config'' status;
         ret (status = 0)
       }) inserted;
     status \<leftarrow> db_exec h (if inserted then Commit else Rollback);
     record_step h fd (if inserted then ''commit music row'' else ''rollback music row'') status;
     close_status \<leftarrow> db_close h;
     record_step h fd ''close music database'' close_status;
     ret (if inserted \<and> status = 0 \<and> close_status = 0 then 0 else - 1)
   }"

definition register_song_with_facts ::
    "('w, 'a) importer_scheme \<Rightarrow> int \<Rightarrow> database \<Rightarrow> u8 list \<Rightarrow> u8 list \<Rightarrow> int \<Rightarrow> bool \<Rightarrow> VcmId3Tags option \<Rightarrow> int \<Rightarrow> int \<Rightarrow> int \<Rightarrow> ('w, int) state" where
  "register_song_with_facts h fd database output_path title file_size refresh tags sample_rate channel_type duration_ms = do {
     vfs_status \<leftarrow> db_vfs h;
     record_step h fd ''register writable SQLite VFS'' vfs_status;
     if vfs_status \<noteq> 0 then ret (- 1) else do {
     (status, opened) \<leftarrow> db_open h database True;
     record_step h fd ''open music database read-write'' status;
     if status \<noteq> 0 then do {
       _ \<leftarrow> given opened (db_close h) 0;
       ret (- 1)
     } else do {
     status \<leftarrow> db_exec h Journal_Delete;
     record_step h fd ''require DELETE journal'' status;
     status \<leftarrow> given (status = 0) (db_exec h Synchronous_Full) status;
     record_step h fd ''require FULL sync'' status;
     status \<leftarrow> given (status = 0) (db_exec h Begin_Immediate) status;
     record_step h fd ''begin music transaction'' status;
     if status \<noteq> 0 then do {
       _ \<leftarrow> db_close h;
       ret (- 1)
     } else do {
     music_transaction h fd (song_values output_path title file_size tags sample_rate channel_type duration_ms) output_path refresh
     }}}}"

subsection \<open>The tags of a song\<close>

text \<open>Read until the buffer holds the whole tag: the status and what was read.\<close>

function read_tag :: "('w, 'a) importer_scheme \<Rightarrow> int \<Rightarrow> nat \<Rightarrow> u8 list \<Rightarrow> 'w \<Rightarrow> (int \<times> u8 list) \<times> 'w" where
  "read_tag h input total_size buffer w =
     (if length buffer < total_size then
        case run_state (f_read h input (total_size - length buffer)) w of
          (Inl e, w) \<Rightarrow> ((if e < 0 then e else - 1, buffer), w)
        | (Inr block, w) \<Rightarrow>
            if block = [] then ((- 1, buffer), w) else read_tag h input total_size (buffer @ block) w
      else ((0, buffer), w))"
  by pat_completeness auto
termination by (relation "measure (\<lambda>(h, input, total_size, buffer, w). total_size - length buffer)") (auto simp flip: length_greater_0_conv)

declare read_tag.simps [simp del]

text \<open>The tags in the buffer, when it was mapped and filled; \<open>None\<close> where the parser would leave its input.\<close>

definition load_tags :: "('w, 'a) importer_scheme \<Rightarrow> int \<Rightarrow> bool \<Rightarrow> nat \<Rightarrow> u8 list \<Rightarrow> VcmId3Tags \<Rightarrow> ('w, (int \<times> VcmId3Tags) option) state" where
  "load_tags h input mapped total_size header tags =
     (if mapped then do {
        (status, data) \<leftarrow> State (read_tag h input total_size header);
        ret (if status = 0 then vcm_parse_id3v23 (uninitialised h) (Some data) tags else Some (status, tags))
      } else ret (Some (- 1, tags)))"

text \<open>The status and the tags.\<close>

definition read_id3_from_vita :: "('w, 'a) importer_scheme \<Rightarrow> int \<Rightarrow> u8 list \<Rightarrow> VcmId3Tags \<Rightarrow> ('w, (int \<times> VcmId3Tags) option) state" where
  "read_id3_from_vita h fd path tags = do {
     input \<leftarrow> f_open h path Read_From;
     record_step h fd ''open original MP3 tags'' input;
     if input < 0 then ret (Some (- 1, tags)) else do {
     got \<leftarrow> f_read h input 10;
     let header = (case got of Inl _ \<Rightarrow> [] | Inr block \<Rightarrow> block);
     if length header \<noteq> 10 \<or> take 3 header \<noteq> ascii ''ID3'' then do {
       record_step h fd ''read ID3 header'' (case got of Inl e \<Rightarrow> e | Inr block \<Rightarrow> int (length block));
       _ \<leftarrow> f_close h input;
       ret (Some (- 1, tags))
     } else if \<exists>c \<in> set (drop 6 header). c AND 0x80 \<noteq> 0 then do {
       _ \<leftarrow> f_close h input;
       ret (Some (- 1, tags))
     } else do {
     let tag_size = (push_bit 21 (ucast (header ! 6)) OR push_bit 14 (ucast (header ! 7)) OR push_bit 7 (ucast (header ! 8)) OR ucast (header ! 9) :: u32);
     let total_size = tag_size + 10;
     if total_size > 1024 * 1024 \<or> total_size < 10 then do {
       record_step h fd ''ID3 tag outside 1 MiB bound'' (uint total_size);
       _ \<leftarrow> f_close h input;
       ret (Some (- 1, tags))
     } else do {
     arena \<leftarrow> mem_alloc h (unat ((total_size + 4095) AND NOT 4095));
     record_step h fd ''allocate bounded ID3 buffer'' arena;
     if arena < 0 then do {
       _ \<leftarrow> f_close h input;
       ret (Some (- 1, tags))
     } else do {
     (status, mapped) \<leftarrow> mem_base h arena;
     parsed \<leftarrow> load_tags h input (status = 0 \<and> mapped) (unat total_size) header tags;
     case parsed of
       None \<Rightarrow> ret None
     | Some (status, tags) \<Rightarrow> do {
         record_step h fd ''parse original ID3v2.3 tags'' status;
         _ \<leftarrow> mem_free h arena;
         _ \<leftarrow> f_close h input;
         ret (Some (if status = 0 then 0 else - 1, tags))
       }
     }}}}}"

subsection \<open>Importing an MP3 file\<close>

text \<open>The status, and whether this call owns the session and the mount.\<close>

definition mount_music_for_file_import :: "('w, 'a) importer_scheme \<Rightarrow> int \<Rightarrow> ('w, int \<times> bool \<times> bool) state" where
  "mount_music_for_file_import h fd = do {
     status \<leftarrow> sys_load h Apputil_Module;
     record_step h fd ''load AppUtil for music mount'' status;
     if status < 0 then ret (- 1, False, False) else do {
     status \<leftarrow> sys_apputil h;
     record_step h fd ''initialize AppUtil for music mount'' status;
     let owns_apputil = (status = 0);
     if status \<noteq> 0 \<and> word_of_int status \<noteq> sys_busy h then ret (- 1, owns_apputil, False) else do {
     given (status \<noteq> 0) (record_step h fd ''borrow existing AppUtil session'' 0) ();
     status \<leftarrow> sys_music_mount h;
     record_step h fd ''mount music0 for file import'' status;
     if status = 0 then ret (0, owns_apputil, True)
     else if word_of_int status = sys_busy h then do {
       record_step h fd ''borrow existing music mount'' 0;
       ret (0, owns_apputil, False)
     } else do {
       given owns_apputil (do {
         status \<leftarrow> sys_apputil_end h;
         record_step h fd ''shutdown AppUtil after mount failure'' status
       }) ();
       ret (- 1, False, False)
     }}}}"

text \<open>The tags that go into the row: those of the file under those the host sent.\<close>

definition host_tags :: "VcmQueueItem \<Rightarrow> VcmId3Tags \<Rightarrow> VcmId3Tags" where
  "host_tags item tags =
     (let or_unknown = (\<lambda>a. if item_text a \<noteq> [] then item_text a else ascii ''Unknown'');
          tags = tags\<lparr>t_title := strncpy (t_title tags) (if item_text (q_title item) \<noteq> [] then item_text (q_title item) else item_text (q_name item)) 255\<rparr>;
          tags = tags\<lparr>t_artist := strncpy (t_artist tags) (or_unknown (q_artist item)) 255\<rparr>;
          tags = tags\<lparr>t_album := strncpy (t_album tags) (or_unknown (q_album item)) 255\<rparr>;
          tags = tags\<lparr>t_album_artist := strncpy (t_album_artist tags)
            (if item_text (q_album_artist item) \<noteq> [] then item_text (q_album_artist item) else item_text (t_artist tags)) 255\<rparr>;
          tags = tags\<lparr>t_genre := strncpy (t_genre tags) (item_text (q_genre item)) 127\<rparr>
      in tags\<lparr>t_track := q_track item\<rparr>)"

definition song_path :: "VcmQueueItem \<Rightarrow> u8 list" where
  "song_path item = ascii ''ux0:/music/vcm-'' @ item_text (q_id item) @ ascii ''.mp3''"

text \<open>Move or copy the file to its place and register it; a file that was moved goes back when the row is refused.\<close>

definition publish_song :: "('w, 'a) importer_scheme \<Rightarrow> int \<Rightarrow> VcmQueueItem \<Rightarrow> u8 list \<Rightarrow> VcmId3Tags \<Rightarrow> int \<Rightarrow> ('w, int) state" where
  "publish_song h fd item source tags amount = do {
     let destination = song_path item;
     status \<leftarrow> f_rename h source destination;
     let moved = (status = 0);
     result \<leftarrow> given (\<not> moved) (do {
         (status, _) \<leftarrow> copy_song h fd source destination;
         ret status
       }) status;
     if result = 0 then do {
       result \<leftarrow> f_sync h;
       result \<leftarrow> given (result = 0)
         (register_song_with_facts h fd Music_Database (song_path item) (item_text (t_title tags)) amount True (Some tags)
            (q_sample_rate item) (q_channels item) (q_duration_ms item)) result;
       _ \<leftarrow> given (result \<noteq> 0 \<and> moved) (f_rename h destination source) 0;
       ret result
     } else ret result
   }"

text \<open>The result and the path of the song, empty when it was not reached; \<open>None\<close> is a fault of the parser.\<close>

definition vcm_music_sync_mp3 :: "('w, 'a) importer_scheme \<Rightarrow> int \<Rightarrow> VcmQueueItem \<Rightarrow> u8 list \<Rightarrow> ('w, (int \<times> u8 list) option) state" where
  "vcm_music_sync_mp3 h fd item source = do {
     (status, owns_apputil, owns_mount) \<leftarrow> mount_music_for_file_import h fd;
     if status < 0 then ret (Some (- 1, [])) else do {
     parsed \<leftarrow> read_id3_from_vita h fd source clear_tags;
     case parsed of
       None \<Rightarrow> ret None
     | Some (_, tags) \<Rightarrow> do {
         let tags = host_tags item tags;
         ready \<leftarrow> probe_database h fd;
         (existing, _) \<leftarrow> given (ready = 0) (f_stat h (song_path item)) (0, 0);
         (status, amount) \<leftarrow> given (ready = 0 \<and> existing < 0) (f_stat h source) (- 1, 0);
         result \<leftarrow> given (ready = 0 \<and> existing < 0 \<and> status = 0) (publish_song h fd item source tags amount) (- 1);
         given owns_mount (do { status \<leftarrow> sys_music_umount h; record_step h fd ''unmount importer music access'' status }) ();
         given owns_apputil (do { status \<leftarrow> sys_apputil_end h; record_step h fd ''shutdown importer AppUtil'' status }) ();
         ret (Some (result, song_path item))
       }
     }}"

subsection \<open>Calls that keep an invariant\<close>

definition quiet_files :: "('w \<Rightarrow> bool) \<Rightarrow> (u8 list \<Rightarrow> bool) \<Rightarrow> ('w, 'a) importer_scheme \<Rightarrow> bool" where
  "quiet_files I protected h \<longleftrightarrow>
     (\<forall>p. maintains I (f_stat h p)) \<and> (\<forall>p. maintains I (f_mkdir h p)) \<and> (\<forall>p a. maintains I (f_open h p a)) \<and>
     (\<forall>fd n. maintains I (f_read h fd n)) \<and> (\<forall>fd data. maintains I (f_write h fd data)) \<and> (\<forall>fd. maintains I (f_flush h fd)) \<and>
     (\<forall>fd. maintains I (f_close h fd)) \<and> (\<forall>p q. \<not> protected p \<longrightarrow> maintains I (f_rename h p q)) \<and>
     (\<forall>p. \<not> protected p \<longrightarrow> maintains I (f_remove h p)) \<and> (\<forall>p. maintains I (f_rmdir h p)) \<and> maintains I (f_sync h)"

definition quiet_system :: "('w \<Rightarrow> bool) \<Rightarrow> ('w, 'a) importer_scheme \<Rightarrow> bool" where
  "quiet_system I h \<longleftrightarrow>
     (\<forall>n. maintains I (mem_alloc h n)) \<and> (\<forall>b. maintains I (mem_base h b)) \<and> (\<forall>b. maintains I (mem_free h b)) \<and>
     (\<forall>m. maintains I (sys_load h m)) \<and> maintains I (sys_apputil h) \<and> maintains I (sys_apputil_end h) \<and>
     maintains I (sys_music_mount h) \<and> maintains I (sys_music_umount h) \<and>
     maintains I (sql_space h) \<and> maintains I (sql_config h) \<and> maintains I (sql_initialize h) \<and> maintains I (sql_set_ready h) \<and> maintains I (db_vfs h)"

definition quiet_database :: "('w \<Rightarrow> bool) \<Rightarrow> ('w, 'a) importer_scheme \<Rightarrow> bool" where
  "quiet_database I h \<longleftrightarrow>
     (\<forall>d rw. maintains I (db_open h d rw)) \<and> (\<forall>s. maintains I (db_exec h s)) \<and> (\<forall>s. maintains I (db_prepare h s)) \<and>
     (\<forall>i v. maintains I (db_bind h i v)) \<and> maintains I (db_step h) \<and> maintains I (db_finalize h) \<and> maintains I (db_close h)"

lemma quiet_files_rules [triple_rules]:
  assumes "quiet_files I protected h"
  shows "maintains I (f_stat h p)" "maintains I (f_mkdir h p)" "maintains I (f_open h p a)" "maintains I (f_read h fd n)"
    "maintains I (f_write h fd data)" "maintains I (f_flush h fd)" "maintains I (f_close h fd)"
    "maintains I (f_rmdir h p)" "maintains I (f_sync h)"
  using assms by (auto simp: quiet_files_def)

lemma quiet_rename: "quiet_files I protected h \<Longrightarrow> \<not> protected p \<Longrightarrow> maintains I (f_rename h p q)"
  by (simp add: quiet_files_def)

lemma quiet_remove: "quiet_files I protected h \<Longrightarrow> \<not> protected p \<Longrightarrow> maintains I (f_remove h p)"
  by (simp add: quiet_files_def)

lemma quiet_system_rules [triple_rules]:
  assumes "quiet_system I h"
  shows "maintains I (mem_alloc h n)" "maintains I (mem_base h b)" "maintains I (mem_free h b)" "maintains I (sys_load h m)"
    "maintains I (sys_apputil h)" "maintains I (sys_apputil_end h)" "maintains I (sys_music_mount h)" "maintains I (sys_music_umount h)"
    "maintains I (sql_space h)" "maintains I (sql_config h)" "maintains I (sql_initialize h)" "maintains I (sql_set_ready h)" "maintains I (db_vfs h)"
  using assms by (auto simp: quiet_system_def)

lemma quiet_database_rules [triple_rules]:
  assumes "quiet_database I h"
  shows "maintains I (db_open h d rw)" "maintains I (db_exec h s)" "maintains I (db_prepare h s)" "maintains I (db_bind h i v)"
    "maintains I (db_step h)" "maintains I (db_finalize h)" "maintains I (db_close h)"
  using assms by (auto simp: quiet_database_def)

lemma record_step_maintains [triple_rules]: "quiet_files I protected h \<Longrightarrow> maintains I (record_step h fd what v)"
  unfolding record_step_def by (intro triple_rules)

lemma initialize_maintains [triple_rules]:
  "quiet_files I protected h \<Longrightarrow> quiet_system I h \<Longrightarrow> maintains I (initialize_database h fd)"
  unfolding initialize_database_def by (intro triple_rules)

lemma scalar_maintains [triple_rules]: "quiet_database I h \<Longrightarrow> maintains I (scalar h sql)"
  unfolding scalar_def by (intro triple_rules)

lemma probe_database_maintains [triple_rules]:
  "quiet_files I protected h \<Longrightarrow> quiet_system I h \<Longrightarrow> quiet_database I h \<Longrightarrow> maintains I (probe_database h fd)"
  unfolding probe_database_def by (intro triple_rules)

lemma folder_statement_maintains [triple_rules]:
  "quiet_files I protected h \<Longrightarrow> quiet_database I h \<Longrightarrow> maintains I (folder_statement h fd i sql title path)"
  unfolding folder_statement_def by (intro triple_rules)

lemma folder_statements_maintains [triple_rules]:
  "quiet_files I protected h \<Longrightarrow> quiet_database I h \<Longrightarrow> maintains I (folder_statements h fd statements title path status)"
  by (induction h fd statements title path status rule: folder_statements.induct) (auto intro!: triple_rules)

lemma video_folder_maintains [triple_rules]:
  "quiet_files I protected h \<Longrightarrow> quiet_system I h \<Longrightarrow> quiet_database I h \<Longrightarrow> maintains I (vcm_video_folder h fd title path)"
  unfolding vcm_video_folder_def by (intro triple_rules)

lemma verify_maintains [triple_rules]:
  "quiet_files I protected h \<Longrightarrow> quiet_system I h \<Longrightarrow> quiet_database I h \<Longrightarrow> maintains I (vcm_verify_library_item h fd kind path)"
  unfolding vcm_verify_library_item_def by (intro triple_rules)

lemma bind_values_maintains [triple_rules]: "quiet_database I h \<Longrightarrow> maintains I (bind_values h vs status)"
  by (induction h vs status rule: bind_values.induct) (auto intro!: triple_rules)

lemma register_maintains [triple_rules]:
  assumes "quiet_files I protected h" and "quiet_system I h" and "quiet_database I h"
  shows "maintains I (register_song_with_facts h fd database output_path title amount refresh tags rate channels duration)"
  unfolding register_song_with_facts_def music_transaction_def insert_song_def sort_keys_def by (intro triple_rules) (rule assms)+

lemma write_all_maintains:
  "quiet_files I protected h \<Longrightarrow> I w \<Longrightarrow> I (snd (write_all h fd data w))"
proof (induction h fd data w rule: write_all.induct)
  case (1 h fd data w)
  have "I (snd (run_state (f_write h fd data) w))" by (rule maintainsD) (use "1.prems" in \<open>auto intro: triple_rules\<close>)
  with 1 show ?case by (subst write_all.simps) (auto split: prod.splits)
qed

lemma copy_loop_maintains:
  "quiet_files I protected h \<Longrightarrow> I w \<Longrightarrow> I (snd (copy_loop h input dst amount copied w))"
proof (induction h input dst amount copied w rule: copy_loop.induct)
  case (1 h input dst amount copied w)
  have r: "I (snd (run_state (f_read h input 65536) w))" by (rule maintainsD) (use "1.prems" in \<open>auto intro: triple_rules\<close>)
  show ?case
  proof (cases "copied < amount")
    case False
    with 1 show ?thesis by (subst copy_loop.simps) simp
  next
    case True
    obtain got v where got: "run_state (f_read h input 65536) w = (got, v)" by (cases "run_state (f_read h input 65536) w")
    with r have v: "I v" by simp
    show ?thesis
    proof (cases got)
      case (Inl e)
      with got v True show ?thesis by (subst copy_loop.simps) simp
    next
      case (Inr block)
      obtain s u where wr: "write_all h dst block v = (s, u)" by (cases "write_all h dst block v")
      have u: "I u" using write_all_maintains [OF "1.prems"(1) v, of dst block] wr by simp
      show ?thesis
      proof (cases "block = [] \<or> s < 0")
        case True
        with got Inr v u wr \<open>copied < amount\<close> show ?thesis by (subst copy_loop.simps) auto
      next
        case False
        have "I (snd (copy_loop h input dst amount (copied + int (length block)) u))"
          by (rule "1.IH" [OF True got [symmetric] Inr _ wr [symmetric]]) (use False "1.prems" u in auto)
        with False got Inr wr True show ?thesis by (subst copy_loop.simps) simp
      qed
    qed
  qed
qed

lemma copy_into_maintains [triple_rules]:
  assumes "quiet_files I protected h" and "quiet_system I h"
  shows "maintains I (copy_into h fd input dst amount)"
proof -
  have l: "maintains I (State (copy_loop h input dst amount copied))" for copied
    by (rule maintainsI) (simp add: copy_loop_maintains [OF assms(1)])
  show ?thesis unfolding copy_into_def by (intro triple_rules l) (rule assms)+
qed

lemma copy_song_maintains [triple_rules]:
  "quiet_files I protected h \<Longrightarrow> quiet_system I h \<Longrightarrow> maintains I (copy_song h fd source destination)"
  unfolding copy_song_def by (intro triple_rules)

lemma read_tag_maintains: "quiet_files I protected h \<Longrightarrow> I w \<Longrightarrow> I (snd (read_tag h input amount buffer w))"
proof (induction h input amount buffer w rule: read_tag.induct)
  case (1 h input amount buffer w)
  have "I (snd (run_state (f_read h input (amount - length buffer)) w))" by (rule maintainsD) (use "1.prems" in \<open>auto intro: triple_rules\<close>)
  with 1 show ?case by (subst read_tag.simps) (auto split: prod.splits sum.splits)
qed

lemma read_id3_maintains [triple_rules]:
  assumes "quiet_files I protected h" and "quiet_system I h"
  shows "maintains I (read_id3_from_vita h fd path tags)"
proof -
  have l: "maintains I (State (read_tag h input amount buffer))" for input amount buffer
    by (rule maintainsI) (simp add: read_tag_maintains [OF assms(1)])
  show ?thesis unfolding read_id3_from_vita_def load_tags_def by (intro triple_rules l) (rule assms)+
qed

lemma mount_maintains [triple_rules]:
  "quiet_files I protected h \<Longrightarrow> quiet_system I h \<Longrightarrow> maintains I (mount_music_for_file_import h fd)"
  unfolding mount_music_for_file_import_def by (intro triple_rules)

lemma publish_maintains:
  assumes "quiet_files I protected h" and "quiet_system I h" and "quiet_database I h" and "\<not> protected source" and "\<not> protected (song_path item)"
  shows "maintains I (publish_song h fd item source tags amount)"
  unfolding publish_song_def by (intro triple_rules quiet_rename) (rule assms)+

lemma sync_mp3_maintains:
  assumes "quiet_files I protected h" and "quiet_system I h" and "quiet_database I h" and "\<not> protected source" and "\<not> protected (song_path item)"
  shows "maintains I (vcm_music_sync_mp3 h fd item source)"
  unfolding vcm_music_sync_mp3_def by (intro triple_rules publish_maintains) (rule assms)+

end
