(* ===== verification/Song_Library.thy ===== *)
theory Song_Library
  imports Media_Database
begin

text \<open>
  What registering a song does to the library, over an abstract database: the committed rows, the rows of the open transaction, and the prepared statement with
  its parameters. The laws are SQLite's documented behaviour for the calls the code makes.
\<close>

subsection \<open>An abstract library\<close>

record song_row =
  row_values :: "(nat \<times> sql_value) list"
  row_keyed :: bool

record library =
  lib_rows :: "song_row list"
  lib_draft :: "song_row list option"
  lib_statement :: "statement option"
  lib_bound :: "(nat \<times> sql_value) list"

definition row_path :: "song_row \<Rightarrow> sql_value option" where
  "row_path r = map_of (row_values r) 15"

fun executed :: "statement \<Rightarrow> (nat \<times> sql_value) list \<Rightarrow> song_row list \<Rightarrow> song_row list" where
  "executed Insert_Song bound rows = rows @ [\<lparr>row_values = bound, row_keyed = False\<rparr>]"
| "executed Sort_Keys bound rows = map (\<lambda>r. if row_path r = map_of bound 1 then r\<lparr>row_keyed := True\<rparr> else r) rows"
| "executed _ bound rows = rows"

definition stepped :: "library \<Rightarrow> library" where
  "stepped l =
     (case lib_statement l of
        None \<Rightarrow> l
      | Some sql \<Rightarrow> l\<lparr>lib_draft := map_option (executed sql (lib_bound l)) (lib_draft l)\<rparr>)"

fun controlled :: "statement \<Rightarrow> library \<Rightarrow> library" where
  "controlled Begin_Immediate l = l\<lparr>lib_draft := Some (lib_rows l)\<rparr>"
| "controlled Commit l = (case lib_draft l of None \<Rightarrow> l | Some rows \<Rightarrow> l\<lparr>lib_rows := rows, lib_draft := None\<rparr>)"
| "controlled Rollback l = l\<lparr>lib_draft := None\<rparr>"
| "controlled _ l = l"

definition changed_rows :: "library \<Rightarrow> int" where
  "changed_rows l =
     (case lib_draft l of None \<Rightarrow> 0 | Some rows \<Rightarrow> int (length (filter (\<lambda>r. row_path r = map_of (lib_bound l) 1) rows)))"

text \<open>
  Preparing gives a handle exactly when it succeeds, neither it nor binding reports that a statement has finished, an update reports the number of rows it matched,
  a call that fails changes nothing, and closing discards an open transaction and succeeds when every statement has been finalised.
\<close>

definition library_laws :: "('w, 'a) importer_scheme \<Rightarrow> ('w \<Rightarrow> library) \<Rightarrow> bool" where
  "library_laws h view \<longleftrightarrow>
     (\<forall>l. quiet_files (\<lambda>w. view w = l) (\<lambda>_. False) h) \<and> (\<forall>l. quiet_system (\<lambda>w. view w = l) h) \<and>
     (\<forall>l d rw. maintains (\<lambda>w. view w = l) (db_open h d rw)) \<and>
     (\<forall>l sql. triple (\<lambda>w. view w = l) (db_prepare h sql)
        (\<lambda>r w. fst r \<noteq> 101 \<and> (snd r \<longleftrightarrow> fst r = 0) \<and> view w = (if fst r = 0 then l\<lparr>lib_statement := Some sql, lib_bound := []\<rparr> else l))) \<and>
     (\<forall>l i v. triple (\<lambda>w. view w = l) (db_bind h i v)
        (\<lambda>s w. s \<noteq> 101 \<and> view w = (if s = 0 then l\<lparr>lib_bound := lib_bound l @ [(i, v)]\<rparr> else l))) \<and>
     (\<forall>l. triple (\<lambda>w. view w = l) (db_step h)
        (\<lambda>s w. view w = (if s = 101 then stepped l else l) \<and> (s = 101 \<and> lib_statement l = Some Sort_Keys \<longrightarrow> db_changes h w = changed_rows l))) \<and>
     (\<forall>l. triple (\<lambda>w. view w = l) (db_finalize h) (\<lambda>_ w. view w = l\<lparr>lib_statement := None, lib_bound := []\<rparr>)) \<and>
     (\<forall>l sql. triple (\<lambda>w. view w = l) (db_exec h sql) (\<lambda>s w. view w = (if s = 0 then controlled sql l else l))) \<and>
     (\<forall>l. triple (\<lambda>w. view w = l) (db_close h) (\<lambda>s w. view w = l\<lparr>lib_draft := None\<rparr> \<and> (lib_statement l = None \<longrightarrow> s = 0)))"

lemma library_lawsD:
  assumes "library_laws h view"
  shows "quiet_files (\<lambda>w. view w = l) (\<lambda>_. False) h" and "quiet_system (\<lambda>w. view w = l) h"
    and "maintains (\<lambda>w. view w = l) (db_open h d rw)"
    and "triple (\<lambda>w. view w = l) (db_prepare h sql)
        (\<lambda>r w. fst r \<noteq> 101 \<and> (snd r \<longleftrightarrow> fst r = 0) \<and> view w = (if fst r = 0 then l\<lparr>lib_statement := Some sql, lib_bound := []\<rparr> else l))"
    and "triple (\<lambda>w. view w = l) (db_bind h i v)
        (\<lambda>s w. s \<noteq> 101 \<and> view w = (if s = 0 then l\<lparr>lib_bound := lib_bound l @ [(i, v)]\<rparr> else l))"
    and "triple (\<lambda>w. view w = l) (db_step h)
        (\<lambda>s w. view w = (if s = 101 then stepped l else l) \<and> (s = 101 \<and> lib_statement l = Some Sort_Keys \<longrightarrow> db_changes h w = changed_rows l))"
    and "triple (\<lambda>w. view w = l) (db_finalize h) (\<lambda>_ w. view w = l\<lparr>lib_statement := None, lib_bound := []\<rparr>)"
    and "triple (\<lambda>w. view w = l) (db_exec h sql) (\<lambda>s w. view w = (if s = 0 then controlled sql l else l))"
    and "triple (\<lambda>w. view w = l) (db_close h) (\<lambda>s w. view w = l\<lparr>lib_draft := None\<rparr> \<and> (lib_statement l = None \<longrightarrow> s = 0))"
  using assms unfolding library_laws_def by blast+

lemma record_step_view: "library_laws h view \<Longrightarrow> triple (\<lambda>w. view w = l) (record_step h fd what v) (\<lambda>_ w. view w = l)"
  by (intro maintains_triple record_step_maintains) (rule library_lawsD)

lemma record_step_run:
  assumes "library_laws h view"
  shows "\<exists>w'. run_state (record_step h fd what v) w = ((), w') \<and> view w' = view w"
  using triple_run [OF record_step_view [OF assms, of "view w" fd what v], of w] by (cases "run_state (record_step h fd what v) w") auto

lemma prepare_run:
  assumes "library_laws h view"
  shows "\<exists>s w'. s \<noteq> 101 \<and> run_state (db_prepare h sql) w = ((s, s = 0), w') \<and>
    view w' = (if s = 0 then view w\<lparr>lib_statement := Some sql, lib_bound := []\<rparr> else view w)"
proof -
  obtain s ok w' where r: "run_state (db_prepare h sql) w = ((s, ok), w')" by (metis surj_pair)
  with tripleD [OF library_lawsD(4) [OF assms] refl r] show ?thesis by (intro exI [of _ s] exI [of _ w']) simp
qed

lemma step_run:
  assumes "library_laws h view"
  shows "\<exists>s w'. run_state (db_step h) w = (s, w') \<and> view w' = (if s = 101 then stepped (view w) else view w) \<and>
    (s = 101 \<and> lib_statement (view w) = Some Sort_Keys \<longrightarrow> db_changes h w' = changed_rows (view w))"
  using triple_run [OF library_lawsD(6) [OF assms, of "view w"], of w] by (cases "run_state (db_step h) w") auto

lemma finalize_run:
  assumes "library_laws h view"
  shows "\<exists>s w'. run_state (db_finalize h) w = (s, w') \<and> view w' = view w\<lparr>lib_statement := None, lib_bound := []\<rparr>"
  using triple_run [OF library_lawsD(7) [OF assms, of "view w"], of w] by (cases "run_state (db_finalize h) w") auto

lemma exec_run:
  assumes "library_laws h view"
  shows "\<exists>s w'. run_state (db_exec h sql) w = (s, w') \<and> view w' = (if s = 0 then controlled sql (view w) else view w)"
  using triple_run [OF library_lawsD(8) [OF assms, of "view w" sql], of w] by (cases "run_state (db_exec h sql) w") auto

lemma plain_exec_run:
  assumes "library_laws h view" and "sql \<in> {Journal_Delete, Synchronous_Full, Refresh_Config}"
  shows "\<exists>s w'. run_state (db_exec h sql) w = (s, w') \<and> view w' = view w"
proof -
  obtain s w' where "run_state (db_exec h sql) w = (s, w')" "view w' = (if s = 0 then controlled sql (view w) else view w)"
    using exec_run [OF assms(1)] by blast
  moreover have "controlled sql (view w) = view w" using assms(2) by (elim insertE) simp_all
  ultimately show ?thesis by (intro exI [of _ s] exI [of _ w']) simp
qed

lemma close_run:
  assumes "library_laws h view"
  shows "\<exists>s w'. run_state (db_close h) w = (s, w') \<and> view w' = view w\<lparr>lib_draft := None\<rparr> \<and> (lib_statement (view w) = None \<longrightarrow> s = 0)"
  using triple_run [OF library_lawsD(9) [OF assms, of "view w"], of w] by (cases "run_state (db_close h) w") auto

subsection \<open>The steps of the registration\<close>

lemma bind_values_view:
  assumes "library_laws h view"
  shows "triple (\<lambda>w. view w = l) (bind_values h vs 0)
    (\<lambda>s w. s \<noteq> 101 \<and> (\<exists>b. view w = l\<lparr>lib_bound := b\<rparr> \<and> (s = 0 \<longrightarrow> b = lib_bound l @ vs)))"
proof (induction vs arbitrary: l)
  case Nil
  show ?case by (auto intro!: triple_return exI [of _ "lib_bound l"])
next
  case (Cons x vs)
  obtain i v where x: "x = (i, v)" by (cases x)
  show ?case
    unfolding x bind_values.simps if_True simp_thms
  proof (rule triple_bind [OF library_lawsD(5) [OF assms]])
    fix s
    show "triple (\<lambda>w. s \<noteq> 101 \<and> view w = (if s = 0 then l\<lparr>lib_bound := lib_bound l @ [(i, v)]\<rparr> else l)) (bind_values h vs s)
      (\<lambda>s w. s \<noteq> 101 \<and> (\<exists>b. view w = l\<lparr>lib_bound := b\<rparr> \<and> (s = 0 \<longrightarrow> b = lib_bound l @ (i, v) # vs)))"
    proof (cases "s = 0")
      case True
      then show ?thesis
        by (auto intro!: triple_post [OF triple_pre [OF Cons [of "l\<lparr>lib_bound := lib_bound l @ [(i, v)]\<rparr>"]]])
    next
      case False
      then have "bind_values h vs s = ret s" by (cases vs) auto
      then show ?thesis using False by (auto intro!: triple_return exI [of _ "lib_bound l"])
    qed
  qed
qed

lemma bind_values_run:
  assumes "library_laws h view"
  shows "\<exists>t w' b. run_state (bind_values h vs s) w = (t, w') \<and> (s \<noteq> 101 \<longrightarrow> t \<noteq> 101) \<and> view w' = view w\<lparr>lib_bound := b\<rparr> \<and>
    (s \<noteq> 0 \<longrightarrow> t = s) \<and> (t = 0 \<longrightarrow> b = lib_bound (view w) @ vs)"
proof (cases "s = 0")
  case True
  then show ?thesis
    using triple_run [OF bind_values_view [OF assms, of "view w" vs], of w] by (cases "run_state (bind_values h vs 0) w") auto
next
  case False
  then have "bind_values h vs s = ret s" by (cases vs) auto
  then show ?thesis using False by (auto intro!: exI [of _ "lib_bound (view w)"])
qed

text \<open>Inserting: on success the draft has the row, otherwise it is as it was; either way the statement is gone.\<close>

definition drafts :: "library \<Rightarrow> song_row list \<Rightarrow> library \<Rightarrow> bool" where
  "drafts l rows v \<longleftrightarrow> lib_rows v = lib_rows l \<and> lib_draft v = Some rows \<and> lib_statement v = None"

lemma insert_song_run:
  assumes laws: "library_laws h view" and "drafts l rows (view w)"
  shows "\<exists>ok w'. run_state (insert_song h fd vs) w = (ok, w') \<and>
    drafts l (if ok then rows @ [\<lparr>row_values = vs, row_keyed = False\<rparr>] else rows) (view w')"
proof -
  obtain s w1 where 1: "s \<noteq> 101" "run_state (db_prepare h Insert_Song) w = ((s, s = 0), w1)"
    "view w1 = (if s = 0 then view w\<lparr>lib_statement := Some Insert_Song, lib_bound := []\<rparr> else view w)" using prepare_run [OF laws] by blast
  obtain w2 where 2: "run_state (record_step h fd ''prepare music row'' s) w1 = ((), w2)" "view w2 = view w1" using record_step_run [OF laws] by blast
  obtain t w3 b where 3: "run_state (bind_values h vs s) w2 = (t, w3)" "t \<noteq> 101" "view w3 = view w2\<lparr>lib_bound := b\<rparr>"
    "s \<noteq> 0 \<longrightarrow> t = s" "t = 0 \<longrightarrow> b = lib_bound (view w2) @ vs" using bind_values_run [OF laws] 1(1) by metis
  obtain w4 where 4: "run_state (record_step h fd ''bind music row'' t) w3 = ((), w4)" "view w4 = view w3" using record_step_run [OF laws] by blast
  obtain u w5 where 5: "run_state (given (t = 0) (db_step h) t) w4 = (u, w5)" "view w5 = (if u = 101 then stepped (view w4) else view w4)" "u = 101 \<longrightarrow> t = 0"
    using step_run [OF laws, of w4] 3(2) by (cases "t = 0") auto
  obtain w6 where 6: "run_state (record_step h fd ''insert music row'' u) w5 = ((), w6)" "view w6 = view w5" using record_step_run [OF laws] by blast
  obtain f w7 where 7: "run_state (given (s = 0) (db_finalize h) 0) w6 = (f, w7)"
    "view w7 = (if s = 0 then view w6\<lparr>lib_statement := None, lib_bound := []\<rparr> else view w6)"
    using finalize_run [OF laws, of w6] by (cases "s = 0") auto
  have "run_state (insert_song h fd vs) w = (u = 101, w7)"
    by (simp add: insert_song_def 1 2 3 4 5 6 7)
  moreover have "drafts l (if u = 101 then rows @ [\<lparr>row_values = vs, row_keyed = False\<rparr>] else rows) (view w7)"
    using assms(2) 1(3) 2(2) 3(3-5) 4(2) 5(2,3) 6(2) 7(2) by (auto simp: drafts_def stepped_def)
  ultimately show ?thesis by blast
qed

lemma sort_keys_run:
  assumes laws: "library_laws h view" and "drafts l rows (view w)"
  shows "\<exists>ok w'. run_state (sort_keys h fd path) w = (ok, w') \<and>
    (if ok then length (filter (\<lambda>r. row_path r = Some (Words path)) rows) = 1 \<and>
       drafts l (map (\<lambda>r. if row_path r = Some (Words path) then r\<lparr>row_keyed := True\<rparr> else r) rows) (view w')
     else \<exists>rows. drafts l rows (view w'))"
proof -
  obtain s w1 where 1: "s \<noteq> 101" "run_state (db_prepare h Sort_Keys) w = ((s, s = 0), w1)"
    "view w1 = (if s = 0 then view w\<lparr>lib_statement := Some Sort_Keys, lib_bound := []\<rparr> else view w)" using prepare_run [OF laws] by blast
  obtain t w2 where 2: "run_state (given (s = 0) (db_bind h 1 (Words path)) s) w1 = (t, w2)" "t \<noteq> 101" "t = 0 \<longrightarrow> s = 0"
    "view w2 = (if t = 0 then view w1\<lparr>lib_bound := lib_bound (view w1) @ [(1, Words path)]\<rparr> else view w1)"
    using triple_run [OF library_lawsD(5) [OF laws, of "view w1" 1 "Words path"], of w1] 1(1)
    by (cases "s = 0"; cases "run_state (db_bind h 1 (Words path)) w1") auto
  obtain u w3 where 3: "run_state (given (t = 0) (db_step h) t) w2 = (u, w3)" "view w3 = (if u = 101 then stepped (view w2) else view w2)" "u = 101 \<longrightarrow> t = 0"
    "u = 101 \<and> lib_statement (view w2) = Some Sort_Keys \<longrightarrow> db_changes h w3 = changed_rows (view w2)"
    using step_run [OF laws, of w2] 2(2) by (cases "t = 0") auto
  let ?ok = "u = 101 \<and> db_changes h w3 = 1"
  obtain w4 where 4: "run_state (record_step h fd ''populate new song category keys'' (if ?ok then 0 else u)) w3 = ((), w4)" "view w4 = view w3"
    using record_step_run [OF laws] by blast
  obtain f w5 where 5: "run_state (given (s = 0) (db_finalize h) 0) w4 = (f, w5)"
    "view w5 = (if s = 0 then view w4\<lparr>lib_statement := None, lib_bound := []\<rparr> else view w4)"
    using finalize_run [OF laws, of w4] by (cases "s = 0") auto
  have run: "run_state (sort_keys h fd path) w = (?ok, w5)"
    by (simp add: sort_keys_def Let_def 1 2 3 4 5 del: One_nat_def)
  show ?thesis
  proof (cases ?ok)
    case True
    then have "t = 0" "s = 0" using 2 3 by auto
    with True have "length (filter (\<lambda>r. row_path r = Some (Words path)) rows) = 1"
      using 3(4) assms(2) 1(3) 2(4) by (auto simp: drafts_def changed_rows_def)
    moreover have "drafts l (map (\<lambda>r. if row_path r = Some (Words path) then r\<lparr>row_keyed := True\<rparr> else r) rows) (view w5)"
      using True \<open>t = 0\<close> \<open>s = 0\<close> 3(2) assms(2) 1(3) 2(4) 4(2) 5(2) by (auto simp: drafts_def stepped_def)
    ultimately show ?thesis using run True by auto
  next
    case False
    have "\<exists>rows. drafts l rows (view w5)"
      using assms(2) 1(3) 2(3,4) 3(2,3) 4(2) 5(2) by (auto simp: drafts_def stepped_def split: if_splits)
    then show ?thesis using run False by auto
  qed
qed


lemma music_transaction_run:
  assumes laws: "library_laws h view" and drafts: "drafts l rows (view w)" and path: "map_of vs 15 = Some (Words path)"
  shows "\<exists>r w'. run_state (music_transaction h fd vs path refresh) w = (r, w') \<and>
    (if r = 0 then lib_rows (view w') = rows @ [\<lparr>row_values = vs, row_keyed = True\<rparr>] \<and> (\<forall>x \<in> set rows. row_path x \<noteq> Some (Words path))
     else lib_rows (view w') = lib_rows l)"
proof -
  let ?new = "\<lparr>row_values = vs, row_keyed = True\<rparr>"
  let ?fresh = "\<forall>x \<in> set rows. row_path x \<noteq> Some (Words path)"
  obtain a w1 where 1: "run_state (insert_song h fd vs) w = (a, w1)"
    "drafts l (if a then rows @ [\<lparr>row_values = vs, row_keyed = False\<rparr>] else rows) (view w1)" using insert_song_run [OF laws drafts] by blast
  obtain b w2 where 2: "run_state (given a (sort_keys h fd path) a) w1 = (b, w2)"
    "if b then ?fresh \<and> drafts l (rows @ [?new]) (view w2) else \<exists>rows. drafts l rows (view w2)"
  proof (cases a)
    case False
    then show ?thesis using 1(2) that [of False w1] by auto
  next
    case True
    with 1 have d: "drafts l (rows @ [\<lparr>row_values = vs, row_keyed = False\<rparr>]) (view w1)" by simp
    obtain ok v where v: "run_state (sort_keys h fd path) w1 = (ok, v)"
      "if ok then length (filter (\<lambda>r. row_path r = Some (Words path)) (rows @ [\<lparr>row_values = vs, row_keyed = False\<rparr>])) = 1 \<and>
         drafts l (map (\<lambda>r. if row_path r = Some (Words path) then r\<lparr>row_keyed := True\<rparr> else r) (rows @ [\<lparr>row_values = vs, row_keyed = False\<rparr>])) (view v)
       else \<exists>rows. drafts l rows (view v)" using sort_keys_run [OF laws d] by blast
    have p: "row_path \<lparr>row_values = vs, row_keyed = k\<rparr> = Some (Words path)" for k using path by (simp add: row_path_def)
    show ?thesis
    proof (cases ok)
      case True
      then have f: ?fresh using v(2) p by (auto simp: filter_empty_conv)
      then have "map (\<lambda>r. if row_path r = Some (Words path) then r\<lparr>row_keyed := True\<rparr> else r) rows = rows"
        by (intro map_idI) auto
      then have "drafts l (rows @ [?new]) (view v)" using v(2) True p by simp
      then show ?thesis using that [of True v] True f \<open>a\<close> v(1) by simp
    next
      case False
      then show ?thesis using that [of False v] v \<open>a\<close> by simp
    qed
  qed
  obtain s' u where u: "run_state (db_exec h Refresh_Config) w2 = (s', u)" "view u = view w2" using plain_exec_run [OF laws] by blast
  obtain u' where u': "run_state (record_step h fd ''refresh music database config'' s') u = ((), u')" "view u' = view u" using record_step_run [OF laws] by blast
  obtain c w3 where 3: "run_state (given (b \<and> refresh) (do {
         status \<leftarrow> db_exec h Refresh_Config;
         record_step h fd ''refresh music database config'' status;
         ret (status = 0)
       }) b) w2 = (c, w3)" "view w3 = view w2" "c \<longrightarrow> b"
  proof (cases "b \<and> refresh")
    case True
    show ?thesis by (rule that [of "s' = 0" u']) (use True u u' in simp_all)
  next
    case False
    show ?thesis by (rule that [of b w2]) (use False in \<open>auto simp: given_def\<close>)
  qed
  obtain s w4 where 4: "run_state (db_exec h (if c then Commit else Rollback)) w3 = (s, w4)"
    "view w4 = (if s = 0 then controlled (if c then Commit else Rollback) (view w3) else view w3)" using exec_run [OF laws] by blast
  obtain w5 where 5: "run_state (record_step h fd (if c then ''commit music row'' else ''rollback music row'') s) w4 = ((), w5)" "view w5 = view w4"
    using record_step_run [OF laws] by blast
  obtain t w6 where 6: "run_state (db_close h) w5 = (t, w6)" "view w6 = view w5\<lparr>lib_draft := None\<rparr>" "lib_statement (view w5) = None \<longrightarrow> t = 0"
    using close_run [OF laws] by blast
  obtain w7 where 7: "run_state (record_step h fd ''close music database'' t) w6 = ((), w7)" "view w7 = view w6" using record_step_run [OF laws] by blast
  have run: "run_state (music_transaction h fd vs path refresh) w = (if c \<and> s = 0 \<and> t = 0 then 0 else - 1, w7)"
    by (simp add: music_transaction_def 1 2 3 4 5 6 7)
  show ?thesis
  proof (cases "c \<and> s = 0")
    case True
    then have "?fresh \<and> drafts l (rows @ [?new]) (view w3)" using 2(2) 3(2,3) by simp
    then show ?thesis using run True 4(2) 5(2) 6(2,3) 7(2) by (auto simp: drafts_def)
  next
    case False
    obtain rows' where "drafts l rows' (view w3)" using 2(2) 3(2) by (auto split: if_splits)
    then have "lib_rows (view w7) = lib_rows l" using False 4(2) 5(2) 6(2) 7(2) by (auto simp: drafts_def)
    then show ?thesis using run False by auto
  qed
qed

text \<open>The whole registration on a database that has no transaction or statement open.\<close>

lemma register_run:
  assumes laws: "library_laws h view" and "lib_draft (view w) = None" and "lib_statement (view w) = None"
  shows "\<exists>r w'. run_state (register_song_with_facts h fd database path title amount refresh tags rate channels duration) w = (r, w') \<and>
    (if r = 0 then lib_rows (view w') = lib_rows (view w) @ [\<lparr>row_values = song_values path title amount tags rate channels duration, row_keyed = True\<rparr>] \<and>
       (\<forall>x \<in> set (lib_rows (view w)). row_path x \<noteq> Some (Words path))
     else lib_rows (view w') = lib_rows (view w))"
proof -
  have quiet: "\<exists>r w'. run_state m w = (r, w') \<and> view w' = view w" if "\<And>l. maintains (\<lambda>w. view w = l) m" for m w
    using maintainsD [OF that, of w "view w"] by (cases "run_state m w") auto
  obtain a w1 where 1: "run_state (db_vfs h) w = (a, w1)" "view w1 = view w" 
    using quiet [of "db_vfs h" w] library_lawsD(2) [OF laws] by (auto intro: triple_rules)
  obtain w2 where 2: "run_state (record_step h fd ''register writable SQLite VFS'' a) w1 = ((), w2)" "view w2 = view w1" using record_step_run [OF laws] by blast
  show ?thesis
  proof (cases "a = 0")
    case False
    then show ?thesis using 1 2 by (simp add: register_song_with_facts_def)
  next
    case True
    obtain b opened w3 where 3: "run_state (db_open h database True) w2 = ((b, opened), w3)" "view w3 = view w2"
      using quiet [of "db_open h database True" w2] library_lawsD(3) [OF laws] by auto
    obtain w4 where 4: "run_state (record_step h fd ''open music database read-write'' b) w3 = ((), w4)" "view w4 = view w3" using record_step_run [OF laws] by blast
    show ?thesis
    proof (cases "b = 0")
      case False
      obtain c w5 where 5: "run_state (given opened (db_close h) 0) w4 = (c, w5)" "lib_rows (view w5) = lib_rows (view w4)"
        using close_run [OF laws, of w4] by (cases opened) auto
      have "run_state (register_song_with_facts h fd database path title amount refresh tags rate channels duration) w = (- 1, w5)"
        using True False by (simp add: register_song_with_facts_def 1 2(1) [unfolded True] 3 4 5(1))
      then show ?thesis using 1 2 3 4 5(2) by auto
    next
      case opened: True
      obtain c w5 where 5: "run_state (db_exec h Journal_Delete) w4 = (c, w5)" "view w5 = view w4"  using plain_exec_run [OF laws] by blast
      obtain w6 where 6: "run_state (record_step h fd ''require DELETE journal'' c) w5 = ((), w6)" "view w6 = view w5" using record_step_run [OF laws] by blast
      obtain d w7 where 7: "run_state (given (c = 0) (db_exec h Synchronous_Full) c) w6 = (d, w7)" "view w7 = view w6"
      proof (cases "c = 0")
        case True
        obtain s v where v: "run_state (db_exec h Synchronous_Full) w6 = (s, v)" "view v = view w6" using plain_exec_run [OF laws] by blast
        show ?thesis by (rule that [of s v]) (use True v in simp_all)
      next
        case False
        show ?thesis by (rule that [of c w6]) (use False in simp_all)
      qed
      obtain w8 where 8: "run_state (record_step h fd ''require FULL sync'' d) w7 = ((), w8)" "view w8 = view w7" using record_step_run [OF laws] by blast
      obtain e w9 where 9: "run_state (given (d = 0) (db_exec h Begin_Immediate) d) w8 = (e, w9)"
        "view w9 = (if e = 0 then view w8\<lparr>lib_draft := Some (lib_rows (view w8))\<rparr> else view w8)"
        using exec_run [OF laws, of Begin_Immediate w8] by (cases "d = 0") auto
      obtain w10 where 10: "run_state (record_step h fd ''begin music transaction'' e) w9 = ((), w10)" "view w10 = view w9" using record_step_run [OF laws] by blast
      note prefix = 1(1) 2(1) [unfolded True] 3(1) 4(1) [unfolded opened] 5(1) 6(1) 7(1) 8(1) 9(1)
      have same: "view w8 = view w" using 1 2 3 4 5 6 7 8 by simp
      show ?thesis
      proof (cases "e = 0")
        case False
        obtain f w11 where 11: "run_state (db_close h) w10 = (f, w11)" "view w11 = view w10\<lparr>lib_draft := None\<rparr>" using close_run [OF laws] by blast
        have "run_state (register_song_with_facts h fd database path title amount refresh tags rate channels duration) w = (- 1, w11)"
          using True opened False by (simp add: register_song_with_facts_def prefix 10(1) 11(1))
        then show ?thesis using False same 9 10 11(2) by auto
      next
        case begun: True
        have "drafts (view w) (lib_rows (view w)) (view w10)"
          using begun same 9(2) 10(2) assms(2,3) by (simp add: drafts_def)
        moreover have "map_of (song_values path title amount tags rate channels duration) 15 = Some (Words path)"
          by (simp add: song_values_def Let_def)
        ultimately have "\<exists>r w'. run_state (music_transaction h fd (song_values path title amount tags rate channels duration) path refresh) w10 = (r, w') \<and>
          (if r = 0 then lib_rows (view w') = lib_rows (view w) @ [\<lparr>row_values = song_values path title amount tags rate channels duration, row_keyed = True\<rparr>] \<and>
             (\<forall>x \<in> set (lib_rows (view w)). row_path x \<noteq> Some (Words path))
           else lib_rows (view w') = lib_rows (view w))" by (rule music_transaction_run [OF laws])
        moreover have "run_state (register_song_with_facts h fd database path title amount refresh tags rate channels duration) w =
            run_state (music_transaction h fd (song_values path title amount tags rate channels duration) path refresh) w10"
          using True opened begun by (simp add: register_song_with_facts_def prefix 10(1) [unfolded begun])
        ultimately show ?thesis by simp
      qed
    qed
  qed
qed

subsection \<open>The song and its file\<close>

text \<open>
  Which files are there: a stat changes nothing and succeeds exactly for those, a file that was opened for writing is there, a rename returns 0 and moves a file or fails and
  leaves it, and nothing but renaming or removing a file takes it away.
\<close>

definition file_laws :: "('w, 'a) importer_scheme \<Rightarrow> (u8 list \<Rightarrow> 'w \<Rightarrow> bool) \<Rightarrow> bool" where
  "file_laws h present \<longleftrightarrow>
     (\<forall>p w. snd (run_state (f_stat h p) w) = w \<and> (fst (fst (run_state (f_stat h p) w)) = 0 \<longleftrightarrow> present p w)) \<and>
     (\<forall>p. \<forall>a \<in> {Create_Only, Replace_With}. triple (\<lambda>_. True) (f_open h p a) (\<lambda>fd w. 0 \<le> fd \<longrightarrow> present p w)) \<and>
     (\<forall>p q. p \<noteq> q \<longrightarrow> triple (present p) (f_rename h p q) (\<lambda>s w. s \<le> 0 \<and> (if s = 0 then present q w else present p w))) \<and>
     (\<forall>x. quiet_files (present x) (\<lambda>p. p = x) h \<and> quiet_system (present x) h \<and> quiet_database (present x) h)"

lemma file_lawsD:
  assumes "file_laws h present"
  shows "snd (run_state (f_stat h p) w) = w" and "fst (fst (run_state (f_stat h p) w)) = 0 \<longleftrightarrow> present p w"
    and "a \<in> {Create_Only, Replace_With} \<Longrightarrow> triple (\<lambda>_. True) (f_open h p a) (\<lambda>fd w. 0 \<le> fd \<longrightarrow> present p w)"
    and "p \<noteq> q \<Longrightarrow> triple (present p) (f_rename h p q) (\<lambda>s w. s \<le> 0 \<and> (if s = 0 then present q w else present p w))"
    and "quiet_files (present x) (\<lambda>p. p = x) h" and "quiet_system (present x) h" and "quiet_database (present x) h"
  using assms unfolding file_laws_def by blast+

lemma rename_moves:
  assumes "file_laws h present" and "p \<noteq> q"
  shows "triple (present p) (f_rename h p q) (\<lambda>s w. if s = 0 then present q w else present p w)"
  by (rule triple_post [OF file_lawsD(4) [OF assms]]) simp

lemma copy_song_present:
  assumes laws: "file_laws h present"
  shows "triple (\<lambda>_. True) (copy_song h fd source dst) (\<lambda>r w. fst r = 0 \<longrightarrow> present dst w)"
proof -
  have stat: "triple (\<lambda>_. True) (f_stat h dst) (\<lambda>r w. fst r = 0 \<longrightarrow> present dst w)"
    using file_lawsD(1,2) [OF laws] by (auto simp: triple_def split: prod.splits) (metis fst_conv snd_conv)
  note quiet = file_lawsD(5,6) [OF laws, of dst]
  have log: "triple (\<lambda>w. c \<longrightarrow> present dst w) (record_step h fd what v) (\<lambda>_ w. c \<longrightarrow> present dst w)" for c what v
    by (intro triple_imp maintains_triple record_step_maintains) (rule quiet)
  let ?Q = "\<lambda>r w. fst r = (0 :: int) \<longrightarrow> present dst w"
  have fails: "triple P (do { _ \<leftarrow> f_close h input; ret (- 1, 0) }) ?Q" for P input
    by (rule triple_bind [OF triple_any]) (simp add: triple_return)
  have into: "triple (\<lambda>w. 0 \<le> fd' \<longrightarrow> present dst w) (copy_into h fd input fd' amount) ?Q" if "\<not> fd' < 0" for input fd' amount
    using maintains_triple [OF copy_into_maintains [OF quiet, of fd input fd' amount]] that by (auto elim!: triple_post triple_pre)
  have created: "triple (\<lambda>_. True) (do {
      fd' \<leftarrow> f_open h dst Create_Only;
      record_step h fd ''create song destination'' fd';
      if fd' < 0 then do { _ \<leftarrow> f_close h input; ret (- 1, 0) } else copy_into h fd input fd' amount }) ?Q" for input amount
    by (rule triple_bind [OF file_lawsD(3) [OF laws, of Create_Only, simplified]], rule triple_bind [OF log], rule triple_if) (rule fails into, assumption?)+
  have reused: "triple (present dst) (if x \<noteq> y then do { record_step h fd a v; ret (- 1, 0) } else do { record_step h fd b u; ret (0, y) }) ?Q"
    for a b u v and x y :: int
    using log [of True] by (intro triple_if triple_bind [OF log [of True, simplified]] triple_return) simp_all
  have missing: "triple (\<lambda>w. c \<longrightarrow> present dst w) (do {
      input \<leftarrow> f_open h source Read_From;
      record_step h fd ''open song source'' input;
      if input < 0 then ret (- 1, 0) else do {
      fd' \<leftarrow> f_open h dst Create_Only;
      record_step h fd ''create song destination'' fd';
      if fd' < 0 then do { _ \<leftarrow> f_close h input; ret (- 1, 0) } else copy_into h fd input fd' amount }}) ?Q" for c amount
    by (intro triple_bind [OF triple_any] triple_if created) (simp add: triple_return)
  have tail: "triple (\<lambda>w. fst r = (0 :: int) \<longrightarrow> present dst w)
      (case r of (p, n) \<Rightarrow> if p = 0 then (if n \<noteq> amount then do { record_step h fd a v; ret (- 1, 0) } else do { record_step h fd b u; ret (0, amount) })
        else m) ?Q" if "\<And>c. triple (\<lambda>w. c \<longrightarrow> present dst w) m ?Q" for r a v b u m and amount :: int
  proof (cases r)
    case (Pair p n)
    show ?thesis
    proof (cases "p = 0")
      case True
      with reused show ?thesis by (simp add: Pair)
    next
      case False
      with that [of "p = 0"] show ?thesis by (simp add: Pair)
    qed
  qed
  show ?thesis
    unfolding copy_song_def
    by (rule triple_bind [OF triple_any], rule triple_pair, rule triple_bind [OF triple_any], rule triple_if, simp add: triple_return,
      rule triple_bind [OF stat], rule tail, rule missing)
qed

definition new_song :: "VcmQueueItem \<Rightarrow> VcmId3Tags \<Rightarrow> int \<Rightarrow> song_row" where
  "new_song item tags amount =
     \<lparr>row_values = song_values (song_path item) (item_text (t_title tags)) amount (Some tags) (q_sample_rate item) (q_channels item) (q_duration_ms item),
      row_keyed = True\<rparr>"

text \<open>The rows after a result: the new row and no other of its path, or the rows as they were.\<close>

definition rows_after :: "VcmQueueItem \<Rightarrow> song_row \<Rightarrow> song_row list \<Rightarrow> int \<Rightarrow> song_row list \<Rightarrow> bool" where
  "rows_after item row rows r rows' \<longleftrightarrow>
     (if r = 0 then rows' = rows @ [row] \<and> (\<forall>x \<in> set rows. row_path x \<noteq> Some (Words (song_path item))) else rows' = rows)"

abbreviation song_registration :: "('w, 'a) importer_scheme \<Rightarrow> int \<Rightarrow> VcmQueueItem \<Rightarrow> VcmId3Tags \<Rightarrow> int \<Rightarrow> ('w, int) state" where
  "song_registration h fd item tags amount \<equiv>
     register_song_with_facts h fd Music_Database (song_path item) (item_text (t_title tags)) amount True (Some tags)
       (q_sample_rate item) (q_channels item) (q_duration_ms item)"

lemma song_registration_rows:
  assumes lib: "library_laws h view" and "lib_draft l = None" and "lib_statement l = None"
  shows "triple (\<lambda>w. view w = l) (song_registration h fd item tags amount)
    (\<lambda>r w. rows_after item (new_song item tags amount) (lib_rows l) r (lib_rows (view w)))"
proof (rule tripleI)
  fix w r w'
  assume v: "view w = l" and run: "run_state (song_registration h fd item tags amount) w = (r, w')"
  have "lib_draft (view w) = None" "lib_statement (view w) = None" using v assms(2,3) by simp_all
  from register_run [OF lib this, of fd Music_Database "song_path item" "item_text (t_title tags)" amount True "Some tags"
      "q_sample_rate item" "q_channels item" "q_duration_ms item"]
  show "rows_after item (new_song item tags amount) (lib_rows l) r (lib_rows (view w'))" using run v by (auto simp: rows_after_def new_song_def)
qed

lemma rename_keeps_library: "library_laws h view \<Longrightarrow> maintains (\<lambda>w. view w = l) (f_rename h p q)"
  by (rule quiet_rename [OF library_lawsD(1)]) auto

text \<open>The first half: the file is in its place or still where it was.\<close>

lemma song_placed:
  assumes lib: "library_laws h view" and files: "file_laws h present" and differ: "source \<noteq> song_path item"
  shows "triple (\<lambda>w. view w = l \<and> present source w)
    (do {
       s \<leftarrow> f_rename h source (song_path item);
       r \<leftarrow> given (\<not> s = 0) (do { (status, _) \<leftarrow> copy_song h fd source (song_path item); ret status }) s;
       ret (s, r) })
    (\<lambda>(s, r) w. (r = 0 \<or> s \<noteq> 0) \<and> view w = l \<and> (s \<noteq> 0 \<longrightarrow> present source w) \<and> (r = 0 \<longrightarrow> present (song_path item) w))"
proof -
  let ?dst = "song_path item"
  let ?R = "\<lambda>s r w. (r = (0 :: int) \<or> s \<noteq> (0 :: int)) \<and> view w = l \<and> (s \<noteq> 0 \<longrightarrow> present source w) \<and> (r = 0 \<longrightarrow> present ?dst w)"
  have quiet: "maintains (present source) (copy_song h fd source ?dst)" by (intro triple_rules; rule file_lawsD [OF files])+
  have view: "maintains (\<lambda>w. view w = l) (copy_song h fd source ?dst)" by (intro triple_rules; rule library_lawsD [OF lib])+
  have moved: "triple (\<lambda>w. view w = l \<and> present source w) (f_rename h source ?dst)
      (\<lambda>s w. view w = l \<and> (if s = 0 then present ?dst w else present source w))"
    by (rule triple_conj [OF maintains_triple [OF rename_keeps_library [OF lib]] rename_moves [OF files differ]])
  have c: "triple (\<lambda>w. view w = l \<and> present source w \<and> True) (copy_song h fd source ?dst)
      (\<lambda>r w. view w = l \<and> present source w \<and> (fst r = 0 \<longrightarrow> present ?dst w))"
    by (intro triple_conj maintains_triple view quiet copy_song_present [OF files])
  have copied: "triple (\<lambda>w. view w = l \<and> (if s = 0 then present ?dst w else present source w))
      (given (\<not> s = 0) (do { (status, _) \<leftarrow> copy_song h fd source ?dst; ret status }) s) (?R s)" for s
  proof (rule triple_given)
    assume s: "\<not> s = 0"
    show "triple (\<lambda>w. view w = l \<and> (if s = 0 then present ?dst w else present source w))
        (do { (status, _) \<leftarrow> copy_song h fd source ?dst; ret status }) (?R s)"
    proof (rule triple_bind [OF triple_pre [OF c]])
      fix r :: "int \<times> int"
      show "triple (\<lambda>w. view w = l \<and> present source w \<and> (fst r = 0 \<longrightarrow> present ?dst w)) (case r of (status, _) \<Rightarrow> ret status) (?R s)"
        using s by (cases r) (auto intro!: triple_return)
    qed (use s in simp)
  qed auto
  show ?thesis by (rule triple_bind [OF moved triple_bind [OF copied triple_return]]) simp
qed

text \<open>The second half: the row is committed with the file in its place, or the file is moved back.\<close>

lemma song_committed:
  assumes lib: "library_laws h view" and files: "file_laws h present" and idle: "lib_draft l = None" "lib_statement l = None"
    and differ: "source \<noteq> song_path item"
  shows "triple (\<lambda>w. view w = l \<and> (s \<noteq> (0 :: int) \<longrightarrow> present source w) \<and> present (song_path item) w)
    (do {
       result \<leftarrow> f_sync h;
       result \<leftarrow> given (result = 0) (song_registration h fd item tags amount) result;
       _ \<leftarrow> given (result \<noteq> 0 \<and> s = 0) (f_rename h (song_path item) source) 0;
       ret result })
    (\<lambda>r w. rows_after item (new_song item tags amount) (lib_rows l) r (lib_rows (view w)) \<and> (present (song_path item) w \<or> (r \<noteq> 0 \<and> present source w)))"
proof -
  let ?dst = "song_path item"
  let ?rows = "\<lambda>r w. rows_after item (new_song item tags amount) (lib_rows l) r (lib_rows (view w))"
  have quiet: "maintains (present x) (song_registration h fd item tags amount)" "maintains (present x) (f_sync h)" for x
    by (intro triple_rules; rule file_lawsD [OF files])+
  have view: "maintains (\<lambda>w. view w = l) (f_sync h)" for l by (intro triple_rules) (rule library_lawsD [OF lib])
  have synced: "triple (\<lambda>w. view w = l \<and> (s \<noteq> 0 \<longrightarrow> present source w) \<and> present ?dst w) (f_sync h)
      (\<lambda>_ w. view w = l \<and> (s \<noteq> 0 \<longrightarrow> present source w) \<and> present ?dst w)"
    by (intro triple_conj triple_imp maintains_triple view quiet)
  have registered: "triple (\<lambda>w. view w = l \<and> (s \<noteq> 0 \<longrightarrow> present source w) \<and> present ?dst w)
      (given (r = 0) (song_registration h fd item tags amount) r) (\<lambda>r w. ?rows r w \<and> (s \<noteq> 0 \<longrightarrow> present source w) \<and> present ?dst w)" for r :: int
    by (rule triple_given, intro triple_conj triple_imp maintains_triple song_registration_rows [OF lib idle] quiet) (auto simp: rows_after_def)
  have rows: "triple (\<lambda>w. ?rows r w) (f_rename h p q) (\<lambda>_ w. ?rows r w)" for p q r
    by (rule triple_value [where f = view and P = "\<lambda>v. rows_after item (new_song item tags amount) (lib_rows l) r (lib_rows v)",
          OF rename_keeps_library [OF lib]])
  have restored: "triple (\<lambda>w. ?rows r w \<and> (s \<noteq> 0 \<longrightarrow> present source w) \<and> present ?dst w) (given (r \<noteq> 0 \<and> s = 0) (f_rename h ?dst source) 0)
      (\<lambda>_ w. ?rows r w \<and> (present ?dst w \<or> (r \<noteq> 0 \<and> present source w)))" for r :: int
    by (rule triple_given, intro triple_post [OF triple_pre [OF triple_conj [OF rows rename_moves [OF files differ [symmetric]]]]])
      (auto split: if_splits)
  show ?thesis by (rule triple_bind [OF synced triple_bind [OF registered triple_bind [OF restored triple_return]]])
qed

lemma publish_song_run:
  assumes lib: "library_laws h view" and files: "file_laws h present" and idle: "lib_draft l = None" "lib_statement l = None"
    and differ: "source \<noteq> song_path item"
  shows "triple (\<lambda>w. view w = l \<and> present source w) (publish_song h fd item source tags amount)
    (\<lambda>r w. rows_after item (new_song item tags amount) (lib_rows l) r (lib_rows (view w)) \<and> (present (song_path item) w \<or> (r \<noteq> 0 \<and> present source w)))"
  (is "triple _ _ ?Q")
proof -
  let ?rest = "\<lambda>s r. if r = 0 then do {
       result \<leftarrow> f_sync h;
       result \<leftarrow> given (result = 0) (song_registration h fd item tags amount) result;
       _ \<leftarrow> given (result \<noteq> 0 \<and> s = 0) (f_rename h (song_path item) source) 0;
       ret result } else ret r"
  have "triple (case x of (s, r) \<Rightarrow> \<lambda>w. (r = 0 \<or> s \<noteq> 0) \<and> view w = l \<and> (s \<noteq> 0 \<longrightarrow> present source w) \<and> (r = 0 \<longrightarrow> present (song_path item) w))
      (case x of (s, r) \<Rightarrow> ?rest s r) ?Q" for x :: "int \<times> int"
  proof (cases x)
    case (Pair s r)
    show ?thesis
      unfolding Pair prod.case
      by (rule triple_if, rule triple_pre [OF song_committed [OF assms]])
        (auto intro!: triple_return simp: rows_after_def)
  qed
  from triple_bind [OF song_placed [OF lib files differ] this]
  show ?thesis by (simp add: publish_song_def Let_def del: run_state_bind)
qed

subsection \<open>A reference device\<close>

text \<open>
  A device that satisfies the laws: a set of files and the library itself. Files are read as empty, every call that the laws leave open succeeds, and a rename
  fails when there is no file.
\<close>

record disk_device =
  dev_files :: "u8 list set"
  dev_library :: library

definition on_library :: "'r \<Rightarrow> (library \<Rightarrow> library) \<Rightarrow> (disk_device, 'r) state" where
  "on_library r f = State (\<lambda>w. (r, w\<lparr>dev_library := f (dev_library w)\<rparr>))"

definition moved_file :: "u8 list \<Rightarrow> u8 list \<Rightarrow> (disk_device, int) state" where
  "moved_file p q = State (\<lambda>w. if p \<in> dev_files w then (0, w\<lparr>dev_files := insert q (dev_files w - {p})\<rparr>) else (- 1, w))"

definition reference_importer :: "disk_device importer" where
  "reference_importer =
     \<lparr>f_stat = (\<lambda>p. State (\<lambda>w. ((if p \<in> dev_files w then 0 else - 1, 0), w))), f_mkdir = (\<lambda>p. ret 0),
      f_open = (\<lambda>p a. State (\<lambda>w. (1, if a = Read_From then w else w\<lparr>dev_files := insert p (dev_files w)\<rparr>))),
      f_read = (\<lambda>fd n. ret (Inr [])), f_write = (\<lambda>fd data. ret (int (length data))), f_flush = (\<lambda>fd. ret 0), f_close = (\<lambda>fd. ret 0),
      f_rename = moved_file, f_remove = (\<lambda>p. State (\<lambda>w. (0, w\<lparr>dev_files := dev_files w - {p}\<rparr>))), f_rmdir = (\<lambda>p. ret 0), f_sync = ret 0,
      mem_alloc = (\<lambda>n. ret 1), mem_base = (\<lambda>b. ret (0, True)), mem_free = (\<lambda>b. ret 0), sys_load = (\<lambda>m. ret 0), sys_apputil = ret 0,
      sys_apputil_end = ret 0, sys_music_mount = ret 0, sys_music_umount = ret 0, sys_busy = 1,
      sql_ready = (\<lambda>w. True), sql_has_space = (\<lambda>w. True), sql_space = ret True, sql_config = ret 0, sql_initialize = ret 0,
      sql_counts = (\<lambda>w. (0, 0, 0)), sql_set_ready = ret (), db_vfs = ret 0, db_open = (\<lambda>d rw. ret (0, True)),
      db_exec = (\<lambda>sql. on_library 0 (controlled sql)),
      db_prepare = (\<lambda>sql. on_library (0, True) (\<lambda>l. l\<lparr>lib_statement := Some sql, lib_bound := []\<rparr>)),
      db_bind = (\<lambda>i v. on_library 0 (\<lambda>l. l\<lparr>lib_bound := lib_bound l @ [(i, v)]\<rparr>)),
      db_step = on_library 101 stepped, db_column = (\<lambda>w. 1), db_changes = (\<lambda>w. changed_rows (dev_library w)),
      db_finalize = on_library 0 (\<lambda>l. l\<lparr>lib_statement := None, lib_bound := []\<rparr>),
      db_close = on_library 0 (\<lambda>l. l\<lparr>lib_draft := None\<rparr>), uninitialised = []\<rparr>"

lemma changed_rows_stepped:
  "lib_statement l = Some Sort_Keys \<Longrightarrow> changed_rows (stepped l) = changed_rows l"
  by (simp add: changed_rows_def stepped_def row_path_def filter_map o_def if_distrib cong: if_cong split: option.split)

lemma run_on_library [simp]: "run_state (on_library r f) w = (r, w\<lparr>dev_library := f (dev_library w)\<rparr>)"
  by (simp add: on_library_def)

lemma reference_calls:
  "f_rename reference_importer = moved_file" "f_sync reference_importer = ret 0" "db_vfs reference_importer = ret 0"
  "db_open reference_importer d rw = ret (0, True)" "db_exec reference_importer sql = on_library 0 (controlled sql)"
  "db_prepare reference_importer sql = on_library (0, True) (\<lambda>l. l\<lparr>lib_statement := Some sql, lib_bound := []\<rparr>)"
  "db_bind reference_importer i v = on_library 0 (\<lambda>l. l\<lparr>lib_bound := lib_bound l @ [(i, v)]\<rparr>)" "db_step reference_importer = on_library 101 stepped"
  "db_changes reference_importer w = changed_rows (dev_library w)"
  "db_finalize reference_importer = on_library 0 (\<lambda>l. l\<lparr>lib_statement := None, lib_bound := []\<rparr>)"
  "db_close reference_importer = on_library 0 (\<lambda>l. l\<lparr>lib_draft := None\<rparr>)"
  by (simp_all add: reference_importer_def)

lemma reference_library: "library_laws reference_importer dev_library"
  unfolding library_laws_def
  by (intro conjI allI; simp add: quiet_files_def quiet_system_def maintains_def triple_def reference_importer_def moved_file_def changed_rows_stepped)

lemma reference_files: "file_laws reference_importer (\<lambda>p w. p \<in> dev_files w)"
  unfolding file_laws_def
  by (intro conjI allI impI; auto simp: quiet_files_def quiet_system_def quiet_database_def maintains_def triple_def reference_importer_def moved_file_def)

subsection \<open>Property\<close>

text \<open>
  C13. A song and its row go together. With no transaction open, \<open>publish_song\<close> returns 0 exactly when the library has one new row for the song, with the values of its tags and
  its sort keys, no other row has the path, and the file is in its place; otherwise the library is unchanged and the file is still where it was uploaded or in
  the music folder, so that no upload is lost.
\<close>

theorem song_published:
  assumes "library_laws h view" and "file_laws h present" and "lib_draft (view w) = None" and "lib_statement (view w) = None"
    and "source \<noteq> song_path item" and "present source w" and "run_state (publish_song h fd item source tags amount) w = (r, w')"
  shows "(r = 0 \<longrightarrow> lib_rows (view w') = lib_rows (view w) @ [new_song item tags amount] \<and>
           (\<forall>x \<in> set (lib_rows (view w)). row_path x \<noteq> Some (Words (song_path item))) \<and> present (song_path item) w') \<and>
         (r \<noteq> 0 \<longrightarrow> lib_rows (view w') = lib_rows (view w) \<and> (present source w' \<or> present (song_path item) w'))"
  using tripleD [OF publish_song_run [OF assms(1-5)] _ assms(7)] assms(6) by (auto simp: rows_after_def split: if_splits)

definition sample_upload :: disk_device where
  "sample_upload = \<lparr>dev_files = {[0x61]}, dev_library = \<lparr>lib_rows = [], lib_draft = None, lib_statement = None, lib_bound = []\<rparr>\<rparr>"

lemma sample_upload_published: "fst (run_state (publish_song reference_importer (- 1) clear_item [0x61] clear_tags 5) sample_upload) = 0"
proof -
  have q: "record_step reference_importer (- 1) what v = ret ()" for what v by (simp add: record_step_def)
  have b: "run_state (bind_values reference_importer vs 0) w = (0, w\<lparr>dev_library := (dev_library w)\<lparr>lib_bound := lib_bound (dev_library w) @ vs\<rparr>\<rparr>)" for vs w
  proof (induction vs arbitrary: w)
    case (Cons x vs)
    then show ?case by (cases x) (simp add: reference_importer_def)
  qed simp
  have p: "map_of (song_values path title amount tags rate channels duration) 15 = Some (Words path)" for path title amount tags rate channels duration
    by (simp add: song_values_def Let_def)
  show ?thesis
    unfolding publish_song_def register_song_with_facts_def music_transaction_def insert_song_def sort_keys_def Let_def
    by (simp add: q b p reference_calls sample_upload_def moved_file_def stepped_def changed_rows_def row_path_def del: One_nat_def)
qed

theorem song_published_witness:
  "\<exists>w'. run_state (publish_song reference_importer (- 1) clear_item [0x61] clear_tags 5) sample_upload = (0, w') \<and>
     lib_rows (dev_library w') = [new_song clear_item clear_tags 5] \<and> song_path clear_item \<in> dev_files w'"
proof -
  obtain r w' where run: "run_state (publish_song reference_importer (- 1) clear_item [0x61] clear_tags 5) sample_upload = (r, w')" by (metis surj_pair)
  with sample_upload_published have "r = 0" by simp
  moreover have "[0x61] \<noteq> song_path clear_item" by (simp add: song_path_def)
  ultimately show ?thesis
    using song_published [OF reference_library reference_files _ _ _ _ run] run by (simp add: sample_upload_def)
qed

end
