(* ===== verification/Sync_Import.thy ===== *)
theory Sync_Import
  imports Song_Library
begin

text \<open>
  The import of one received file in \<^verbatim>\<open>src/vita/sync_import.c\<close>: \<open>vcm_sync_import\<close> closes the media applications, leaves a receipt on the disk, hands the file to
  the exporter of its kind or registers the song itself, verifies the result in the library and turns the receipt into the final one. The stages of the
  function are \<open>import_prepare\<close>, \<open>import_transfer\<close>, \<open>import_verify\<close>, \<open>import_extras\<close> and \<open>import_finish\<close>, in its order. The texts fit their arrays:
  an identifier has 32 characters, a name at most 255 and an extension at most 7.
\<close>

subsection \<open>The exporters\<close>

record 'w exporter = "'w importer" +
  app_destroy :: "u8 list \<Rightarrow> ('w, int) state"
  app_pid :: "u8 list \<Rightarrow> ('w, int \<times> int) state"
  sys_delay :: "nat \<Rightarrow> ('w, int) state"
  photo_available :: "u8 list \<Rightarrow> ('w, int \<times> bool) state"
  export_photo :: "u8 list \<Rightarrow> ('w, int \<times> u8 list) state"
  export_video :: "u8 list \<Rightarrow> ('w, int \<times> u8 list) state"
  export_music :: "u8 list \<Rightarrow> ('w, int \<times> u8 list) state"
  sys_photo_mount :: "('w, int) state"
  sys_mms_mount :: "nat \<Rightarrow> ('w, int) state"

subsection \<open>Paths\<close>

definition inbox_root :: "u8 list" where
  "inbox_root = ascii ''ux0:/data/vita-content-manager/wifi''"

definition sync_log :: "u8 list" where
  "sync_log = ascii ''ux0:/data/vita-content-manager/vcm-sync.log''"

definition inbox_file :: "VcmQueueItem \<Rightarrow> u8 list \<Rightarrow> u8 list" where
  "inbox_file item ext = inbox_root @ ascii ''/'' @ item_text (q_id item) @ ascii ''.'' @ ext"

definition inbox_directory :: "VcmQueueItem \<Rightarrow> u8 list" where
  "inbox_directory item = inbox_root @ ascii ''/'' @ item_text (q_id item)"

definition journal_path :: "VcmQueueItem \<Rightarrow> u8 list" where
  "journal_path item = inbox_file item (ascii ''importing'')"

definition done_path :: "VcmQueueItem \<Rightarrow> u8 list" where
  "done_path item = inbox_file item (ascii ''done'')"

subsection \<open>Closing the media applications\<close>

definition media_apps :: "u8 list list" where
  "media_apps = map ascii [''NPXS10009'', ''NPXS10010'', ''NPXS10004'', ''NPXS10026'']"

fun destroy_apps :: "('w, 'a) exporter_scheme \<Rightarrow> int \<Rightarrow> u8 list list \<Rightarrow> ('w, unit) state" where
  "destroy_apps h fd [] = ret ()"
| "destroy_apps h fd (app # apps) = do {
     result \<leftarrow> app_destroy h app;
     _ \<leftarrow> given (0 \<le> fd) (f_write h fd (ascii ''pre-import destroy '' @ app @ ascii '': 0x'' @ hex8 (word_of_int result) @ [10])) 0;
     destroy_apps h fd apps
   }"

fun any_running :: "('w, 'a) exporter_scheme \<Rightarrow> u8 list list \<Rightarrow> bool \<Rightarrow> ('w, bool) state" where
  "any_running h [] running = ret running"
| "any_running h (app # apps) running = do {
     (status, pid) \<leftarrow> app_pid h app;
     any_running h apps (running \<or> (status = 0 \<and> 0 \<le> pid))
   }"

text \<open>Ask until no application is running, at most \<open>n\<close> times: whether one still is.\<close>

fun wait_closed :: "('w, 'a) exporter_scheme \<Rightarrow> nat \<Rightarrow> bool \<Rightarrow> ('w, bool) state" where
  "wait_closed h 0 running = ret running"
| "wait_closed h (Suc n) _ = do {
     running \<leftarrow> any_running h media_apps False;
     if \<not> running then ret running
     else do {
       _ \<leftarrow> sys_delay h 100000;
       wait_closed h n running
     }
   }"

definition close_media_apps :: "('w, 'a) exporter_scheme \<Rightarrow> ('w, int) state" where
  "close_media_apps h = do {
     log \<leftarrow> f_open h sync_log Append_To;
     destroy_apps h log media_apps;
     running \<leftarrow> wait_closed h 50 False;
     _ \<leftarrow> given (0 \<le> log) (do { _ \<leftarrow> f_flush h log; f_close h log }) 0;
     ret (if running then - 1001 else 0)
   }"

subsection \<open>Receipts\<close>

definition receipt :: "('w, 'a) exporter_scheme \<Rightarrow> u8 list \<Rightarrow> u8 list \<Rightarrow> ('w, int) state" where
  "receipt h path line = do {
     fd \<leftarrow> f_open h path Replace_With;
     if fd < 0 then ret fd else do {
     wrote \<leftarrow> f_write h fd (take 2048 line);
     result \<leftarrow> given (wrote = int (length (take 2048 line))) (f_flush h fd) (- 1);
     closed \<leftarrow> f_close h fd;
     ret (if result < 0 then result else closed)
     }}"

subsection \<open>Staging a file under its name\<close>

definition name_char :: "u8 \<Rightarrow> u8" where
  "name_char c = (if c \<in> set (ascii ''/:*?<>|'') \<or> c = 0x5c \<or> c = 0x22 then 0x5f else c)"

definition without_extension :: "u8 list \<Rightarrow> u8 list" where
  "without_extension name = (case strrchr name 0x2e of None \<Rightarrow> name | Some i \<Rightarrow> take i name)"

definition staged_path :: "VcmQueueItem \<Rightarrow> u8 list" where
  "staged_path item =
     inbox_directory item @ ascii ''/'' @ without_extension (map name_char (item_text (q_name item))) @ ascii ''.'' @ item_text (q_extension item)"

text \<open>The status, and where the file is now.\<close>

definition stage_named :: "('w, 'a) exporter_scheme \<Rightarrow> VcmQueueItem \<Rightarrow> u8 list \<Rightarrow> u8 list \<Rightarrow> ('w, int \<times> u8 list) state" where
  "stage_named h item source journal = do {
     status \<leftarrow> f_mkdir h (inbox_directory item);
     status \<leftarrow> given (0 \<le> status) (f_rename h source (staged_path item)) status;
     if 0 \<le> status then do {
       status \<leftarrow> receipt h journal (ascii ''exporting'' @ [10] @ staged_path item @ [10]);
       ret (status, staged_path item)
     } else ret (status, source)
   }"

subsection \<open>The stages of an import\<close>

text \<open>An attempt is settled at once, or it begins.\<close>

datatype attempt = Settled int | Begun

definition import_prepare :: "('w, 'a) exporter_scheme \<Rightarrow> VcmQueueItem \<Rightarrow> ('w, attempt) state" where
  "import_prepare h item = do {
     (finished, _) \<leftarrow> f_stat h (done_path item);
     if finished = 0 then ret (Settled 0) else do {
     (interrupted, _) \<leftarrow> f_stat h (journal_path item);
     if interrupted = 0 then ret (Settled (- 1002)) else do {
     closed \<leftarrow> close_media_apps h;
     if closed < 0 then ret (Settled (- 1001)) else do {
     status \<leftarrow> receipt h (journal_path item)
       (ascii ''starting'' @ [10] @ inbox_file item (item_text (q_extension item)) @ [10] @ item_text (q_name item) @ [10]);
     status \<leftarrow> given (0 \<le> status) (f_sync h) status;
     ret (if status < 0 then Settled (- 1003) else Begun)
     }}}}"

text \<open>The exporter of each kind: the status and the path of what was made.\<close>

definition run_exporter :: "('w, 'a) exporter_scheme \<Rightarrow> int \<Rightarrow> u8 list \<Rightarrow> int \<Rightarrow> ('w, int \<times> u8 list) state" where
  "run_exporter h kind source status =
     (if kind = 0 then do {
        (status, available) \<leftarrow> photo_available h source;
        let status = (if 0 \<le> status \<and> \<not> available then - 1004 else status);
        given (0 \<le> status) (export_photo h source) (status, [])
      } else if kind = 2 then do {
        (status, path) \<leftarrow> export_video h source;
        ret (status, if 0 \<le> status then take 1023 path else [])
      } else export_music h source)"

definition export_staged :: "('w, 'a) exporter_scheme \<Rightarrow> VcmQueueItem \<Rightarrow> u8 list \<Rightarrow> int \<Rightarrow> ('w, int \<times> u8 list) state" where
  "export_staged h item source status = do {
     status \<leftarrow> given (0 \<le> status)
       (sys_load h (if q_kind item = 2 then Video_Export_Module else if q_kind item = 0 then Photo_Export_Module else Music_Export_Module)) status;
     memory \<leftarrow> given (0 \<le> status) (mem_alloc h 0x10000) (- 1);
     (status, mapped) \<leftarrow> given (0 \<le> memory) (mem_base h memory) (memory, False);
     (status, output) \<leftarrow> given (0 \<le> status \<and> mapped) (run_exporter h (q_kind item) source status) (status, []);
     _ \<leftarrow> given (0 \<le> memory) (mem_free h memory) 0;
     ret (status, output)
   }"

definition export_item :: "('w, 'a) exporter_scheme \<Rightarrow> VcmQueueItem \<Rightarrow> u8 list \<Rightarrow> ('w, int \<times> u8 list \<times> u8 list) state" where
  "export_item h item source = do {
     (status, source) \<leftarrow> stage_named h item source (journal_path item);
     (status, output) \<leftarrow> export_staged h item source status;
     ret (status, source, output)
   }"

text \<open>The status, where the source is and the path of the result.\<close>

definition import_transfer :: "('w, 'a) exporter_scheme \<Rightarrow> int \<Rightarrow> VcmQueueItem \<Rightarrow> ('w, (int \<times> u8 list \<times> u8 list) option) state" where
  "import_transfer h log item =
     (let source = inbox_file item (item_text (q_extension item)) in
      if q_kind item = 1 \<and> item_text (q_extension item) = ascii ''mp3'' then do {
        r \<leftarrow> vcm_music_sync_mp3 h log item source;
        ret (case r of None \<Rightarrow> None | Some (status, output) \<Rightarrow> Some (status, source, output))
      } else do {
        r \<leftarrow> export_item h item source;
        ret (Some r)
      })"

definition output_path :: "u8 list \<Rightarrow> u8 list" where
  "output_path output =
     (if starts (ascii ''photo0:/'') output then ascii ''ux0:/picture/'' @ drop 8 output
      else if starts (ascii ''music0:/'') output then ascii ''ux0:/music/'' @ drop 8 output
      else output)"

definition import_mount :: "('w, 'a) exporter_scheme \<Rightarrow> int \<Rightarrow> ('w, unit) state" where
  "import_mount h kind =
     (if kind = 0 then do {
        _ \<leftarrow> sys_load h Apputil_Module;
        _ \<leftarrow> sys_apputil h;
        _ \<leftarrow> sys_photo_mount h;
        _ \<leftarrow> sys_mms_mount h 0x190;
        ret ()
      } else if kind = 2 then do {
        _ \<leftarrow> sys_mms_mount h 0x192;
        ret ()
      } else ret ())"

text \<open>The result must have the size of the source and exactly one row in its library.\<close>

definition import_verify :: "('w, 'a) exporter_scheme \<Rightarrow> int \<Rightarrow> VcmQueueItem \<Rightarrow> u8 list \<Rightarrow> int \<Rightarrow> ('w, int) state" where
  "import_verify h log item output status = do {
     import_mount h (q_kind item);
     (stat_status, amount) \<leftarrow> f_stat h (output_path output);
     (stat_status, amount) \<leftarrow> given (stat_status < 0) (f_stat h output) (stat_status, amount);
     _ \<leftarrow> given (0 \<le> log) (f_write h log
       (ascii ''verify stat=0x'' @ hex8 (word_of_int stat_status) @ ascii '' bytes='' @ dec_text (unat (word_of_int amount :: u64)) @
        ascii '' expected='' @ dec_text (unat (q_size item)) @ [10])) 0;
     let measured = (0 \<le> stat_status \<and> word_of_int amount = q_size item);
     listed \<leftarrow> given measured (vcm_verify_library_item h log (q_kind item) output) (- 1);
     ret (if \<not> measured \<or> listed < 0 then - 1008 else status)
   }"

text \<open>The subtitles of a video go beside it, and the video into its folder.\<close>

definition import_extras :: "('w, 'a) exporter_scheme \<Rightarrow> int \<Rightarrow> VcmQueueItem \<Rightarrow> u8 list \<Rightarrow> int \<Rightarrow> ('w, int) state" where
  "import_extras h log item output status = do {
     status \<leftarrow> (if 0 \<le> status \<and> q_subtitle_size item \<noteq> 0 then
         (case strrchr output 0x2e of
            None \<Rightarrow> ret (- 1005)
          | Some i \<Rightarrow> f_rename h (inbox_file item (ascii ''m4t'')) (take i output @ ascii ''.m4t''))
       else ret status);
     given (0 \<le> status \<and> q_kind item = 2 \<and> item_text (q_folder item) \<noteq> []) (vcm_video_folder h log (item_text (q_folder item)) output) status
   }"

definition import_report :: "VcmQueueItem \<Rightarrow> int \<Rightarrow> u8 list \<Rightarrow> u8 list \<Rightarrow> u8 list" where
  "import_report item status source output =
     item_text (q_name item) @ [10] @ ascii ''result=0x'' @ hex8 (word_of_int status) @ [10] @ ascii ''source='' @ source @ [10] @
     ascii ''output='' @ output @ [10]"

text \<open>The final receipt takes the place of the journal; only then is the upload removed.\<close>

definition import_finish :: "('w, 'a) exporter_scheme \<Rightarrow> VcmQueueItem \<Rightarrow> int \<Rightarrow> u8 list \<Rightarrow> u8 list \<Rightarrow> ('w, int) state" where
  "import_finish h item status source report =
     (if status < 0 then do {
        _ \<leftarrow> receipt h (journal_path item) report;
        ret status
      } else do {
        status \<leftarrow> f_sync h;
        status \<leftarrow> given (0 \<le> status) (receipt h (journal_path item) report) status;
        status \<leftarrow> given (0 \<le> status) (f_rename h (journal_path item) (done_path item)) status;
        status \<leftarrow> given (0 \<le> status) (f_sync h) status;
        if status < 0 then ret (- 1003) else do {
        _ \<leftarrow> f_remove h source;
        _ \<leftarrow> f_rmdir h (inbox_directory item);
        ret 0
        }
      })"

text \<open>What follows the transfer: a result without a path is an error, and a receipt is written in every case.\<close>

definition import_conclude :: "('w, 'a) exporter_scheme \<Rightarrow> int \<Rightarrow> VcmQueueItem \<Rightarrow> int \<Rightarrow> u8 list \<Rightarrow> u8 list \<Rightarrow> ('w, int) state" where
  "import_conclude h log item status source output = do {
     let status = (if 0 \<le> status \<and> output = [] then - 1005 else status);
     status \<leftarrow> given (0 \<le> status) (import_verify h log item output status) status;
     status \<leftarrow> import_extras h log item output status;
     let report = import_report item status source output;
     _ \<leftarrow> given (0 \<le> log) (do { _ \<leftarrow> f_write h log report; _ \<leftarrow> f_flush h log; f_close h log }) 0;
     import_finish h item status source report
   }"

text \<open>An attempt that begins, and the whole attempt; \<open>None\<close> is a fault of the tag parser.\<close>

definition import_begun :: "('w, 'a) exporter_scheme \<Rightarrow> VcmQueueItem \<Rightarrow> ('w, int option) state" where
  "import_begun h item = do {
     log \<leftarrow> f_open h sync_log Append_To;
     transferred \<leftarrow> import_transfer h log item;
     case transferred of
       None \<Rightarrow> ret None
     | Some (status, source, output) \<Rightarrow> do {
         result \<leftarrow> import_conclude h log item status source output;
         ret (Some result)
       }
   }"

definition vcm_sync_import :: "('w, 'a) exporter_scheme \<Rightarrow> VcmQueueItem \<Rightarrow> ('w, int option) state" where
  "vcm_sync_import h item = do {
     begun \<leftarrow> import_prepare h item;
     case begun of
       Settled r \<Rightarrow> ret (Some r)
     | Begun \<Rightarrow> import_begun h item
   }"

subsection \<open>An attempt keeps the receipts\<close>

text \<open>The exporters may consume the file they are given; otherwise they keep an invariant as the other calls do.\<close>

definition quiet_exports :: "('w \<Rightarrow> bool) \<Rightarrow> (u8 list \<Rightarrow> bool) \<Rightarrow> ('w, 'a) exporter_scheme \<Rightarrow> bool" where
  "quiet_exports I protected h \<longleftrightarrow>
     (\<forall>a. maintains I (app_destroy h a)) \<and> (\<forall>a. maintains I (app_pid h a)) \<and> (\<forall>n. maintains I (sys_delay h n)) \<and>
     (\<forall>p. maintains I (photo_available h p)) \<and> (\<forall>p. \<not> protected p \<longrightarrow> maintains I (export_photo h p)) \<and>
     (\<forall>p. \<not> protected p \<longrightarrow> maintains I (export_video h p)) \<and> (\<forall>p. \<not> protected p \<longrightarrow> maintains I (export_music h p)) \<and>
     maintains I (sys_photo_mount h) \<and> (\<forall>n. maintains I (sys_mms_mount h n))"

lemma quiet_exports_rules [triple_rules]:
  assumes "quiet_exports I protected h"
  shows "maintains I (app_destroy h a)" "maintains I (app_pid h a)" "maintains I (sys_delay h n)" "maintains I (photo_available h p)"
    "maintains I (sys_photo_mount h)" "maintains I (sys_mms_mount h n)"
  using assms by (auto simp: quiet_exports_def)

lemma quiet_export:
  assumes "quiet_exports I protected h" and "\<not> protected p"
  shows "maintains I (export_photo h p)" "maintains I (export_video h p)" "maintains I (export_music h p)"
  using assms by (auto simp: quiet_exports_def)

definition device_laws :: "('w, 'a) exporter_scheme \<Rightarrow> (u8 list \<Rightarrow> 'w \<Rightarrow> bool) \<Rightarrow> bool" where
  "device_laws h present \<longleftrightarrow> file_laws h present \<and> (\<forall>x. quiet_exports (present x) (\<lambda>p. p = x) h)"

text \<open>An item is recorded while one of its receipts is there.\<close>

definition recorded :: "(u8 list \<Rightarrow> 'w \<Rightarrow> bool) \<Rightarrow> VcmQueueItem \<Rightarrow> 'w \<Rightarrow> bool" where
  "recorded present item w \<longleftrightarrow> present (journal_path item) w \<or> present (done_path item) w"

lemma destroy_apps_maintains [triple_rules]:
  "quiet_files I protected h \<Longrightarrow> quiet_exports I protected h \<Longrightarrow> maintains I (destroy_apps h fd apps)"
  by (induction h fd apps rule: destroy_apps.induct) (auto intro!: triple_rules)

lemma any_running_maintains [triple_rules]: "quiet_exports I protected h \<Longrightarrow> maintains I (any_running h apps running)"
  by (induction h apps running rule: any_running.induct) (auto intro!: triple_rules)

lemma wait_closed_maintains [triple_rules]: "quiet_exports I protected h \<Longrightarrow> maintains I (wait_closed h n running)"
proof (induction n arbitrary: running)
  case 0
  show ?case by (simp add: maintains_return)
next
  case (Suc n)
  show ?case unfolding wait_closed.simps by (intro triple_rules Suc) (rule Suc.prems)+
qed

lemma close_apps_maintains [triple_rules]:
  "quiet_files I protected h \<Longrightarrow> quiet_exports I protected h \<Longrightarrow> maintains I (close_media_apps h)"
  unfolding close_media_apps_def by (intro triple_rules)

lemma receipt_maintains [triple_rules]: "quiet_files I protected h \<Longrightarrow> maintains I (receipt h path line)"
  unfolding receipt_def by (intro triple_rules)

lemma run_exporter_maintains:
  "quiet_exports I protected h \<Longrightarrow> \<not> protected source \<Longrightarrow> maintains I (run_exporter h kind source status)"
  unfolding run_exporter_def by (intro triple_rules quiet_export)

lemma import_mount_maintains [triple_rules]: "quiet_system I h \<Longrightarrow> quiet_exports I protected h \<Longrightarrow> maintains I (import_mount h kind)"
  unfolding import_mount_def by (intro triple_rules)

lemma import_verify_maintains [triple_rules]:
  "quiet_files I protected h \<Longrightarrow> quiet_system I h \<Longrightarrow> quiet_database I h \<Longrightarrow> quiet_exports I protected h \<Longrightarrow>
    maintains I (import_verify h log item dst status)"
  unfolding import_verify_def by (intro triple_rules)

lemma stage_maintains:
  "quiet_files I protected h \<Longrightarrow> \<not> protected source \<Longrightarrow> maintains I (stage_named h item source journal)"
  unfolding stage_named_def by (intro triple_rules quiet_rename)

lemma stage_source: "triple (\<lambda>_. True) (stage_named h item source journal) (\<lambda>r _. snd r = source \<or> snd r = staged_path item)"
  by (rule tripleI) (auto simp: stage_named_def split: prod.splits if_splits)

text \<open>The files of an item other than its receipts have other names.\<close>

lemma inbox_file_inject [simp]: "inbox_file item a = inbox_file item b \<longleftrightarrow> a = b"
  by (simp add: inbox_file_def)

lemma inbox_differs: "u \<noteq> 0x2e \<Longrightarrow> inbox_directory item @ u # rest \<noteq> inbox_file item ext"
  by (simp add: inbox_directory_def inbox_file_def)

lemma song_path_differs: "song_path item \<noteq> inbox_file other ext"
  by (simp add: song_path_def inbox_file_def inbox_root_def)

definition plain_extension :: "VcmQueueItem \<Rightarrow> bool" where
  "plain_extension item \<longleftrightarrow> item_text (q_extension item) \<notin> {ascii ''importing'', ascii ''done''}"

lemma item_valid_extension: "item_valid item \<Longrightarrow> plain_extension item"
proof -
  assume "item_valid item"
  then have k: "q_kind item \<in> {0, 1, 2}" and r: "kind_refused item = Some False" by (auto simp: item_valid_def Sync_Queue.media_valid_def)
  from r obtain ext where e: "c_string (q_extension item) = Some ext" by (auto simp: kind_refused_def bind_eq_Some_conv)
  with r k have "photo_extension ext \<or> music_extension ext \<or> ext = ascii ''mp4''" by (auto simp: kind_refused_def)
  then have "ext \<noteq> ascii ''importing'' \<and> ext \<noteq> ascii ''done''"
    unfolding photo_extension_def music_extension_def by (elim disjE) simp_all
  then show ?thesis by (simp only: plain_extension_def item_text_c_string [OF e] insert_iff empty_iff) simp
qed

abbreviation receipt_name :: "VcmQueueItem \<Rightarrow> u8 list \<Rightarrow> bool" where
  "receipt_name item \<equiv> (\<lambda>p. p = journal_path item \<or> p = done_path item)"

text \<open>The files of an item that an attempt moves, removes or hands to an exporter.\<close>

definition touched :: "VcmQueueItem \<Rightarrow> u8 list set" where
  "touched item = {inbox_file item (item_text (q_extension item)), staged_path item, song_path item, inbox_file item (ascii ''m4t'')}"

lemma export_staged_maintains [triple_rules]:
  "quiet_files I protected h \<Longrightarrow> quiet_system I h \<Longrightarrow> quiet_exports I protected h \<Longrightarrow> \<not> protected source \<Longrightarrow>
    maintains I (export_staged h item source status)"
  unfolding export_staged_def by (intro triple_rules run_exporter_maintains)

lemma export_maintains:
  assumes "quiet_files I protected h" and "quiet_system I h" and "quiet_exports I protected h"
    and source: "\<not> protected source" "\<not> protected (staged_path item)"
  shows "triple I (export_item h item source) (\<lambda>r w. (fst (snd r) = source \<or> fst (snd r) = staged_path item) \<and> I w)"
proof -
  have staged: "triple I (stage_named h item source (journal_path item)) (\<lambda>r w. (snd r = source \<or> snd r = staged_path item) \<and> I w)"
    by (rule triple_pre [OF triple_conj [OF stage_source maintains_triple [OF stage_maintains]]]) (use assms in auto)
  have rest: "triple (\<lambda>w. (p = source \<or> p = staged_path item) \<and> I w)
      (do { (status, out) \<leftarrow> export_staged h item p status; ret (status, p, out) })
      (\<lambda>r w. (fst (snd r) = source \<or> fst (snd r) = staged_path item) \<and> I w)" for p status
  proof (cases "p = source \<or> p = staged_path item")
    case True
    then have "\<not> protected p" using source by auto
    then have e: "triple I (export_staged h item p status) (\<lambda>_. I)"
      by (intro maintains_triple triple_rules) (rule assms | assumption)+
    show ?thesis
      by (rule triple_bind [OF triple_pre [OF e]]) (use True in \<open>auto intro!: triple_pair triple_return\<close>)
  qed (auto simp: triple_def)
  show ?thesis
    unfolding export_item_def
  proof (rule triple_bind [OF staged])
    fix r :: "int \<times> u8 list"
    show "triple (\<lambda>w. (snd r = source \<or> snd r = staged_path item) \<and> I w)
        (case r of (status, p) \<Rightarrow> do { (status, out) \<leftarrow> export_staged h item p status; ret (status, p, out) })
        (\<lambda>r w. (fst (snd r) = source \<or> fst (snd r) = staged_path item) \<and> I w)"
      using rest by (cases r) simp
  qed
qed

lemma triple_some:
  assumes "triple (\<lambda>_. True) m (\<lambda>p _. p \<noteq> None)" and "\<And>y. triple (\<lambda>_. True) (k y) (\<lambda>r _. r \<noteq> None)"
  shows "triple (\<lambda>_. True) (do { p \<leftarrow> m; case p of None \<Rightarrow> ret None | Some y \<Rightarrow> k y }) (\<lambda>r _. r \<noteq> None)"
proof (rule triple_bind [OF assms(1)])
  fix p
  show "triple (\<lambda>_. p \<noteq> None) (case p of None \<Rightarrow> ret None | Some y \<Rightarrow> k y) (\<lambda>r _. r \<noteq> None)"
    using assms(2) by (cases p) (auto simp: triple_def)
qed

lemma load_tags_total: "triple (\<lambda>_. True) (load_tags h input mapped amount header tags) (\<lambda>r _. r \<noteq> None)"
proof -
  have "vcm_parse_id3v23 g (Some data) tags \<noteq> None" for g data
    using parse_id3_result [of data g tags] by (auto simp: id3_done_def)
  then show ?thesis
    unfolding load_tags_def by (auto simp: triple_def split: prod.splits)
qed

lemma read_id3_total: "triple (\<lambda>_. True) (read_id3_from_vita h fd path tags) (\<lambda>r _. r \<noteq> None)"
  unfolding read_id3_from_vita_def
  by (rule triple_some load_tags_total | rule triple_if triple_pair triple_let triple_return triple_bind [OF triple_any] | (simp; fail))+

lemma sync_mp3_total: "triple (\<lambda>_. True) (vcm_music_sync_mp3 h fd item source) (\<lambda>r _. r \<noteq> None)"
  unfolding vcm_music_sync_mp3_def
  by (rule triple_some read_id3_total | rule triple_if triple_pair triple_let triple_return triple_bind [OF triple_any] | (simp; fail))+

text \<open>A transfer ends with a result, and the file it began with is where it was or staged.\<close>

definition transferred :: "VcmQueueItem \<Rightarrow> (int \<times> u8 list \<times> u8 list) option \<Rightarrow> bool" where
  "transferred item r \<longleftrightarrow> (\<exists>s p out. r = Some (s, p, out) \<and> p \<in> {inbox_file item (item_text (q_extension item)), staged_path item})"

lemma transfer_maintains:
  assumes quiet: "quiet_files I protected h" "quiet_system I h" "quiet_database I h" "quiet_exports I protected h"
    and free: "\<forall>p \<in> touched item. \<not> protected p"
  shows "triple I (import_transfer h log item) (\<lambda>r w. transferred item r \<and> I w)"
proof -
  let ?source = "inbox_file item (item_text (q_extension item))"
  have free: "\<not> protected ?source" "\<not> protected (staged_path item)" "\<not> protected (song_path item)" using free by (auto simp: touched_def)
  have song: "triple I (vcm_music_sync_mp3 h log item ?source) (\<lambda>r w. r \<noteq> None \<and> I w)"
    by (rule triple_pre [OF triple_conj [OF sync_mp3_total maintains_triple [OF sync_mp3_maintains [where protected = protected]]]]) (use quiet free in auto)
  have export: "triple I (export_item h item ?source) (\<lambda>r w. (fst (snd r) = ?source \<or> fst (snd r) = staged_path item) \<and> I w)"
    by (rule export_maintains [where protected = protected]) (use quiet free in auto)
  show ?thesis
    unfolding import_transfer_def Let_def
    by (intro triple_if triple_bind [OF song] triple_bind [OF export] triple_return) (auto simp: transferred_def split: option.splits prod.splits)
qed

lemma finish_maintains:
  assumes "quiet_files I protected h" and "\<not> protected source" and "maintains I (f_rename h (journal_path item) (done_path item))"
  shows "maintains I (import_finish h item status source report)"
  unfolding import_finish_def by (intro triple_rules quiet_remove) (rule assms)+

lemma extras_maintains [triple_rules]:
  assumes "quiet_files I protected h" and "quiet_system I h" and "quiet_database I h" and "\<forall>p \<in> touched item. \<not> protected p"
  shows "maintains I (import_extras h log item dst status)"
proof -
  have "\<not> protected (inbox_file item (ascii ''m4t''))" using assms(4) by (simp add: touched_def)
  then show ?thesis
    unfolding import_extras_def by (intro triple_rules quiet_rename) (rule assms | assumption)+
qed

text \<open>An attempt that begins keeps every invariant that does not depend on the files it moves.\<close>

lemma begun_maintains:
  assumes quiet: "quiet_files I protected h" "quiet_system I h" "quiet_database I h" "quiet_exports I protected h"
    and free: "\<forall>p \<in> touched item. \<not> protected p" and settle: "maintains I (f_rename h (journal_path item) (done_path item))"
  shows "triple I (import_begun h item) (\<lambda>r w. r \<noteq> None \<and> I w)"
proof -
  have conclude: "maintains I (import_conclude h log item s p out)" if "\<not> protected p" for log s p out
    unfolding import_conclude_def by (intro triple_rules finish_maintains) (rule quiet free settle that)+
  have log: "triple I (f_open h sync_log Append_To) (\<lambda>_. I)"
    by (intro maintains_triple triple_rules) (rule quiet)
  have "triple (\<lambda>w. transferred item r \<and> I w)
      (case r of None \<Rightarrow> ret None | Some (s, p, out) \<Rightarrow> do { result \<leftarrow> import_conclude h log item s p out; ret (Some result) })
      (\<lambda>r w. r \<noteq> None \<and> I w)" for r log
  proof (cases "transferred item r")
    case True
    then obtain s p out where r: "r = Some (s, p, out)" and p: "\<not> protected p" using free by (auto simp: transferred_def touched_def)
    have "triple I (do { result \<leftarrow> import_conclude h log item s p out; ret (Some result) }) (\<lambda>r w. r \<noteq> None \<and> I w)"
      by (rule triple_bind [OF maintains_triple [OF conclude [OF p]]]) (simp add: triple_return)
    with r show ?thesis by (auto elim!: triple_pre)
  qed (auto simp: triple_def)
  with log transfer_maintains [OF quiet free] show ?thesis unfolding import_begun_def by (blast intro: triple_bind)
qed

subsection \<open>The receipts of an item\<close>

text \<open>The receipts have names of their own, so the laws of the files make them a pair that only the final rename changes.\<close>

lemma receipts_untouched: "plain_extension item \<Longrightarrow> \<forall>p \<in> touched item. \<not> receipt_name item p"
  by (auto simp: touched_def plain_extension_def journal_path_def done_path_def song_path_differs staged_path_def inbox_directory_def
      inbox_file_def song_path_def inbox_root_def)

lemma device_lawsD:
  assumes "device_laws h present"
  shows "file_laws h present" and "quiet_exports (present x) (\<lambda>p. p = x) h"
  using assms by (simp_all add: device_laws_def)

lemma quiet_disj:
  "quiet_files I P h \<Longrightarrow> quiet_files J Q h \<Longrightarrow> quiet_files (\<lambda>w. I w \<or> J w) (\<lambda>p. P p \<or> Q p) h"
  "quiet_system I h \<Longrightarrow> quiet_system J h \<Longrightarrow> quiet_system (\<lambda>w. I w \<or> J w) h"
  "quiet_database I h \<Longrightarrow> quiet_database J h \<Longrightarrow> quiet_database (\<lambda>w. I w \<or> J w) h"
  "quiet_exports I P h' \<Longrightarrow> quiet_exports J Q h' \<Longrightarrow> quiet_exports (\<lambda>w. I w \<or> J w) (\<lambda>p. P p \<or> Q p) h'"
  unfolding quiet_files_def quiet_system_def quiet_database_def quiet_exports_def
  by (elim conjE; intro conjI allI impI maintains_disj; simp)+

lemma recorded_quiet:
  assumes "device_laws h present"
  shows "quiet_files (recorded present item) (receipt_name item) h" and "quiet_system (recorded present item) h"
    and "quiet_database (recorded present item) h" and "quiet_exports (recorded present item) (receipt_name item) h"
  unfolding recorded_def by (intro quiet_disj file_lawsD [OF device_lawsD(1) [OF assms]] device_lawsD [OF assms])+

lemma receipts_differ: "journal_path item \<noteq> done_path item"
  by (simp add: journal_path_def done_path_def)

lemma recorded_rename:
  assumes "device_laws h present"
  shows "maintains (recorded present item) (f_rename h (journal_path item) (done_path item))"
proof (rule maintainsI)
  fix w
  let ?v = "snd (run_state (f_rename h (journal_path item) (done_path item)) w)"
  assume w: "recorded present item w"
  note files = device_lawsD(1) [OF assms]
  have d: "maintains (present (done_path item)) (f_rename h (journal_path item) (done_path item))"
    by (rule quiet_rename [OF file_lawsD(5) [OF files]]) (rule receipts_differ)
  show "recorded present item ?v"
  proof (cases "present (done_path item) w")
    case True
    then show ?thesis unfolding recorded_def by (intro disjI2 maintainsD [OF d])
  next
    case False
    with w have j: "present (journal_path item) w" by (simp add: recorded_def)
    from triple_run [OF rename_moves [OF files receipts_differ] this] show ?thesis
      by (simp add: recorded_def split: if_splits)
  qed
qed

lemma stat_outcome:
  assumes "device_laws h present"
  shows "\<exists>s amount. run_state (f_stat h p) w = ((s, amount), w) \<and> (s = 0 \<longleftrightarrow> present p w)"
  using file_lawsD(1,2) [OF device_lawsD(1) [OF assms], of p w] by (cases "run_state (f_stat h p) w") auto

lemma prepare_outcome:
  assumes "device_laws h present"
  shows "present (done_path item) w \<Longrightarrow> run_state (import_prepare h item) w = (Settled 0, w)"
    and "\<not> present (done_path item) w \<Longrightarrow> present (journal_path item) w \<Longrightarrow> run_state (import_prepare h item) w = (Settled (- 1002), w)"
proof -
  obtain s n where s: "run_state (f_stat h (done_path item)) w = ((s, n), w)" "s = 0 \<longleftrightarrow> present (done_path item) w"
    using stat_outcome [OF assms(1)] by metis
  obtain t m where t: "run_state (f_stat h (journal_path item)) w = ((t, m), w)" "t = 0 \<longleftrightarrow> present (journal_path item) w"
    using stat_outcome [OF assms(1)] by metis
  show "present (done_path item) w \<Longrightarrow> run_state (import_prepare h item) w = (Settled 0, w)"
    using s by (simp add: import_prepare_def)
  show "\<not> present (done_path item) w \<Longrightarrow> present (journal_path item) w \<Longrightarrow> run_state (import_prepare h item) w = (Settled (- 1002), w)"
    using s t by (simp add: import_prepare_def)
qed

lemma receipt_leaves:
  assumes "file_laws h present"
  shows "triple (\<lambda>_. True) (receipt h p line) (\<lambda>r w. 0 \<le> r \<longrightarrow> present p w)"
proof -
  have body: "triple (present p) (do {
     wrote \<leftarrow> f_write h fd (take 2048 line);
     result \<leftarrow> given (wrote = int (length (take 2048 line))) (f_flush h fd) (- 1);
     closed \<leftarrow> f_close h fd;
     ret (if result < 0 then result else closed)
     }) (\<lambda>_. present p)" for fd
    by (intro maintains_triple triple_rules) (rule file_lawsD [OF assms])+
  show ?thesis
    unfolding receipt_def
    by (rule triple_bind [OF file_lawsD(3) [OF assms, of Replace_With, simplified]], rule triple_if, simp add: triple_return,
      rule triple_post [OF triple_pre [OF body]]) auto
qed

lemma prepare_begun:
  assumes "device_laws h present"
  shows "triple (\<lambda>_. True) (import_prepare h item) (\<lambda>r w. r = Begun \<longrightarrow> recorded present item w)"
proof -
  let ?Q = "\<lambda>r w. r = Begun \<longrightarrow> recorded present item w"
  note files = device_lawsD(1) [OF assms]
  have sync: "triple (\<lambda>w. 0 \<le> s \<longrightarrow> present (journal_path item) w) (given (0 \<le> s) (f_sync h) s) (\<lambda>r w. 0 \<le> r \<longrightarrow> present (journal_path item) w)" for s
    by (rule triple_given)
      (auto intro!: triple_post [OF triple_pre, OF maintains_triple] quiet_files_rules(9) [OF file_lawsD(5) [OF files]])
  have tail: "triple (\<lambda>_. True) (do {
       status \<leftarrow> receipt h (journal_path item) line;
       status \<leftarrow> given (0 \<le> status) (f_sync h) status;
       ret (if status < 0 then Settled (- 1003) else Begun)
     }) ?Q" for line
    by (rule triple_bind [OF receipt_leaves [OF files]], rule triple_bind [OF sync]) (auto intro!: triple_return simp: recorded_def)
  show ?thesis
    unfolding import_prepare_def by (rule tail | rule triple_if triple_pair triple_return triple_bind [OF triple_any] | simp)+
qed

text \<open>Success is reported only when the final receipt is there.\<close>

lemma finish_done:
  assumes "device_laws h present" and "source \<noteq> done_path item"
  shows "triple (\<lambda>_. True) (import_finish h item status source report) (\<lambda>r w. r = 0 \<longrightarrow> present (done_path item) w)"
proof -
  note files = device_lawsD(1) [OF assms(1)]
  let ?j = "journal_path item" and ?d = "done_path item"
  have failed: "triple (\<lambda>_. True) (do { _ \<leftarrow> receipt h ?j report; ret status }) (\<lambda>r w. r = 0 \<longrightarrow> present ?d w)" if "status < 0"
    by (rule triple_bind [OF triple_any]) (use that in \<open>simp add: triple_return\<close>)
  have journal: "triple (\<lambda>_. True) (given (0 \<le> s) (receipt h ?j report) s) (\<lambda>r w. 0 \<le> r \<longrightarrow> present ?j w)" for s
    by (rule triple_given, rule receipt_leaves [OF files]) simp
  have renamed: "triple (\<lambda>w. 0 \<le> s \<longrightarrow> present ?j w) (given (0 \<le> s) (f_rename h ?j ?d) s) (\<lambda>r w. 0 \<le> r \<longrightarrow> present ?d w)" for s
    by (rule triple_given, rule triple_post [OF triple_pre [OF file_lawsD(4) [OF files receipts_differ]]]) (auto split: if_splits)
  have synced: "triple (\<lambda>w. 0 \<le> s \<longrightarrow> present ?d w) (given (0 \<le> s) (f_sync h) s) (\<lambda>r w. 0 \<le> r \<longrightarrow> present ?d w)" for s
    by (rule triple_given)
      (auto intro!: triple_post [OF triple_pre, OF maintains_triple] quiet_files_rules(9) [OF file_lawsD(5) [OF files]])
  have removed: "triple (present ?d) (do { _ \<leftarrow> f_remove h source; _ \<leftarrow> f_rmdir h (inbox_directory item); ret 0 }) (\<lambda>_. present ?d)"
    by (intro maintains_triple triple_rules quiet_remove) (rule assms(2) file_lawsD(5) [OF files])+
  have last: "triple (\<lambda>w. 0 \<le> s \<longrightarrow> present ?d w)
      (if s < 0 then ret (- 1003 :: int) else do { _ \<leftarrow> f_remove h source; _ \<leftarrow> f_rmdir h (inbox_directory item); ret 0 })
      (\<lambda>r w. r = 0 \<longrightarrow> present ?d w)" for s :: int
    by (rule triple_if, simp add: triple_return, rule triple_post [OF triple_pre [OF removed]]) auto
  show ?thesis
    unfolding import_finish_def
    by (rule triple_if, erule failed, rule triple_bind [OF triple_any], rule triple_bind [OF journal], rule triple_bind [OF renamed],
      rule triple_bind [OF synced], rule last)
qed

lemma quiet_trivial:
  "quiet_files (\<lambda>_. True) (\<lambda>_. False) h" "quiet_system (\<lambda>_. True) h" "quiet_database (\<lambda>_. True) h" "quiet_exports (\<lambda>_. True) (\<lambda>_. False) h'"
  by (simp_all add: quiet_files_def quiet_system_def quiet_database_def quiet_exports_def maintains_def triple_any)

lemma import_begun_done:
  assumes "device_laws h present" and "plain_extension item"
  shows "triple (\<lambda>_. True) (import_begun h item) (\<lambda>r w. r = Some 0 \<longrightarrow> present (done_path item) w)"
proof -
  have "triple (\<lambda>_. transferred item r)
      (case r of None \<Rightarrow> ret None | Some (s, p, out) \<Rightarrow> do { result \<leftarrow> import_conclude h log item s p out; ret (Some result) })
      (\<lambda>r w. r = Some 0 \<longrightarrow> present (done_path item) w)" for r log
  proof (cases "transferred item r")
    case True
    then obtain s p out where r: "r = Some (s, p, out)" and p: "p \<noteq> done_path item"
      using receipts_untouched [OF assms(2)] by (auto simp: transferred_def touched_def)
    have "triple (\<lambda>_. True) (import_conclude h log item s p out) (\<lambda>r w. r = 0 \<longrightarrow> present (done_path item) w)"
      unfolding import_conclude_def Let_def
      by (rule triple_bind [OF triple_any], rule triple_bind [OF triple_any], rule triple_bind [OF triple_any]) (rule finish_done [OF assms(1) p])
    then have "triple (\<lambda>_. True) (do { result \<leftarrow> import_conclude h log item s p out; ret (Some result) })
        (\<lambda>r w. r = Some 0 \<longrightarrow> present (done_path item) w)"
      by (rule triple_bind) (simp add: triple_return)
    with r show ?thesis by (auto elim!: triple_pre)
  qed (auto simp: triple_def)
  moreover have "triple (\<lambda>_. True) (import_transfer h log item) (\<lambda>r _. transferred item r)" for log
    by (rule triple_post [OF transfer_maintains [OF quiet_trivial]]) auto
  ultimately show ?thesis unfolding import_begun_def by (blast intro: triple_bind triple_any)
qed

end
