(* ===== verification/Import_Session.thy ===== *)
theory Import_Session
  imports Queue_System Sync_Import
begin

text \<open>
  Several attempts and several items: an item is handed to the exporters at most once whatever happens between the attempts, the attempts of different
  items leave each other's receipts alone, and after a run of the queue's import loop with the results of \<open>vcm_sync_import\<close> every item that is marked
  imported has its final receipt on the disk. A reference device shows that the laws of the environment can hold together.
\<close>

subsection \<open>Several items\<close>

text \<open>The identifiers of valid items have one length, so the files of different items differ.\<close>

lemma valid_id_length: "item_valid item \<Longrightarrow> length (item_text (q_id item)) = 32 \<and> q_id item = item_text (q_id item) @ [0]"
  by (auto simp: item_valid_def holds_id_def item_text_c_string [OF c_string_id] id_valid_iff)

lemma other_receipt:
  assumes "item_valid x" and "item_valid y" and "q_id x \<noteq> q_id y"
  shows "\<forall>p \<in> touched y. p \<noteq> done_path x" and "journal_path y \<noteq> done_path x"
proof -
  have l: "length (item_text (q_id x)) = length (item_text (q_id y))" "item_text (q_id x) \<noteq> item_text (q_id y)"
    using valid_id_length [OF assms(1)] valid_id_length [OF assms(2)] assms(3) by auto
  have "inbox_file y ext \<noteq> done_path x" for ext using l by (simp add: inbox_file_def done_path_def)
  moreover have "staged_path y \<noteq> done_path x" using l by (simp add: staged_path_def inbox_directory_def inbox_file_def done_path_def)
  moreover have "song_path y \<noteq> done_path x" by (simp add: song_path_differs done_path_def)
  ultimately show "\<forall>p \<in> touched y. p \<noteq> done_path x" "journal_path y \<noteq> done_path x"
    by (auto simp: touched_def journal_path_def)
qed

lemma prepare_maintains:
  "quiet_files I protected h \<Longrightarrow> quiet_exports I protected h \<Longrightarrow> maintains I (import_prepare h item)"
  unfolding import_prepare_def by (intro triple_rules)

lemma triple_attempt:
  "(\<And>r. triple P (f r) Q) \<Longrightarrow> triple P m Q \<Longrightarrow> triple P (case a of Settled r \<Rightarrow> f r | Begun \<Rightarrow> m) Q"
  by (cases a) simp_all

text \<open>An attempt keeps the final receipts of the other items.\<close>

lemma import_keeps_others:
  assumes laws: "device_laws h present" and "item_valid x" "item_valid y" "q_id x \<noteq> q_id y"
  shows "maintains (present (done_path x)) (vcm_sync_import h y)"
proof -
  let ?I = "present (done_path x)"
  note quiet = file_lawsD(5-7) [OF device_lawsD(1) [OF laws], of "done_path x"] device_lawsD(2) [OF laws, of "done_path x"]
  have "maintains ?I (f_rename h (journal_path y) (done_path y))"
    by (rule quiet_rename [OF quiet(1)]) (rule other_receipt(2) [OF assms(2-4)])
  from begun_maintains [OF quiet other_receipt(1) [OF assms(2-4)] this]
  have begun: "triple ?I (import_begun h y) (\<lambda>_. ?I)" by (rule triple_post) simp
  have "triple ?I (vcm_sync_import h y) (\<lambda>_. ?I)"
    unfolding vcm_sync_import_def
    by (rule triple_bind [OF maintains_triple [OF prepare_maintains [OF quiet(1,4)]]], rule triple_attempt)
      (auto intro: triple_return begun)
  then show ?thesis by (simp add: maintains_def)
qed

text \<open>What an attempt returns: a result in every case, and 0 only with the final receipt.\<close>

lemma import_result:
  assumes laws: "device_laws h present" and item: "item_valid x"
  shows "triple (\<lambda>_. True) (vcm_sync_import h x) (\<lambda>r w. r \<noteq> None \<and> (r = Some 0 \<longrightarrow> present (done_path x) w))"
proof -
  let ?d = "done_path x"
  have stat: "triple (\<lambda>_. True) (f_stat h ?d) (\<lambda>r w. fst r = 0 \<longrightarrow> present ?d w)"
  proof (rule tripleI)
    fix w r w'
    assume "run_state (f_stat h ?d) w = (r, w')"
    then show "fst r = 0 \<longrightarrow> present ?d w'" using stat_outcome [OF laws, of ?d w] by auto
  qed
  have late: "triple P (do {
     (interrupted, _) \<leftarrow> f_stat h (journal_path x);
     if interrupted = 0 then ret (Settled (- 1002)) else do {
     closed \<leftarrow> close_media_apps h;
     if closed < 0 then ret (Settled (- 1001)) else do {
     status \<leftarrow> receipt h (journal_path x) line;
     status \<leftarrow> given (0 \<le> status) (f_sync h) status;
     ret (if status < 0 then Settled (- 1003) else Begun)
     }}}) (\<lambda>r w. r = Settled 0 \<longrightarrow> present ?d w)" for P line
    by (rule triple_if triple_pair triple_return triple_bind [OF triple_any] | simp)+
  have tail: "triple (\<lambda>w. fst r = (0 :: int) \<longrightarrow> present ?d w) (case r of (finished, _) \<Rightarrow> if finished = 0 then ret (Settled 0) else m)
      (\<lambda>r w. r = Settled 0 \<longrightarrow> present ?d w)" if "\<And>P. triple P m (\<lambda>r w. r = Settled 0 \<longrightarrow> present ?d w)" for r :: "int \<times> int" and m
    using that by (cases r) (auto intro!: triple_return)
  have prepare: "triple (\<lambda>_. True) (import_prepare h x) (\<lambda>r w. r = Settled 0 \<longrightarrow> present ?d w)"
    unfolding import_prepare_def by (rule triple_bind [OF stat], rule tail, rule late)
  have "triple (\<lambda>w. True \<and> True) (import_begun h x) (\<lambda>r w. (r \<noteq> None \<and> True) \<and> (r = Some 0 \<longrightarrow> present ?d w))"
    by (rule triple_conj [OF begun_maintains [OF quiet_trivial] import_begun_done [OF laws item_valid_extension [OF item]]])
      (simp_all add: maintains_def triple_any)
  then have begun: "triple P (import_begun h x) (\<lambda>r w. r \<noteq> None \<and> (r = Some 0 \<longrightarrow> present ?d w))" for P
    by (auto elim: triple_post [OF triple_pre])
  have settled: "triple (\<lambda>w. a = Settled 0 \<longrightarrow> present ?d w) (case a of Settled r \<Rightarrow> ret (Some r) | Begun \<Rightarrow> import_begun h x)
      (\<lambda>r w. r \<noteq> None \<and> (r = Some 0 \<longrightarrow> present ?d w))" for a
    using begun by (cases a) (auto intro!: triple_return)
  show ?thesis
    unfolding vcm_sync_import_def by (rule triple_bind [OF prepare settled])
qed

text \<open>The items of a queue, one after the other.\<close>

fun import_items :: "('w, 'a) exporter_scheme \<Rightarrow> VcmQueueItem list \<Rightarrow> ('w, int option list) state" where
  "import_items h [] = ret []"
| "import_items h (x # xs) = do {
     r \<leftarrow> vcm_sync_import h x;
     rs \<leftarrow> import_items h xs;
     ret (r # rs)
   }"

lemma import_items_receipts:
  assumes laws: "device_laws h present"
  shows "distinct (map q_id (ys @ xs)) \<Longrightarrow> list_all item_valid (ys @ xs) \<Longrightarrow>
    triple (\<lambda>w. \<forall>y \<in> set ys. present (done_path y) w) (import_items h xs)
      (\<lambda>rs w. length rs = length xs \<and> (\<forall>y \<in> set ys. present (done_path y) w) \<and>
        (\<forall>(x, r) \<in> set (zip xs rs). r \<noteq> None \<and> (r = Some 0 \<longrightarrow> present (done_path x) w)))"
proof (induction xs arbitrary: ys)
  case Nil
  show ?case by (simp add: triple_return)
next
  case (Cons x xs)
  have valid: "item_valid x" and ids: "y \<in> set ys \<Longrightarrow> item_valid y \<and> q_id y \<noteq> q_id x" for y
    using Cons.prems by (auto simp: list_all_iff) (metis imageI)
  have kept: "triple (\<lambda>w. \<forall>y \<in> set ys. present (done_path y) w) (vcm_sync_import h x) (\<lambda>_ w. \<forall>y \<in> set ys. present (done_path y) w)"
    by (rule triple_ball) (use import_keeps_others [OF laws _ valid] ids in \<open>auto simp: maintains_def\<close>)
  let ?known = "\<lambda>r. if r = Some 0 then x # ys else ys"
  have first: "triple (\<lambda>w. True \<and> (\<forall>y \<in> set ys. present (done_path y) w)) (vcm_sync_import h x)
      (\<lambda>r w. (r \<noteq> None \<and> (r = Some 0 \<longrightarrow> present (done_path x) w)) \<and> (\<forall>y \<in> set ys. present (done_path y) w))"
    by (rule triple_conj [OF import_result [OF laws valid] kept])
  have rest: "triple (\<lambda>w. (r \<noteq> None \<and> (r = Some 0 \<longrightarrow> present (done_path x) w)) \<and> (\<forall>y \<in> set ys. present (done_path y) w))
      (do { rs \<leftarrow> import_items h xs; ret (r # rs) })
      (\<lambda>rs w. length rs = length (x # xs) \<and> (\<forall>y \<in> set ys. present (done_path y) w) \<and>
        (\<forall>(x, r) \<in> set (zip (x # xs) rs). r \<noteq> None \<and> (r = Some 0 \<longrightarrow> present (done_path x) w)))" for r
  proof (cases "r = None")
    case False
    have "distinct (map q_id (?known r @ xs))" "list_all item_valid (?known r @ xs)" using Cons.prems by auto
    note ih = Cons.IH [OF this]
    show ?thesis
      by (rule triple_bind [OF triple_pre [OF ih]]) (use False in \<open>auto intro!: triple_return split: if_splits\<close>)
  qed (simp add: triple_def)
  show ?case
    unfolding import_items.simps by (rule triple_pre [OF triple_bind [OF first rest]]) simp
qed

text \<open>The results as the status function of a run of the queue.\<close>

definition received :: "sync_queue \<Rightarrow> VcmQueueItem list" where
  "received q = map (\<lambda>x. x\<lparr>q_state := VCM_IMPORTING\<rparr>) (filter (\<lambda>x. q_state x = VCM_RECEIVED) (live q))"

definition status_of :: "VcmQueueItem list \<Rightarrow> int option list \<Rightarrow> VcmQueueItem \<Rightarrow> int" where
  "status_of xs rs x = (case map_of (zip (map q_id xs) rs) (q_id x) of Some (Some status) \<Rightarrow> status | _ \<Rightarrow> 0)"

lemma status_found:
  assumes "distinct (map q_id xs)" and "length rs = length xs" and "x \<in> set xs" and "\<forall>(x, r) \<in> set (zip xs rs). r \<noteq> None \<and> (r = Some 0 \<longrightarrow> P x)"
    and "status_of xs rs x = 0"
  shows "P x"
proof -
  obtain i where i: "i < length xs" "x = xs ! i" using assms(3) by (auto simp: in_set_conv_nth)
  then have z: "(x, rs ! i) \<in> set (zip xs rs)" using assms(2) by (auto simp: in_set_zip)
  then obtain s where s: "rs ! i = Some s" using assms(4) by fastforce
  have "map_of (zip (map q_id xs) rs) (q_id x) = Some (rs ! i)"
    using assms(1,2) i map_of_zip_nth [of "map q_id xs" rs i] by simp
  with assms(5) s have "rs ! i = Some 0" by (simp add: status_of_def)
  with z assms(4) show ?thesis by fastforce
qed


subsection \<open>A reference device for the import\<close>

definition reference_exporter :: "disk_device exporter" where
  "reference_exporter = importer.extend reference_importer
     \<lparr>app_destroy = (\<lambda>a. ret 0), app_pid = (\<lambda>a. ret (- 1, - 1)), sys_delay = (\<lambda>n. ret 0), photo_available = (\<lambda>p. ret (0, True)),
      export_photo = (\<lambda>p. State (\<lambda>w. ((0, p), w))), export_video = (\<lambda>p. ret (0, p)), export_music = (\<lambda>p. ret (0, p)),
      sys_photo_mount = ret 0, sys_mms_mount = (\<lambda>n. ret 0)\<rparr>"

lemma exporter_calls:
  "f_stat reference_exporter = f_stat reference_importer" "f_mkdir reference_exporter = f_mkdir reference_importer"
  "f_open reference_exporter = f_open reference_importer" "f_read reference_exporter = f_read reference_importer"
  "f_write reference_exporter = f_write reference_importer" "f_flush reference_exporter = f_flush reference_importer"
  "f_close reference_exporter = f_close reference_importer" "f_rename reference_exporter = f_rename reference_importer"
  "f_remove reference_exporter = f_remove reference_importer" "f_rmdir reference_exporter = f_rmdir reference_importer"
  "f_sync reference_exporter = f_sync reference_importer" "mem_alloc reference_exporter = mem_alloc reference_importer"
  "mem_base reference_exporter = mem_base reference_importer" "mem_free reference_exporter = mem_free reference_importer"
  "sys_load reference_exporter = sys_load reference_importer" "sys_apputil reference_exporter = sys_apputil reference_importer"
  "sys_apputil_end reference_exporter = sys_apputil_end reference_importer" "sys_music_mount reference_exporter = sys_music_mount reference_importer"
  "sys_music_umount reference_exporter = sys_music_umount reference_importer" "sql_space reference_exporter = sql_space reference_importer"
  "sql_config reference_exporter = sql_config reference_importer" "sql_initialize reference_exporter = sql_initialize reference_importer"
  "sql_set_ready reference_exporter = sql_set_ready reference_importer" "db_vfs reference_exporter = db_vfs reference_importer"
  "db_open reference_exporter = db_open reference_importer" "db_exec reference_exporter = db_exec reference_importer"
  "db_prepare reference_exporter = db_prepare reference_importer" "db_bind reference_exporter = db_bind reference_importer"
  "db_step reference_exporter = db_step reference_importer" "db_finalize reference_exporter = db_finalize reference_importer"
  "db_close reference_exporter = db_close reference_importer"
  by (simp_all add: reference_exporter_def importer.defs)

lemma reference_device: "device_laws reference_exporter (\<lambda>p w. p \<in> dev_files w)"
proof -
  have "file_laws reference_exporter (\<lambda>p w. p \<in> dev_files w)"
    using reference_files unfolding file_laws_def quiet_files_def quiet_system_def quiet_database_def exporter_calls .
  moreover have "quiet_exports (\<lambda>w. x \<in> dev_files w) (\<lambda>p. p = x) reference_exporter" for x
    by (simp add: quiet_exports_def maintains_def triple_def reference_exporter_def importer.defs)
  ultimately show ?thesis by (simp add: device_laws_def)
qed

lemma sample_item_valid: "item_valid sample_item"
  using reachable_inv [OF sample_reachable] by (simp add: system_inv_def sample_published_def sample_live item_ok_def)

definition empty_device :: disk_device where
  "empty_device = \<lparr>dev_files = {}, dev_library = \<lparr>lib_rows = [], lib_draft = None, lib_statement = None, lib_bound = []\<rparr>\<rparr>"

lemma sample_begins: "fst (run_state (import_prepare reference_exporter sample_item) empty_device) = Begun"
proof -
  have c: "f_stat reference_importer p = State (\<lambda>w. ((if p \<in> dev_files w then 0 else - 1, 0), w))"
    "f_open reference_importer p Append_To = State (\<lambda>w. (1, w\<lparr>dev_files := insert p (dev_files w)\<rparr>))"
    "f_open reference_importer p Replace_With = State (\<lambda>w. (1, w\<lparr>dev_files := insert p (dev_files w)\<rparr>))"
    "f_write reference_importer fd data = ret (int (length data))" "f_flush reference_importer fd = ret 0" "f_close reference_importer fd = ret 0"
    "f_sync reference_importer = ret 0" "app_destroy reference_exporter a = ret 0" "app_pid reference_exporter a = ret (- 1, - 1)"
    for p fd data a
    by (simp_all add: reference_importer_def reference_exporter_def importer.defs)
  have d: "destroy_apps reference_exporter 1 apps = ret ()" for apps
    by (induction apps) (simp_all add: c exporter_calls)
  have r: "any_running reference_exporter apps b = ret b" for apps b
    by (induction apps arbitrary: b) (simp_all add: c)
  have w: "wait_closed reference_exporter 50 b = ret False" for b
    by (simp add: numeral_eq_Suc r)
  show ?thesis
    by (simp add: import_prepare_def close_media_apps_def receipt_def c d w exporter_calls empty_device_def del: ascii_simps)
qed

subsection \<open>Properties\<close>

text \<open>
  C5. At most one import of an item. Take any sequence of states in which \<open>vcm_sync_import\<close> is attempted again and again for a valid item, with anything happening between
  the attempts that does not delete both of its receipts. Once an attempt has got past its preparation, that is, before any exporter or the song database is
  touched, it returns a status, and every later attempt stops at once, changes nothing and returns 0 when the final receipt is there and
  -1002 when the earlier import was interrupted.
\<close>

theorem import_begins_once:
  assumes laws: "device_laws h present" and item: "item_valid item"
    and between: "\<And>k. recorded present item (snd (run_state (vcm_sync_import h item) (ws k))) \<Longrightarrow> recorded present item (ws (Suc k))"
    and begun: "fst (run_state (import_prepare h item) (ws i)) = Begun"
  shows "fst (run_state (vcm_sync_import h item) (ws i)) \<noteq> None \<and>
    (\<forall>j > i. run_state (vcm_sync_import h item) (ws j) = (Some (if present (done_path item) (ws j) then 0 else - 1002), ws j))"
proof -
  have settled: "run_state (vcm_sync_import h item) w = (Some (if present (done_path item) w then 0 else - 1002), w)"
    if "recorded present item w" for w
    using prepare_outcome [OF laws, of item w] that by (auto simp: vcm_sync_import_def recorded_def)
  obtain v where v: "run_state (import_prepare h item) (ws i) = (Begun, v)"
    using begun by (cases "run_state (import_prepare h item) (ws i)") auto
  have r: "recorded present item v" using tripleD [OF prepare_begun [OF laws] _ v] by simp
  have "fst (run_state (import_begun h item) v) \<noteq> None \<and> recorded present item (snd (run_state (import_begun h item) v))"
    by (rule triple_run [OF begun_maintains [OF recorded_quiet [OF laws] receipts_untouched [OF item_valid_extension [OF item]] recorded_rename [OF laws]] r])
  then have e: "fst (run_state (vcm_sync_import h item) (ws i)) \<noteq> None" "recorded present item (ws (Suc i))"
    using between [of i] v by (simp_all add: vcm_sync_import_def)
  have "recorded present item (ws (Suc i + k))" for k
    by (induction k) (use e(2) settled between in auto)
  then have "recorded present item (ws j)" if "i < j" for j
    using less_imp_Suc_add [OF that] by auto
  with e(1) settled show ?thesis by blast
qed

theorem import_begins_once_witness:
  "\<exists>r. run_state (vcm_sync_import reference_exporter sample_item) (snd (run_state (vcm_sync_import reference_exporter sample_item) empty_device)) =
     (Some r, snd (run_state (vcm_sync_import reference_exporter sample_item) empty_device)) \<and> r \<in> {0, - 1002}"
proof -
  let ?ws = "\<lambda>k. ((\<lambda>w. snd (run_state (vcm_sync_import reference_exporter sample_item) w)) ^^ k) empty_device"
  have begun: "fst (run_state (import_prepare reference_exporter sample_item) (?ws 0)) = Begun" using sample_begins by simp
  have "\<forall>j > 0. run_state (vcm_sync_import reference_exporter sample_item) (?ws j) =
      (Some (if done_path sample_item \<in> dev_files (?ws j) then 0 else - 1002), ?ws j)"
    by (rule import_begins_once [where ws = ?ws and i = 0, OF reference_device sample_item_valid _ begun, THEN conjunct2]) simp
  from this [rule_format, of 1] show ?thesis by simp
qed

text \<open>
  C14. Imported means a durable receipt. Let the received items of a reachable queue be imported one after the other by \<open>vcm_sync_import\<close> and let the queue's import
  loop record the statuses. Every attempt returns a status, the loop ends, and afterwards every item that is marked imported, now or earlier, has
  its final receipt on the disk: 0 is returned only with that receipt, and an attempt never removes the receipt of another item.
\<close>

theorem imported_have_receipts:
  assumes "reachable s" and "\<not> i_cancelled (queue (shared s))" and laws: "device_laws h present"
    and before: "\<forall>x \<in> set (live (shared s)). q_state x = VCM_IMPORTED \<longrightarrow> present (done_path x) w"
    and run: "run_state (import_items h (received (shared s))) w = (rs, w')"
  shows "None \<notin> set rs \<and>
    (\<exists>q. vcm_queue_run_imports (status_of (received (shared s)) rs) (shared s) = Some (0, q) \<and>
       (\<forall>x \<in> set (live q). q_state x = VCM_IMPORTED \<longrightarrow> present (done_path x) w'))"
proof -
  let ?live = "live (shared s)" and ?xs = "received (shared s)"
  let ?old = "filter (\<lambda>x. q_state x = VCM_IMPORTED) ?live"
  let ?imp = "status_of ?xs rs"
  have inv: "system_inv s" using reachable_inv [OF assms(1)] .
  then have sh: "shape_ok (shared s)" and d: "distinct (map q_id ?live)" and v: "list_all item_valid ?live"
    by (auto simp: system_inv_def item_ok_def list_all_iff)
  have ids: "map q_id ?xs = map q_id (filter (\<lambda>x. q_state x = VCM_RECEIVED) ?live)" by (simp add: received_def comp_def)
  have dx: "distinct (map q_id ?xs)" unfolding ids using d by (simp add: distinct_map_filter)
  have "q_id a \<noteq> q_id y" if "a \<in> set ?old" "y \<in> set ?live" "q_state y = VCM_RECEIVED" for a y
  proof
    assume "q_id a = q_id y"
    with d that have "a = y" by (auto simp: distinct_map dest: inj_onD)
    with that show False by simp
  qed
  then have "q_id ` set ?old \<inter> q_id ` set ?xs = {}" by (fastforce simp: received_def)
  then have dd: "distinct (map q_id (?old @ ?xs))" using dx d by (simp add: distinct_map_filter)
  have vv: "list_all item_valid (?old @ ?xs)" using v by (auto simp: received_def list_all_iff)
  have len: "length rs = length ?xs" and old: "\<forall>y \<in> set ?old. present (done_path y) w'"
    and new: "\<forall>(x, r) \<in> set (zip ?xs rs). r \<noteq> None \<and> (r = Some 0 \<longrightarrow> present (done_path x) w')"
    using tripleD [OF import_items_receipts [OF laws dd vv] _ run] before by auto
  obtain q where q: "vcm_queue_run_imports ?imp (shared s) = Some (0, q)" "live q = map (imported_item ?imp) ?live"
    using run_imports_spec [OF sh assms(2)] by blast
  have "present (done_path (imported_item ?imp x)) w'" if x: "x \<in> set ?live" and i: "q_state (imported_item ?imp x) = VCM_IMPORTED" for x
  proof (cases "q_state x = VCM_RECEIVED")
    case True
    let ?y = "x\<lparr>q_state := VCM_IMPORTING\<rparr>"
    have "?y \<in> set ?xs" using True x by (simp add: received_def)
    moreover have "?imp ?y = 0" using i True by (simp add: imported_item_def Let_def split: if_splits)
    ultimately have "present (done_path ?y) w'" by (intro status_found [OF dx len _ new])
    moreover have "done_path (imported_item ?imp x) = done_path ?y" using True by (simp add: imported_item_def Let_def done_path_def inbox_file_def)
    ultimately show ?thesis by simp
  next
    case False
    with i have "imported_item ?imp x = x" "q_state x = VCM_IMPORTED" by (simp_all add: imported_item_def)
    with old x show ?thesis by auto
  qed
  moreover have "None \<notin> set rs"
  proof
    assume "None \<in> set rs"
    then obtain i where "i < length rs" "rs ! i = None" by (auto simp: in_set_conv_nth)
    then have "(?xs ! i, None) \<in> set (zip ?xs rs)" using len by (auto simp: in_set_zip)
    with new show False by fastforce
  qed
  ultimately show ?thesis using q by auto
qed

theorem imported_have_receipts_witness:
  "\<exists>rs w' q. run_state (import_items reference_exporter (received (shared sample_importing))) empty_device = (rs, w') \<and> None \<notin> set rs \<and>
     vcm_queue_run_imports (status_of (received (shared sample_importing)) rs) (shared sample_importing) = Some (0, q) \<and>
     (\<forall>x \<in> set (live q). q_state x = VCM_IMPORTED \<longrightarrow> done_path x \<in> dev_files w')"
proof -
  have l: "live (shared sample_importing) = [sample_received_item]"
    by (simp add: live_def sample_importing_def sample_queue_def)
  obtain rs w' where run: "run_state (import_items reference_exporter (received (shared sample_importing))) empty_device = (rs, w')" by (metis surj_pair)
  have "\<forall>x \<in> set (live (shared sample_importing)). q_state x = VCM_IMPORTED \<longrightarrow> done_path x \<in> dev_files empty_device"
    unfolding l by (simp add: sample_received_item_def)
  from imported_have_receipts [OF sample_importing_reachable _ reference_device this run] run show ?thesis
    by (auto simp: sample_importing_def sample_queue_def)
qed

end
