(* ===== verification/Music_Vfs.thy ===== *)
theory Music_Vfs
  imports State_Triples
begin

text \<open>
  The file methods that \<^verbatim>\<open>src/vita/music_rw_vfs.c\<close> gives to SQLite, over parameters for the system's file calls. SQLite relies on reads and writes
  at a position: a read fills its whole buffer, with zeros behind the end of the file and a status of its own, and a write that succeeds has
  written everything. The lemmas show this for a file that is a list of bytes.
\<close>

subsection \<open>The calls of the system\<close>

text \<open>A read gives an error code or the bytes that were read; the flags of an open are: writable, created when missing, and refused when present.\<close>

record 'w filing =
  v_seek :: "int \<Rightarrow> int \<Rightarrow> ('w, int) state"
  v_read :: "int \<Rightarrow> nat \<Rightarrow> ('w, int + u8 list) state"
  v_write :: "int \<Rightarrow> u8 list \<Rightarrow> ('w, int) state"
  v_resize :: "int \<Rightarrow> int \<Rightarrow> ('w, int) state"
  v_flush :: "int \<Rightarrow> ('w, int) state"
  v_size :: "int \<Rightarrow> ('w, int \<times> int) state"
  v_close :: "int \<Rightarrow> ('w, int) state"
  v_open :: "u8 list \<Rightarrow> bool \<Rightarrow> bool \<Rightarrow> bool \<Rightarrow> ('w, int) state"
  v_remove :: "u8 list \<Rightarrow> ('w, int) state"
  v_stat :: "u8 list \<Rightarrow> ('w, int) state"
  v_native :: "('w, bool) state"
  v_register :: "('w, int) state"

definition SQLITE_OK :: int where "SQLITE_OK = 0"

definition SQLITE_CANTOPEN :: int where "SQLITE_CANTOPEN = 14"

definition SQLITE_IOERR_READ :: int where "SQLITE_IOERR_READ = 266"

definition SQLITE_IOERR_SHORT_READ :: int where "SQLITE_IOERR_SHORT_READ = 522"

definition SQLITE_IOERR_WRITE :: int where "SQLITE_IOERR_WRITE = 778"

definition SQLITE_IOERR_FSYNC :: int where "SQLITE_IOERR_FSYNC = 1034"

definition SQLITE_IOERR_TRUNCATE :: int where "SQLITE_IOERR_TRUNCATE = 1546"

definition SQLITE_IOERR_FSTAT :: int where "SQLITE_IOERR_FSTAT = 1802"

definition SQLITE_IOERR_DELETE :: int where "SQLITE_IOERR_DELETE = 2570"

lemmas sqlite_codes = SQLITE_OK_def SQLITE_CANTOPEN_def SQLITE_IOERR_READ_def SQLITE_IOERR_SHORT_READ_def SQLITE_IOERR_WRITE_def SQLITE_IOERR_FSYNC_def
  SQLITE_IOERR_TRUNCATE_def SQLITE_IOERR_FSTAT_def SQLITE_IOERR_DELETE_def

subsection \<open>The methods of a file\<close>

definition vcm_close :: "('w, 'a) filing_scheme \<Rightarrow> int \<Rightarrow> ('w, int) state" where
  "vcm_close h fd = do { rc \<leftarrow> v_close h fd; ret (if rc < 0 then SQLITE_IOERR_FSYNC else SQLITE_OK) }"

text \<open>The status and the buffer, which is left as it was by an error.\<close>

definition vcm_read :: "('w, 'a) filing_scheme \<Rightarrow> int \<Rightarrow> u8 list \<Rightarrow> int \<Rightarrow> ('w, int \<times> u8 list) state" where
  "vcm_read h fd buffer position = do {
     at \<leftarrow> v_seek h fd position;
     if at \<noteq> position then ret (SQLITE_IOERR_READ, buffer) else do {
     got \<leftarrow> v_read h fd (length buffer);
     ret (case got of
            Inl _ \<Rightarrow> (SQLITE_IOERR_READ, buffer)
          | Inr block \<Rightarrow>
              if length block = length buffer then (SQLITE_OK, block)
              else (SQLITE_IOERR_SHORT_READ, block @ replicate (length buffer - length block) 0))
     }}"

function write_rest :: "('w, 'a) filing_scheme \<Rightarrow> int \<Rightarrow> u8 list \<Rightarrow> 'w \<Rightarrow> int \<times> 'w" where
  "write_rest h fd data w =
     (if data = [] then (SQLITE_OK, w)
      else case run_state (v_write h fd data) w of (rc, w) \<Rightarrow>
        if rc \<le> 0 then (SQLITE_IOERR_WRITE, w) else write_rest h fd (drop (nat rc) data) w)"
  by pat_completeness auto
termination by (relation "measure (\<lambda>(h, fd, data, w). length data)") auto

declare write_rest.simps [simp del]

definition vcm_write :: "('w, 'a) filing_scheme \<Rightarrow> int \<Rightarrow> u8 list \<Rightarrow> int \<Rightarrow> ('w, int) state" where
  "vcm_write h fd data position = do {
     at \<leftarrow> v_seek h fd position;
     if at \<noteq> position then ret SQLITE_IOERR_WRITE else State (write_rest h fd data)
   }"

definition vcm_truncate :: "('w, 'a) filing_scheme \<Rightarrow> int \<Rightarrow> int \<Rightarrow> ('w, int) state" where
  "vcm_truncate h fd extent = do { rc \<leftarrow> v_resize h fd extent; ret (if rc < 0 then SQLITE_IOERR_TRUNCATE else SQLITE_OK) }"

definition vcm_sync :: "('w, 'a) filing_scheme \<Rightarrow> int \<Rightarrow> ('w, int) state" where
  "vcm_sync h fd = do { rc \<leftarrow> v_flush h fd; ret (if rc < 0 then SQLITE_IOERR_FSYNC else SQLITE_OK) }"

text \<open>The status, and the size when it is \<open>SQLITE_OK\<close>.\<close>

definition vcm_size :: "('w, 'a) filing_scheme \<Rightarrow> int \<Rightarrow> ('w, int \<times> int option) state" where
  "vcm_size h fd = do {
     (rc, extent) \<leftarrow> v_size h fd;
     ret (if rc < 0 then (SQLITE_IOERR_FSTAT, None) else (SQLITE_OK, Some extent))
   }"

text \<open>There are no locks: the import worker runs while no media application does.\<close>

definition vcm_lock :: "int \<Rightarrow> int \<Rightarrow> int" where "vcm_lock fd level = SQLITE_OK"

definition vcm_unlock :: "int \<Rightarrow> int \<Rightarrow> int" where "vcm_unlock fd level = SQLITE_OK"

definition vcm_reserved :: "int \<Rightarrow> int \<times> int" where "vcm_reserved fd = (SQLITE_OK, 0)"

definition vcm_control :: "int \<Rightarrow> int \<Rightarrow> int" where "vcm_control fd op = SQLITE_OK"

definition vcm_sector :: "int \<Rightarrow> int" where "vcm_sector fd = 512"

definition vcm_device :: "int \<Rightarrow> int" where "vcm_device fd = 0"

subsection \<open>The methods of the file system\<close>

text \<open>The status and the descriptor. SQLite passes no name for a temporary file, which this file system refuses.\<close>

definition vcm_open :: "('w, 'a) filing_scheme \<Rightarrow> u8 list option \<Rightarrow> u32 \<Rightarrow> ('w, int \<times> int option) state" where
  "vcm_open h name flags =
     (case name of
        None \<Rightarrow> ret (SQLITE_CANTOPEN, None)
      | Some name \<Rightarrow> do {
          fd \<leftarrow> v_open h name (flags AND 0x02 \<noteq> 0) (flags AND 0x04 \<noteq> 0) (flags AND 0x10 \<noteq> 0);
          ret (if fd < 0 then (SQLITE_CANTOPEN, None) else (SQLITE_OK, Some fd))
        })"

definition vcm_delete :: "('w, 'a) filing_scheme \<Rightarrow> u8 list \<Rightarrow> ('w, int) state" where
  "vcm_delete h name = do { rc \<leftarrow> v_remove h name; ret (if rc < 0 then SQLITE_IOERR_DELETE else SQLITE_OK) }"

definition vcm_access :: "('w, 'a) filing_scheme \<Rightarrow> u8 list \<Rightarrow> ('w, int \<times> bool) state" where
  "vcm_access h name = do { rc \<leftarrow> v_stat h name; ret (SQLITE_OK, rc = 0) }"

text \<open>The status and the bytes at the start of the output array; only \<open>capacity\<close> bytes of the name are looked at.\<close>

definition vcm_fullpath :: "u8 list \<Rightarrow> nat \<Rightarrow> int \<times> u8 list" where
  "vcm_fullpath name capacity =
     (let len = min (length name) capacity
      in if len \<ge> capacity then (SQLITE_CANTOPEN, []) else (SQLITE_OK, take len name @ [0]))"

definition vcm_register_music_rw_vfs :: "('w, 'a) filing_scheme \<Rightarrow> ('w, int) state" where
  "vcm_register_music_rw_vfs h = do {
     native \<leftarrow> v_native h;
     if \<not> native then ret SQLITE_CANTOPEN else v_register h
   }"

subsection \<open>A file of bytes\<close>

text \<open>Writing bytes at a position, with zeros in a gap behind the old end.\<close>

definition put_at :: "u8 list \<Rightarrow> nat \<Rightarrow> u8 list \<Rightarrow> u8 list" where
  "put_at content p block = take p content @ replicate (p - length content) 0 @ block @ drop (p + length block) content"

lemma put_at_Nil: "p \<le> length content \<Longrightarrow> put_at content p [] = content"
  by (simp add: put_at_def)

lemma put_at_append:
  "put_at (put_at content p a) (p + length a) b = put_at content p (a @ b)"
  by (auto simp: put_at_def min_def ac_simps)

lemma length_put_at: "length (put_at content p block) = max (length content) (p + length block)"
  by (auto simp: put_at_def)

lemma read_put_at: "take (length block) (drop p (put_at content p block)) = block"
  by (auto simp: put_at_def min_def)

text \<open>
  What the file calls do with an open file: seeking and reading keep the content, a read stops early only at the end of the file, and a write that
  returns a positive number has written so many of the bytes at the position.
\<close>

definition file_of_bytes :: "('w, 'a) filing_scheme \<Rightarrow> int \<Rightarrow> ('w \<Rightarrow> u8 list) \<Rightarrow> ('w \<Rightarrow> nat) \<Rightarrow> bool" where
  "file_of_bytes h fd content pos \<longleftrightarrow>
     (\<forall>d p. triple (\<lambda>w. content w = d) (v_seek h fd p) (\<lambda>r w. content w = d \<and> (r = p \<and> 0 \<le> p \<longrightarrow> pos w = nat p))) \<and>
     (\<forall>d p n. triple (\<lambda>w. content w = d \<and> pos w = p) (v_read h fd n)
        (\<lambda>r w. content w = d \<and> (\<forall>block. r = Inr block \<longrightarrow> block = take n (drop p d)))) \<and>
     (\<forall>d p data. triple (\<lambda>w. content w = d \<and> pos w = p) (v_write h fd data)
        (\<lambda>r w. r \<le> int (length data) \<and> (0 < r \<longrightarrow> content w = put_at d p (take (nat r) data) \<and> pos w = p + nat r)))"

lemma file_of_bytesD:
  assumes "file_of_bytes h fd content pos"
  shows "triple (\<lambda>w. content w = d) (v_seek h fd p) (\<lambda>r w. content w = d \<and> (r = p \<and> 0 \<le> p \<longrightarrow> pos w = nat p))"
    and "triple (\<lambda>w. content w = d \<and> pos w = q) (v_read h fd n)
        (\<lambda>r w. content w = d \<and> (\<forall>block. r = Inr block \<longrightarrow> block = take n (drop q d)))"
    and "triple (\<lambda>w. content w = d \<and> pos w = q) (v_write h fd data)
        (\<lambda>r w. r \<le> int (length data) \<and> (0 < r \<longrightarrow> content w = put_at d q (take (nat r) data) \<and> pos w = q + nat r))"
  using assms by (simp_all add: file_of_bytes_def)

lemma write_rest_content:
  assumes "file_of_bytes h fd content pos" and "write_rest h fd data w = (SQLITE_OK, w')" and "data \<noteq> []"
  shows "content w' = put_at (content w) (pos w) data"
  using assms
proof (induction h fd data w rule: write_rest.induct)
  case (1 h fd data w)
  obtain rc v where wr: "run_state (v_write h fd data) w = (rc, v)" by (cases "run_state (v_write h fd data) w")
  have v: "rc \<le> int (length data)" "0 < rc \<longrightarrow> content v = put_at (content w) (pos w) (take (nat rc) data) \<and> pos v = pos w + nat rc"
    using tripleD [OF file_of_bytesD(3) [OF "1.prems"(1)] _ wr] by simp_all
  have pos: "0 < rc" and rest: "write_rest h fd (drop (nat rc) data) v = (SQLITE_OK, w')"
    using "1.prems"(2,3) wr by (subst (asm) write_rest.simps, auto simp: sqlite_codes split: if_splits)+
  show ?case
  proof (cases "drop (nat rc) data = []")
    case True
    with rest have "w' = v" by (subst (asm) write_rest.simps) simp
    with v pos True show ?thesis by simp
  next
    case False
    have "content w' = put_at (content v) (pos v) (drop (nat rc) data)"
      by (rule "1.IH" [OF "1.prems"(3) wr [symmetric] _ "1.prems"(1) rest False]) (use pos in simp)
    moreover have "length (take (nat rc) data) = nat rc" using v(1) pos by simp
    ultimately show ?thesis using v(2) pos put_at_append [of "content w" "pos w" "take (nat rc) data" "drop (nat rc) data"] by simp
  qed
qed

lemma vcm_write_content:
  assumes "file_of_bytes h fd content pos" and "run_state (vcm_write h fd data position) w = (SQLITE_OK, w')" and "data \<noteq> []" and "0 \<le> position"
  shows "content w' = put_at (content w) (nat position) data"
proof -
  obtain at v where sk: "run_state (v_seek h fd position) w = (at, v)" by (cases "run_state (v_seek h fd position) w")
  have eq: "at = position" and rest: "write_rest h fd data v = (SQLITE_OK, w')"
    using assms(2) sk by (auto simp: vcm_write_def sqlite_codes split: if_splits)
  have "content v = content w" "pos v = nat position"
    using tripleD [OF file_of_bytesD(1) [OF assms(1)] refl sk] eq assms(4) by simp_all
  with write_rest_content [OF assms(1) rest assms(3)] show ?thesis by simp
qed

text \<open>What a read leaves in the buffer.\<close>

definition read_outcome :: "u8 list \<Rightarrow> u8 list \<Rightarrow> int \<Rightarrow> int \<Rightarrow> u8 list \<Rightarrow> bool" where
  "read_outcome d buffer position s out \<longleftrightarrow>
     length out = length buffer \<and>
     (s = SQLITE_OK \<longrightarrow> out = take (length buffer) (drop (nat position) d)) \<and>
     (s = SQLITE_IOERR_SHORT_READ \<longrightarrow> length d < nat position + length buffer \<and>
        out = drop (nat position) d @ replicate (length buffer - length (drop (nat position) d)) 0) \<and>
     s \<in> {SQLITE_OK, SQLITE_IOERR_SHORT_READ, SQLITE_IOERR_READ}"

lemma vcm_read_outcome:
  assumes "file_of_bytes h fd content pos" and "run_state (vcm_read h fd buffer position) w = ((s, out), w')" and "0 \<le> position"
  shows "content w' = content w \<and> read_outcome (content w) buffer position s out"
proof -
  obtain at v where sk: "run_state (v_seek h fd position) w = (at, v)" by (cases "run_state (v_seek h fd position) w")
  have v: "content v = content w" "at = position \<longrightarrow> pos v = nat position"
    using tripleD [OF file_of_bytesD(1) [OF assms(1)] refl sk] assms(3) by simp_all
  show ?thesis
  proof (cases "at = position")
    case False
    with assms(2) sk v show ?thesis by (auto simp: vcm_read_def read_outcome_def sqlite_codes)
  next
    case True
    obtain got u where rd: "run_state (v_read h fd (length buffer)) v = (got, u)" by (cases "run_state (v_read h fd (length buffer)) v")
    have u: "content u = content w" "\<And>block. got = Inr block \<Longrightarrow> block = take (length buffer) (drop (nat position) (content w))"
      using tripleD [OF file_of_bytesD(2) [OF assms(1)] _ rd] v True by auto
    show ?thesis
    proof (cases got)
      case (Inl e)
      with assms(2) sk rd u True show ?thesis by (auto simp: vcm_read_def read_outcome_def sqlite_codes)
    next
      case (Inr block)
      then have b: "block = take (length buffer) (drop (nat position) (content w))" by (rule u(2))
      have out: "w' = u" "(s, out) = (if length block = length buffer then (SQLITE_OK, block)
          else (SQLITE_IOERR_SHORT_READ, block @ replicate (length buffer - length block) 0))"
        using assms(2) sk rd True Inr by (auto simp: vcm_read_def)
      show ?thesis
      proof (cases "length block = length buffer")
        case True
        with out b u(1) show ?thesis by (simp add: read_outcome_def sqlite_codes)
      next
        case False
        then have "length (drop (nat position) (content w)) < length buffer" unfolding b by simp
        moreover from this b have "block = drop (nat position) (content w)" by simp
        ultimately show ?thesis using False out u(1) by (auto simp: read_outcome_def sqlite_codes)
      qed
    qed
  qed
qed

subsection \<open>Property\<close>

text \<open>
  C40. The pager's contract. On a file of bytes, a write that reports success has put all its bytes at its position, over the old bytes and behind a gap of
  zeros if need be, however many partial writes it took. A read changes nothing, fills its whole buffer and reports success exactly with the
  bytes at its position, or a short read with the bytes up to the end of the file followed by zeros. What was written is read back at the same position.
\<close>

theorem pager_contract:
  assumes "file_of_bytes h fd content pos" and "data \<noteq> []" and "0 \<le> p" and "0 \<le> q"
    and "run_state (vcm_write h fd data p) w = (SQLITE_OK, w1)" and "run_state (vcm_read h fd buffer q) w1 = ((s, out), w2)"
  shows "content w1 = put_at (content w) (nat p) data \<and> content w2 = content w1 \<and> read_outcome (content w1) buffer q s out \<and>
    (p = q \<and> length buffer = length data \<longrightarrow> s \<noteq> SQLITE_IOERR_SHORT_READ \<and> (s = SQLITE_OK \<longrightarrow> out = data))"
proof -
  have w: "content w1 = put_at (content w) (nat p) data" by (rule vcm_write_content [OF assms(1,5,2,3)])
  have r: "content w2 = content w1" "read_outcome (content w1) buffer q s out" using vcm_read_outcome [OF assms(1,6,4)] by simp_all
  have "s \<noteq> SQLITE_IOERR_SHORT_READ \<and> (s = SQLITE_OK \<longrightarrow> out = data)" if "p = q" "length buffer = length data"
    using r(2) that read_put_at [of data "nat p" "content w"] unfolding read_outcome_def w by (auto simp: length_put_at)
  with w r show ?thesis by blast
qed

text \<open>A file in memory that takes at most two bytes at a time.\<close>

definition byte_file :: "(u8 list \<times> nat) filing" where
  "byte_file =
     \<lparr>v_seek = (\<lambda>fd p. State (\<lambda>(d, q). if 0 \<le> p then (p, d, nat p) else (- 1, d, q))),
      v_read = (\<lambda>fd n. State (\<lambda>(d, q). (Inr (take n (drop q d)), d, q + min n (length d - q)))),
      v_write = (\<lambda>fd data. State (\<lambda>(d, q). (int (min 2 (length data)), put_at d q (take 2 data), q + min 2 (length data)))),
      v_resize = (\<lambda>fd n. ret 0), v_flush = (\<lambda>fd. ret 0), v_size = (\<lambda>fd. State (\<lambda>(d, q). ((0, int (length d)), d, q))), v_close = (\<lambda>fd. ret 0),
      v_open = (\<lambda>p a b c. ret 1), v_remove = (\<lambda>p. ret 0), v_stat = (\<lambda>p. ret 0), v_native = ret True, v_register = ret 0\<rparr>"

lemma byte_file_laws: "file_of_bytes byte_file fd fst snd"
  by (auto simp: file_of_bytes_def triple_def byte_file_def min_def put_at_def)

theorem pager_contract_witness:
  "run_state (vcm_write byte_file 1 [1, 2, 3] 2) ([9], 0) = (SQLITE_OK, [9, 0, 1, 2, 3], 5) \<and>
   fst (run_state (vcm_read byte_file 1 [0, 0, 0] 2) ([9, 0, 1, 2, 3], 5)) = (SQLITE_OK, [1, 2, 3]) \<and>
   fst (run_state (vcm_read byte_file 1 [7, 7, 7] 4) ([9, 0, 1, 2, 3], 5)) = (SQLITE_IOERR_SHORT_READ, [3, 0, 0]) \<and>
   put_at [9] 2 [1, 2, 3] = [9, 0, 1, 2, 3 :: u8]"
proof -
  have w: "run_state (vcm_write byte_file 1 [1, 2, 3] 2) ([9], 0) = (SQLITE_OK, [9, 0, 1, 2, 3], 5)"
    by (simp add: vcm_write_def byte_file_def write_rest.simps put_at_def)
  have r: "run_state (vcm_read byte_file 1 [0, 0, 0] 2) ([9, 0, 1, 2, 3], 5) = ((SQLITE_OK, [1, 2, 3]), [9, 0, 1, 2, 3], 5)"
    by (simp add: vcm_read_def byte_file_def)
  have "put_at [9] 2 [1, 2, 3] = [9, 0, 1, 2, 3 :: u8]"
    using pager_contract [OF byte_file_laws _ _ _ w r] by simp
  moreover have "fst (run_state (vcm_read byte_file 1 [7, 7, 7] 4) ([9, 0, 1, 2, 3], 5)) = (SQLITE_IOERR_SHORT_READ, [3, 0, 0])"
    by (simp add: vcm_read_def byte_file_def)
  ultimately show ?thesis using w r by simp
qed

end
