(* ===== verification/Spec2Isabelle.thy ===== *)
theory Spec2Isabelle
  imports Mtp_Engine Text_Path Queue_System Mtp_Thumb Library_Listing Mtp_Snapshot Usb_Probe Wifi_Uploads Wifi_Serve Catalog_Bridge Import_Session Music_Vfs
begin

text \<open>
  A verification development of the PS Vita content manager (\<^verbatim>\<open>src/vita\<close>, \<^verbatim>\<open>src/usb\<close>).

  \<^bold>\<open>The program.\<close> The application on the console keeps an HTTP service, over which a desktop program reads the media libraries and
  publishes a queue of files to be transferred; the received files are imported into the libraries by a worker. For transfers over USB the
  service listens on the loopback interface only, and a plug-in in the firmware's MTP process fetches a catalogue of the media from it
  and answers the MTP commands of the host in the firmware's place. The development models the C code of both sides, from the texts and
  integers of the data formats to the threads that share the queue.

  \<^bold>\<open>Theories and sources.\<close> Definitions keep the names of the C functions; an operation without a function of its own is a named part of
  the function it is taken from. All paths are below \<^verbatim>\<open>src\<close>.
  \<^item> \<open>Vcm_Prelude\<close>, \<open>C_Strings\<close>: machine integers, arrays with faults, C strings, byte layouts, the interface \<open>bounded_sink\<close> of an
    append-only buffer, and the string functions of the C library that the sources call.
  \<^item> \<open>Mtp_Catalog\<close> (\<^verbatim>\<open>vita/mtp_catalog.c\<close>): the array of entries and its operations; \<open>catalog_wf\<close> is what its users rely on, \<open>catalog_inv\<close>
    what additions keep. Interface \<open>handle_catalog\<close>.
  \<^item> \<open>Mtp_Wire\<close> (\<^verbatim>\<open>vita/mtp_wire.c\<close>): the writer of MTP data sets, with UTF-8 to UTF-16 conversion. What the bytes of a
    text stand for is \<open>read_point\<close>, in numbers, against the bit operations of the code's decoder.
  \<^item> \<open>Mtp_Server\<close> (\<^verbatim>\<open>vita/mtp_server.c\<close>): the interpreter of MTP commands, refining an abstract responder without buffers.
  \<^item> \<open>Mtp_Engine\<close>, \<open>Engine_Invariant\<close> (\<^verbatim>\<open>vita/mtp_engine.c\<close>): the data phases over an arbitrary transport. What it may report is
    relative to a \<open>service\<close>, the callbacks and buffers that its caller offers. Interfaces \<open>observed_transport\<close> and \<open>callback_invariant\<close>.
  \<^item> \<open>Id3_Tags\<close>, \<open>Text_Path\<close> (\<^verbatim>\<open>vita/id3_tags.c\<close>): the tag parser, and the path of a text from a tag to an MTP string.
  \<^item> \<open>Sync_Queue\<close> (\<^verbatim>\<open>vita/sync_queue.c\<close>): the transfer queue and the parser of its description, against the quoting of
    \<^verbatim>\<open>desktop/wifi.py\<close>. \<open>Queue_System\<close>: service, user interface and import worker as interleaved steps on the queue.
  \<^item> \<open>Media_Library\<close>, \<open>Library_Listing\<close>, \<open>Library_Audit\<close> (\<^verbatim>\<open>vita/library.c\<close>): paths, dates and formats of registered media,
    the enumeration, pages of JSON text, icons, and the audit of the music database. Interface \<open>media_visitor\<close>.
  \<^item> \<open>Mtp_Snapshot\<close> (\<^verbatim>\<open>vita/mtp_snapshot.c\<close>): the catalogue built from the libraries, its texts and shown names.
  \<^item> \<open>Mtp_Thumb\<close> (\<^verbatim>\<open>vita/mtp_thumb.c\<close>): DXT1 icons to bitmaps, against the arithmetic of the format.
  \<^item> \<open>Wifi_Replies\<close>, \<open>Wifi_Service\<close>, \<open>Wifi_Safety\<close>, \<open>Wifi_Uploads\<close>, \<open>Wifi_Serve\<close> (\<^verbatim>\<open>vita/wifi_service.c\<close>): replies, requests, their
    effect on the queue, what uploads leave on the memory card, and the loop that accepts clients.
  \<^item> \<open>Catalog_Layout\<close>, \<open>Catalog_Client\<close> (\<^verbatim>\<open>usb/catalog_client.c\<close>): the catalogue in memory and the client of the service.
    \<open>Catalog_Bridge\<close>: both ends of the bridge together.
  \<^item> \<open>Mtpif_Adapter\<close>, \<open>World_Invariant\<close> (\<^verbatim>\<open>usb/mtpif_adapter.c\<close>): commands at the console's MTP port. Interfaces
    \<open>system_invariant\<close>, for what all calls but those for memory keep, \<open>world_invariant\<close>, for what every call keeps, and \<open>block_ledger\<close>, for a record
    of the memory blocks that were allocated and not freed.
  \<^item> \<open>Media_Database\<close>, \<open>Song_Library\<close> (\<^verbatim>\<open>vita/media_database.c\<close>): the transactions on the media databases, folders of videos, and the registration of a song
    together with its file, against an abstract library of rows.
  \<^item> \<open>Sync_Import\<close>, \<open>Import_Session\<close> (\<^verbatim>\<open>vita/sync_import.c\<close>): the import of one received file in its stages, repeated attempts, and the imports of a whole queue.
    These theories write the C functions as \<open>do\<close> blocks of the library's state monad; \<open>State_Triples\<close> has the rules for triples and invariants.
  \<^item> \<open>Music_Vfs\<close> (\<^verbatim>\<open>vita/music_rw_vfs.c\<close>): the file methods under SQLite, against a file that is a list of bytes; \<open>db_vfs\<close> of \<open>importer\<close> registers them.
  \<^item> \<open>Usb_Probe\<close> (\<^verbatim>\<open>usb/probe.c\<close>): the hook in the firmware and its takeover. \<open>ledgered port\<close> is a port whose state is
    accompanied by the record of its memory blocks, which nothing the program computes depends on.

  \<^bold>\<open>State and faults.\<close> Structures are records with the fields of the source, static variables are records of their own, and integers have
  their width; counters that the code bounds by an array are natural numbers. An access outside an array, a missing string terminator or a
  call through a null pointer is the value \<^term>\<open>None\<close>, so that \<open>\<exists>r. f x = Some r\<close> says that \<open>f\<close> runs without a fault and returns; error
  codes are ordinary values. Uninitialised memory and structure padding are arguments (\<open>junk\<close>, \<open>slack\<close>, \<open>pad\<close>, \<open>uninit\<close>), and theorems hold
  for all of them.

  \<^bold>\<open>Parameters.\<close> The calls of the system are fields of records of functions over an arbitrary state \<open>'w\<close>: \<open>net\<close> (sockets and
  kernel memory), \<open>service\<close> (files, databases and flags of the application), \<open>mtpif\<close> and \<open>probe\<close> (the MTP port and the hooked call),
  \<open>device\<close> and \<open>query\<close> (SQLite results row by row with the status of every call), \<open>VcmMtpTransport\<close> (callbacks),
  \<open>importer\<close>, \<open>exporter\<close> and \<open>filing\<close> (files, SQLite calls and the vendor's exporters). Their documented
  behaviour is a named hypothesis: \<open>net_ok\<close>, \<open>device_ok\<close>, \<open>service_host\<close>, \<open>listen_host\<close>, \<open>upload_host\<close>, \<open>delivers\<close>, \<open>emits\<close>, \<open>library_laws\<close>, \<open>file_laws\<close>, \<open>device_laws\<close>, \<open>file_of_bytes\<close>. Each is shown satisfiable by the
  concrete instance of a witness. In \<open>service_host\<close> the other threads may change the queue during every call, by the steps of
  \<open>Queue_System\<close>.

  \<^bold>\<open>Loops.\<close> Every loop is a function with a termination proof; loops over callbacks end because each round moves a counter whose bound the code
  checks. The engine's loops, whose offsets are 32-bit words, terminate because an accepted chunk never passes the end. Only two loops have
  fuel, since they wait for ever: the hook, where \<open>hook_returns\<close> gives an amount that is enough once the host stops sending, and the service, which
  is shown correct for every number of turns.

  \<^bold>\<open>What is shown.\<close>
  \<^item> Composition. The engine over any transport delivers what the abstract responder answers, unless the events show why it could not
    (\<open>engine_outcome\<close>), also at the console's port (\<open>command_served\<close>); the plug-in and the firmware never answer the same session, and the
    plug-in never loses a memory block (\<open>responders_exclusive\<close>). The service
    runs without a fault and acts on the queue by its steps only (\<open>serving_refines_queue\<close>), so the invariant of the queue
    (\<open>queue_invariant\<close>, \<open>import_exclusive\<close>) covers the service. What the service sends as a catalogue is what the plug-in serves
    (\<open>catalogue_crosses_bridge\<close>). After a run of the import loop every item marked imported has its final receipt (\<open>imported_have_receipts\<close>).
  \<^item> Safety. Parsers stay in their arrays (\<open>id3_safe\<close>, \<open>fetched_catalog_wf\<close>, \<open>response_length_exact\<close>); paths cannot leave their folders
    (\<open>physical_path_confined\<close>, \<open>uploads_exact\<close>); uploads appear whole or not at all (\<open>uploads_exact\<close>); an item is imported
    at most once (\<open>import_begins_once\<close>), and a song only together with its row (\<open>song_published\<close>); only authorised requests change the
    queue (\<open>requests_authorised\<close>).
  \<^item> Exactness. Codecs and texts have round trips (\<open>string_roundtrip\<close>, \<open>text_field_roundtrip\<close>, \<open>id3_text_over_mtp\<close>, \<open>append_quoted_json\<close>), and
    optimised code equals reference definitions (\<open>string_written\<close>, \<open>thumbnail_decoded\<close>, \<open>audit_predicts_catalogue\<close>).

  \<^bold>\<open>Defects found.\<close> Uploads over USB that fail in their data phase are answered with success (\<open>failed_upload_answered_ok\<close>); thumbnails above 65536 bytes
  are never delivered (\<open>command_served\<close>); retried uploads are counted as failed twice (\<open>failed_counts_retries\<close>); two defects of the shown texts
  (\<open>copy_text_reads_behind_terminator\<close>, \<open>blank_title_damages_display_name\<close>); an unchecked length (\<open>status_length_wraps\<close>); an audit that reports an
  unreadable database as empty (\<open>audit_masks_prepare_failure\<close>); an upload that is published but reported as failed when the final
  sync fails (\<open>uploads_exact\<close>).

  \<^bold>\<open>Not modelled.\<close> The SQL texts are names of statements, and the tables of function pointers that name SQLite's methods are left out.
  \<^verbatim>\<open>vita/paf_main.cpp\<close>, \<^verbatim>\<open>vita/queue_ui.h\<close> and \<^verbatim>\<open>desktop/usb_wpd/main.cpp\<close> are C++ over toolkits that are not in the repository; the
  desktop program is Python, of which only the quoting of queue fields is modelled. Starting the plug-in and installing its hook are
  calls of the kernel.
\<close>

end
